(* ===== verification/E10_Prelude.thy ===== *)
theory E10_Prelude
  imports Main "HOL-Library.Word" "HOL-Library.Monad_Syntax" "HOL-Library.Signed_Division"
begin

text \<open>
  Shared vocabulary of the development: the types that stand for the C types of ROMIO
  (\<open>ADIO_Offset\<close>, \<open>int\<close>, pointers, bytes), the result type of operations that may block or
  reach undefined behaviour, the C integer division, and the generic facts on lists, maps and
  division that the component theories use.
\<close>

section \<open>Types and constants\<close>

text \<open>
  \<open>ADIO_Offset\<close> is a 64-bit and \<open>int\<close> a 32-bit signed integer. Signed overflow is undefined in
  C, so both are modelled by unbounded integers, and an operation whose result can leave the
  range says so: it either ends in \<open>Fault\<close> or has a theorem that bounds the result.
\<close>

type_synonym addr = nat
type_synonym ADIO_Offset = int
type_synonym byte = "8 word"

definition NULL :: addr where
  "NULL = 0"

definition INT_MAX :: int where
  "INT_MAX = 2147483647"

definition MPI_SUCCESS :: int where
  "MPI_SUCCESS = 0"

section \<open>Outcomes\<close>

text \<open>
  \<open>Done x\<close>: the call returns \<open>x\<close>. \<open>Blocked\<close>: it waits (on a condition variable or on a
  request). \<open>Fault\<close>: it dereferences an invalid pointer or overflows a signed integer.
\<close>

datatype 'a outcome = Done 'a | Blocked | Fault

fun obind :: "'a outcome \<Rightarrow> ('a \<Rightarrow> 'b outcome) \<Rightarrow> 'b outcome" where
  "obind (Done x) f = f x"
| "obind Blocked f = Blocked"
| "obind Fault f = Fault"

fun of_option :: "'a option \<Rightarrow> 'a outcome" where
  "of_option None = Fault"
| "of_option (Some x) = Done x"

lemma obind_eq_Done [simp]:
  "obind r f = Done y \<longleftrightarrow> (\<exists>x. r = Done x \<and> f x = Done y)"
  by (cases r) auto

lemma of_option_eq_Done [simp]: "of_option x = Done y \<longleftrightarrow> x = Some y"
  by (cases x) auto

lemma obind_cong [fundef_cong]:
  "r = r' \<Longrightarrow> (\<And>x. r' = Done x \<Longrightarrow> f x = g x) \<Longrightarrow> obind r f = obind r' g"
  by (cases r') auto

lemma obind_assoc: "obind (obind r f) g = obind r (\<lambda>x. obind (f x) g)"
  by (cases r) auto

section \<open>C division\<close>

text \<open>On operands that are not negative, division and remainder of C are those of HOL.\<close>

lemma sdiv_nonneg: "0 \<le> a \<Longrightarrow> 0 < (b :: int) \<Longrightarrow> a sdiv b = a div b"
  by (simp add: signed_divide_int_def sgn_if)

lemma smod_nonneg: "0 \<le> a \<Longrightarrow> 0 < (b :: int) \<Longrightarrow> a smod b = a mod b"
  by (cases "a = 0") (auto simp: signed_modulo_int_def sgn_if)

section \<open>Collections of facts\<close>

named_theorems mem_simps "reading back what a pointer store was written with"
named_theorems frame_simps "fields an operation leaves alone"

end
