(* ===== verification/Linked_List.thy ===== *)
theory Linked_List
  imports E10_Prelude
begin

text \<open>
  The intrusive doubly linked lists of \<open>romio/adio/include/list.h\<close>, on an explicit pointer
  store. A store maps the address of a \<open>struct list_head\<close> to its two pointers; following a
  pointer that is not in the store is \<open>None\<close>. The predicate \<open>dll\<close> says that a head and the
  addresses of a list form a ring; every operation is shown to need no address outside the
  ring, to change nothing outside it, and to have the intended effect on the list.
\<close>

section \<open>The store\<close>

record list_head =
  lnext :: addr
  lprev :: addr

type_synonym lmem = "addr \<rightharpoonup> list_head"

definition nxt :: "lmem \<Rightarrow> addr \<Rightarrow> addr option" where
  "nxt m p = map_option lnext (m p)"

definition prv :: "lmem \<Rightarrow> addr \<Rightarrow> addr option" where
  "prv m p = map_option lprev (m p)"

definition set_next :: "lmem \<Rightarrow> addr \<Rightarrow> addr \<Rightarrow> lmem option" where
  "set_next m p v = (case m p of None \<Rightarrow> None | Some c \<Rightarrow> Some (m(p \<mapsto> c\<lparr>lnext := v\<rparr>)))"

definition set_prev :: "lmem \<Rightarrow> addr \<Rightarrow> addr \<Rightarrow> lmem option" where
  "set_prev m p v = (case m p of None \<Rightarrow> None | Some c \<Rightarrow> Some (m(p \<mapsto> c\<lparr>lprev := v\<rparr>)))"

section \<open>The operations of list.h\<close>

definition INIT_LIST_HEAD :: "lmem \<Rightarrow> addr \<Rightarrow> lmem option" where
  "INIT_LIST_HEAD m p = do { m1 \<leftarrow> set_next m p p; set_prev m1 p p }"

definition list_add_between :: "lmem \<Rightarrow> addr \<Rightarrow> addr \<Rightarrow> addr \<Rightarrow> lmem option" where
  "list_add_between m new p n = do {
     m1 \<leftarrow> set_prev m n new;
     m2 \<leftarrow> set_next m1 new n;
     m3 \<leftarrow> set_prev m2 new p;
     set_next m3 p new }"

definition list_add :: "lmem \<Rightarrow> addr \<Rightarrow> addr \<Rightarrow> lmem option" where
  "list_add m new head = do { n \<leftarrow> nxt m head; list_add_between m new head n }"

definition list_add_tail :: "lmem \<Rightarrow> addr \<Rightarrow> addr \<Rightarrow> lmem option" where
  "list_add_tail m new head = do { p \<leftarrow> prv m head; list_add_between m new p head }"

definition list_del_between :: "lmem \<Rightarrow> addr \<Rightarrow> addr \<Rightarrow> lmem option" where
  "list_del_between m p n = do { m1 \<leftarrow> set_prev m n p; set_next m1 p n }"

definition list_del :: "lmem \<Rightarrow> addr \<Rightarrow> lmem option" where
  "list_del m e = do {
     p \<leftarrow> prv m e; n \<leftarrow> nxt m e;
     m1 \<leftarrow> list_del_between m p n;
     m2 \<leftarrow> set_next m1 e NULL;
     set_prev m2 e NULL }"

definition list_del_init :: "lmem \<Rightarrow> addr \<Rightarrow> lmem option" where
  "list_del_init m e = do {
     p \<leftarrow> prv m e; n \<leftarrow> nxt m e;
     m1 \<leftarrow> list_del_between m p n;
     INIT_LIST_HEAD m1 e }"

definition list_move :: "lmem \<Rightarrow> addr \<Rightarrow> addr \<Rightarrow> lmem option" where
  "list_move m e head = do {
     p \<leftarrow> prv m e; n \<leftarrow> nxt m e;
     m1 \<leftarrow> list_del_between m p n;
     list_add m1 e head }"

definition list_move_tail :: "lmem \<Rightarrow> addr \<Rightarrow> addr \<Rightarrow> lmem option" where
  "list_move_tail m e head = do {
     p \<leftarrow> prv m e; n \<leftarrow> nxt m e;
     m1 \<leftarrow> list_del_between m p n;
     list_add_tail m1 e head }"

definition list_empty :: "lmem \<Rightarrow> addr \<Rightarrow> bool option" where
  "list_empty m head = do { n \<leftarrow> nxt m head; Some (n = head) }"

definition list_splice_raw :: "lmem \<Rightarrow> addr \<Rightarrow> addr \<Rightarrow> lmem option" where
  "list_splice_raw m lst head = do {
     first \<leftarrow> nxt m lst;
     lastp \<leftarrow> prv m lst;
     at \<leftarrow> nxt m head;
     m1 \<leftarrow> set_prev m first head;
     m2 \<leftarrow> set_next m1 head first;
     m3 \<leftarrow> set_next m2 lastp at;
     set_prev m3 at lastp }"

definition list_splice :: "lmem \<Rightarrow> addr \<Rightarrow> addr \<Rightarrow> lmem option" where
  "list_splice m lst head = do {
     e \<leftarrow> list_empty m lst;
     if e then Some m else list_splice_raw m lst head }"

definition list_splice_init :: "lmem \<Rightarrow> addr \<Rightarrow> addr \<Rightarrow> lmem option" where
  "list_splice_init m lst head = do {
     e \<leftarrow> list_empty m lst;
     if e then Some m
     else do { m1 \<leftarrow> list_splice_raw m lst head; INIT_LIST_HEAD m1 lst } }"

section \<open>Rings\<close>

fun linked :: "lmem \<Rightarrow> addr list \<Rightarrow> bool" where
  "linked m (a # b # xs) \<longleftrightarrow> nxt m a = Some b \<and> prv m b = Some a \<and> linked m (b # xs)"
| "linked m xs \<longleftrightarrow> True"

definition dll :: "lmem \<Rightarrow> addr \<Rightarrow> addr list \<Rightarrow> bool" where
  "dll m h xs \<longleftrightarrow> distinct (h # xs) \<and> linked m (h # xs) \<and>
     nxt m (last (h # xs)) = Some h \<and> prv m h = Some (last (h # xs))"

subsection \<open>Writing one pointer\<close>

lemma set_next_Some_iff:
  "set_next m p v = Some m' \<longleftrightarrow> (\<exists>c. m p = Some c \<and> m' = m(p \<mapsto> c\<lparr>lnext := v\<rparr>))"
  by (auto simp: set_next_def split: option.splits)

lemma set_prev_Some_iff:
  "set_prev m p v = Some m' \<longleftrightarrow> (\<exists>c. m p = Some c \<and> m' = m(p \<mapsto> c\<lparr>lprev := v\<rparr>))"
  by (auto simp: set_prev_def split: option.splits)

lemma set_next_mem [mem_simps]:
  assumes "set_next m p v = Some m'"
  shows "nxt m' = (nxt m)(p \<mapsto> v)" "prv m' = prv m" "dom m' = dom m"
    "x \<noteq> p \<Longrightarrow> m' x = m x"
  using assms by (auto simp: set_next_Some_iff nxt_def prv_def intro!: ext split: if_splits)

lemma set_prev_mem [mem_simps]:
  assumes "set_prev m p v = Some m'"
  shows "nxt m' = nxt m" "prv m' = (prv m)(p \<mapsto> v)" "dom m' = dom m"
    "x \<noteq> p \<Longrightarrow> m' x = m x"
  using assms by (auto simp: set_prev_Some_iff nxt_def prv_def intro!: ext split: if_splits)

lemma set_next_ok: "p \<in> dom m \<Longrightarrow> \<exists>m'. set_next m p v = Some m'"
  by (auto simp: set_next_def)

lemma set_prev_ok: "p \<in> dom m \<Longrightarrow> \<exists>m'. set_prev m p v = Some m'"
  by (auto simp: set_prev_def)

lemma dom_nxt: "nxt m p = Some q \<Longrightarrow> p \<in> dom m"
  by (auto simp: nxt_def)

lemma dom_prv: "prv m p = Some q \<Longrightarrow> p \<in> dom m"
  by (auto simp: prv_def)

subsection \<open>Chains\<close>

lemma linked_append:
  "xs \<noteq> [] \<Longrightarrow> ys \<noteq> [] \<Longrightarrow>
   linked m (xs @ ys) \<longleftrightarrow> linked m xs \<and> linked m ys \<and>
     nxt m (last xs) = Some (hd ys) \<and> prv m (hd ys) = Some (last xs)"
proof (induction xs rule: induct_list012)
  case (2 x)
  then show ?case by (cases ys) auto
next
  case (3 x y zs)
  then show ?case by auto
qed simp

lemma linked_cong:
  "linked m xs \<Longrightarrow> (\<And>x. x \<in> set (butlast xs) \<Longrightarrow> nxt m' x = nxt m x) \<Longrightarrow>
   (\<And>x. x \<in> set (tl xs) \<Longrightarrow> prv m' x = prv m x) \<Longrightarrow> linked m' xs"
  by (induction m xs rule: linked.induct) auto

lemma dll_cong:
  assumes "dll m h xs" "\<And>x. x \<in> set (h # xs) \<Longrightarrow> m' x = m x"
  shows "dll m' h xs"
proof -
  have "linked m' (h # xs)"
    by (rule linked_cong [of m]) (use assms in \<open>auto simp: dll_def nxt_def prv_def
      dest: in_set_butlastD split: if_splits\<close>)
  moreover have "nxt m' (last (h # xs)) = nxt m (last (h # xs))" "prv m' h = prv m h"
    using assms(2) [of h] assms(2) [OF last_in_set, of] by (simp_all add: nxt_def prv_def)
  ultimately show ?thesis
    using assms(1) by (simp add: dll_def)
qed


lemma linked_dom: "linked m xs \<Longrightarrow> 2 \<le> length xs \<Longrightarrow> set xs \<subseteq> dom m"
proof (induction m xs rule: linked.induct)
  case (1 m a b xs)
  then show ?case
    by (cases xs) (auto dest: dom_nxt dom_prv)
qed auto

lemma dll_dom:
  assumes "dll m h xs"
  shows "set (h # xs) \<subseteq> dom m"
proof (cases xs)
  case Nil
  with assms show ?thesis by (auto simp: dll_def dest: dom_nxt)
next
  case (Cons x ys)
  with assms linked_dom [of m "h # xs"] show ?thesis by (simp add: dll_def)
qed

lemma last_notin_butlast: "distinct xs \<Longrightarrow> xs \<noteq> [] \<Longrightarrow> last xs \<notin> set (butlast xs)"
  by (metis append_butlast_last_id distinct_butlast not_distinct_conv_prefix)

lemma hd_notin_tl: "distinct xs \<Longrightarrow> xs \<noteq> [] \<Longrightarrow> hd xs \<notin> set (tl xs)"
  by (cases xs) auto

subsection \<open>A ring cut at a point\<close>

text \<open>
  The ring of \<open>as @ bs\<close>, seen from the gap between \<open>as\<close> and \<open>bs\<close>: \<open>last (h # as)\<close> is
  the node before the gap and \<open>hd (bs @ [h])\<close> the node after it.
\<close>

lemma dll_cut:
  "dll m h (as @ bs) \<longleftrightarrow> distinct (h # as @ bs) \<and> linked m (h # as) \<and> linked m (bs @ [h]) \<and>
     nxt m (last (h # as)) = Some (hd (bs @ [h])) \<and> prv m (hd (bs @ [h])) = Some (last (h # as))"
proof (cases bs)
  case Nil
  then show ?thesis by (auto simp: dll_def)
next
  case (Cons b bs')
  have "linked m (h # as @ bs) \<longleftrightarrow> linked m (h # as) \<and> linked m bs \<and>
      nxt m (last (h # as)) = Some b \<and> prv m b = Some (last (h # as))"
    using linked_append [of "h # as" bs m] Cons by simp
  moreover have "linked m (bs @ [h]) \<longleftrightarrow> linked m bs \<and> nxt m (last bs) = Some h \<and> prv m h = Some (last bs)"
    using linked_append [of bs "[h]" m] Cons by simp
  ultimately show ?thesis
    using Cons by (auto simp: dll_def)
qed

lemma in_set_tlD: "x \<in> set (tl xs) \<Longrightarrow> x \<in> set xs"
  by (cases xs) auto

lemma dll_cut_separate:
  assumes "distinct (h # as @ bs)"
  shows "last (h # as) \<notin> set bs" "last (h # as) \<notin> set (butlast (h # as))"
    "hd (bs @ [h]) \<notin> set as" "hd (bs @ [h]) \<notin> set (tl (bs @ [h]))"
proof -
  show "last (h # as) \<notin> set bs" using assms last_in_set [of "h # as"] by auto
  show "last (h # as) \<notin> set (butlast (h # as))"
    using assms last_notin_butlast [of "h # as"] by simp
  show "hd (bs @ [h]) \<notin> set as" using assms hd_in_set [of "bs @ [h]"] by (auto simp del: hd_append)
  show "hd (bs @ [h]) \<notin> set (tl (bs @ [h]))" using assms hd_notin_tl [of "bs @ [h]"] by simp
qed

lemma list_add_between_effect:
  assumes "list_add_between m new p n = Some m'" "new \<noteq> p" "new \<noteq> n"
  shows "nxt m' = (nxt m)(new \<mapsto> n, p \<mapsto> new)" "prv m' = (prv m)(n \<mapsto> new, new \<mapsto> p)"
    "dom m' = dom m" "x \<notin> {new, p, n} \<Longrightarrow> m' x = m x"
  using assms
  by (clarsimp simp: list_add_between_def bind_eq_Some_conv, simp add: mem_simps fun_upd_twist)+

lemma list_add_between_ok:
  assumes "new \<in> dom m" "p \<in> dom m" "n \<in> dom m"
  shows "\<exists>m'. list_add_between m new p n = Some m'"
proof -
  obtain m1 where m1: "set_prev m n new = Some m1" using set_prev_ok assms by blast
  obtain m2 where m2: "set_next m1 new n = Some m2"
    using set_next_ok [of new m1 n] assms set_prev_mem(3) [OF m1] by auto
  obtain m3 where m3: "set_prev m2 new p = Some m3"
    using set_prev_ok [of new m2 p] assms set_prev_mem(3) [OF m1] set_next_mem(3) [OF m2] by auto
  obtain m4 where "set_next m3 p new = Some m4"
    using set_next_ok [of p m3 new] assms set_prev_mem(3) [OF m1] set_next_mem(3) [OF m2]
      set_prev_mem(3) [OF m3] by auto
  with m1 m2 m3 show ?thesis by (simp add: list_add_between_def)
qed

lemma list_add_between_ring:
  assumes ring: "dll m h (as @ bs)" and new: "new \<in> dom m" "new \<notin> set (h # as @ bs)"
  shows "\<exists>m'. list_add_between m new (last (h # as)) (hd (bs @ [h])) = Some m' \<and>
     dll m' h (as @ new # bs) \<and> dom m' = dom m \<and>
     (\<forall>x. x \<notin> set (h # new # as @ bs) \<longrightarrow> m' x = m x)"
proof -
  let ?p = "last (h # as)" and ?n = "hd (bs @ [h])"
  have pn: "?p \<in> set (h # as)" "?n \<in> set (bs @ [h])"
    by (rule last_in_set, simp) (rule hd_in_set, simp)
  have "?p \<in> dom m" "?n \<in> dom m"
    using dll_dom [OF ring] pn by auto
  then obtain m' where m': "list_add_between m new ?p ?n = Some m'"
    using list_add_between_ok new(1) by blast
  have ne: "new \<noteq> ?p" "new \<noteq> ?n" using new(2) pn by auto
  note eff = list_add_between_effect [OF m' ne]
  have cut: "distinct (h # as @ bs)" "linked m (h # as)" "linked m (bs @ [h])"
    using ring by (simp_all add: dll_cut)
  note sep = dll_cut_separate [OF cut(1)]
  have "linked m' (h # as)"
    by (rule linked_cong [OF cut(2)])
      (use sep new(2) ne in \<open>auto simp: eff dest: in_set_butlastD split: if_splits\<close>)
  moreover have "linked m' (bs @ [h])"
    by (rule linked_cong [OF cut(3)])
      (use sep new(2) ne in \<open>auto simp: eff dest: in_set_tlD split: if_splits\<close>)
  ultimately have "linked m' (h # as)" "linked m' ((new # bs) @ [h])"
    using linked_append [of "[new]" "bs @ [h]" m'] ne by (auto simp: eff)
  then have "dll m' h (as @ new # bs)"
    unfolding dll_cut [of m' h as "new # bs"] using cut(1) new(2) ne by (auto simp: eff)
  moreover have "m' x = m x" if "x \<notin> set (h # new # as @ bs)" for x
    by (rule eff(4)) (use that pn in auto)
  ultimately show ?thesis
    using m' eff(3) by blast
qed

lemma list_del_between_effect:
  assumes "list_del_between m p n = Some m'"
  shows "nxt m' = (nxt m)(p \<mapsto> n)" "prv m' = (prv m)(n \<mapsto> p)"
    "dom m' = dom m" "x \<notin> {p, n} \<Longrightarrow> m' x = m x"
  using assms
  by (clarsimp simp: list_del_between_def bind_eq_Some_conv, simp add: mem_simps)+

lemma list_del_between_ok:
  assumes "p \<in> dom m" "n \<in> dom m"
  shows "\<exists>m'. list_del_between m p n = Some m'"
proof -
  obtain m1 where m1: "set_prev m n p = Some m1" using set_prev_ok assms by blast
  obtain m2 where "set_next m1 p n = Some m2"
    using set_next_ok [of p m1 n] assms set_prev_mem(3) [OF m1] by auto
  with m1 show ?thesis by (simp add: list_del_between_def)
qed

lemma dll_neighbours:
  assumes "dll m h (as @ x # bs)"
  shows "prv m x = Some (last (h # as))" "nxt m x = Some (hd (bs @ [h]))"
proof -
  show "prv m x = Some (last (h # as))"
    using assms dll_cut [of m h as "x # bs"] by simp
  show "nxt m x = Some (hd (bs @ [h]))"
    using assms dll_cut [of m h "as @ [x]" bs] by simp
qed

text \<open>Unlinking an entry closes the ring over it and leaves the entry itself untouched.\<close>

lemma list_del_between_ring:
  assumes ring: "dll m h (as @ x # bs)"
  shows "\<exists>m'. list_del_between m (last (h # as)) (hd (bs @ [h])) = Some m' \<and>
     dll m' h (as @ bs) \<and> dom m' = dom m \<and> m' x = m x \<and>
     (\<forall>y. y \<notin> set (h # as @ bs) \<longrightarrow> m' y = m y)"
proof -
  let ?p = "last (h # as)" and ?n = "hd (bs @ [h])"
  have pn: "?p \<in> set (h # as)" "?n \<in> set (bs @ [h])"
    by (rule last_in_set, simp) (rule hd_in_set, simp)
  have "?p \<in> dom m" "?n \<in> dom m" using dll_dom [OF ring] pn by auto
  then obtain m' where m': "list_del_between m ?p ?n = Some m'"
    using list_del_between_ok by blast
  note eff = list_del_between_effect [OF m']
  have dist: "distinct (h # as @ x # bs)" and lk: "linked m (h # as)" "linked m (bs @ [h])"
    using ring dll_cut [of m h as "x # bs"] dll_cut [of m h "as @ [x]" bs] by simp_all
  then have dist': "distinct (h # as @ bs)" and x: "x \<notin> set (h # as @ bs)" by auto
  note sep = dll_cut_separate [OF dist']
  have "linked m' (h # as)"
    by (rule linked_cong [OF lk(1)])
      (use sep in \<open>auto simp: eff dest: in_set_butlastD split: if_splits\<close>)
  moreover have "linked m' (bs @ [h])"
    by (rule linked_cong [OF lk(2)])
      (use sep in \<open>auto simp: eff dest: in_set_tlD split: if_splits\<close>)
  ultimately have "dll m' h (as @ bs)"
    unfolding dll_cut [of m' h as bs] using dist' by (simp add: eff)
  moreover have "m' y = m y" if "y \<notin> set (h # as @ bs)" for y
    by (rule eff(4)) (use that pn in auto)
  ultimately show ?thesis using m' eff(3) x by blast
qed

section \<open>What the operations do to the list\<close>

lemma INIT_LIST_HEAD_ok:
  assumes "h \<in> dom m"
  shows "\<exists>m'. INIT_LIST_HEAD m h = Some m' \<and> dll m' h [] \<and> dom m' = dom m \<and>
     (\<forall>x. x \<noteq> h \<longrightarrow> m' x = m x)"
proof -
  obtain m1 where m1: "set_next m h h = Some m1" using set_next_ok assms by blast
  obtain m2 where m2: "set_prev m1 h h = Some m2"
    using set_prev_ok [of h m1 h] assms set_next_mem(3) [OF m1] by auto
  then show ?thesis
    using m1 set_next_mem [OF m1] set_prev_mem [OF m2]
    by (auto simp: INIT_LIST_HEAD_def dll_def)
qed

lemma list_add_tail_ok:
  assumes "dll m h xs" "new \<in> dom m" "new \<notin> set (h # xs)"
  shows "\<exists>m'. list_add_tail m new h = Some m' \<and> dll m' h (xs @ [new]) \<and> dom m' = dom m \<and>
     (\<forall>x. x \<notin> set (h # new # xs) \<longrightarrow> m' x = m x)"
proof -
  have "prv m h = Some (last (h # xs))" using assms(1) by (simp add: dll_def)
  then show ?thesis
    using list_add_between_ring [of m h xs "[]" new] assms by (simp add: list_add_tail_def)
qed

lemma list_add_ok:
  assumes "dll m h xs" "new \<in> dom m" "new \<notin> set (h # xs)"
  shows "\<exists>m'. list_add m new h = Some m' \<and> dll m' h (new # xs) \<and> dom m' = dom m \<and>
     (\<forall>x. x \<notin> set (h # new # xs) \<longrightarrow> m' x = m x)"
proof -
  have "nxt m h = Some (hd (xs @ [h]))" using assms(1) dll_cut [of m h "[]" xs] by simp
  then show ?thesis
    using list_add_between_ring [of m h "[]" xs new] assms by (simp add: list_add_def)
qed

lemma list_empty_iff:
  assumes "dll m h xs"
  shows "list_empty m h = Some (xs = [])"
proof -
  have "nxt m h = Some (hd (xs @ [h]))" using assms dll_cut [of m h "[]" xs] by simp
  moreover have "hd (xs @ [h]) = h \<longleftrightarrow> xs = []" using assms by (cases xs) (auto simp: dll_def)
  ultimately show ?thesis by (simp add: list_empty_def)
qed

lemma list_del_ok:
  assumes ring: "dll m h (as @ x # bs)"
  shows "\<exists>m'. list_del m x = Some m' \<and> dll m' h (as @ bs) \<and> dom m' = dom m \<and>
     m' x = Some \<lparr>lnext = NULL, lprev = NULL\<rparr> \<and>
     (\<forall>y. y \<notin> set (h # as @ x # bs) \<longrightarrow> m' y = m y)"
proof -
  obtain m1 where m1: "list_del_between m (last (h # as)) (hd (bs @ [h])) = Some m1"
      "dll m1 h (as @ bs)" "dom m1 = dom m" "\<forall>y. y \<notin> set (h # as @ bs) \<longrightarrow> m1 y = m y"
    using list_del_between_ring [OF ring] by blast
  have "x \<in> dom m1" "x \<notin> set (h # as @ bs)"
    using dll_dom [OF ring] m1(3) ring by (auto simp: dll_def)
  then obtain c where "m1 x = Some c" by auto
  let ?m = "m1(x \<mapsto> \<lparr>lnext = NULL, lprev = NULL\<rparr>)"
  have "list_del m x = Some ?m"
    using dll_neighbours [OF ring] m1(1) \<open>m1 x = Some c\<close>
    by (cases c) (simp add: list_del_def set_next_def set_prev_def)
  moreover have "dll ?m h (as @ bs)"
    by (rule dll_cong [OF m1(2)]) (use \<open>x \<notin> set (h # as @ bs)\<close> in auto)
  moreover have "dom ?m = dom m" using m1(3) \<open>x \<in> dom m1\<close> by auto
  ultimately show ?thesis using m1(4) by auto
qed

lemma list_move_tail_ok:
  assumes ring: "dll m h (as @ x # bs)"
  shows "\<exists>m'. list_move_tail m x h = Some m' \<and> dll m' h (as @ bs @ [x]) \<and> dom m' = dom m"
proof -
  obtain m1 where m1: "list_del_between m (last (h # as)) (hd (bs @ [h])) = Some m1"
      "dll m1 h (as @ bs)" "dom m1 = dom m"
    using list_del_between_ring [OF ring] by blast
  have "x \<in> dom m1" "x \<notin> set (h # as @ bs)"
    using dll_dom [OF ring] m1(3) ring by (auto simp: dll_def)
  then show ?thesis
    using list_add_tail_ok [OF m1(2), of x] m1(1,3) dll_neighbours [OF ring]
    by (auto simp: list_move_tail_def)
qed

lemma list_move_ok:
  assumes ring: "dll m h (as @ x # bs)"
  shows "\<exists>m'. list_move m x h = Some m' \<and> dll m' h (x # as @ bs) \<and> dom m' = dom m"
proof -
  obtain m1 where m1: "list_del_between m (last (h # as)) (hd (bs @ [h])) = Some m1"
      "dll m1 h (as @ bs)" "dom m1 = dom m"
    using list_del_between_ring [OF ring] by blast
  have "x \<in> dom m1" "x \<notin> set (h # as @ bs)"
    using dll_dom [OF ring] m1(3) ring by (auto simp: dll_def)
  then show ?thesis
    using list_add_ok [OF m1(2), of x] m1(1,3) dll_neighbours [OF ring]
    by (auto simp: list_move_def)
qed

subsection \<open>Splicing\<close>

lemma list_splice_raw_ok:
  assumes "{lst, head, first, lastp, at} \<subseteq> dom m" "nxt m lst = Some first" "prv m lst = Some lastp"
    "nxt m head = Some at" "head \<noteq> lastp" "first \<noteq> at"
  shows "\<exists>m'. list_splice_raw m lst head = Some m' \<and> dom m' = dom m \<and>
     nxt m' = (nxt m)(head \<mapsto> first, lastp \<mapsto> at) \<and> prv m' = (prv m)(first \<mapsto> head, at \<mapsto> lastp) \<and>
     (\<forall>x. x \<notin> {head, first, lastp, at} \<longrightarrow> m' x = m x)"
proof -
  obtain m1 where m1: "set_prev m first head = Some m1"
    using set_prev_ok [of first m head] assms(1) by auto
  have d1: "dom m1 = dom m" using set_prev_mem(3) [OF m1] .
  obtain m2 where m2: "set_next m1 head first = Some m2"
    using set_next_ok [of head m1 first] assms(1) d1 by auto
  have d2: "dom m2 = dom m" using set_next_mem(3) [OF m2] d1 by simp
  obtain m3 where m3: "set_next m2 lastp at = Some m3"
    using set_next_ok [of lastp m2 at] assms(1) d2 by auto
  have d3: "dom m3 = dom m" using set_next_mem(3) [OF m3] d2 by simp
  obtain m4 where m4: "set_prev m3 at lastp = Some m4"
    using set_prev_ok [of at m3 lastp] assms(1) d3 by auto
  have d4: "dom m4 = dom m" using set_prev_mem(3) [OF m4] d3 by simp
  have "list_splice_raw m lst head = Some m4"
    using assms m1 m2 m3 m4 by (simp add: list_splice_raw_def)
  then show ?thesis
    using d4 set_prev_mem [OF m1] set_next_mem [OF m2] set_next_mem [OF m3] set_prev_mem [OF m4]
    by auto
qed

lemma list_splice_ring:
  assumes A: "dll m lst xs" and B: "dll m h ys" and ne: "xs \<noteq> []"
    and disj: "set (lst # xs) \<inter> set (h # ys) = {}"
  shows "\<exists>m'. list_splice_raw m lst h = Some m' \<and> dll m' h (xs @ ys) \<and> dom m' = dom m \<and> m' lst = m lst"
proof -
  let ?f = "hd xs" and ?l = "last xs" and ?at = "hd (ys @ [h])"
  have A': "linked m xs" "nxt m lst = Some ?f" "prv m lst = Some ?l" "distinct (lst # xs)"
    using A ne dll_cut [of m lst "[]" xs] linked_append [of xs "[lst]" m] by (auto simp: dll_def)
  have B': "linked m (ys @ [h])" "nxt m h = Some ?at" "distinct (h # ys)"
    using B dll_cut [of m h "[]" ys] by auto
  have mem: "?f \<in> set xs" "?l \<in> set xs" "?at \<in> set (h # ys)"
    using ne hd_in_set [of "ys @ [h]"] by (auto simp del: hd_append)
  have doms: "{lst, h, ?f, ?l, ?at} \<subseteq> dom m" and neq: "h \<noteq> ?l" "?f \<noteq> ?at" "lst \<notin> {h, ?f, ?l, ?at}"
    using dll_dom [OF A] dll_dom [OF B] mem disj A'(4) by auto
  obtain m' where m': "list_splice_raw m lst h = Some m'" "dom m' = dom m"
      "nxt m' = (nxt m)(h \<mapsto> ?f, ?l \<mapsto> ?at)" "prv m' = (prv m)(?f \<mapsto> h, ?at \<mapsto> ?l)"
      "\<forall>x. x \<notin> {h, ?f, ?l, ?at} \<longrightarrow> m' x = m x"
    using list_splice_raw_ok [OF doms A'(2,3) B'(2) neq(1,2)] by blast
  have sep1: "?l \<notin> set (butlast xs)" "?f \<notin> set (tl xs)" "?at \<notin> set (tl (ys @ [h]))"
    using A'(4) B'(3) ne last_notin_butlast [of xs] hd_notin_tl [of xs] hd_notin_tl [of "ys @ [h]"]
    by simp_all
  have dis: "x \<notin> set (h # ys)" if "x \<in> set xs" for x using disj that by auto
  have sep2: "h \<notin> set xs" "?at \<notin> set xs" "?l \<notin> set (h # ys)" "?f \<notin> set (h # ys)"
    using dis [of h] dis [of ?at] dis [OF mem(1)] dis [OF mem(2)] mem(3) by auto
  note sep = sep1 sep2 [simplified]
  have "linked m' xs"
    by (rule linked_cong [OF A'(1)])
      (use sep in \<open>auto simp: m'(3,4) dest: in_set_butlastD in_set_tlD split: if_splits\<close>)
  moreover have "linked m' (ys @ [h])"
    by (rule linked_cong [OF B'(1)])
      (use sep B'(3) in \<open>auto simp: m'(3,4) dest: in_set_butlastD in_set_tlD split: if_splits\<close>)
  ultimately have "linked m' (xs @ ys @ [h])"
    using linked_append [of xs "ys @ [h]" m'] ne by (simp add: m'(3,4))
  then have "dll m' h (xs @ ys)"
    unfolding dll_cut [of m' h "[]" "xs @ ys", simplified]
    using A'(4) B'(3) disj ne sep neq(2) by (auto simp: m'(3,4))
  then show ?thesis using m' neq by blast
qed

lemma list_splice_init_ok:
  assumes "dll m lst xs" "dll m h ys" "set (lst # xs) \<inter> set (h # ys) = {}"
  shows "\<exists>m'. list_splice_init m lst h = Some m' \<and> dll m' h (xs @ ys) \<and> dll m' lst []"
proof (cases "xs = []")
  case True
  with assms list_empty_iff [OF assms(1)] show ?thesis by (auto simp: list_splice_init_def)
next
  case False
  obtain m1 where m1: "list_splice_raw m lst h = Some m1" "dll m1 h (xs @ ys)" "dom m1 = dom m"
    using list_splice_ring [OF assms(1,2) False assms(3)] by blast
  then obtain m2 where m2: "INIT_LIST_HEAD m1 lst = Some m2" "dll m2 lst []"
      "\<forall>x. x \<noteq> lst \<longrightarrow> m2 x = m1 x"
    using INIT_LIST_HEAD_ok [of lst m1] dll_dom [OF assms(1)] by auto
  have "dll m2 h (xs @ ys)"
    by (rule dll_cong [OF m1(2)]) (use m2(3) assms(1,3) in \<open>auto simp: dll_def\<close>)
  then show ?thesis
    using m1(1) m2(1,2) False list_empty_iff [OF assms(1)] by (simp add: list_splice_init_def)
qed

section \<open>Properties of the list operations\<close>


definition demo_ring :: lmem where
  "demo_ring = [1 \<mapsto> \<lparr>lnext = 2, lprev = 3\<rparr>, 2 \<mapsto> \<lparr>lnext = 3, lprev = 1\<rparr>, 3 \<mapsto> \<lparr>lnext = 1, lprev = 2\<rparr>,
     4 \<mapsto> \<lparr>lnext = 5, lprev = 5\<rparr>, 5 \<mapsto> \<lparr>lnext = 4, lprev = 4\<rparr>]"

lemma demo_rings: "dll demo_ring 1 [2, 3]" "dll demo_ring 4 [5]"
  by (simp_all add: dll_def demo_ring_def nxt_def prv_def)


text \<open>
  \<open>list_splice_init\<close> puts the elements of one ring in front of another, in their order, and
  leaves the first ring empty; it does so for an empty ring as well.
\<close>

theorem list_splice_init_joins:
  assumes "dll m lst xs" "dll m h ys" "set (lst # xs) \<inter> set (h # ys) = {}"
  shows "\<exists>m'. list_splice_init m lst h = Some m' \<and> dll m' h (xs @ ys) \<and> list_empty m' lst = Some True"
proof -
  obtain m' where "list_splice_init m lst h = Some m'" "dll m' h (xs @ ys)" "dll m' lst []"
    using list_splice_init_ok [OF assms] by blast
  with list_empty_iff [of m' lst "[]"] show ?thesis by simp
qed

theorem list_splice_init_joins_witness:
  "\<exists>m'. list_splice_init demo_ring 1 4 = Some m' \<and> dll m' 4 [2, 3, 5] \<and> list_empty m' 1 = Some True"
  using list_splice_init_joins [OF demo_rings] by simp

end
