(* ===== verification/Atomic_Queue.thy ===== *)
theory Atomic_Queue
  imports Linked_List
begin

text \<open>
  Synchronisation requests and the queues that carry them
  (\<open>romio/adio/common/adi_atomic_queue.c\<close>, \<open>romio/adio/include/adi_atomic_queue.h\<close>,
  \<open>atomic_queue.h\<close>). A request is a record of integers (handles and pointers are numbers). A
  queue is a ring of envelopes with one empty envelope at its tail; it is modelled with its own
  region of the pointer store, since no envelope is ever linked into two queues.
  The locale \<open>fifo_queue\<close> states what the sync threads rely on, and its interpretation shows
  that the pointer code provides it.
\<close>

section \<open>Synchronisation requests\<close>

definition ADIOI_THREAD_SYNC :: int where
  "ADIOI_THREAD_SYNC = 0"

definition ADIOI_THREAD_SHUTDOWN :: int where
  "ADIOI_THREAD_SHUTDOWN = 1"

text \<open>The keys of \<open>atomic_queue.h\<close>; the last one doubles as an error code.\<close>

definition ADIOI_SYNC_TYPE :: int where
  "ADIOI_SYNC_TYPE = 0"

definition ADIOI_SYNC_OFFSET :: int where
  "ADIOI_SYNC_OFFSET = 1"

definition ADIOI_SYNC_DATATYPE :: int where
  "ADIOI_SYNC_DATATYPE = 2"

definition ADIOI_SYNC_COUNT :: int where
  "ADIOI_SYNC_COUNT = 3"

definition ADIOI_SYNC_REQ :: int where
  "ADIOI_SYNC_REQ = 4"

definition ADIOI_SYNC_ERR_CODE :: int where
  "ADIOI_SYNC_ERR_CODE = 5"

definition ADIOI_SYNC_FFLAGS :: int where
  "ADIOI_SYNC_FFLAGS = 6"

definition ADIOI_SYNC_ALL :: int where
  "ADIOI_SYNC_ALL = 7"

definition ADIOI_SYNC_REQ_ERR :: int where
  "ADIOI_SYNC_REQ_ERR = 8"

lemmas sync_consts = ADIOI_THREAD_SYNC_def ADIOI_THREAD_SHUTDOWN_def ADIOI_SYNC_TYPE_def
  ADIOI_SYNC_OFFSET_def ADIOI_SYNC_DATATYPE_def ADIOI_SYNC_COUNT_def ADIOI_SYNC_REQ_def
  ADIOI_SYNC_ERR_CODE_def ADIOI_SYNC_FFLAGS_def ADIOI_SYNC_ALL_def ADIOI_SYNC_REQ_ERR_def
  MPI_SUCCESS_def

record sync_req =
  rtype :: int
  roff :: ADIO_Offset
  rdatatype :: int
  rcount :: int
  rreq :: int
  rerror_code :: int
  rfflags :: int

text \<open>
  The variadic arguments are the list of the values passed. Reading an argument that was not
  passed is undefined, which is \<open>None\<close>. The key \<open>ADIOI_SYNC_TYPE\<close> has no \<open>break\<close> in the
  source: it goes on to store the offset as well.
\<close>

fun ADIOI_Sync_req_set_key :: "sync_req \<Rightarrow> int list \<Rightarrow> (int \<times> sync_req) option" where
  "ADIOI_Sync_req_set_key r [] = None"
| "ADIOI_Sync_req_set_key r (key # args) =
    (if key = ADIOI_SYNC_TYPE then
       (case args of t # off # _ \<Rightarrow> Some (MPI_SUCCESS, r\<lparr>rtype := t, roff := off\<rparr>) | _ \<Rightarrow> None)
     else if key = ADIOI_SYNC_OFFSET then
       (case args of off # _ \<Rightarrow> Some (MPI_SUCCESS, r\<lparr>roff := off\<rparr>) | _ \<Rightarrow> None)
     else if key = ADIOI_SYNC_DATATYPE then
       (case args of d # _ \<Rightarrow> Some (MPI_SUCCESS, r\<lparr>rdatatype := d\<rparr>) | _ \<Rightarrow> None)
     else if key = ADIOI_SYNC_COUNT then
       (case args of c # _ \<Rightarrow> Some (MPI_SUCCESS, r\<lparr>rcount := c\<rparr>) | _ \<Rightarrow> None)
     else if key = ADIOI_SYNC_REQ then
       (case args of q # _ \<Rightarrow> Some (MPI_SUCCESS, r\<lparr>rreq := q\<rparr>) | _ \<Rightarrow> None)
     else if key = ADIOI_SYNC_ERR_CODE then
       (case args of e # _ \<Rightarrow> Some (MPI_SUCCESS, r\<lparr>rerror_code := e\<rparr>) | _ \<Rightarrow> None)
     else if key = ADIOI_SYNC_FFLAGS then
       (case args of f # _ \<Rightarrow> Some (MPI_SUCCESS, r\<lparr>rfflags := f\<rparr>) | _ \<Rightarrow> None)
     else if key = ADIOI_SYNC_ALL then
       (case args of t # off # d # c # q # e # f # _ \<Rightarrow>
          Some (MPI_SUCCESS, \<lparr>rtype = t, roff = off, rdatatype = d, rcount = c, rreq = q,
            rerror_code = e, rfflags = f\<rparr>)
        | _ \<Rightarrow> None)
     else Some (ADIOI_SYNC_REQ_ERR, r))"

text \<open>The result is the return value and the values stored through the output pointers.\<close>

definition ADIOI_Sync_req_get_key :: "sync_req \<Rightarrow> int \<Rightarrow> int \<times> int list" where
  "ADIOI_Sync_req_get_key r key =
    (if key = ADIOI_SYNC_TYPE then (MPI_SUCCESS, [rtype r])
     else if key = ADIOI_SYNC_OFFSET then
       (if rtype r = ADIOI_THREAD_SYNC then (MPI_SUCCESS, [roff r]) else (-1, []))
     else if key = ADIOI_SYNC_DATATYPE then
       (if rtype r = ADIOI_THREAD_SYNC then (MPI_SUCCESS, [rdatatype r]) else (-1, []))
     else if key = ADIOI_SYNC_COUNT then
       (if rtype r = ADIOI_THREAD_SYNC then (MPI_SUCCESS, [rcount r]) else (-1, []))
     else if key = ADIOI_SYNC_REQ then (MPI_SUCCESS, [rreq r])
     else if key = ADIOI_SYNC_ERR_CODE then (MPI_SUCCESS, [rerror_code r])
     else if key = ADIOI_SYNC_FFLAGS then (MPI_SUCCESS, [rfflags r])
     else if key = ADIOI_SYNC_ALL then
       (if rtype r = ADIOI_THREAD_SYNC
        then (MPI_SUCCESS, [roff r, rdatatype r, rcount r, rreq r, rerror_code r, rfflags r])
        else (-1, []))
     else (-1, []))"

text \<open>
  \<open>r0\<close> is the content of the freshly allocated memory. \<open>dt_null\<close> and \<open>req_null\<close> are the MPI
  library's \<open>MPI_DATATYPE_NULL\<close> and \<open>MPI_REQUEST_NULL\<close>.
\<close>

fun ADIOI_Sync_req_init ::
  "int \<Rightarrow> int \<Rightarrow> sync_req \<Rightarrow> int list \<Rightarrow> (int \<times> sync_req) option" where
  "ADIOI_Sync_req_init dt_null req_null r0 [] = None"
| "ADIOI_Sync_req_init dt_null req_null r0 (ty # args) =
    (if ty = ADIOI_THREAD_SYNC then
       (case args of off # d # c # q # f # _ \<Rightarrow>
          map_option (\<lambda>(_, r). (MPI_SUCCESS, r))
            (ADIOI_Sync_req_set_key r0 [ADIOI_SYNC_ALL, ty, off, d, c, q, MPI_SUCCESS, f])
        | _ \<Rightarrow> None)
     else if ty = ADIOI_THREAD_SHUTDOWN then
       map_option (\<lambda>(_, r). (MPI_SUCCESS, r))
         (ADIOI_Sync_req_set_key r0 [ADIOI_SYNC_ALL, ty, 0, dt_null, 0, req_null, MPI_SUCCESS, 0])
     else Some (ADIOI_SYNC_REQ_ERR, r0))"

definition ADIOI_Sync_req_init_from ::
  "int \<Rightarrow> int \<Rightarrow> sync_req \<Rightarrow> sync_req \<Rightarrow> (int \<times> sync_req) option" where
  "ADIOI_Sync_req_init_from dt_null req_null r0 old =
     ADIOI_Sync_req_init dt_null req_null r0
       [rtype old, roff old, rdatatype old, rcount old, rreq old, rfflags old]"

section \<open>Queues\<close>

text \<open>
  \<open>qhead\<close> is the address of the queue's own \<open>list_head\<close>; an envelope is known by the address
  of its \<open>list_head\<close> member, from which \<open>list_entry\<close> computes the envelope by a fixed offset.
  \<open>envs\<close> holds the request pointer of each envelope that is allocated, and \<open>brk\<close> the next
  address the allocator hands out (\<open>ADIOI_Malloc\<close> aborts the program when it cannot allocate).
\<close>

record aqueue =
  qhead :: addr
  links :: lmem
  envs :: "addr \<rightharpoonup> addr"
  qsize :: int
  brk :: addr

definition malloc_env :: "aqueue \<Rightarrow> addr \<times> aqueue" where
  "malloc_env q = (let a = brk q in
     (a, q\<lparr>links := (links q)(a \<mapsto> \<lparr>lnext = NULL, lprev = NULL\<rparr>), envs := (envs q)(a \<mapsto> NULL),
           brk := Suc a\<rparr>))"

definition free_env :: "aqueue \<Rightarrow> addr \<Rightarrow> aqueue option" where
  "free_env q e = (if e \<in> dom (envs q)
     then Some (q\<lparr>links := (links q)(e := None), envs := (envs q)(e := None)\<rparr>) else None)"

definition ADIOI_Atomic_queue_init :: "addr \<Rightarrow> aqueue outcome" where
  "ADIOI_Atomic_queue_init h = of_option (do {
     l \<leftarrow> INIT_LIST_HEAD [h \<mapsto> \<lparr>lnext = NULL, lprev = NULL\<rparr>] h;
     let (env, q) = malloc_env \<lparr>qhead = h, links = l, envs = Map.empty, qsize = 0, brk = Suc h\<rparr>;
     l' \<leftarrow> list_add_tail (links q) env h;
     Some (q\<lparr>links := l', qsize := 0\<rparr>) })"

text \<open>What is left of the queue's region when it is finalised: nothing, unless it leaks.\<close>

definition ADIOI_Atomic_queue_fini :: "aqueue \<Rightarrow> (lmem \<times> (addr \<rightharpoonup> addr)) outcome" where
  "ADIOI_Atomic_queue_fini q = of_option (do {
     env \<leftarrow> prv (links q) (qhead q);
     q' \<leftarrow> free_env q env;
     Some ((links q')(qhead q := None), envs q') })"

definition ADIOI_Atomic_queue_empty :: "aqueue \<Rightarrow> bool" where
  "ADIOI_Atomic_queue_empty q = (if qsize q > 0 then False else True)"

definition ADIOI_Atomic_queue_size :: "aqueue \<Rightarrow> int" where
  "ADIOI_Atomic_queue_size q = qsize q"

definition ADIOI_Atomic_queue_front :: "aqueue \<Rightarrow> addr outcome" where
  "ADIOI_Atomic_queue_front q =
    (if ADIOI_Atomic_queue_empty q then Blocked
     else of_option (do { env \<leftarrow> nxt (links q) (qhead q); envs q env }))"

definition ADIOI_Atomic_queue_back :: "aqueue \<Rightarrow> addr outcome" where
  "ADIOI_Atomic_queue_back q =
    (if ADIOI_Atomic_queue_empty q then Blocked
     else of_option (do {
       p \<leftarrow> prv (links q) (qhead q); env \<leftarrow> prv (links q) p; envs q env }))"

definition ADIOI_Atomic_queue_push :: "aqueue \<Rightarrow> addr \<Rightarrow> aqueue outcome" where
  "ADIOI_Atomic_queue_push q r = of_option (do {
     env \<leftarrow> prv (links q) (qhead q);
     _ \<leftarrow> envs q env;
     let q1 = q\<lparr>envs := (envs q)(env \<mapsto> r)\<rparr>;
     let (new, q2) = malloc_env q1;
     l \<leftarrow> list_add_tail (links q2) new (qhead q2);
     if qsize q2 < INT_MAX then Some (q2\<lparr>links := l, qsize := qsize q2 + 1\<rparr>) else None })"

text \<open>The push wakes a waiting thread only when the queue was empty before it.\<close>

definition ADIOI_Atomic_queue_push_signals :: "aqueue \<Rightarrow> bool" where
  "ADIOI_Atomic_queue_push_signals q \<longleftrightarrow> qsize q = 0"

definition ADIOI_Atomic_queue_pop :: "aqueue \<Rightarrow> aqueue outcome" where
  "ADIOI_Atomic_queue_pop q =
    (if ADIOI_Atomic_queue_empty q then Blocked
     else of_option (do {
       env \<leftarrow> nxt (links q) (qhead q);
       l \<leftarrow> list_del (links q) env;
       q' \<leftarrow> free_env (q\<lparr>links := l\<rparr>) env;
       Some (q'\<lparr>qsize := qsize q' - 1\<rparr>) }))"

section \<open>The interface the sync threads use\<close>

text \<open>Pushing a list of elements, and popping \<open>n\<close> elements one after the other.\<close>

fun push_all :: "('q \<Rightarrow> 'a \<Rightarrow> 'q outcome) \<Rightarrow> 'q \<Rightarrow> 'a list \<Rightarrow> 'q outcome" where
  "push_all push q [] = Done q"
| "push_all push q (x # xs) = obind (push q x) (\<lambda>q'. push_all push q' xs)"

fun pop_n ::
  "('q \<Rightarrow> 'a outcome) \<Rightarrow> ('q \<Rightarrow> 'q outcome) \<Rightarrow> nat \<Rightarrow> 'q \<Rightarrow> ('a list \<times> 'q) outcome" where
  "pop_n front pop 0 q = Done ([], q)"
| "pop_n front pop (Suc n) q =
     obind (front q) (\<lambda>x. obind (pop q) (\<lambda>q'.
       obind (pop_n front pop n q') (\<lambda>(xs, q''). Done (x # xs, q''))))"

locale fifo_queue =
  fixes invar :: "'q \<Rightarrow> bool" and contents :: "'q \<Rightarrow> 'a list"
    and is_empty :: "'q \<Rightarrow> bool" and qlength :: "'q \<Rightarrow> int"
    and front :: "'q \<Rightarrow> 'a outcome" and rear :: "'q \<Rightarrow> 'a outcome"
    and push :: "'q \<Rightarrow> 'a \<Rightarrow> 'q outcome" and pop :: "'q \<Rightarrow> 'q outcome"
  assumes is_empty_iff: "invar q \<Longrightarrow> is_empty q \<longleftrightarrow> contents q = []"
    and qlength_eq: "invar q \<Longrightarrow> qlength q = int (length (contents q))"
    and front_eq: "invar q \<Longrightarrow> front q = (if contents q = [] then Blocked else Done (hd (contents q)))"
    and rear_eq: "invar q \<Longrightarrow> rear q = (if contents q = [] then Blocked else Done (last (contents q)))"
    and push_ok: "invar q \<Longrightarrow> int (length (contents q)) < INT_MAX \<Longrightarrow>
      \<exists>q'. push q x = Done q' \<and> invar q' \<and> contents q' = contents q @ [x]"
    and push_full: "invar q \<Longrightarrow> INT_MAX \<le> int (length (contents q)) \<Longrightarrow> push q x = Fault"
    and pop_ok: "invar q \<Longrightarrow> contents q = x # xs \<Longrightarrow>
      \<exists>q'. pop q = Done q' \<and> invar q' \<and> contents q' = xs"
    and pop_blocked: "invar q \<Longrightarrow> contents q = [] \<Longrightarrow> pop q = Blocked"
begin

lemma push_Done:
  assumes "invar q" "push q x = Done q'"
  shows "invar q' \<and> contents q' = contents q @ [x]"
  using assms push_ok [of q x] push_full [of q x]
  by (cases "int (length (contents q)) < INT_MAX") auto

lemma push_all_ok:
  "invar q \<Longrightarrow> int (length (contents q) + length xs) \<le> INT_MAX \<Longrightarrow>
   \<exists>q'. push_all push q xs = Done q' \<and> invar q' \<and> contents q' = contents q @ xs"
proof (induction xs arbitrary: q)
  case Nil
  then show ?case by simp
next
  case (Cons x xs)
  then obtain q1 where q1: "push q x = Done q1" "invar q1" "contents q1 = contents q @ [x]"
    using push_ok [of q x] by auto
  with Cons.IH [of q1] Cons.prems show ?case by auto
qed

lemma pop_Done:
  assumes "invar q" "pop q = Done q'"
  shows "contents q \<noteq> [] \<and> invar q' \<and> contents q' = tl (contents q)"
  using assms pop_ok [of q] pop_blocked [of q] by (cases "contents q") auto

lemma pop_n_ok:
  "invar q \<Longrightarrow> contents q = xs @ ys \<Longrightarrow>
   \<exists>q'. pop_n front pop (length xs) q = Done (xs, q') \<and> invar q' \<and> contents q' = ys"
proof (induction xs arbitrary: q)
  case Nil
  then show ?case by simp
next
  case (Cons x xs)
  then obtain q1 where "pop q = Done q1" "invar q1" "contents q1 = xs @ ys"
    using pop_ok [of q x "xs @ ys"] by auto
  with Cons front_eq [of q] show ?case by fastforce
qed

text \<open>First in, first out: what is pushed behind a queue comes out after it, in order.\<close>

lemma fifo_order:
  assumes "invar q" "int (length (contents q) + length xs) \<le> INT_MAX"
  shows "\<exists>q' q''. push_all push q xs = Done q' \<and>
     pop_n front pop (length (contents q) + length xs) q' = Done (contents q @ xs, q'') \<and>
     invar q'' \<and> contents q'' = []"
proof -
  obtain q' where q': "push_all push q xs = Done q'" "invar q'" "contents q' = contents q @ xs"
    using push_all_ok [OF assms] by blast
  obtain q'' where "pop_n front pop (length (contents q @ xs)) q' = Done (contents q @ xs, q'')"
      "invar q''" "contents q'' = []"
    using pop_n_ok [of q' "contents q @ xs" "[]"] q'(2,3) by auto
  with q'(1) show ?thesis by auto
qed

end

section \<open>The queue provides the interface\<close>

fun ring_walk :: "nat \<Rightarrow> lmem \<Rightarrow> addr \<Rightarrow> addr \<Rightarrow> addr list" where
  "ring_walk 0 m h p = []"
| "ring_walk (Suc n) m h p =
     (if p = h then [] else p # (case nxt m p of None \<Rightarrow> [] | Some p' \<Rightarrow> ring_walk n m h p'))"

definition env_nodes :: "aqueue \<Rightarrow> addr list" where
  "env_nodes q = (case nxt (links q) (qhead q) of None \<Rightarrow> []
     | Some p \<Rightarrow> ring_walk (brk q) (links q) (qhead q) p)"

definition aq_contents :: "aqueue \<Rightarrow> addr list" where
  "aq_contents q = map (\<lambda>e. case envs q e of Some r \<Rightarrow> r | None \<Rightarrow> NULL) (butlast (env_nodes q))"

definition aq_rep :: "aqueue \<Rightarrow> addr list \<Rightarrow> addr \<Rightarrow> bool" where
  "aq_rep q es t \<longleftrightarrow> dll (links q) (qhead q) (es @ [t]) \<and>
     dom (links q) = set (qhead q # es @ [t]) \<and> dom (envs q) = set (es @ [t]) \<and>
     envs q t = Some NULL \<and> qsize q = int (length es) \<and> (\<forall>a \<in> dom (links q). a < brk q)"

definition aq_inv :: "aqueue \<Rightarrow> bool" where
  "aq_inv q \<longleftrightarrow> (\<exists>es t. aq_rep q es t)"

lemma ring_walk_dll:
  "dll m h (as @ xs) \<Longrightarrow> length xs < n \<Longrightarrow> ring_walk n m h (hd (xs @ [h])) = xs"
proof (induction xs arbitrary: as n)
  case Nil
  then show ?case by (cases n) auto
next
  case (Cons x xs)
  then obtain k where k: "n = Suc k" by (cases n) auto
  have "nxt m x = Some (hd (xs @ [h]))" using dll_neighbours(2) [OF Cons.prems(1)] .
  moreover have "x \<noteq> h" using Cons.prems(1) by (auto simp: dll_def)
  moreover have "ring_walk k m h (hd (xs @ [h])) = xs"
    using Cons.IH [of "as @ [x]" k] Cons.prems k by simp
  ultimately show ?case using k by simp
qed

lemma aq_rep_nodes:
  assumes "aq_rep q es t"
  shows "env_nodes q = es @ [t]"
proof -
  have ring: "dll (links q) (qhead q) ([] @ es @ [t])" using assms by (simp add: aq_rep_def)
  have "set (qhead q # es @ [t]) \<subseteq> {..< brk q}" using assms by (auto simp: aq_rep_def)
  then have "length (qhead q # es @ [t]) \<le> brk q"
    using ring card_mono [of "{..< brk q}" "set (qhead q # es @ [t])"]
      distinct_card [of "qhead q # es @ [t]"] by (simp add: dll_def)
  then have "ring_walk (brk q) (links q) (qhead q) (hd ((es @ [t]) @ [qhead q])) = es @ [t]"
    using ring_walk_dll [OF ring] by simp
  moreover have "nxt (links q) (qhead q) = Some (hd ((es @ [t]) @ [qhead q]))"
    using ring dll_cut [of "links q" "qhead q" "[]" "es @ [t]"] by simp
  ultimately show ?thesis by (simp add: env_nodes_def)
qed

lemma aq_rep_contents:
  assumes "aq_rep q es t"
  shows "map Some (aq_contents q) = map (envs q) es"
proof -
  have "aq_contents q = map (\<lambda>e. case envs q e of Some r \<Rightarrow> r | None \<Rightarrow> NULL) es"
    using aq_rep_nodes [OF assms] by (simp add: aq_contents_def)
  moreover have "envs q e \<noteq> None" if "e \<in> set es" for e
    using that assms by (auto simp: aq_rep_def)
  ultimately show ?thesis by (auto split: option.splits)
qed

lemma aq_contentsI:
  assumes "aq_rep q es t" "map (envs q) es = map Some xs"
  shows "aq_contents q = xs"
  using aq_rep_contents [OF assms(1)] assms(2) by (simp add: inj_map_eq_map)

lemma aq_rep_length:
  assumes "aq_rep q es t"
  shows "length (aq_contents q) = length es"
  using aq_rep_contents [OF assms] by (metis length_map)

lemma aq_rep_head:
  assumes "aq_rep q es t"
  shows "prv (links q) (qhead q) = Some t" "nxt (links q) (qhead q) = Some (hd (es @ [t]))"
    "es \<noteq> [] \<Longrightarrow> prv (links q) t = Some (last es)"
  using assms dll_cut [of "links q" "qhead q" "[]" "es @ [t]"]
    dll_neighbours(1) [of "links q" "qhead q" es t "[]"]
  by (cases es; auto simp: aq_rep_def dll_def)+

lemma aq_init_rep:
  "\<exists>q. ADIOI_Atomic_queue_init h = Done q \<and> aq_rep q [] (Suc h)"
proof -
  let ?m = "[h \<mapsto> \<lparr>lnext = NULL, lprev = NULL\<rparr>]"
  obtain l where l: "INIT_LIST_HEAD ?m h = Some l" "dll l h []" "dom l = {h}"
    using INIT_LIST_HEAD_ok [of h ?m] by auto
  let ?l = "l(Suc h \<mapsto> \<lparr>lnext = NULL, lprev = NULL\<rparr>)"
  have "dll ?l h []" by (rule dll_cong [OF l(2)]) simp
  then obtain l' where "list_add_tail ?l (Suc h) h = Some l'" "dll l' h [Suc h]" "dom l' = {Suc h, h}"
    using list_add_tail_ok [of ?l h "[]" "Suc h"] l(3) by auto
  with l(1) show ?thesis
    by (auto simp: ADIOI_Atomic_queue_init_def malloc_env_def aq_rep_def)
qed

lemma aq_rep_env:
  assumes "aq_rep q es t" "e \<in> set es"
  shows "\<exists>x. envs q e = Some x"
proof -
  have "e \<in> dom (envs q)" using assms by (simp add: aq_rep_def)
  then show ?thesis by auto
qed

lemma aq_front_rep:
  assumes "aq_rep q (e # es) t"
  shows "\<exists>x. ADIOI_Atomic_queue_front q = Done x \<and> envs q e = Some x"
proof -
  obtain x where "envs q e = Some x" using aq_rep_env [OF assms, of e] by auto
  then show ?thesis
    using assms aq_rep_head(2) [OF assms]
    by (simp add: ADIOI_Atomic_queue_front_def ADIOI_Atomic_queue_empty_def aq_rep_def)
qed

lemma aq_back_rep:
  assumes "aq_rep q (es @ [e]) t"
  shows "\<exists>x. ADIOI_Atomic_queue_back q = Done x \<and> envs q e = Some x"
proof -
  obtain x where "envs q e = Some x" using aq_rep_env [OF assms, of e] by auto
  then show ?thesis
    using assms aq_rep_head(1,3) [OF assms]
    by (simp add: ADIOI_Atomic_queue_back_def ADIOI_Atomic_queue_empty_def aq_rep_def)
qed

lemma aq_push_rep:
  assumes rep: "aq_rep q es t" and room: "qsize q < INT_MAX"
  shows "\<exists>q'. ADIOI_Atomic_queue_push q r = Done q' \<and> aq_rep q' (es @ [t]) (brk q) \<and>
     envs q' = (envs q)(t \<mapsto> r, brk q \<mapsto> NULL)"
proof -
  let ?b = "brk q" and ?ns = "es @ [t]"
  let ?l = "(links q)(?b \<mapsto> \<lparr>lnext = NULL, lprev = NULL\<rparr>)"
  have fresh: "?b \<notin> dom (links q)" using rep by (auto simp: aq_rep_def)
  have nodes: "dom (links q) = set (qhead q # ?ns)" "dom (envs q) = set ?ns"
    using rep by (auto simp: aq_rep_def)
  have "dll ?l (qhead q) ?ns"
    by (rule dll_cong [of "links q"]) (use rep fresh nodes(1) in \<open>auto simp: aq_rep_def\<close>)
  then obtain l' where l': "list_add_tail ?l ?b (qhead q) = Some l'"
      "dll l' (qhead q) (?ns @ [?b])" "dom l' = dom ?l"
    using list_add_tail_ok [of ?l "qhead q" ?ns ?b] fresh nodes(1) by auto
  let ?q = "q\<lparr>links := l', envs := (envs q)(t \<mapsto> r, ?b \<mapsto> NULL), qsize := qsize q + 1, brk := Suc ?b\<rparr>"
  have "ADIOI_Atomic_queue_push q r = Done ?q"
    using aq_rep_head(1) [OF rep] l'(1) room rep
    by (simp add: ADIOI_Atomic_queue_push_def malloc_env_def aq_rep_def Let_def)
  moreover have "aq_rep ?q ?ns ?b"
    using rep l'(2,3) nodes fresh by (auto simp: aq_rep_def)
  ultimately show ?thesis by simp
qed

lemma aq_pop_rep:
  assumes rep: "aq_rep q (e # es) t"
  shows "\<exists>q'. ADIOI_Atomic_queue_pop q = Done q' \<and> aq_rep q' es t \<and> envs q' = (envs q)(e := None)"
proof -
  have ring: "dll (links q) (qhead q) ([] @ e # es @ [t])" using rep by (simp add: aq_rep_def)
  then obtain l where l: "list_del (links q) e = Some l" "dll l (qhead q) (es @ [t])"
      "dom l = dom (links q)"
    using list_del_ok [OF ring] by auto
  have dist: "e \<notin> set (qhead q # es @ [t])" using ring by (auto simp: dll_def)
  have "dll (l(e := None)) (qhead q) (es @ [t])"
    by (rule dll_cong [OF l(2)]) (use dist in auto)
  then have "aq_rep (q\<lparr>links := l(e := None), envs := (envs q)(e := None), qsize := qsize q - 1\<rparr>) es t"
    using rep l(3) dist by (auto simp: aq_rep_def)
  moreover have "e \<in> dom (envs q)" using rep by (simp add: aq_rep_def)
  ultimately show ?thesis
    using aq_rep_head(2) [OF rep] l(1) rep
    by (auto simp: ADIOI_Atomic_queue_pop_def ADIOI_Atomic_queue_empty_def free_env_def aq_rep_def)
qed

lemma aq_rep_Cons:
  assumes "aq_rep q es t" "aq_contents q = x # xs"
  obtains e es' where "es = e # es'" "envs q e = Some x" "map (envs q) es' = map Some xs"
  using aq_rep_contents [OF assms(1)] assms(2) that by (cases es) auto

lemma aq_rep_nil_iff: "aq_rep q es t \<Longrightarrow> aq_contents q = [] \<longleftrightarrow> es = []"
  using aq_rep_length by fastforce

lemma aq_empty_iff: "aq_inv q \<Longrightarrow> ADIOI_Atomic_queue_empty q \<longleftrightarrow> aq_contents q = []"
proof -
  assume "aq_inv q"
  then obtain es t where rep: "aq_rep q es t" by (auto simp: aq_inv_def)
  then show ?thesis
    using aq_rep_nil_iff [OF rep] by (simp add: ADIOI_Atomic_queue_empty_def aq_rep_def)
qed

lemma aq_size_eq: "aq_inv q \<Longrightarrow> ADIOI_Atomic_queue_size q = int (length (aq_contents q))"
  using aq_rep_length by (fastforce simp: aq_inv_def ADIOI_Atomic_queue_size_def aq_rep_def)

lemma aq_front_eq:
  assumes "aq_inv q"
  shows "ADIOI_Atomic_queue_front q =
    (if aq_contents q = [] then Blocked else Done (hd (aq_contents q)))"
proof (cases "aq_contents q")
  case Nil
  then show ?thesis using aq_empty_iff [OF assms] by (simp add: ADIOI_Atomic_queue_front_def)
next
  case (Cons x xs)
  obtain es t where rep: "aq_rep q es t" using assms by (auto simp: aq_inv_def)
  then obtain e es' where "es = e # es'" "envs q e = Some x" using aq_rep_Cons Cons by blast
  with rep Cons aq_front_rep [of q e es' t] show ?thesis by auto
qed

lemma aq_back_eq:
  assumes "aq_inv q"
  shows "ADIOI_Atomic_queue_back q =
    (if aq_contents q = [] then Blocked else Done (last (aq_contents q)))"
proof (cases "aq_contents q = []")
  case True
  then show ?thesis using aq_empty_iff [OF assms] by (simp add: ADIOI_Atomic_queue_back_def)
next
  case False
  obtain es t where rep: "aq_rep q es t" using assms by (auto simp: aq_inv_def)
  with False obtain es' e where es: "es = es' @ [e]"
    using aq_rep_nil_iff [OF rep] by (cases es rule: rev_cases) auto
  have "Some (last (aq_contents q)) = envs q e"
    using arg_cong [OF aq_rep_contents [OF rep], of last] False es by (simp add: last_map)
  with rep es False aq_back_rep [of q es' e t] show ?thesis by auto
qed

lemma aq_push_ok:
  assumes "aq_inv q" "int (length (aq_contents q)) < INT_MAX"
  shows "\<exists>q'. ADIOI_Atomic_queue_push q x = Done q' \<and> aq_inv q' \<and>
     aq_contents q' = aq_contents q @ [x]"
proof -
  obtain es t where rep: "aq_rep q es t" using assms(1) by (auto simp: aq_inv_def)
  have "qsize q < INT_MAX"
    using assms(2) aq_rep_length [OF rep] rep by (simp add: aq_rep_def)
  then obtain q' where q': "ADIOI_Atomic_queue_push q x = Done q'" "aq_rep q' (es @ [t]) (brk q)"
      "envs q' = (envs q)(t \<mapsto> x, brk q \<mapsto> NULL)"
    using aq_push_rep [OF rep] by blast
  have "t \<notin> set es" "brk q \<notin> set (es @ [t])"
    using q'(2) by (auto simp: aq_rep_def dll_def)
  then have "map (envs q') (es @ [t]) = map (envs q) es @ [Some x]"
    using q'(3) by auto
  then have "aq_contents q' = aq_contents q @ [x]"
    using aq_contentsI [OF q'(2)] aq_rep_contents [OF rep] by simp
  with q' show ?thesis by (auto simp: aq_inv_def)
qed

lemma aq_push_full:
  assumes "aq_inv q" "INT_MAX \<le> int (length (aq_contents q))"
  shows "ADIOI_Atomic_queue_push q x = Fault"
proof -
  have "\<not> qsize q < INT_MAX"
    using aq_size_eq [OF assms(1)] assms(2) by (simp add: ADIOI_Atomic_queue_size_def)
  then show ?thesis
    by (auto simp: ADIOI_Atomic_queue_push_def malloc_env_def Let_def bind_eq_Some_conv
      split: bind_splits)
qed

lemma aq_pop_ok:
  assumes "aq_inv q" "aq_contents q = x # xs"
  shows "\<exists>q'. ADIOI_Atomic_queue_pop q = Done q' \<and> aq_inv q' \<and> aq_contents q' = xs"
proof -
  obtain es t where rep: "aq_rep q es t" using assms(1) by (auto simp: aq_inv_def)
  obtain e es' where es: "es = e # es'" "map (envs q) es' = map Some xs"
    using aq_rep_Cons [OF rep assms(2)] by blast
  obtain q' where q': "ADIOI_Atomic_queue_pop q = Done q'" "aq_rep q' es' t"
      "envs q' = (envs q)(e := None)"
    using aq_pop_rep rep es(1) by blast
  have "e \<notin> set es'" using rep es(1) by (auto simp: aq_rep_def dll_def)
  then have "map (envs q') es' = map (envs q) es'" using q'(3) by auto
  then have "map (envs q') es' = map Some xs" using es(2) by simp
  then show ?thesis using q' aq_contentsI [OF q'(2)] by (auto simp: aq_inv_def)
qed

lemma aq_pop_blocked:
  "aq_inv q \<Longrightarrow> aq_contents q = [] \<Longrightarrow> ADIOI_Atomic_queue_pop q = Blocked"
  by (simp add: ADIOI_Atomic_queue_pop_def aq_empty_iff)

interpretation aq: fifo_queue aq_inv aq_contents ADIOI_Atomic_queue_empty ADIOI_Atomic_queue_size
  ADIOI_Atomic_queue_front ADIOI_Atomic_queue_back ADIOI_Atomic_queue_push ADIOI_Atomic_queue_pop
  by unfold_locales
    (simp_all add: aq_empty_iff aq_size_eq aq_front_eq aq_back_eq aq_push_ok aq_push_full
      aq_pop_ok aq_pop_blocked)

lemma aq_init_ok:
  "\<exists>q. ADIOI_Atomic_queue_init h = Done q \<and> aq_inv q \<and> aq_contents q = []"
  using aq_init_rep [of h] aq_rep_nil_iff by (fastforce simp: aq_inv_def)

section \<open>Properties of the queue and of requests\<close>

lemma aq_fini_rep:
  assumes "aq_rep q es t"
  shows "\<exists>l. ADIOI_Atomic_queue_fini q = Done (l, (envs q)(t := None)) \<and> dom l = set es"
proof -
  have "t \<in> dom (envs q)" "dom (links q) = set (qhead q # es @ [t])" "distinct (qhead q # es @ [t])"
    using assms by (auto simp: aq_rep_def dll_def)
  moreover from this have "dom ((links q)(t := None, qhead q := None)) = set es" by auto
  ultimately show ?thesis
    using aq_rep_head(1) [OF assms] by (auto simp: ADIOI_Atomic_queue_fini_def free_env_def)
qed

lemma aq_fini_empty:
  assumes "aq_inv q" "aq_contents q = []"
  shows "ADIOI_Atomic_queue_fini q = Done (Map.empty, Map.empty)"
proof -
  obtain es t where rep: "aq_rep q es t" using assms(1) by (auto simp: aq_inv_def)
  then have es: "es = []" using aq_rep_nil_iff assms(2) by blast
  with rep obtain l where l: "ADIOI_Atomic_queue_fini q = Done (l, (envs q)(t := None))" "dom l = {}"
    using aq_fini_rep by fastforce
  have "dom ((envs q)(t := None)) = {}" using rep es by (auto simp: aq_rep_def)
  then have "(envs q)(t := None) = Map.empty" by (simp only: dom_eq_empty_conv)
  with l show ?thesis by simp
qed

text \<open>
  C28: the queue is first in, first out, on the pointer structure of the source: whatever is
  pushed into a new queue, up to \<open>INT_MAX\<close> requests, is popped in the same order; the queue is
  then empty, a further \<open>front\<close> or \<open>pop\<close> waits, and \<open>ADIOI_Atomic_queue_fini\<close> leaves no cell and
  no envelope allocated.
\<close>

theorem queue_is_fifo:
  assumes "int (length xs) \<le> INT_MAX"
  shows "\<exists>q0 q1 q2. ADIOI_Atomic_queue_init h = Done q0 \<and> push_all ADIOI_Atomic_queue_push q0 xs = Done q1 \<and>
     ADIOI_Atomic_queue_size q1 = int (length xs) \<and>
     pop_n ADIOI_Atomic_queue_front ADIOI_Atomic_queue_pop (length xs) q1 = Done (xs, q2) \<and>
     ADIOI_Atomic_queue_empty q2 \<and> ADIOI_Atomic_queue_front q2 = Blocked \<and> ADIOI_Atomic_queue_pop q2 = Blocked \<and>
     ADIOI_Atomic_queue_fini q2 = Done (Map.empty, Map.empty)"
proof -
  obtain q0 where q0: "ADIOI_Atomic_queue_init h = Done q0" "aq_inv q0" "aq_contents q0 = []"
    using aq_init_ok by blast
  obtain q1 where q1: "push_all ADIOI_Atomic_queue_push q0 xs = Done q1" "aq_inv q1" "aq_contents q1 = xs"
    using aq.push_all_ok [OF q0(2), of xs] q0(3) assms by auto
  obtain q2 where q2: "pop_n ADIOI_Atomic_queue_front ADIOI_Atomic_queue_pop (length xs) q1 = Done (xs, q2)"
      "aq_inv q2" "aq_contents q2 = []"
    using aq.pop_n_ok [OF q1(2), of xs "[]"] q1(3) by auto
  then show ?thesis
    using q0(1) q1 aq.qlength_eq [OF q1(2)] aq.is_empty_iff [OF q2(2)] aq.front_eq [OF q2(2)]
      aq.pop_blocked [OF q2(2)] aq_fini_empty [OF q2(2)] by auto
qed

theorem queue_is_fifo_witness:
  "\<exists>q0 q1 q2. ADIOI_Atomic_queue_init 7 = Done q0 \<and> push_all ADIOI_Atomic_queue_push q0 [30, 10, 20] = Done q1 \<and>
     pop_n ADIOI_Atomic_queue_front ADIOI_Atomic_queue_pop 3 q1 = Done ([30, 10, 20], q2) \<and>
     ADIOI_Atomic_queue_fini q2 = Done (Map.empty, Map.empty)"
  using queue_is_fifo [of "[30, 10, 20]" 7] by (auto simp: INT_MAX_def numeral_3_eq_3)

text \<open>
  No wake-up is lost: in every well-formed queue with room, a push signals the condition
  variable exactly when a reader of the queue would be waiting, and after the push no reader has
  to wait: \<open>front\<close> returns the oldest request and \<open>back\<close> the one just pushed.
\<close>

theorem push_wakes_reader:
  assumes "aq_inv q" "ADIOI_Atomic_queue_size q < INT_MAX"
  shows "(ADIOI_Atomic_queue_push_signals q \<longleftrightarrow> ADIOI_Atomic_queue_front q = Blocked) \<and>
     (\<exists>q'. ADIOI_Atomic_queue_push q r = Done q' \<and> aq_inv q' \<and>
        ADIOI_Atomic_queue_front q' = (if ADIOI_Atomic_queue_empty q then Done r else ADIOI_Atomic_queue_front q) \<and>
        ADIOI_Atomic_queue_back q' = Done r)"
proof -
  have n: "qsize q = int (length (aq_contents q))"
    using aq.qlength_eq [OF assms(1)] by (simp add: ADIOI_Atomic_queue_size_def)
  obtain q' where q': "ADIOI_Atomic_queue_push q r = Done q'" "aq_inv q'" "aq_contents q' = aq_contents q @ [r]"
    using aq.push_ok [OF assms(1), of r] assms(2) n by (auto simp: ADIOI_Atomic_queue_size_def)
  show ?thesis
    using q' n aq.front_eq [OF assms(1)] aq.front_eq [OF q'(2)] aq.rear_eq [OF q'(2)] aq.is_empty_iff [OF assms(1)]
    by (simp add: ADIOI_Atomic_queue_push_signals_def)
qed

theorem push_wakes_reader_witness:
  "\<exists>q q'. ADIOI_Atomic_queue_init 7 = Done q \<and> ADIOI_Atomic_queue_push_signals q \<and>
     ADIOI_Atomic_queue_push q 30 = Done q' \<and> ADIOI_Atomic_queue_back q' = Done 30"
proof -
  obtain q where q: "ADIOI_Atomic_queue_init 7 = Done q" "aq_inv q" "aq_contents q = []"
    using aq_init_ok [of 7] by blast
  have "ADIOI_Atomic_queue_size q < INT_MAX" using aq.qlength_eq [OF q(2)] q(3) by (simp add: INT_MAX_def)
  from push_wakes_reader [OF q(2) this, of 30] q(1) aq.front_eq [OF q(2)] q(3) show ?thesis by auto
qed

text \<open>
  a sync request keeps what it is initialised with: every key read from a request built by
  \<open>ADIOI_Sync_req_init\<close> returns the value given, \<open>ADIOI_Sync_req_init_from\<close> copies a request and
  resets its error code, and a shutdown request refuses the keys of a transfer.
\<close>

theorem sync_req_keeps_values:
  "(\<exists>r. ADIOI_Sync_req_init dtn reqn r0 [ADIOI_THREAD_SYNC, off, d, c, h, f] = Some (MPI_SUCCESS, r) \<and>
      ADIOI_Sync_req_get_key r ADIOI_SYNC_ALL = (MPI_SUCCESS, [off, d, c, h, MPI_SUCCESS, f]) \<and>
      ADIOI_Sync_req_get_key r ADIOI_SYNC_OFFSET = (MPI_SUCCESS, [off]) \<and>
      ADIOI_Sync_req_get_key r ADIOI_SYNC_REQ = (MPI_SUCCESS, [h]) \<and>
      (\<forall>e r1. ADIOI_Sync_req_set_key r [ADIOI_SYNC_ERR_CODE, e] = Some (MPI_SUCCESS, r\<lparr>rerror_code := e\<rparr>) \<and>
        ADIOI_Sync_req_init_from dtn reqn r1 (r\<lparr>rerror_code := e\<rparr>) = Some (MPI_SUCCESS, r))) \<and>
   (\<exists>r. ADIOI_Sync_req_init dtn reqn r0 [ADIOI_THREAD_SHUTDOWN] = Some (MPI_SUCCESS, r) \<and>
      ADIOI_Sync_req_get_key r ADIOI_SYNC_TYPE = (MPI_SUCCESS, [ADIOI_THREAD_SHUTDOWN]) \<and>
      ADIOI_Sync_req_get_key r ADIOI_SYNC_ALL = (-1, []))"
  by (simp add: ADIOI_Sync_req_get_key_def ADIOI_Sync_req_init_from_def sync_consts)

lemma type_key_sets_offset:
  "ADIOI_Sync_req_set_key r [ADIOI_SYNC_TYPE, t] = None \<and>
   ADIOI_Sync_req_set_key r [ADIOI_SYNC_TYPE, t, off] = Some (MPI_SUCCESS, r\<lparr>rtype := t, roff := off\<rparr>)"
  by (simp add: sync_consts)

end
