(* ===== verification/Cache_Sync.thy ===== *)
theory Cache_Sync
  imports Atomic_Queue
begin

text \<open>
  The synchronisation threads of the E10 cache: \<open>romio/adio/common/adi_cache_sync.c\<close>,
  \<open>adi_cache_alloc.c\<close> and \<open>romio/adio/include/adi_thread.h\<close>. A thread has three queues of
  request pointers: \<open>pen\<close> (pending), \<open>sub\<close> (submitted) and \<open>waitq\<close> (to be waited for). The body of the
  thread is a step function: one step takes a request, reads a buffer from the cache file,
  writes the buffer to the global file, or completes the request, which is the granularity at
  which the main thread can interleave with it.
\<close>

section \<open>Files and the environment\<close>

text \<open>
  A file is its size and the bytes written so far; a hole reads as zero, reading stops at the
  end of the file, writing extends it.
\<close>

record pfile =
  fdata :: "int \<rightharpoonup> byte"
  fsize :: int

definition file_pread :: "pfile \<Rightarrow> int \<Rightarrow> int \<Rightarrow> byte list" where
  "file_pread f off n = map (\<lambda>p. case fdata f p of Some b \<Rightarrow> b | None \<Rightarrow> 0)
     [off .. min (off + n) (fsize f) - 1]"

definition file_pwrite :: "pfile \<Rightarrow> int \<Rightarrow> byte list \<Rightarrow> pfile" where
  "file_pwrite f off bs = f\<lparr>
     fdata := (\<lambda>p. if off \<le> p \<and> p < off + int (length bs) then Some (bs ! nat (p - off)) else fdata f p),
     fsize := (if bs = [] then fsize f else max (fsize f) (off + int (length bs)))\<rparr>"

text \<open>
  What the program takes from the MPI library and the operating system. \<open>'g\<close> is the state of
  the library's generalized requests, \<open>g_done\<close> says whether \<open>MPI_Wait\<close> on a request returns;
  \<open>type_size\<close> is \<open>MPI_Type_size_x\<close>; \<open>os_pread n\<close> and \<open>os_pwrite n\<close> bound the number of bytes
  one system call transfers when \<open>n\<close> are asked for.
\<close>

record 'g env =
  g_start :: "'g \<Rightarrow> int \<Rightarrow> 'g"
  g_complete :: "'g \<Rightarrow> int \<Rightarrow> 'g"
  g_done :: "'g \<Rightarrow> int \<Rightarrow> bool"
  type_size :: "int \<Rightarrow> int"
  os_pread :: "int \<Rightarrow> int"
  os_pwrite :: "int \<Rightarrow> int"
  dt_null :: int
  req_null :: int

text \<open>
  The documented behaviour of generalized requests: a started request is not complete, a
  completed one is, and other requests are not affected.
\<close>

definition greq_laws :: "'g env \<Rightarrow> bool" where
  "greq_laws E \<longleftrightarrow> (\<forall>g r. \<not> g_done E (g_start E g r) r \<and> g_done E (g_complete E g r) r) \<and>
     (\<forall>g r r'. r' \<noteq> r \<longrightarrow> g_done E (g_start E g r) r' = g_done E g r' \<and>
        g_done E (g_complete E g r) r' = g_done E g r')"

text \<open>Every \<open>pread\<close> and \<open>pwrite\<close> transfers as much as it is asked for and the file allows.\<close>

definition full_transfers :: "'g env \<Rightarrow> bool" where
  "full_transfers E \<longleftrightarrow> (\<forall>n. os_pread E n = n \<and> os_pwrite E n = n)"

subsection \<open>Facts on files\<close>

lemma fdata_pwrite:
  "fdata (file_pwrite f off bs) p =
    (if off \<le> p \<and> p < off + int (length bs) then Some (bs ! nat (p - off)) else fdata f p)"
  by (simp add: file_pwrite_def)

lemma fsize_pwrite: "fsize f \<le> fsize (file_pwrite f off bs)"
  by (simp add: file_pwrite_def)

lemma fsize_pwrite_ge: "bs \<noteq> [] \<Longrightarrow> off + int (length bs) \<le> fsize (file_pwrite f off bs)"
  by (simp add: file_pwrite_def)

lemma file_pwrite_Nil [simp]: "file_pwrite f off [] = f"
  by (rule pfile.equality) (auto simp: file_pwrite_def intro!: ext)

lemma file_pwrite_split:
  assumes "k \<le> length bs"
  shows "file_pwrite (file_pwrite f off (take k bs)) (off + int k) (drop k bs) = file_pwrite f off bs"
proof (rule pfile.equality)
  have "fdata (file_pwrite (file_pwrite f off (take k bs)) (off + int k) (drop k bs)) p
      = fdata (file_pwrite f off bs) p" for p
  proof (cases "off + int k \<le> p \<and> p < off + int (length bs)")
    case True
    then have "nat (p - off) = k + nat (p - (off + int k))" by linarith
    with True assms show ?thesis by (simp add: fdata_pwrite)
  next
    case False
    then show ?thesis using assms by (auto simp: fdata_pwrite)
  qed
  then show "fdata (file_pwrite (file_pwrite f off (take k bs)) (off + int k) (drop k bs))
      = fdata (file_pwrite f off bs)" by (rule ext)
  show "fsize (file_pwrite (file_pwrite f off (take k bs)) (off + int k) (drop k bs))
      = fsize (file_pwrite f off bs)"
    using assms by (auto simp: file_pwrite_def)
qed (simp add: file_pwrite_def)

lemma length_file_pread: "off + n \<le> fsize f \<Longrightarrow> length (file_pread f off n) = nat n"
  by (simp add: file_pread_def min_def)

lemma nth_file_pread:
  assumes "off + n \<le> fsize f" "i < nat n" "fdata f (off + int i) = Some b"
  shows "file_pread f off n ! i = b"
proof -
  have "file_pread f off n ! i = (case fdata f (off + int i) of Some b \<Rightarrow> b | None \<Rightarrow> 0)"
    using assms(1,2) by (simp add: file_pread_def min_def)
  with assms(3) show ?thesis by simp
qed

section \<open>Threads\<close>

record sync_thread =
  sub :: aqueue
  pen :: aqueue
  waitq :: aqueue

definition ADIOI_ERR_THREAD_CREATE :: int where
  "ADIOI_ERR_THREAD_CREATE = 80"

text \<open>\<open>rc\<close> is the result of \<open>pthread_create\<close>.\<close>

definition ADIOI_Sync_thread_init :: "addr \<Rightarrow> int \<Rightarrow> (int \<times> sync_thread) outcome" where
  "ADIOI_Sync_thread_init a rc =
     obind (ADIOI_Atomic_queue_init a) (\<lambda>s.
     obind (ADIOI_Atomic_queue_init a) (\<lambda>p.
     obind (ADIOI_Atomic_queue_init a) (\<lambda>w.
       Done (if rc \<noteq> 0 then ADIOI_ERR_THREAD_CREATE else MPI_SUCCESS,
             \<lparr>sub = s, pen = p, waitq = w\<rparr>))))"

definition ADIOI_Sync_thread_enqueue :: "sync_thread \<Rightarrow> addr \<Rightarrow> sync_thread outcome" where
  "ADIOI_Sync_thread_enqueue t r =
     obind (ADIOI_Atomic_queue_push (pen t) r) (\<lambda>q. Done (t\<lparr>pen := q\<rparr>))"

type_synonym rheap = "addr \<rightharpoonup> sync_req"

definition req_handle :: "rheap \<Rightarrow> addr \<Rightarrow> int outcome" where
  "req_handle rh r = (case rh r of None \<Rightarrow> Fault
     | Some rq \<Rightarrow> (case ADIOI_Sync_req_get_key rq ADIOI_SYNC_REQ of (_, [h]) \<Rightarrow> Done h | _ \<Rightarrow> Fault))"

text \<open>One turn of the loop of \<open>ADIOI_Sync_thread_flush\<close>.\<close>

definition sync_flush_one ::
  "'g env \<Rightarrow> rheap \<Rightarrow> sync_thread \<Rightarrow> 'g \<Rightarrow> (sync_thread \<times> 'g) outcome" where
  "sync_flush_one E rh t g =
     obind (ADIOI_Atomic_queue_front (pen t)) (\<lambda>r.
     obind (ADIOI_Atomic_queue_pop (pen t)) (\<lambda>p.
     obind (req_handle rh r) (\<lambda>h.
     obind (ADIOI_Atomic_queue_push (sub t) r) (\<lambda>s.
     obind (ADIOI_Atomic_queue_push (waitq t) r) (\<lambda>w.
       Done (t\<lparr>sub := s, pen := p, waitq := w\<rparr>, g_start E g h))))))"

lemma pop_qsize: "ADIOI_Atomic_queue_pop q = Done q' \<Longrightarrow> qsize q' = qsize q - 1 \<and> 0 < qsize q"
  by (auto simp: ADIOI_Atomic_queue_pop_def ADIOI_Atomic_queue_empty_def free_env_def
    bind_eq_Some_conv split: if_splits)

lemma sync_flush_one_pen:
  assumes "sync_flush_one E rh t g = Done (t', g')"
  shows "nat (qsize (pen t')) < nat (qsize (pen t))"
  using assms by (auto simp: sync_flush_one_def dest!: pop_qsize)

function ADIOI_Sync_thread_flush ::
  "'g env \<Rightarrow> rheap \<Rightarrow> sync_thread \<Rightarrow> 'g \<Rightarrow> (sync_thread \<times> 'g) outcome" where
  "ADIOI_Sync_thread_flush E rh t g =
     (if ADIOI_Atomic_queue_empty (pen t) then Done (t, g)
      else case sync_flush_one E rh t g of
        Done (t', g') \<Rightarrow> ADIOI_Sync_thread_flush E rh t' g'
      | Blocked \<Rightarrow> Blocked | Fault \<Rightarrow> Fault)"
  by pat_completeness auto
termination
  by (relation "measure (\<lambda>(E, rh, t, g). nat (qsize (pen t)))") (auto dest: sync_flush_one_pen)

declare ADIOI_Sync_thread_flush.simps [simp del]

text \<open>
  The second loop of \<open>ADIOI_Sync_thread_wait\<close>: each request in the wait queue is freed, with
  its handle. \<open>hs\<close> is the set of allocated handles; freeing one twice is a fault.
\<close>

function sync_wait_free ::
  "aqueue \<Rightarrow> rheap \<Rightarrow> int set \<Rightarrow> (aqueue \<times> rheap \<times> int set) outcome" where
  "sync_wait_free w rh hs =
     (if ADIOI_Atomic_queue_empty w then Done (w, rh, hs)
      else obind (ADIOI_Atomic_queue_front w) (\<lambda>r.
           obind (req_handle rh r) (\<lambda>h.
           obind (ADIOI_Atomic_queue_pop w) (\<lambda>w'.
             if h \<in> hs then sync_wait_free w' (rh(r := None)) (hs - {h}) else Fault))))"
  by pat_completeness auto
termination
  by (relation "measure (\<lambda>(w, rh, hs). nat (qsize w))") (auto dest: pop_qsize)

declare sync_wait_free.simps [simp del]

definition ADIOI_Sync_thread_wait ::
  "'g env \<Rightarrow> sync_thread \<Rightarrow> rheap \<Rightarrow> int set \<Rightarrow> 'g \<Rightarrow> (sync_thread \<times> rheap \<times> int set) outcome" where
  "ADIOI_Sync_thread_wait E t rh hs g =
     obind (if ADIOI_Atomic_queue_empty (waitq t) then Done ()
            else obind (ADIOI_Atomic_queue_back (waitq t)) (\<lambda>r.
                 obind (req_handle rh r) (\<lambda>h.
                   if g_done E g h then Done () else Blocked))) (\<lambda>_.
     obind (sync_wait_free (waitq t) rh hs) (\<lambda>(w, rh', hs').
       Done (t\<lparr>waitq := w\<rparr>, rh', hs')))"

section \<open>The body of a thread\<close>

text \<open>
  Where the thread is in \<open>ADIOI_Sync_thread_start\<close>. In \<open>S_loop r h off len bytes offset\<close> it is at
  the head of the copy loop for request \<open>r\<close> with handle \<open>h\<close>: \<open>off\<close> and \<open>len\<close> are the extent,
  \<open>bytes\<close> the number of bytes done (\<open>bytes_xfered\<close>) and \<open>offset\<close> the next file offset. In
  \<open>S_full\<close> it has read \<open>wr\<close> bytes into its buffer and not yet written them.
\<close>

datatype spc =
    S_idle
  | S_loop addr int int int int int
  | S_full addr int int int int int int
  | S_exit

record 'g sync_state =
  thr :: sync_thread
  reqs :: rheap
  handles :: "int set"
  greq :: 'g
  cachef :: pfile
  globf :: pfile
  locks :: "int set"
  buf_size :: int
  coherent :: bool
  pc :: spc
  sbuf :: "byte list"

text \<open>
  \<open>locks\<close> is the set of bytes of the global file this process has locked: \<open>fcntl\<close> locks of one
  process do not nest, an unlock clears its range.
\<close>

definition unlock_range :: "int set \<Rightarrow> int \<Rightarrow> int \<Rightarrow> int set" where
  "unlock_range L off len = L - {off ..< off + len}"

definition sync_take :: "'g env \<Rightarrow> 'g sync_state \<Rightarrow> 'g sync_state outcome" where
  "sync_take E s =
     obind (ADIOI_Atomic_queue_front (sub (thr s))) (\<lambda>r.
     obind (ADIOI_Atomic_queue_pop (sub (thr s))) (\<lambda>q.
       let s' = s\<lparr>thr := (thr s)\<lparr>sub := q\<rparr>\<rparr> in
       case reqs s r of None \<Rightarrow> Fault
       | Some rq \<Rightarrow>
           if snd (ADIOI_Sync_req_get_key rq ADIOI_SYNC_TYPE) = [ADIOI_THREAD_SHUTDOWN]
           then Done (s'\<lparr>pc := S_exit\<rparr>)
           else (case ADIOI_Sync_req_get_key rq ADIOI_SYNC_ALL of
               (_, [off, dt, cnt, h, err, ff]) \<Rightarrow>
                 Done (s'\<lparr>pc := S_loop r h off (type_size E dt * cnt) 0 off\<rparr>)
             | _ \<Rightarrow> Fault)))"

definition sync_pread :: "'g env \<Rightarrow> 'g sync_state \<Rightarrow> int \<Rightarrow> int \<Rightarrow> byte list" where
  "sync_pread E s offset wr =
     (let data = take (nat (os_pread E wr)) (file_pread (cachef s) offset wr)
      in data @ drop (length data) (sbuf s))"

fun sync_step :: "'g env \<Rightarrow> 'g sync_state \<Rightarrow> 'g sync_state outcome" where
  "sync_step E s = (case pc s of
     S_idle \<Rightarrow> sync_take E s
   | S_loop r h off len bytes offset \<Rightarrow>
       if bytes < len then
         (let wr = min (buf_size s) (len - bytes) in
          if wr < 0 then Fault
          else Done (s\<lparr>sbuf := sync_pread E s offset wr, pc := S_full r h off len bytes offset wr\<rparr>))
       else Done (s\<lparr>locks := (if coherent s then unlock_range (locks s) off len else locks s),
                   greq := g_complete E (greq s) h, pc := S_idle\<rparr>)
   | S_full r h off len bytes offset wr \<Rightarrow>
       Done (s\<lparr>globf := file_pwrite (globf s) offset
                 (take (nat (os_pwrite E wr)) (take (nat wr) (sbuf s))),
               pc := S_loop r h off len (bytes + wr) (offset + wr)\<rparr>)
   | S_exit \<Rightarrow> Blocked)"

text \<open>The thread running alone for at most \<open>n\<close> steps, until it has to wait.\<close>

fun sync_run :: "'g env \<Rightarrow> nat \<Rightarrow> 'g sync_state \<Rightarrow> 'g sync_state outcome" where
  "sync_run E 0 s = Done s"
| "sync_run E (Suc n) s = (case sync_step E s of
     Done s' \<Rightarrow> sync_run E n s' | Blocked \<Rightarrow> Done s | Fault \<Rightarrow> Fault)"

text \<open>
  \<open>ADIOI_Sync_thread_fini\<close>: submit a shutdown request at the fresh address \<open>fin\<close>, wait for the
  thread to exit (it runs for at most \<open>n\<close> steps here), free the request and the queues. The
  result is the final state and what is left of the three queue regions.
\<close>

definition ADIOI_Sync_thread_fini ::
  "'g env \<Rightarrow> nat \<Rightarrow> sync_req \<Rightarrow> addr \<Rightarrow> 'g sync_state \<Rightarrow>
   ('g sync_state \<times> (lmem \<times> (addr \<rightharpoonup> addr)) list) outcome" where
  "ADIOI_Sync_thread_fini E n r0 fin s =
     obind (of_option (ADIOI_Sync_req_init (dt_null E) (req_null E) r0 [ADIOI_THREAD_SHUTDOWN])) (\<lambda>(_, rq).
     obind (ADIOI_Atomic_queue_push (sub (thr s)) fin) (\<lambda>q.
     obind (sync_run E n (s\<lparr>thr := (thr s)\<lparr>sub := q\<rparr>, reqs := (reqs s)(fin \<mapsto> rq)\<rparr>)) (\<lambda>s'.
       if pc s' = S_exit then
         obind (ADIOI_Atomic_queue_fini (sub (thr s'))) (\<lambda>a.
         obind (ADIOI_Atomic_queue_fini (pen (thr s'))) (\<lambda>b.
         obind (ADIOI_Atomic_queue_fini (waitq (thr s'))) (\<lambda>c.
           Done (s'\<lparr>reqs := (reqs s')(fin := None)\<rparr>, [a, b, c]))))
       else Blocked)))"

text \<open>
  \<open>ADIOI_Sync_thread_pool_init\<close>: \<open>rcs i\<close> is the result of the \<open>pthread_create\<close> call of
  thread \<open>i\<close>. The result is the error code, the threads initialised (the failing one included)
  and the new value of the hint \<open>e10_cache_threads\<close>.
\<close>

function pool_init_loop ::
  "addr \<Rightarrow> int \<Rightarrow> (int \<Rightarrow> int) \<Rightarrow> int \<Rightarrow> sync_thread list \<Rightarrow> (int \<times> sync_thread list \<times> int) outcome" where
  "pool_init_loop a nt rcs i ts =
     (if i < nt then
        obind (ADIOI_Sync_thread_init a (rcs i)) (\<lambda>(err, t).
          if err \<noteq> 0 then Done (err, ts @ [t], i)
          else pool_init_loop a nt rcs (i + 1) (ts @ [t]))
      else Done (MPI_SUCCESS, ts, nt))"
  by pat_completeness auto
termination
  by (relation "measure (\<lambda>(a, nt, rcs, i, ts). nat (nt - i))") auto

declare pool_init_loop.simps [simp del]

definition ADIOI_Sync_thread_pool_init ::
  "addr \<Rightarrow> int \<Rightarrow> (int \<Rightarrow> int) \<Rightarrow> (int \<times> sync_thread list \<times> int) outcome" where
  "ADIOI_Sync_thread_pool_init a nt rcs = pool_init_loop a nt rcs 0 []"

text \<open>
  A pool is the list of the threads' own data (queues, position, buffer); everything else of
  \<open>sync_state\<close> is shared. \<open>load_thread\<close> puts one thread in front of the shared data.
\<close>

type_synonym tlocal = "sync_thread \<times> spc \<times> byte list"

fun load_thread :: "tlocal \<Rightarrow> 'g sync_state \<Rightarrow> 'g sync_state" where
  "load_thread (t, p, b) s = s\<lparr>thr := t, pc := p, sbuf := b\<rparr>"

text \<open>\<open>None\<close> is a \<open>thread_pool\<close> that is \<open>NULL\<close>; only the first \<open>nt\<close> threads are running.\<close>

fun pool_fini_loop ::
  "'g env \<Rightarrow> nat \<Rightarrow> sync_req \<Rightarrow> addr \<Rightarrow> tlocal list \<Rightarrow> 'g sync_state \<Rightarrow>
   ('g sync_state \<times> (lmem \<times> (addr \<rightharpoonup> addr)) list) outcome" where
  "pool_fini_loop E n r0 fin [] s = Done (s, [])"
| "pool_fini_loop E n r0 fin (l # ls) s =
     obind (ADIOI_Sync_thread_fini E n r0 fin (load_thread l s)) (\<lambda>(s', a).
     obind (pool_fini_loop E n r0 fin ls s') (\<lambda>(s'', as). Done (s'', a @ as)))"

definition ADIOI_Sync_thread_pool_fini ::
  "'g env \<Rightarrow> nat \<Rightarrow> sync_req \<Rightarrow> addr \<Rightarrow> nat \<Rightarrow> tlocal list option \<Rightarrow> 'g sync_state \<Rightarrow>
   (tlocal list option \<times> 'g sync_state \<times> (lmem \<times> (addr \<rightharpoonup> addr)) list) outcome" where
  "ADIOI_Sync_thread_pool_fini E n r0 fin nt pool s = (case pool of
     None \<Rightarrow> Done (None, s, [])
   | Some ls \<Rightarrow> obind (pool_fini_loop E n r0 fin (take nt ls) s) (\<lambda>(s', a). Done (None, s', a)))"

section \<open>Callbacks and cache allocation\<close>

text \<open>
  The query callback: the error code it returns, the cancelled flag, and the datatype and count
  given to \<open>MPI_Status_set_elements\<close>, if it is called. For a request that is not a sync request
  the output variables stay as they were (\<open>d0\<close>, \<open>c0\<close>).
\<close>

definition ADIOI_Sync_req_query ::
  "sync_req \<Rightarrow> int \<Rightarrow> int \<Rightarrow> int \<times> bool \<times> (int \<times> int) option" where
  "ADIOI_Sync_req_query rq d0 c0 =
     (let err = hd (snd (ADIOI_Sync_req_get_key rq ADIOI_SYNC_ERR_CODE));
          d = (case snd (ADIOI_Sync_req_get_key rq ADIOI_SYNC_DATATYPE) of [x] \<Rightarrow> x | _ \<Rightarrow> d0);
          c = (case snd (ADIOI_Sync_req_get_key rq ADIOI_SYNC_COUNT) of [x] \<Rightarrow> x | _ \<Rightarrow> c0)
      in (err, False, if err = MPI_SUCCESS then Some (d, c) else None))"

definition ADIOI_Sync_req_free :: "sync_req \<Rightarrow> int" where
  "ADIOI_Sync_req_free rq = MPI_SUCCESS"

definition ADIOI_Sync_req_cancel :: "sync_req \<Rightarrow> int \<Rightarrow> int" where
  "ADIOI_Sync_req_cancel rq complete = MPI_SUCCESS"

datatype errno = ENOSPC | EBADF | EIO | EOTHER

datatype mpi_error = MPI_OK | MPI_ERR_NO_SPACE | MPI_ERR_ACCESS | MPI_ERR_IO | MPI_ERR_ARG

text \<open>\<open>fallocate_ret\<close> is the result of the system call: \<open>None\<close> for 0, or the \<open>errno\<close> it left.\<close>

definition ADIOI_Cache_alloc :: "errno option \<Rightarrow> mpi_error" where
  "ADIOI_Cache_alloc fallocate_ret = (case fallocate_ret of
     None \<Rightarrow> MPI_OK
   | Some ENOSPC \<Rightarrow> MPI_ERR_NO_SPACE
   | Some EBADF \<Rightarrow> MPI_ERR_ACCESS
   | Some EIO \<Rightarrow> MPI_ERR_IO
   | Some EOTHER \<Rightarrow> MPI_OK)"

section \<open>Flushing and waiting\<close>

definition thread_inv :: "sync_thread \<Rightarrow> bool" where
  "thread_inv t \<longleftrightarrow> aq_inv (sub t) \<and> aq_inv (pen t) \<and> aq_inv (waitq t)"

abbreviation "pens t \<equiv> aq_contents (pen t)"
abbreviation "subs t \<equiv> aq_contents (sub t)"
abbreviation "waits t \<equiv> aq_contents (waitq t)"

lemma req_handle_Some [simp]: "rh r = Some rq \<Longrightarrow> req_handle rh r = Done (rreq rq)"
  by (simp add: req_handle_def ADIOI_Sync_req_get_key_def sync_consts)

lemma req_handle_Done_iff: "req_handle rh r = Done h \<longleftrightarrow> (\<exists>rq. rh r = Some rq \<and> h = rreq rq)"
  by (cases "rh r") (auto simp: req_handle_def ADIOI_Sync_req_get_key_def sync_consts)

lemma sync_flush_one_ok:
  assumes inv: "thread_inv t" and pen: "pens t = r # rs" and rq: "rh r = Some rq"
    and room: "int (length (subs t)) < INT_MAX" "int (length (waits t)) < INT_MAX"
  shows "\<exists>t'. sync_flush_one E rh t g = Done (t', g_start E g (rreq rq)) \<and> thread_inv t' \<and>
     pens t' = rs \<and> subs t' = subs t @ [r] \<and> waits t' = waits t @ [r]"
proof -
  obtain p where p: "ADIOI_Atomic_queue_pop (pen t) = Done p" "aq_inv p" "aq_contents p = rs"
    using aq.pop_ok [of "pen t" r rs] inv pen by (auto simp: thread_inv_def)
  obtain s where s: "ADIOI_Atomic_queue_push (sub t) r = Done s" "aq_inv s" "aq_contents s = subs t @ [r]"
    using aq.push_ok [of "sub t" r] inv room by (auto simp: thread_inv_def)
  obtain w where w: "ADIOI_Atomic_queue_push (waitq t) r = Done w" "aq_inv w" "aq_contents w = waits t @ [r]"
    using aq.push_ok [of "waitq t" r] inv room by (auto simp: thread_inv_def)
  have "ADIOI_Atomic_queue_front (pen t) = Done r"
    using aq.front_eq [of "pen t"] inv pen by (simp add: thread_inv_def)
  with p s w rq show ?thesis by (simp add: sync_flush_one_def thread_inv_def)
qed

lemma flush_ok:
  "thread_inv t \<Longrightarrow> set (pens t) \<subseteq> dom rh \<Longrightarrow>
   int (length (subs t) + length (pens t)) \<le> INT_MAX \<Longrightarrow>
   int (length (waits t) + length (pens t)) \<le> INT_MAX \<Longrightarrow>
   \<exists>t'. ADIOI_Sync_thread_flush E rh t g =
          Done (t', fold (\<lambda>r g. g_start E g (rreq (the (rh r)))) (pens t) g) \<and>
     thread_inv t' \<and> pens t' = [] \<and> subs t' = subs t @ pens t \<and> waits t' = waits t @ pens t"
proof (induction "pens t" arbitrary: t g)
  case Nil
  then have "ADIOI_Atomic_queue_empty (pen t)" using aq.is_empty_iff by (simp add: thread_inv_def)
  with Nil show ?case by (auto simp: ADIOI_Sync_thread_flush.simps [of E rh t g])
next
  case (Cons r rs)
  then have pen: "pens t = r # rs" by simp
  obtain rq where rq: "rh r = Some rq" using Cons.prems(2) pen by auto
  obtain t1 where t1: "sync_flush_one E rh t g = Done (t1, g_start E g (rreq rq))" "thread_inv t1"
      "pens t1 = rs" "subs t1 = subs t @ [r]" "waits t1 = waits t @ [r]"
    using sync_flush_one_ok [where rh = rh, OF Cons.prems(1) pen rq, of E g] Cons.prems(3,4) pen by auto
  have "\<not> ADIOI_Atomic_queue_empty (pen t)"
    using aq.is_empty_iff [of "pen t"] Cons.prems(1) pen by (simp add: thread_inv_def)
  then have "ADIOI_Sync_thread_flush E rh t g = ADIOI_Sync_thread_flush E rh t1 (g_start E g (rreq rq))"
    using t1(1) by (simp add: ADIOI_Sync_thread_flush.simps [of E rh t g])
  moreover have "rs = pens t1" "set (pens t1) \<subseteq> dom rh"
      "int (length (subs t1) + length (pens t1)) \<le> INT_MAX"
      "int (length (waits t1) + length (pens t1)) \<le> INT_MAX"
    using t1 Cons.prems pen by auto
  ultimately show ?case
    using Cons.hyps(1) [of t1 "g_start E g (rreq rq)"] t1 pen rq by auto
qed

lemma wait_free_ok:
  "aq_inv w \<Longrightarrow> set (aq_contents w) \<subseteq> dom rh \<Longrightarrow>
   distinct (aq_contents w) \<Longrightarrow>
   distinct (map (\<lambda>r. rreq (the (rh r))) (aq_contents w)) \<Longrightarrow>
   (\<lambda>r. rreq (the (rh r))) ` set (aq_contents w) \<subseteq> hs \<Longrightarrow>
   \<exists>w'. sync_wait_free w rh hs = Done (w', rh |` (- set (aq_contents w)),
          hs - (\<lambda>r. rreq (the (rh r))) ` set (aq_contents w)) \<and> aq_inv w' \<and> aq_contents w' = []"
proof (induction "aq_contents w" arbitrary: w rh hs)
  case Nil
  then have e: "aq_contents w = []" by simp
  then have "ADIOI_Atomic_queue_empty w" using aq.is_empty_iff Nil by simp
  with e Nil show ?case by (simp add: sync_wait_free.simps [of w rh hs])
next
  case (Cons r rs)
  then have c: "aq_contents w = r # rs" by simp
  obtain rq where rq: "rh r = Some rq" using Cons.prems(2) c by auto
  obtain w1 where w1: "ADIOI_Atomic_queue_pop w = Done w1" "aq_inv w1" "aq_contents w1 = rs"
    using aq.pop_ok [OF Cons.prems(1) c] by blast
  let ?rh = "rh(r := None)" and ?hs = "hs - {rreq rq}"
  let ?H = "\<lambda>rh r. rreq (the (rh r))"
  have step: "sync_wait_free w rh hs = sync_wait_free w1 ?rh ?hs"
    using w1(1) rq c aq.front_eq [OF Cons.prems(1)] aq.is_empty_iff [OF Cons.prems(1)] Cons.prems(5)
    by (simp add: sync_wait_free.simps [of w rh hs])
  have nr: "r \<notin> set rs" using Cons.prems(3) c by simp
  then have same: "map (?H ?rh) rs = map (?H rh) rs" "?H ?rh ` set rs = ?H rh ` set rs" by auto
  have h: "rreq rq \<notin> ?H rh ` set rs" using Cons.prems(4) c rq by auto
  have "rs = aq_contents w1" "set (aq_contents w1) \<subseteq> dom ?rh" "distinct (aq_contents w1)"
    using w1(3) Cons.prems(2,3) c nr by auto
  moreover have "distinct (map (?H ?rh) (aq_contents w1))"
    unfolding w1(3) same(1) using Cons.prems(4) c by simp
  moreover have "?H ?rh ` set (aq_contents w1) \<subseteq> ?hs"
    unfolding w1(3) same(2) using Cons.prems(5) c h by (simp add: subset_Diff_insert)
  ultimately have "\<exists>w'. sync_wait_free w1 ?rh ?hs = Done (w', ?rh |` (- set rs), ?hs - ?H ?rh ` set rs) \<and>
      aq_inv w' \<and> aq_contents w' = []"
    using Cons.hyps(1) [OF _ w1(2), of ?rh ?hs] by simp
  moreover have "?rh |` (- set rs) = rh |` (- set (r # rs))"
    by (auto simp: restrict_map_def)
  moreover have "?hs - ?H ?rh ` set rs = hs - ?H rh ` set (r # rs)"
    using nr rq by auto
  ultimately show ?case using step c by simp
qed

section \<open>Properties of the thread pool\<close>

lemma thread_init_ok:
  "\<exists>t. ADIOI_Sync_thread_init a rc = Done (if rc \<noteq> 0 then ADIOI_ERR_THREAD_CREATE else MPI_SUCCESS, t) \<and>
     thread_inv t \<and> pens t = [] \<and> subs t = [] \<and> waits t = []"
proof -
  obtain q where "ADIOI_Atomic_queue_init a = Done q" "aq_inv q" "aq_contents q = []"
    using aq_init_ok by blast
  then show ?thesis by (simp add: ADIOI_Sync_thread_init_def thread_inv_def)
qed

text \<open>A thread as \<open>ADIOI_Sync_thread_init\<close> leaves it.\<close>

definition new_thread :: "sync_thread \<Rightarrow> bool" where
  "new_thread t \<longleftrightarrow> thread_inv t \<and> pens t = [] \<and> subs t = [] \<and> waits t = []"

lemma pool_init_loop_ok:
  "0 \<le> i \<Longrightarrow> i \<le> nt \<Longrightarrow> list_all new_thread ts \<Longrightarrow> length ts = nat i \<Longrightarrow>
   \<exists>e ts' n. pool_init_loop a nt rcs i ts = Done (e, ts', n) \<and> list_all new_thread ts' \<and>
     (e = MPI_SUCCESS \<and> n = nt \<and> int (length ts') = nt \<and> (\<forall>j. i \<le> j \<and> j < nt \<longrightarrow> rcs j = 0) \<or>
      e = ADIOI_ERR_THREAD_CREATE \<and> i \<le> n \<and> n < nt \<and> int (length ts') = n + 1 \<and> rcs n \<noteq> 0 \<and>
      (\<forall>j. i \<le> j \<and> j < n \<longrightarrow> rcs j = 0))"
proof (induction a nt rcs i ts rule: pool_init_loop.induct)
  case (1 a nt rcs i ts)
  show ?case
  proof (cases "i < nt")
    case False
    with 1 show ?thesis by (subst pool_init_loop.simps) (simp add: MPI_SUCCESS_def)
  next
    case True
    obtain t where t: "ADIOI_Sync_thread_init a (rcs i) =
        Done (if rcs i \<noteq> 0 then ADIOI_ERR_THREAD_CREATE else MPI_SUCCESS, t)" "new_thread t"
      using thread_init_ok unfolding new_thread_def by blast
    show ?thesis
    proof (cases "rcs i = 0")
      case False
      with 1 True t show ?thesis
        by (subst pool_init_loop.simps) (simp add: MPI_SUCCESS_def ADIOI_ERR_THREAD_CREATE_def)
    next
      case zero: True
      have "\<exists>e ts' n. pool_init_loop a nt rcs (i + 1) (ts @ [t]) = Done (e, ts', n) \<and> list_all new_thread ts' \<and>
          (e = MPI_SUCCESS \<and> n = nt \<and> int (length ts') = nt \<and> (\<forall>j. i + 1 \<le> j \<and> j < nt \<longrightarrow> rcs j = 0) \<or>
           e = ADIOI_ERR_THREAD_CREATE \<and> i + 1 \<le> n \<and> n < nt \<and> int (length ts') = n + 1 \<and> rcs n \<noteq> 0 \<and>
           (\<forall>j. i + 1 \<le> j \<and> j < n \<longrightarrow> rcs j = 0))"
        by (rule "1.IH" [OF True, of "(MPI_SUCCESS, t)" MPI_SUCCESS]) (use 1 True t zero in \<open>auto simp: MPI_SUCCESS_def\<close>)
      then obtain e ts' n where r: "pool_init_loop a nt rcs (i + 1) (ts @ [t]) = Done (e, ts', n)" "list_all new_thread ts'"
          "e = MPI_SUCCESS \<and> n = nt \<and> int (length ts') = nt \<and> (\<forall>j. i + 1 \<le> j \<and> j < nt \<longrightarrow> rcs j = 0) \<or>
           e = ADIOI_ERR_THREAD_CREATE \<and> i + 1 \<le> n \<and> n < nt \<and> int (length ts') = n + 1 \<and> rcs n \<noteq> 0 \<and>
           (\<forall>j. i + 1 \<le> j \<and> j < n \<longrightarrow> rcs j = 0)"
        by blast
      have all: "(\<forall>j. i \<le> j \<and> j < k \<longrightarrow> rcs j = 0)" if "\<forall>j. i + 1 \<le> j \<and> j < k \<longrightarrow> rcs j = 0" for k
        using that zero by (metis add1_zle_eq order_le_less)
      have "pool_init_loop a nt rcs i ts = Done (e, ts', n)"
        using True t(1) zero r(1) by (subst pool_init_loop.simps) (simp add: MPI_SUCCESS_def)
      then show ?thesis using r(2,3) all by auto
    qed
  qed
qed

text \<open>
  \<open>ADIOI_Sync_thread_pool_init\<close> returns for every number of threads: either every
  \<open>pthread_create\<close> succeeded, the result is \<open>MPI_SUCCESS\<close> and there is one thread with empty
  queues per index, or it stops at the first one that failed with \<open>ADIOI_ERR_THREAD_CREATE\<close> and
  sets the hint \<open>e10_cache_threads\<close> to the number of threads that do run.
\<close>

theorem pool_init_counts_threads:
  assumes "0 \<le> nt"
  shows "\<exists>e ts n. ADIOI_Sync_thread_pool_init a nt rcs = Done (e, ts, n) \<and> list_all new_thread ts \<and>
     (e = MPI_SUCCESS \<and> n = nt \<and> int (length ts) = nt \<and> (\<forall>j. 0 \<le> j \<and> j < nt \<longrightarrow> rcs j = 0) \<or>
      e = ADIOI_ERR_THREAD_CREATE \<and> 0 \<le> n \<and> n < nt \<and> rcs n \<noteq> 0 \<and> (\<forall>j. 0 \<le> j \<and> j < n \<longrightarrow> rcs j = 0))"
  using pool_init_loop_ok [of 0 nt "[]" a rcs] assms unfolding ADIOI_Sync_thread_pool_init_def by auto

theorem pool_init_counts_threads_witness:
  "\<exists>e ts n. ADIOI_Sync_thread_pool_init 5 4 (\<lambda>i. if i = 2 then 11 else 0) = Done (e, ts, n) \<and>
     e = ADIOI_ERR_THREAD_CREATE"
  using pool_init_counts_threads [of 4 5 "\<lambda>i. if i = 2 then 11 else 0"]
  by (auto simp: MPI_SUCCESS_def dest!: spec [of _ 2])

lemma shutdown_req:
  "\<exists>rq. ADIOI_Sync_req_init dtn reqn r0 [ADIOI_THREAD_SHUTDOWN] = Some (MPI_SUCCESS, rq) \<and> rtype rq = ADIOI_THREAD_SHUTDOWN"
  by (simp add: sync_consts)

text \<open>
  Shutting down a thread that has nothing left to do always succeeds: the thread takes the
  shutdown request and exits, the request is freed, the three queues give back all their memory,
  and neither file, nor the locks, nor the other requests change.
\<close>

theorem thread_fini_releases_all:
  assumes "new_thread (thr s)" "pc s = S_idle" "reqs s fin = None" "1 \<le> n"
  shows "\<exists>t. ADIOI_Sync_thread_fini E n r0 fin s =
     Done (s\<lparr>thr := t, pc := S_exit\<rparr>, [(Map.empty, Map.empty), (Map.empty, Map.empty), (Map.empty, Map.empty)])"
proof -
  have inv: "aq_inv (sub (thr s))" "aq_contents (sub (thr s)) = []" "aq_inv (pen (thr s))" "pens (thr s) = []"
      "aq_inv (waitq (thr s))" "waits (thr s) = []"
    using assms(1) by (simp_all add: new_thread_def thread_inv_def)
  obtain rq where rq: "ADIOI_Sync_req_init (dt_null E) (req_null E) r0 [ADIOI_THREAD_SHUTDOWN] = Some (MPI_SUCCESS, rq)"
      "rtype rq = ADIOI_THREAD_SHUTDOWN" using shutdown_req by blast
  obtain q where q: "ADIOI_Atomic_queue_push (sub (thr s)) fin = Done q" "aq_inv q" "aq_contents q = [fin]"
    using aq.push_ok [OF inv(1), of fin] inv(2) by (auto simp: INT_MAX_def)
  obtain q' where q': "ADIOI_Atomic_queue_pop q = Done q'" "aq_inv q'" "aq_contents q' = []"
    using aq.pop_ok [OF q(2,3)] by blast
  let ?s = "s\<lparr>thr := (thr s)\<lparr>sub := q\<rparr>, reqs := (reqs s)(fin \<mapsto> rq)\<rparr>"
  let ?s' = "?s\<lparr>thr := (thr s)\<lparr>sub := q'\<rparr>, pc := S_exit\<rparr>"
  have "sync_step E ?s = Done ?s'"
    using assms(2) q'(1) rq(2) aq.front_eq [OF q(2)] q(3)
    by (simp add: sync_take_def Let_def ADIOI_Sync_req_get_key_def sync_consts)
  moreover have "sync_step E ?s' = Blocked" by simp
  moreover obtain k where "n = Suc k" using assms(4) by (cases n) auto
  ultimately have "sync_run E n ?s = Done ?s'" by (cases k) simp_all
  moreover have "(reqs s)(fin := None) = reqs s" using assms(3) by auto
  ultimately show ?thesis
    using rq(1) q(1) aq_fini_empty [OF q'(2,3)] aq_fini_empty [OF inv(3,4)] aq_fini_empty [OF inv(5,6)]
    by (intro exI [of _ "(thr s)\<lparr>sub := q'\<rparr>"]) (simp add: ADIOI_Sync_thread_fini_def del: sync_step.simps ADIOI_Sync_req_init.simps)
qed

definition null_env :: "unit env" where
  "null_env = \<lparr>g_start = (\<lambda>g _. g), g_complete = (\<lambda>g _. g), g_done = (\<lambda>_ _. True), type_size = (\<lambda>_. 1),
     os_pread = (\<lambda>n. n), os_pwrite = (\<lambda>n. n), dt_null = 0, req_null = 0\<rparr>"

definition idle_state :: "sync_thread \<Rightarrow> unit sync_state" where
  "idle_state t = \<lparr>thr = t, reqs = Map.empty, handles = {}, greq = (), cachef = \<lparr>fdata = Map.empty, fsize = 0\<rparr>,
     globf = \<lparr>fdata = Map.empty, fsize = 0\<rparr>, locks = {}, buf_size = 8, coherent = False, pc = S_idle, sbuf = []\<rparr>"

text \<open>A thread just started is shut down again.\<close>

theorem thread_fini_releases_all_witness:
  "\<exists>t t'. ADIOI_Sync_thread_init 7 0 = Done (MPI_SUCCESS, t) \<and>
     ADIOI_Sync_thread_fini null_env 5
       \<lparr>rtype = 0, roff = 0, rdatatype = 0, rcount = 0, rreq = 0, rerror_code = 0, rfflags = 0\<rparr> 3 (idle_state t) =
     Done (idle_state t\<lparr>thr := t', pc := S_exit\<rparr>, [(Map.empty, Map.empty), (Map.empty, Map.empty), (Map.empty, Map.empty)])"
proof -
  obtain t where t: "ADIOI_Sync_thread_init 7 0 = Done (MPI_SUCCESS, t)" "new_thread t"
    using thread_init_ok [of 7 0] unfolding new_thread_def by auto
  then show ?thesis
    using thread_fini_releases_all [of "idle_state t" 3 5 null_env
        "\<lparr>rtype = 0, roff = 0, rdatatype = 0, rcount = 0, rreq = 0, rerror_code = 0, rfflags = 0\<rparr>"]
    by (auto simp: idle_state_def)
qed

end
