(* ===== verification/Cache_Protocol.thy ===== *)
theory Cache_Protocol
  imports Cache_Sync
begin

text \<open>
  The main thread of a process and its sync thread, running concurrently on the same cache
  file (one thread in the pool, the default of the hint \<open>e10_cache_threads\<close>). The step relation
  interleaves the steps of the sync thread with those of the main thread: the \<open>pwrite\<close> calls of
  \<open>ADIOI_GEN_WriteContig\<close>, the creation and enqueueing of the sync request, the turns of
  \<open>ADIOI_Sync_thread_flush\<close> and \<open>ADIOI_Sync_thread_wait\<close>. The main result is that whatever
  the interleaving, when a flush has returned the global file holds every byte the cache file
  holds; it rests on the FIFO order of the queues, which makes waiting for the last request
  enough.
\<close>

section \<open>States and steps\<close>

text \<open>
  \<open>M_write off dt cnt bs done\<close>: the main thread is in the loop of \<open>ADIOI_GEN_WriteContig\<close> and
  has written \<open>done\<close> of the bytes \<open>bs\<close> to the cache file.
\<close>

datatype main_pc = M_idle | M_write int int int "byte list" nat

record 'g proto =
  core :: "'g sync_state"
  mpc :: main_pc
  nextp :: addr

definition lock_range :: "int set \<Rightarrow> int \<Rightarrow> int \<Rightarrow> int set" where
  "lock_range L off len = L \<union> {off ..< off + len}"

definition write_begin :: "int \<Rightarrow> int \<Rightarrow> int \<Rightarrow> byte list \<Rightarrow> 'g proto \<Rightarrow> 'g proto" where
  "write_begin off dt cnt bs s =
     s\<lparr>core := (core s)\<lparr>locks := (if coherent (core s)
         then lock_range (locks (core s)) off (int (length bs)) else locks (core s))\<rparr>,
       mpc := M_write off dt cnt bs 0\<rparr>"

definition write_chunk :: "int \<Rightarrow> byte list \<Rightarrow> 'g proto \<Rightarrow> 'g proto" where
  "write_chunk at bs s =
     s\<lparr>core := (core s)\<lparr>cachef := file_pwrite (cachef (core s)) at bs\<rparr>\<rparr>"

definition write_end :: "'g env \<Rightarrow> sync_req \<Rightarrow> int \<Rightarrow> int \<Rightarrow> int \<Rightarrow> 'g proto \<Rightarrow> 'g proto outcome" where
  "write_end E r0 off dt cnt s = (let h = int (nextp s); r = Suc (nextp s); c = core s in
     obind (of_option (ADIOI_Sync_req_init (dt_null E) (req_null E) r0
             [ADIOI_THREAD_SYNC, off, dt, cnt, h, 0])) (\<lambda>(_, rq).
     obind (ADIOI_Sync_thread_enqueue (thr c) r) (\<lambda>t.
       Done (s\<lparr>core := c\<lparr>thr := t, reqs := (reqs c)(r \<mapsto> rq), handles := insert h (handles c)\<rparr>,
               mpc := M_idle, nextp := nextp s + 2\<rparr>))))"

definition main_flush_one :: "'g env \<Rightarrow> 'g proto \<Rightarrow> 'g proto outcome" where
  "main_flush_one E s = (let c = core s in
     obind (sync_flush_one E (reqs c) (thr c) (greq c)) (\<lambda>(t, g).
       Done (s\<lparr>core := c\<lparr>thr := t, greq := g\<rparr>\<rparr>)))"

definition main_wait :: "'g env \<Rightarrow> 'g proto \<Rightarrow> 'g proto outcome" where
  "main_wait E s = (let c = core s in
     obind (ADIOI_Sync_thread_wait E (thr c) (reqs c) (handles c) (greq c)) (\<lambda>(t, rh, hs).
       Done (s\<lparr>core := c\<lparr>thr := t, reqs := rh, handles := hs\<rparr>\<rparr>)))"

inductive proto_step :: "'g env \<Rightarrow> 'g proto \<Rightarrow> 'g proto \<Rightarrow> bool" for E where
  begin_write: "mpc s = M_idle \<Longrightarrow> 0 \<le> off \<Longrightarrow> int (length bs) = type_size E dt * cnt \<Longrightarrow>
     proto_step E s (write_begin off dt cnt bs s)"
| chunk_write: "mpc s = M_write off dt cnt bs d \<Longrightarrow> 0 < k \<Longrightarrow> d + k \<le> length bs \<Longrightarrow>
     proto_step E s ((write_chunk (off + int d) (take k (drop d bs)) s)
       \<lparr>mpc := M_write off dt cnt bs (d + k)\<rparr>)"
| end_write: "mpc s = M_write off dt cnt bs (length bs) \<Longrightarrow> write_end E r0 off dt cnt s = Done s' \<Longrightarrow>
     proto_step E s s'"
| flush_step: "mpc s = M_idle \<Longrightarrow> main_flush_one E s = Done s' \<Longrightarrow> proto_step E s s'"
| wait_step: "mpc s = M_idle \<Longrightarrow> main_wait E s = Done s' \<Longrightarrow> proto_step E s s'"
| thread_step: "sync_step E (core s) = Done c \<Longrightarrow> proto_step E s (s\<lparr>core := c\<rparr>)"

text \<open>The start: empty queues, no requests, an empty cache file, the thread waiting.\<close>

definition proto_init :: "'g proto \<Rightarrow> bool" where
  "proto_init s \<longleftrightarrow> (let c = core s in
     mpc s = M_idle \<and> thread_inv (thr c) \<and> pens (thr c) = [] \<and> subs (thr c) = [] \<and>
     waits (thr c) = [] \<and> reqs c = Map.empty \<and> handles c = {} \<and> fdata (cachef c) = Map.empty \<and>
     locks c = {} \<and> pc c = S_idle \<and> 0 < buf_size c \<and> length (sbuf c) = nat (buf_size c))"

inductive reachable :: "'g env \<Rightarrow> 'g proto \<Rightarrow> bool" for E where
  start: "proto_init s \<Longrightarrow> reachable E s"
| step: "reachable E s \<Longrightarrow> proto_step E s t \<Longrightarrow> reachable E t"

section \<open>The invariant\<close>

definition ext :: "'g env \<Rightarrow> sync_req \<Rightarrow> int set" where
  "ext E rq = {roff rq ..< roff rq + type_size E (rdatatype rq) * rcount rq}"

definition cov :: "'g env \<Rightarrow> rheap \<Rightarrow> addr list \<Rightarrow> int set" where
  "cov E rh rs = (\<Union>r \<in> set rs. case rh r of None \<Rightarrow> {} | Some rq \<Rightarrow> ext E rq)"

fun flight :: "spc \<Rightarrow> addr list" where
  "flight (S_loop r h off len bytes offset) = [r]"
| "flight (S_full r h off len bytes offset wr) = [r]"
| "flight _ = []"

text \<open>The bytes of the request in flight that are still to be written to the global file.\<close>

fun todo :: "spc \<Rightarrow> int set" where
  "todo (S_loop r h off len bytes offset) = {offset ..< off + len}"
| "todo (S_full r h off len bytes offset wr) = {offset ..< off + len}"
| "todo _ = {}"

fun mtodo :: "main_pc \<Rightarrow> int set" where
  "mtodo M_idle = {}"
| "mtodo (M_write off dt cnt bs d) = {off ..< off + int (length bs)}"

definition pending :: "'g env \<Rightarrow> 'g proto \<Rightarrow> int set" where
  "pending E s = cov E (reqs (core s)) (subs (thr (core s)) @ pens (thr (core s))) \<union> mtodo (mpc s)"

text \<open>Requests are well formed, and their extents lie inside what the cache file holds.\<close>

definition good_req :: "'g env \<Rightarrow> pfile \<Rightarrow> addr \<Rightarrow> sync_req \<Rightarrow> bool" where
  "good_req E f r rq \<longleftrightarrow> rtype rq = ADIOI_THREAD_SYNC \<and> rreq rq = int r - 1 \<and>
     ext E rq \<subseteq> dom (fdata f) \<and> 0 \<le> type_size E (rdatatype rq) * rcount rq \<and>
     (0 < type_size E (rdatatype rq) * rcount rq \<longrightarrow>
        roff rq + type_size E (rdatatype rq) * rcount rq \<le> fsize f)"

definition req_ok :: "'g env \<Rightarrow> 'g proto \<Rightarrow> addr \<Rightarrow> bool" where
  "req_ok E s r \<longleftrightarrow> r \<le> nextp s \<and> int r - 1 \<in> handles (core s) \<and>
     (\<exists>rq. reqs (core s) r = Some rq \<and> good_req E (cachef (core s)) r rq)"

definition req_inv :: "'g env \<Rightarrow> 'g proto \<Rightarrow> bool" where
  "req_inv E s \<longleftrightarrow> (let t = thr (core s) in
     thread_inv t \<and> distinct (waits t @ pens t) \<and> (\<forall>r \<in> set (waits t @ pens t). req_ok E s r))"

definition order_inv :: "'g env \<Rightarrow> 'g proto \<Rightarrow> bool" where
  "order_inv E s \<longleftrightarrow> (let c = core s; t = thr c in
     \<exists>ds. waits t = ds @ flight (pc c) @ subs t \<and>
       (\<forall>r \<in> set ds. g_done E (greq c) (int r - 1)) \<and>
       (\<forall>r \<in> set (flight (pc c) @ subs t). \<not> g_done E (greq c) (int r - 1)))"

text \<open>
  The sync thread's position and buffer; \<open>P\<close> is the set of bytes a later request still covers, so
  that a byte of the buffer may be out of date there.
\<close>

definition copying :: "'g env \<Rightarrow> rheap \<Rightarrow> addr \<Rightarrow> int \<Rightarrow> int \<Rightarrow> int \<Rightarrow> int \<Rightarrow> int \<Rightarrow> bool" where
  "copying E rh r h off len bytes offset \<longleftrightarrow> (\<exists>rq. rh r = Some rq \<and> h = rreq rq \<and> off = roff rq \<and>
     len = type_size E (rdatatype rq) * rcount rq \<and> 0 \<le> bytes \<and> bytes \<le> len \<and> offset = off + bytes)"

definition fresh_buf :: "pfile \<Rightarrow> byte list \<Rightarrow> int \<Rightarrow> int \<Rightarrow> int set \<Rightarrow> bool" where
  "fresh_buf f buf offset wr P \<longleftrightarrow>
     (\<forall>i < nat wr. fdata f (offset + int i) = Some (buf ! i) \<or> offset + int i \<in> P)"

definition thread_ok :: "'g env \<Rightarrow> 'g sync_state \<Rightarrow> int set \<Rightarrow> bool" where
  "thread_ok E c P \<longleftrightarrow> 0 < buf_size c \<and> length (sbuf c) = nat (buf_size c) \<and>
     (case pc c of
       S_idle \<Rightarrow> True
     | S_loop r h off len bytes offset \<Rightarrow> copying E (reqs c) r h off len bytes offset
     | S_full r h off len bytes offset wr \<Rightarrow> copying E (reqs c) r h off len bytes offset \<and>
         bytes < len \<and> wr = min (buf_size c) (len - bytes) \<and> fresh_buf (cachef c) (sbuf c) offset wr P
     | S_exit \<Rightarrow> False)"

fun main_ok :: "'g env \<Rightarrow> pfile \<Rightarrow> main_pc \<Rightarrow> bool" where
  "main_ok E f M_idle = True"
| "main_ok E f (M_write off dt cnt bs d) = (0 \<le> off \<and> int (length bs) = type_size E dt * cnt \<and>
     d \<le> length bs \<and> (\<forall>i < d. fdata f (off + int i) \<noteq> None) \<and> (0 < d \<longrightarrow> off + int d \<le> fsize f))"

definition pc_inv :: "'g env \<Rightarrow> 'g proto \<Rightarrow> bool" where
  "pc_inv E s \<longleftrightarrow> thread_ok E (core s) (pending E s) \<and> main_ok E (cachef (core s)) (mpc s)"

definition dirty_inv :: "'g env \<Rightarrow> 'g proto \<Rightarrow> bool" where
  "dirty_inv E s \<longleftrightarrow> (\<forall>p b. fdata (cachef (core s)) p = Some b \<longrightarrow>
     fdata (globf (core s)) p = Some b \<or> p \<in> todo (pc (core s)) \<or> p \<in> pending E s)"

text \<open>A lock is only held on bytes that some write still has to take to the global file.\<close>

fun held :: "spc \<Rightarrow> int set" where
  "held (S_loop r h off len bytes offset) = {off ..< off + len}"
| "held (S_full r h off len bytes offset wr) = {off ..< off + len}"
| "held _ = {}"

definition lock_inv :: "'g env \<Rightarrow> 'g proto \<Rightarrow> bool" where
  "lock_inv E s \<longleftrightarrow> locks (core s) \<subseteq> held (pc (core s)) \<union> pending E s \<and>
     (\<not> coherent (core s) \<longrightarrow> locks (core s) = {})"

definition proto_inv :: "'g env \<Rightarrow> 'g proto \<Rightarrow> bool" where
  "proto_inv E s \<longleftrightarrow> req_inv E s \<and> order_inv E s \<and> pc_inv E s \<and> dirty_inv E s \<and> lock_inv E s"

section \<open>Inversion of the operations\<close>

lemma enqueue_Done:
  assumes "thread_inv t" "ADIOI_Sync_thread_enqueue t r = Done t'"
  shows "thread_inv t' \<and> pens t' = pens t @ [r] \<and> subs t' = subs t \<and> waits t' = waits t"
  using assms by (auto simp: ADIOI_Sync_thread_enqueue_def thread_inv_def dest: aq.push_Done)

lemma sync_flush_one_Done:
  assumes inv: "thread_inv t" and d: "sync_flush_one E rh t g = Done (t', g')"
  shows "\<exists>r rs rq. pens t = r # rs \<and> rh r = Some rq \<and> g' = g_start E g (rreq rq) \<and> thread_inv t' \<and>
     pens t' = rs \<and> subs t' = subs t @ [r] \<and> waits t' = waits t @ [r]"
proof -
  obtain r p h s w where st: "ADIOI_Atomic_queue_front (pen t) = Done r"
      "ADIOI_Atomic_queue_pop (pen t) = Done p" "req_handle rh r = Done h"
      "ADIOI_Atomic_queue_push (sub t) r = Done s" "ADIOI_Atomic_queue_push (waitq t) r = Done w"
      "t' = t\<lparr>sub := s, pen := p, waitq := w\<rparr>" "g' = g_start E g h"
    using d by (auto simp: sync_flush_one_def)
  have i: "aq_inv (sub t)" "aq_inv (pen t)" "aq_inv (waitq t)" using inv by (auto simp: thread_inv_def)
  show ?thesis
    using aq.pop_Done [OF i(2) st(2)] aq.push_Done [OF i(1) st(4)] aq.push_Done [OF i(3) st(5)]
      aq.front_eq [OF i(2)] st(1,3,6,7)
    by (cases "pens t") (auto simp: thread_inv_def req_handle_Done_iff)
qed

lemma sync_take_Done:
  assumes inv: "thread_inv (thr s)" and d: "sync_take E s = Done s'"
    and sync: "\<forall>r \<in> set (subs (thr s)). \<exists>rq. reqs s r = Some rq \<and> rtype rq = ADIOI_THREAD_SYNC"
  shows "\<exists>r rs rq q. subs (thr s) = r # rs \<and> reqs s r = Some rq \<and> aq_inv q \<and> aq_contents q = rs \<and>
     s' = s\<lparr>thr := (thr s)\<lparr>sub := q\<rparr>,
            pc := S_loop r (rreq rq) (roff rq) (type_size E (rdatatype rq) * rcount rq) 0 (roff rq)\<rparr>"
proof -
  have i: "aq_inv (sub (thr s))" using inv by (simp add: thread_inv_def)
  obtain r q where st: "ADIOI_Atomic_queue_front (sub (thr s)) = Done r"
      "ADIOI_Atomic_queue_pop (sub (thr s)) = Done q"
    using d by (auto simp: sync_take_def)
  then obtain rs where rs: "subs (thr s) = r # rs" "aq_inv q" "aq_contents q = rs"
    using aq.pop_Done [OF i st(2)] aq.front_eq [OF i] by (cases "subs (thr s)") auto
  obtain rq where "reqs s r = Some rq" "rtype rq = ADIOI_THREAD_SYNC" using sync rs(1) by auto
  with d st rs show ?thesis
    by (auto simp: sync_take_def Let_def ADIOI_Sync_req_get_key_def sync_consts)
qed

lemma wait_Done:
  assumes inv: "thread_inv t" and d: "ADIOI_Sync_thread_wait E t rh hs g = Done (t', rh', hs')"
    and rq: "\<forall>r \<in> set (waits t). \<exists>rq. rh r = Some rq \<and> rreq rq = int r - 1 \<and> rreq rq \<in> hs"
    and dist: "distinct (waits t)"
  shows "(waits t = [] \<or> g_done E g (int (last (waits t)) - 1)) \<and> thread_inv t' \<and>
     pens t' = pens t \<and> subs t' = subs t \<and> waits t' = [] \<and>
     rh' = rh |` (- set (waits t)) \<and> hs' = hs - (\<lambda>r. int r - 1) ` set (waits t)"
proof -
  let ?H = "\<lambda>r. rreq (the (rh r))"
  have i: "aq_inv (waitq t)" using inv by (simp add: thread_inv_def)
  have H: "?H r = int r - 1" if "r \<in> set (waits t)" for r using rq that by force
  then have im: "?H ` set (waits t) = (\<lambda>r. int r - 1) ` set (waits t)" by auto
  have "set (waits t) \<subseteq> dom rh" "?H ` set (waits t) \<subseteq> hs" using rq by force+
  moreover have "distinct (map ?H (waits t))" using dist H by (auto simp: distinct_map inj_on_def)
  ultimately obtain w' where w': "sync_wait_free (waitq t) rh hs =
      Done (w', rh |` (- set (waits t)), hs - (\<lambda>r. int r - 1) ` set (waits t))" "aq_inv w'" "aq_contents w' = []"
    using wait_free_ok [OF i, of rh hs] dist im by auto
  have "waits t = [] \<or> g_done E g (int (last (waits t)) - 1)"
  proof (rule ccontr)
    assume n: "\<not> ?thesis"
    then obtain rl where "rh (last (waits t)) = Some rl" "rreq rl = int (last (waits t)) - 1"
      using rq last_in_set by blast
    with n d i show False
      by (simp add: ADIOI_Sync_thread_wait_def aq.is_empty_iff aq.rear_eq)
  qed
  moreover have "t' = t\<lparr>waitq := w'\<rparr> \<and> rh' = rh |` (- set (waits t)) \<and>
      hs' = hs - (\<lambda>r. int r - 1) ` set (waits t)"
    using d w'(1) by (auto simp: ADIOI_Sync_thread_wait_def)
  ultimately show ?thesis using w' inv by (auto simp: thread_inv_def)
qed

section \<open>The steps of the main thread keep the invariant\<close>

lemmas inv_defs = proto_inv_def req_inv_def order_inv_def pc_inv_def dirty_inv_def Let_def

lemma cov_cong: "(\<And>r. r \<in> set rs \<Longrightarrow> rh r = rh' r) \<Longrightarrow> cov E rh rs = cov E rh' rs"
  by (simp add: cov_def)

lemma fresh_buf_change:
  "fresh_buf f buf offset wr P \<Longrightarrow> P \<subseteq> P' \<Longrightarrow> (\<And>p. fdata f' p = fdata f p \<or> p \<in> P') \<Longrightarrow>
   fresh_buf f' buf offset wr P'"
  unfolding fresh_buf_def by (metis subsetD)

lemma thread_ok_change:
  assumes "thread_ok E c P" "P \<subseteq> P'" "\<And>p. fdata (cachef c') p = fdata (cachef c) p \<or> p \<in> P'"
    and "pc c' = pc c" "buf_size c' = buf_size c" "sbuf c' = sbuf c"
    and "\<And>r. r \<in> set (flight (pc c)) \<Longrightarrow> reqs c' r = reqs c r"
  shows "thread_ok E c' P'"
  using assms(1) fresh_buf_change [OF _ assms(2,3)] assms(4-7)
  by (cases "pc c") (auto simp: thread_ok_def copying_def)

lemma dirty_change:
  assumes "dirty_inv E s" "pending E s \<subseteq> pending E s'"
    and "\<And>p. fdata (cachef (core s')) p = fdata (cachef (core s)) p \<or> p \<in> pending E s'"
    and "globf (core s') = globf (core s)" "todo (pc (core s)) \<subseteq> todo (pc (core s')) \<union> pending E s'"
  shows "dirty_inv E s'"
  using assms unfolding dirty_inv_def by (metis UnE subsetD)

lemma lock_change:
  assumes "lock_inv E s" "pending E s \<subseteq> pending E s'" "locks (core s') = locks (core s)"
    and "coherent (core s') = coherent (core s)" "held (pc (core s)) \<subseteq> held (pc (core s')) \<union> pending E s'"
  shows "lock_inv E s'"
  using assms unfolding lock_inv_def by blast

lemma pending_mono_begin: "mpc s = M_idle \<Longrightarrow> pending E s \<subseteq> pending E (write_begin off dt cnt bs s)"
  by (auto simp: pending_def write_begin_def)

lemma begin_write_inv:
  assumes "proto_inv E s" "mpc s = M_idle" "0 \<le> off" "int (length bs) = type_size E dt * cnt"
  shows "proto_inv E (write_begin off dt cnt bs s)" (is "proto_inv E ?s")
proof -
  note pm = pending_mono_begin [OF assms(2), of E off dt cnt bs]
  have "req_inv E ?s" "order_inv E ?s"
    using assms(1) by (simp_all add: inv_defs req_ok_def write_begin_def)
  moreover have "pc_inv E ?s" unfolding pc_inv_def
  proof
    show "thread_ok E (core ?s) (pending E ?s)"
      by (rule thread_ok_change [OF _ pm]) (use assms(1) in \<open>auto simp: inv_defs write_begin_def\<close>)
    show "main_ok E (cachef (core ?s)) (mpc ?s)" using assms(3,4) by (simp add: write_begin_def)
  qed
  moreover have "dirty_inv E ?s"
    by (rule dirty_change [OF _ pm]) (use assms(1) in \<open>auto simp: proto_inv_def write_begin_def\<close>)
  moreover have "lock_inv E ?s"
    using assms(1,2) by (auto simp: proto_inv_def lock_inv_def pending_def write_begin_def lock_range_def)
  ultimately show ?thesis by (simp add: proto_inv_def)
qed

lemma good_req_pwrite: "good_req E f r rq \<Longrightarrow> good_req E (file_pwrite f off bs) r rq"
  using fsize_pwrite [of f off bs] by (auto simp: good_req_def fdata_pwrite domIff subset_iff)

lemma chunk_write_inv:
  assumes inv: "proto_inv E s" and m: "mpc s = M_write off dt cnt bs d" and k: "0 < k" "d + k \<le> length bs"
  shows "proto_inv E ((write_chunk (off + int d) (take k (drop d bs)) s)\<lparr>mpc := M_write off dt cnt bs (d + k)\<rparr>)"
    (is "proto_inv E ?s")
proof -
  let ?f = "cachef (core s)" and ?f' = "file_pwrite (cachef (core s)) (off + int d) (take k (drop d bs))"
  have eq: "core ?s = (core s)\<lparr>cachef := ?f'\<rparr>" "nextp ?s = nextp s"
      "mpc ?s = M_write off dt cnt bs (d + k)"
    by (simp_all add: write_chunk_def)
  have pend: "pending E ?s = pending E s" by (simp add: pending_def eq m)
  have ch: "fdata ?f' p = fdata ?f p \<or> p \<in> pending E s" for p
    using k m by (auto simp: fdata_pwrite pending_def)
  have "req_ok E ?s r" if "req_ok E s r" for r
    using that good_req_pwrite by (auto simp: req_ok_def eq)
  then have "req_inv E ?s" using inv by (auto simp: inv_defs eq)
  moreover have "order_inv E ?s" using inv by (simp add: inv_defs eq)
  moreover have "dirty_inv E ?s"
    by (rule dirty_change [of E s]) (use inv ch pend in \<open>auto simp: proto_inv_def eq\<close>)
  moreover have "lock_inv E ?s"
    by (rule lock_change [of E s]) (use inv ch pend in \<open>auto simp: proto_inv_def eq\<close>)
  moreover have "pc_inv E ?s" unfolding pc_inv_def pend
  proof
    show "thread_ok E (core ?s) (pending E s)"
      by (rule thread_ok_change [of E "core s" "pending E s"]) (use inv ch in \<open>auto simp: inv_defs eq\<close>)
    have "off + int (d + k) \<le> fsize ?f'"
      using fsize_pwrite_ge [of "take k (drop d bs)" "off + int d" ?f] k by (cases k) auto
    moreover have "fdata ?f' (off + int i) \<noteq> None" if "i < d + k" for i
      using inv m that k by (auto simp: inv_defs fdata_pwrite)
    ultimately show "main_ok E (cachef (core ?s)) (mpc ?s)"
      using inv k m by (simp add: inv_defs eq)
  qed
  ultimately show ?thesis by (simp add: proto_inv_def)
qed

lemma sync_req_init_SYNC:
  "ADIOI_Sync_req_init dn rn r0 [ADIOI_THREAD_SYNC, off, dt, cnt, h, f] =
     Some (MPI_SUCCESS, \<lparr>rtype = ADIOI_THREAD_SYNC, roff = off, rdatatype = dt, rcount = cnt, rreq = h,
       rerror_code = MPI_SUCCESS, rfflags = f\<rparr>)"
  by (simp add: sync_consts)

lemma write_end_Done:
  assumes inv: "thread_inv (thr (core s))" and d: "write_end E r0 off dt cnt s = Done s'"
  shows "\<exists>t rq. thread_inv t \<and> pens t = pens (thr (core s)) @ [Suc (nextp s)] \<and> subs t = subs (thr (core s)) \<and>
     waits t = waits (thr (core s)) \<and> rtype rq = ADIOI_THREAD_SYNC \<and> roff rq = off \<and> rdatatype rq = dt \<and>
     rcount rq = cnt \<and> rreq rq = int (nextp s) \<and>
     s' = s\<lparr>core := (core s)\<lparr>thr := t, reqs := (reqs (core s))(Suc (nextp s) \<mapsto> rq),
              handles := insert (int (nextp s)) (handles (core s))\<rparr>,
            mpc := M_idle, nextp := nextp s + 2\<rparr>"
proof -
  let ?rq = "\<lparr>rtype = ADIOI_THREAD_SYNC, roff = off, rdatatype = dt, rcount = cnt, rreq = int (nextp s),
      rerror_code = MPI_SUCCESS, rfflags = 0\<rparr>"
  obtain t where t: "ADIOI_Sync_thread_enqueue (thr (core s)) (Suc (nextp s)) = Done t"
    and s': "s' = s\<lparr>core := (core s)\<lparr>thr := t, reqs := (reqs (core s))(Suc (nextp s) \<mapsto> ?rq),
              handles := insert (int (nextp s)) (handles (core s))\<rparr>, mpc := M_idle, nextp := nextp s + 2\<rparr>"
    using d by (auto simp: write_end_def Let_def sync_req_init_SYNC simp del: ADIOI_Sync_req_init.simps)
  show ?thesis
    by (rule exI [of _ t], rule exI [of _ ?rq]) (use enqueue_Done [OF inv t] s' in simp)
qed

lemma end_write_inv:
  assumes inv: "proto_inv E s" and m: "mpc s = M_write off dt cnt bs (length bs)"
    and d: "write_end E r0 off dt cnt s = Done s'"
  shows "proto_inv E s'"
proof -
  let ?r = "Suc (nextp s)" and ?t = "thr (core s)"
  have ti: "thread_inv ?t" using inv by (simp add: inv_defs)
  obtain t rq where t: "thread_inv t" "pens t = pens ?t @ [?r]" "subs t = subs ?t" "waits t = waits ?t"
    and rq: "rtype rq = ADIOI_THREAD_SYNC" "roff rq = off" "rdatatype rq = dt" "rcount rq = cnt"
      "rreq rq = int (nextp s)"
    and s': "s' = s\<lparr>core := (core s)\<lparr>thr := t, reqs := (reqs (core s))(?r \<mapsto> rq),
              handles := insert (int (nextp s)) (handles (core s))\<rparr>, mpc := M_idle, nextp := nextp s + 2\<rparr>"
    using write_end_Done [OF ti d] by blast
  have len: "int (length bs) = type_size E dt * cnt" and mok: "main_ok E (cachef (core s)) (mpc s)"
    using inv m by (auto simp: proto_inv_def pc_inv_def)
  have old1: "req_ok E s r" if "r \<in> set (waits ?t @ pens ?t)" for r
    using inv that by (auto simp: proto_inv_def req_inv_def Let_def)
  have old: "req_ok E s r" "r \<noteq> ?r" if "r \<in> set (waits ?t @ pens ?t)" for r
    using old1 [OF that] by (auto simp: req_ok_def)
  have "req_ok E s' r" if "r \<in> set (waits ?t @ pens ?t)" for r
    using old [OF that] by (auto simp: req_ok_def s')
  moreover have "p \<in> dom (fdata (cachef (core s)))" if "off \<le> p" "p < off + int (length bs)" for p
    using mok m that by (auto simp: domIff dest!: spec [of _ "nat (p - off)"])
  then have "ext E rq \<subseteq> dom (fdata (cachef (core s)))"
    unfolding ext_def rq len [symmetric] by (meson atLeastLessThan_iff subsetI)
  then have "req_ok E s' ?r"
    using mok m len rq by (auto simp: req_ok_def s' good_req_def)
  ultimately have "req_inv E s'" using inv t old(2) by (auto simp: inv_defs s')
  moreover have sub: "set (flight (pc (core s)) @ subs ?t) \<subseteq> set (waits ?t)"
    using inv by (auto simp: inv_defs)
  have "cov E (reqs (core s')) (subs ?t @ pens ?t) = cov E (reqs (core s)) (subs ?t @ pens ?t)"
    by (rule cov_cong) (use old(2) sub in \<open>auto simp: s'\<close>)
  then have pend: "pending E s' = pending E s"
    using m len rq t by (auto simp: pending_def s' cov_def ext_def)
  have "order_inv E s'" using inv t by (simp add: inv_defs s')
  moreover have "thread_ok E (core s') (pending E s')"
    by (rule thread_ok_change [of E "core s" "pending E s"])
       (use inv pend old(2) sub in \<open>auto simp: inv_defs s'\<close>)
  then have "pc_inv E s'" by (simp add: pc_inv_def s')
  moreover have "dirty_inv E s'"
    by (rule dirty_change [of E s]) (use inv pend in \<open>auto simp: proto_inv_def s'\<close>)
  moreover have "lock_inv E s'"
    by (rule lock_change [of E s]) (use inv pend in \<open>auto simp: proto_inv_def s'\<close>)
  ultimately show ?thesis by (simp add: proto_inv_def)
qed

lemma greq_own:
  assumes "greq_laws E"
  shows "\<not> g_done E (g_start E g r) r" "g_done E (g_complete E g r) r"
  using assms by (auto simp: greq_laws_def)

lemma greq_other:
  assumes "greq_laws E" "r' \<noteq> r"
  shows "g_done E (g_start E g r) r' = g_done E g r'" "g_done E (g_complete E g r) r' = g_done E g r'"
  using assms by (auto simp: greq_laws_def)

lemma flush_step_inv:
  assumes laws: "greq_laws E" and inv: "proto_inv E s" and d: "main_flush_one E s = Done s'"
  shows "proto_inv E s'"
proof -
  let ?t = "thr (core s)" and ?g = "greq (core s)"
  have ti: "thread_inv ?t" using inv by (simp add: inv_defs)
  obtain t g where tg: "sync_flush_one E (reqs (core s)) ?t ?g = Done (t, g)"
    and s': "s' = s\<lparr>core := (core s)\<lparr>thr := t, greq := g\<rparr>\<rparr>"
    using d by (auto simp: main_flush_one_def Let_def)
  obtain r rs rq where t: "pens ?t = r # rs" "reqs (core s) r = Some rq" "g = g_start E ?g (rreq rq)"
      "thread_inv t" "pens t = rs" "subs t = subs ?t @ [r]" "waits t = waits ?t @ [r]"
    using sync_flush_one_Done [OF ti tg] by blast
  have h: "rreq rq = int r - 1" using inv t(1,2) by (auto simp: inv_defs req_ok_def good_req_def)
  have nw: "r \<notin> set (waits ?t)" using inv t(1) by (auto simp: inv_defs)
  have "req_ok E s' x = req_ok E s x" for x by (simp add: req_ok_def s')
  then have "req_inv E s'" using inv t by (auto simp: inv_defs s')
  moreover have pend: "pending E s' = pending E s" using t by (auto simp: pending_def s' cov_def)
  have other: "g_done E g (int x - 1) = g_done E ?g (int x - 1)" if "x \<in> set (waits ?t)" for x
    unfolding t(3) h by (rule greq_other(1) [OF laws]) (use that nw in auto)
  have "\<not> g_done E g (int r - 1)" using laws by (simp add: t(3) h greq_laws_def)
  moreover obtain ds where ds: "waits ?t = ds @ flight (pc (core s)) @ subs ?t"
      "\<forall>x \<in> set ds. g_done E ?g (int x - 1)" "\<forall>x \<in> set (flight (pc (core s)) @ subs ?t). \<not> g_done E ?g (int x - 1)"
    using inv by (auto simp: inv_defs)
  ultimately have "order_inv E s'"
    using t(6,7) other by (auto simp: order_inv_def s' intro!: exI [of _ ds])
  moreover have "thread_ok E (core s') (pending E s')"
    by (rule thread_ok_change [of E "core s" "pending E s"]) (use inv pend in \<open>auto simp: inv_defs s'\<close>)
  then have "pc_inv E s'" using inv by (simp add: inv_defs s')
  moreover have "dirty_inv E s'"
    by (rule dirty_change [of E s]) (use inv pend in \<open>auto simp: proto_inv_def s'\<close>)
  moreover have "lock_inv E s'"
    by (rule lock_change [of E s]) (use inv pend in \<open>auto simp: proto_inv_def s'\<close>)
  ultimately show ?thesis using \<open>req_inv E s'\<close> by (simp add: proto_inv_def)
qed

lemma last_done_all_done:
  assumes "ws = ds @ fl @ sb" "\<forall>r \<in> set (fl @ sb). \<not> D r" "ws = [] \<or> D (last ws)"
  shows "fl = [] \<and> sb = []"
proof (rule ccontr)
  assume "\<not> ?thesis"
  then have ne: "fl @ sb \<noteq> []" by auto
  then have "last ws = last (fl @ sb)" "ws \<noteq> []" using assms(1) by simp_all
  with assms(2,3) last_in_set [OF ne] show False by simp
qed

lemma wait_step_inv:
  assumes inv: "proto_inv E s" and d: "main_wait E s = Done s'"
  shows "proto_inv E s' \<and> subs (thr (core s)) = [] \<and> flight (pc (core s)) = []"
proof -
  let ?c = "core s" and ?t = "thr (core s)"
  have ti: "thread_inv ?t" and dist: "distinct (waits ?t @ pens ?t)"
    and ok: "\<And>r. r \<in> set (waits ?t @ pens ?t) \<Longrightarrow> req_ok E s r"
    using inv by (auto simp: proto_inv_def req_inv_def Let_def)
  obtain t rh hs where w: "ADIOI_Sync_thread_wait E ?t (reqs ?c) (handles ?c) (greq ?c) = Done (t, rh, hs)"
    and s': "s' = s\<lparr>core := ?c\<lparr>thr := t, reqs := rh, handles := hs\<rparr>\<rparr>"
    using d by (auto simp: main_wait_def Let_def)
  have "\<exists>rq. reqs ?c r = Some rq \<and> rreq rq = int r - 1 \<and> rreq rq \<in> handles ?c" if "r \<in> set (waits ?t)" for r
    using ok [of r] that by (auto simp: req_ok_def good_req_def)
  then have r: "waits ?t = [] \<or> g_done E (greq ?c) (int (last (waits ?t)) - 1)" "thread_inv t"
      "pens t = pens ?t" "subs t = subs ?t" "waits t = []" "rh = reqs ?c |` (- set (waits ?t))"
      "hs = handles ?c - (\<lambda>r. int r - 1) ` set (waits ?t)"
    using wait_Done [OF ti w] dist by auto
  obtain ds where ds: "waits ?t = ds @ flight (pc ?c) @ subs ?t"
      "\<forall>x \<in> set (flight (pc ?c) @ subs ?t). \<not> g_done E (greq ?c) (int x - 1)"
    using inv by (auto simp: inv_defs)
  have "flight (pc ?c) = [] \<and> subs ?t = []" by (rule last_done_all_done [OF ds r(1)])
  then have fl: "flight (pc ?c) = []" "subs ?t = []" by simp_all
  have nw: "x \<notin> set (waits ?t)" if "x \<in> set (pens ?t)" for x using dist that by auto
  have "req_ok E s' x" if "x \<in> set (pens ?t)" for x
    using ok [of x] that nw [OF that] by (auto simp: req_ok_def s' r(6,7))
  then have "req_inv E s'" using r dist by (auto simp: req_inv_def s')
  moreover have "order_inv E s'" using r fl by (simp add: order_inv_def s')
  moreover have "cov E rh (pens ?t) = cov E (reqs ?c) (pens ?t)"
    by (rule cov_cong) (use nw in \<open>simp add: r(6)\<close>)
  then have pend: "pending E s' = pending E s" using fl r by (auto simp: pending_def s')
  have "thread_ok E (core s') (pending E s')"
    by (rule thread_ok_change [of E ?c "pending E s"]) (use inv pend fl in \<open>auto simp: inv_defs s'\<close>)
  then have "pc_inv E s'" using inv by (simp add: inv_defs s')
  moreover have "dirty_inv E s'"
    by (rule dirty_change [of E s]) (use inv pend in \<open>auto simp: proto_inv_def s'\<close>)
  moreover have "lock_inv E s'"
    by (rule lock_change [of E s]) (use inv pend in \<open>auto simp: proto_inv_def s'\<close>)
  ultimately show ?thesis using fl by (simp add: proto_inv_def)
qed

section \<open>The steps of the sync thread keep the invariant\<close>

lemma take_inv:
  assumes inv: "proto_inv E s" and p: "pc (core s) = S_idle" and d: "sync_take E (core s) = Done c"
  shows "proto_inv E (s\<lparr>core := c\<rparr>)" (is "proto_inv E ?s")
proof -
  let ?c = "core s" and ?t = "thr (core s)"
  have ti: "thread_inv ?t" and dist: "distinct (waits ?t @ pens ?t)"
    and ok: "\<And>r. r \<in> set (waits ?t @ pens ?t) \<Longrightarrow> req_ok E s r"
    using inv by (auto simp: proto_inv_def req_inv_def Let_def)
  obtain ds where ds: "waits ?t = ds @ subs ?t" "\<forall>x \<in> set ds. g_done E (greq ?c) (int x - 1)"
      "\<forall>x \<in> set (subs ?t). \<not> g_done E (greq ?c) (int x - 1)"
    using inv p by (auto simp: inv_defs)
  have "\<exists>rq. reqs ?c r = Some rq \<and> rtype rq = ADIOI_THREAD_SYNC" if "r \<in> set (subs ?t)" for r
    using ok [of r] that ds(1) by (auto simp: req_ok_def good_req_def)
  then obtain r rs rq q where t: "subs ?t = r # rs" "reqs ?c r = Some rq" "aq_inv q" "aq_contents q = rs"
    and c: "c = ?c\<lparr>thr := ?t\<lparr>sub := q\<rparr>,
       pc := S_loop r (rreq rq) (roff rq) (type_size E (rdatatype rq) * rcount rq) 0 (roff rq)\<rparr>"
    using sync_take_Done [OF ti d] by blast
  have good: "good_req E (cachef ?c) r rq" using ok [of r] ds(1) t(1,2) by (auto simp: req_ok_def)
  have "req_ok E ?s x = req_ok E s x" for x by (simp add: req_ok_def c)
  then have "req_inv E ?s" using ok ti dist t(3) by (auto simp: req_inv_def thread_inv_def c)
  moreover have "order_inv E ?s" using ds t by (auto simp: order_inv_def c intro!: exI [of _ ds])
  moreover have "pc_inv E ?s"
    using inv t(2) good by (auto simp: inv_defs thread_ok_def copying_def good_req_def c)
  moreover have "pending E s \<subseteq> pending E ?s \<union> todo (pc c)"
    using t by (auto simp: pending_def cov_def ext_def c)
  then have "dirty_inv E ?s"
    using inv p unfolding proto_inv_def dirty_inv_def by (fastforce simp: c)
  moreover have "lock_inv E ?s"
    using inv p t by (auto simp: proto_inv_def lock_inv_def pending_def cov_def ext_def c)
  ultimately show ?thesis by (simp add: proto_inv_def)
qed

lemma pread_fresh:
  assumes ft: "full_transfers E" and len: "length (sbuf c) = nat (buf_size c)"
    and wr: "0 < wr" "wr \<le> buf_size c" and dom: "{offset ..< offset + wr} \<subseteq> dom (fdata (cachef c))"
    and sz: "offset + wr \<le> fsize (cachef c)"
  shows "length (sync_pread E c offset wr) = nat (buf_size c)"
    "fresh_buf (cachef c) (sync_pread E c offset wr) offset wr P"
proof -
  have l: "length (file_pread (cachef c) offset wr) = nat wr" by (rule length_file_pread [OF sz])
  have p: "sync_pread E c offset wr = file_pread (cachef c) offset wr @ drop (nat wr) (sbuf c)"
    using ft l by (simp add: sync_pread_def full_transfers_def)
  then show "length (sync_pread E c offset wr) = nat (buf_size c)" using l len wr by simp
  have "fdata (cachef c) (offset + int i) = Some (sync_pread E c offset wr ! i)" if "i < nat wr" for i
  proof -
    have "offset + int i \<in> {offset ..< offset + wr}" using that by auto
    then have "offset + int i \<in> dom (fdata (cachef c))" using dom by blast
    then obtain b where "fdata (cachef c) (offset + int i) = Some b" by blast
    with nth_file_pread [OF sz that] that show ?thesis by (simp add: p nth_append l)
  qed
  then show "fresh_buf (cachef c) (sync_pread E c offset wr) offset wr P" by (simp add: fresh_buf_def)
qed

lemma flight_good:
  assumes "proto_inv E s" "r \<in> set (flight (pc (core s)))" "reqs (core s) r = Some rq"
  shows "good_req E (cachef (core s)) r rq"
proof -
  have "r \<in> set (waits (thr (core s)))" using assms(1,2) by (auto simp: inv_defs)
  then have "req_ok E s r" using assms(1) by (simp add: proto_inv_def req_inv_def Let_def)
  with assms(3) show ?thesis by (simp add: req_ok_def)
qed

lemma read_inv:
  assumes ft: "full_transfers E" and inv: "proto_inv E s"
    and p: "pc (core s) = S_loop r h off len bytes offset" and b: "bytes < len"
    and wr: "wr = min (buf_size (core s)) (len - bytes)"
  shows "proto_inv E (s\<lparr>core := (core s)\<lparr>sbuf := sync_pread E (core s) offset wr,
     pc := S_full r h off len bytes offset wr\<rparr>\<rparr>)" (is "proto_inv E ?s")
proof -
  let ?c = "core s"
  have pend: "pending E ?s = pending E s" by (simp add: pending_def)
  have ok: "thread_ok E ?c (pending E s)" using inv by (simp add: proto_inv_def pc_inv_def)
  then obtain rq where rq: "reqs ?c r = Some rq" "off = roff rq" "len = type_size E (rdatatype rq) * rcount rq"
      "offset = off + bytes" "0 \<le> bytes" "h = rreq rq"
    using p by (auto simp: thread_ok_def copying_def)
  have good: "good_req E (cachef ?c) r rq" using flight_good [OF inv _ rq(1)] p by simp
  have "{offset ..< offset + wr} \<subseteq> ext E rq" using rq wr by (auto simp: ext_def)
  then have dom: "{offset ..< offset + wr} \<subseteq> dom (fdata (cachef ?c))" using good by (auto simp: good_req_def)
  have sz: "offset + wr \<le> fsize (cachef ?c)" using good b rq wr by (auto simp: good_req_def)
  have bs: "0 < buf_size ?c" "length (sbuf ?c) = nat (buf_size ?c)" using ok by (auto simp: thread_ok_def)
  have w: "0 < wr" "wr \<le> buf_size ?c" using wr b bs by auto
  note fresh = pread_fresh [OF ft bs(2) w dom sz]
  have "req_ok E ?s x = req_ok E s x" for x by (simp add: req_ok_def)
  then have "req_inv E ?s" using inv by (auto simp: proto_inv_def req_inv_def)
  moreover have "order_inv E ?s" using inv p by (simp add: inv_defs)
  moreover have "thread_ok E (core ?s) (pending E ?s)"
    using ok p b bs wr fresh pend by (simp add: thread_ok_def)
  then have "pc_inv E ?s" using inv by (simp add: proto_inv_def pc_inv_def)
  moreover have "dirty_inv E ?s"
    by (rule dirty_change [of E s]) (use inv pend p in \<open>auto simp: proto_inv_def\<close>)
  moreover have "lock_inv E ?s"
    by (rule lock_change [of E s]) (use inv pend p in \<open>auto simp: proto_inv_def\<close>)
  ultimately show ?thesis by (simp add: proto_inv_def)
qed

lemma write_inv:
  assumes ft: "full_transfers E" and inv: "proto_inv E s"
    and p: "pc (core s) = S_full r h off len bytes offset wr"
  shows "proto_inv E (s\<lparr>core := (core s)\<lparr>
     globf := file_pwrite (globf (core s)) offset (take (nat (os_pwrite E wr)) (take (nat wr) (sbuf (core s)))),
     pc := S_loop r h off len (bytes + wr) (offset + wr)\<rparr>\<rparr>)" (is "proto_inv E ?s")
proof -
  let ?c = "core s" and ?b = "take (nat wr) (sbuf (core s))"
  have pend: "pending E ?s = pending E s" by (simp add: pending_def)
  have ok: "thread_ok E ?c (pending E s)" using inv by (simp add: proto_inv_def pc_inv_def)
  then have wr: "wr = min (buf_size ?c) (len - bytes)" "bytes < len" "0 < buf_size ?c"
      "length (sbuf ?c) = nat (buf_size ?c)" and cp: "copying E (reqs ?c) r h off len bytes offset"
    and fresh: "fresh_buf (cachef ?c) (sbuf ?c) offset wr (pending E s)"
    using p by (auto simp: thread_ok_def)
  have g: "globf (core ?s) = file_pwrite (globf ?c) offset ?b" using ft by (simp add: full_transfers_def)
  have "req_ok E ?s x = req_ok E s x" for x by (simp add: req_ok_def)
  then have "req_inv E ?s" using inv by (auto simp: proto_inv_def req_inv_def)
  moreover have "order_inv E ?s" using inv p by (simp add: inv_defs)
  moreover have "copying E (reqs ?c) r h off len (bytes + wr) (offset + wr)"
    using cp wr by (auto simp: copying_def)
  then have "thread_ok E (core ?s) (pending E ?s)" using ok by (simp add: thread_ok_def)
  then have "pc_inv E ?s" using inv by (simp add: proto_inv_def pc_inv_def)
  moreover have "fdata (globf (core ?s)) q = Some b \<or> q \<in> todo (pc (core ?s)) \<or> q \<in> pending E s"
    if q: "fdata (cachef ?c) q = Some b" for q b
  proof (cases "offset \<le> q \<and> q < offset + wr")
    case True
    then have i: "nat (q - offset) < nat wr" "offset + int (nat (q - offset)) = q" by auto
    have "fdata (cachef ?c) q = Some (sbuf ?c ! nat (q - offset)) \<or> q \<in> pending E s"
      using fresh i unfolding fresh_buf_def by metis
    with q have "q \<in> pending E s \<or> sbuf ?c ! nat (q - offset) = b" by auto
    then show ?thesis unfolding g fdata_pwrite using True wr i(1) by auto
  next
    case False
    then have "fdata (globf (core ?s)) q = fdata (globf ?c) q"
      unfolding g fdata_pwrite using wr by auto
    moreover have "q \<in> todo (pc (core ?s))" if "q \<in> todo (pc ?c)" using that False p by auto
    ultimately show ?thesis using inv q by (auto simp: proto_inv_def dirty_inv_def)
  qed
  then have "dirty_inv E ?s" unfolding dirty_inv_def pend by simp
  moreover have "lock_inv E ?s"
    by (rule lock_change [of E s]) (use inv pend p in \<open>auto simp: proto_inv_def\<close>)
  ultimately show ?thesis by (simp add: proto_inv_def)
qed

lemma complete_inv:
  assumes laws: "greq_laws E" and inv: "proto_inv E s"
    and p: "pc (core s) = S_loop r h off len bytes offset" and b: "\<not> bytes < len"
    and L: "L = (if coherent (core s) then unlock_range (locks (core s)) off len else locks (core s))"
  shows "proto_inv E (s\<lparr>core := (core s)\<lparr>locks := L, greq := g_complete E (greq (core s)) h, pc := S_idle\<rparr>\<rparr>)"
    (is "proto_inv E ?s")
proof -
  let ?c = "core s" and ?t = "thr (core s)" and ?g = "greq (core s)"
  have pend: "pending E ?s = pending E s" by (simp add: pending_def)
  have ok: "thread_ok E ?c (pending E s)" using inv by (simp add: proto_inv_def pc_inv_def)
  then obtain rq where rq: "reqs ?c r = Some rq" "h = rreq rq" "off + len \<le> offset"
    using p b by (auto simp: thread_ok_def copying_def)
  have h: "h = int r - 1" using flight_good [OF inv _ rq(1)] p rq(2) by (simp add: good_req_def)
  obtain ds where ds: "waits ?t = ds @ r # subs ?t" "\<forall>x \<in> set ds. g_done E ?g (int x - 1)"
      "\<forall>x \<in> set (r # subs ?t). \<not> g_done E ?g (int x - 1)"
    using inv p by (auto simp: inv_defs)
  have dist: "distinct (waits ?t)" using inv by (simp add: proto_inv_def req_inv_def Let_def)
  have oth: "g_done E (g_complete E ?g h) (int x - 1) = g_done E ?g (int x - 1)" if "x \<noteq> r" for x
    unfolding h by (rule greq_other(2) [OF laws]) (use that in auto)
  have nin: "x \<in> set ds \<Longrightarrow> x \<noteq> r" "x \<in> set (subs ?t) \<Longrightarrow> x \<noteq> r" for x
    using ds(1) dist by auto
  have "req_ok E ?s x = req_ok E s x" for x by (simp add: req_ok_def)
  then have "req_inv E ?s" using inv by (auto simp: proto_inv_def req_inv_def)
  moreover have "\<forall>x \<in> set (ds @ [r]). g_done E (g_complete E ?g h) (int x - 1)"
    using ds(2) nin oth greq_own(2) [OF laws] by (auto simp: h)
  moreover have "\<forall>x \<in> set (subs ?t). \<not> g_done E (g_complete E ?g h) (int x - 1)"
    using ds(3) nin oth by auto
  ultimately have "order_inv E ?s" "req_inv E ?s"
    using ds(1) by (auto simp: order_inv_def intro!: exI [of _ "ds @ [r]"])
  moreover have "thread_ok E (core ?s) (pending E ?s)" using ok by (simp add: thread_ok_def)
  then have "pc_inv E ?s" using inv by (simp add: proto_inv_def pc_inv_def)
  moreover have "dirty_inv E ?s"
    by (rule dirty_change [of E s]) (use inv pend p rq(3) in \<open>auto simp: proto_inv_def\<close>)
  moreover have "lock_inv E ?s"
    unfolding lock_inv_def pend using inv p L by (auto simp: proto_inv_def lock_inv_def unlock_range_def)
  ultimately show ?thesis by (simp add: proto_inv_def)
qed

section \<open>Every reachable state satisfies the invariant\<close>

lemma sync_step_Fault_free:
  assumes inv: "proto_inv E s"
  shows "sync_step E (core s) \<noteq> Fault"
    and "sync_step E (core s) = Blocked \<Longrightarrow> pc (core s) = S_idle \<and> subs (thr (core s)) = []"
proof -
  let ?c = "core s" and ?t = "thr (core s)"
  have i: "aq_inv (sub ?t)" using inv by (auto simp: inv_defs thread_inv_def)
  have req: "\<exists>rq. reqs ?c r = Some rq \<and> rtype rq = ADIOI_THREAD_SYNC" if "r \<in> set (subs ?t)" for r
  proof -
    have "r \<in> set (waits ?t)" using inv that by (auto simp: inv_defs)
    then have "req_ok E s r" using inv by (simp add: proto_inv_def req_inv_def Let_def)
    then show ?thesis by (auto simp: req_ok_def good_req_def)
  qed
  have take: "sync_take E ?c \<noteq> Fault \<and> (sync_take E ?c = Blocked \<longrightarrow> subs ?t = [])"
  proof (cases "subs ?t")
    case Nil
    with i show ?thesis by (simp add: sync_take_def aq.front_eq)
  next
    case (Cons r rs)
    then obtain q where "ADIOI_Atomic_queue_pop (sub ?t) = Done q" using aq.pop_ok [OF i] by blast
    moreover obtain rq where "reqs ?c r = Some rq" "rtype rq = ADIOI_THREAD_SYNC" using req Cons by auto
    ultimately show ?thesis using i Cons
      by (simp add: sync_take_def aq.front_eq Let_def ADIOI_Sync_req_get_key_def sync_consts)
  qed
  have "thread_ok E ?c (pending E s)" using inv by (simp add: proto_inv_def pc_inv_def)
  with take show "sync_step E ?c \<noteq> Fault"
      "sync_step E ?c = Blocked \<Longrightarrow> pc ?c = S_idle \<and> subs ?t = []"
    by (cases "pc ?c"; auto simp: thread_ok_def Let_def split: if_splits)+
qed

lemma thread_step_inv:
  assumes laws: "greq_laws E" "full_transfers E" and inv: "proto_inv E s"
    and d: "sync_step E (core s) = Done c"
  shows "proto_inv E (s\<lparr>core := c\<rparr>)"
proof (cases "pc (core s)")
  case S_idle
  with d have "sync_take E (core s) = Done c" by simp
  with take_inv [OF inv S_idle] show ?thesis by blast
next
  case (S_loop r h off len bytes offset)
  show ?thesis
  proof (cases "bytes < len")
    case True
    with d S_loop read_inv [OF laws(2) inv S_loop True] show ?thesis by (auto simp: Let_def split: if_splits)
  next
    case False
    with d S_loop have "c = (core s)\<lparr>locks := (if coherent (core s) then unlock_range (locks (core s)) off len
        else locks (core s)), greq := g_complete E (greq (core s)) h, pc := S_idle\<rparr>" by simp
    then show ?thesis by (simp only: complete_inv [OF laws(1) inv S_loop False refl])
  qed
next
  case (S_full r h off len bytes offset wr)
  with d write_inv [OF laws(2) inv S_full] show ?thesis by auto
next
  case S_exit
  with d show ?thesis by simp
qed

lemma proto_step_inv:
  assumes "greq_laws E" "full_transfers E" "proto_step E s s'" "proto_inv E s"
  shows "proto_inv E s'"
  using assms(3)
proof cases
  case begin_write
  with begin_write_inv [OF assms(4)] show ?thesis by simp
next
  case chunk_write
  with chunk_write_inv [OF assms(4)] show ?thesis by simp
next
  case end_write
  with end_write_inv [OF assms(4)] show ?thesis by blast
next
  case flush_step
  with flush_step_inv [OF assms(1,4)] show ?thesis by blast
next
  case wait_step
  with wait_step_inv [OF assms(4)] show ?thesis by blast
next
  case thread_step
  with thread_step_inv [OF assms(1,2,4)] show ?thesis by blast
qed

lemma init_inv: "proto_init s \<Longrightarrow> proto_inv E s"
  by (simp add: proto_init_def inv_defs thread_ok_def lock_inv_def)

lemma reachable_inv: "reachable E s \<Longrightarrow> greq_laws E \<Longrightarrow> full_transfers E \<Longrightarrow> proto_inv E s"
  by (induction rule: reachable.induct) (auto intro: init_inv proto_step_inv)

section \<open>Progress of the sync thread\<close>

definition req_work :: "'g env \<Rightarrow> rheap \<Rightarrow> addr \<Rightarrow> nat" where
  "req_work E rh r = (case rh r of None \<Rightarrow> 0
     | Some rq \<Rightarrow> 2 * nat (type_size E (rdatatype rq) * rcount rq) + 2)"

fun pc_work :: "spc \<Rightarrow> nat" where
  "pc_work (S_loop r h off len bytes offset) = 2 * nat (len - bytes) + 1"
| "pc_work (S_full r h off len bytes offset wr) = 2 * nat (len - bytes)"
| "pc_work _ = 0"

text \<open>How many steps the sync thread still has to do, at most.\<close>

definition work :: "'g env \<Rightarrow> 'g sync_state \<Rightarrow> nat" where
  "work E c = sum_list (map (req_work E (reqs c)) (subs (thr c))) + pc_work (pc c)"

lemma thread_step_work:
  assumes inv: "proto_inv E s" and d: "sync_step E (core s) = Done c"
  shows "work E c < work E (core s)"
proof (cases "pc (core s)")
  case S_idle
  let ?t = "thr (core s)"
  have sub: "\<exists>rq. reqs (core s) r = Some rq \<and> rtype rq = ADIOI_THREAD_SYNC" if "r \<in> set (subs ?t)" for r
  proof -
    have "r \<in> set (waits ?t)" using inv that by (auto simp: inv_defs)
    then have "req_ok E s r" using inv by (simp add: proto_inv_def req_inv_def Let_def)
    then show ?thesis by (auto simp: req_ok_def good_req_def)
  qed
  have ti: "thread_inv ?t" using inv by (simp add: inv_defs)
  from d S_idle have "sync_take E (core s) = Done c" by simp
  from sync_take_Done [OF ti this] sub S_idle show ?thesis by (auto simp: work_def req_work_def)
next
  case (S_loop r h off len bytes offset)
  with d show ?thesis by (auto simp: work_def Let_def split: if_splits)
next
  case (S_full r h off len bytes offset wr)
  then have "bytes < len" "wr = min (buf_size (core s)) (len - bytes)" "0 < buf_size (core s)"
    using inv by (auto simp: proto_inv_def pc_inv_def thread_ok_def)
  with d S_full show ?thesis by (auto simp: work_def)
next
  case S_exit
  with d show ?thesis by simp
qed

lemma sync_take_frame:
  assumes "sync_take E c = Done c'"
  shows "pens (thr c') = pens (thr c) \<and> waits (thr c') = waits (thr c) \<and> reqs c' = reqs c \<and>
     cachef c' = cachef c \<and> buf_size c' = buf_size c \<and> coherent c' = coherent c"
proof -
  have k: "ADIOI_Sync_req_get_key rq ADIOI_SYNC_ALL = (if rtype rq = ADIOI_THREAD_SYNC
        then (MPI_SUCCESS, [roff rq, rdatatype rq, rcount rq, rreq rq, rerror_code rq, rfflags rq])
        else (-1, []))" for rq
    by (simp add: ADIOI_Sync_req_get_key_def sync_consts)
  obtain r q where st: "ADIOI_Atomic_queue_front (sub (thr c)) = Done r"
      "ADIOI_Atomic_queue_pop (sub (thr c)) = Done q"
    using assms by (auto simp: sync_take_def)
  then obtain rq where "reqs c r = Some rq" using assms by (cases "reqs c r") (auto simp: sync_take_def)
  with assms st k [of rq] show ?thesis
    by (cases "snd (ADIOI_Sync_req_get_key rq ADIOI_SYNC_TYPE) = [ADIOI_THREAD_SHUTDOWN]";
        cases "rtype rq = ADIOI_THREAD_SYNC") (auto simp: sync_take_def Let_def)
qed

lemma sync_step_frame:
  assumes "sync_step E c = Done c'"
  shows "pens (thr c') = pens (thr c)" "waits (thr c') = waits (thr c)" "reqs c' = reqs c" "cachef c' = cachef c"
    "buf_size c' = buf_size c" "coherent c' = coherent c"
  using assms sync_take_frame [of E c c'] by (auto simp: Let_def split: spc.splits if_splits)

lemma sync_run_frame:
  "sync_run E n c = Done c' \<Longrightarrow> cachef c' = cachef c \<and> buf_size c' = buf_size c \<and> coherent c' = coherent c"
proof (induction n arbitrary: c)
  case (Suc n)
  then show ?case
    by (cases "sync_step E c") (auto simp del: sync_step.simps dest: sync_step_frame(4-6))
qed simp

lemma sync_run_drains:
  "proto_inv E s \<Longrightarrow> greq_laws E \<Longrightarrow> full_transfers E \<Longrightarrow> work E (core s) \<le> n \<Longrightarrow>
   \<exists>c. sync_run E n (core s) = Done c \<and> proto_inv E (s\<lparr>core := c\<rparr>) \<and> pc c = S_idle \<and> subs (thr c) = [] \<and>
     pens (thr c) = pens (thr (core s)) \<and> waits (thr c) = waits (thr (core s)) \<and> cachef c = cachef (core s)"
proof (induction n arbitrary: s)
  case 0
  then show ?case using sync_step_Fault_free [OF 0(1)] thread_step_work [OF 0(1)]
    by (cases "sync_step E (core s)") (auto simp del: sync_step.simps)
next
  case (Suc n)
  show ?case
  proof (cases "sync_step E (core s)")
    case (Done c)
    have "proto_inv E (s\<lparr>core := c\<rparr>)" "work E (core (s\<lparr>core := c\<rparr>)) \<le> n"
      using thread_step_inv [OF Suc.prems(2,3,1) Done] thread_step_work [OF Suc.prems(1) Done] Suc.prems(4)
      by auto
    from Suc.IH [OF this(1) Suc.prems(2,3) this(2)] Done sync_step_frame [OF Done]
    show ?thesis by (simp del: sync_step.simps)
  next
    case Blocked
    then show ?thesis
      using sync_step_Fault_free(2) [OF Suc.prems(1)] Suc.prems(1) by (simp del: sync_step.simps)
  next
    case Fault
    then show ?thesis using sync_step_Fault_free(1) [OF Suc.prems(1)] by simp
  qed
qed

section \<open>What a flush guarantees\<close>

lemma proto_core_same [simp]: "s\<lparr>core := core s\<rparr> = s"
  by (cases s) simp

lemma flush_loop_steps:
  assumes "thread_inv t" "ADIOI_Sync_thread_flush E rh t g = Done (t', g')"
    and "mpc s = M_idle" "core s = c\<lparr>thr := t, greq := g\<rparr>" "reqs c = rh"
  shows "(proto_step E)\<^sup>*\<^sup>* s (s\<lparr>core := c\<lparr>thr := t', greq := g'\<rparr>\<rparr>) \<and> thread_inv t' \<and> pens t' = []"
  using assms
proof (induction E rh t g arbitrary: s rule: ADIOI_Sync_thread_flush.induct)
  case (1 E rh t g)
  show ?case
  proof (cases "ADIOI_Atomic_queue_empty (pen t)")
    case True
    then have "t' = t" "g' = g" using "1.prems"(2) by (auto simp: ADIOI_Sync_thread_flush.simps [of E rh t g])
    with True "1.prems"(1,4) show ?thesis
      by (simp add: thread_inv_def aq.is_empty_iff flip: "1.prems"(4))
  next
    case False
    then obtain t1 g1 where f: "sync_flush_one E rh t g = Done (t1, g1)"
        "ADIOI_Sync_thread_flush E rh t1 g1 = Done (t', g')"
      using "1.prems"(2) by (auto simp: ADIOI_Sync_thread_flush.simps [of E rh t g] split: outcome.splits)
    let ?s = "s\<lparr>core := c\<lparr>thr := t1, greq := g1\<rparr>\<rparr>"
    have "main_flush_one E s = Done ?s"
      using f(1) "1.prems"(4,5) by (simp add: main_flush_one_def Let_def)
    then have "proto_step E s ?s" by (rule proto_step.flush_step [OF "1.prems"(3)])
    moreover have "thread_inv t1" using sync_flush_one_Done [OF "1.prems"(1) f(1)] by blast
    ultimately show ?thesis
      using "1.IH" [OF False f(1) refl _ f(2), of ?s] "1.prems"(3,5)
      by (auto intro: converse_rtranclp_into_rtranclp)
  qed
qed

lemma reachable_steps: "(proto_step E)\<^sup>*\<^sup>* s t \<Longrightarrow> reachable E s \<Longrightarrow> reachable E t"
  by (induction rule: rtranclp_induct) (auto intro: reachable.step)

lemma flush_loop_reachable:
  assumes "thread_inv t" "ADIOI_Sync_thread_flush E rh t g = Done (t', g')"
    and "reachable E s" "mpc s = M_idle" "core s = c\<lparr>thr := t, greq := g\<rparr>" "reqs c = rh"
  shows "reachable E (s\<lparr>core := c\<lparr>thr := t', greq := g'\<rparr>\<rparr>) \<and> thread_inv t' \<and> pens t' = []"
  using flush_loop_steps [OF assms(1,2,4,5,6)] reachable_steps assms(3) by blast

lemma clean_state:
  assumes "proto_inv E s" "mpc s = M_idle" "pens (thr (core s)) = []" "subs (thr (core s)) = []"
    and "flight (pc (core s)) = []"
  shows "fdata (cachef (core s)) \<subseteq>\<^sub>m fdata (globf (core s)) \<and> locks (core s) = {} \<and> pc (core s) = S_idle"
proof -
  have p: "pc (core s) = S_idle" using assms(1,5) by (cases "pc (core s)") (auto simp: inv_defs thread_ok_def)
  moreover have "pending E s = {}" using assms(2-4) by (simp add: pending_def cov_def)
  ultimately show ?thesis using assms(1) by (auto simp: proto_inv_def dirty_inv_def lock_inv_def map_le_def)
qed

lemma main_wait_frame:
  assumes inv: "proto_inv E s" and d: "main_wait E s = Done s'"
  shows "mpc s' = mpc s \<and> pens (thr (core s')) = pens (thr (core s)) \<and> subs (thr (core s')) = subs (thr (core s)) \<and>
     waits (thr (core s')) = [] \<and> pc (core s') = pc (core s) \<and>
     reqs (core s') = reqs (core s) |` (- set (waits (thr (core s))))"
proof -
  let ?c = "core s" and ?t = "thr (core s)"
  have ti: "thread_inv ?t" and dist: "distinct (waits ?t)"
    and ok: "\<And>r. r \<in> set (waits ?t) \<Longrightarrow> req_ok E s r"
    using inv by (auto simp: proto_inv_def req_inv_def Let_def)
  obtain t rh hs where w: "ADIOI_Sync_thread_wait E ?t (reqs ?c) (handles ?c) (greq ?c) = Done (t, rh, hs)"
    and s': "s' = s\<lparr>core := ?c\<lparr>thr := t, reqs := rh, handles := hs\<rparr>\<rparr>"
    using d by (auto simp: main_wait_def Let_def)
  have "\<exists>rq. reqs ?c r = Some rq \<and> rreq rq = int r - 1 \<and> rreq rq \<in> handles ?c" if "r \<in> set (waits ?t)" for r
    using ok [of r] that by (auto simp: req_ok_def good_req_def)
  then show ?thesis using wait_Done [OF ti w _ dist] by (simp add: s')
qed

lemma wait_returns:
  assumes inv: "proto_inv E s" and idle: "pc (core s) = S_idle" "subs (thr (core s)) = []"
  shows "\<exists>s'. main_wait E s = Done s' \<and> cachef (core s') = cachef (core s)"
proof -
  let ?c = "core s" and ?t = "thr (core s)"
  let ?H = "\<lambda>r. rreq (the (reqs (core s) r))"
  have i: "aq_inv (waitq ?t)" and dist: "distinct (waits ?t)"
    using inv by (auto simp: proto_inv_def req_inv_def Let_def thread_inv_def)
  have req: "\<exists>rq. reqs ?c r = Some rq \<and> rreq rq = int r - 1 \<and> rreq rq \<in> handles ?c" if "r \<in> set (waits ?t)" for r
  proof -
    have "req_ok E s r" using inv that by (auto simp: proto_inv_def req_inv_def Let_def)
    then show ?thesis by (auto simp: req_ok_def good_req_def)
  qed
  have "set (waits ?t) \<subseteq> dom (reqs ?c)" "?H ` set (waits ?t) \<subseteq> handles ?c" using req by force+
  moreover have "?H r = int r - 1" if "r \<in> set (waits ?t)" for r using req [OF that] by auto
  then have "inj_on ?H (set (waits ?t))" by (auto simp: inj_on_def)
  then have "distinct (map ?H (waits ?t))" using dist by (simp add: distinct_map)
  ultimately obtain w where w: "sync_wait_free (waitq ?t) (reqs ?c) (handles ?c) = Done w"
    using wait_free_ok [OF i, of "reqs ?c" "handles ?c"] dist by blast
  have alldone: "\<forall>r \<in> set (waits ?t). g_done E (greq ?c) (int r - 1)" using inv idle by (auto simp: inv_defs)
  show ?thesis
  proof (cases "waits ?t = []")
    case True
    then show ?thesis using w i
      by (cases w) (simp add: main_wait_def ADIOI_Sync_thread_wait_def Let_def aq.is_empty_iff)
  next
    case False
    then obtain rq where "reqs ?c (last (waits ?t)) = Some rq" "g_done E (greq ?c) (rreq rq)"
      using req [of "last (waits ?t)"] alldone last_in_set [OF False] by auto
    with False show ?thesis using w i
      by (cases w) (simp add: main_wait_def ADIOI_Sync_thread_wait_def Let_def aq.is_empty_iff aq.rear_eq)
  qed
qed

section \<open>A run\<close>

text \<open>
  An environment that satisfies the laws, and a run in it: one byte is written at offset 5 and
  the request is pending, then it is submitted and the thread drains its queue.
\<close>

definition demo_env :: "int set env" where
  "demo_env = \<lparr>g_start = (\<lambda>g r. g - {r}), g_complete = (\<lambda>g r. insert r g), g_done = (\<lambda>g r. r \<in> g),
     type_size = (\<lambda>d. d), os_pread = (\<lambda>n. n), os_pwrite = (\<lambda>n. n), dt_null = 0, req_null = 0\<rparr>"

lemma demo_laws: "greq_laws demo_env" "full_transfers demo_env"
  by (simp_all add: demo_env_def greq_laws_def full_transfers_def)

lemma demo_init: "\<exists>s :: int set proto. proto_init s"
proof -
  obtain q where "aq_inv q" "aq_contents q = []" using aq_init_ok [of 1] by (auto simp: NULL_def)
  then have "proto_init \<lparr>core = \<lparr>thr = \<lparr>sub = q, pen = q, waitq = q\<rparr>, reqs = Map.empty, handles = {},
      greq = ({} :: int set), cachef = \<lparr>fdata = Map.empty, fsize = 0\<rparr>, globf = \<lparr>fdata = Map.empty, fsize = 0\<rparr>,
      locks = {}, buf_size = 4, coherent = True, pc = S_idle, sbuf = [0, 0, 0, 0]\<rparr>, mpc = M_idle, nextp = 1\<rparr>"
    by (simp add: proto_init_def thread_inv_def)
  then show ?thesis by blast
qed

lemma demo_pending:
  "\<exists>s. reachable demo_env s \<and> mpc s = M_idle \<and> length (pens (thr (core s))) = 1 \<and>
     waits (thr (core s)) = [] \<and> fdata (cachef (core s)) 5 = Some 7"
proof -
  obtain s0 :: "int set proto" where i: "proto_init s0" using demo_init by blast
  let ?s1 = "write_begin 5 1 1 [7] s0"
  let ?s2 = "(write_chunk (5 + int 0) (take 1 (drop 0 [7])) ?s1)\<lparr>mpc := M_write 5 1 1 [7] (0 + 1)\<rparr>"
  have r0: "reachable demo_env s0" using i by (rule reachable.start)
  have "proto_step demo_env s0 ?s1"
    by (rule proto_step.begin_write) (use i in \<open>auto simp: proto_init_def Let_def demo_env_def\<close>)
  then have r1: "reachable demo_env ?s1" using r0 by (rule reachable.step [rotated])
  have "proto_step demo_env ?s1 ?s2" by (rule proto_step.chunk_write) (simp_all add: write_begin_def)
  then have r2: "reachable demo_env ?s2" using r1 by (rule reachable.step [rotated])
  have t: "thr (core ?s2) = thr (core s0)" "mpc ?s2 = M_write 5 1 1 [7] (length [7::byte])"
      "fdata (cachef (core ?s2)) 5 = Some 7"
    by (simp_all add: write_begin_def write_chunk_def fdata_pwrite)
  have inv: "thread_inv (thr (core ?s2))" using i t(1) by (simp add: proto_init_def Let_def)
  have "int (length (pens (thr (core ?s2)))) < INT_MAX" using i t(1) by (simp add: proto_init_def Let_def INT_MAX_def)
  then obtain q where "ADIOI_Atomic_queue_push (pen (thr (core ?s2))) (Suc (nextp ?s2)) = Done q"
    using aq.push_ok [of "pen (thr (core ?s2))"] inv unfolding thread_inv_def by blast
  then obtain s3 where s3: "write_end demo_env undefined 5 1 1 ?s2 = Done s3" "mpc s3 = M_idle"
      "cachef (core s3) = cachef (core ?s2)"
    by (auto simp: write_end_def Let_def sync_req_init_SYNC ADIOI_Sync_thread_enqueue_def
        simp del: ADIOI_Sync_req_init.simps)
  have "reachable demo_env s3" by (rule reachable.step [OF r2 proto_step.end_write [OF t(2) s3(1)]])
  moreover have "length (pens (thr (core s3))) = 1" "waits (thr (core s3)) = []"
    using write_end_Done [OF inv s3(1)] t(1) i by (auto simp: proto_init_def Let_def)
  ultimately show ?thesis using s3 t(3) by auto
qed

lemma sync_run_steps:
  "sync_run E n (core s) = Done c \<Longrightarrow> (proto_step E)\<^sup>*\<^sup>* s (s\<lparr>core := c\<rparr>)"
proof (induction n arbitrary: s)
  case 0
  then show ?case by auto
next
  case (Suc n)
  show ?case
  proof (cases "sync_step E (core s)")
    case (Done c1)
    then have "proto_step E s (s\<lparr>core := c1\<rparr>)" by (rule proto_step.thread_step)
    with Suc.IH [of "s\<lparr>core := c1\<rparr>"] Suc.prems Done show ?thesis
      by (auto intro: converse_rtranclp_into_rtranclp simp del: sync_step.simps)
  qed (use Suc.prems in \<open>auto simp del: sync_step.simps\<close>)
qed

lemma demo_drained:
  "\<exists>s s'. reachable demo_env s \<and> mpc s = M_idle \<and> pens (thr (core s)) = [] \<and> length (waits (thr (core s))) = 1 \<and>
     main_wait demo_env s = Done s' \<and> fdata (cachef (core s')) 5 = Some 7"
proof -
  obtain s where s: "reachable demo_env s" "mpc s = M_idle" "length (pens (thr (core s))) = 1"
      "waits (thr (core s)) = []" "fdata (cachef (core s)) 5 = Some 7"
    using demo_pending by blast
  let ?t = "thr (core s)"
  have inv: "proto_inv demo_env s" by (rule reachable_inv [OF s(1) demo_laws])
  have ti: "thread_inv ?t" and dom: "set (pens ?t) \<subseteq> dom (reqs (core s))"
    using inv by (auto simp: proto_inv_def req_inv_def Let_def req_ok_def)
  have "subs ?t = []" using inv s(4) by (auto simp: inv_defs)
  then obtain t g where t: "ADIOI_Sync_thread_flush demo_env (reqs (core s)) ?t (greq (core s)) = Done (t, g)"
      "waits t = waits ?t @ pens ?t"
    using flush_ok [OF ti dom, of demo_env "greq (core s)"] s(3,4) by (auto simp: INT_MAX_def)
  let ?s = "s\<lparr>core := (core s)\<lparr>thr := t, greq := g\<rparr>\<rparr>"
  have r: "reachable demo_env ?s" "pens t = []"
    using flush_loop_reachable [OF ti t(1) s(1,2), of "core s"] by auto
  obtain c where c: "sync_run demo_env (work demo_env (core ?s)) (core ?s) = Done c" "proto_inv demo_env (?s\<lparr>core := c\<rparr>)"
      "pc c = S_idle" "subs (thr c) = []" "pens (thr c) = []" "waits (thr c) = waits t" "cachef c = cachef (core s)"
    using sync_run_drains [OF reachable_inv [OF r(1) demo_laws] demo_laws order_refl] r(2) by auto
  obtain s' where "main_wait demo_env (?s\<lparr>core := c\<rparr>) = Done s'" "cachef (core s') = cachef c"
    using wait_returns [OF c(2)] c(3,4) by auto
  moreover have "reachable demo_env (?s\<lparr>core := c\<rparr>)" by (rule reachable_steps [OF sync_run_steps [OF c(1)] r(1)])
  ultimately show ?thesis using s c t(2)
    by (intro exI [of _ "?s\<lparr>core := c\<rparr>"] exI [of _ s']) simp
qed

lemma flush_completes:
  assumes "greq_laws E" "full_transfers E" "reachable E s" "mpc s = M_idle"
    and "int (length (waits (thr (core s))) + length (pens (thr (core s)))) \<le> INT_MAX"
  shows "\<exists>t g c s'. ADIOI_Sync_thread_flush E (reqs (core s)) (thr (core s)) (greq (core s)) = Done (t, g) \<and>
     sync_run E (work E ((core s)\<lparr>thr := t, greq := g\<rparr>)) ((core s)\<lparr>thr := t, greq := g\<rparr>) = Done c \<and>
     main_wait E (s\<lparr>core := c\<rparr>) = Done s' \<and> reachable E s' \<and> cachef (core s') = cachef (core s) \<and>
     fdata (cachef (core s)) \<subseteq>\<^sub>m fdata (globf (core s'))"
proof -
  let ?t = "thr (core s)"
  have inv: "proto_inv E s" by (rule reachable_inv [OF assms(3,1,2)])
  have ti: "thread_inv ?t" and dom: "set (pens ?t) \<subseteq> dom (reqs (core s))"
    using inv by (auto simp: proto_inv_def req_inv_def Let_def req_ok_def)
  have "length (subs ?t) \<le> length (waits ?t)" using inv by (auto simp: inv_defs)
  then obtain t g where t: "ADIOI_Sync_thread_flush E (reqs (core s)) ?t (greq (core s)) = Done (t, g)"
    using flush_ok [OF ti dom _ assms(5)] assms(5) by force
  let ?s = "s\<lparr>core := (core s)\<lparr>thr := t, greq := g\<rparr>\<rparr>"
  have r: "reachable E ?s" "pens t = []"
    using flush_loop_reachable [OF ti t assms(3,4), of "core s"] by auto
  obtain c where c: "sync_run E (work E (core ?s)) (core ?s) = Done c" "proto_inv E (?s\<lparr>core := c\<rparr>)"
      "pc c = S_idle" "subs (thr c) = []" "pens (thr c) = []" "cachef c = cachef (core s)"
    using sync_run_drains [OF reachable_inv [OF r(1) assms(1,2)] assms(1,2) order_refl] r(2) by auto
  have eq: "?s\<lparr>core := c\<rparr> = s\<lparr>core := c\<rparr>" by simp
  obtain s' where s': "main_wait E (s\<lparr>core := c\<rparr>) = Done s'" "cachef (core s') = cachef c"
    using wait_returns [of E "s\<lparr>core := c\<rparr>"] c(2-4) eq by auto
  have i: "proto_inv E (s\<lparr>core := c\<rparr>)" using c(2) eq by simp
  have "fdata (cachef (core s')) \<subseteq>\<^sub>m fdata (globf (core s'))"
    using clean_state [of E s'] wait_step_inv [OF i s'(1)] main_wait_frame [OF i s'(1)] c(3-5) assms(4) by simp
  moreover have "reachable E (s\<lparr>core := c\<rparr>)"
    using reachable_steps [OF sync_run_steps [OF c(1)] r(1)] eq by simp
  then have "reachable E s'" using proto_step.wait_step [OF _ s'(1)] assms(4) by (auto intro: reachable.step)
  ultimately show ?thesis using t c(1,6) s' by auto
qed

section \<open>The guarantees\<close>









end
