(* ===== verification/Cache_IO.thy ===== *)
theory Cache_IO
  imports Cache_Protocol
begin

text \<open>
  Contiguous reads, writes and flushes through a file handle, with or without the cache:
  \<open>ADIOI_GEN_WriteContig\<close> (\<open>ad_write.c\<close>), \<open>ADIOI_GEN_ReadContig\<close> (\<open>ad_read.c\<close>) and
  \<open>ADIOI_GEN_Flush\<close> (\<open>ad_flush.c\<close>). The loops are proved to transfer the whole buffer whatever
  the sizes of the partial transfers, and with one sync thread the calls are shown to be runs
  of the step relation of \<open>Cache_Protocol\<close>, so that its guarantees hold for them.
\<close>

section \<open>File handles\<close>

definition ADIO_EXPLICIT_OFFSET :: int where
  "ADIO_EXPLICIT_OFFSET = 100"

definition ADIO_INDIVIDUAL :: int where
  "ADIO_INDIVIDUAL = 101"

definition ADIOI_HINT_AUTO :: int where
  "ADIOI_HINT_AUTO = 0"

definition ADIOI_HINT_ENABLE :: int where
  "ADIOI_HINT_ENABLE = 1"

definition ADIOI_HINT_DISABLE :: int where
  "ADIOI_HINT_DISABLE = 2"

definition ADIOI_HINT_FLUSHIMMEDIATE :: int where
  "ADIOI_HINT_FLUSHIMMEDIATE = 4"

definition ADIOI_HINT_FLUSHONCLOSE :: int where
  "ADIOI_HINT_FLUSHONCLOSE = 8"

definition ADIOI_HINT_FLUSHNONE :: int where
  "ADIOI_HINT_FLUSHNONE = 16"

text \<open>What the code uses of one open file: its pointers and the bytes behind \<open>fd_sys\<close>.\<close>

record fhandle =
  fp_ind :: int
  fp_sys_posn :: int
  fcontent :: pfile
  is_open :: bool

text \<open>
  The handle the application holds: the global file itself, the handle of the cache file
  (\<open>None\<close> is \<open>ADIO_FILE_NULL\<close>), the hints the data path reads, the pool of sync threads, and
  the heap of requests they share.
\<close>

record 'g adio_file =
  gfh :: fhandle
  cache_fd :: "fhandle option"
  e10_cache_coherent :: int
  e10_cache_flush_flag :: int
  e10_cache_threads :: int
  ind_wr_buffer_size :: int
  thread_curr :: int
  thread_pool :: "tlocal list option"
  freqs :: rheap
  fhandles :: "int set"
  fgreq :: 'g
  flocks :: "int set"
  fnext :: addr

definition cache_on :: "'g adio_file \<Rightarrow> bool" where
  "cache_on fd \<longleftrightarrow> (case cache_fd fd of None \<Rightarrow> False | Some h \<Rightarrow> is_open h)"

lemma cache_on_gfh [simp]: "cache_on (fd\<lparr>gfh := x\<rparr>) = cache_on fd"
  by (simp add: cache_on_def)

definition the_fh :: "'g adio_file \<Rightarrow> fhandle" where
  "the_fh fd = (case cache_fd fd of Some h \<Rightarrow> if is_open h then h else gfh fd | None \<Rightarrow> gfh fd)"

definition set_fh :: "'g adio_file \<Rightarrow> fhandle \<Rightarrow> 'g adio_file" where
  "set_fh fd h = (if cache_on fd then fd\<lparr>cache_fd := Some h\<rparr> else fd\<lparr>gfh := h\<rparr>)"

section \<open>Writing\<close>

text \<open>
  The write loop. \<open>pw k n\<close> is what the \<open>k\<close>-th \<open>pwrite\<close> call returns when it is asked for \<open>n\<close>
  bytes. The result is whether the loop ended without an error, the file and the number of
  bytes transferred; \<open>None\<close> is a loop that has not ended after \<open>fuel\<close> calls.
\<close>

fun write_loop ::
  "nat \<Rightarrow> (nat \<Rightarrow> int \<Rightarrow> int) \<Rightarrow> nat \<Rightarrow> pfile \<Rightarrow> byte list \<Rightarrow> int \<Rightarrow> int \<Rightarrow> int \<Rightarrow> (bool \<times> pfile \<times> int) option" where
  "write_loop fuel pw k f buf offset len bytes =
     (if bytes < len then
        (case fuel of 0 \<Rightarrow> None
         | Suc n \<Rightarrow>
             (let wr = min INT_MAX (len - bytes); err = pw k wr in
              if err = -1 then Some (False, f, bytes)
              else write_loop n pw (Suc k)
                     (file_pwrite f (offset + bytes) (take (nat err) (drop (nat bytes) buf)))
                     buf offset len (bytes + err)))
      else Some (True, f, bytes))"

declare write_loop.simps [simp del]

text \<open>
  The part of \<open>ADIOI_GEN_WriteContig\<close> that hands the extent to a sync thread: the next thread
  of the pool in turn. \<open>r0\<close> is the content of the freshly allocated request.
\<close>

definition write_sync ::
  "'g env \<Rightarrow> sync_req \<Rightarrow> int \<Rightarrow> int \<Rightarrow> int \<Rightarrow> 'g adio_file \<Rightarrow> 'g adio_file outcome" where
  "write_sync E r0 offset dt count fd =
     (let threads = e10_cache_threads fd; idx = nat (thread_curr fd mod threads);
          h = int (fnext fd); r = Suc (fnext fd) in
      case thread_pool fd of
        None \<Rightarrow> Fault
      | Some pool \<Rightarrow>
          if threads \<le> 0 \<or> length pool \<le> idx then Fault
          else (case pool ! idx of (t, p, b) \<Rightarrow>
            obind (of_option (ADIOI_Sync_req_init (dt_null E) (req_null E) r0
                     [ADIOI_THREAD_SYNC, offset, dt, count, h, 0])) (\<lambda>(_, rq).
            obind (ADIOI_Sync_thread_enqueue t r) (\<lambda>t1.
            obind (if e10_cache_flush_flag fd = ADIOI_HINT_FLUSHIMMEDIATE
                   then ADIOI_Sync_thread_flush E ((freqs fd)(r \<mapsto> rq)) t1 (fgreq fd)
                   else Done (t1, fgreq fd)) (\<lambda>(t2, g).
              Done (fd\<lparr>freqs := (freqs fd)(r \<mapsto> rq), fhandles := insert h (fhandles fd), fgreq := g,
                      thread_pool := Some (pool[idx := (t2, p, b)]),
                      thread_curr := (thread_curr fd + 1) mod threads, fnext := fnext fd + 2\<rparr>))))))"

text \<open>
  The result is the error code, the number of bytes given to \<open>MPIR_Status_set_bytes\<close> (if it is
  called) and the file. The lock of a coherent cache is taken on the \<open>offset\<close> argument, before
  the individual file pointer replaces it, as in the source.
\<close>

definition ADIOI_GEN_WriteContig ::
  "'g env \<Rightarrow> nat \<Rightarrow> (nat \<Rightarrow> int \<Rightarrow> int) \<Rightarrow> sync_req \<Rightarrow> byte list \<Rightarrow> int \<Rightarrow> int \<Rightarrow> int \<Rightarrow> int \<Rightarrow> 'g adio_file \<Rightarrow>
   (mpi_error \<times> int option \<times> 'g adio_file) outcome" where
  "ADIOI_GEN_WriteContig E fuel pw r0 buf count dt ptr offset fd =
     (let len = type_size E dt * count;
          fd1 = (if cache_on fd \<and> e10_cache_coherent fd = ADIOI_HINT_ENABLE
                 then fd\<lparr>flocks := lock_range (flocks fd) offset len\<rparr> else fd);
          fh = the_fh fd1;
          off = (if ptr = ADIO_INDIVIDUAL then fp_ind fh else offset)
      in case write_loop fuel pw 0 (fcontent fh) buf off len 0 of
           None \<Rightarrow> Blocked
         | Some (False, f, n) \<Rightarrow>
             Done (MPI_ERR_IO, None, set_fh fd1 (fh\<lparr>fcontent := f, fp_sys_posn := -1\<rparr>))
         | Some (True, f, n) \<Rightarrow>
             obind (let fd2 = set_fh fd1 (fh\<lparr>fcontent := f\<rparr>) in
                    if cache_on fd \<and> e10_cache_flush_flag fd \<noteq> ADIOI_HINT_FLUSHNONE
                    then write_sync E r0 off dt count fd2 else Done fd2) (\<lambda>fd3.
               Done (MPI_OK, if 0 < len then Some n else None,
                 set_fh fd3 (fh\<lparr>fcontent := f, fp_sys_posn := off + n,
                   fp_ind := (if ptr = ADIO_INDIVIDUAL then fp_ind fh + n else fp_ind fh)\<rparr>))))"

section \<open>Reading\<close>

text \<open>
  \<open>pr k p n\<close> is what the \<open>k\<close>-th \<open>pread\<close> call returns when \<open>n\<close> bytes are asked for at \<open>p\<close>; a call that
  returns 0 has met the end of the file. The buffer grows by what each call delivers.
\<close>

fun read_loop ::
  "nat \<Rightarrow> (nat \<Rightarrow> int \<Rightarrow> int \<Rightarrow> int) \<Rightarrow> nat \<Rightarrow> pfile \<Rightarrow> byte list \<Rightarrow> int \<Rightarrow> int \<Rightarrow> int \<Rightarrow> (bool \<times> byte list \<times> int) option" where
  "read_loop fuel pr k f acc offset len bytes =
     (if bytes < len then
        (case fuel of 0 \<Rightarrow> None
         | Suc n \<Rightarrow>
             (let rd = min INT_MAX (len - bytes); err = pr k (offset + bytes) rd in
              if err = -1 then Some (False, acc, bytes)
              else if err = 0 then Some (True, acc, bytes)
              else read_loop n pr (Suc k) f (acc @ take (nat err) (file_pread f (offset + bytes) rd))
                     offset len (bytes + err)))
      else Some (True, acc, bytes))"

declare read_loop.simps [simp del]

text \<open>A read always goes to the global file. The result includes the bytes delivered.\<close>

definition ADIOI_GEN_ReadContig ::
  "'g env \<Rightarrow> nat \<Rightarrow> (nat \<Rightarrow> int \<Rightarrow> int \<Rightarrow> int) \<Rightarrow> int \<Rightarrow> int \<Rightarrow> int \<Rightarrow> int \<Rightarrow> 'g adio_file \<Rightarrow>
   (mpi_error \<times> int option \<times> byte list \<times> 'g adio_file) outcome" where
  "ADIOI_GEN_ReadContig E fuel pr count dt ptr offset fd =
     (let len = type_size E dt * count; fh = gfh fd;
          off = (if ptr = ADIO_INDIVIDUAL then fp_ind fh else offset)
      in case read_loop fuel pr 0 (fcontent fh) [] off len 0 of
           None \<Rightarrow> Blocked
         | Some (False, bs, n) \<Rightarrow> Done (MPI_ERR_IO, None, bs, fd\<lparr>gfh := fh\<lparr>fp_sys_posn := -1\<rparr>\<rparr>)
         | Some (True, bs, n) \<Rightarrow>
             Done (MPI_OK, if 0 < len then Some n else None, bs,
               fd\<lparr>gfh := fh\<lparr>fp_sys_posn := off + n,
                  fp_ind := (if ptr = ADIO_INDIVIDUAL then fp_ind fh + n else fp_ind fh)\<rparr>\<rparr>))"

section \<open>Flushing\<close>

text \<open>A thread in front of the data it shares with the application, and back.\<close>

definition to_state :: "'g adio_file \<Rightarrow> tlocal \<Rightarrow> 'g sync_state" where
  "to_state fd l = (case l of (t, p, b) \<Rightarrow>
     \<lparr>thr = t, reqs = freqs fd, handles = fhandles fd, greq = fgreq fd,
      cachef = (case cache_fd fd of Some h \<Rightarrow> fcontent h | None \<Rightarrow> \<lparr>fdata = Map.empty, fsize = 0\<rparr>),
      globf = fcontent (gfh fd), locks = flocks fd, buf_size = ind_wr_buffer_size fd,
      coherent = (e10_cache_coherent fd = ADIOI_HINT_ENABLE), pc = p, sbuf = b\<rparr>)"

definition of_state :: "'g adio_file \<Rightarrow> nat \<Rightarrow> 'g sync_state \<Rightarrow> 'g adio_file" where
  "of_state fd i c = fd\<lparr>freqs := reqs c, fhandles := handles c, fgreq := greq c,
     gfh := (gfh fd)\<lparr>fcontent := globf c\<rparr>, flocks := locks c,
     thread_pool := map_option (\<lambda>pool. pool[i := (thr c, pc c, sbuf c)]) (thread_pool fd)\<rparr>"

definition pool_nth :: "'g adio_file \<Rightarrow> nat \<Rightarrow> tlocal outcome" where
  "pool_nth fd i = (case thread_pool fd of None \<Rightarrow> Fault
     | Some pool \<Rightarrow> if i < length pool then Done (pool ! i) else Fault)"

text \<open>Submit the pending requests of the threads from \<open>i\<close> on, the first loop.\<close>

fun flush_threads :: "'g env \<Rightarrow> nat \<Rightarrow> nat \<Rightarrow> 'g adio_file \<Rightarrow> 'g adio_file outcome" where
  "flush_threads E i 0 fd = Done fd"
| "flush_threads E i (Suc n) fd =
     obind (pool_nth fd i) (\<lambda>(t, p, b).
     obind (ADIOI_Sync_thread_flush E (freqs fd) t (fgreq fd)) (\<lambda>(t', g).
       flush_threads E (Suc i) n
         (fd\<lparr>fgreq := g, thread_pool := map_option (\<lambda>pool. pool[i := (t', p, b)]) (thread_pool fd)\<rparr>)))"

text \<open>Let the threads from \<open>i\<close> on run, each for at most \<open>steps\<close> steps.\<close>

fun run_threads :: "'g env \<Rightarrow> nat \<Rightarrow> nat \<Rightarrow> nat \<Rightarrow> 'g adio_file \<Rightarrow> 'g adio_file outcome" where
  "run_threads E steps i 0 fd = Done fd"
| "run_threads E steps i (Suc n) fd =
     obind (pool_nth fd i) (\<lambda>l.
     obind (sync_run E steps (to_state fd l)) (\<lambda>c. run_threads E steps (Suc i) n (of_state fd i c)))"

text \<open>Wait for the requests of the threads from \<open>i\<close> on and free them, the second loop.\<close>

fun wait_threads :: "'g env \<Rightarrow> nat \<Rightarrow> nat \<Rightarrow> 'g adio_file \<Rightarrow> 'g adio_file outcome" where
  "wait_threads E i 0 fd = Done fd"
| "wait_threads E i (Suc n) fd =
     obind (pool_nth fd i) (\<lambda>(t, p, b).
     obind (ADIOI_Sync_thread_wait E t (freqs fd) (fhandles fd) (fgreq fd)) (\<lambda>(t', rh, hs).
       wait_threads E (Suc i) n
         (fd\<lparr>freqs := rh, fhandles := hs,
            thread_pool := map_option (\<lambda>pool. pool[i := (t', p, b)]) (thread_pool fd)\<rparr>)))"

text \<open>
  \<open>steps\<close> bounds what each thread does while the caller waits, \<open>fsync_rc\<close> is the result of
  \<open>fsync\<close>.
\<close>

definition ADIOI_GEN_Flush ::
  "'g env \<Rightarrow> nat \<Rightarrow> int \<Rightarrow> 'g adio_file \<Rightarrow> (mpi_error \<times> 'g adio_file) outcome" where
  "ADIOI_GEN_Flush E steps fsync_rc fd =
     (if cache_fd fd = None \<or> thread_pool fd = None \<or> \<not> cache_on fd \<or>
         (cache_on fd \<and> e10_cache_flush_flag fd = ADIOI_HINT_FLUSHNONE)
      then Done (if is_open (gfh fd) \<and> fsync_rc = -1 then MPI_ERR_IO else MPI_OK, fd)
      else (let n = nat (e10_cache_threads fd) in
        obind (flush_threads E 0 n fd) (\<lambda>fd1.
        obind (run_threads E steps 0 n fd1) (\<lambda>fd2.
        obind (wait_threads E 0 n fd2) (\<lambda>fd3. Done (MPI_OK, fd3))))))"

section \<open>The loops transfer what they are asked for\<close>

text \<open>
  The documented results of \<open>pwrite\<close> on a regular file for a positive count: an error, or at
  least one and at most \<open>n\<close> bytes. A \<open>pread\<close> delivers what the file has, up to the count, and at
  least one byte before the end of the file.
\<close>

definition pwrite_ok :: "(nat \<Rightarrow> int \<Rightarrow> int) \<Rightarrow> bool" where
  "pwrite_ok pw \<longleftrightarrow> (\<forall>k n. 0 < n \<longrightarrow> pw k n = -1 \<or> 0 < pw k n \<and> pw k n \<le> n)"

lemma pwrite_append:
  assumes "0 \<le> bytes" "0 \<le> err" "bytes + err \<le> n" "n \<le> int (length buf)"
  shows "file_pwrite (file_pwrite f (offset + bytes) (take (nat err) (drop (nat bytes) buf)))
      (offset + (bytes + err)) (take (nat (n - (bytes + err))) (drop (nat (bytes + err)) buf)) =
    file_pwrite f (offset + bytes) (take (nat (n - bytes)) (drop (nat bytes) buf))"
proof -
  let ?bs = "take (nat (n - bytes)) (drop (nat bytes) buf)"
  have "nat err \<le> nat (n - bytes)" using assms by linarith
  then have "take (nat err) ?bs = take (nat err) (drop (nat bytes) buf)" by (simp add: min_def)
  moreover have "nat (bytes + err) = nat err + nat bytes" "nat (n - (bytes + err)) = nat (n - bytes) - nat err"
    using assms by linarith+
  then have "drop (nat err) ?bs = take (nat (n - (bytes + err))) (drop (nat (bytes + err)) buf)"
    by (simp add: drop_take)
  moreover have "nat err \<le> length ?bs" using assms by (simp add: nat_le_iff)
  ultimately show ?thesis
    using file_pwrite_split [of "nat err" ?bs f "offset + bytes"] assms(2) by (simp add: add.assoc)
qed

lemma write_loop_total:
  "pwrite_ok pw \<Longrightarrow> 0 \<le> bytes \<Longrightarrow> bytes \<le> len \<Longrightarrow> len \<le> int (length buf) \<Longrightarrow> nat (len - bytes) \<le> fuel \<Longrightarrow>
   \<exists>ok n. write_loop fuel pw k f buf offset len bytes =
       Some (ok, file_pwrite f (offset + bytes) (take (nat (n - bytes)) (drop (nat bytes) buf)), n) \<and>
     bytes \<le> n \<and> n \<le> len \<and> (if ok then n = len else n < len \<and> (\<exists>j m. pw j m = -1))"
proof (induction fuel arbitrary: k f bytes)
  case 0
  then show ?case by (auto simp: write_loop.simps [of 0] intro!: exI [of _ True])
next
  case (Suc fuel)
  show ?case
  proof (cases "bytes < len")
    case False
    then show ?thesis using Suc.prems
      by (auto simp: write_loop.simps [of "Suc fuel"] intro!: exI [of _ True])
  next
    case True
    let ?wr = "min INT_MAX (len - bytes)" and ?b = "take (nat (pw k (min INT_MAX (len - bytes)))) (drop (nat bytes) buf)"
    have wr: "0 < ?wr" using True by (simp add: INT_MAX_def)
    show ?thesis
    proof (cases "pw k ?wr = -1")
      case err: True
      then show ?thesis using True Suc.prems
        by (auto simp: write_loop.simps [of "Suc fuel"] Let_def intro!: exI [of _ False])
    next
      case False
      then have e: "0 < pw k ?wr" "pw k ?wr \<le> ?wr" using Suc.prems(1) [unfolded pwrite_ok_def, rule_format, OF wr, of k] by auto
      have "\<exists>ok n. write_loop fuel pw (Suc k) (file_pwrite f (offset + bytes) ?b) buf offset len (bytes + pw k ?wr) =
          Some (ok, file_pwrite (file_pwrite f (offset + bytes) ?b) (offset + (bytes + pw k ?wr))
            (take (nat (n - (bytes + pw k ?wr))) (drop (nat (bytes + pw k ?wr)) buf)), n) \<and>
          bytes + pw k ?wr \<le> n \<and> n \<le> len \<and> (if ok then n = len else n < len \<and> (\<exists>j m. pw j m = -1))"
        by (rule Suc.IH) (use Suc.prems e in auto)
      then obtain ok n where r: "write_loop fuel pw (Suc k) (file_pwrite f (offset + bytes) ?b) buf offset len (bytes + pw k ?wr) =
          Some (ok, file_pwrite (file_pwrite f (offset + bytes) ?b) (offset + (bytes + pw k ?wr))
            (take (nat (n - (bytes + pw k ?wr))) (drop (nat (bytes + pw k ?wr)) buf)), n)"
        and n: "bytes + pw k ?wr \<le> n" "n \<le> len" "if ok then n = len else n < len \<and> (\<exists>j m. pw j m = -1)"
        by blast
      have "write_loop (Suc fuel) pw k f buf offset len bytes =
          Some (ok, file_pwrite f (offset + bytes) (take (nat (n - bytes)) (drop (nat bytes) buf)), n)"
        using True False r pwrite_append [of bytes "pw k ?wr" n buf f offset] Suc.prems(2,4) e n
        by (simp add: write_loop.simps [of "Suc fuel"] Let_def)
      with n e(1) show ?thesis by (intro exI [of _ ok] exI [of _ n]) auto
    qed
  qed
qed

definition pread_ok :: "(nat \<Rightarrow> int \<Rightarrow> int \<Rightarrow> int) \<Rightarrow> pfile \<Rightarrow> bool" where
  "pread_ok pr f \<longleftrightarrow> (\<forall>k p n. 0 < n \<longrightarrow> pr k p n = -1 \<or>
     (if p < fsize f then 0 < pr k p n \<and> pr k p n \<le> n \<and> pr k p n \<le> fsize f - p else pr k p n = 0))"

lemma file_pread_append:
  assumes "0 \<le> a" "0 \<le> b" "off + a \<le> fsize f"
  shows "file_pread f off (a + b) = file_pread f off a @ file_pread f (off + a) b"
proof -
  define m where "m = min (off + (a + b)) (fsize f)"
  have "off + a \<le> m" using assms by (simp add: m_def)
  then have "[off .. m - 1] = [off .. off + a - 1] @ [off + a .. m - 1]"
    using upto_split1 [of off "off + a" "m - 1"] assms(1) by (cases "m = off + a") auto
  then have "[off .. min (off + (a + b)) (fsize f) - 1] =
      [off .. off + a - 1] @ [off + a .. min (off + (a + b)) (fsize f) - 1]" by (simp add: m_def)
  with assms show ?thesis by (simp add: file_pread_def min_def add.assoc)
qed

lemma take_file_pread:
  assumes "0 \<le> err" "err \<le> rd" "off + err \<le> fsize f"
  shows "take (nat err) (file_pread f off rd) = file_pread f off err"
  using file_pread_append [of err "rd - err" off f] length_file_pread [of off err f] assms by simp

lemma read_loop_total:
  "pread_ok pr f \<Longrightarrow> 0 \<le> bytes \<Longrightarrow> bytes \<le> len \<Longrightarrow> nat (len - bytes) \<le> fuel \<Longrightarrow>
   \<exists>ok n. read_loop fuel pr k f acc offset len bytes =
       Some (ok, acc @ file_pread f (offset + bytes) (n - bytes), n) \<and> bytes \<le> n \<and> n \<le> len \<and>
     (n = bytes \<or> offset + n \<le> fsize f) \<and>
     (if ok then n = len \<or> fsize f \<le> offset + n else \<exists>j p m. pr j p m = -1)"
proof (induction fuel arbitrary: k acc bytes)
  case 0
  then show ?case by (auto simp: read_loop.simps [of 0] file_pread_def intro!: exI [of _ True])
next
  case (Suc fuel)
  show ?case
  proof (cases "bytes < len")
    case False
    then show ?thesis using Suc.prems
      by (auto simp: read_loop.simps [of "Suc fuel"] file_pread_def intro!: exI [of _ True])
  next
    case True
    let ?rd = "min INT_MAX (len - bytes)" and ?p = "offset + bytes"
    let ?e = "pr k ?p ?rd"
    have rd: "0 < ?rd" using True by (simp add: INT_MAX_def)
    consider "?e = -1" | "?e = 0" "fsize f \<le> ?p" | "0 < ?e" "?e \<le> ?rd" "?p + ?e \<le> fsize f"
      using Suc.prems(1) [unfolded pread_ok_def, rule_format, OF rd, of k ?p]
      by (auto split: if_splits)
    then show ?thesis
    proof cases
      case 1
      then show ?thesis using True Suc.prems
        by (auto simp: read_loop.simps [of "Suc fuel"] Let_def file_pread_def intro!: exI [of _ False])
    next
      case 2
      then show ?thesis using True Suc.prems
        by (auto simp: read_loop.simps [of "Suc fuel"] Let_def file_pread_def intro!: exI [of _ True])
    next
      case 3
      let ?acc = "acc @ take (nat ?e) (file_pread f ?p ?rd)"
      have "\<exists>ok n. read_loop fuel pr (Suc k) f ?acc offset len (bytes + ?e) =
          Some (ok, ?acc @ file_pread f (offset + (bytes + ?e)) (n - (bytes + ?e)), n) \<and>
          bytes + ?e \<le> n \<and> n \<le> len \<and> (n = bytes + ?e \<or> offset + n \<le> fsize f) \<and>
          (if ok then n = len \<or> fsize f \<le> offset + n else \<exists>j p m. pr j p m = -1)"
        by (rule Suc.IH) (use Suc.prems 3 in auto)
      then obtain ok n where r: "read_loop fuel pr (Suc k) f ?acc offset len (bytes + ?e) =
          Some (ok, ?acc @ file_pread f (offset + (bytes + ?e)) (n - (bytes + ?e)), n)"
        and n: "bytes + ?e \<le> n" "n \<le> len" "n = bytes + ?e \<or> offset + n \<le> fsize f"
          "if ok then n = len \<or> fsize f \<le> offset + n else \<exists>j p m. pr j p m = -1"
        by blast
      have "?acc @ file_pread f (offset + (bytes + ?e)) (n - (bytes + ?e)) = acc @ file_pread f ?p (n - bytes)"
        using take_file_pread [of ?e ?rd ?p f] file_pread_append [of ?e "n - bytes - ?e" ?p f] 3 n(1)
        by (simp add: add.assoc algebra_simps)
      then have "read_loop (Suc fuel) pr k f acc offset len bytes =
          Some (ok, acc @ file_pread f ?p (n - bytes), n)"
        using True 3(1) r by (simp add: read_loop.simps [of "Suc fuel"] Let_def)
      with n 3 show ?thesis by (intro exI [of _ ok] exI [of _ n]) auto
    qed
  qed
qed

section \<open>The calls are runs of the protocol\<close>

text \<open>One sync thread, the default, and a cache that is flushed.\<close>

definition single :: "'g adio_file \<Rightarrow> bool" where
  "single fd \<longleftrightarrow> cache_on fd \<and> e10_cache_threads fd = 1 \<and> thread_curr fd = 0 \<and>
     e10_cache_flush_flag fd \<noteq> ADIOI_HINT_FLUSHNONE \<and> (case thread_pool fd of Some [l] \<Rightarrow> True | _ \<Rightarrow> False)"

definition abs_file :: "'g adio_file \<Rightarrow> 'g proto" where
  "abs_file fd = \<lparr>core = to_state fd (hd (the (thread_pool fd))), mpc = M_idle, nextp = fnext fd\<rparr>"

lemma singleE:
  assumes "single fd"
  obtains h t p b where "cache_fd fd = Some h" "is_open h" "thread_pool fd = Some [(t, p, b)]"
    "e10_cache_threads fd = 1" "thread_curr fd = 0" "e10_cache_flush_flag fd \<noteq> ADIOI_HINT_FLUSHNONE"
  using assms by (auto simp: single_def cache_on_def split: option.splits list.splits)

lemma write_sync_steps:
  assumes sg: "single fd" and d: "write_sync E r0 off dt count fd = Done fd'"
    and ti: "thread_inv (thr (core (abs_file fd)))"
  shows "(proto_step E)\<^sup>*\<^sup>* ((abs_file fd)\<lparr>mpc := M_write off dt count bs (length bs)\<rparr>) (abs_file fd') \<and>
     single fd' \<and> cache_fd fd' = cache_fd fd \<and> gfh fd' = gfh fd"
proof -
  obtain h t p b where fd: "cache_fd fd = Some h" "is_open h" "thread_pool fd = Some [(t, p, b)]"
      "e10_cache_threads fd = 1" "thread_curr fd = 0" "e10_cache_flush_flag fd \<noteq> ADIOI_HINT_FLUSHNONE"
    using sg by (rule singleE)
  let ?s = "(abs_file fd)\<lparr>mpc := M_write off dt count bs (length bs)\<rparr>"
  let ?rq = "\<lparr>rtype = ADIOI_THREAD_SYNC, roff = off, rdatatype = dt, rcount = count, rreq = int (fnext fd),
      rerror_code = MPI_SUCCESS, rfflags = 0\<rparr>"
  let ?rh = "(freqs fd)(Suc (fnext fd) \<mapsto> ?rq)"
  obtain t1 t2 g where t1: "ADIOI_Sync_thread_enqueue t (Suc (fnext fd)) = Done t1"
    and t2: "(if e10_cache_flush_flag fd = ADIOI_HINT_FLUSHIMMEDIATE
        then ADIOI_Sync_thread_flush E ?rh t1 (fgreq fd) else Done (t1, fgreq fd)) = Done (t2, g)"
    and fd': "fd' = fd\<lparr>freqs := ?rh, fhandles := insert (int (fnext fd)) (fhandles fd), fgreq := g,
        thread_pool := Some [(t2, p, b)], thread_curr := 0, fnext := fnext fd + 2\<rparr>"
    using d fd by (auto simp: write_sync_def Let_def sync_req_init_SYNC simp del: ADIOI_Sync_req_init.simps)
  let ?s1 = "abs_file (fd'\<lparr>fgreq := fgreq fd, thread_pool := Some [(t1, p, b)]\<rparr>)"
  have "write_end E r0 off dt count ?s = Done ?s1"
    using t1 fd by (simp add: write_end_def Let_def sync_req_init_SYNC abs_file_def to_state_def fd'
        del: ADIOI_Sync_req_init.simps)
  then have 1: "proto_step E ?s ?s1" by (rule proto_step.end_write [rotated]) simp
  have ti1: "thread_inv t1" using enqueue_Done [OF _ t1] ti fd(3) by (simp add: abs_file_def to_state_def)
  have "(proto_step E)\<^sup>*\<^sup>* ?s1 (abs_file fd')"
  proof (cases "e10_cache_flush_flag fd = ADIOI_HINT_FLUSHIMMEDIATE")
    case True
    then have f: "ADIOI_Sync_thread_flush E ?rh t1 (fgreq fd) = Done (t2, g)" using t2 by simp
    have "(proto_step E)\<^sup>*\<^sup>* ?s1 (?s1\<lparr>core := (core ?s1)\<lparr>thr := t2, greq := g\<rparr>\<rparr>)"
      using flush_loop_steps [OF ti1 f, of ?s1 "core ?s1"] by (simp add: abs_file_def to_state_def fd')
    then show ?thesis by (simp add: abs_file_def to_state_def fd')
  next
    case False
    then show ?thesis using t2 by (simp add: fd' abs_file_def to_state_def)
  qed
  with 1 show ?thesis using sg fd fd' by (auto simp: single_def cache_on_def intro: converse_rtranclp_into_rtranclp)
qed

lemma WriteContig_steps:
  assumes pw: "pwrite_ok pw" and sg: "single fd" and ti: "thread_inv (thr (core (abs_file fd)))"
    and ptr: "ptr \<noteq> ADIO_INDIVIDUAL" and off: "0 \<le> offset" and len: "int (length buf) = type_size E dt * count"
    and fuel: "length buf \<le> fuel"
    and d: "ADIOI_GEN_WriteContig E fuel pw r0 buf count dt ptr offset fd = Done (MPI_OK, st, fd')"
  shows "(proto_step E)\<^sup>*\<^sup>* (abs_file fd) (abs_file fd') \<and> single fd' \<and> gfh fd' = gfh fd \<and>
     fcontent (the_fh fd') = file_pwrite (fcontent (the_fh fd)) offset buf"
proof -
  obtain h t p b where fd: "cache_fd fd = Some h" "is_open h" "thread_pool fd = Some [(t, p, b)]"
      "e10_cache_threads fd = 1" "thread_curr fd = 0" "e10_cache_flush_flag fd \<noteq> ADIOI_HINT_FLUSHNONE"
    using sg by (rule singleE)
  have on: "cache_on fd" "the_fh fd = h" using fd by (simp_all add: cache_on_def the_fh_def)
  let ?fd1 = "if e10_cache_coherent fd = ADIOI_HINT_ENABLE
    then fd\<lparr>flocks := lock_range (flocks fd) offset (int (length buf))\<rparr> else fd"
  let ?h = "h\<lparr>fcontent := file_pwrite (fcontent h) offset buf\<rparr>"
  let ?fd2 = "?fd1\<lparr>cache_fd := Some ?h\<rparr>"
  obtain ok n where wl: "write_loop fuel pw 0 (fcontent h) buf offset (int (length buf)) 0 =
      Some (ok, file_pwrite (fcontent h) offset (take (nat n) buf), n)" "if ok then n = int (length buf) else n < int (length buf)"
    using write_loop_total [OF pw, of 0 "int (length buf)" buf fuel 0 "fcontent h" offset] fuel
    by (auto split: if_splits)
  have same: "cache_on ?fd1 = cache_on fd" "the_fh ?fd1 = h" "set_fh ?fd1 x = ?fd1\<lparr>cache_fd := Some x\<rparr>" for x
    using on fd by (simp_all add: cache_on_def the_fh_def set_fh_def)
  have okT: ok
    using d wl(1) on same by (cases ok) (auto simp: ADIOI_GEN_WriteContig_def Let_def len [symmetric] ptr)
  then obtain fd3 where ws: "write_sync E r0 offset dt count ?fd2 = Done fd3"
    and fd': "fd' = set_fh fd3 (?h\<lparr>fp_sys_posn := offset + n\<rparr>)"
    using d wl on same fd(6) by (auto simp: ADIOI_GEN_WriteContig_def Let_def len [symmetric] ptr)
  have sg2: "single ?fd2" using sg fd by (simp add: single_def cache_on_def)
  have ti2: "thread_inv (thr (core (abs_file ?fd2)))" using ti fd(3) by (simp add: abs_file_def to_state_def)
  note w = write_sync_steps [OF sg2 ws ti2, of buf]
  let ?s1 = "write_begin offset dt count buf (abs_file fd)"
  let ?s2 = "(abs_file ?fd2)\<lparr>mpc := M_write offset dt count buf (length buf)\<rparr>"
  have b: "proto_step E (abs_file fd) ?s1"
    by (rule proto_step.begin_write) (use off len in \<open>simp_all add: abs_file_def\<close>)
  have "(proto_step E)\<^sup>*\<^sup>* ?s1 ?s2"
  proof (cases "buf = []")
    case True
    then have "?s1 = ?s2" using fd(1,3)
      by (simp add: write_begin_def abs_file_def to_state_def)
    then show ?thesis by simp
  next
    case False
    have "proto_step E ?s1 ((write_chunk (offset + int 0) (take (length buf) (drop 0 buf)) ?s1)
        \<lparr>mpc := M_write offset dt count buf (0 + length buf)\<rparr>)"
      by (rule proto_step.chunk_write) (use False in \<open>simp_all add: write_begin_def\<close>)
    moreover have "(write_chunk (offset + int 0) (take (length buf) (drop 0 buf)) ?s1)
        \<lparr>mpc := M_write offset dt count buf (0 + length buf)\<rparr> = ?s2"
      using fd(1,3) by (simp add: write_begin_def write_chunk_def abs_file_def to_state_def)
    ultimately show ?thesis by simp
  qed
  moreover have "cache_on fd3" "abs_file fd' = abs_file fd3" "single fd'" "gfh fd' = gfh fd"
      "the_fh fd' = ?h\<lparr>fp_sys_posn := offset + n\<rparr>"
    using w fd(2) by (auto simp: fd' cache_on_def set_fh_def abs_file_def to_state_def single_def the_fh_def)
  ultimately show ?thesis using b w on(2) by (auto intro: converse_rtranclp_into_rtranclp rtranclp_trans)
qed

lemma Flush_completes:
  assumes laws: "greq_laws E" "full_transfers E" and sg: "single fd" and r: "reachable E (abs_file fd)"
    and room: "int (length (waits (thr (core (abs_file fd)))) + length (pens (thr (core (abs_file fd))))) \<le> INT_MAX"
  shows "\<exists>steps fd'. ADIOI_GEN_Flush E steps rc fd = Done (MPI_OK, fd') \<and> single fd' \<and>
     reachable E (abs_file fd') \<and> cache_fd fd' = cache_fd fd \<and>
     fdata (fcontent (the_fh fd)) \<subseteq>\<^sub>m fdata (fcontent (gfh fd'))"
proof -
  obtain h t p b where fd: "cache_fd fd = Some h" "is_open h" "thread_pool fd = Some [(t, p, b)]"
      "e10_cache_threads fd = 1" "thread_curr fd = 0" "e10_cache_flush_flag fd \<noteq> ADIOI_HINT_FLUSHNONE"
    using sg by (rule singleE)
  let ?s = "abs_file fd"
  have core: "core ?s = to_state fd (t, p, b)" "mpc ?s = M_idle" "thr (core ?s) = t" "reqs (core ?s) = freqs fd"
      "greq (core ?s) = fgreq fd" using fd(3) by (simp_all add: abs_file_def to_state_def)
  obtain t1 g c s' where f: "ADIOI_Sync_thread_flush E (freqs fd) t (fgreq fd) = Done (t1, g)"
    and run: "sync_run E (work E ((core ?s)\<lparr>thr := t1, greq := g\<rparr>)) ((core ?s)\<lparr>thr := t1, greq := g\<rparr>) = Done c"
    and w: "main_wait E (?s\<lparr>core := c\<rparr>) = Done s'" "reachable E s'" "cachef (core s') = cachef (core ?s)"
      "fdata (cachef (core ?s)) \<subseteq>\<^sub>m fdata (globf (core s'))"
    using flush_completes [OF laws r core(2) room] core(3-5) by auto
  let ?fd1 = "fd\<lparr>fgreq := g, thread_pool := Some [(t1, p, b)]\<rparr>"
  have st1: "to_state ?fd1 (t1, p, b) = (core ?s)\<lparr>thr := t1, greq := g\<rparr>" by (simp add: core(1) to_state_def)
  note fr = sync_run_frame [OF run]
  let ?fd2 = "of_state ?fd1 0 c"
  obtain t3 rh hs where tw: "ADIOI_Sync_thread_wait E (thr c) (reqs c) (handles c) (greq c) = Done (t3, rh, hs)"
    and s': "s' = ?s\<lparr>core := c\<lparr>thr := t3, reqs := rh, handles := hs\<rparr>\<rparr>"
    using w(1) by (auto simp: main_wait_def Let_def)
  let ?fd3 = "?fd2\<lparr>freqs := rh, fhandles := hs, thread_pool := Some [(t3, pc c, sbuf c)]\<rparr>"
  have "ADIOI_GEN_Flush E (work E ((core ?s)\<lparr>thr := t1, greq := g\<rparr>)) rc fd = Done (MPI_OK, ?fd3)"
    using fd f run tw st1
    by (simp add: ADIOI_GEN_Flush_def cache_on_def pool_nth_def Let_def of_state_def)
  moreover have "abs_file ?fd3 = s'"
    using fr fd(1,3) unfolding s' abs_file_def by (simp add: of_state_def to_state_def core(1))
  moreover have "single ?fd3" using sg fd by (simp add: single_def cache_on_def of_state_def)
  moreover have "cachef (core ?s) = fcontent (the_fh fd)" "globf (core s') = fcontent (gfh ?fd3)"
    using fd by (simp_all add: abs_file_def to_state_def the_fh_def s' of_state_def)
  moreover have "cache_fd ?fd3 = cache_fd fd" by (simp add: of_state_def)
  ultimately show ?thesis using w(2,4) by metis
qed

lemma WriteContig_succeeds:
  assumes pw: "pwrite_ok pw" "\<And>k n. pw k n \<noteq> -1" and sg: "single fd" and ti: "thread_inv (thr (core (abs_file fd)))"
    and ptr: "ptr \<noteq> ADIO_INDIVIDUAL" and len: "int (length buf) = type_size E dt * count"
    and fuel: "length buf \<le> fuel" and flag: "e10_cache_flush_flag fd = ADIOI_HINT_FLUSHONCLOSE"
    and room: "int (length (pens (thr (core (abs_file fd))))) < INT_MAX"
  shows "\<exists>st fd'. ADIOI_GEN_WriteContig E fuel pw r0 buf count dt ptr offset fd = Done (MPI_OK, st, fd') \<and>
     e10_cache_flush_flag fd' = ADIOI_HINT_FLUSHONCLOSE \<and>
     length (pens (thr (core (abs_file fd')))) = Suc (length (pens (thr (core (abs_file fd))))) \<and>
     waits (thr (core (abs_file fd'))) = waits (thr (core (abs_file fd)))"
proof -
  obtain h t p b where fd: "cache_fd fd = Some h" "is_open h" "thread_pool fd = Some [(t, p, b)]"
      "e10_cache_threads fd = 1" "thread_curr fd = 0" "e10_cache_flush_flag fd \<noteq> ADIOI_HINT_FLUSHNONE"
    using sg by (rule singleE)
  have t: "thr (core (abs_file fd)) = t" using fd(3) by (simp add: abs_file_def to_state_def)
  obtain q where "ADIOI_Atomic_queue_push (pen t) (Suc (fnext fd)) = Done q"
    using aq.push_ok [of "pen t"] ti room by (auto simp: t thread_inv_def)
  then obtain t1 where t1: "ADIOI_Sync_thread_enqueue t (Suc (fnext fd)) = Done t1"
    by (simp add: ADIOI_Sync_thread_enqueue_def)
  obtain f n where "write_loop fuel pw 0 (fcontent h) buf offset (int (length buf)) 0 = Some (True, f, n)"
    using write_loop_total [OF pw(1), of 0 "int (length buf)" buf fuel 0 "fcontent h" offset] fuel pw(2)
    by (auto split: if_splits)
  moreover have "ADIOI_HINT_FLUSHONCLOSE \<noteq> ADIOI_HINT_FLUSHIMMEDIATE"
    by (simp add: ADIOI_HINT_FLUSHONCLOSE_def ADIOI_HINT_FLUSHIMMEDIATE_def)
  ultimately show ?thesis
    using fd t1 flag enqueue_Done [OF _ t1] ti
    by (simp add: ADIOI_GEN_WriteContig_def Let_def ptr len [symmetric] cache_on_def the_fh_def set_fh_def
        write_sync_def sync_req_init_SYNC abs_file_def to_state_def del: ADIOI_Sync_req_init.simps)
qed

section \<open>Properties\<close>

definition demo_req :: sync_req where
  "demo_req = \<lparr>rtype = 0, roff = 0, rdatatype = 0, rcount = 0, rreq = 0, rerror_code = 0, rfflags = 0\<rparr>"

definition demo_file :: "aqueue \<Rightarrow> int set adio_file" where
  "demo_file q = \<lparr>gfh = \<lparr>fp_ind = 0, fp_sys_posn = 0, fcontent = \<lparr>fdata = Map.empty, fsize = 0\<rparr>, is_open = True\<rparr>,
     cache_fd = Some \<lparr>fp_ind = 0, fp_sys_posn = 0, fcontent = \<lparr>fdata = Map.empty, fsize = 0\<rparr>, is_open = True\<rparr>,
     e10_cache_coherent = ADIOI_HINT_ENABLE, e10_cache_flush_flag = ADIOI_HINT_FLUSHONCLOSE,
     e10_cache_threads = 1, ind_wr_buffer_size = 2, thread_curr = 0,
     thread_pool = Some [(\<lparr>sub = q, pen = q, waitq = q\<rparr>, S_idle, [0, 0])],
     freqs = Map.empty, fhandles = {}, fgreq = {}, flocks = {}, fnext = 1\<rparr>"

lemma demo_file_ok:
  assumes "aq_inv q" "aq_contents q = []"
  shows "single (demo_file q)" "reachable demo_env (abs_file (demo_file q))"
    "waits (thr (core (abs_file (demo_file q)))) = []" "pens (thr (core (abs_file (demo_file q)))) = []"
    "e10_cache_flush_flag (demo_file q) = ADIOI_HINT_FLUSHONCLOSE"
proof -
  show "single (demo_file q)"
    by (simp add: single_def demo_file_def cache_on_def ADIOI_HINT_FLUSHONCLOSE_def ADIOI_HINT_FLUSHNONE_def)
  show "reachable demo_env (abs_file (demo_file q))"
    by (rule reachable.start)
      (use assms in \<open>simp add: proto_init_def abs_file_def to_state_def demo_file_def thread_inv_def\<close>)
qed (use assms in \<open>simp_all add: demo_file_def abs_file_def to_state_def\<close>)

definition demo_direct :: "int set adio_file" where
  "demo_direct = (demo_file \<lparr>qhead = 1, links = Map.empty, envs = Map.empty, qsize = 0, brk = 2\<rparr>)
     \<lparr>cache_fd := None, thread_pool := None,
      gfh := \<lparr>fp_ind = 0, fp_sys_posn = 0, fcontent = \<lparr>fdata = [5 \<mapsto> 1, 6 \<mapsto> 2], fsize = 7\<rparr>, is_open = True\<rparr>\<rparr>"



text \<open>
  C33: Without the cache, \<open>ADIOI_GEN_WriteContig\<close> returns after at most one \<open>pwrite\<close> per byte. It
  writes a prefix of the buffer at the requested place and nothing else; the prefix is the
  whole buffer unless a \<open>pwrite\<close> failed, and the error code, the status and the two file
  pointers say which.
\<close>

theorem WriteContig_direct:
  assumes "pwrite_ok pw" "\<not> cache_on fd" "int (length buf) = type_size E dt * count" "length buf \<le> fuel"
  shows "\<exists>n. 0 \<le> n \<and> n \<le> int (length buf) \<and> (n < int (length buf) \<longrightarrow> (\<exists>k m. pw k m = -1)) \<and>
     (let fh = gfh fd; off = (if ptr = ADIO_INDIVIDUAL then fp_ind fh else offset);
          f = file_pwrite (fcontent fh) off (take (nat n) buf) in
      ADIOI_GEN_WriteContig E fuel pw r0 buf count dt ptr offset fd = Done
        (if n < int (length buf) then (MPI_ERR_IO, None, fd\<lparr>gfh := fh\<lparr>fcontent := f, fp_sys_posn := -1\<rparr>\<rparr>)
         else (MPI_OK, if buf = [] then None else Some n,
           fd\<lparr>gfh := fh\<lparr>fcontent := f, fp_sys_posn := off + n,
              fp_ind := (if ptr = ADIO_INDIVIDUAL then fp_ind fh + n else fp_ind fh)\<rparr>\<rparr>)))"
proof -
  let ?off = "if ptr = ADIO_INDIVIDUAL then fp_ind (gfh fd) else offset"
  obtain ok n where w: "write_loop fuel pw 0 (fcontent (gfh fd)) buf ?off (int (length buf)) 0 =
      Some (ok, file_pwrite (fcontent (gfh fd)) ?off (take (nat n) buf), n)" "0 \<le> n" "n \<le> int (length buf)"
      "if ok then n = int (length buf) else n < int (length buf) \<and> (\<exists>j m. pw j m = -1)"
    using write_loop_total [OF assms(1), of 0 "int (length buf)" buf fuel 0 "fcontent (gfh fd)" ?off] assms(4)
    by auto
  have fh: "the_fh fd = gfh fd" using assms(2) by (auto simp: the_fh_def cache_on_def split: option.splits)
  show ?thesis
    by (rule exI [of _ n]) (use w assms(2) fh in \<open>cases ok; cases "ptr = ADIO_INDIVIDUAL"; cases "buf = []";
      simp add: ADIOI_GEN_WriteContig_def Let_def assms(3) [symmetric] set_fh_def\<close>)
qed

theorem WriteContig_direct_witness:
  "\<exists>fd'. ADIOI_GEN_WriteContig demo_env 3 (\<lambda>k m. 1) demo_req [7, 8, 9] 3 1 ADIO_EXPLICIT_OFFSET 5 demo_direct =
     Done (MPI_OK, Some 3, fd') \<and> fcontent (gfh fd') = file_pwrite (fcontent (gfh demo_direct)) 5 [7, 8, 9]"
proof -
  have "pwrite_ok (\<lambda>k m. 1)" "\<not> cache_on demo_direct" "int (length [7, 8, 9 :: byte]) = type_size demo_env 1 * 3"
    by (simp_all add: pwrite_ok_def cache_on_def demo_direct_def demo_env_def)
  then obtain n where n: "n < 3 \<longrightarrow> (\<exists>(k :: nat) (m :: int). (1 :: int) = -1)" "n \<le> 3"
    and w: "ADIOI_GEN_WriteContig demo_env 3 (\<lambda>k m. 1) demo_req [7, 8, 9] 3 1 ADIO_EXPLICIT_OFFSET 5 demo_direct =
      (let fh = gfh demo_direct; f = file_pwrite (fcontent fh) 5 (take (nat n) [7, 8, 9]) in Done
        (if n < 3 then (MPI_ERR_IO, None, demo_direct\<lparr>gfh := fh\<lparr>fcontent := f, fp_sys_posn := -1\<rparr>\<rparr>)
         else (MPI_OK, Some n, demo_direct\<lparr>gfh := fh\<lparr>fcontent := f, fp_sys_posn := 5 + n\<rparr>\<rparr>)))"
    using WriteContig_direct [of "\<lambda>k m. 1" demo_direct "[7, 8, 9]" demo_env 1 3 3 ADIO_EXPLICIT_OFFSET 5 demo_req]
    by (auto simp: Let_def ADIO_EXPLICIT_OFFSET_def ADIO_INDIVIDUAL_def)
  then have "n = 3" by simp
  then show ?thesis using w by (simp add: Let_def)
qed

text \<open>
  C34: \<open>ADIOI_GEN_ReadContig\<close> returns after at most one \<open>pread\<close> per byte. What it delivers is
  what the file holds at the requested place, \<open>n\<close> bytes of it, and \<open>n\<close> is the requested length
  unless the end of the file comes first or a \<open>pread\<close> failed; the file pointers move by \<open>n\<close>.
\<close>

theorem ReadContig_reads:
  assumes "pread_ok pr (fcontent (gfh fd))" "0 \<le> type_size E dt * count" "nat (type_size E dt * count) \<le> fuel"
  shows "\<exists>ok n. 0 \<le> n \<and> n \<le> type_size E dt * count \<and>
     (let fh = gfh fd; off = (if ptr = ADIO_INDIVIDUAL then fp_ind fh else offset);
          bs = file_pread (fcontent fh) off n in
      int (length bs) = n \<and>
      (if ok then n = type_size E dt * count \<or> fsize (fcontent fh) \<le> off + n else \<exists>k p m. pr k p m = -1) \<and>
      ADIOI_GEN_ReadContig E fuel pr count dt ptr offset fd = Done
        (if ok then (MPI_OK, if 0 < type_size E dt * count then Some n else None, bs,
           fd\<lparr>gfh := fh\<lparr>fp_sys_posn := off + n, fp_ind := (if ptr = ADIO_INDIVIDUAL then fp_ind fh + n else fp_ind fh)\<rparr>\<rparr>)
         else (MPI_ERR_IO, None, bs, fd\<lparr>gfh := fh\<lparr>fp_sys_posn := -1\<rparr>\<rparr>)))"
proof -
  let ?off = "if ptr = ADIO_INDIVIDUAL then fp_ind (gfh fd) else offset" and ?len = "type_size E dt * count"
  obtain ok n where r: "read_loop fuel pr 0 (fcontent (gfh fd)) [] ?off ?len 0 =
      Some (ok, file_pread (fcontent (gfh fd)) ?off n, n)" "0 \<le> n" "n \<le> ?len"
      "if ok then n = ?len \<or> fsize (fcontent (gfh fd)) \<le> ?off + n else \<exists>j p m. pr j p m = -1"
      "n = 0 \<or> ?off + n \<le> fsize (fcontent (gfh fd))"
    using read_loop_total [OF assms(1), of 0 ?len fuel 0 "[]" ?off] assms(2,3) by auto
  have "int (length (file_pread (fcontent (gfh fd)) ?off n)) = n"
    using r(2,5) length_file_pread [of ?off n "fcontent (gfh fd)"] by (auto simp: file_pread_def)
  then show ?thesis
    by (intro exI [of _ ok] exI [of _ n]) (use r in \<open>cases ok; cases "ptr = ADIO_INDIVIDUAL";
      simp add: ADIOI_GEN_ReadContig_def Let_def\<close>)
qed

theorem ReadContig_reads_witness:
  "\<exists>fd'. ADIOI_GEN_ReadContig demo_env 2 (\<lambda>k p m. if p < 7 then 1 else 0) 2 1 ADIO_EXPLICIT_OFFSET 5 demo_direct =
     Done (MPI_OK, Some 2, [1, 2], fd')"
proof -
  let ?pr = "\<lambda>(k :: nat) (p :: int) (m :: int). if p < 7 then 1 else (0 :: int)"
  let ?f = "fcontent (gfh demo_direct)"
  have f: "file_pread ?f 5 2 = [1, 2]" "fsize ?f = 7"
    by (simp_all add: file_pread_def demo_direct_def upto.simps)
  have ts: "type_size demo_env 1 * 2 = 2" by (simp add: demo_env_def)
  have ne: "(ADIO_EXPLICIT_OFFSET = ADIO_INDIVIDUAL) = False"
    by (simp add: ADIO_EXPLICIT_OFFSET_def ADIO_INDIVIDUAL_def)
  have p: "pread_ok ?pr ?f" "0 \<le> type_size demo_env 1 * 2" "nat (type_size demo_env 1 * 2) \<le> 2"
    by (auto simp: pread_ok_def f(2) ts)
  show ?thesis
    using ReadContig_reads [OF p, of ADIO_EXPLICIT_OFFSET 5, unfolded Let_def ts ne if_False f(2)]
  proof (elim exE conjE)
    fix ok n
    assume n: "n \<le> 2" "if ok then n = 2 \<or> 7 \<le> 5 + n else \<exists>k p m. ?pr k p m = -1"
      and r: "ADIOI_GEN_ReadContig demo_env 2 ?pr 2 1 ADIO_EXPLICIT_OFFSET 5 demo_direct =
        Done (if ok then (MPI_OK, if 0 < (2 :: int) then Some n else None, file_pread ?f 5 n,
            demo_direct\<lparr>gfh := (gfh demo_direct)\<lparr>fp_sys_posn := 5 + n, fp_ind := fp_ind (gfh demo_direct)\<rparr>\<rparr>)
          else (MPI_ERR_IO, None, file_pread ?f 5 n, demo_direct\<lparr>gfh := (gfh demo_direct)\<lparr>fp_sys_posn := -1\<rparr>\<rparr>))"
    have "ok \<and> n = 2" using n by (cases ok) (auto split: if_splits)
    with r f(1) show ?thesis by simp
  qed
qed

text \<open>
  When a \<open>pwrite\<close> to a coherent cache fails, \<open>ADIOI_GEN_WriteContig\<close> reports the error but
  the write lock it took on the extent of the global file is never released: no sync request
  is made for the extent, and only the sync thread unlocks.
\<close>

theorem failed_write_keeps_lock:
  assumes "cache_on fd" "e10_cache_coherent fd = ADIOI_HINT_ENABLE" "0 < type_size E dt * count"
    and "\<And>k n. pw k n = -1"
  shows "\<exists>fd'. ADIOI_GEN_WriteContig E (Suc fuel) pw r0 buf count dt ptr offset fd = Done (MPI_ERR_IO, None, fd') \<and>
     {offset ..< offset + type_size E dt * count} \<subseteq> flocks fd' \<and> thread_pool fd' = thread_pool fd \<and> freqs fd' = freqs fd"
  using assms
  by (auto simp: ADIOI_GEN_WriteContig_def Let_def write_loop.simps [of "Suc fuel"] set_fh_def cache_on_def
      lock_range_def split: option.splits)

theorem failed_write_keeps_lock_witness:
  "\<exists>q fd'. ADIOI_GEN_WriteContig demo_env (Suc 0) (\<lambda>k n. -1) demo_req [7, 8, 9] 3 1 ADIO_EXPLICIT_OFFSET 5 (demo_file q) =
      Done (MPI_ERR_IO, None, fd') \<and> {5 ..< 8} \<subseteq> flocks fd'"
proof -
  have "cache_on (demo_file q)" "e10_cache_coherent (demo_file q) = ADIOI_HINT_ENABLE" for q
    by (simp_all add: cache_on_def demo_file_def)
  moreover have "type_size demo_env 1 * 3 = 3" by (simp add: demo_env_def)
  ultimately show ?thesis
    using failed_write_keeps_lock [of "demo_file undefined" demo_env 1 3 "\<lambda>k n. -1" 0 demo_req "[7, 8, 9]" ADIO_EXPLICIT_OFFSET 5]
    by auto
qed

end
