(* ===== verification/Heap_Sort.thy ===== *)
theory Heap_Sort
  imports E10_Prelude "HOL-Library.Multiset"
begin

text \<open>
  The binary heap that merges the offset lists of the processes in collective I/O
  (\<open>romio/adio/common/heap-sort.c\<close>). The array is a list of nodes, the indices are those of the
  source: the parent of \<open>i\<close> is \<open>i / 2\<close> and its children are \<open>2 * i\<close> and \<open>2 * i + 1\<close>, from 0,
  so node 0 has the single child 1. The locale \<open>min_queue\<close> states what a merge relies on.
\<close>

section \<open>The operations\<close>

record heap_node =
  hoffset :: ADIO_Offset
  hproc :: int
  reg_max_len :: ADIO_Offset

record heap =
  nodes :: "heap_node list"
  hsize :: nat

definition parent :: "nat \<Rightarrow> nat" where
  "parent i = i div 2"

definition left :: "nat \<Rightarrow> nat" where
  "left i = 2 * i"

definition right :: "nat \<Rightarrow> nat" where
  "right i = 2 * i + 1"

text \<open>\<open>ADIOI_Calloc\<close> gives zeroed nodes.\<close>

definition ADIOI_Heap_create :: "nat \<Rightarrow> heap" where
  "ADIOI_Heap_create n =
     \<lparr>nodes = replicate n \<lparr>hoffset = 0, hproc = 0, reg_max_len = 0\<rparr>, hsize = n\<rparr>"

definition rd :: "heap_node list \<Rightarrow> nat \<Rightarrow> heap_node option" where
  "rd ns i = (if i < length ns then Some (ns ! i) else None)"

text \<open>\<open>smaller ns n c i\<close> is the test \<open>c <= size && nodes[c].offset < nodes[i].offset\<close>.\<close>

definition smaller :: "heap_node list \<Rightarrow> nat \<Rightarrow> nat \<Rightarrow> nat \<Rightarrow> bool option" where
  "smaller ns n c i = (if c \<le> n then
       do { a \<leftarrow> rd ns c; b \<leftarrow> rd ns i; Some (hoffset a < hoffset b) }
     else Some False)"

definition smallest :: "heap_node list \<Rightarrow> nat \<Rightarrow> nat \<Rightarrow> nat option" where
  "smallest ns n i = do {
     bl \<leftarrow> smaller ns n (left i) i;
     let s = (if bl then left i else i);
     br \<leftarrow> smaller ns n (right i) s;
     Some (if br then right i else s) }"

lemma smallest_cases:
  assumes "smallest ns n i = Some s"
  shows "s = i \<or> (s = left i \<or> s = right i) \<and> i < s \<and> s \<le> n \<and> s < length ns \<and> hoffset (ns ! s) < hoffset (ns ! i)"
  using assms
  by (auto simp: smallest_def smaller_def rd_def left_def right_def Let_def bind_eq_Some_conv split: if_splits)

function heapify :: "nat \<Rightarrow> heap_node list \<Rightarrow> nat \<Rightarrow> heap_node list option" where
  "heapify n ns i = (case smallest ns n i of None \<Rightarrow> None
     | Some s \<Rightarrow> if s \<noteq> i then heapify n (ns[i := ns ! s, s := ns ! i]) s else Some ns)"
  by pat_completeness auto
termination
  by (relation "measure (\<lambda>(n, ns, i). Suc n - i)") (auto dest!: smallest_cases)

declare heapify.simps [simp del]

text \<open>\<open>build_heap\<close>, unused in the source: from \<open>size / 2 - 1\<close> down to 0.\<close>

fun build_heap_loop :: "nat \<Rightarrow> heap_node list \<Rightarrow> nat \<Rightarrow> heap_node list option" where
  "build_heap_loop n ns 0 = Some ns"
| "build_heap_loop n ns (Suc i) = do { ns' \<leftarrow> heapify n ns i; build_heap_loop n ns' i }"

definition build_heap :: "heap \<Rightarrow> heap option" where
  "build_heap h = map_option (\<lambda>ns. h\<lparr>nodes := ns\<rparr>) (build_heap_loop (hsize h) (nodes h) (hsize h div 2))"

text \<open>The loop of \<open>ADIOI_Heap_insert\<close>: the hole at \<open>i\<close> moves up while the parent is larger.\<close>

function sift_up :: "heap_node list \<Rightarrow> ADIO_Offset \<Rightarrow> nat \<Rightarrow> heap_node list \<times> nat" where
  "sift_up ns off i =
     (if 0 < i \<and> off < hoffset (ns ! parent i) then sift_up (ns[i := ns ! parent i]) off (parent i)
      else (ns, i))"
  by pat_completeness auto
termination
  by (relation "measure (\<lambda>(ns, off, i). i)") (auto simp: parent_def)

declare sift_up.simps [simp del]

text \<open>Writing past the array is undefined, which is \<open>None\<close>.\<close>

definition ADIOI_Heap_insert :: "heap \<Rightarrow> heap_node \<Rightarrow> heap option" where
  "ADIOI_Heap_insert h x =
     (if hsize h < length (nodes h) then
        (case sift_up (nodes h) (hoffset x) (hsize h) of (ns, i) \<Rightarrow>
           Some (h\<lparr>nodes := ns[i := x], hsize := Suc (hsize h)\<rparr>))
      else None)"

text \<open>\<open>None\<close>: the assertion \<open>size > 0\<close> fails, or an access is out of bounds.\<close>

definition ADIOI_Heap_extract_min :: "heap \<Rightarrow> (heap_node \<times> heap) option" where
  "ADIOI_Heap_extract_min h =
     (if 0 < hsize h \<and> hsize h \<le> length (nodes h) then do {
        let x = nodes h ! 0;
        ns \<leftarrow> heapify (hsize h - 1) ((nodes h)[0 := nodes h ! (hsize h - 1)]) 0;
        Some (x, h\<lparr>nodes := ns, hsize := hsize h - 1\<rparr>) }
      else None)"

section \<open>What a merge relies on\<close>

fun insert_all :: "('q \<Rightarrow> 'a \<Rightarrow> 'q option) \<Rightarrow> 'q \<Rightarrow> 'a list \<Rightarrow> 'q option" where
  "insert_all ins q [] = Some q"
| "insert_all ins q (x # xs) = do { q' \<leftarrow> ins q x; insert_all ins q' xs }"

fun drain :: "('q \<Rightarrow> ('a \<times> 'q) option) \<Rightarrow> nat \<Rightarrow> 'q \<Rightarrow> ('a list \<times> 'q) option" where
  "drain ext 0 q = Some ([], q)"
| "drain ext (Suc n) q = do { (x, q') \<leftarrow> ext q; (xs, q'') \<leftarrow> drain ext n q'; Some (x # xs, q'') }"

locale min_queue =
  fixes invar :: "'q \<Rightarrow> bool" and elems :: "'q \<Rightarrow> 'a multiset" and room :: "'q \<Rightarrow> nat"
    and key :: "'a \<Rightarrow> int" and ins :: "'q \<Rightarrow> 'a \<Rightarrow> 'q option" and ext :: "'q \<Rightarrow> ('a \<times> 'q) option"
  assumes ins_ok: "invar q \<Longrightarrow> 0 < room q \<Longrightarrow>
      \<exists>q'. ins q x = Some q' \<and> invar q' \<and> elems q' = add_mset x (elems q) \<and> Suc (room q') = room q"
    and ext_ok: "invar q \<Longrightarrow> elems q \<noteq> {#} \<Longrightarrow>
      \<exists>x q'. ext q = Some (x, q') \<and> invar q' \<and> elems q = add_mset x (elems q') \<and> (\<forall>y \<in># elems q. key x \<le> key y)"
begin

lemma insert_all_ok:
  "invar q \<Longrightarrow> length xs \<le> room q \<Longrightarrow>
   \<exists>q'. insert_all ins q xs = Some q' \<and> invar q' \<and> elems q' = mset xs + elems q"
proof (induction xs arbitrary: q)
  case Nil
  then show ?case by simp
next
  case (Cons x xs)
  then obtain q1 where q1: "ins q x = Some q1" "invar q1" "elems q1 = add_mset x (elems q)" "Suc (room q1) = room q"
    using ins_ok [of q x] by auto
  with Cons show ?case by (auto dest!: Cons.IH [of q1])
qed

lemma drain_ok:
  "invar q \<Longrightarrow> size (elems q) = n \<Longrightarrow>
   \<exists>xs q'. drain ext n q = Some (xs, q') \<and> mset xs = elems q \<and> sorted (map key xs) \<and> elems q' = {#}"
proof (induction n arbitrary: q)
  case 0
  then show ?case by simp
next
  case (Suc n)
  then have "elems q \<noteq> {#}" by auto
  then obtain x q1 where x: "ext q = Some (x, q1)" "invar q1" "elems q = add_mset x (elems q1)"
      "\<forall>y \<in># elems q. key x \<le> key y"
    using ext_ok [OF Suc.prems(1)] by blast
  then obtain xs q' where r: "drain ext n q1 = Some (xs, q')" "mset xs = elems q1" "sorted (map key xs)" "elems q' = {#}"
    using Suc.IH [OF x(2)] Suc.prems(2) by auto
  have "\<forall>y \<in> set xs. key x \<le> key y" using x(3,4) r(2) by (metis set_mset_mset union_iff set_mset_add_mset_insert insertCI)
  with r x show ?case by auto
qed

lemma sorts:
  assumes "invar q" "elems q = {#}" "length xs \<le> room q"
  shows "\<exists>q1 ys q2. insert_all ins q xs = Some q1 \<and> drain ext (length xs) q1 = Some (ys, q2) \<and>
     mset ys = mset xs \<and> sorted (map key ys)"
proof -
  obtain q1 where q1: "insert_all ins q xs = Some q1" "invar q1" "elems q1 = mset xs"
    using insert_all_ok [OF assms(1,3)] assms(2) by auto
  with drain_ok [OF q1(2), of "length xs"] show ?thesis by auto
qed

end

section \<open>The heap property\<close>

definition heap_ok :: "heap_node list \<Rightarrow> nat \<Rightarrow> bool" where
  "heap_ok ns n \<longleftrightarrow> n \<le> length ns \<and> (\<forall>j. 0 < j \<and> j < n \<longrightarrow> hoffset (ns ! parent j) \<le> hoffset (ns ! j))"

text \<open>
  The heap property everywhere but below \<open>i\<close>; what is below \<open>i\<close> is not less than the parent of
  \<open>i\<close>. The slot behind the heap, which \<open>heapify\<close> also compares with, holds the node that
  moves down.
\<close>

definition heap_below :: "heap_node list \<Rightarrow> nat \<Rightarrow> nat \<Rightarrow> bool" where
  "heap_below ns n i \<longleftrightarrow> n < length ns \<and> (i < n \<or> i = 0) \<and> hoffset (ns ! n) = hoffset (ns ! i) \<and>
     (\<forall>j. 0 < j \<and> j < n \<and> parent j \<noteq> i \<longrightarrow> hoffset (ns ! parent j) \<le> hoffset (ns ! j)) \<and>
     (0 < i \<longrightarrow> (\<forall>j. j < n \<and> parent j = i \<longrightarrow> hoffset (ns ! parent i) \<le> hoffset (ns ! j)))"

lemma parent_less: "0 < i \<Longrightarrow> parent i < i"
  by (simp add: parent_def)

lemma child_cases: "parent j = i \<longleftrightarrow> j = left i \<or> j = right i"
  by (auto simp: parent_def left_def right_def)

lemma smaller_eq:
  "n < length ns \<Longrightarrow> x \<le> n \<Longrightarrow> smaller ns n c x = Some (c \<le> n \<and> hoffset (ns ! c) < hoffset (ns ! x))"
  by (auto simp: smaller_def rd_def)

lemma smallest_ok:
  assumes "heap_below ns n i"
  shows "\<exists>s. smallest ns n i = Some s \<and> (s = i \<or> s < n) \<and>
    (\<forall>j. j < n \<and> parent j = i \<longrightarrow> hoffset (ns ! s) \<le> hoffset (ns ! j)) \<and> hoffset (ns ! s) \<le> hoffset (ns ! i)"
proof -
  have i: "n < length ns" "i \<le> n" and st: "hoffset (ns ! n) = hoffset (ns ! i)"
    using assms by (auto simp: heap_below_def)
  let ?bl = "left i \<le> n \<and> hoffset (ns ! left i) < hoffset (ns ! i)"
  define s where "s = (if ?bl then left i else i)"
  let ?br = "right i \<le> n \<and> hoffset (ns ! right i) < hoffset (ns ! s)"
  have s: "s \<le> n" "s = i \<or> s < n" "hoffset (ns ! s) \<le> hoffset (ns ! i)"
    using i st by (auto simp: s_def le_less)
  have "smallest ns n i = Some (if ?br then right i else s)"
    using i s(1) by (simp add: smallest_def smaller_eq Let_def flip: s_def)
  moreover have "?br \<Longrightarrow> right i < n" using s(3) st by (cases "right i = n") auto
  moreover have "hoffset (ns ! s) \<le> hoffset (ns ! left i)" if "left i < n" using that by (auto simp: s_def)
  ultimately show ?thesis using s by (auto simp: child_cases)
qed

lemma heapify_ok:
  "heap_below ns n i \<Longrightarrow>
   \<exists>ns'. heapify n ns i = Some ns' \<and> heap_ok ns' n \<and> mset (take n ns') = mset (take n ns) \<and> length ns' = length ns"
proof (induction n ns i rule: heapify.induct)
  case (1 n ns i)
  obtain s where s: "smallest ns n i = Some s" "s = i \<or> s < n" "hoffset (ns ! s) \<le> hoffset (ns ! i)"
      "\<forall>j. j < n \<and> parent j = i \<longrightarrow> hoffset (ns ! s) \<le> hoffset (ns ! j)"
    using smallest_ok [OF "1.prems"] by blast
  note b = "1.prems" [unfolded heap_below_def]
  show ?case
  proof (cases "s = i")
    case True
    have "hoffset (ns ! parent j) \<le> hoffset (ns ! j)" if "0 < j" "j < n" for j
      using b s(4) True that by (cases "parent j = i") auto
    then have "heap_ok ns n" using b by (simp add: heap_ok_def)
    with True s(1) show ?thesis by (simp add: heapify.simps [of n ns i])
  next
    case False
    let ?ns = "ns[i := ns ! s, s := ns ! i]"
    have sc: "parent s = i" "i < s" "s < n" "hoffset (ns ! s) < hoffset (ns ! i)"
      using smallest_cases [OF s(1)] False s(2) by (auto simp: child_cases)
    have nth: "?ns ! j = (if j = s then ns ! i else if j = i then ns ! s else ns ! j)" if "j < length ns" for j
      using that sc(2,3) b by (auto simp: nth_list_update)
    have "heap_below ?ns n s" unfolding heap_below_def
    proof (intro conjI allI impI)
      show "n < length ?ns" "s < n \<or> s = 0" "hoffset (?ns ! n) = hoffset (?ns ! s)"
        using b sc nth by auto
      fix j
      assume j: "0 < j \<and> j < n \<and> parent j \<noteq> s"
      then have l: "j < length ns" "parent j < length ns" "parent j < j" using b parent_less [of j] by auto
      consider "j = s" | "j = i" "0 < i" | "j \<noteq> s" "j \<noteq> i" "parent j = i" | "j \<noteq> s" "j \<noteq> i" "parent j \<noteq> i"
        using j by auto
      then show "hoffset (?ns ! parent j) \<le> hoffset (?ns ! j)"
        unfolding nth [OF l(1)] nth [OF l(2)] using j b s(3,4) sc l(3) by cases auto
    next
      fix j
      assume j: "j < n \<and> parent j = s"
      then have "parent j < j" using sc(2) parent_less [of j] by (cases j) (auto simp: parent_def)
      then show "hoffset (?ns ! parent s) \<le> hoffset (?ns ! j)"
        using j b sc nth [of j] nth [of i] by auto
    qed
    then obtain ns' where "heapify n ?ns s = Some ns'" "heap_ok ns' n" "mset (take n ns') = mset (take n ?ns)"
        "length ns' = length ?ns"
      using "1.IH" [OF s(1) False] by blast
    moreover have "take n ?ns = (take n ns)[i := take n ns ! s, s := take n ns ! i]"
      using sc by (simp add: take_update_swap)
    then have "mset (take n ?ns) = mset (take n ns)" using mset_swap [of s "take n ns" i] b sc by simp
    ultimately show ?thesis using s(1) False by (simp add: heapify.simps [of n ns i])
  qed
qed

text \<open>The heap while the hole is at \<open>i\<close> and a node with offset \<open>off\<close> is to be put there.\<close>

definition heap_hole :: "heap_node list \<Rightarrow> nat \<Rightarrow> nat \<Rightarrow> ADIO_Offset \<Rightarrow> bool" where
  "heap_hole ns n i off \<longleftrightarrow> n < length ns \<and> i \<le> n \<and>
     (\<forall>j. 0 < j \<and> j \<le> n \<and> j \<noteq> i \<and> parent j \<noteq> i \<longrightarrow> hoffset (ns ! parent j) \<le> hoffset (ns ! j)) \<and>
     (\<forall>j. 0 < j \<and> j \<le> n \<and> parent j = i \<longrightarrow> off \<le> hoffset (ns ! j) \<and> (0 < i \<longrightarrow> hoffset (ns ! parent i) \<le> hoffset (ns ! j)))"

lemma heap_hole_fill:
  assumes h: "heap_hole ns n i (hoffset x)" and p: "0 < i \<Longrightarrow> hoffset (ns ! parent i) \<le> hoffset x"
  shows "heap_ok (ns[i := x]) (Suc n)"
  unfolding heap_ok_def
proof (intro conjI allI impI)
  show "Suc n \<le> length (ns[i := x])" using h by (simp add: heap_hole_def)
  fix j
  assume j: "0 < j \<and> j < Suc n"
  then have "parent j < j" by (simp add: parent_less)
  then have l: "j < length ns" "parent j < length ns" using h j by (auto simp: heap_hole_def)
  consider "j = i" | "j \<noteq> i" "parent j = i" | "j \<noteq> i" "parent j \<noteq> i" by blast
  then show "hoffset (ns[i := x] ! parent j) \<le> hoffset (ns[i := x] ! j)"
    using h p j l \<open>parent j < j\<close> by cases (auto simp: heap_hole_def)
qed

lemma heap_hole_up:
  assumes h: "heap_hole ns n i off" and i: "0 < i" "off < hoffset (ns ! parent i)"
  shows "heap_hole (ns[i := ns ! parent i]) n (parent i) off"
  unfolding heap_hole_def
proof (intro conjI allI impI)
  let ?p = "parent i" and ?ns = "ns[i := ns ! parent i]"
  have pi: "?p < i" "i \<le> n" "n < length ns" using h i parent_less by (auto simp: heap_hole_def)
  show "n < length ?ns" "?p \<le> n" using pi by simp_all
  fix j
  {
    assume j: "0 < j \<and> j \<le> n \<and> j \<noteq> ?p \<and> parent j \<noteq> ?p"
    then have "j \<noteq> i" by auto
    then show "hoffset (?ns ! parent j) \<le> hoffset (?ns ! j)"
      using h j i pi by (cases "parent j = i") (auto simp: heap_hole_def)
  next
    assume j: "0 < j \<and> j \<le> n \<and> parent j = ?p"
    have le: "hoffset (ns ! ?p) \<le> hoffset (?ns ! j)"
      using h j pi by (cases "j = i") (auto simp: heap_hole_def)
    then show "off \<le> hoffset (?ns ! j)" using i(2) by simp
    assume p: "0 < ?p"
    then have "parent ?p < ?p" by (rule parent_less)
    then have "hoffset (ns ! parent ?p) \<le> hoffset (ns ! ?p)" using h p pi by (auto simp: heap_hole_def)
    with le show "hoffset (?ns ! parent ?p) \<le> hoffset (?ns ! j)" using \<open>parent ?p < ?p\<close> pi by simp
  }
qed

lemma sift_up_ok:
  "heap_hole ns n i (hoffset x) \<Longrightarrow> sift_up ns (hoffset x) i = (ns', i') \<Longrightarrow>
   heap_ok (ns'[i' := x]) (Suc n) \<and> length ns' = length ns \<and>
   mset (take (Suc n) (ns'[i' := x])) = mset (take (Suc n) (ns[i := x]))"
proof (induction ns "hoffset x" i rule: sift_up.induct)
  case (1 ns i)
  show ?case
  proof (cases "0 < i \<and> hoffset x < hoffset (ns ! parent i)")
    case False
    with 1 heap_hole_fill [OF "1.prems"(1)] show ?thesis by (auto simp: sift_up.simps [of ns _ i])
  next
    case True
    let ?p = "parent i" and ?ns = "ns[i := ns ! parent i]"
    have h: "heap_hole ?ns n ?p (hoffset x)" using heap_hole_up [OF "1.prems"(1)] True by blast
    have pi: "?p < i" "i \<le> n" "n < length ns"
      using "1.prems"(1) True parent_less by (auto simp: heap_hole_def)
    have "take (Suc n) (?ns[?p := x]) = (take (Suc n) (ns[i := x]))[?p := take (Suc n) (ns[i := x]) ! i,
        i := take (Suc n) (ns[i := x]) ! ?p]"
      using pi by (auto intro!: nth_equalityI simp: nth_list_update)
    then have "mset (take (Suc n) (?ns[?p := x])) = mset (take (Suc n) (ns[i := x]))"
      using mset_swap [of i "take (Suc n) (ns[i := x])" ?p] pi by simp
    with "1.hyps" [OF True h] "1.prems"(2) True show ?thesis by (auto simp: sift_up.simps [of ns _ i])
  qed
qed

section \<open>The heap is a min-queue\<close>

definition heap_inv :: "heap \<Rightarrow> bool" where
  "heap_inv h \<longleftrightarrow> heap_ok (nodes h) (hsize h)"

definition heap_elems :: "heap \<Rightarrow> heap_node multiset" where
  "heap_elems h = mset (take (hsize h) (nodes h))"

definition heap_room :: "heap \<Rightarrow> nat" where
  "heap_room h = length (nodes h) - hsize h"

lemma heap_insert_ok:
  assumes "heap_inv h" "0 < heap_room h"
  shows "\<exists>h'. ADIOI_Heap_insert h x = Some h' \<and> heap_inv h' \<and>
     heap_elems h' = add_mset x (heap_elems h) \<and> Suc (heap_room h') = heap_room h"
proof -
  let ?n = "hsize h"
  have l: "?n < length (nodes h)" using assms(2) by (simp add: heap_room_def)
  obtain ns i where s: "sift_up (nodes h) (hoffset x) ?n = (ns, i)" by fastforce
  have "parent j \<noteq> ?n" if "0 < j" "j \<le> ?n" for j using parent_less [OF that(1)] that by auto
  then have "heap_hole (nodes h) ?n ?n (hoffset x)"
    using assms(1) l by (auto simp: heap_hole_def heap_inv_def heap_ok_def)
  note r = sift_up_ok [OF this s]
  have "mset (take (Suc ?n) ((nodes h)[?n := x])) = add_mset x (heap_elems h)"
    using l by (simp add: heap_elems_def take_Suc_conv_app_nth)
  with r l s show ?thesis
    by (auto simp: ADIOI_Heap_insert_def heap_inv_def heap_elems_def heap_room_def)
qed

lemma heap_min:
  "heap_ok ns n \<Longrightarrow> j < n \<Longrightarrow> hoffset (ns ! 0) \<le> hoffset (ns ! j)"
proof (induction j rule: less_induct)
  case (less j)
  show ?case
  proof (cases "j = 0")
    case False
    then have "parent j < j" by (simp add: parent_less)
    then have "hoffset (ns ! 0) \<le> hoffset (ns ! parent j)" using less by simp
    moreover have "hoffset (ns ! parent j) \<le> hoffset (ns ! j)" using less.prems False by (simp add: heap_ok_def)
    ultimately show ?thesis by simp
  qed simp
qed

lemma heap_extract_ok:
  assumes inv: "heap_inv h" and ne: "heap_elems h \<noteq> {#}"
  shows "\<exists>x h'. ADIOI_Heap_extract_min h = Some (x, h') \<and> heap_inv h' \<and>
     heap_elems h = add_mset x (heap_elems h') \<and> (\<forall>y \<in># heap_elems h. hoffset x \<le> hoffset y)"
proof -
  let ?n = "hsize h - 1" and ?ns = "(nodes h)[0 := nodes h ! (hsize h - 1)]"
  have n: "0 < hsize h" "hsize h \<le> length (nodes h)"
    using inv ne by (auto simp: heap_elems_def heap_inv_def heap_ok_def)
  have "heap_below ?ns ?n 0"
  proof -
    have l: "length (nodes h) \<noteq> 0" using n by auto
    have "hoffset (?ns ! parent j) \<le> hoffset (?ns ! j)" if "0 < j" "j < ?n" "parent j \<noteq> 0" for j
      using inv that by (simp add: heap_inv_def heap_ok_def)
    then show ?thesis using n l by (auto simp: heap_below_def nth_list_update)
  qed
  then obtain ns where h: "heapify ?n ?ns 0 = Some ns" "heap_ok ns ?n" "mset (take ?n ns) = mset (take ?n ?ns)"
    using heapify_ok by blast
  have "mset (take (hsize h) (nodes h)) = add_mset (nodes h ! 0) (mset (take ?n ?ns))"
  proof (cases "?n = 0")
    case True
    then have "hsize h = Suc 0" using n by simp
    then show ?thesis using n by (cases "nodes h") auto
  next
    case False
    then obtain y ys where ns: "nodes h = y # ys" "?n = Suc (?n - 1)" "?n - 1 < length ys"
      using n by (cases "nodes h") auto
    then have "hsize h = Suc (Suc (?n - 1))" using n by simp
    then show ?thesis using ns by (simp add: take_Suc_conv_app_nth take_Cons')
  qed
  then have "heap_elems h = add_mset (nodes h ! 0) (heap_elems (h\<lparr>nodes := ns, hsize := ?n\<rparr>))"
    using h(3) by (simp add: heap_elems_def)
  moreover have "\<forall>y \<in># heap_elems h. hoffset (nodes h ! 0) \<le> hoffset y"
    using heap_min [OF inv [unfolded heap_inv_def]] n by (auto simp: heap_elems_def in_set_conv_nth)
  moreover have "ADIOI_Heap_extract_min h = Some (nodes h ! 0, h\<lparr>nodes := ns, hsize := ?n\<rparr>)"
    using n h(1) by (simp add: ADIOI_Heap_extract_min_def Let_def)
  moreover have "heap_inv (h\<lparr>nodes := ns, hsize := ?n\<rparr>)" using h(2) by (simp add: heap_inv_def)
  ultimately show ?thesis by blast
qed

interpretation hq: min_queue heap_inv heap_elems heap_room hoffset ADIOI_Heap_insert ADIOI_Heap_extract_min
  by unfold_locales (simp_all add: heap_insert_ok heap_extract_ok)

section \<open>Properties\<close>

text \<open>
  C26: Inserting any nodes into a fresh heap with room for them and extracting as many returns
  them all, sorted by offset, without an access outside the array. This is so although
  \<open>heapify\<close> also compares with the slot behind the heap: that slot then holds the node that
  moves down, so the comparison fails.
\<close>

theorem heap_sorts:
  assumes "length xs \<le> c"
  shows "\<exists>h1 ys h2. insert_all ADIOI_Heap_insert ((ADIOI_Heap_create c)\<lparr>hsize := 0\<rparr>) xs = Some h1 \<and>
     drain ADIOI_Heap_extract_min (length xs) h1 = Some (ys, h2) \<and> mset ys = mset xs \<and> sorted (map hoffset ys)"
  by (rule hq.sorts)
    (use assms in \<open>simp_all add: ADIOI_Heap_create_def heap_inv_def heap_ok_def heap_elems_def heap_room_def\<close>)

theorem heap_sorts_witness:
  "\<exists>h1 ys h2. insert_all ADIOI_Heap_insert ((ADIOI_Heap_create 3)\<lparr>hsize := 0\<rparr>)
      (map (\<lambda>x. \<lparr>hoffset = x, hproc = 0, reg_max_len = 1\<rparr>) [9, 4, 7]) = Some h1 \<and>
     drain ADIOI_Heap_extract_min (length [9, 4, 7 :: int]) h1 = Some (ys, h2) \<and>
     mset ys = mset (map (\<lambda>x. \<lparr>hoffset = x, hproc = 0, reg_max_len = 1\<rparr>) [9, 4, 7]) \<and> sorted (map hoffset ys)"
  using heap_sorts [of "map (\<lambda>x. \<lparr>hoffset = x, hproc = 0, reg_max_len = 1\<rparr>) [9, 4, 7]" 3]
  unfolding length_map by simp

text \<open>
  C27: An interleaving of insertions and extractions, as in the merge of the offset lists: from
  any heap that is in order, an insertion into a heap with room keeps it in order and adds
  exactly the new node, and an extraction removes exactly one node, one with the least offset.
\<close>

theorem heap_operations:
  assumes "heap_inv h"
  shows "(0 < heap_room h \<longrightarrow> (\<exists>h'. ADIOI_Heap_insert h x = Some h' \<and> heap_inv h' \<and>
       heap_elems h' = add_mset x (heap_elems h))) \<and>
     (heap_elems h \<noteq> {#} \<longrightarrow> (\<exists>y h'. ADIOI_Heap_extract_min h = Some (y, h') \<and> heap_inv h' \<and>
       heap_elems h = add_mset y (heap_elems h') \<and> (\<forall>z \<in># heap_elems h. hoffset y \<le> hoffset z)))"
  using heap_insert_ok [OF assms] heap_extract_ok [OF assms] by blast

theorem heap_operations_witness:
  "\<exists>h'. ADIOI_Heap_insert ((ADIOI_Heap_create 2)\<lparr>hsize := 1\<rparr>) \<lparr>hoffset = 5, hproc = 1, reg_max_len = 2\<rparr> = Some h' \<and>
     heap_elems h' = {#\<lparr>hoffset = 5, hproc = 1, reg_max_len = 2\<rparr>, \<lparr>hoffset = 0, hproc = 0, reg_max_len = 0\<rparr>#}"
  using heap_operations [of "(ADIOI_Heap_create 2)\<lparr>hsize := 1\<rparr>" "\<lparr>hoffset = 5, hproc = 1, reg_max_len = 2\<rparr>"]
  by (auto simp: heap_inv_def heap_ok_def heap_room_def heap_elems_def ADIOI_Heap_create_def numeral_2_eq_2)

text \<open>
  \<open>build_heap\<close>, which nothing calls, would read past the end of a full array, because of the
  comparison with \<open>size\<close> in \<open>heapify\<close>.
\<close>

lemma build_heap_overrun:
  "build_heap \<lparr>nodes = [\<lparr>hoffset = 2, hproc = 0, reg_max_len = 0\<rparr>, \<lparr>hoffset = 1, hproc = 0, reg_max_len = 0\<rparr>], hsize = 2\<rparr> = None"
  by (simp add: build_heap_def heapify.simps smallest_def smaller_def rd_def left_def right_def)

end
