(* ===== verification/Aggregation.thy ===== *)
theory Aggregation
  imports E10_Prelude "HOL-Library.Multiset"
begin

text \<open>
  The division of a collective access among the aggregators
  (\<open>romio/adio/common/ad_aggregate.c\<close>): the file domains, the aggregator of an offset, the
  requests of a process sorted by aggregator, and the exchange that tells each aggregator what
  the others ask of it. An array of file domains is the list of its \<open>(fd_start[i], fd_end[i])\<close>
  pairs. \<open>None\<close> is a call that aborts, divides by zero or leaves an array.
\<close>

section \<open>File domains\<close>

text \<open>The last boundary at or below, or the first above, whichever is nearer (C remainder).\<close>

definition align_end :: "int \<Rightarrow> int \<Rightarrow> int" where
  "align_end unit e = (let rem_front = e smod unit; rem_back = unit - rem_front in
     if rem_front < rem_back then e - rem_front else e + rem_back)"

fun plain_domains :: "nat \<Rightarrow> int \<Rightarrow> int \<Rightarrow> (int \<times> int) list" where
  "plain_domains 0 fd_size start = []"
| "plain_domains (Suc n) fd_size start =
     (start, start + fd_size - 1) # plain_domains n fd_size (start + fd_size)"

fun striped_domains :: "nat \<Rightarrow> int \<Rightarrow> int \<Rightarrow> int \<Rightarrow> int \<Rightarrow> int \<Rightarrow> (int \<times> int) list" where
  "striped_domains 0 unit fd_size min_st i start = []"
| "striped_domains (Suc n) unit fd_size min_st i start =
     (let e = align_end unit (min_st + fd_size * (i + 1)) - 1
      in (start, e) # striped_domains n unit fd_size min_st (i + 1) (e + 1))"

definition set_last_end :: "int \<Rightarrow> (int \<times> int) list \<Rightarrow> (int \<times> int) list" where
  "set_last_end e ds = butlast ds @ [(fst (last ds), e)]"

definition clip_domain :: "int \<Rightarrow> int \<times> int \<Rightarrow> int \<times> int" where
  "clip_domain max_end d =
     (let d' = (if fst d > max_end then (-1, -1) else d)
      in if snd d' > max_end then (fst d', max_end) else d')"

text \<open>
  \<open>sts\<close> and \<open>ends\<close> are the start and end offsets of all processes, \<open>n\<close> is \<open>nprocs_for_coll\<close>. The
  result is the least start offset, the size of a domain and the domains.
\<close>

definition ADIOI_Calc_file_domains ::
  "int list \<Rightarrow> int list \<Rightarrow> nat \<Rightarrow> int \<Rightarrow> int \<Rightarrow> (int \<times> int \<times> (int \<times> int) list) option" where
  "ADIOI_Calc_file_domains sts ends n min_fd_size striping_unit =
     (case (sts, ends) of
       (st # sts', en # ends') \<Rightarrow>
         if n = 0 then None
         else
           (let min_st = fold (\<lambda>s m. min m s) sts' st;
                max_end = fold (\<lambda>e m. max m e) ends' en;
                size0 = ((max_end - min_st + 1) + int n - 1) sdiv int n;
                fd_size = (if size0 < min_fd_size then min_fd_size else size0);
                ds = (if striping_unit > 0
                      then set_last_end max_end (striped_domains n striping_unit fd_size min_st 0 min_st)
                      else plain_domains n fd_size min_st)
            in Some (min_st, fd_size, map (clip_domain max_end) ds))
     | _ \<Rightarrow> None)"

section \<open>The aggregator of an offset\<close>

record agg_hints =
  striping_unit :: int
  cb_nodes :: int
  ranklist :: "nat list"

fun find_domain :: "(int \<times> int) list \<Rightarrow> int \<Rightarrow> nat option" where
  "find_domain [] off = None"
| "find_domain (d # ds) off = (if off > snd d then map_option Suc (find_domain ds off) else Some 0)"

definition domain_index :: "agg_hints \<Rightarrow> int \<Rightarrow> int \<Rightarrow> int \<Rightarrow> (int \<times> int) list \<Rightarrow> int option" where
  "domain_index h off min_off fd_size ds =
     (if fd_size = 0 then None
      else if striping_unit h > 0 then map_option int (find_domain ds off)
      else Some ((off - min_off + fd_size) sdiv fd_size - 1))"

definition ADIOI_Calc_aggregator ::
  "agg_hints \<Rightarrow> int \<Rightarrow> int \<Rightarrow> (int \<times> int) list \<Rightarrow> int \<Rightarrow> int \<Rightarrow> (nat \<times> int) option" where
  "ADIOI_Calc_aggregator h min_off fd_size ds off len = do {
     rank_index \<leftarrow> domain_index h off min_off fd_size ds;
     if rank_index \<ge> cb_nodes h \<or> rank_index < 0 \<or> nat rank_index \<ge> length ds \<or> nat rank_index \<ge> length (ranklist h)
     then None
     else (let avail_bytes = snd (ds ! nat rank_index) + 1 - off
           in Some (ranklist h ! nat rank_index, if avail_bytes < len then avail_bytes else len)) }"

section \<open>The requests of a process, by aggregator\<close>

text \<open>
  The pieces of one contiguous access: the loop over \<open>rem_len\<close>. A piece is the rank of its
  aggregator, its offset and its length. The loop need not end when an aggregator offers no
  byte, hence the fuel; \<open>None\<close> also stands for a loop that has not ended.
\<close>

fun access_pieces ::
  "nat \<Rightarrow> (int \<Rightarrow> int \<Rightarrow> (nat \<times> int) option) \<Rightarrow> int \<Rightarrow> int \<Rightarrow> (nat \<times> int \<times> int) list option" where
  "access_pieces 0 agg off len = None"
| "access_pieces (Suc n) agg off len = do {
     (proc, fd_len) \<leftarrow> agg off len;
     if len - fd_len = 0 then Some [(proc, off, fd_len)]
     else do { ps \<leftarrow> access_pieces n agg (off + fd_len) (len - fd_len); Some ((proc, off, fd_len) # ps) } }"

text \<open>All accesses of the process, those of length 0 skipped.\<close>

fun all_pieces ::
  "(int \<Rightarrow> int \<Rightarrow> (nat \<times> int) option) \<Rightarrow> (int \<times> int) list \<Rightarrow> (nat \<times> int \<times> int) list option" where
  "all_pieces agg [] = Some []"
| "all_pieces agg ((off, len) # as) =
     (if len = 0 then all_pieces agg as
      else do { ps \<leftarrow> access_pieces (nat len) agg off len; qs \<leftarrow> all_pieces agg as; Some (ps @ qs) })"

text \<open>The first pass: how many pieces go to each process.\<close>

fun count_pass :: "(nat \<times> int \<times> int) list \<Rightarrow> nat list \<Rightarrow> nat list option" where
  "count_pass [] cnt = Some cnt"
| "count_pass ((p, off, l) # ps) cnt =
     (if p < length cnt then count_pass ps (cnt[p := cnt ! p + 1]) else None)"

text \<open>
  The second pass fills the arrays allocated for \<open>cnt\<close> pieces. \<open>req ! p\<close> is the list of the
  offsets and lengths stored so far for process \<open>p\<close>; storing more than was allocated is an
  overrun. \<open>buf_idx ! p\<close> is the position in the user buffer of the first byte for \<open>p\<close>.
\<close>

fun fill_pass ::
  "nat list \<Rightarrow> (nat \<times> int \<times> int) list \<Rightarrow> (int \<times> int) list list \<Rightarrow> int list \<Rightarrow> int \<Rightarrow>
   ((int \<times> int) list list \<times> int list) option" where
  "fill_pass cnt [] req buf_idx cur = Some (req, buf_idx)"
| "fill_pass cnt ((p, off, l) # ps) req buf_idx cur =
     (if p \<ge> length req \<or> p \<ge> length buf_idx \<or> p \<ge> length cnt \<or> length (req ! p) \<ge> cnt ! p then None
      else if buf_idx ! p = -1 \<and> cur > INT_MAX then None
      else fill_pass cnt ps (req[p := req ! p @ [(off, l)]])
             (if buf_idx ! p = -1 then buf_idx[p := cur] else buf_idx) (cur + l))"

text \<open>
  The result is \<open>count_my_req_procs\<close>, \<open>count_my_req_per_proc\<close>, \<open>my_req\<close> and \<open>buf_idx\<close>. The two
  passes of the source compute the same pieces.
\<close>

definition ADIOI_Calc_my_req ::
  "agg_hints \<Rightarrow> (int \<times> int) list \<Rightarrow> int \<Rightarrow> (int \<times> int) list \<Rightarrow> int \<Rightarrow> nat \<Rightarrow>
   (nat \<times> nat list \<times> (int \<times> int) list list \<times> int list) option" where
  "ADIOI_Calc_my_req h accesses min_st ds fd_size nprocs = do {
     ps \<leftarrow> all_pieces (ADIOI_Calc_aggregator h min_st fd_size ds) accesses;
     cnt \<leftarrow> count_pass ps (replicate nprocs 0);
     (req, buf_idx) \<leftarrow> fill_pass cnt ps (replicate nprocs []) (replicate nprocs (-1)) 0;
     Some (length (filter (\<lambda>c. c \<noteq> 0) cnt), cnt, req, buf_idx) }"

section \<open>The exchange of the requests\<close>

text \<open>
  A message is its source, destination, tag and content. Process \<open>r\<close> sends to \<open>i\<close>, when it has
  requests for it, its offsets with tag \<open>i + r\<close> and its lengths with tag \<open>i + r + 1\<close>.
\<close>

type_synonym message = "nat \<times> nat \<times> nat \<times> int list"

definition send_reqs :: "nat \<Rightarrow> (int \<times> int) list list \<Rightarrow> message list" where
  "send_reqs r req = concat (map (\<lambda>i. if req ! i = [] then []
     else [(r, i, i + r, map fst (req ! i)), (r, i, i + r + 1, map snd (req ! i))]) [0..<length req])"

text \<open>A receive takes the first message from the source with the tag.\<close>

definition recv_msg :: "message list \<Rightarrow> nat \<Rightarrow> nat \<Rightarrow> nat \<Rightarrow> int list option" where
  "recv_msg net src dst tag =
     map_option (\<lambda>(_, _, _, c). c) (List.find (\<lambda>(s, d, t, c). s = src \<and> d = dst \<and> t = tag) net)"

text \<open>
  \<open>reqs ! r\<close> is \<open>my_req\<close> of process \<open>r\<close>; all processes take part. \<open>MPI_Alltoall\<close> gives process \<open>p\<close>
  the number of requests each process has for it, and the messages carry them. The result is
  \<open>count_others_req_procs\<close> and \<open>others_req\<close> of process \<open>p\<close>.
\<close>

definition ADIOI_Calc_others_req ::
  "(int \<times> int) list list list \<Rightarrow> nat \<Rightarrow> (nat \<times> (int \<times> int) list list) option" where
  "ADIOI_Calc_others_req reqs p =
     (let net = concat (map (\<lambda>r. send_reqs r (reqs ! r)) [0..<length reqs]);
          cnt = map (\<lambda>r. length (reqs ! r ! p)) [0..<length reqs];
          recv = (\<lambda>i. if cnt ! i = 0 then Some [] else do {
             offs \<leftarrow> recv_msg net i p (i + p);
             lens \<leftarrow> recv_msg net i p (i + p + 1);
             if length offs = cnt ! i \<and> length lens = cnt ! i then Some (zip offs lens) else None })
      in map_option (\<lambda>rs. (length (filter (\<lambda>c. c \<noteq> 0) cnt), rs)) (those (map recv [0..<length reqs])))"

section \<open>The domains cover the access\<close>

fun chain :: "int \<Rightarrow> (int \<times> int) list \<Rightarrow> bool" where
  "chain s [] = True"
| "chain s (d # ds) = (fst d = s \<and> chain (snd d + 1) ds)"

lemma chain_plain: "chain s (plain_domains n fs s)"
  by (induction n arbitrary: s) auto

lemma chain_striped: "chain s (striped_domains n u fs mn i s)"
  by (induction n arbitrary: s i) (auto simp: Let_def)

lemma chain_set_last: "chain s ds \<Longrightarrow> ds \<noteq> [] \<Longrightarrow> chain s (set_last_end e ds)"
proof (induction ds arbitrary: s)
  case (Cons d ds)
  then show ?case by (cases ds) (auto simp: set_last_end_def)
qed simp

lemma find_domain_clip:
  "chain s ds \<Longrightarrow> ds \<noteq> [] \<Longrightarrow> s \<le> off \<Longrightarrow> off \<le> hi \<Longrightarrow> hi \<le> snd (last ds) \<Longrightarrow>
   \<exists>i. find_domain (map (clip_domain hi) ds) off = Some i \<and> i < length ds \<and>
     fst (map (clip_domain hi) ds ! i) \<le> off \<and> off \<le> snd (map (clip_domain hi) ds ! i)"
proof (induction ds arbitrary: s)
  case (Cons d ds)
  obtain a b where d: "d = (a, b)" by fastforce
  show ?case
  proof (cases "off \<le> b")
    case True
    then show ?thesis using Cons.prems d by (auto simp: clip_domain_def Let_def)
  next
    case False
    then have "ds \<noteq> []" using Cons.prems d by auto
    with Cons.IH [of "b + 1"] Cons.prems False d obtain i where
      "find_domain (map (clip_domain hi) ds) off = Some i" "i < length ds"
      "fst (map (clip_domain hi) ds ! i) \<le> off" "off \<le> snd (map (clip_domain hi) ds ! i)" by auto
    moreover have "\<not> off \<le> snd (clip_domain hi d)" using Cons.prems False d by (auto simp: clip_domain_def Let_def)
    ultimately show ?thesis by (intro exI [of _ "Suc i"]) auto
  qed
qed simp

lemma plain_nth: "i < n \<Longrightarrow> plain_domains n fs s ! i = (s + int i * fs, s + (int i + 1) * fs - 1)"
proof (induction n arbitrary: s i)
  case (Suc n)
  then show ?case by (cases i) (auto simp: algebra_simps)
qed simp

lemma length_plain [simp]: "length (plain_domains n fs s) = n"
  by (induction n arbitrary: s) auto

lemma length_striped [simp]: "length (striped_domains n u fs mn i s) = n"
  by (induction n arbitrary: s i) (auto simp: Let_def)

lemma length_set_last [simp]: "ds \<noteq> [] \<Longrightarrow> length (set_last_end e ds) = length ds"
  by (simp add: set_last_end_def)

lemma fold_min: "fold (\<lambda>s m. min m s) sts (st :: int) = Min (set (st # sts))"
  by (simp only: Min.set_eq_fold) (simp add: min.commute)

lemma fold_max: "fold (\<lambda>e m. max m e) ends (en :: int) = Max (set (en # ends))"
  by (simp only: Max.set_eq_fold) (simp add: max.commute)

text \<open>
  The inputs of a collective access: the hints, the start and end offsets of the processes and
  the hint for the least size of a domain. They are in order when there is a process, offsets
  are not negative, the access is not empty, and the list of aggregators has \<open>cb_nodes\<close> ranks.
\<close>

type_synonym agg_input = "agg_hints \<times> int list \<times> int list \<times> int"

definition input_ok :: "agg_input \<Rightarrow> bool" where
  "input_ok d = (case d of (h, sts, ends, mfs) \<Rightarrow> sts \<noteq> [] \<and> ends \<noteq> [] \<and> (\<forall>st \<in> set sts. 0 \<le> st) \<and>
     Min (set sts) \<le> Max (set ends) \<and> ranklist h \<noteq> [] \<and> cb_nodes h = int (length (ranklist h)))"

definition lo_off :: "agg_input \<Rightarrow> int" where
  "lo_off d = (case d of (h, sts, ends, mfs) \<Rightarrow> Min (set sts))"

definition hi_off :: "agg_input \<Rightarrow> int" where
  "hi_off d = (case d of (h, sts, ends, mfs) \<Rightarrow> Max (set ends))"

definition domains_of :: "agg_input \<Rightarrow> (int \<times> int \<times> (int \<times> int) list) option" where
  "domains_of d = (case d of (h, sts, ends, mfs) \<Rightarrow>
     ADIOI_Calc_file_domains sts ends (nat (cb_nodes h)) mfs (striping_unit h))"

definition aggregator_of :: "agg_input \<Rightarrow> int \<Rightarrow> int \<Rightarrow> (nat \<times> int) option" where
  "aggregator_of d off len = (case domains_of d of None \<Rightarrow> None
     | Some (mn, fs, ds) \<Rightarrow> ADIOI_Calc_aggregator (fst d) mn fs ds off len)"

text \<open>The bytes that belong to the domains of rank \<open>p\<close>.\<close>

definition owns :: "agg_input \<Rightarrow> nat \<Rightarrow> int set" where
  "owns d p = (case domains_of d of None \<Rightarrow> {} | Some (mn, fs, ds) \<Rightarrow>
     (\<Union>i \<in> {i. i < length ds \<and> i < length (ranklist (fst d)) \<and> ranklist (fst d) ! i = p}.
        {fst (ds ! i) .. snd (ds ! i)}))"

lemma ceil_div_bounds:
  assumes "0 < n" "0 < (r :: int)"
  shows "1 \<le> (r + n - 1) div n" "r \<le> n * ((r + n - 1) div n)"
proof -
  have "n * ((r + n - 1) div n) + (r + n - 1) mod n = r + n - 1" by simp
  moreover have "(r + n - 1) mod n < n" using assms by simp
  ultimately show "r \<le> n * ((r + n - 1) div n)" by linarith
  then show "1 \<le> (r + n - 1) div n" using assms
    by (smt (verit) mult_nonneg_nonpos)
qed

lemma div_less_mult:
  assumes "0 < (b :: int)" "a < n * b"
  shows "a div b < n"
proof (rule ccontr)
  assume "\<not> a div b < n"
  then have "n * b \<le> a div b * b" using assms(1) by (intro mult_right_mono) auto
  moreover have "a div b * b + a mod b = a" "0 \<le> a mod b" using assms(1) by simp_all
  ultimately show False using assms(2) by linarith
qed

lemma domains_of_eq:
  assumes "input_ok d"
  obtains fs raw where "domains_of d = Some (lo_off d, fs, map (clip_domain (hi_off d)) raw)"
    "0 < fs" "hi_off d - lo_off d + 1 \<le> cb_nodes (fst d) * fs"
    "raw \<noteq> []" "length raw = length (ranklist (fst d))"
    "if 0 < striping_unit (fst d)
     then raw = set_last_end (hi_off d) (striped_domains (length raw) (striping_unit (fst d)) fs (lo_off d) 0 (lo_off d))
     else raw = plain_domains (length raw) fs (lo_off d)"
proof -
  obtain h sts ends mfs where d: "d = (h, sts, ends, mfs)" by (cases d) auto
  obtain st sts' en ends' where l: "sts = st # sts'" "ends = en # ends'"
    using assms d by (auto simp: input_ok_def neq_Nil_conv)
  let ?n = "length (ranklist h)" and ?r = "hi_off d - lo_off d + 1"
  have n: "0 < int ?n" "cb_nodes h = int ?n" "0 < ?r" using assms d by (auto simp: input_ok_def lo_off_def hi_off_def)
  let ?s0 = "(?r + int ?n - 1) sdiv int ?n"
  have s0: "1 \<le> ?s0" "?r \<le> int ?n * ?s0" using ceil_div_bounds [OF n(1,3)] n by (simp_all add: sdiv_nonneg)
  define fs where "fs = (if ?s0 < mfs then mfs else ?s0)"
  define raw where "raw = (if 0 < striping_unit h
      then set_last_end (hi_off d) (striped_domains ?n (striping_unit h) fs (lo_off d) 0 (lo_off d))
      else plain_domains ?n fs (lo_off d))"
  have fs: "0 < fs" "?s0 \<le> fs" using s0 by (auto simp: fs_def)
  then have "int ?n * ?s0 \<le> int ?n * fs" by (intro mult_left_mono) auto
  then have bound: "?r \<le> cb_nodes h * fs" using s0(2) n(2) by simp
  have ne: "striped_domains ?n u fs mn i s \<noteq> []" for u mn i s
    using n(1) length_striped [of ?n u fs mn i s] by (metis length_0_conv of_nat_0_less_iff less_irrefl)
  have len: "length raw = ?n" using ne by (simp add: raw_def)
  have rne: "raw \<noteq> []" using len n(1) by auto
  have dom: "domains_of d = Some (lo_off d, fs, map (clip_domain (hi_off d)) raw)"
  proof -
    have "fold (\<lambda>s m. min m s) sts' st = lo_off d" "fold (\<lambda>e m. max m e) ends' en = hi_off d"
      unfolding fold_min fold_max by (simp_all add: lo_off_def hi_off_def d l)
    moreover have "domains_of d = ADIOI_Calc_file_domains (st # sts') (en # ends') ?n mfs (striping_unit h)"
      using n(2) by (simp add: domains_of_def d l)
    ultimately show ?thesis using n(1)
      by (simp add: ADIOI_Calc_file_domains_def Let_def raw_def fs_def)
  qed
  have raweq: "if 0 < striping_unit h
     then raw = set_last_end (hi_off d) (striped_domains (length raw) (striping_unit h) fs (lo_off d) 0 (lo_off d))
     else raw = plain_domains (length raw) fs (lo_off d)"
    unfolding len by (simp add: raw_def)
  have hd: "fst d = h" by (simp add: d)
  show ?thesis by (rule that [unfolded hd, OF dom fs(1) bound rne len raweq])
qed

lemma index_ok:
  assumes ok: "input_ok d" and off: "lo_off d \<le> off" "off \<le> hi_off d"
    and dom: "domains_of d = Some (mn, fs, ds)"
  shows "\<exists>i. domain_index (fst d) off mn fs ds = Some (int i) \<and> i < length ds \<and>
     length ds = length (ranklist (fst d)) \<and> fst (ds ! i) \<le> off \<and> off \<le> snd (ds ! i)"
proof -
  obtain raw where d: "mn = lo_off d" "ds = map (clip_domain (hi_off d)) raw" "0 < fs"
      "hi_off d - lo_off d + 1 \<le> cb_nodes (fst d) * fs" "raw \<noteq> []" "length raw = length (ranklist (fst d))"
      "if 0 < striping_unit (fst d)
       then raw = set_last_end (hi_off d) (striped_domains (length raw) (striping_unit (fst d)) fs (lo_off d) 0 (lo_off d))
       else raw = plain_domains (length raw) fs (lo_off d)"
    using domains_of_eq [OF ok] dom by (metis option.inject prod.inject)
  show ?thesis
  proof (cases "0 < striping_unit (fst d)")
    case True
    then have raw: "raw = set_last_end (hi_off d) (striped_domains (length raw) (striping_unit (fst d)) fs (lo_off d) 0 (lo_off d))"
      using d(7) by simp
    have "striped_domains (length raw) (striping_unit (fst d)) fs (lo_off d) 0 (lo_off d) \<noteq> []"
      using d(5) by (cases raw) (auto simp: Let_def)
    then have "chain (lo_off d) raw" "snd (last raw) = hi_off d"
      using chain_set_last [OF chain_striped] by (subst raw; simp add: set_last_end_def)+
    from find_domain_clip [OF this(1) d(5) off] this(2) True d(2,3,6) show ?thesis
      by (auto simp: domain_index_def)
  next
    case False
    then have raw: "raw = plain_domains (length raw) fs (lo_off d)" using d(7) by simp
    let ?q = "(off - lo_off d) div fs"
    have n: "cb_nodes (fst d) = int (length raw)" using ok d(6) by (auto simp: input_ok_def split: prod.splits)
    have q: "0 \<le> ?q" using off d(3) by (simp add: pos_imp_zdiv_nonneg_iff)
    have "off - lo_off d < int (length raw) * fs" using off(2) d(4) n by simp
    then have "?q < int (length raw)" by (rule div_less_mult [OF d(3)])
    then have i: "nat ?q < length raw" using q by linarith
    have "(off - lo_off d + fs) div fs = ?q + 1"
      by (rule div_add_self2) (use d(3) in simp)
    then have "(off - mn + fs) sdiv fs - 1 = int (nat ?q)"
      using off(1) d(1,3) q by (simp add: sdiv_nonneg)
    moreover have "fs * ?q + (off - lo_off d) mod fs = off - lo_off d" "0 \<le> (off - lo_off d) mod fs" "(off - lo_off d) mod fs < fs"
      using d(3) by simp_all
    then have "lo_off d + fs * ?q \<le> off" "off \<le> lo_off d + fs * ?q + fs - 1" by linarith+
    moreover have "raw ! nat ?q = (lo_off d + fs * ?q, lo_off d + fs * ?q + fs - 1)"
      using q by (subst raw) (simp add: plain_nth [OF i] algebra_simps)
    ultimately have "fst (ds ! nat ?q) \<le> off \<and> off \<le> snd (ds ! nat ?q)"
      using i off(2) by (simp add: d(2) clip_domain_def Let_def)
    moreover have "(off - mn + fs) sdiv fs - 1 = int (nat ?q)"
      by fact
    ultimately show ?thesis using False d(2,3,6) i
      by (intro exI [of _ "nat ?q"]) (simp add: domain_index_def)
  qed
qed

text \<open>The aggregator of an offset exists, owns it, and takes at least one byte.\<close>

lemma aggregator_of_ok:
  assumes ok: "input_ok d" and off: "lo_off d \<le> off" "off \<le> hi_off d" and len: "0 < len"
  shows "\<exists>p l. aggregator_of d off len = Some (p, l) \<and> 0 < l \<and> l \<le> len \<and> {off ..< off + l} \<subseteq> owns d p \<and>
     p \<in> set (ranklist (fst d))"
proof -
  obtain mn fs ds where dom: "domains_of d = Some (mn, fs, ds)" using domains_of_eq [OF ok] by metis
  obtain i where i: "domain_index (fst d) off mn fs ds = Some (int i)" "i < length ds"
      "length ds = length (ranklist (fst d))" "fst (ds ! i) \<le> off" "off \<le> snd (ds ! i)"
    using index_ok [OF ok off dom] by blast
  let ?l = "if snd (ds ! i) + 1 - off < len then snd (ds ! i) + 1 - off else len"
  have n: "cb_nodes (fst d) = int (length ds)" using ok i(3) by (auto simp: input_ok_def split: prod.splits)
  have "aggregator_of d off len = Some (ranklist (fst d) ! i, ?l)"
    using i n by (simp add: aggregator_of_def dom ADIOI_Calc_aggregator_def Let_def)
  moreover have "{off ..< off + ?l} \<subseteq> owns d (ranklist (fst d) ! i)"
    using i unfolding owns_def dom by (auto intro!: exI [of _ i])
  moreover have "0 < ?l" "?l \<le> len" "ranklist (fst d) ! i \<in> set (ranklist (fst d))" using i len by auto
  ultimately show ?thesis by blast
qed

section \<open>Splitting accesses\<close>

text \<open>What the splitting of accesses relies on: the aggregator of an offset.\<close>

locale splitter =
  fixes ok :: "'d \<Rightarrow> bool" and lo hi :: "'d \<Rightarrow> int" and agg :: "'d \<Rightarrow> int \<Rightarrow> int \<Rightarrow> (nat \<times> int) option"
    and own :: "'d \<Rightarrow> nat \<Rightarrow> int set" and ranks :: "'d \<Rightarrow> nat set"
  assumes agg_ok: "ok d \<Longrightarrow> lo d \<le> off \<Longrightarrow> off \<le> hi d \<Longrightarrow> 0 < len \<Longrightarrow>
    \<exists>p l. agg d off len = Some (p, l) \<and> 0 < l \<and> l \<le> len \<and> {off ..< off + l} \<subseteq> own d p \<and> p \<in> ranks d"
begin

lemma access_pieces_ok:
  "ok d \<Longrightarrow> lo d \<le> off \<Longrightarrow> off + len - 1 \<le> hi d \<Longrightarrow> 0 < len \<Longrightarrow> nat len \<le> fuel \<Longrightarrow>
   \<exists>ps. access_pieces fuel (agg d) off len = Some ps \<and>
     concat (map (\<lambda>(p, o1, l). [o1 .. o1 + l - 1]) ps) = [off .. off + len - 1] \<and>
     (\<forall>(p, o1, l) \<in> set ps. 0 < l \<and> {o1 ..< o1 + l} \<subseteq> own d p \<and> p \<in> ranks d) \<and>
     sum_list (map (\<lambda>(p, o1, l). l) ps) = len"
proof (induction fuel arbitrary: off len)
  case 0
  then show ?case by simp
next
  case (Suc fuel)
  then obtain p l where a: "agg d off len = Some (p, l)" "0 < l" "l \<le> len" "{off ..< off + l} \<subseteq> own d p" "p \<in> ranks d"
    using agg_ok [of d off len] by force
  show ?case
  proof (cases "l = len")
    case True
    with a show ?thesis by simp
  next
    case False
    moreover have "nat (len - l) \<le> fuel" using Suc.prems(5) a(2) by linarith
    ultimately obtain ps where ps: "access_pieces fuel (agg d) (off + l) (len - l) = Some ps"
        "concat (map (\<lambda>(p, o1, l). [o1 .. o1 + l - 1]) ps) = [off + l .. off + len - 1]"
        "\<forall>(p, o1, l) \<in> set ps. 0 < l \<and> {o1 ..< o1 + l} \<subseteq> own d p \<and> p \<in> ranks d"
        "sum_list (map (\<lambda>(p, o1, l). l) ps) = len - l"
      using Suc.IH [of "off + l" "len - l"] Suc.prems a by auto
    have "[off .. off + len - 1] = [off .. off + l - 1] @ [off + l .. off + len - 1]"
      using upto_split1 [of off "off + l" "off + len - 1"] a False by simp
    with ps a False show ?thesis by simp
  qed
qed

lemma all_pieces_ok:
  "ok d \<Longrightarrow> \<forall>(off, len) \<in> set as. 0 \<le> len \<and> (len \<noteq> 0 \<longrightarrow> lo d \<le> off \<and> off + len - 1 \<le> hi d) \<Longrightarrow>
   \<exists>ps. all_pieces (agg d) as = Some ps \<and>
     concat (map (\<lambda>(p, o1, l). [o1 .. o1 + l - 1]) ps) = concat (map (\<lambda>(o1, l). [o1 .. o1 + l - 1]) as) \<and>
     (\<forall>(p, o1, l) \<in> set ps. 0 < l \<and> {o1 ..< o1 + l} \<subseteq> own d p \<and> p \<in> ranks d) \<and>
     sum_list (map (\<lambda>(p, o1, l). l) ps) = sum_list (map snd as)"
proof (induction as)
  case Nil
  then show ?case by simp
next
  case (Cons a as)
  obtain off len where a: "a = (off, len)" by fastforce
  obtain qs where qs: "all_pieces (agg d) as = Some qs"
      "concat (map (\<lambda>(p, o1, l). [o1 .. o1 + l - 1]) qs) = concat (map (\<lambda>(o1, l). [o1 .. o1 + l - 1]) as)"
      "\<forall>(p, o1, l) \<in> set qs. 0 < l \<and> {o1 ..< o1 + l} \<subseteq> own d p \<and> p \<in> ranks d"
      "sum_list (map (\<lambda>(p, o1, l). l) qs) = sum_list (map snd as)"
    using Cons by auto
  show ?case
  proof (cases "len = 0")
    case True
    with qs a show ?thesis by simp
  next
    case False
    then have "0 < len" "lo d \<le> off" "off + len - 1 \<le> hi d" using Cons.prems(2) a by auto
    then obtain ps where "access_pieces (nat len) (agg d) off len = Some ps"
        "concat (map (\<lambda>(p, o1, l). [o1 .. o1 + l - 1]) ps) = [off .. off + len - 1]"
        "\<forall>(p, o1, l) \<in> set ps. 0 < l \<and> {o1 ..< o1 + l} \<subseteq> own d p \<and> p \<in> ranks d"
        "sum_list (map (\<lambda>(p, o1, l). l) ps) = len"
      using access_pieces_ok [OF Cons.prems(1), of off len "nat len"] by auto
    with qs a False show ?thesis by auto
  qed
qed

end

interpretation ag: splitter input_ok lo_off hi_off aggregator_of owns "\<lambda>d. set (ranklist (fst d))"
  by unfold_locales (rule aggregator_of_ok)

section \<open>The two passes\<close>

definition pieces_for :: "nat \<Rightarrow> (nat \<times> int \<times> int) list \<Rightarrow> (int \<times> int) list" where
  "pieces_for p ps = map snd (filter (\<lambda>x. fst x = p) ps)"

lemma pieces_for_simps [simp]:
  "pieces_for p [] = []"
  "pieces_for p ((q, ol) # ps) = (if q = p then ol # pieces_for p ps else pieces_for p ps)"
  by (simp_all add: pieces_for_def)

fun first_pos :: "int \<Rightarrow> (nat \<times> int \<times> int) list \<Rightarrow> nat \<Rightarrow> int" where
  "first_pos cur [] p = -1"
| "first_pos cur ((q, off, l) # ps) p = (if q = p then cur else first_pos (cur + l) ps p)"

lemma count_pass_ok:
  "\<forall>x \<in> set ps. fst x < length cnt \<Longrightarrow>
   \<exists>cnt'. count_pass ps cnt = Some cnt' \<and> length cnt' = length cnt \<and>
     (\<forall>p < length cnt. cnt' ! p = cnt ! p + length (pieces_for p ps))"
proof (induction ps arbitrary: cnt)
  case (Cons x ps)
  obtain q off l where x: "x = (q, off, l)" by (cases x) auto
  then obtain cnt' where "count_pass ps (cnt[q := cnt ! q + 1]) = Some cnt'" "length cnt' = length cnt"
      "\<forall>p < length cnt. cnt' ! p = cnt[q := cnt ! q + 1] ! p + length (pieces_for p ps)"
    using Cons.IH [of "cnt[q := cnt ! q + 1]"] Cons.prems by auto
  with Cons.prems x show ?case by (auto simp: nth_list_update)
qed simp

lemma fill_pass_ok:
  "length req = n \<Longrightarrow> length buf = n \<Longrightarrow> length cnt = n \<Longrightarrow> \<forall>x \<in> set ps. fst x < n \<and> 0 < snd (snd x) \<Longrightarrow>
   \<forall>p < n. length (req ! p) + length (pieces_for p ps) \<le> cnt ! p \<Longrightarrow>
   cur + sum_list (map (\<lambda>x. snd (snd x)) ps) \<le> INT_MAX \<Longrightarrow> 0 \<le> cur \<Longrightarrow>
   \<exists>req' buf'. fill_pass cnt ps req buf cur = Some (req', buf') \<and> length req' = n \<and> length buf' = n \<and>
     (\<forall>p < n. req' ! p = req ! p @ pieces_for p ps \<and> buf' ! p = (if buf ! p = -1 then first_pos cur ps p else buf ! p))"
proof (induction ps arbitrary: req buf cur)
  case (Cons x ps)
  obtain q off l where x: "x = (q, off, l)" by (cases x) auto
  let ?req = "req[q := req ! q @ [(off, l)]]" and ?buf = "if buf ! q = -1 then buf[q := cur] else buf"
  have q: "q < n" "0 < l" using Cons.prems(4) x by auto
  have pos: "0 \<le> sum_list (map (\<lambda>x. snd (snd x)) ps)"
    using Cons.prems(4) by (intro sum_list_nonneg) (auto simp: less_imp_le)
  have "\<exists>req' buf'. fill_pass cnt ps ?req ?buf (cur + l) = Some (req', buf') \<and> length req' = n \<and> length buf' = n \<and>
     (\<forall>p < n. req' ! p = ?req ! p @ pieces_for p ps \<and>
        buf' ! p = (if ?buf ! p = -1 then first_pos (cur + l) ps p else ?buf ! p))"
    by (rule Cons.IH) (use Cons.prems x q in \<open>auto simp: nth_list_update\<close>)
  moreover have "length (req ! q) < cnt ! q" using Cons.prems(5) x q by fastforce
  moreover have "\<not> INT_MAX < cur" using Cons.prems(6) pos q x by simp
  ultimately show ?case using Cons.prems(1-3,7) x q by (fastforce simp: nth_list_update)
qed simp

lemma mset_pieces:
  "\<forall>x \<in> set ps. fst x < n \<Longrightarrow> mset (concat (map (\<lambda>p. pieces_for p ps) [0..<n])) = mset (map snd ps)"
proof (induction ps)
  case Nil
  then show ?case by (simp add: mset_concat interv_sum_list_conv_sum_set_nat)
next
  case (Cons x ps)
  have "mset (pieces_for p (x # ps)) = (if p = fst x then {#snd x#} else {#}) + mset (pieces_for p ps)" for p
    by (cases x) auto
  then have "mset (concat (map (\<lambda>p. pieces_for p (x # ps)) [0..<n])) =
      (\<Sum>p = 0..<n. if p = fst x then {#snd x#} else {#}) + (\<Sum>p = 0..<n. mset (pieces_for p ps))"
    by (simp add: mset_concat interv_sum_list_conv_sum_set_nat sum.distrib comp_def)
  also have "(\<Sum>p = 0..<n. if p = fst x then {#snd x#} else {#}) = {#snd x#}" using Cons.prems by simp
  also have "(\<Sum>p = 0..<n. mset (pieces_for p ps)) = mset (map snd ps)"
    using Cons by (simp add: mset_concat interv_sum_list_conv_sum_set_nat comp_def)
  finally show ?case by simp
qed

lemma mset_concat_map_cong: "mset xs = mset ys \<Longrightarrow> mset (concat (map f xs)) = mset (concat (map f ys))"
  unfolding mset_concat by (metis map_map mset_map sum_mset_sum_list)

definition bytes_of :: "(int \<times> int) list \<Rightarrow> int list" where
  "bytes_of as = concat (map (\<lambda>(off, l). [off .. off + l - 1]) as)"

lemma first_pos_byte:
  "\<forall>x \<in> set ps. 0 < snd (snd x) \<Longrightarrow> pieces_for p ps \<noteq> [] \<Longrightarrow>
   cur \<le> first_pos cur ps p \<and> nat (first_pos cur ps p - cur) < length (bytes_of (map snd ps)) \<and>
   bytes_of (map snd ps) ! nat (first_pos cur ps p - cur) = fst (hd (pieces_for p ps))"
proof (induction ps arbitrary: cur)
  case (Cons x ps)
  obtain q off l where x: "x = (q, off, l)" by (cases x) auto
  show ?case
  proof (cases "q = p")
    case True
    then show ?thesis using Cons.prems(1) x by (simp add: bytes_of_def nth_append)
  next
    case False
    then have f: "cur + l \<le> first_pos (cur + l) ps p"
        "nat (first_pos (cur + l) ps p - (cur + l)) < length (bytes_of (map snd ps))"
        "bytes_of (map snd ps) ! nat (first_pos (cur + l) ps p - (cur + l)) = fst (hd (pieces_for p ps))"
      using Cons.IH [of "cur + l"] Cons.prems x by auto
    have l: "0 < l" using Cons.prems(1) x by simp
    have "nat (first_pos (cur + l) ps p - cur) = nat l + nat (first_pos (cur + l) ps p - (cur + l))"
      using f(1) l by linarith
    then show ?thesis using False f l x by (simp add: bytes_of_def nth_append)
  qed
qed simp

text \<open>The requests are the pieces, by aggregator.\<close>

lemma my_req_pieces:
  assumes ok: "input_ok (h, sts, ends, mfs)"
    and dom: "ADIOI_Calc_file_domains sts ends (nat (cb_nodes h)) mfs (striping_unit h) = Some (mn, fs, ds)"
    and acc: "\<forall>(off, len) \<in> set accesses. 0 \<le> len \<and> (len \<noteq> 0 \<longrightarrow> Min (set sts) \<le> off \<and> off + len - 1 \<le> Max (set ends))"
    and ranks: "\<forall>p \<in> set (ranklist h). p < nprocs" and total: "sum_list (map snd accesses) \<le> INT_MAX"
  shows "\<exists>k cnt ps. all_pieces (ADIOI_Calc_aggregator h mn fs ds) accesses = Some ps \<and>
     ADIOI_Calc_my_req h accesses mn ds fs nprocs = Some (k, cnt, map (\<lambda>p. pieces_for p ps) [0..<nprocs], map (first_pos 0 ps) [0..<nprocs]) \<and>
     cnt = map (\<lambda>p. length (pieces_for p ps)) [0..<nprocs] \<and> bytes_of (map snd ps) = bytes_of accesses \<and>
     (\<forall>(p, off, l) \<in> set ps. p < nprocs \<and> p \<in> set (ranklist h) \<and> 0 < l \<and> {off ..< off + l} \<subseteq> owns (h, sts, ends, mfs) p) \<and>
     sum_list (map (\<lambda>x. snd (snd x)) ps) = sum_list (map snd accesses)"
proof -
  let ?d = "(h, sts, ends, mfs)"
  have agg: "aggregator_of ?d = ADIOI_Calc_aggregator h mn fs ds"
    by (intro ext) (simp add: aggregator_of_def domains_of_def dom)
  obtain ps where ps: "all_pieces (ADIOI_Calc_aggregator h mn fs ds) accesses = Some ps"
      "concat (map (\<lambda>(p, o1, l). [o1 .. o1 + l - 1]) ps) = bytes_of accesses"
      "\<forall>(p, o1, l) \<in> set ps. 0 < l \<and> {o1 ..< o1 + l} \<subseteq> owns ?d p \<and> p \<in> set (ranklist h)"
      "sum_list (map (\<lambda>(p, o1, l). l) ps) = sum_list (map snd accesses)"
    using ag.all_pieces_ok [OF ok, of accesses] acc
    unfolding agg by (auto simp: lo_off_def hi_off_def bytes_of_def)
  have bytes: "bytes_of (map snd ps) = bytes_of accesses"
    using ps(2) by (simp add: bytes_of_def comp_def split_def)
  have good: "\<forall>x \<in> set ps. fst x < nprocs \<and> 0 < snd (snd x)" using ps(3) ranks by fastforce
  obtain cnt where cnt: "count_pass ps (replicate nprocs 0) = Some cnt" "length cnt = nprocs"
      "\<forall>p < nprocs. cnt ! p = length (pieces_for p ps)"
    using count_pass_ok [of ps "replicate nprocs 0"] good by auto
  obtain req buf where f: "fill_pass cnt ps (replicate nprocs []) (replicate nprocs (-1)) 0 = Some (req, buf)"
      "length req = nprocs" "length buf = nprocs"
      "\<forall>p < nprocs. req ! p = pieces_for p ps \<and> buf ! p = first_pos 0 ps p"
    using fill_pass_ok [of "replicate nprocs []" nprocs "replicate nprocs (-1)" cnt ps 0] good cnt total ps(4)
    by (auto simp: split_def)
  have "req = map (\<lambda>p. pieces_for p ps) [0..<nprocs]" "buf = map (first_pos 0 ps) [0..<nprocs]" "cnt = map (\<lambda>p. length (pieces_for p ps)) [0..<nprocs]"
    using f cnt by (auto intro!: nth_equalityI)
  moreover have "ADIOI_Calc_my_req h accesses mn ds fs nprocs = Some (length (filter (\<lambda>c. c \<noteq> 0) cnt), cnt, req, buf)"
    using ps(1) cnt(1) f(1) by (simp add: ADIOI_Calc_my_req_def)
  moreover have "\<forall>(p, off, l) \<in> set ps. p < nprocs \<and> p \<in> set (ranklist h) \<and> 0 < l \<and> {off ..< off + l} \<subseteq> owns ?d p" using ps(3) ranks by fastforce
  moreover have "sum_list (map (\<lambda>x. snd (snd x)) ps) = sum_list (map snd accesses)" using ps(4) by (simp add: split_def)
  ultimately show ?thesis using ps(1) bytes by blast
qed

lemma my_req_ok:
  assumes ok: "input_ok (h, sts, ends, mfs)"
    and dom: "ADIOI_Calc_file_domains sts ends (nat (cb_nodes h)) mfs (striping_unit h) = Some (mn, fs, ds)"
    and acc: "\<forall>(off, len) \<in> set accesses. 0 \<le> len \<and> (len \<noteq> 0 \<longrightarrow> Min (set sts) \<le> off \<and> off + len - 1 \<le> Max (set ends))"
    and ranks: "\<forall>p \<in> set (ranklist h). p < nprocs" and total: "sum_list (map snd accesses) \<le> INT_MAX"
  shows "\<exists>k cnt req buf. ADIOI_Calc_my_req h accesses mn ds fs nprocs = Some (k, cnt, req, buf) \<and>
     length req = nprocs \<and> length cnt = nprocs \<and> length buf = nprocs \<and>
     (\<forall>p < nprocs. cnt ! p = length (req ! p) \<and>
        (\<forall>(off, l) \<in> set (req ! p). 0 < l \<and> {off ..< off + l} \<subseteq> owns (h, sts, ends, mfs) p) \<and>
        (req ! p \<noteq> [] \<longrightarrow> 0 \<le> buf ! p \<and> bytes_of accesses ! nat (buf ! p) = fst (hd (req ! p)))) \<and>
     mset (bytes_of (concat req)) = mset (bytes_of accesses)"
proof -
  let ?d = "(h, sts, ends, mfs)"
  obtain k cnt ps where r: "ADIOI_Calc_my_req h accesses mn ds fs nprocs = Some (k, cnt, map (\<lambda>p. pieces_for p ps) [0..<nprocs], map (first_pos 0 ps) [0..<nprocs])"
    "cnt = map (\<lambda>p. length (pieces_for p ps)) [0..<nprocs]" "bytes_of (map snd ps) = bytes_of accesses"
    "\<forall>(p, off, l) \<in> set ps. p < nprocs \<and> p \<in> set (ranklist h) \<and> 0 < l \<and> {off ..< off + l} \<subseteq> owns ?d p"
    using my_req_pieces [OF assms] by blast
  let ?req = "map (\<lambda>p. pieces_for p ps) [0..<nprocs]"
  have good: "\<forall>x \<in> set ps. fst x < nprocs" "\<forall>x \<in> set ps. 0 < snd (snd x)" using r(4) by auto
  have "mset (concat ?req) = mset (map snd ps)" using mset_pieces [of ps nprocs] good by simp
  then have "mset (bytes_of (concat ?req)) = mset (bytes_of accesses)"
    unfolding r(3) [symmetric] unfolding bytes_of_def by (rule mset_concat_map_cong)
  moreover have "\<forall>(off, l) \<in> set (pieces_for p ps). 0 < l \<and> {off ..< off + l} \<subseteq> owns ?d p" for p
    using r(4) by (fastforce simp: pieces_for_def)
  moreover have "0 \<le> first_pos 0 ps p \<and> bytes_of accesses ! nat (first_pos 0 ps p) = fst (hd (pieces_for p ps))" if "pieces_for p ps \<noteq> []" for p
    using first_pos_byte [OF good(2) that, of 0] r(3) by auto
  ultimately show ?thesis using r(1,2) by auto
qed

section \<open>The domains are disjoint\<close>

lemma chain_nth: "chain s ds \<Longrightarrow> Suc j < length ds \<Longrightarrow> fst (ds ! Suc j) = snd (ds ! j) + 1"
proof (induction ds arbitrary: s j)
  case (Cons d ds)
  then show ?case by (cases j; cases ds) auto
qed simp

lemma align_end_mono:
  assumes "0 < u" "0 \<le> e1" "e1 \<le> e2"
  shows "align_end u e1 \<le> align_end u e2"
proof -
  have al: "align_end u e = (if 2 * (e mod u) < u then u * (e div u) else u * (e div u) + u)" if "0 \<le> e" for e
  proof -
    have "e smod u = e mod u" using that assms(1) by (rule smod_nonneg)
    moreover have "u * (e div u) = e - e mod u" by (simp add: minus_mod_eq_mult_div)
    ultimately show ?thesis by (simp add: align_end_def Let_def)
  qed
  have q: "e1 div u \<le> e2 div u" using assms by (simp add: zdiv_mono1)
  show ?thesis
  proof (cases "e1 div u = e2 div u")
    case True
    then have "e1 mod u \<le> e2 mod u" using assms(3) by (simp add: minus_mult_div_eq_mod [symmetric])
    with True show ?thesis using al [of e1] al [of e2] assms by auto
  next
    case False
    then have "u * (e1 div u + 1) \<le> u * (e2 div u)" using q assms(1) by (intro mult_left_mono) auto
    then show ?thesis using al [of e1] al [of e2] assms q by (auto simp: algebra_simps)
  qed
qed

lemma striped_snd: "j < n \<Longrightarrow> snd (striped_domains n u fs mn i s ! j) = align_end u (mn + fs * (i + int j + 1)) - 1"
proof (induction n arbitrary: i s j)
  case (Suc n)
  then show ?case by (cases j) (auto simp: Let_def algebra_simps)
qed simp

lemma ordered_disjoint:
  assumes ch: "chain s ds" and mono: "\<And>i j. i \<le> j \<Longrightarrow> Suc j < length ds \<Longrightarrow> snd (ds ! i) \<le> snd (ds ! j)"
    and ij: "i < j" "j < length ds" and off: "0 \<le> off"
    and di: "off \<le> snd (clip_domain hi (ds ! i))" and dj: "fst (clip_domain hi (ds ! j)) \<le> off" "off \<le> snd (clip_domain hi (ds ! j))"
  shows False
proof -
  obtain k where k: "j = Suc k" using ij by (cases j) auto
  have "snd (ds ! i) \<le> snd (ds ! k)" using mono [of i k] ij k by simp
  moreover have "fst (ds ! j) = snd (ds ! k) + 1" using chain_nth [OF ch, of k] ij k by simp
  ultimately show False using off di dj by (auto simp: clip_domain_def Let_def split: if_splits)
qed

lemma domains_disjoint:
  assumes ok: "input_ok d" and dom: "domains_of d = Some (mn, fs, ds)"
    and ij: "i < j" "j < length ds" and off: "0 \<le> off"
  shows "\<not> (off \<in> {fst (ds ! i) .. snd (ds ! i)} \<and> off \<in> {fst (ds ! j) .. snd (ds ! j)})"
proof -
  obtain raw where d: "ds = map (clip_domain (hi_off d)) raw" "0 < fs" "raw \<noteq> []"
      "if 0 < striping_unit (fst d)
       then raw = set_last_end (hi_off d) (striped_domains (length raw) (striping_unit (fst d)) fs (lo_off d) 0 (lo_off d))
       else raw = plain_domains (length raw) fs (lo_off d)"
    using domains_of_eq [OF ok] dom by (metis option.inject prod.inject)
  have lo: "0 \<le> lo_off d" using ok by (auto simp: input_ok_def lo_off_def split: prod.splits)
  have "chain (lo_off d) raw \<and> (\<forall>i j. i \<le> j \<longrightarrow> Suc j < length raw \<longrightarrow> snd (raw ! i) \<le> snd (raw ! j))"
  proof (cases "0 < striping_unit (fst d)")
    case True
    let ?st = "striped_domains (length raw) (striping_unit (fst d)) fs (lo_off d) 0 (lo_off d)"
    have raw: "raw = set_last_end (hi_off d) ?st" using d(4) True by simp
    have ne: "?st \<noteq> []" using d(3) by (cases raw) (auto simp: Let_def)
    have nth: "raw ! k = ?st ! k" if "Suc k < length raw" for k
    proof -
      have "k < length ?st - 1" using that by simp
      then show ?thesis by (subst raw) (simp add: set_last_end_def nth_append nth_butlast)
    qed
    have "snd (raw ! i) \<le> snd (raw ! j)" if "i \<le> j" "Suc j < length raw" for i j
    proof -
      have "fs * (int i + 1) \<le> fs * (int j + 1)" "0 \<le> fs * (int i + 1)" using that(1) d(2) by simp_all
      then have "align_end (striping_unit (fst d)) (lo_off d + fs * (int i + 1)) \<le>
          align_end (striping_unit (fst d)) (lo_off d + fs * (int j + 1))"
        using True lo by (intro align_end_mono) auto
      then show ?thesis using that by (simp add: nth striped_snd)
    qed
    moreover have "chain (lo_off d) raw" by (subst raw) (rule chain_set_last [OF chain_striped ne])
    ultimately show ?thesis by blast
  next
    case False
    then have raw: "raw = plain_domains (length raw) fs (lo_off d)" using d(4) by simp
    have "snd (raw ! i) \<le> snd (raw ! j)" if "i \<le> j" "Suc j < length raw" for i j
    proof -
      have "(int i + 1) * fs \<le> (int j + 1) * fs" using that(1) d(2) by simp
      then show ?thesis by (subst (1 2) raw) (use that in \<open>simp add: plain_nth\<close>)
    qed
    moreover have "chain (lo_off d) raw" by (subst raw) (rule chain_plain)
    ultimately show ?thesis by blast
  qed
  then show ?thesis using ordered_disjoint [of "lo_off d" raw i j off "hi_off d"] ij off d(1) by auto
qed

section \<open>Properties\<close>

definition demo_hints :: agg_hints where
  "demo_hints = \<lparr>striping_unit = 4, cb_nodes = 2, ranklist = [0, 2]\<rparr>"

lemma demo_input_ok: "input_ok (demo_hints, [1, 3], [10, 12], 0)"
  by (simp add: input_ok_def demo_hints_def)

definition demo_ds :: "(int \<times> int) list" where
  "demo_ds = [(1, 7), (8, 12)]"

lemma demo_domains:
  "ADIOI_Calc_file_domains [1, 3] [10, 12] (nat (cb_nodes demo_hints)) 0 (striping_unit demo_hints) =
     Some (1, 6, demo_ds)"
  by (simp add: ADIOI_Calc_file_domains_def demo_hints_def signed_divide_int_def numeral_2_eq_2 Let_def
      align_end_def signed_modulo_int_def set_last_end_def clip_domain_def demo_ds_def)



text \<open>
  \<open>ADIOI_Calc_aggregator\<close> never aborts on an offset of the access: it returns the rank of
  the aggregator whose domain contains the offset, and the length it returns is what is left
  of the request in that domain.
\<close>

theorem calc_aggregator_in_domain:
  assumes "input_ok (h, sts, ends, mfs)"
    and "ADIOI_Calc_file_domains sts ends (nat (cb_nodes h)) mfs (striping_unit h) = Some (mn, fs, ds)"
    and "Min (set sts) \<le> off" "off \<le> Max (set ends)"
  shows "\<exists>i. i < length ds \<and> fst (ds ! i) \<le> off \<and> off \<le> snd (ds ! i) \<and>
     ADIOI_Calc_aggregator h mn fs ds off len = Some (ranklist h ! i, min len (snd (ds ! i) + 1 - off))"
proof -
  let ?d = "(h, sts, ends, mfs)"
  have dom: "domains_of ?d = Some (mn, fs, ds)" using assms(2) by (simp add: domains_of_def)
  obtain i where i: "domain_index h off mn fs ds = Some (int i)" "i < length ds" "length ds = length (ranklist h)"
      "fst (ds ! i) \<le> off" "off \<le> snd (ds ! i)"
    using index_ok [OF assms(1) _ _ dom, of off] assms(3,4) by (auto simp: lo_off_def hi_off_def)
  moreover have "cb_nodes h = int (length (ranklist h))" using assms(1) by (simp add: input_ok_def)
  ultimately show ?thesis by (intro exI [of _ i]) (simp add: ADIOI_Calc_aggregator_def Let_def min_def)
qed

theorem calc_aggregator_in_domain_witness:
  "\<exists>i. i < length demo_ds \<and> fst (demo_ds ! i) \<le> (5 :: int) \<and> 5 \<le> snd (demo_ds ! i) \<and>
     ADIOI_Calc_aggregator demo_hints 1 6 demo_ds 5 6 =
       Some (ranklist demo_hints ! i, min 6 (snd (demo_ds ! i) + 1 - 5))"
  by (rule calc_aggregator_in_domain [OF demo_input_ok demo_domains]) simp_all

text \<open>
  C15: \<open>ADIOI_Calc_my_req\<close> splits the accesses of a process exactly: the arrays it allocates
  after the first pass are filled and not overrun by the second, every request handed to a
  process lies in that process's file domains, the requests together are the bytes of the
  accesses, each as often as it is accessed, and \<open>buf_idx\<close> points at the first byte for each
  process in the user's buffer.
\<close>

theorem calc_my_req_splits:
  assumes "input_ok (h, sts, ends, mfs)"
    and "ADIOI_Calc_file_domains sts ends (nat (cb_nodes h)) mfs (striping_unit h) = Some (mn, fs, ds)"
    and "\<forall>(off, len) \<in> set accesses. 0 \<le> len \<and> (len \<noteq> 0 \<longrightarrow> Min (set sts) \<le> off \<and> off + len - 1 \<le> Max (set ends))"
    and "\<forall>p \<in> set (ranklist h). p < nprocs" "sum_list (map snd accesses) \<le> INT_MAX"
  shows "\<exists>k cnt req buf. ADIOI_Calc_my_req h accesses mn ds fs nprocs = Some (k, cnt, req, buf) \<and>
     length req = nprocs \<and> length cnt = nprocs \<and> length buf = nprocs \<and>
     (\<forall>p < nprocs. cnt ! p = length (req ! p) \<and>
        (\<forall>(off, l) \<in> set (req ! p). 0 < l \<and> {off ..< off + l} \<subseteq> owns (h, sts, ends, mfs) p) \<and>
        (req ! p \<noteq> [] \<longrightarrow> 0 \<le> buf ! p \<and> bytes_of accesses ! nat (buf ! p) = fst (hd (req ! p)))) \<and>
     mset (bytes_of (concat req)) = mset (bytes_of accesses)"
  by (rule my_req_ok [OF assms])

theorem calc_my_req_splits_witness:
  "\<exists>k cnt req buf. ADIOI_Calc_my_req demo_hints [(2, 3), (6, 0), (6, 5)] 1 demo_ds 6 3 = Some (k, cnt, req, buf) \<and>
     length req = 3 \<and> mset (bytes_of (concat req)) = mset (bytes_of [(2, 3), (6, 0), (6, 5)])"
  using calc_my_req_splits [OF demo_input_ok demo_domains, of "[(2, 3), (6, 0), (6, 5)]" 3]
  by (auto simp: demo_hints_def INT_MAX_def)

section \<open>The exchange\<close>

lemma find_unique:
  assumes "x \<in> set xs" "P x" "\<And>y. y \<in> set xs \<Longrightarrow> P y \<Longrightarrow> y = x"
  shows "List.find P xs = Some x"
proof (cases "List.find P xs")
  case None
  then show ?thesis using assms(1,2) by (auto simp: find_None_iff)
next
  case (Some y)
  then have "y \<in> set xs" "P y" by (auto simp: find_Some_iff)
  with assms(3) Some show ?thesis by auto
qed

lemma those_map_Some: "(\<And>x. x \<in> set xs \<Longrightarrow> f x = Some (g x)) \<Longrightarrow> those (map f xs) = Some (map g xs)"
  by (induction xs) auto

definition network :: "(int \<times> int) list list list \<Rightarrow> message list" where
  "network reqs = concat (map (\<lambda>r. send_reqs r (reqs ! r)) [0..<length reqs])"

lemma in_send:
  "(r', i, t, c) \<in> set (send_reqs r req) \<longleftrightarrow> r' = r \<and> i < length req \<and> req ! i \<noteq> [] \<and>
     (t = i + r \<and> c = map fst (req ! i) \<or> t = i + r + 1 \<and> c = map snd (req ! i))"
  unfolding send_reqs_def by (auto split: if_splits)

lemma in_network:
  assumes "\<forall>r < length reqs. length (reqs ! r) = length reqs"
  shows "(r, i, t, c) \<in> set (network reqs) \<longleftrightarrow> r < length reqs \<and> i < length reqs \<and> reqs ! r ! i \<noteq> [] \<and>
     (t = i + r \<and> c = map fst (reqs ! r ! i) \<or> t = i + r + 1 \<and> c = map snd (reqs ! r ! i))"
  using assms by (auto simp: network_def in_send)

lemma recv_network:
  assumes sq: "\<forall>r < length reqs. length (reqs ! r) = length reqs" and i: "i < length reqs" "p < length reqs" "reqs ! i ! p \<noteq> []"
  shows "recv_msg (network reqs) i p (i + p) = Some (map fst (reqs ! i ! p))"
    "recv_msg (network reqs) i p (i + p + 1) = Some (map snd (reqs ! i ! p))"
proof -
  have "List.find (\<lambda>(s, d, t, c). s = i \<and> d = p \<and> t = i + p) (network reqs) = Some (i, p, i + p, map fst (reqs ! i ! p))"
    by (rule find_unique) (use i in \<open>auto simp: in_network [OF sq]\<close>)
  then show "recv_msg (network reqs) i p (i + p) = Some (map fst (reqs ! i ! p))" by (simp add: recv_msg_def)
  have "List.find (\<lambda>(s, d, t, c). s = i \<and> d = p \<and> t = i + p + 1) (network reqs) =
      Some (i, p, i + p + 1, map snd (reqs ! i ! p))"
    by (rule find_unique) (use i in \<open>auto simp: in_network [OF sq]\<close>)
  then show "recv_msg (network reqs) i p (i + p + 1) = Some (map snd (reqs ! i ! p))" by (simp add: recv_msg_def)
qed

lemma others_req_ok:
  assumes "\<forall>r < length reqs. length (reqs ! r) = length reqs" "p < length reqs"
  shows "ADIOI_Calc_others_req reqs p =
     Some (length (filter (\<lambda>r. reqs ! r ! p \<noteq> []) [0..<length reqs]), map (\<lambda>r. reqs ! r ! p) [0..<length reqs])"
proof -
  let ?cnt = "map (\<lambda>r. length (reqs ! r ! p)) [0..<length reqs]"
  have "those (map (\<lambda>i. if ?cnt ! i = 0 then Some [] else do {
       offs \<leftarrow> recv_msg (network reqs) i p (i + p);
       lens \<leftarrow> recv_msg (network reqs) i p (i + p + 1);
       if length offs = ?cnt ! i \<and> length lens = ?cnt ! i then Some (zip offs lens) else None }) [0..<length reqs]) =
     Some (map (\<lambda>r. reqs ! r ! p) [0..<length reqs])"
  proof (rule those_map_Some)
    fix i assume "i \<in> set [0..<length reqs]"
    then have i: "i < length reqs" by simp
    show "(if ?cnt ! i = 0 then Some [] else do {
       offs \<leftarrow> recv_msg (network reqs) i p (i + p);
       lens \<leftarrow> recv_msg (network reqs) i p (i + p + 1);
       if length offs = ?cnt ! i \<and> length lens = ?cnt ! i then Some (zip offs lens) else None }) = Some (reqs ! i ! p)"
      using i recv_network [OF assms(1) i assms(2)] by (simp add: zip_map_fst_snd)
  qed
  moreover have "length (filter (\<lambda>c. c \<noteq> 0) ?cnt) = length (filter (\<lambda>r. reqs ! r ! p \<noteq> []) [0..<length reqs])"
    by (simp add: filter_map comp_def)
  ultimately show ?thesis
    by (simp add: ADIOI_Calc_others_req_def network_def [symmetric] del: length_map)
qed

text \<open>
  C16: \<open>ADIOI_Calc_others_req\<close> transposes the requests: whatever the requests of the processes,
  process \<open>p\<close> ends up with exactly the requests every process has for \<open>p\<close>, and the tags keep the
  offsets apart from the lengths.
\<close>

theorem calc_others_req_transposes:
  assumes "\<forall>r < length reqs. length (reqs ! r) = length reqs" "p < length reqs"
  shows "ADIOI_Calc_others_req reqs p =
     Some (length (filter (\<lambda>r. reqs ! r ! p \<noteq> []) [0..<length reqs]), map (\<lambda>r. reqs ! r ! p) [0..<length reqs])"
  by (rule others_req_ok [OF assms])

theorem calc_others_req_transposes_witness:
  "ADIOI_Calc_others_req [[[(0, 2)], []], [[(4, 1), (6, 1)], [(9, 3)]]] 0 = Some (2, [[(0, 2)], [(4, 1), (6, 1)]])"
  using calc_others_req_transposes [of "[[[(0, 2)], []], [[(4, 1), (6, 1)], [(9, 3)]]]" 0]
  by (simp add: less_Suc_eq numeral_2_eq_2 upt_rec)

end
