(* ===== verification/C_Strings.thy ===== *)
theory C_Strings
  imports E10_Prelude
begin

text \<open>
  The string routines of \<open>romio/adio/common/strfns.c\<close>. A buffer is the list of its cells, a C
  string is what is before the first null cell; a write outside the buffer, or a read of a
  string that is not terminated, is \<open>None\<close>.
\<close>

section \<open>Buffers\<close>

definition NUL :: char where
  "NUL = CHR 0x00"

definition cstr :: "char list \<Rightarrow> string" where
  "cstr d = takeWhile (\<lambda>c. c \<noteq> NUL) d"

definition terminated :: "char list \<Rightarrow> bool" where
  "terminated d \<longleftrightarrow> NUL \<in> set d"

definition put :: "char list \<Rightarrow> nat \<Rightarrow> char \<Rightarrow> char list option" where
  "put d k c = (if k < length d then Some (d[k := c]) else None)"

section \<open>Copying and appending\<close>

text \<open>
  \<open>while (*s_ptr && i-- > 0) *d_ptr++ = *s_ptr++\<close>: the source string is the list of its
  characters, \<open>k\<close> is the position of \<open>d_ptr\<close>. The result is the buffer, \<open>i\<close> and \<open>k\<close>.
\<close>

fun copy_loop :: "char list \<Rightarrow> string \<Rightarrow> int \<Rightarrow> nat \<Rightarrow> (char list \<times> int \<times> nat) option" where
  "copy_loop d [] i k = Some (d, i, k)"
| "copy_loop d (c # cs) i k =
     (if i > 0 then do { d' \<leftarrow> put d k c; copy_loop d' cs (i - 1) (Suc k) }
      else Some (d, i - 1, k))"

definition ADIOI_Strncpy :: "char list \<Rightarrow> string \<Rightarrow> int \<Rightarrow> (int \<times> char list) option" where
  "ADIOI_Strncpy dest src n = do {
     (d, i, k) \<leftarrow> copy_loop dest src n 0;
     if i > 0 then do { d' \<leftarrow> put d k NUL; Some (0, d') } else Some (1, d) }"

text \<open>
  \<open>while (i-- > 0 && *d_ptr) d_ptr++\<close>; \<open>None\<close> when the scan leaves the buffer.
\<close>

fun scan_loop :: "char list \<Rightarrow> int \<Rightarrow> nat \<Rightarrow> (int \<times> nat) option" where
  "scan_loop [] i k = (if i > 0 then None else Some (i - 1, k))"
| "scan_loop (c # cs) i k =
     (if i > 0 \<and> c \<noteq> NUL then scan_loop cs (i - 1) (Suc k) else Some (i - 1, k))"

definition ADIOI_Strnapp :: "char list \<Rightarrow> string \<Rightarrow> int \<Rightarrow> (int \<times> char list) option" where
  "ADIOI_Strnapp dest src n = do {
     (i, k) \<leftarrow> scan_loop dest n 0;
     if i \<le> 0 then Some (1, dest)
     else do {
       (d, i', k') \<leftarrow> copy_loop dest src i k;
       if i' \<ge> 0 then do { d' \<leftarrow> put d k' NUL; Some (0, d') }
       else do { d' \<leftarrow> put d (k' - 1) NUL; Some (1, d') } } }"

text \<open>The copy is allocated with room for the terminating null (\<open>ADIOI_Malloc\<close> aborts on failure).\<close>

definition ADIOI_Strdup :: "string \<Rightarrow> char list" where
  "ADIOI_Strdup s = s @ [NUL]"

section \<open>Paths\<close>

text \<open>What follows the last slash; the whole string when there is none (\<open>strrchr\<close>).\<close>

fun after_slash :: "string \<Rightarrow> string option" where
  "after_slash [] = None"
| "after_slash (c # cs) = (case after_slash cs of Some t \<Rightarrow> Some t
     | None \<Rightarrow> if c = CHR ''/'' then Some cs else None)"

text \<open>What precedes the last slash; the whole string when there is none.\<close>

definition ADIOI_Dirname :: "string \<Rightarrow> string" where
  "ADIOI_Dirname s = (case after_slash s of None \<Rightarrow> s | Some t \<Rightarrow> take (length s - length t - 1) s)"

text \<open>
  \<open>realpath\<close> is the operating system's: \<open>None\<close> when it fails, and then \<open>junk\<close> is what the
  buffer of \<open>PATH_MAX\<close> cells holds.
\<close>

definition ADIOI_Abspath :: "string option \<Rightarrow> char list \<Rightarrow> string \<Rightarrow> char list option" where
  "ADIOI_Abspath realpath junk str = (case realpath of
     Some p \<Rightarrow> Some (p @ [NUL])
   | None \<Rightarrow> map_option snd (ADIOI_Strncpy junk str (int (length str))))"

text \<open>\<open>strcpy\<close> and \<open>strcat\<close> of the C library: at \<open>k\<close>, the string and its null are written.\<close>

fun write_str :: "char list \<Rightarrow> nat \<Rightarrow> string \<Rightarrow> char list option" where
  "write_str d k [] = put d k NUL"
| "write_str d k (c # cs) = do { d' \<leftarrow> put d k c; write_str d' (Suc k) cs }"

text \<open>\<open>junk\<close> is the content of the fresh allocation; its length is the size that was asked for.\<close>

definition cache_path_size :: "string \<Rightarrow> string \<Rightarrow> nat" where
  "cache_path_size filename cachepath =
     length cachepath + length (case after_slash filename of Some t \<Rightarrow> t | None \<Rightarrow> filename) + 1"

definition ADIOI_GetCacheFilePath :: "char list \<Rightarrow> string \<Rightarrow> string \<Rightarrow> char list option" where
  "ADIOI_GetCacheFilePath junk filename cachepath =
     (let slash = (case after_slash filename of Some t \<Rightarrow> t | None \<Rightarrow> filename) in do {
       d1 \<leftarrow> write_str junk 0 cachepath;
       d2 \<leftarrow> write_str d1 (length cachepath) ''/'';
       write_str d2 (length cachepath + 1) slash })"

section \<open>Lemmas\<close>

lemma copy_loop_fits:
  "length s \<le> nat n \<Longrightarrow> k + length s \<le> length d \<Longrightarrow>
   copy_loop d s n k = Some (take k d @ s @ drop (k + length s) d, n - int (length s), k + length s)"
proof (induction s arbitrary: d n k)
  case (Cons c cs)
  then have n: "0 < n" "length cs \<le> nat (n - 1)" "k < length d" by auto
  with Cons show ?case by (simp add: put_def upd_conv_take_nth_drop take_Suc_conv_app_nth add.commute)
qed simp

lemma copy_loop_stops:
  "0 \<le> n \<Longrightarrow> nat n < length s \<Longrightarrow> k + nat n \<le> length d \<Longrightarrow>
   copy_loop d s n k = Some (take k d @ take (nat n) s @ drop (k + nat n) d, -1, k + nat n)"
proof (induction s arbitrary: d n k)
  case (Cons c cs)
  show ?case
  proof (cases "n = 0")
    case False
    then obtain m where m: "nat n = Suc m" "nat (n - 1) = m" "0 < n" using Cons.prems(1)
      by (cases "nat n") auto
    with Cons show ?thesis by (simp add: put_def upd_conv_take_nth_drop take_Suc_conv_app_nth add.commute)
  qed (use Cons.prems in simp)
qed simp

lemma cstr_append_NUL: "NUL \<notin> set s \<Longrightarrow> cstr (s @ NUL # t) = s"
  unfolding cstr_def by (induction s) auto

lemma strncpy_fits:
  assumes "int (length s) < n" "n \<le> int (length d)"
  shows "ADIOI_Strncpy d s n = Some (0, s @ NUL # drop (Suc (length s)) d)"
proof -
  have "copy_loop d s n 0 = Some (s @ drop (length s) d, n - int (length s), length s)"
    using copy_loop_fits [of s n 0 d] assms by simp
  moreover have "(s @ drop (length s) d)[length s := NUL] = s @ NUL # drop (Suc (length s)) d"
    using assms by (simp add: list_update_append Cons_nth_drop_Suc [symmetric])
  ultimately show ?thesis using assms by (simp add: ADIOI_Strncpy_def put_def)
qed

lemma strncpy_truncates:
  assumes "0 \<le> n" "n \<le> int (length s)" "n \<le> int (length d)"
  shows "ADIOI_Strncpy d s n = Some (1, take (nat n) s @ drop (nat n) d)"
proof (cases "n = int (length s)")
  case True
  then show ?thesis using copy_loop_fits [of s n 0 d] assms by (simp add: ADIOI_Strncpy_def)
next
  case False
  then show ?thesis using copy_loop_stops [of n s 0 d] assms by (simp add: ADIOI_Strncpy_def)
qed

lemma write_str_ok:
  "k + length s < length d \<Longrightarrow> write_str d k s = Some (take k d @ s @ NUL # drop (Suc (k + length s)) d)"
proof (induction s arbitrary: d k)
  case Nil
  then show ?case by (simp add: put_def upd_conv_take_nth_drop)
next
  case (Cons c cs)
  then show ?case by (simp add: put_def upd_conv_take_nth_drop take_Suc_conv_app_nth add.commute)
qed

lemma write_str_overrun: "length d \<le> k + length s \<Longrightarrow> write_str d k s = None"
proof (induction s arbitrary: d k)
  case (Cons c cs)
  then show ?case by (auto simp: put_def)
qed (simp add: put_def)

lemma scan_loop_ok:
  "a < length d \<Longrightarrow> d ! a = NUL \<Longrightarrow> NUL \<notin> set (take a d) \<Longrightarrow> int a < n \<Longrightarrow>
   scan_loop d n k = Some (n - int a - 1, k + a)"
proof (induction d arbitrary: a n k)
  case (Cons c cs)
  then show ?case by (cases a) auto
qed simp

section \<open>Properties\<close>

text \<open>
  \<open>ADIOI_Strncpy\<close> never writes past \<open>n\<close> cells. It returns 0 exactly when the string and its
  null fit, and then the buffer holds the string; otherwise it returns 1 with the first \<open>n\<close>
  characters copied and no null added.
\<close>

theorem strncpy_behaviour:
  assumes "NUL \<notin> set s" "0 \<le> n" "n \<le> int (length d)"
  shows "\<exists>r d'. ADIOI_Strncpy d s n = Some (r, d') \<and> length d' = length d \<and> drop (nat n) d' = drop (nat n) d \<and>
     (r = 0 \<longleftrightarrow> int (length s) < n) \<and> (r = 0 \<longrightarrow> terminated d' \<and> cstr d' = s) \<and>
     (r \<noteq> 0 \<longrightarrow> take (nat n) d' = take (nat n) s)"
proof (cases "int (length s) < n")
  case True
  then have l: "Suc (length s) \<le> nat n" "nat n \<le> length d" using assms by auto
  then obtain m where m: "nat n = Suc (length s) + m" using le_iff_add by blast
  then have "drop (nat n) (s @ NUL # drop (Suc (length s)) d) = drop (nat n) d"
    by (simp add: add.commute)
  with strncpy_fits [OF True assms(3)] True l cstr_append_NUL [OF assms(1)] show ?thesis
    by (simp add: terminated_def)
next
  case False
  then have "ADIOI_Strncpy d s n = Some (1, take (nat n) s @ drop (nat n) d)" "nat n \<le> length s" "nat n \<le> length d"
    using strncpy_truncates [of n s d] assms by auto
  then show ?thesis using False by simp
qed

theorem strncpy_behaviour_witness:
  "\<exists>r d'. ADIOI_Strncpy ''xxxxx'' ''ab'' 4 = Some (r, d') \<and> r = 0 \<and> cstr d' = ''ab''"
  using strncpy_behaviour [of "''ab''" 4 "''xxxxx''"] by (auto simp: NUL_def)

text \<open>
  \<open>ADIOI_Strnapp\<close> on a string shorter than \<open>n - 1\<close> stays within \<open>n\<close> cells and always leaves
  a terminated string: the whole concatenation when it fits, and else a prefix of it, with the
  result telling which. The prefix has \<open>n - 2\<close> characters, one less than the documentation's
  \<open>n\<close> cells with the null allow.
\<close>

theorem strnapp_behaviour:
  assumes "NUL \<notin> set s" "NUL \<notin> set t" "int (length t) < n - 1" "n \<le> int (length d)" "d = t @ NUL # rest"
  shows "\<exists>r d'. ADIOI_Strnapp d s n = Some (r, d') \<and> length d' = length d \<and> terminated d' \<and>
     (if int (length t) + int (length s) < n then r = 0 \<and> cstr d' = t @ s
      else r = 1 \<and> cstr d' = take (nat n - 2) (t @ s))"
proof -
  let ?a = "length t" and ?i = "n - int (length t) - 1"
  have sc: "scan_loop d n 0 = Some (?i, ?a)" using scan_loop_ok [of ?a d n 0] assms by simp
  have i: "0 < ?i" using assms(3) by simp
  show ?thesis
  proof (cases "int ?a + int (length s) < n")
    case True
    then have l: "length s \<le> nat ?i" "?a + length s < length d" using assms(4) by auto
    then have "copy_loop d s ?i ?a = Some (t @ s @ drop (?a + length s) d, ?i - int (length s), ?a + length s)"
      using copy_loop_fits [of s ?i ?a d] assms(5) by simp
    moreover have "(t @ s @ drop (?a + length s) d)[?a + length s := NUL] = (t @ s) @ NUL # drop (Suc (?a + length s)) d"
      using l(2) by (simp add: list_update_append Cons_nth_drop_Suc [symmetric])
    ultimately have "ADIOI_Strnapp d s n = Some (0, (t @ s) @ NUL # drop (Suc (?a + length s)) d)"
      using sc i l True by (simp add: ADIOI_Strnapp_def put_def)
    moreover have "cstr ((t @ s) @ NUL # drop (Suc (?a + length s)) d) = t @ s"
      by (rule cstr_append_NUL) (use assms(1,2) in auto)
    ultimately show ?thesis using True l(2) by (simp add: terminated_def)
  next
    case False
    then have l: "nat ?i < length s" "?a + nat ?i < length d" using assms(3,4) by auto
    then obtain m where m: "nat ?i = Suc m" "nat n - 2 = ?a + m" using i by (cases "nat ?i") auto
    have "copy_loop d s ?i ?a = Some (t @ take (Suc m) s @ drop (?a + Suc m) d, -1, ?a + Suc m)"
      using copy_loop_stops [of ?i s ?a d] l i assms(5) m(1) by simp
    moreover have "(t @ take (Suc m) s @ drop (?a + Suc m) d)[?a + m := NUL] = (t @ take m s) @ NUL # drop (?a + Suc m) d"
      using l m by (simp add: list_update_append take_Suc_conv_app_nth)
    ultimately have "ADIOI_Strnapp d s n = Some (1, (t @ take m s) @ NUL # drop (?a + Suc m) d)"
      using sc i l m by (simp add: ADIOI_Strnapp_def put_def)
    moreover have "cstr ((t @ take m s) @ NUL # drop (?a + Suc m) d) = t @ take m s"
      by (rule cstr_append_NUL) (use assms(1,2) in \<open>auto dest: in_set_takeD\<close>)
    ultimately show ?thesis using False l m by (simp add: terminated_def)
  qed
qed

theorem strnapp_behaviour_witness:
  "\<exists>r d'. ADIOI_Strnapp (''ab'' @ NUL # ''xxx'') ''cdef'' 6 = Some (r, d') \<and> r = 1 \<and> cstr d' = ''abcd''"
  using strnapp_behaviour [of "''cdef''" "''ab''" 6 "''ab'' @ NUL # ''xxx''" "''xxx''"] by (auto simp: NUL_def)

text \<open>
  C40: \<open>ADIOI_GetCacheFilePath\<close> allocates one byte too few: whatever the file name and the cache
  path, its last write is past the end of the buffer. With one more byte the result is the
  cache path, a slash and the base name of the file.
\<close>

theorem cache_path_overrun:
  assumes "NUL \<notin> set filename" "NUL \<notin> set cachepath"
  shows "(\<forall>junk. length junk = cache_path_size filename cachepath \<longrightarrow>
       ADIOI_GetCacheFilePath junk filename cachepath = None) \<and>
     (\<forall>junk. length junk = Suc (cache_path_size filename cachepath) \<longrightarrow>
       (\<exists>d. ADIOI_GetCacheFilePath junk filename cachepath = Some d \<and>
          d = cachepath @ ''/'' @ (case after_slash filename of Some t \<Rightarrow> t | None \<Rightarrow> filename) @ [NUL]))"
proof -
  define b where "b = (case after_slash filename of Some t \<Rightarrow> t | None \<Rightarrow> filename)"
  have size: "cache_path_size filename cachepath = length cachepath + length b + 1"
    by (simp add: cache_path_size_def b_def)
  have "ADIOI_GetCacheFilePath junk filename cachepath = None"
    if "length junk = cache_path_size filename cachepath" for junk
  proof (cases "b = []")
    case True
    then show ?thesis using that size write_str_ok [of 0 cachepath junk]
      by (simp add: ADIOI_GetCacheFilePath_def Let_def put_def flip: b_def)
  next
    case False
    then show ?thesis using that size write_str_ok [of 0 cachepath junk]
      by (simp add: ADIOI_GetCacheFilePath_def Let_def put_def write_str_overrun flip: b_def)
  qed
  moreover have "ADIOI_GetCacheFilePath junk filename cachepath = Some (cachepath @ ''/'' @ b @ [NUL])"
    if "length junk = Suc (cache_path_size filename cachepath)" for junk
    using that size write_str_ok [of 0 cachepath junk]
    by (simp add: ADIOI_GetCacheFilePath_def Let_def put_def write_str_ok list_update_append flip: b_def)
  ultimately show ?thesis by (simp flip: b_def)
qed

theorem cache_path_overrun_witness:
  "ADIOI_GetCacheFilePath ''xxxxxx'' ''/a/f'' ''/tmp'' = None"
  using cache_path_overrun [of "''/a/f''" "''/tmp''"] by (auto simp: NUL_def cache_path_size_def)

text \<open>
  When \<open>realpath\<close> fails, \<open>ADIOI_Abspath\<close> copies the name without its null: what follows is
  whatever the buffer held.
\<close>

lemma abspath_unterminated:
  assumes "length str \<le> length junk"
  shows "ADIOI_Abspath None junk str = Some (str @ drop (length str) junk)"
  using strncpy_truncates [of "int (length str)" str junk] assms by (simp add: ADIOI_Abspath_def)

end
