(* ===== verification/Info_Object.thy ===== *)
theory Info_Object
  imports C_Strings
begin

text \<open>
  ROMIO's own \<open>MPI_Info\<close> objects (\<open>romio/mpi2-other/info/*.c\<close>): a list of key/value pairs behind a
  head cell that carries a cookie. The handle \<open>None\<close> is \<open>MPI_INFO_NULL\<close>; the result \<open>None\<close> of an
  operation is a call that ends in \<open>MPI_Abort\<close>. The locale \<open>info_store\<close> states what the hint
  processing relies on, whichever implementation of info objects it is linked with.
\<close>

section \<open>The operations\<close>

definition MPI_MAX_INFO_KEY :: nat where
  "MPI_MAX_INFO_KEY = 255"

definition MPI_MAX_INFO_VAL :: nat where
  "MPI_MAX_INFO_VAL = 1024"

definition MPIR_INFO_COOKIE :: int where
  "MPIR_INFO_COOKIE = 5835657"

record mpi_info =
  cookie :: int
  pairs :: "(string \<times> string) list"

definition valid_info :: "mpi_info option \<Rightarrow> bool" where
  "valid_info i \<longleftrightarrow> (case i of None \<Rightarrow> False | Some r \<Rightarrow> cookie r = MPIR_INFO_COOKIE)"

definition key_ok :: "string \<Rightarrow> bool" where
  "key_ok k \<longleftrightarrow> length k \<le> MPI_MAX_INFO_KEY \<and> k \<noteq> []"

definition MPI_Info_create :: "mpi_info option" where
  "MPI_Info_create = Some \<lparr>cookie = MPIR_INFO_COOKIE, pairs = []\<rparr>"

text \<open>The walk along the list: the value of the first cell with the key is replaced, or a cell
  is added at the end.\<close>

fun set_pair :: "(string \<times> string) list \<Rightarrow> string \<Rightarrow> string \<Rightarrow> (string \<times> string) list" where
  "set_pair [] k v = [(k, v)]"
| "set_pair (p # ps) k v = (if fst p = k then (k, v) # ps else p # set_pair ps k v)"

definition MPI_Info_set :: "mpi_info option \<Rightarrow> string \<Rightarrow> string \<Rightarrow> mpi_info option" where
  "MPI_Info_set i k v =
     (if \<not> valid_info i then None
      else if length k > MPI_MAX_INFO_KEY then None
      else if length v > MPI_MAX_INFO_VAL then None
      else if k = [] then None
      else if v = [] then None
      else map_option (\<lambda>r. r\<lparr>pairs := set_pair (pairs r) k v\<rparr>) i)"

fun find_pair :: "(string \<times> string) list \<Rightarrow> string \<Rightarrow> string option" where
  "find_pair [] k = None"
| "find_pair (p # ps) k = (if fst p = k then Some (snd p) else find_pair ps k)"

text \<open>
  \<open>value\<close> is the caller's buffer. The result is the flag and the buffer; writing outside it is
  undefined, which is \<open>None\<close> as well.
\<close>

definition MPI_Info_get ::
  "mpi_info option \<Rightarrow> string \<Rightarrow> int \<Rightarrow> char list \<Rightarrow> (bool \<times> char list) option" where
  "MPI_Info_get i k valuelen value =
     (if \<not> valid_info i \<or> \<not> key_ok k \<or> valuelen \<le> 0 then None
      else (case find_pair (pairs (the i)) k of
          None \<Rightarrow> Some (False, value)
        | Some v \<Rightarrow> do {
            (_, d) \<leftarrow> ADIOI_Strncpy value v valuelen;
            d' \<leftarrow> put d (nat valuelen) NUL;
            Some (True, d') }))"

fun delete_pair :: "(string \<times> string) list \<Rightarrow> string \<Rightarrow> (string \<times> string) list option" where
  "delete_pair [] k = None"
| "delete_pair (p # ps) k = (if fst p = k then Some ps else map_option (Cons p) (delete_pair ps k))"

definition MPI_Info_delete :: "mpi_info option \<Rightarrow> string \<Rightarrow> mpi_info option" where
  "MPI_Info_delete i k =
     (if \<not> valid_info i \<or> \<not> key_ok k then None
      else map_option (\<lambda>ps. (the i)\<lparr>pairs := ps\<rparr>) (delete_pair (pairs (the i)) k))"

fun dup_pairs :: "(string \<times> string) list \<Rightarrow> (string \<times> string) list" where
  "dup_pairs [] = []"
| "dup_pairs (p # ps) = (cstr (ADIOI_Strdup (fst p)), cstr (ADIOI_Strdup (snd p))) # dup_pairs ps"

definition MPI_Info_dup :: "mpi_info option \<Rightarrow> mpi_info option" where
  "MPI_Info_dup i = (if \<not> valid_info i then None
     else Some \<lparr>cookie = MPIR_INFO_COOKIE, pairs = dup_pairs (pairs (the i))\<rparr>)"

definition MPI_Info_get_nkeys :: "mpi_info option \<Rightarrow> nat option" where
  "MPI_Info_get_nkeys i = (if \<not> valid_info i then None else Some (length (pairs (the i))))"

text \<open>The key is copied into the caller's buffer.\<close>

definition MPI_Info_get_nthkey :: "mpi_info option \<Rightarrow> int \<Rightarrow> char list \<Rightarrow> char list option" where
  "MPI_Info_get_nthkey i n key =
     (if \<not> valid_info i then None
      else if n < 0 \<or> n \<ge> int (length (pairs (the i))) then None
      else map_option snd (ADIOI_Strncpy key (fst (pairs (the i) ! nat n)) (int MPI_MAX_INFO_KEY)))"

definition MPI_Info_get_valuelen :: "mpi_info option \<Rightarrow> string \<Rightarrow> (bool \<times> nat) option" where
  "MPI_Info_get_valuelen i k =
     (if \<not> valid_info i \<or> \<not> key_ok k then None
      else Some (case find_pair (pairs (the i)) k of None \<Rightarrow> (False, 0) | Some v \<Rightarrow> (True, length v)))"

text \<open>The new value of the handle.\<close>

definition MPI_Info_free :: "mpi_info option \<Rightarrow> mpi_info option option" where
  "MPI_Info_free i = (if \<not> valid_info i then None else Some None)"

section \<open>What hint processing relies on\<close>

record 'i info_ops =
  i_create :: 'i
  i_set :: "'i \<Rightarrow> string \<Rightarrow> string \<Rightarrow> 'i option"
  i_get :: "'i \<Rightarrow> string \<Rightarrow> string option"
  i_delete :: "'i \<Rightarrow> string \<Rightarrow> 'i option"

fun set_all :: "'i info_ops \<Rightarrow> 'i \<Rightarrow> (string \<times> string) list \<Rightarrow> 'i option" where
  "set_all ops i [] = Some i"
| "set_all ops i (p # ps) = do { i' \<leftarrow> i_set ops i (fst p) (snd p); set_all ops i' ps }"

locale info_store =
  fixes ops :: "'i info_ops" and iok :: "'i \<Rightarrow> bool" and accepts :: "string \<Rightarrow> string \<Rightarrow> bool"
  assumes create_ok: "iok (i_create ops) \<and> i_get ops (i_create ops) = Map.empty"
    and set_ok: "iok i \<Longrightarrow> accepts k v \<Longrightarrow>
      \<exists>i'. i_set ops i k v = Some i' \<and> iok i' \<and> i_get ops i' = (i_get ops i)(k \<mapsto> v)"
    and delete_ok: "iok i \<Longrightarrow> i_get ops i k \<noteq> None \<Longrightarrow>
      \<exists>i'. i_delete ops i k = Some i' \<and> iok i' \<and> i_get ops i' = (i_get ops i)(k := None)"
    and get_accepts: "iok i \<Longrightarrow> i_get ops i k = Some v \<Longrightarrow> accepts k v"
begin

lemma set_all_ok:
  "iok i \<Longrightarrow> \<forall>p \<in> set ps. accepts (fst p) (snd p) \<Longrightarrow>
   \<exists>i'. set_all ops i ps = Some i' \<and> iok i' \<and> i_get ops i' = i_get ops i ++ map_of (rev ps)"
proof (induction ps arbitrary: i)
  case Nil
  then show ?case by simp
next
  case (Cons p ps)
  then obtain i1 where i1: "i_set ops i (fst p) (snd p) = Some i1" "iok i1"
      "i_get ops i1 = (i_get ops i)(fst p \<mapsto> snd p)"
    using set_ok [of i "fst p" "snd p"] by auto
  have "(i_get ops i)(fst p \<mapsto> snd p) ++ map_of (rev ps) = i_get ops i ++ map_of (rev (p # ps))"
    by (cases p) (simp add: map_add_def fun_eq_iff split: option.splits)
  moreover obtain i' where "set_all ops i1 ps = Some i'" "iok i'" "i_get ops i' = i_get ops i1 ++ map_of (rev ps)"
    using Cons.IH [OF i1(2)] Cons.prems(2) by auto
  ultimately show ?case using i1(1) unfolding i1(3) by (intro exI [of _ i']) simp
qed

text \<open>Processing the same pairs twice changes nothing more.\<close>

lemma set_all_twice:
  assumes "iok i" "\<forall>p \<in> set ps. accepts (fst p) (snd p)" "set_all ops i ps = Some i1"
  shows "\<exists>i2. set_all ops i1 ps = Some i2 \<and> i_get ops i2 = i_get ops i1"
proof -
  have i1: "iok i1" "i_get ops i1 = i_get ops i ++ map_of (rev ps)"
    using set_all_ok [OF assms(1,2)] assms(3) by auto
  obtain i2 where "set_all ops i1 ps = Some i2" "i_get ops i2 = i_get ops i1 ++ map_of (rev ps)"
    using set_all_ok [OF i1(1) assms(2)] by blast
  moreover have "i_get ops i1 ++ map_of (rev ps) = i_get ops i1"
    unfolding i1(2) by (intro ext) (simp add: map_add_def split: option.split)
  ultimately show ?thesis by auto
qed

end

section \<open>ROMIO's info objects provide it\<close>

definition info_inv :: "mpi_info option \<Rightarrow> bool" where
  "info_inv i \<longleftrightarrow> valid_info i \<and> distinct (map fst (pairs (the i))) \<and>
     (\<forall>(k, v) \<in> set (pairs (the i)). key_ok k \<and> v \<noteq> [] \<and> length v \<le> MPI_MAX_INFO_VAL \<and> NUL \<notin> set v)"

text \<open>How the hint code reads a value: into a buffer of \<open>MPI_MAX_INFO_VAL + 1\<close> cells.\<close>

definition romio_get :: "mpi_info option \<Rightarrow> string \<Rightarrow> string option" where
  "romio_get i k = (case MPI_Info_get i k (int MPI_MAX_INFO_VAL) (replicate (MPI_MAX_INFO_VAL + 1) NUL) of
     Some (True, d) \<Rightarrow> Some (cstr d) | _ \<Rightarrow> None)"

definition romio_ops :: "mpi_info option info_ops" where
  "romio_ops = \<lparr>i_create = MPI_Info_create,
     i_set = (\<lambda>i k v. map_option Some (MPI_Info_set i k v)), i_get = romio_get,
     i_delete = (\<lambda>i k. map_option Some (MPI_Info_delete i k))\<rparr>"

definition romio_accepts :: "string \<Rightarrow> string \<Rightarrow> bool" where
  "romio_accepts k v \<longleftrightarrow> key_ok k \<and> v \<noteq> [] \<and> length v \<le> MPI_MAX_INFO_VAL \<and> NUL \<notin> set v"

lemma find_set_pair: "find_pair (set_pair ps k v) k' = (if k' = k then Some v else find_pair ps k')"
  by (induction ps) auto

lemma find_pair_in: "find_pair ps k = Some v \<Longrightarrow> (k, v) \<in> set ps"
  by (induction ps) (auto split: if_splits)

lemma find_pair_None: "find_pair ps k = None \<longleftrightarrow> k \<notin> fst ` set ps"
  by (induction ps) auto

lemma set_pair_keys: "fst ` set (set_pair ps k v) = insert k (fst ` set ps)"
  by (induction ps) auto

lemma set_set_pair: "set (set_pair ps k v) \<subseteq> insert (k, v) (set ps)"
  by (induction ps) auto

lemma distinct_set_pair: "distinct (map fst ps) \<Longrightarrow> distinct (map fst (set_pair ps k v))"
proof (induction ps)
  case (Cons p ps)
  then show ?case using set_pair_keys [of ps k v] by (auto simp: image_iff)
qed simp

lemma delete_pair_ok:
  "distinct (map fst ps) \<Longrightarrow> k \<in> fst ` set ps \<Longrightarrow>
   \<exists>ps'. delete_pair ps k = Some ps' \<and> distinct (map fst ps') \<and> set ps' \<subseteq> set ps \<and>
     (\<forall>k'. find_pair ps' k' = (if k' = k then None else find_pair ps k'))"
proof (induction ps)
  case (Cons p ps)
  show ?case
  proof (cases "fst p = k")
    case True
    then have "find_pair ps k = None" using Cons.prems(1) by (auto simp: find_pair_None image_iff)
    with True Cons.prems(1) show ?thesis by auto
  next
    case False
    then obtain ps' where "delete_pair ps k = Some ps'" "distinct (map fst ps')" "set ps' \<subseteq> set ps"
        "\<forall>k'. find_pair ps' k' = (if k' = k then None else find_pair ps k')"
      using Cons by auto
    with False Cons.prems(1) show ?thesis by auto
  qed
qed simp

lemma get_buffer:
  assumes "length v \<le> n" "NUL \<notin> set v" "length d = Suc n"
  shows "\<exists>r d1 d2. ADIOI_Strncpy d v (int n) = Some (r, d1) \<and> put d1 n NUL = Some d2 \<and> cstr d2 = v"
proof (cases "length v < n")
  case True
  then obtain m where "n = length v + Suc m" using less_iff_Suc_add by auto
  then have "(v @ NUL # drop (Suc (length v)) d)[n := NUL] = v @ NUL # (drop (Suc (length v)) d)[n - Suc (length v) := NUL]"
    by (simp add: list_update_append)
  with True strncpy_fits [of v "int n" d] assms cstr_append_NUL [OF assms(2)] show ?thesis
    by (simp add: put_def)
next
  case False
  then have n: "length v = n" using assms(1) by simp
  then have "ADIOI_Strncpy d v (int n) = Some (1, v @ drop n d)"
    using strncpy_truncates [of "int n" v d] assms by simp
  moreover have "(v @ drop n d)[n := NUL] = v @ NUL # drop (Suc n) d"
    using n assms(3) by (simp add: list_update_append Cons_nth_drop_Suc [symmetric])
  ultimately show ?thesis using n assms cstr_append_NUL [OF assms(2)] by (simp add: put_def)
qed

lemma romio_get_eq:
  assumes "info_inv i"
  shows "romio_get i = find_pair (pairs (the i))"
proof (intro ext)
  fix k
  have v: "valid_info i" using assms by (simp add: info_inv_def)
  show "romio_get i k = find_pair (pairs (the i)) k"
  proof (cases "find_pair (pairs (the i)) k")
    case None
    then show ?thesis by (simp add: romio_get_def MPI_Info_get_def)
  next
    case (Some v)
    then have kv: "key_ok k" "length v \<le> MPI_MAX_INFO_VAL" "NUL \<notin> set v"
      using assms find_pair_in [OF Some] by (auto simp: info_inv_def)
    then obtain r d1 d2 where "ADIOI_Strncpy (replicate (MPI_MAX_INFO_VAL + 1) NUL) v (int MPI_MAX_INFO_VAL) = Some (r, d1)"
        "put d1 MPI_MAX_INFO_VAL NUL = Some d2" "cstr d2 = v"
      using get_buffer [OF kv(2,3), of "replicate (MPI_MAX_INFO_VAL + 1) NUL"] by auto
    with Some kv(1) \<open>valid_info i\<close> show ?thesis
      by (simp add: romio_get_def MPI_Info_get_def MPI_MAX_INFO_VAL_def)
  qed
qed

lemma info_set_ok:
  assumes "info_inv i" "romio_accepts k v"
  shows "\<exists>r. MPI_Info_set i k v = Some r \<and> info_inv (Some r) \<and> pairs r = set_pair (pairs (the i)) k v"
proof -
  obtain r where r: "i = Some r" using assms(1) by (cases i) (auto simp: info_inv_def valid_info_def)
  have "info_inv (Some (r\<lparr>pairs := set_pair (pairs r) k v\<rparr>))"
    using assms r distinct_set_pair [of "pairs r" k v] set_set_pair [of "pairs r" k v]
    by (auto simp: info_inv_def valid_info_def romio_accepts_def)
  with assms r show ?thesis
    by (auto simp: MPI_Info_set_def info_inv_def romio_accepts_def key_ok_def)
qed

lemma info_delete_ok:
  assumes "info_inv i" "find_pair (pairs (the i)) k \<noteq> None"
  shows "\<exists>r. MPI_Info_delete i k = Some r \<and> info_inv (Some r) \<and>
     find_pair (pairs r) = (find_pair (pairs (the i)))(k := None)"
proof -
  obtain r where r: "i = Some r" using assms(1) by (cases i) (auto simp: info_inv_def valid_info_def)
  obtain v where "find_pair (pairs r) k = Some v" using assms(2) r by auto
  then have kv: "(k, v) \<in> set (pairs r)" by (rule find_pair_in)
  then have "k \<in> fst ` set (pairs r)" by force
  then obtain ps where ps: "delete_pair (pairs r) k = Some ps" "distinct (map fst ps)" "set ps \<subseteq> set (pairs r)"
      "\<forall>k'. find_pair ps k' = (if k' = k then None else find_pair (pairs r) k')"
    using delete_pair_ok [of "pairs r" k] assms(1) r by (auto simp: info_inv_def)
  have "key_ok k" using assms(1) kv r by (auto simp: info_inv_def)
  moreover have "info_inv (Some (r\<lparr>pairs := ps\<rparr>))"
    using assms(1) r ps(2,3) by (auto simp: info_inv_def valid_info_def)
  moreover have "find_pair ps = (find_pair (pairs r))(k := None)" using ps(4) by (intro ext) simp
  ultimately show ?thesis using ps(1) assms(1) r by (auto simp: MPI_Info_delete_def info_inv_def)
qed

interpretation ri: info_store romio_ops info_inv romio_accepts
proof unfold_locales
  show "info_inv (i_create romio_ops) \<and> i_get romio_ops (i_create romio_ops) = Map.empty"
  proof -
    have "info_inv MPI_Info_create" by (simp add: info_inv_def valid_info_def MPI_Info_create_def)
    moreover have "find_pair [] = Map.empty" by (intro ext) simp
    ultimately show ?thesis by (simp add: romio_ops_def romio_get_eq) (simp add: MPI_Info_create_def)
  qed
next
  fix i k v
  assume i: "info_inv i" "romio_accepts k v"
  then obtain r where r: "MPI_Info_set i k v = Some r" "info_inv (Some r)" "pairs r = set_pair (pairs (the i)) k v"
    using info_set_ok by blast
  have "romio_get (Some r) = (romio_get i)(k \<mapsto> v)"
    unfolding romio_get_eq [OF r(2)] romio_get_eq [OF i(1)] by (intro ext) (simp add: r(3) find_set_pair)
  with r show "\<exists>i'. i_set romio_ops i k v = Some i' \<and> info_inv i' \<and> i_get romio_ops i' = (i_get romio_ops i)(k \<mapsto> v)"
    by (simp add: romio_ops_def)
next
  fix i k
  assume i: "info_inv i" "i_get romio_ops i k \<noteq> None"
  then have "find_pair (pairs (the i)) k \<noteq> None" by (simp add: romio_ops_def romio_get_eq)
  then obtain r where r: "MPI_Info_delete i k = Some r" "info_inv (Some r)"
      "find_pair (pairs r) = (find_pair (pairs (the i)))(k := None)"
    using info_delete_ok [OF i(1)] by blast
  then show "\<exists>i'. i_delete romio_ops i k = Some i' \<and> info_inv i' \<and> i_get romio_ops i' = (i_get romio_ops i)(k := None)"
    using i(1) by (simp add: romio_ops_def romio_get_eq)
next
  fix i k v
  assume i: "info_inv i" "i_get romio_ops i k = Some v"
  then have "(k, v) \<in> set (pairs (the i))" by (simp add: romio_ops_def romio_get_eq find_pair_in)
  with i(1) show "romio_accepts k v" by (auto simp: info_inv_def romio_accepts_def)
qed

section \<open>Properties\<close>

text \<open>
  C39: Setting and getting round-trips: after \<open>MPI_Info_set\<close> of a legal pair, \<open>MPI_Info_get\<close>
  into a buffer of \<open>n + 1\<close> cells delivers the value when \<open>n\<close> is at least its length, other keys are
  as before, and the object stays well formed.
\<close>

theorem info_set_get:
  assumes "info_inv i" "romio_accepts k v" "0 < n" "length v \<le> n" "length buf = Suc n"
  shows "\<exists>r d. MPI_Info_set i k v = Some r \<and> info_inv (Some r) \<and>
     MPI_Info_get (Some r) k (int n) buf = Some (True, d) \<and> cstr d = v \<and>
     (\<forall>k'. k' \<noteq> k \<longrightarrow> MPI_Info_get (Some r) k' (int n) buf = MPI_Info_get i k' (int n) buf)"
proof -
  obtain r where r: "MPI_Info_set i k v = Some r" "info_inv (Some r)" "pairs r = set_pair (pairs (the i)) k v"
    using info_set_ok [OF assms(1,2)] by blast
  have v: "key_ok k" "NUL \<notin> set v" using assms(2) by (auto simp: romio_accepts_def)
  obtain c d1 d2 where "ADIOI_Strncpy buf v (int n) = Some (c, d1)" "put d1 n NUL = Some d2" "cstr d2 = v"
    using get_buffer [OF assms(4) v(2) assms(5)] by blast
  moreover have "valid_info (Some r)" "valid_info i" using r(2) assms(1) by (auto simp: info_inv_def)
  ultimately have "MPI_Info_get (Some r) k (int n) buf = Some (True, d2)" "cstr d2 = v"
      "\<forall>k'. k' \<noteq> k \<longrightarrow> MPI_Info_get (Some r) k' (int n) buf = MPI_Info_get i k' (int n) buf"
    using v(1) r(3) assms(3) by (auto simp: MPI_Info_get_def find_set_pair)
  with r show ?thesis by blast
qed

theorem info_set_get_witness:
  "\<exists>r d. MPI_Info_set MPI_Info_create ''cb_nodes'' ''4'' = Some r \<and>
     MPI_Info_get (Some r) ''cb_nodes'' (int 3) ''xxxx'' = Some (True, d) \<and> cstr d = ''4''"
  using info_set_get [of MPI_Info_create "''cb_nodes''" "''4''" 3 "''xxxx''"]
  by (auto simp: info_inv_def valid_info_def MPI_Info_create_def romio_accepts_def key_ok_def NUL_def
      MPI_MAX_INFO_KEY_def MPI_MAX_INFO_VAL_def)

text \<open>
  Deleting a key that is defined removes exactly that key, and deleting one that is not
  defined aborts; a duplicate has the same keys and values in the same order.
\<close>

theorem info_delete_dup:
  assumes "info_inv i" "\<forall>(k, v) \<in> set (pairs (the i)). NUL \<notin> set k"
  shows "(if find_pair (pairs (the i)) k = None then MPI_Info_delete i k = None
      else \<exists>r. MPI_Info_delete i k = Some r \<and> info_inv (Some r) \<and>
        (\<forall>k'. find_pair (pairs r) k' = (if k' = k then None else find_pair (pairs (the i)) k'))) \<and>
     MPI_Info_dup i = Some \<lparr>cookie = MPIR_INFO_COOKIE, pairs = pairs (the i)\<rparr>"
proof -
  have none: "delete_pair ps k = None" if "find_pair ps k = None" for ps
    using that by (induction ps) (auto split: if_splits)
  have "dup_pairs ps = ps" if "\<forall>(k, v) \<in> set ps. NUL \<notin> set k \<and> NUL \<notin> set v" for ps
    using that by (induction ps) (auto simp: ADIOI_Strdup_def cstr_append_NUL [of _ "[]"])
  moreover have "\<forall>(k, v) \<in> set (pairs (the i)). NUL \<notin> set k \<and> NUL \<notin> set v"
    using assms by (auto simp: info_inv_def)
  ultimately have "MPI_Info_dup i = Some \<lparr>cookie = MPIR_INFO_COOKIE, pairs = pairs (the i)\<rparr>"
    using assms(1) by (simp add: MPI_Info_dup_def info_inv_def)
  moreover have "MPI_Info_delete i k = None" if "find_pair (pairs (the i)) k = None"
    using none [OF that] by (simp add: MPI_Info_delete_def)
  moreover have "\<exists>r. MPI_Info_delete i k = Some r \<and> info_inv (Some r) \<and>
      (\<forall>k'. find_pair (pairs r) k' = (if k' = k then None else find_pair (pairs (the i)) k'))"
    if "find_pair (pairs (the i)) k \<noteq> None"
    using info_delete_ok [OF assms(1) that] by auto
  ultimately show ?thesis by auto
qed

theorem info_delete_dup_witness:
  "MPI_Info_delete (Some \<lparr>cookie = MPIR_INFO_COOKIE, pairs = [(''a'', ''1'')]\<rparr>) ''b'' = None \<and>
   MPI_Info_dup (Some \<lparr>cookie = MPIR_INFO_COOKIE, pairs = [(''a'', ''1'')]\<rparr>) =
     Some \<lparr>cookie = MPIR_INFO_COOKIE, pairs = [(''a'', ''1'')]\<rparr>"
  using info_delete_dup [of "Some \<lparr>cookie = MPIR_INFO_COOKIE, pairs = [(''a'', ''1'')]\<rparr>" "''b''"]
  by (simp add: info_inv_def valid_info_def key_ok_def NUL_def MPI_MAX_INFO_KEY_def MPI_MAX_INFO_VAL_def)

text \<open>
  A key of the greatest legal length is returned by \<open>MPI_Info_get_nthkey\<close> without a
  terminating null: \<open>MPI_Info_set\<close> accepts \<open>MPI_MAX_INFO_KEY\<close> characters and the copy stops after
  as many cells.
\<close>

lemma nthkey_unterminated:
  assumes "info_inv i" "pairs (the i) = [(k, v)]" "length k = MPI_MAX_INFO_KEY" "length buf = MPI_MAX_INFO_KEY + 1"
  shows "MPI_Info_get_nthkey i 0 buf = Some (k @ [last buf])"
proof -
  have "drop MPI_MAX_INFO_KEY buf = [last buf]"
    using assms(4) by (metis add_diff_cancel_left' append_butlast_last_id append_eq_conv_conj length_butlast list.size(3)
        add_is_0 one_neq_zero diff_add_inverse2)
  then show ?thesis
    using strncpy_truncates [of "int MPI_MAX_INFO_KEY" k buf] assms
    by (simp add: MPI_Info_get_nthkey_def info_inv_def)
qed

end
