(* ===== verification/Hints.thy ===== *)
theory Hints
  imports Info_Object Cache_IO
begin

text \<open>
  Hint processing: \<open>romio/adio/common/hint_fns.c\<close> and \<open>ADIOI_GEN_SetInfo\<close> (\<open>ad_hints.c\<close>). The
  operations on info objects are those of the MPI library the code is linked with, a parameter
  of the definitions; ROMIO's own (\<open>romio_ops\<close>) are one instance. A failed call (\<open>MPI_Abort\<close>) is
  \<open>None\<close>. \<open>bc key\<close> is the value process 0 broadcasts for a hint.
\<close>

section \<open>Numbers as strings\<close>

definition is_digit :: "char \<Rightarrow> bool" where
  "is_digit c \<longleftrightarrow> 48 \<le> (of_char c :: nat) \<and> (of_char c :: nat) \<le> 57"

fun atoi_digits :: "int \<Rightarrow> string \<Rightarrow> int" where
  "atoi_digits acc [] = acc"
| "atoi_digits acc (c # cs) = (if is_digit c then atoi_digits (10 * acc + (of_char c - 48)) cs else acc)"

definition is_space :: "char \<Rightarrow> bool" where
  "is_space c \<longleftrightarrow> c = CHR '' '' \<or> (9 \<le> (of_char c :: nat) \<and> (of_char c :: nat) \<le> 13)"

text \<open>\<open>atoi\<close>: blanks, an optional sign, digits.\<close>

definition atoi :: "string \<Rightarrow> int" where
  "atoi s = (case dropWhile is_space s of
     [] \<Rightarrow> 0
   | c # cs \<Rightarrow> if c = CHR ''-'' then - atoi_digits 0 cs
       else if c = CHR ''+'' then atoi_digits 0 cs else atoi_digits 0 (c # cs))"

text \<open>\<open>ADIOI_Snprintf (.., "%d", n)\<close> for \<open>n \<ge> 0\<close>.\<close>

fun show_nat :: "nat \<Rightarrow> string" where
  "show_nat n = (if n < 10 then [char_of (48 + n)] else show_nat (n div 10) @ [char_of (48 + n mod 10)])"

declare show_nat.simps [simp del]

section \<open>Installing one hint\<close>

text \<open>
  The arguments are the user's info object, the key, the file's info object and the cached
  value; the result is the return value, the file's info object and the cached value.
\<close>

definition ADIOI_Info_check_and_install_int ::
  "'i info_ops \<Rightarrow> (string \<Rightarrow> int) \<Rightarrow> 'i \<Rightarrow> string \<Rightarrow> 'i \<Rightarrow> int \<Rightarrow> (int \<times> 'i \<times> int) option" where
  "ADIOI_Info_check_and_install_int ops bc u key info cache = (case i_get ops u key of
     None \<Rightarrow> Some (0, info, cache)
   | Some value \<Rightarrow>
       (let intval = atoi value in
        if bc key \<noteq> intval then Some (-1, info, cache)
        else do { info' \<leftarrow> i_set ops info key value; Some (0, info', intval) }))"

definition enabled_value :: "string \<Rightarrow> int option" where
  "enabled_value value =
     (if value = ''enable'' \<or> value = ''ENABLE'' then Some ADIOI_HINT_ENABLE
      else if value = ''disable'' \<or> value = ''DISABLE'' then Some ADIOI_HINT_DISABLE
      else if value = ''automatic'' \<or> value = ''AUTOMATIC'' then Some ADIOI_HINT_AUTO else None)"

definition true_value :: "string \<Rightarrow> int option" where
  "true_value value =
     (if value = ''true'' \<or> value = ''TRUE'' then Some 1
      else if value = ''false'' \<or> value = ''FALSE'' then Some 0 else None)"

text \<open>The common shape of the two routines that recognise words.\<close>

definition install_word ::
  "(string \<Rightarrow> int option) \<Rightarrow> 'i info_ops \<Rightarrow> (string \<Rightarrow> int) \<Rightarrow> 'i \<Rightarrow> string \<Rightarrow> 'i \<Rightarrow> int \<Rightarrow> (int \<times> 'i \<times> int) option" where
  "install_word word ops bc u key info cache = (case i_get ops u key of
     None \<Rightarrow> Some (0, info, cache)
   | Some value \<Rightarrow> do {
       (info', cache') \<leftarrow> (case word value of
           Some x \<Rightarrow> map_option (\<lambda>j. (j, x)) (i_set ops info key value)
         | None \<Rightarrow> Some (info, cache));
       Some (if bc key \<noteq> cache' then -1 else 0, info', cache') })"

definition ADIOI_Info_check_and_install_enabled ::
  "'i info_ops \<Rightarrow> (string \<Rightarrow> int) \<Rightarrow> 'i \<Rightarrow> string \<Rightarrow> 'i \<Rightarrow> int \<Rightarrow> (int \<times> 'i \<times> int) option" where
  "ADIOI_Info_check_and_install_enabled = install_word enabled_value"

definition ADIOI_Info_check_and_install_true ::
  "'i info_ops \<Rightarrow> (string \<Rightarrow> int) \<Rightarrow> 'i \<Rightarrow> string \<Rightarrow> 'i \<Rightarrow> int \<Rightarrow> (int \<times> 'i \<times> int) option" where
  "ADIOI_Info_check_and_install_true = install_word true_value"

text \<open>Whatever the key, the value is installed under the key \<open>cb_config_list\<close>, as in the source.\<close>

definition ADIOI_Info_check_and_install_str ::
  "'i info_ops \<Rightarrow> 'i \<Rightarrow> string \<Rightarrow> 'i \<Rightarrow> string option \<Rightarrow> ('i \<times> string option) option" where
  "ADIOI_Info_check_and_install_str ops u key info cache = (case i_get ops u key of
     None \<Rightarrow> Some (info, cache)
   | Some value \<Rightarrow> do { info' \<leftarrow> i_set ops info ''cb_config_list'' value; Some (info', Some value) })"

section \<open>The hints of a file\<close>

record hints =
  initialized :: bool
  h_cb_buffer_size :: int
  h_cb_read :: int
  h_cb_write :: int
  h_cb_config_list :: "string option"
  h_cb_nodes :: int
  h_no_indep_rw :: int
  h_cb_pfr :: int
  h_cb_fr_type :: int
  h_cb_fr_alignment :: int
  h_cb_ds_threshold :: int
  h_cb_alltoall :: int
  h_deferred_open :: int
  h_ind_rd_buffer_size :: int
  h_ind_wr_buffer_size :: int
  h_ds_read :: int
  h_ds_write :: int
  h_e10_cache :: int
  h_e10_cache_coherent :: int
  h_e10_cache_flush_flag :: int
  h_e10_cache_discard_flag :: int
  h_e10_cache_path :: "string option"
  h_e10_cache_threads :: int
  h_min_fdomain_size :: int
  h_striping_unit :: int

type_synonym 'i hstate = "'i \<times> hints"

definition ADIOI_FR_AAR :: int where
  "ADIOI_FR_AAR = 0"

text \<open>The pairs stored in the file's info object when the hints are first initialised, in order.\<close>

definition default_pairs :: "nat \<Rightarrow> (string \<times> string) list" where
  "default_pairs nprocs =
    [(''cb_buffer_size'', ''16777216''), (''romio_cb_read'', ''automatic''), (''romio_cb_write'', ''automatic''),
     (''cb_nodes'', show_nat nprocs), (''romio_no_indep_rw'', ''false''), (''romio_cb_pfr'', ''disable''),
     (''romio_cb_fr_types'', ''aar''), (''romio_cb_fr_alignment'', ''1''), (''romio_cb_ds_threshold'', ''0''),
     (''romio_cb_alltoall'', ''automatic''), (''ind_rd_buffer_size'', ''4194304''), (''ind_wr_buffer_size'', ''524288''),
     (''romio_ds_read'', ''automatic''), (''romio_ds_write'', ''automatic''),
     (''e10_cache'', ''disable''), (''e10_cache_flush_flag'', ''flush_immediate''),
     (''e10_cache_discard_flag'', ''enable''), (''e10_cache_path'', ''''), (''e10_cache_threads'', ''1'')]"

definition default_hints :: "nat \<Rightarrow> hints" where
  "default_hints nprocs = \<lparr>initialized = True, h_cb_buffer_size = atoi ''16777216'', h_cb_read = ADIOI_HINT_AUTO,
     h_cb_write = ADIOI_HINT_AUTO, h_cb_config_list = None, h_cb_nodes = int nprocs, h_no_indep_rw = 0,
     h_cb_pfr = ADIOI_HINT_DISABLE, h_cb_fr_type = ADIOI_FR_AAR, h_cb_fr_alignment = 1, h_cb_ds_threshold = 0,
     h_cb_alltoall = ADIOI_HINT_AUTO, h_deferred_open = 0, h_ind_rd_buffer_size = atoi ''4194304'',
     h_ind_wr_buffer_size = atoi ''524288'', h_ds_read = ADIOI_HINT_AUTO, h_ds_write = ADIOI_HINT_AUTO,
     h_e10_cache = ADIOI_HINT_DISABLE, h_e10_cache_coherent = ADIOI_HINT_DISABLE,
     h_e10_cache_flush_flag = ADIOI_HINT_FLUSHIMMEDIATE, h_e10_cache_discard_flag = ADIOI_HINT_ENABLE,
     h_e10_cache_path = None, h_e10_cache_threads = 1, h_min_fdomain_size = 0, h_striping_unit = 0\<rparr>"

definition set_default_hints :: "'i info_ops \<Rightarrow> nat \<Rightarrow> 'i hstate \<Rightarrow> 'i hstate option" where
  "set_default_hints ops nprocs st =
     map_option (\<lambda>info. (info, default_hints nprocs)) (set_all ops (fst st) (default_pairs nprocs))"

text \<open>One call of an installing routine on a field of the hints; its return value is ignored.\<close>

definition inst ::
  "('i \<Rightarrow> string \<Rightarrow> 'i \<Rightarrow> int \<Rightarrow> (int \<times> 'i \<times> int) option) \<Rightarrow> 'i \<Rightarrow> string \<Rightarrow> (hints \<Rightarrow> int) \<Rightarrow>
   ((int \<Rightarrow> int) \<Rightarrow> hints \<Rightarrow> hints) \<Rightarrow> 'i hstate \<Rightarrow> 'i hstate option" where
  "inst f u key get upd st = do {
     (_, info, x) \<leftarrow> f u key (fst st) (get (snd st));
     Some (info, upd (\<lambda>_. x) (snd st)) }"

definition set_hint :: "'i info_ops \<Rightarrow> string \<Rightarrow> string \<Rightarrow> (hints \<Rightarrow> hints) \<Rightarrow> 'i hstate \<Rightarrow> 'i hstate option" where
  "set_hint ops key value f st = do { info \<leftarrow> i_set ops (fst st) key value; Some (info, f (snd st)) }"

text \<open>A hint that is stored under a fixed value when a condition on the hints holds.\<close>

definition set_hint_if ::
  "(hints \<Rightarrow> bool) \<Rightarrow> 'i info_ops \<Rightarrow> string \<Rightarrow> string \<Rightarrow> (hints \<Rightarrow> hints) \<Rightarrow> 'i hstate \<Rightarrow> 'i hstate option" where
  "set_hint_if b ops key value f st = (if b (snd st) then set_hint ops key value f st else Some st)"

text \<open>The hints of the user that steer two-phase I/O and data sieving.\<close>

definition user_coll_hints ::
  "'i info_ops \<Rightarrow> (string \<Rightarrow> int) \<Rightarrow> 'i \<Rightarrow> nat \<Rightarrow> bool \<Rightarrow> 'i hstate \<Rightarrow> 'i hstate option" where
  "user_coll_hints ops bc u nprocs ok_to_override_cb_nodes st0 =
    (let int_hint = inst (ADIOI_Info_check_and_install_int ops bc) u;
         enabled_hint = inst (ADIOI_Info_check_and_install_enabled ops bc) u;
         true_hint = inst (ADIOI_Info_check_and_install_true ops bc) u
     in do {
      st \<leftarrow> int_hint ''cb_buffer_size'' h_cb_buffer_size h_cb_buffer_size_update st0;
      st \<leftarrow> int_hint ''romio_cb_fr_alignment'' h_cb_fr_alignment h_cb_fr_alignment_update st;
      st \<leftarrow> int_hint ''romio_cb_ds_threshold'' h_cb_ds_threshold h_cb_ds_threshold_update st;
      st \<leftarrow> enabled_hint ''romio_cb_alltoall'' h_cb_alltoall h_cb_alltoall_update st;
      st \<leftarrow> enabled_hint ''romio_cb_read'' h_cb_read h_cb_read_update st;
      st \<leftarrow> set_hint_if (\<lambda>h. h_cb_read h = ADIOI_HINT_DISABLE) ops ''romio_no_indep_rw'' ''false''
              (h_no_indep_rw_update (\<lambda>_. ADIOI_HINT_DISABLE)) st;
      st \<leftarrow> enabled_hint ''romio_cb_write'' h_cb_write h_cb_write_update st;
      st \<leftarrow> set_hint_if (\<lambda>h. h_cb_write h = ADIOI_HINT_DISABLE) ops ''romio_no_indep_rw'' ''false''
              (h_no_indep_rw_update (\<lambda>_. ADIOI_HINT_DISABLE)) st;
      st \<leftarrow> enabled_hint ''romio_cb_pfr'' h_cb_pfr h_cb_pfr_update st;
      st \<leftarrow> int_hint ''romio_cb_fr_type'' h_cb_fr_type h_cb_fr_type_update st;
      st \<leftarrow> true_hint ''romio_no_indep_rw'' h_no_indep_rw h_no_indep_rw_update st;
      st \<leftarrow> (if h_no_indep_rw (snd st) = 1 then do {
               st1 \<leftarrow> set_hint ops ''romio_cb_write'' ''enable'' id st;
               set_hint ops ''romio_cb_read'' ''enable'' (\<lambda>h. h\<lparr>h_cb_read := 1, h_cb_write := 1\<rparr>) st1 }
             else Some st);
      st \<leftarrow> enabled_hint ''romio_ds_read'' h_ds_read h_ds_read_update st;
      st \<leftarrow> enabled_hint ''romio_ds_write'' h_ds_write h_ds_write_update st;
      st \<leftarrow> (if ok_to_override_cb_nodes then do {
               st1 \<leftarrow> int_hint ''cb_nodes'' h_cb_nodes h_cb_nodes_update st;
               set_hint_if (\<lambda>h. h_cb_nodes h \<le> 0 \<or> h_cb_nodes h > int nprocs) ops ''cb_nodes'' (show_nat nprocs)
                 (h_cb_nodes_update (\<lambda>_. int nprocs)) st1 }
             else Some st);
      st \<leftarrow> int_hint ''ind_wr_buffer_size'' h_ind_wr_buffer_size h_ind_wr_buffer_size_update st;
      st \<leftarrow> int_hint ''ind_rd_buffer_size'' h_ind_rd_buffer_size h_ind_rd_buffer_size_update st;
      st \<leftarrow> (if h_cb_config_list (snd st) = None then do {
               (info, c) \<leftarrow> ADIOI_Info_check_and_install_str ops u ''cb_config_list'' (fst st) None;
               Some (info, (snd st)\<lparr>h_cb_config_list := c\<rparr>) }
             else Some st);
      st \<leftarrow> int_hint ''romio_min_fdomain_size'' h_min_fdomain_size h_min_fdomain_size_update st;
      int_hint ''striping_unit'' h_striping_unit h_striping_unit_update st })"

text \<open>The hints of the cache.\<close>

definition cache_mode_hint :: "'i info_ops \<Rightarrow> 'i \<Rightarrow> 'i hstate \<Rightarrow> 'i hstate option" where
  "cache_mode_hint ops u st = (case i_get ops u ''e10_cache'' of
     None \<Rightarrow> Some st
   | Some value \<Rightarrow>
       if value = ''enable'' \<or> value = ''ENABLE'' then
         set_hint ops ''e10_cache'' ''enable''
           (\<lambda>h. h\<lparr>h_e10_cache := ADIOI_HINT_ENABLE, h_e10_cache_coherent := ADIOI_HINT_DISABLE\<rparr>) st
       else if value = ''coherent'' \<or> value = ''COHERENT'' then
         set_hint ops ''e10_cache'' ''enable''
           (\<lambda>h. h\<lparr>h_e10_cache := ADIOI_HINT_ENABLE, h_e10_cache_coherent := ADIOI_HINT_ENABLE\<rparr>) st
       else set_hint ops ''e10_cache'' ''disable'' (h_e10_cache_update (\<lambda>_. ADIOI_HINT_DISABLE)) st)"

definition flush_flag_hint :: "'i info_ops \<Rightarrow> 'i \<Rightarrow> 'i hstate \<Rightarrow> 'i hstate option" where
  "flush_flag_hint ops u st = (case i_get ops u ''e10_cache_flush_flag'' of
     None \<Rightarrow> Some st
   | Some value \<Rightarrow>
       if value = ''flush_immediate'' \<or> value = ''FLUSH_IMMEDIATE'' then
         set_hint ops ''e10_cache_flush_flag'' ''flush_immediate''
           (h_e10_cache_flush_flag_update (\<lambda>_. ADIOI_HINT_FLUSHIMMEDIATE)) st
       else if value = ''flush_onclose'' \<or> value = ''FLUSH_ONCLOSE'' then
         set_hint ops ''e10_cache_flush_flag'' ''flush_onclose''
           (h_e10_cache_flush_flag_update (\<lambda>_. ADIOI_HINT_FLUSHONCLOSE)) st
       else if value = ''flush_none'' \<or> value = ''FLUSH_NONE'' then
         set_hint ops ''e10_cache_flush_flag'' ''flush_none''
           (h_e10_cache_flush_flag_update (\<lambda>_. ADIOI_HINT_FLUSHNONE)) st
       else Some st)"

definition discard_flag_hint :: "'i info_ops \<Rightarrow> 'i \<Rightarrow> 'i hstate \<Rightarrow> 'i hstate option" where
  "discard_flag_hint ops u st = (case i_get ops u ''e10_cache_discard_flag'' of
     None \<Rightarrow> Some st
   | Some value \<Rightarrow>
       if value = ''enable'' \<or> value = ''ENABLE'' then
         set_hint ops ''e10_cache_discard_flag'' ''enable''
           (h_e10_cache_discard_flag_update (\<lambda>_. ADIOI_HINT_ENABLE)) st
       else if value = ''disable'' \<or> value = ''DISABLE'' then
         set_hint ops ''e10_cache_discard_flag'' ''disable''
           (h_e10_cache_discard_flag_update (\<lambda>_. ADIOI_HINT_DISABLE)) st
       else Some st)"

text \<open>The number of threads is read from the file's own info object, not from the user's.\<close>

definition threads_hint :: "'i info_ops \<Rightarrow> 'i hstate \<Rightarrow> 'i hstate option" where
  "threads_hint ops st = (case i_get ops (fst st) ''e10_cache_threads'' of
     None \<Rightarrow> Some st
   | Some value \<Rightarrow> set_hint ops ''e10_cache_threads'' value (h_e10_cache_threads_update (\<lambda>_. atoi value)) st)"

definition cache_path_hint :: "'i info_ops \<Rightarrow> 'i \<Rightarrow> 'i hstate \<Rightarrow> 'i hstate option" where
  "cache_path_hint ops u st = (case i_get ops u ''e10_cache_path'' of
     None \<Rightarrow> Some st
   | Some value \<Rightarrow> set_hint ops ''e10_cache_path'' value (h_e10_cache_path_update (\<lambda>_. Some value)) st)"

definition user_cache_hints :: "'i info_ops \<Rightarrow> 'i \<Rightarrow> 'i hstate \<Rightarrow> 'i hstate option" where
  "user_cache_hints ops u st0 = do {
     st \<leftarrow> cache_mode_hint ops u st0;
     if h_e10_cache (snd st) = ADIOI_HINT_ENABLE then do {
       st \<leftarrow> flush_flag_hint ops u st;
       st \<leftarrow> discard_flag_hint ops u st;
       st \<leftarrow> threads_hint ops st;
       cache_path_hint ops u st }
     else Some st }"

text \<open>Hints that depend on others. \<open>ds_writes\<close> is \<open>ADIO_Feature(fd, ADIO_DATA_SIEVING_WRITES)\<close>.\<close>

definition post_hints :: "'i info_ops \<Rightarrow> bool \<Rightarrow> 'i hstate \<Rightarrow> 'i hstate option" where
  "post_hints ops ds_writes st0 = do {
     st \<leftarrow> set_hint_if (\<lambda>h. h_cb_config_list h = None) ops ''cb_config_list'' ''*:1''
            (h_cb_config_list_update (\<lambda>_. Some ''*:1'')) st0;
     st \<leftarrow> (if h_cb_read (snd st) \<noteq> ADIOI_HINT_DISABLE \<and> h_cb_write (snd st) \<noteq> ADIOI_HINT_DISABLE \<and>
               h_no_indep_rw (snd st) \<noteq> 0
            then Some (fst st, (snd st)\<lparr>h_deferred_open := 1\<rparr>)
            else set_hint ops ''romio_no_indep_rw'' ''false'' (\<lambda>h. h\<lparr>h_no_indep_rw := 0, h_deferred_open := 0\<rparr>) st);
     if ds_writes then Some st
     else do {
       info \<leftarrow> (if i_get ops (fst st) ''ind_wr_buffer_size'' \<noteq> None
               then i_delete ops (fst st) ''ind_wr_buffer_size'' else Some (fst st));
       set_hint ops ''romio_ds_write'' ''disable'' (h_ds_write_update (\<lambda>_. ADIOI_HINT_DISABLE)) (info, snd st) } }"

text \<open>
  \<open>info\<close> and \<open>users_info\<close> are \<open>None\<close> when they are \<open>MPI_INFO_NULL\<close>. The error code of a call that
  returns is always \<open>MPI_SUCCESS\<close>: what the installing routines reported is overwritten.
\<close>

definition ADIOI_GEN_SetInfo ::
  "'i info_ops \<Rightarrow> (string \<Rightarrow> int) \<Rightarrow> nat \<Rightarrow> bool \<Rightarrow> 'i option \<Rightarrow> 'i option \<times> hints \<Rightarrow> ('i option \<times> hints) option" where
  "ADIOI_GEN_SetInfo ops bc nprocs ds_writes users_info fd =
     (if initialized (snd fd) \<and> fst fd = None then Some fd
      else do {
        let info = (case fst fd of None \<Rightarrow> i_create ops | Some i \<Rightarrow> i);
        st \<leftarrow> (if \<not> initialized (snd fd) then set_default_hints ops nprocs (info, snd fd) else Some (info, snd fd));
        st \<leftarrow> (case users_info of None \<Rightarrow> Some st
               | Some u \<Rightarrow> do { st1 \<leftarrow> user_coll_hints ops bc u nprocs (\<not> initialized (snd fd)) st;
                                user_cache_hints ops u st1 });
        st \<leftarrow> post_hints ops ds_writes st;
        Some (Some (fst st), snd st) })"

section \<open>Numbers survive printing and reading\<close>

lemma digit_char: "m < 10 \<Longrightarrow> is_digit (char_of (48 + m :: nat)) \<and> (of_char (char_of (48 + m :: nat)) :: int) = 48 + int m"
proof -
  assume "m < 10"
  then have "of_char (char_of (48 + m :: nat)) = (48 + m :: nat)" by (simp add: of_char_of)
  moreover from this have "(of_char (char_of (48 + m :: nat)) :: int) = int (48 + m)"
    by (metis of_nat_of_char)
  ultimately show ?thesis using \<open>m < 10\<close> by (simp add: is_digit_def)
qed

lemma atoi_digits_append:
  "\<forall>c \<in> set xs. is_digit c \<Longrightarrow> atoi_digits acc (xs @ ys) = atoi_digits (atoi_digits acc xs) ys"
  by (induction xs arbitrary: acc) auto

lemma show_nat_digits: "(\<forall>c \<in> set (show_nat n). is_digit c) \<and> show_nat n \<noteq> []"
proof (induction n rule: show_nat.induct)
  case (1 n)
  then show ?case by (subst (1 2) show_nat.simps) (auto simp: digit_char)
qed

lemma atoi_digits_show: "atoi_digits 0 (show_nat n) = int n"
proof (induction n rule: show_nat.induct)
  case (1 n)
  show ?case
  proof (cases "n < 10")
    case True
    then show ?thesis by (subst show_nat.simps) (simp add: digit_char)
  next
    case False
    then have "atoi_digits 0 (show_nat n) = 10 * int (n div 10) + int (n mod 10)"
      using 1 show_nat_digits [of "n div 10"]
      by (subst show_nat.simps) (simp add: atoi_digits_append digit_char)
    then show ?thesis by presburger
  qed
qed

lemma atoi_show: "atoi (show_nat n) = int n"
proof (cases "show_nat n")
  case Nil
  then show ?thesis using show_nat_digits [of n] by simp
next
  case (Cons c cs)
  then have "is_digit c" using show_nat_digits [of n] by simp
  moreover from this have "c \<noteq> CHR ''-''" "c \<noteq> CHR ''+''" "\<not> is_space c"
    by (auto simp: is_digit_def is_space_def)
  ultimately have "atoi (c # cs) = atoi_digits 0 (c # cs)" by (simp add: atoi_def)
  then show ?thesis using atoi_digits_show [of n] Cons by simp
qed

section \<open>Steps that succeed\<close>

definition triple :: "('s \<Rightarrow> bool) \<Rightarrow> ('s \<Rightarrow> 's option) \<Rightarrow> ('s \<Rightarrow> bool) \<Rightarrow> bool" where
  "triple P f Q \<longleftrightarrow> (\<forall>s. P s \<longrightarrow> (\<exists>s'. f s = Some s' \<and> Q s'))"

lemma triple_bind: "triple P f Q \<Longrightarrow> triple Q g R \<Longrightarrow> triple P (\<lambda>s. f s \<bind> g) R"
  unfolding triple_def by (metis Option.bind.bind_lunit)

lemma triple_if: "(b \<Longrightarrow> triple P f Q) \<Longrightarrow> (\<not> b \<Longrightarrow> triple P g Q) \<Longrightarrow> triple P (\<lambda>s. if b then f s else g s) Q"
  by (simp add: triple_def)

text \<open>What no step but those of the cache hints changes.\<close>

definition cache_part :: "hints \<Rightarrow> bool \<times> int \<times> int \<times> int \<times> int \<times> string option \<times> int" where
  "cache_part h = (initialized h, h_e10_cache h, h_e10_cache_coherent h, h_e10_cache_flush_flag h,
     h_e10_cache_discard_flag h, h_e10_cache_path h, h_e10_cache_threads h)"

text \<open>The pairs that hint processing itself may store.\<close>

definition stored_pairs :: "nat \<Rightarrow> (string \<times> string) list" where
  "stored_pairs nprocs = default_pairs nprocs @
    [(''romio_cb_write'', ''enable''), (''romio_cb_read'', ''enable''), (''cb_config_list'', ''*:1''),
     (''romio_ds_write'', ''disable''), (''e10_cache'', ''enable''),
     (''e10_cache_flush_flag'', ''flush_onclose''), (''e10_cache_flush_flag'', ''flush_none''),
     (''e10_cache_discard_flag'', ''disable'')]"

text \<open>What holds between the steps: the info object is usable and still has the default number
  of threads, it reports the number of aggregators in force, and \<open>Q\<close> holds of the hints.\<close>

definition nodes_shown :: "'i info_ops \<Rightarrow> 'i hstate \<Rightarrow> bool" where
  "nodes_shown ops st \<longleftrightarrow> map_option atoi (i_get ops (fst st) ''cb_nodes'') = Some (h_cb_nodes (snd st))"

definition base :: "'i info_ops \<Rightarrow> ('i \<Rightarrow> bool) \<Rightarrow> (hints \<Rightarrow> bool) \<Rightarrow> 'i hstate \<Rightarrow> bool" where
  "base ops iok Q st \<longleftrightarrow> iok (fst st) \<and> i_get ops (fst st) ''e10_cache_threads'' = Some ''1'' \<and>
     nodes_shown ops st \<and> Q (snd st)"

definition installs ::
  "('i \<Rightarrow> string \<Rightarrow> 'i \<Rightarrow> int \<Rightarrow> (int \<times> 'i \<times> int) option) \<Rightarrow> 'i info_ops \<Rightarrow> ('i \<Rightarrow> bool) \<Rightarrow> 'i \<Rightarrow> bool" where
  "installs f ops iok u \<longleftrightarrow> (\<forall>key info x. iok info \<longrightarrow>
     (\<exists>r info' y. f u key info x = Some (r, info', y) \<and> iok info' \<and>
        (\<forall>k. k \<noteq> key \<longrightarrow> i_get ops info' k = i_get ops info k)))"

lemma inst_step:
  assumes "installs f ops iok u" "key \<noteq> ''e10_cache_threads'' \<and> key \<noteq> ''cb_nodes''"
    "\<And>h x. P h \<Longrightarrow> h_cb_nodes (upd (\<lambda>_. x) h) = h_cb_nodes h \<and> Q (upd (\<lambda>_. x) h)"
  shows "triple (base ops iok P) (inst f u key get upd) (base ops iok Q)"
  unfolding triple_def
proof (intro allI impI)
  fix st
  assume st: "base ops iok P st"
  then obtain r info' y where "f u key (fst st) (get (snd st)) = Some (r, info', y)" "iok info'"
      "i_get ops info' ''e10_cache_threads'' = i_get ops (fst st) ''e10_cache_threads''"
      "i_get ops info' ''cb_nodes'' = i_get ops (fst st) ''cb_nodes''"
    using assms(1,2) unfolding installs_def base_def by metis
  with st assms(3) show "\<exists>st'. inst f u key get upd st = Some st' \<and> base ops iok Q st'"
    by (simp add: inst_def base_def nodes_shown_def)
qed

context info_store
begin

lemma int_installs:
  assumes "iok u"
  shows "installs (ADIOI_Info_check_and_install_int ops bc) ops iok u"
  unfolding installs_def
proof (intro allI impI)
  fix key info x
  assume "iok info"
  then show "\<exists>r info' y. ADIOI_Info_check_and_install_int ops bc u key info x = Some (r, info', y) \<and> iok info' \<and>
      (\<forall>k. k \<noteq> key \<longrightarrow> i_get ops info' k = i_get ops info k)"
    using get_accepts [OF assms, of key] set_ok [of info key]
    by (force simp: ADIOI_Info_check_and_install_int_def Let_def split: option.split)
qed

lemma word_installs:
  assumes "iok u"
  shows "installs (install_word w ops bc) ops iok u"
  unfolding installs_def
proof (intro allI impI)
  fix key info x
  assume i: "iok info"
  show "\<exists>r info' y. install_word w ops bc u key info x = Some (r, info', y) \<and> iok info' \<and>
      (\<forall>k. k \<noteq> key \<longrightarrow> i_get ops info' k = i_get ops info k)"
  proof (cases "i_get ops u key")
    case None
    with i show ?thesis by (simp add: install_word_def)
  next
    case (Some v)
    then obtain j where "i_set ops info key v = Some j" "iok j" "i_get ops j = (i_get ops info)(key \<mapsto> v)"
      using get_accepts [OF assms Some] set_ok [OF i] by blast
    with Some i show ?thesis by (cases "w v") (simp_all add: install_word_def)
  qed
qed

lemma set_step:
  assumes "accepts key v" "key \<noteq> ''e10_cache_threads'' \<and> key \<noteq> ''cb_nodes''"
    "\<And>h. P h \<Longrightarrow> h_cb_nodes (f h) = h_cb_nodes h \<and> Q (f h)"
  shows "triple (base ops iok P) (set_hint ops key v f) (base ops iok Q)"
  unfolding triple_def
proof (intro allI impI)
  fix st
  assume st: "base ops iok P st"
  then obtain j where "i_set ops (fst st) key v = Some j" "iok j" "i_get ops j = (i_get ops (fst st))(key \<mapsto> v)"
    using set_ok [OF _ assms(1), of "fst st"] by (auto simp: base_def)
  with st assms(2,3) show "\<exists>st'. set_hint ops key v f st = Some st' \<and> base ops iok Q st'"
    by (auto simp: set_hint_def base_def nodes_shown_def)
qed

lemma set_if_step:
  assumes "accepts key v" "key \<noteq> ''e10_cache_threads'' \<and> key \<noteq> ''cb_nodes''"
    "\<And>h. P h \<Longrightarrow> b h \<Longrightarrow> h_cb_nodes (f h) = h_cb_nodes h \<and> Q (f h)" "\<And>h. P h \<Longrightarrow> \<not> b h \<Longrightarrow> Q h"
  shows "triple (base ops iok P) (set_hint_if b ops key v f) (base ops iok Q)"
  unfolding triple_def
proof (intro allI impI)
  fix st
  assume st: "base ops iok P st"
  show "\<exists>st'. set_hint_if b ops key v f st = Some st' \<and> base ops iok Q st'"
  proof (cases "b (snd st)")
    case True
    then show ?thesis
      using set_step [OF assms(1,2), where P = "\<lambda>h. P h \<and> b h" and Q = Q and f = f] assms(3) st
      by (cases st) (auto simp: triple_def base_def set_hint_if_def)
  next
    case False
    with st assms(4) show ?thesis by (simp add: base_def set_hint_if_def)
  qed
qed

end

definition coll_ok :: "bool \<times> int \<times> int \<times> int \<times> int \<times> string option \<times> int \<Rightarrow> nat \<Rightarrow> hints \<Rightarrow> bool" where
  "coll_ok c nprocs h \<longleftrightarrow> cache_part h = c \<and> 1 \<le> h_cb_nodes h \<and> h_cb_nodes h \<le> int nprocs"

lemma triple_keep: "triple P f P \<Longrightarrow> triple P g R \<Longrightarrow> triple P (\<lambda>s. f s \<bind> g) R"
  by (rule triple_bind)

lemma triple_id: "triple P Some P"
  by (simp add: triple_def)

lemma triple_cond:
  "triple (\<lambda>s. P s \<and> b s) f Q \<Longrightarrow> triple (\<lambda>s. P s \<and> \<not> b s) g Q \<Longrightarrow> triple P (\<lambda>s. if b s then f s else g s) Q"
  by (simp add: triple_def)

lemma triple_weaken: "triple P f Q \<Longrightarrow> (\<And>s. P' s \<Longrightarrow> P s) \<Longrightarrow> triple P' f Q"
  unfolding triple_def by blast

lemma triple_Some: "(\<And>s. P s \<Longrightarrow> Q s) \<Longrightarrow> triple P Some Q"
  by (simp add: triple_def)

context info_store
begin

lemma str_step:
  assumes "iok u"
  shows "triple (base ops iok (coll_ok c nprocs))
     (\<lambda>st. if h_cb_config_list (snd st) = None then do {
               (info, c) \<leftarrow> ADIOI_Info_check_and_install_str ops u ''cb_config_list'' (fst st) None;
               Some (info, (snd st)\<lparr>h_cb_config_list := c\<rparr>) }
             else Some st) (base ops iok (coll_ok c nprocs))"
  unfolding triple_def
proof (intro allI impI)
  fix st
  assume st: "base ops iok (coll_ok c nprocs) st"
  show "\<exists>s'. (if h_cb_config_list (snd st) = None then do {
               (info, c) \<leftarrow> ADIOI_Info_check_and_install_str ops u ''cb_config_list'' (fst st) None;
               Some (info, (snd st)\<lparr>h_cb_config_list := c\<rparr>) }
             else Some st) = Some s' \<and> base ops iok (coll_ok c nprocs) s'"
  proof (cases "i_get ops u ''cb_config_list''")
    case None
    with st show ?thesis
      by (cases st) (simp add: ADIOI_Info_check_and_install_str_def base_def coll_ok_def cache_part_def nodes_shown_def)
  next
    case (Some v)
    then obtain j where "i_set ops (fst st) ''cb_config_list'' v = Some j" "iok j"
        "i_get ops j = (i_get ops (fst st))(''cb_config_list'' \<mapsto> v)"
      using get_accepts [OF assms Some] set_ok st unfolding base_def by blast
    with st Some show ?thesis
      by (cases st) (simp add: ADIOI_Info_check_and_install_str_def base_def coll_ok_def cache_part_def nodes_shown_def)
  qed
qed

lemma cb_nodes_step:
  assumes "iok u" "accepts ''cb_nodes'' (show_nat nprocs)" "1 \<le> nprocs"
  shows "triple (base ops iok (coll_ok c nprocs))
     (\<lambda>st. do { st1 \<leftarrow> inst (ADIOI_Info_check_and_install_int ops bc) u ''cb_nodes'' h_cb_nodes h_cb_nodes_update st;
       set_hint_if (\<lambda>h. h_cb_nodes h \<le> 0 \<or> h_cb_nodes h > int nprocs) ops ''cb_nodes'' (show_nat nprocs)
                 (h_cb_nodes_update (\<lambda>_. int nprocs)) st1 }) (base ops iok (coll_ok c nprocs))"
proof (rule triple_bind [where Q = "base ops iok (\<lambda>h. cache_part h = c)"])
  show "triple (base ops iok (coll_ok c nprocs))
      (inst (ADIOI_Info_check_and_install_int ops bc) u ''cb_nodes'' h_cb_nodes h_cb_nodes_update)
      (base ops iok (\<lambda>h. cache_part h = c))"
    unfolding triple_def
  proof (intro allI impI)
    fix st
    assume st: "base ops iok (coll_ok c nprocs) st"
    show "\<exists>st'. inst (ADIOI_Info_check_and_install_int ops bc) u ''cb_nodes'' h_cb_nodes h_cb_nodes_update st = Some st' \<and>
        base ops iok (\<lambda>h. cache_part h = c) st'"
    proof (cases "i_get ops u ''cb_nodes''")
      case None
      with st show ?thesis
        by (simp add: inst_def ADIOI_Info_check_and_install_int_def base_def coll_ok_def cache_part_def nodes_shown_def)
    next
      case (Some v)
      then obtain j where "i_set ops (fst st) ''cb_nodes'' v = Some j" "iok j"
          "i_get ops j = (i_get ops (fst st))(''cb_nodes'' \<mapsto> v)"
        using get_accepts [OF assms(1) Some] set_ok st unfolding base_def by blast
      with st Some show ?thesis
        by (cases st) (simp add: inst_def ADIOI_Info_check_and_install_int_def Let_def base_def coll_ok_def cache_part_def nodes_shown_def)
    qed
  qed
  show "triple (base ops iok (\<lambda>h. cache_part h = c))
      (set_hint_if (\<lambda>h. h_cb_nodes h \<le> 0 \<or> h_cb_nodes h > int nprocs) ops ''cb_nodes'' (show_nat nprocs)
        (h_cb_nodes_update (\<lambda>_. int nprocs))) (base ops iok (coll_ok c nprocs))"
    unfolding triple_def
  proof (intro allI impI)
    fix st
    assume st: "base ops iok (\<lambda>h. cache_part h = c) st"
    then obtain j where "i_set ops (fst st) ''cb_nodes'' (show_nat nprocs) = Some j" "iok j"
        "i_get ops j = (i_get ops (fst st))(''cb_nodes'' \<mapsto> show_nat nprocs)"
      using set_ok [OF _ assms(2)] unfolding base_def by blast
    with st assms(3) show "\<exists>st'. set_hint_if (\<lambda>h. h_cb_nodes h \<le> 0 \<or> h_cb_nodes h > int nprocs) ops ''cb_nodes''
        (show_nat nprocs) (h_cb_nodes_update (\<lambda>_. int nprocs)) st = Some st' \<and> base ops iok (coll_ok c nprocs) st'"
      by (cases st) (auto simp: set_hint_if_def set_hint_def base_def coll_ok_def cache_part_def nodes_shown_def atoi_show)
  qed
qed

lemma user_coll_hints_ok:
  assumes "iok u" "\<forall>p \<in> set (stored_pairs nprocs). accepts (fst p) (snd p)" "1 \<le> nprocs"
  shows "triple (base ops iok (coll_ok c nprocs)) (user_coll_hints ops bc u nprocs ov) (base ops iok (coll_ok c nprocs))"
proof -
  have acc: "accepts ''romio_no_indep_rw'' ''false''" "accepts ''romio_cb_write'' ''enable''"
      "accepts ''romio_cb_read'' ''enable''" "accepts ''cb_nodes'' (show_nat nprocs)"
    using assms(2) by (simp_all add: stored_pairs_def default_pairs_def)
  have fields: "coll_ok c nprocs (f h) = coll_ok c nprocs h"
    if "cache_part (f h) = cache_part h" "h_cb_nodes (f h) = h_cb_nodes h" for f h
    using that by (simp add: coll_ok_def)
  note steps = inst_step [OF int_installs [OF assms(1)]] inst_step [OF word_installs [OF assms(1)]]
    set_if_step [OF acc(1)] set_step [OF acc(2)] set_step [OF acc(3)] str_step [OF assms(1)]
    cb_nodes_step [OF assms(1) acc(4) assms(3)]
  have indep: "triple (base ops iok (coll_ok c nprocs))
     (\<lambda>st. if h_no_indep_rw (snd st) = 1 then do {
               st1 \<leftarrow> set_hint ops ''romio_cb_write'' ''enable'' id st;
               set_hint ops ''romio_cb_read'' ''enable'' (\<lambda>h. h\<lparr>h_cb_read := 1, h_cb_write := 1\<rparr>) st1 }
             else Some st) (base ops iok (coll_ok c nprocs))"
    by (rule triple_cond, rule triple_weaken [where P = "base ops iok (coll_ok c nprocs)"], rule triple_keep,
        rule steps(4), simp, simp, rule steps(5), simp)
      (simp_all add: fields cache_part_def triple_def)
  show ?thesis
    unfolding user_coll_hints_def Let_def ADIOI_Info_check_and_install_enabled_def ADIOI_Info_check_and_install_true_def
    by (rule triple_keep steps(1-3,6) indep triple_if triple_id steps(7) | simp add: fields cache_part_def)+
qed

end

section \<open>The cache hints\<close>

text \<open>What the user's info object says about the cache.\<close>

definition asks :: "(string \<rightharpoonup> string) \<Rightarrow> string \<Rightarrow> string \<Rightarrow> string \<Rightarrow> bool" where
  "asks m key lower upper \<longleftrightarrow> m key = Some lower \<or> m key = Some upper"

definition wants_cache :: "(string \<rightharpoonup> string) \<Rightarrow> bool" where
  "wants_cache m \<longleftrightarrow> asks m ''e10_cache'' ''enable'' ''ENABLE'' \<or> asks m ''e10_cache'' ''coherent'' ''COHERENT''"

definition cache_spec :: "(string \<rightharpoonup> string) \<Rightarrow> bool \<times> int \<times> int \<times> int \<times> int \<times> string option \<times> int" where
  "cache_spec m =
     (if wants_cache m then
       (True, ADIOI_HINT_ENABLE,
        if asks m ''e10_cache'' ''coherent'' ''COHERENT'' then ADIOI_HINT_ENABLE else ADIOI_HINT_DISABLE,
        if asks m ''e10_cache_flush_flag'' ''flush_onclose'' ''FLUSH_ONCLOSE'' then ADIOI_HINT_FLUSHONCLOSE
        else if asks m ''e10_cache_flush_flag'' ''flush_none'' ''FLUSH_NONE'' then ADIOI_HINT_FLUSHNONE
        else ADIOI_HINT_FLUSHIMMEDIATE,
        if asks m ''e10_cache_discard_flag'' ''disable'' ''DISABLE'' then ADIOI_HINT_DISABLE else ADIOI_HINT_ENABLE,
        m ''e10_cache_path'', 1)
      else (True, ADIOI_HINT_DISABLE, ADIOI_HINT_DISABLE, ADIOI_HINT_FLUSHIMMEDIATE, ADIOI_HINT_ENABLE, None, 1))"

lemmas hint_consts = ADIOI_HINT_ENABLE_def ADIOI_HINT_DISABLE_def ADIOI_HINT_FLUSHIMMEDIATE_def
  ADIOI_HINT_FLUSHONCLOSE_def ADIOI_HINT_FLUSHNONE_def

context info_store
begin

lemma cache_mode_step:
  assumes "accepts ''e10_cache'' ''enable''" "accepts ''e10_cache'' ''disable''"
  shows "triple (base ops iok (coll_ok (a, ADIOI_HINT_DISABLE, ADIOI_HINT_DISABLE, f, d, p, t) nprocs)) (cache_mode_hint ops u)
     (base ops iok (coll_ok (a, if wants_cache (i_get ops u) then ADIOI_HINT_ENABLE else ADIOI_HINT_DISABLE,
        if asks (i_get ops u) ''e10_cache'' ''coherent'' ''COHERENT'' then ADIOI_HINT_ENABLE else ADIOI_HINT_DISABLE,
        f, d, p, t) nprocs))"
proof (cases "i_get ops u ''e10_cache''")
  case None
  then show ?thesis unfolding cache_mode_hint_def by (simp add: wants_cache_def asks_def triple_id)
next
  case (Some v)
  show ?thesis unfolding cache_mode_hint_def Some option.case
    by (intro triple_if set_step assms) (auto simp: Some coll_ok_def cache_part_def wants_cache_def asks_def)
qed

lemma flush_flag_step:
  assumes "accepts ''e10_cache_flush_flag'' ''flush_immediate''" "accepts ''e10_cache_flush_flag'' ''flush_onclose''"
    "accepts ''e10_cache_flush_flag'' ''flush_none''"
  shows "triple (base ops iok (coll_ok (a, e, c, ADIOI_HINT_FLUSHIMMEDIATE, d, p, t) nprocs)) (flush_flag_hint ops u)
     (base ops iok (coll_ok (a, e, c,
        if asks (i_get ops u) ''e10_cache_flush_flag'' ''flush_onclose'' ''FLUSH_ONCLOSE'' then ADIOI_HINT_FLUSHONCLOSE
        else if asks (i_get ops u) ''e10_cache_flush_flag'' ''flush_none'' ''FLUSH_NONE'' then ADIOI_HINT_FLUSHNONE
        else ADIOI_HINT_FLUSHIMMEDIATE, d, p, t) nprocs))"
proof (cases "i_get ops u ''e10_cache_flush_flag''")
  case None
  then show ?thesis unfolding flush_flag_hint_def by (simp add: asks_def triple_id)
next
  case (Some v)
  show ?thesis unfolding flush_flag_hint_def Some option.case
    by (intro triple_if set_step assms) (auto simp: Some coll_ok_def cache_part_def asks_def triple_id)
qed

lemma discard_flag_step:
  assumes "accepts ''e10_cache_discard_flag'' ''enable''" "accepts ''e10_cache_discard_flag'' ''disable''"
  shows "triple (base ops iok (coll_ok (a, e, c, f, ADIOI_HINT_ENABLE, p, t) nprocs)) (discard_flag_hint ops u)
     (base ops iok (coll_ok (a, e, c, f, if asks (i_get ops u) ''e10_cache_discard_flag'' ''disable'' ''DISABLE''
        then ADIOI_HINT_DISABLE else ADIOI_HINT_ENABLE, p, t) nprocs))"
proof (cases "i_get ops u ''e10_cache_discard_flag''")
  case None
  then show ?thesis unfolding discard_flag_hint_def by (simp add: asks_def triple_id)
next
  case (Some v)
  show ?thesis unfolding discard_flag_hint_def Some option.case
    by (intro triple_if set_step assms) (auto simp: Some coll_ok_def cache_part_def asks_def triple_id)
qed

lemma threads_step:
  assumes "accepts ''e10_cache_threads'' ''1''"
  shows "triple (base ops iok (coll_ok (a, e, c, f, d, p, t) nprocs)) (threads_hint ops)
     (base ops iok (coll_ok (a, e, c, f, d, p, 1) nprocs))"
  unfolding triple_def
proof (intro allI impI)
  fix st
  assume st: "base ops iok (coll_ok (a, e, c, f, d, p, t) nprocs) st"
  then obtain j where "i_set ops (fst st) ''e10_cache_threads'' ''1'' = Some j" "iok j"
      "i_get ops j = (i_get ops (fst st))(''e10_cache_threads'' \<mapsto> ''1'')"
    using set_ok [OF _ assms, of "fst st"] by (auto simp: base_def)
  moreover have "atoi ''1'' = 1" by code_simp
  ultimately show "\<exists>st'. threads_hint ops st = Some st' \<and> base ops iok (coll_ok (a, e, c, f, d, p, 1) nprocs) st'"
    using st by (simp add: threads_hint_def set_hint_def base_def coll_ok_def cache_part_def nodes_shown_def)
qed

lemma cache_path_step:
  assumes "iok u"
  shows "triple (base ops iok (coll_ok (a, e, c, f, d, None, t) nprocs)) (cache_path_hint ops u)
     (base ops iok (coll_ok (a, e, c, f, d, i_get ops u ''e10_cache_path'', t) nprocs))"
proof (cases "i_get ops u ''e10_cache_path''")
  case None
  then show ?thesis unfolding cache_path_hint_def by (simp add: triple_id)
next
  case (Some v)
  show ?thesis unfolding cache_path_hint_def Some option.case
    by (intro set_step get_accepts [OF assms Some]) (auto simp: Some coll_ok_def cache_part_def)
qed

lemma user_cache_hints_ok:
  assumes "iok u" "\<forall>p \<in> set (stored_pairs nprocs). accepts (fst p) (snd p)"
  shows "triple (base ops iok (coll_ok (cache_part (default_hints nprocs)) nprocs)) (user_cache_hints ops u)
     (base ops iok (coll_ok (cache_spec (i_get ops u)) nprocs))"
proof -
  have acc: "accepts ''e10_cache'' ''enable''" "accepts ''e10_cache'' ''disable''"
      "accepts ''e10_cache_flush_flag'' ''flush_immediate''" "accepts ''e10_cache_flush_flag'' ''flush_onclose''"
      "accepts ''e10_cache_flush_flag'' ''flush_none''" "accepts ''e10_cache_discard_flag'' ''enable''"
      "accepts ''e10_cache_discard_flag'' ''disable''" "accepts ''e10_cache_threads'' ''1''"
    using assms(2) by (simp_all add: stored_pairs_def default_pairs_def)
  let ?m = "i_get ops u"
  let ?e = "if wants_cache ?m then ADIOI_HINT_ENABLE else ADIOI_HINT_DISABLE"
  let ?c = "if asks ?m ''e10_cache'' ''coherent'' ''COHERENT'' then ADIOI_HINT_ENABLE else ADIOI_HINT_DISABLE"
  let ?P = "base ops iok (coll_ok (True, ?e, ?c, ADIOI_HINT_FLUSHIMMEDIATE, ADIOI_HINT_ENABLE, None, 1) nprocs)"
  have rest: "triple (\<lambda>st. ?P st \<and> h_e10_cache (snd st) = ADIOI_HINT_ENABLE)
      (\<lambda>st. do { st \<leftarrow> flush_flag_hint ops u st; st \<leftarrow> discard_flag_hint ops u st; st \<leftarrow> threads_hint ops st; cache_path_hint ops u st })
      (base ops iok (coll_ok (cache_spec ?m) nprocs))"
  proof (cases "wants_cache ?m")
    case True
    then show ?thesis unfolding cache_spec_def
      by (simp only: if_True)
        (rule triple_weaken [where P = ?P], unfold if_P [OF True],
         rule triple_bind [OF flush_flag_step [OF acc(3-5)]], rule triple_bind [OF discard_flag_step [OF acc(6,7)]],
         rule triple_bind [OF threads_step [OF acc(8)]], rule cache_path_step [OF assms(1)], simp)
  next
    case False
    then show ?thesis by (auto simp: triple_def base_def coll_ok_def cache_part_def hint_consts)
  qed
  have skip: "triple (\<lambda>st. ?P st \<and> h_e10_cache (snd st) \<noteq> ADIOI_HINT_ENABLE) Some
      (base ops iok (coll_ok (cache_spec ?m) nprocs))"
    by (rule triple_Some) (auto simp: base_def coll_ok_def cache_spec_def cache_part_def wants_cache_def asks_def split: if_splits)
  have "triple (base ops iok (coll_ok (cache_part (default_hints nprocs)) nprocs)) (cache_mode_hint ops u) ?P"
    using cache_mode_step [OF acc(1,2), of True ADIOI_HINT_FLUSHIMMEDIATE ADIOI_HINT_ENABLE None 1 nprocs u]
    by (simp add: cache_part_def default_hints_def)
  then show ?thesis unfolding user_cache_hints_def by (rule triple_bind) (rule triple_cond [OF rest skip])
qed

end

section \<open>Dependent hints and the whole routine\<close>

text \<open>No hint contradicts another.\<close>

definition hints_agree :: "bool \<Rightarrow> hints \<Rightarrow> bool" where
  "hints_agree ds_writes h \<longleftrightarrow> h_cb_config_list h \<noteq> None \<and>
     (h_deferred_open h = 1 \<and> h_cb_read h \<noteq> ADIOI_HINT_DISABLE \<and> h_cb_write h \<noteq> ADIOI_HINT_DISABLE \<and> h_no_indep_rw h \<noteq> 0 \<or>
      h_deferred_open h = 0 \<and> h_no_indep_rw h = 0) \<and>
     (ds_writes \<or> h_ds_write h = ADIOI_HINT_DISABLE)"

context info_store
begin

lemma deferred_step:
  assumes "accepts ''romio_no_indep_rw'' ''false''"
  shows "triple (base ops iok (\<lambda>h. coll_ok c nprocs h \<and> h_cb_config_list h \<noteq> None))
     (\<lambda>st. if h_cb_read (snd st) \<noteq> ADIOI_HINT_DISABLE \<and> h_cb_write (snd st) \<noteq> ADIOI_HINT_DISABLE \<and>
               h_no_indep_rw (snd st) \<noteq> 0
            then Some (fst st, (snd st)\<lparr>h_deferred_open := 1\<rparr>)
            else set_hint ops ''romio_no_indep_rw'' ''false'' (\<lambda>h. h\<lparr>h_no_indep_rw := 0, h_deferred_open := 0\<rparr>) st)
     (base ops iok (\<lambda>h. coll_ok c nprocs h \<and> hints_agree True h))"
  by (rule triple_cond, simp add: triple_def base_def coll_ok_def cache_part_def hints_agree_def nodes_shown_def,
      rule triple_weaken [OF set_step [OF assms, of "\<lambda>h. coll_ok c nprocs h \<and> h_cb_config_list h \<noteq> None"]])
    (auto simp: coll_ok_def cache_part_def hints_agree_def)

lemma ds_write_step:
  assumes "accepts ''romio_ds_write'' ''disable''"
  shows "triple (base ops iok (\<lambda>h. coll_ok c nprocs h \<and> hints_agree True h))
     (\<lambda>st. do {
       info \<leftarrow> (if i_get ops (fst st) ''ind_wr_buffer_size'' \<noteq> None
               then i_delete ops (fst st) ''ind_wr_buffer_size'' else Some (fst st));
       set_hint ops ''romio_ds_write'' ''disable'' (h_ds_write_update (\<lambda>_. ADIOI_HINT_DISABLE)) (info, snd st) })
     (base ops iok (\<lambda>h. coll_ok c nprocs h \<and> hints_agree False h))"
  unfolding triple_def
proof (intro allI impI)
  fix st
  assume st: "base ops iok (\<lambda>h. coll_ok c nprocs h \<and> hints_agree True h) st"
  obtain info where info: "(if i_get ops (fst st) ''ind_wr_buffer_size'' \<noteq> None
      then i_delete ops (fst st) ''ind_wr_buffer_size'' else Some (fst st)) = Some info"
      "base ops iok (\<lambda>h. coll_ok c nprocs h \<and> hints_agree True h) (info, snd st)"
    using st delete_ok [of "fst st" "''ind_wr_buffer_size''"]
    by (cases "i_get ops (fst st) ''ind_wr_buffer_size'' = None") (auto simp: base_def nodes_shown_def)
  have "triple (base ops iok (\<lambda>h. coll_ok c nprocs h \<and> hints_agree True h))
     (set_hint ops ''romio_ds_write'' ''disable'' (h_ds_write_update (\<lambda>_. ADIOI_HINT_DISABLE)))
     (base ops iok (\<lambda>h. coll_ok c nprocs h \<and> hints_agree False h))"
    by (rule set_step [OF assms]) (auto simp: coll_ok_def cache_part_def hints_agree_def)
  then show "\<exists>st'. do {
       info \<leftarrow> (if i_get ops (fst st) ''ind_wr_buffer_size'' \<noteq> None
               then i_delete ops (fst st) ''ind_wr_buffer_size'' else Some (fst st));
       set_hint ops ''romio_ds_write'' ''disable'' (h_ds_write_update (\<lambda>_. ADIOI_HINT_DISABLE)) (info, snd st) } = Some st' \<and>
     base ops iok (\<lambda>h. coll_ok c nprocs h \<and> hints_agree False h) st'"
    using info(2) unfolding info(1) triple_def by simp
qed

lemma post_hints_ok:
  assumes "\<forall>p \<in> set (stored_pairs nprocs). accepts (fst p) (snd p)"
  shows "triple (base ops iok (coll_ok c nprocs)) (post_hints ops ds_writes)
     (base ops iok (\<lambda>h. coll_ok c nprocs h \<and> hints_agree ds_writes h))"
proof -
  have acc: "accepts ''cb_config_list'' ''*:1''" "accepts ''romio_no_indep_rw'' ''false''"
      "accepts ''romio_ds_write'' ''disable''"
    using assms by (simp_all add: stored_pairs_def default_pairs_def)
  have config: "triple (base ops iok (coll_ok c nprocs))
      (set_hint_if (\<lambda>h. h_cb_config_list h = None) ops ''cb_config_list'' ''*:1'' (h_cb_config_list_update (\<lambda>_. Some ''*:1'')))
      (base ops iok (\<lambda>h. coll_ok c nprocs h \<and> h_cb_config_list h \<noteq> None))"
    by (rule set_if_step [OF acc(1)]) (auto simp: coll_ok_def cache_part_def)
  show ?thesis
    unfolding post_hints_def
    by (rule triple_bind [OF config], rule triple_bind [OF deferred_step [OF acc(2)]], rule triple_if)
      (use ds_write_step [OF acc(3), of c nprocs] in \<open>simp_all add: triple_id\<close>)
qed

lemma default_ok:
  assumes "iok i" "\<forall>p \<in> set (stored_pairs nprocs). accepts (fst p) (snd p)" "1 \<le> nprocs"
  shows "\<exists>st. set_default_hints ops nprocs (i, h) = Some st \<and>
     base ops iok (coll_ok (cache_part (default_hints nprocs)) nprocs) st"
proof -
  obtain i' where "set_all ops i (default_pairs nprocs) = Some i'" "iok i'"
      "i_get ops i' = i_get ops i ++ map_of (rev (default_pairs nprocs))"
    using set_all_ok [OF assms(1), of "default_pairs nprocs"] assms(2) by (auto simp: stored_pairs_def)
  moreover have "map_of (rev (default_pairs nprocs)) ''e10_cache_threads'' = Some ''1''"
    by (simp add: default_pairs_def)
  moreover have "map_of (rev (default_pairs nprocs)) ''cb_nodes'' = Some (show_nat nprocs)"
    by (simp add: default_pairs_def)
  ultimately show ?thesis
    using assms(3)
    by (simp add: set_default_hints_def base_def coll_ok_def nodes_shown_def atoi_show) (simp add: default_hints_def)
qed

lemma SetInfo_at_open:
  assumes "case fst fd of None \<Rightarrow> True | Some i \<Rightarrow> iok i" "\<not> initialized (snd fd)" "1 \<le> nprocs"
    "\<forall>p \<in> set (stored_pairs nprocs). accepts (fst p) (snd p)"
    "case users_info of None \<Rightarrow> True | Some u \<Rightarrow> iok u"
  shows "\<exists>i h. ADIOI_GEN_SetInfo ops bc nprocs ds_writes users_info fd = Some (Some i, h) \<and> iok i \<and>
     cache_part h = cache_spec (case users_info of None \<Rightarrow> Map.empty | Some u \<Rightarrow> i_get ops u) \<and>
     1 \<le> h_cb_nodes h \<and> h_cb_nodes h \<le> int nprocs \<and> hints_agree ds_writes h \<and>
     map_option atoi (i_get ops i ''cb_nodes'') = Some (h_cb_nodes h)"
proof -
  let ?c = "cache_spec (case users_info of None \<Rightarrow> Map.empty | Some u \<Rightarrow> i_get ops u)"
  let ?i = "case fst fd of None \<Rightarrow> i_create ops | Some i \<Rightarrow> i"
  have "iok ?i" using assms(1) create_ok by (simp split: option.splits)
  then obtain st1 where st1: "set_default_hints ops nprocs (?i, snd fd) = Some st1"
      "base ops iok (coll_ok (cache_part (default_hints nprocs)) nprocs) st1"
    using default_ok [OF _ assms(4,3)] by blast
  let ?user = "\<lambda>st. case users_info of None \<Rightarrow> Some st
      | Some u \<Rightarrow> do { st1 \<leftarrow> user_coll_hints ops bc u nprocs True st; user_cache_hints ops u st1 }"
  have "triple (base ops iok (coll_ok (cache_part (default_hints nprocs)) nprocs)) ?user (base ops iok (coll_ok ?c nprocs))"
  proof (cases users_info)
    case None
    have "cache_part (default_hints nprocs) = cache_spec Map.empty"
      by (simp add: cache_part_def default_hints_def cache_spec_def wants_cache_def asks_def)
    then show ?thesis using None by (simp add: triple_id)
  next
    case (Some u)
    then have "iok u" using assms(5) by simp
    with Some show ?thesis
      using triple_bind [OF user_coll_hints_ok [OF _ assms(4,3)] user_cache_hints_ok [OF _ assms(4)]] by simp
  qed
  then obtain st2 where st2: "?user st1 = Some st2" "base ops iok (coll_ok ?c nprocs) st2"
    using st1(2) unfolding triple_def by blast
  obtain st3 where "post_hints ops ds_writes st2 = Some st3"
      "base ops iok (\<lambda>h. coll_ok ?c nprocs h \<and> hints_agree ds_writes h) st3"
    using post_hints_ok [OF assms(4)] st2(2) unfolding triple_def by blast
  with st1(1) st2(1) assms(2) show ?thesis
    by (cases st3, cases st2, cases users_info) (auto simp: ADIOI_GEN_SetInfo_def base_def coll_ok_def nodes_shown_def bind_eq_Some_conv)
qed

end

section \<open>Properties of hint processing\<close>

text \<open>Info objects as plain maps: an implementation without restrictions on keys and values.\<close>

definition map_ops :: "(string \<rightharpoonup> string) info_ops" where
  "map_ops = \<lparr>i_create = Map.empty, i_set = (\<lambda>i k v. Some (i(k \<mapsto> v))), i_get = (\<lambda>i. i),
     i_delete = (\<lambda>i k. Some (i(k := None)))\<rparr>"

interpretation mo: info_store map_ops "\<lambda>_. True" "\<lambda>_ _. True"
  by unfold_locales (simp_all add: map_ops_def)


definition demo_user :: "string \<rightharpoonup> string" where
  "demo_user = [''e10_cache'' \<mapsto> ''coherent'', ''e10_cache_flush_flag'' \<mapsto> ''flush_onclose'',
     ''e10_cache_path'' \<mapsto> ''/tmp'', ''cb_nodes'' \<mapsto> ''99'']"


lemma set_all_append: "set_all ops i (ps @ qs) = set_all ops i ps \<bind> (\<lambda>i'. set_all ops i' qs)"
  by (induction ps arbitrary: i) simp_all

lemma romio_rejects_empty: "i_set romio_ops i k [] = None"
  by (simp add: romio_ops_def MPI_Info_set_def)

text \<open>
  C37: over ROMIO's own info objects the first call of \<open>ADIOI_GEN_SetInfo\<close> on a file always ends in
  \<open>MPI_Abort\<close>: the defaults store the empty string under \<open>e10_cache_path\<close>, which
  \<open>MPI_Info_set\<close> rejects.
\<close>

theorem SetInfo_aborts_on_romio_info:
  assumes "\<not> initialized h"
  shows "ADIOI_GEN_SetInfo romio_ops bc nprocs ds_writes users_info (info, h) = None"
proof -
  have split: "default_pairs nprocs = take 17 (default_pairs nprocs) @ [(''e10_cache_path'', []), (''e10_cache_threads'', ''1'')]"
    by (simp add: default_pairs_def)
  have "set_all romio_ops i (default_pairs nprocs) = None" for i
    by (subst split, subst set_all_append) (simp add: romio_rejects_empty bind_eq_None_conv)
  with assms show ?thesis by (simp add: ADIOI_GEN_SetInfo_def set_default_hints_def)
qed

theorem SetInfo_aborts_on_romio_info_witness:
  "ADIOI_GEN_SetInfo romio_ops (\<lambda>_. 0) 4 True None (None, (default_hints 4)\<lparr>initialized := False\<rparr>) = None"
  by (rule SetInfo_aborts_on_romio_info) simp

end
