(* ===== verification/Config_List.thy ===== *)
theory Config_List
  imports Hints
begin

text \<open>
  The choice of the aggregators from the hint \<open>cb_config_list\<close>
  (\<open>romio/adio/common/cb_config_list.c\<close>): the lexical analyser, the parser, and the matching of
  processor names. The globals \<open>token_ptr\<close> and \<open>yylval\<close> are a state that is passed along. An
  array of ranks keeps its length; a write outside an array is \<open>None\<close>. The names are the rank
  ordered list \<open>ADIOI_cb_gather_name_array\<close> leaves on process 0. \<open>ADIOI_Malloc\<close> aborts the program
  when it cannot allocate, so its result is never tested here.
\<close>

section \<open>The lexical analyser\<close>

datatype token = AGG_WILDCARD | AGG_STRING | AGG_COMMA | AGG_COLON | AGG_ERROR | AGG_EOS

record lexst =
  token_ptr :: string
  yylval :: string

definition COLON :: char where
  "COLON = CHR '':''"

definition COMMA :: char where
  "COMMA = CHR '',''"

text \<open>\<open>strcspn (s, DELIMS)\<close>.\<close>

definition word_length :: "string \<Rightarrow> nat" where
  "word_length s = length (takeWhile (\<lambda>c. c \<noteq> COLON \<and> c \<noteq> COMMA) s)"

text \<open>\<open>yylval\<close> has room for \<open>MPI_MAX_INFO_VAL\<close> characters and the null.\<close>

definition cb_config_list_lex :: "lexst \<Rightarrow> (token \<times> lexst) option" where
  "cb_config_list_lex l = (case token_ptr l of
     [] \<Rightarrow> Some (AGG_EOS, l)
   | c # cs \<Rightarrow>
       (let slen = word_length (c # cs) in
        if c = COLON then Some (AGG_COLON, l\<lparr>token_ptr := cs\<rparr>)
        else if c = COMMA then Some (AGG_COMMA, l\<lparr>token_ptr := cs\<rparr>)
        else if c = CHR ''*'' then
          (if slen = 1 then Some (AGG_WILDCARD, l\<lparr>token_ptr := cs\<rparr>) else Some (AGG_ERROR, l))
        else if slen > MPI_MAX_INFO_VAL then None
        else Some (AGG_STRING, \<lparr>token_ptr = drop slen (c # cs), yylval = take slen (c # cs)\<rparr>)))"

text \<open>
  \<open>strtol (s, &errptr, 10)\<close> on a 64 bit system: the value, saturated, and the rest of the string
  (all of it when there are no digits); and the conversion to \<open>int\<close>.
\<close>

definition strtol :: "string \<Rightarrow> int \<times> string" where
  "strtol s =
     (let t = dropWhile is_space s;
          u = (case t of [] \<Rightarrow> [] | c # cs \<Rightarrow> if c = CHR ''-'' \<or> c = CHR ''+'' then cs else t);
          v = (if t \<noteq> [] \<and> hd t = CHR ''-'' then - atoi_digits 0 u else atoi_digits 0 u)
      in if takeWhile is_digit u = [] then (0, s)
         else (max (- (2 ^ 63)) (min (2 ^ 63 - 1) v), dropWhile is_digit u))"

definition to_int :: "int \<Rightarrow> int" where
  "to_int x = (x + 2 ^ 31) mod 2 ^ 32 - 2 ^ 31"

definition get_max_procs :: "int \<Rightarrow> lexst \<Rightarrow> (int \<times> lexst) option" where
  "get_max_procs nodes l = do {
     (token, l1) \<leftarrow> cb_config_list_lex l;
     if token = AGG_EOS \<or> token = AGG_COMMA then Some (1, l1)
     else if token = AGG_COLON then do {
       (token, l2) \<leftarrow> cb_config_list_lex l1;
       if token \<noteq> AGG_WILDCARD \<and> token \<noteq> AGG_STRING then Some (-1, l2)
       else do {
         let max_procs = (if token = AGG_WILDCARD then nodes
           else (case strtol (yylval l2) of (n, rest) \<Rightarrow> if rest \<noteq> [] then 1 else to_int n));
         (token, l3) \<leftarrow> cb_config_list_lex l2;
         if token \<noteq> AGG_COMMA \<and> token \<noteq> AGG_EOS then Some (-1, l3)
         else if max_procs < 0 then Some (-1, l3) else Some (max_procs, l3) } }
     else Some (-1, l1) }"

section \<open>Matching processor names\<close>

fun find_name :: "string \<Rightarrow> (string \<times> bool) list \<Rightarrow> nat \<Rightarrow> nat option" where
  "find_name name [] i = None"
| "find_name name ((p, u) # ps) i =
     (if \<not> u \<and> name = p then Some i else find_name name ps (Suc i))"

text \<open>The search from index \<open>start\<close> on.\<close>

definition find_from :: "string \<Rightarrow> string list \<Rightarrow> bool list \<Rightarrow> nat \<Rightarrow> nat option" where
  "find_from name names used start = find_name name (drop start (zip names used)) start"

text \<open>The first loop of \<open>match_this_proc\<close>; \<open>cur_proc\<close> is \<open>None\<close> when a name was not found.\<close>

fun alloc_loop ::
  "string \<Rightarrow> string list \<Rightarrow> nat \<Rightarrow> nat \<Rightarrow> bool list \<Rightarrow> nat list \<Rightarrow> nat \<Rightarrow>
   (nat option \<times> bool list \<times> nat list \<times> nat) option" where
  "alloc_loop name names 0 i used ranks n = Some (Some i, used, ranks, n)"
| "alloc_loop name names (Suc k) i used ranks n = (case find_from name names used i of
     None \<Rightarrow> Some (None, used, ranks, n)
   | Some j \<Rightarrow> if n < length ranks
       then alloc_loop name names k (Suc j) (used[j := True]) (ranks[n := j]) (Suc n) else None)"

lemma find_name_bounds: "find_name name ps i = Some j \<Longrightarrow> i \<le> j \<and> j < i + length ps"
  by (induction name ps i rule: find_name.induct) (auto split: if_splits)

lemma find_from_bounds:
  "find_from name names used i = Some j \<Longrightarrow> i \<le> j \<and> j < length names \<and> j < length used"
  using find_name_bounds [of name "drop i (zip names used)" i j] by (auto simp: find_from_def)

text \<open>The second loop: all other processes with the name are taken out of the list.\<close>

function strike_loop :: "string \<Rightarrow> string list \<Rightarrow> nat \<Rightarrow> bool list \<Rightarrow> bool list" where
  "strike_loop name names i used = (case find_from name names used i of
     None \<Rightarrow> used | Some j \<Rightarrow> strike_loop name names (Suc j) (used[j := True]))"
  by pat_completeness auto
termination
  by (relation "measure (\<lambda>(name, names, i, used). length names - i)") (auto dest!: find_from_bounds)

declare strike_loop.simps [simp del]

definition match_this_proc ::
  "string \<Rightarrow> nat \<Rightarrow> int \<Rightarrow> string list \<Rightarrow> bool list \<Rightarrow> nat list \<Rightarrow> int \<Rightarrow> nat \<Rightarrow> (nat \<times> bool list \<times> nat list) option" where
  "match_this_proc name i max_matches names used ranks nr_ranks n =
     (let ranks_remaining = nr_ranks - int n;
          nr_to_alloc = (if max_matches < ranks_remaining then max_matches else ranks_remaining)
      in do {
        (cur_proc, used', ranks', n') \<leftarrow> alloc_loop name names (nat nr_to_alloc) i used ranks n;
        Some (n' - n, case cur_proc of None \<Rightarrow> used' | Some j \<Rightarrow> strike_loop name names j used', ranks') })"

fun skip_used :: "bool list \<Rightarrow> nat \<Rightarrow> nat" where
  "skip_used [] i = i"
| "skip_used (u # us) i = (if u then skip_used us (Suc i) else i)"

lemma skip_used_bounds: "i \<le> skip_used us i \<and> skip_used us i \<le> i + length us"
proof (induction us i rule: skip_used.induct)
  case (2 u us i)
  then show ?case by (cases u) auto
qed simp

text \<open>The wildcard case of \<open>match_procs\<close>: \<open>w\<close> is \<open>wildcard_proc\<close>.\<close>

function wildcard_loop ::
  "int \<Rightarrow> string list \<Rightarrow> nat \<Rightarrow> bool list \<Rightarrow> nat list \<Rightarrow> int \<Rightarrow> nat \<Rightarrow> (bool list \<times> nat list \<times> nat) option" where
  "wildcard_loop max_per_proc names w used ranks nr_ranks n =
     (if nr_ranks - int n > 0 then
        (let w' = skip_used (drop w used) w in
         if w' \<ge> length names \<or> w' \<ge> length used then Some (used, ranks, n)
         else if n < length ranks then
           (case match_this_proc (names ! w') (Suc w') (max_per_proc - 1) names used (ranks[n := w']) nr_ranks (Suc n) of
              None \<Rightarrow> None
            | Some (ret, used', ranks') \<Rightarrow>
                wildcard_loop max_per_proc names (Suc w') (used'[w' := True]) ranks' nr_ranks (Suc n + ret))
         else None)
      else Some (used, ranks, n))"
  by pat_completeness auto
termination
proof (relation "measure (\<lambda>(mp, names, w, used, ranks, nr, n). length names - w)", goal_cases)
  case (2 mp names w used ranks nr n w' x a b c)
  then show ?case using skip_used_bounds [of w "drop w used"] by auto
qed simp

declare wildcard_loop.simps [simp del]

text \<open>The name \<open>None\<close> is the wildcard. The result has the number of ranks allocated so far.\<close>

definition match_procs ::
  "string option \<Rightarrow> int \<Rightarrow> string list \<Rightarrow> bool list \<Rightarrow> nat list \<Rightarrow> int \<Rightarrow> nat \<Rightarrow> (bool list \<times> nat list \<times> nat) option" where
  "match_procs name max_per_proc names used ranks nr_ranks n = (case name of
     None \<Rightarrow>
       if max_per_proc = 0 then Some (replicate (length used) True, ranks, n)
       else wildcard_loop max_per_proc names 0 used ranks nr_ranks n
   | Some s \<Rightarrow> do {
       (ret, used', ranks') \<leftarrow> match_this_proc s 0 max_per_proc names used ranks nr_ranks n;
       Some (used', ranks', n + ret) })"

section \<open>The parser\<close>

lemma word_length_pos: "c \<noteq> COLON \<Longrightarrow> c \<noteq> COMMA \<Longrightarrow> 0 < word_length (c # cs)"
  by (simp add: word_length_def)

lemma lex_shrinks:
  assumes "cb_config_list_lex l = Some (t, l')"
  shows "length (token_ptr l') \<le> length (token_ptr l) \<and>
     (t = AGG_WILDCARD \<or> t = AGG_STRING \<longrightarrow> length (token_ptr l') < length (token_ptr l))"
proof (cases "token_ptr l")
  case Nil
  with assms show ?thesis by (auto simp: cb_config_list_lex_def)
next
  case (Cons c cs)
  then show ?thesis
    using assms word_length_pos [of c cs]
    by (auto simp: cb_config_list_lex_def Let_def split: if_splits)
qed

lemma get_max_procs_shrinks:
  assumes "get_max_procs nodes l = Some (m, l')"
  shows "length (token_ptr l') \<le> length (token_ptr l)"
proof -
  obtain t1 l1 where 1: "cb_config_list_lex l = Some (t1, l1)"
    using assms by (auto simp: get_max_procs_def bind_eq_Some_conv)
  show ?thesis
  proof (cases "t1 = AGG_COLON")
    case False
    then have "l' = l1" using assms 1 by (auto simp: get_max_procs_def split: if_splits)
    then show ?thesis using lex_shrinks [OF 1] by simp
  next
    case True
    then obtain t2 l2 where 2: "cb_config_list_lex l1 = Some (t2, l2)"
      using assms 1 by (auto simp: get_max_procs_def bind_eq_Some_conv)
    have "l' = l2 \<or> (\<exists>t3. cb_config_list_lex l2 = Some (t3, l'))"
      using assms 1 2 True by (auto simp: get_max_procs_def Let_def bind_eq_Some_conv split: if_splits)
    then show ?thesis using lex_shrinks [OF 1] lex_shrinks [OF 2] lex_shrinks [of l2] by fastforce
  qed
qed

text \<open>
  The loop of \<open>ADIOI_cb_config_list_parse\<close>. The result is the number of ranks and the array; the
  loop ends at the end of the list, at a token that cannot start an entry, or when all
  aggregators have been found.
\<close>

function config_loop ::
  "string list \<Rightarrow> int \<Rightarrow> lexst \<Rightarrow> bool list \<Rightarrow> nat list \<Rightarrow> nat \<Rightarrow> (nat \<times> nat list) option" where
  "config_loop names nodes l used ranks n =
     (if int n < nodes then
        (case cb_config_list_lex l of
           None \<Rightarrow> None
         | Some (token, l1) \<Rightarrow>
             if token \<noteq> AGG_WILDCARD \<and> token \<noteq> AGG_STRING then Some (n, ranks)
             else (case get_max_procs nodes l1 of
                 None \<Rightarrow> None
               | Some (max_procs, l2) \<Rightarrow>
                   (case match_procs (if token = AGG_WILDCARD then None else Some (yylval l1))
                           max_procs names used ranks nodes n of
                      None \<Rightarrow> None
                    | Some (used', ranks', n') \<Rightarrow> config_loop names nodes l2 used' ranks' n')))
      else Some (n, ranks))"
  by pat_completeness auto
termination
proof (relation "measure (\<lambda>(names, nodes, l, used, ranks, n). length (token_ptr l))", goal_cases)
  case (2 names nodes l used ranks n p t l1 p' m l2)
  then have "length (token_ptr l1) < length (token_ptr l)" "length (token_ptr l2) \<le> length (token_ptr l1)"
    using lex_shrinks [of l t l1] get_max_procs_shrinks [of nodes l1 m l2] by auto
  then show ?case by simp
qed simp

declare config_loop.simps [simp del]

definition ADIOI_cb_config_list_parse ::
  "string \<Rightarrow> string list \<Rightarrow> nat list \<Rightarrow> int \<Rightarrow> (int \<times> nat list) option" where
  "ADIOI_cb_config_list_parse config_list names ranklist nodes =
     (let cb = (if nodes > int (length names) then int (length names) else nodes)
      in if config_list = ''*:*'' then
           (if int (length ranklist) < cb then None
            else Some (cb, [0..<nat cb] @ drop (nat cb) ranklist))
         else map_option (\<lambda>(n, ranks). (int n, ranks))
           (config_loop names cb \<lparr>token_ptr = config_list, yylval = []\<rparr> (replicate (length names) False) ranklist 0))"

section \<open>The name array and the rank map\<close>

record name_array =
  refct :: int
  namect :: nat
  anames :: "string list"

text \<open>
  Process 0 receives the names, each with its null, into one region. \<open>MPI_Gatherv\<close> puts the
  contribution of process \<open>i\<close> at displacement \<open>disp ! i\<close>; \<open>junk\<close> is the fresh region.
\<close>

fun displacements :: "nat \<Rightarrow> nat list \<Rightarrow> nat list" where
  "displacements d [] = []"
| "displacements d (l # ls) = d # displacements (d + l) ls"

fun gatherv :: "char list list \<Rightarrow> nat list \<Rightarrow> char list \<Rightarrow> char list option" where
  "gatherv (b # bs) (d # ds) region =
     (if d + length b \<le> length region
      then gatherv bs ds (take d region @ b @ drop (d + length b) region) else None)"
| "gatherv _ _ region = Some region"

definition ADIOI_cb_gather_name_array :: "(nat \<Rightarrow> char list) \<Rightarrow> string list \<Rightarrow> name_array option" where
  "ADIOI_cb_gather_name_array junk procnames =
     (let lens = map (\<lambda>s. length s + 1) procnames;
          disp = displacements 0 lens
      in do {
        region \<leftarrow> gatherv (map (\<lambda>s. s @ [NUL]) procnames) disp (junk (sum_list lens));
        Some \<lparr>refct = 2, namect = length procnames, anames = map (\<lambda>d. cstr (drop d region)) disp\<rparr> })"

definition ADIOI_cb_copy_name_array :: "name_array option \<Rightarrow> name_array option" where
  "ADIOI_cb_copy_name_array attr_in = map_option (\<lambda>a. a\<lparr>refct := refct a + 1\<rparr>) attr_in"

text \<open>\<open>None\<close> is an array that has been freed.\<close>

definition ADIOI_cb_delete_name_array :: "name_array \<Rightarrow> name_array option" where
  "ADIOI_cb_delete_name_array a = (let a' = a\<lparr>refct := refct a - 1\<rparr> in if refct a' \<le> 0 then None else Some a')"

text \<open>
  The list of the aggregators as a string: \<open>v\<close> is what the buffer holds up to \<open>p\<close>. The last
  number is cut when the buffer of \<open>MPI_MAX_INFO_VAL\<close> cells is full.
\<close>

fun rank_string :: "string \<Rightarrow> nat list \<Rightarrow> string" where
  "rank_string v [] = v"
| "rank_string v (r # rs) =
     (let remain = MPI_MAX_INFO_VAL - length v; s = show_nat r @ '' ''
      in if length s \<ge> remain then v @ take (remain - 1) s else rank_string (v @ s) rs)"

text \<open>
  Every process gets the number of aggregators and their ranks from process 0, and stores both
  in its info object.
\<close>

definition ADIOI_cb_bcast_rank_map ::
  "'i info_ops \<Rightarrow> nat \<Rightarrow> nat list \<Rightarrow> 'i \<Rightarrow> (nat \<times> nat list \<times> 'i) option" where
  "ADIOI_cb_bcast_rank_map ops nodes ranklist info = do {
     info1 \<leftarrow> i_set ops info ''cb_nodes'' (show_nat nodes);
     info2 \<leftarrow> i_set ops info1 ''romio_aggregator_list''
       (if nodes = 0 then show_nat nodes else rank_string [] (take nodes ranklist));
     Some (nodes, take nodes ranklist, info2) }"

section \<open>What the loops compute\<close>

text \<open>The processes with a name that are still in the list, from index \<open>i\<close> on.\<close>

definition avail :: "string \<Rightarrow> string list \<Rightarrow> bool list \<Rightarrow> nat \<Rightarrow> nat list" where
  "avail name names used i = filter (\<lambda>j. \<not> used ! j \<and> names ! j = name) [i..<length names]"

definition mark :: "bool list \<Rightarrow> nat list \<Rightarrow> bool list" where
  "mark used js = fold (\<lambda>j u. u[j := True]) js used"

lemma length_mark [simp]: "length (mark used js) = length used"
  unfolding mark_def by (induction js arbitrary: used) simp_all

lemma mark_simps [simp]: "mark used [] = used" "mark used (j # js) = mark (used[j := True]) js"
  by (simp_all add: mark_def)

lemma mark_append: "mark used (is @ js) = mark (mark used is) js"
  by (simp add: mark_def)

lemma nth_mark: "i < length used \<Longrightarrow> mark used js ! i \<longleftrightarrow> used ! i \<or> i \<in> set js"
proof (induction js arbitrary: used)
  case (Cons j js)
  then show ?case by (cases "i = j") simp_all
qed simp

lemma set_avail: "set (avail name names used i) = {j. i \<le> j \<and> j < length names \<and> \<not> used ! j \<and> names ! j = name}"
  by (auto simp: avail_def)

lemma distinct_avail: "distinct (avail name names used i)"
  by (simp add: avail_def)

lemma avail_end: "length names \<le> i \<Longrightarrow> avail name names used i = []"
  by (simp add: avail_def)

lemma avail_step:
  "i < length names \<Longrightarrow> avail name names used i =
     (if \<not> used ! i \<and> names ! i = name then i # avail name names used (Suc i) else avail name names used (Suc i))"
  by (simp add: avail_def upt_conv_Cons)

lemma avail_above: "j < i \<Longrightarrow> avail name names (used[j := True]) i = avail name names used i"
  unfolding avail_def by (rule filter_cong) auto

lemma find_from_avail:
  assumes "length used = length names"
  shows "find_from name names used i = (case avail name names used i of [] \<Rightarrow> None | j # _ \<Rightarrow> Some j)"
proof (induction "length names - i" arbitrary: i)
  case 0
  then show ?case by (simp add: find_from_def avail_end)
next
  case (Suc k)
  then have i: "i < length names" by simp
  then have "drop i (zip names used) = (names ! i, used ! i) # drop (Suc i) (zip names used)"
    using Cons_nth_drop_Suc [of i "zip names used"] assms by simp
  then have "find_from name names used i =
      (if \<not> used ! i \<and> name = names ! i then Some i else find_from name names used (Suc i))"
    by (simp add: find_from_def)
  moreover have "find_from name names used (Suc i) = (case avail name names used (Suc i) of [] \<Rightarrow> None | j # _ \<Rightarrow> Some j)"
    using Suc by simp
  ultimately show ?case using avail_step [OF i] by auto
qed

lemma avail_rest:
  "avail name names used i = j # js \<Longrightarrow> avail name names (used[j := True]) (Suc j) = js"
proof (induction "length names - i" arbitrary: i)
  case 0
  then show ?case by (simp add: avail_end)
next
  case (Suc k)
  then have i: "i < length names" by simp
  show ?case
  proof (cases "\<not> used ! i \<and> names ! i = name")
    case True
    then have "j = i" "js = avail name names used (Suc i)" using Suc.prems avail_step [OF i, of name used] by auto
    then show ?thesis by (simp add: avail_above)
  next
    case False
    then show ?thesis using Suc.hyps(1) [of "Suc i"] Suc.hyps(2) Suc.prems avail_step [OF i, of name used] by auto
  qed
qed

lemma alloc_loop_eq:
  "length used = length names \<Longrightarrow> n + k \<le> length ranks \<Longrightarrow> as = avail name names used i \<Longrightarrow>
   \<exists>c. alloc_loop name names k i used ranks n =
      Some (c, mark used (take k as), take n ranks @ take k as @ drop (n + length (take k as)) ranks, n + length (take k as)) \<and>
     (case c of None \<Rightarrow> length as < k | Some j \<Rightarrow> k \<le> length as \<and> avail name names (mark used (take k as)) j = drop k as)"
proof (induction k arbitrary: i used ranks n as)
  case 0
  then show ?case by simp
next
  case (Suc k)
  show ?case
  proof (cases as)
    case Nil
    then show ?thesis using Suc.prems by (simp add: find_from_avail)
  next
    case (Cons j js)
    then have f: "find_from name names used i = Some j" using Suc.prems(1,3) by (simp add: find_from_avail)
    have js: "js = avail name names (used[j := True]) (Suc j)" using avail_rest [of name names used i j js] Suc.prems(3) Cons by simp
    have n: "n < length ranks" using Suc.prems(2) by simp
    then have pre: "take (Suc n) (ranks[n := j]) = take n ranks @ [j]" by (simp add: take_Suc_conv_app_nth)
    obtain c where "alloc_loop name names k (Suc j) (used[j := True]) (ranks[n := j]) (Suc n) =
        Some (c, mark (used[j := True]) (take k js), take (Suc n) (ranks[n := j]) @ take k js @
          drop (Suc n + length (take k js)) (ranks[n := j]), Suc n + length (take k js))"
        "case c of None \<Rightarrow> length js < k | Some j' \<Rightarrow> k \<le> length js \<and> avail name names (mark (used[j := True]) (take k js)) j' = drop k js"
      using Suc.IH [of "used[j := True]" "Suc n" "ranks[n := j]" js "Suc j"] Suc.prems(1,2) js by auto
    then show ?thesis
      using f n Cons pre by (intro exI [of _ c]) (auto split: option.splits)
  qed
qed

lemma strike_loop_eq:
  "length used = length names \<Longrightarrow> strike_loop name names i used = mark used (avail name names used i)"
proof (induction name names i used rule: strike_loop.induct)
  case (1 name names i used)
  show ?case
  proof (cases "avail name names used i")
    case Nil
    then show ?thesis using 1(2) by (simp add: strike_loop.simps [of name names i used] find_from_avail)
  next
    case (Cons j js)
    then have "find_from name names used i = Some j" using 1(2) by (simp add: find_from_avail)
    then show ?thesis
      using 1 avail_rest [OF Cons] Cons by (simp add: strike_loop.simps [of name names i used])
  qed
qed

lemma match_this_proc_eq:
  assumes "length used = length names" "nr_ranks \<le> int (length ranks)" "n \<le> length ranks"
    and as: "as = avail name names used i"
    and k: "k = nat (min max_matches (nr_ranks - int n))"
  shows "match_this_proc name i max_matches names used ranks nr_ranks n =
     Some (length (take k as), mark used as, take n ranks @ take k as @ drop (n + length (take k as)) ranks)"
proof -
  have k': "nat (if max_matches < nr_ranks - int n then max_matches else nr_ranks - int n) = k"
    using k by (simp add: min_def)
  have "n + k \<le> length ranks" using assms(2,3) k by linarith
  then obtain c where c: "alloc_loop name names k i used ranks n = Some (c, mark used (take k as),
        take n ranks @ take k as @ drop (n + length (take k as)) ranks, n + length (take k as))"
      "case c of None \<Rightarrow> length as < k | Some j \<Rightarrow> k \<le> length as \<and> avail name names (mark used (take k as)) j = drop k as"
    using alloc_loop_eq [OF assms(1) _ as] by blast
  have "(case c of None \<Rightarrow> mark used (take k as) | Some j \<Rightarrow> strike_loop name names j (mark used (take k as))) = mark used as"
  proof (cases c)
    case None
    then show ?thesis using c(2) by simp
  next
    case (Some j)
    then show ?thesis
      using c(2) assms(1) mark_append [of used "take k as" "drop k as"] by (simp add: strike_loop_eq)
  qed
  then show ?thesis using c(1) k' by (simp add: match_this_proc_def Let_def)
qed

section \<open>The ranks allocated are distinct and valid\<close>

text \<open>The first \<open>n\<close> ranks are distinct processes; all but those in \<open>X\<close> are marked as used.\<close>

definition ranks_ok :: "string list \<Rightarrow> bool list \<Rightarrow> nat list \<Rightarrow> nat \<Rightarrow> nat set \<Rightarrow> bool" where
  "ranks_ok names used ranks n X \<longleftrightarrow> length used = length names \<and> n \<le> length ranks \<and>
     distinct (take n ranks) \<and> (\<forall>r \<in> set (take n ranks). r < length names \<and> (used ! r \<or> r \<in> X))"

text \<open>A step from \<open>n\<close> to \<open>n'\<close> ranks leaves the rest of the array as it was.\<close>

definition extends :: "nat \<Rightarrow> nat list \<Rightarrow> nat \<Rightarrow> nat list \<Rightarrow> bool" where
  "extends n ranks n' ranks' \<longleftrightarrow> n \<le> n' \<and> length ranks' = length ranks \<and> drop n' ranks' = drop n' ranks"

lemma extends_refl [simp]: "extends n ranks n ranks"
  by (simp add: extends_def)

lemma drop_mono: "n \<le> m \<Longrightarrow> drop n xs = drop n ys \<Longrightarrow> drop m xs = drop m ys"
  by (metis drop_drop le_add_diff_inverse2)

lemma extends_trans: "extends n r n1 r1 \<Longrightarrow> extends n1 r1 n2 r2 \<Longrightarrow> extends n r n2 r2"
  unfolding extends_def using drop_mono [of n1 n2 r1 r] by auto

lemma ranks_ok_add:
  assumes "ranks_ok names used ranks n X" "\<forall>x \<in> X. x < i" "as = avail name names used i"
    "bs = take k as" "n + length bs \<le> length ranks"
  shows "ranks_ok names (mark used as) (take n ranks @ bs @ drop (n + length bs) ranks) (n + length bs) X"
    "extends n ranks (n + length bs) (take n ranks @ bs @ drop (n + length bs) ranks)"
proof -
  have sub: "set bs \<subseteq> set as" using assms(4) by (simp add: set_take_subset)
  have new: "i \<le> j \<and> j < length names \<and> \<not> used ! j" if "j \<in> set bs" for j
    using that sub assms(3) by (auto simp: set_avail)
  then have "set (take n ranks) \<inter> set bs = {}"
    using assms(1,2) by (fastforce simp: ranks_ok_def)
  moreover have "distinct bs" using distinct_avail assms(3,4) by simp
  moreover have "\<forall>r \<in> set (take n ranks) \<union> set bs. r < length names \<and> (mark used as ! r \<or> r \<in> X)"
    using assms(1) new sub by (auto simp: ranks_ok_def nth_mark)
  moreover have len: "length (take n ranks) = n" using assms(1) by (simp add: ranks_ok_def)
  moreover have "take (n + length bs) (take n ranks @ bs @ drop (n + length bs) ranks) = take n ranks @ bs"
    using len by simp
  ultimately show "ranks_ok names (mark used as) (take n ranks @ bs @ drop (n + length bs) ranks) (n + length bs) X"
    using assms(1,5) unfolding ranks_ok_def by auto
  show "extends n ranks (n + length bs) (take n ranks @ bs @ drop (n + length bs) ranks)"
    using len assms(5) by (simp add: extends_def)
qed

lemma match_this_proc_ok:
  assumes "ranks_ok names used ranks n X" "\<forall>x \<in> X. x < i" "nr_ranks \<le> int (length ranks)" "int n \<le> nr_ranks"
  shows "\<exists>ret used' ranks'. match_this_proc name i max_matches names used ranks nr_ranks n = Some (ret, used', ranks') \<and>
     ranks_ok names used' ranks' (n + ret) X \<and> extends n ranks (n + ret) ranks' \<and> int (n + ret) \<le> nr_ranks"
proof -
  let ?as = "avail name names used i" and ?k = "nat (min max_matches (nr_ranks - int n))"
  have len: "length (take ?k ?as) \<le> nat (nr_ranks - int n)" by (simp add: min.coboundedI1)
  have "match_this_proc name i max_matches names used ranks nr_ranks n =
      Some (length (take ?k ?as), mark used ?as, take n ranks @ take ?k ?as @ drop (n + length (take ?k ?as)) ranks)"
    using match_this_proc_eq [OF _ assms(3)] assms(1) by (simp add: ranks_ok_def)
  moreover have "n + length (take ?k ?as) \<le> length ranks" "int (n + length (take ?k ?as)) \<le> nr_ranks"
    using len assms(3,4) by linarith+
  ultimately show ?thesis using ranks_ok_add [OF assms(1,2), of ?as name "take ?k ?as" ?k] by auto
qed

lemma skip_used_unused: "skip_used us i < i + length us \<Longrightarrow> \<not> us ! (skip_used us i - i)"
proof (induction us i rule: skip_used.induct)
  case (2 u us i)
  show ?case
  proof (cases u)
    case True
    then have "\<not> us ! (skip_used us (Suc i) - Suc i)" using 2 by simp
    moreover have "skip_used us (Suc i) - i = Suc (skip_used us (Suc i) - Suc i)"
      using skip_used_bounds [of "Suc i" us] by linarith
    ultimately show ?thesis using True by simp
  qed simp
qed simp

lemma skip_used_drop:
  assumes "skip_used (drop w used) w < length used"
  shows "w \<le> skip_used (drop w used) w" "\<not> used ! skip_used (drop w used) w"
proof -
  show le: "w \<le> skip_used (drop w used) w" using skip_used_bounds by blast
  show "\<not> used ! skip_used (drop w used) w"
    using skip_used_unused [of "drop w used" w] assms le by simp
qed

lemma ranks_ok_pick:
  assumes "ranks_ok names used ranks n {}" "w < length names" "\<not> used ! w" "n < length ranks"
  shows "ranks_ok names used (ranks[n := w]) (Suc n) {w}" "extends n ranks (Suc n) (ranks[n := w])"
  using assms by (auto simp: ranks_ok_def extends_def take_Suc_conv_app_nth)

lemma ranks_ok_unpick: "ranks_ok names used ranks n {w} \<Longrightarrow> ranks_ok names (used[w := True]) ranks n {}"
proof -
  assume ok: "ranks_ok names used ranks n {w}"
  have "used[w := True] ! r" if "r \<in> set (take n ranks)" for r
    using ok that by (cases "r = w") (auto simp: ranks_ok_def)
  with ok show ?thesis by (simp add: ranks_ok_def)
qed

lemma wildcard_loop_ok:
  "ranks_ok names used ranks n {} \<Longrightarrow> nr_ranks \<le> int (length ranks) \<Longrightarrow>
   \<exists>used' ranks' n'. wildcard_loop mp names w used ranks nr_ranks n = Some (used', ranks', n') \<and>
     ranks_ok names used' ranks' n' {} \<and> extends n ranks n' ranks' \<and> (int n \<le> nr_ranks \<longrightarrow> int n' \<le> nr_ranks)"
proof (induction mp names w used ranks nr_ranks n rule: wildcard_loop.induct)
  case (1 mp names w used ranks nr n)
  let ?w = "skip_used (drop w used) w"
  have len: "length used = length names" using 1(2) by (simp add: ranks_ok_def)
  show ?case
  proof (cases "nr - int n > 0 \<and> ?w < length names")
    case False
    then show ?thesis using 1(2) len by (subst wildcard_loop.simps) (auto simp: Let_def)
  next
    case True
    then have w: "?w < length names" "?w < length used" "\<not> used ! ?w" "n < length ranks" "int n < nr"
      using len skip_used_drop [of w used] 1(3) by auto
    have p: "ranks_ok names used (ranks[n := ?w]) (Suc n) {?w}" "extends n ranks (Suc n) (ranks[n := ?w])"
      using ranks_ok_pick [OF 1(2) w(1,3,4)] by auto
    obtain ret used' ranks' where m: "match_this_proc (names ! ?w) (Suc ?w) (mp - 1) names used (ranks[n := ?w]) nr (Suc n) =
          Some (ret, used', ranks')" "ranks_ok names used' ranks' (Suc n + ret) {?w}"
        "extends (Suc n) (ranks[n := ?w]) (Suc n + ret) ranks'" "int (Suc n + ret) \<le> nr"
      using match_this_proc_ok [OF p(1), of "Suc ?w" nr "names ! ?w" "mp - 1"] 1(3) w(5) by auto
    have u: "ranks_ok names (used'[?w := True]) ranks' (Suc n + ret) {}" by (rule ranks_ok_unpick [OF m(2)])
    have e: "extends n ranks (Suc n + ret) ranks'" by (rule extends_trans [OF p(2) m(3)])
    then have "nr \<le> int (length ranks')" using 1(3) by (simp add: extends_def)
    then obtain u2 r2 n2 where "wildcard_loop mp names (Suc ?w) (used'[?w := True]) ranks' nr (Suc n + ret) = Some (u2, r2, n2)"
        "ranks_ok names u2 r2 n2 {}" "extends (Suc n + ret) ranks' n2 r2" "int n2 \<le> nr"
      using 1(1) [of ?w "(ret, used', ranks')" ret "(used', ranks')" used' ranks'] True w m(1,4) u by auto
    then show ?thesis
      using True w m(1) extends_trans [OF e] by (subst wildcard_loop.simps) (auto simp: Let_def)
  qed
qed

lemma match_procs_ok:
  assumes "ranks_ok names used ranks n {}" "nr_ranks \<le> int (length ranks)" "int n \<le> nr_ranks"
  shows "\<exists>used' ranks' n'. match_procs name mp names used ranks nr_ranks n = Some (used', ranks', n') \<and>
     ranks_ok names used' ranks' n' {} \<and> extends n ranks n' ranks' \<and> int n' \<le> nr_ranks"
proof (cases name)
  case None
  show ?thesis
  proof (cases "mp = 0")
    case True
    then show ?thesis using None assms by (auto simp: match_procs_def ranks_ok_def)
  next
    case False
    then show ?thesis using None wildcard_loop_ok [OF assms(1,2), of mp 0] assms(3) by (auto simp: match_procs_def)
  qed
next
  case (Some s)
  then show ?thesis
    using match_this_proc_ok [OF assms(1) _ assms(2,3), of 0 s mp] by (auto simp: match_procs_def)
qed

lemma lex_ok: "length (token_ptr l) \<le> MPI_MAX_INFO_VAL \<Longrightarrow> \<exists>t l'. cb_config_list_lex l = Some (t, l')"
proof (cases "token_ptr l")
  case (Cons c cs)
  assume "length (token_ptr l) \<le> MPI_MAX_INFO_VAL"
  moreover have "word_length (c # cs) \<le> length (c # cs)"
    unfolding word_length_def by (rule length_takeWhile_le)
  ultimately show ?thesis using Cons by (simp add: cb_config_list_lex_def Let_def)
qed (simp add: cb_config_list_lex_def)

lemma get_max_procs_ok:
  assumes "length (token_ptr l) \<le> MPI_MAX_INFO_VAL"
  shows "\<exists>m l'. get_max_procs nodes l = Some (m, l')"
proof -
  obtain t1 l1 where 1: "cb_config_list_lex l = Some (t1, l1)" using lex_ok [OF assms] by blast
  then have a1: "length (token_ptr l1) \<le> MPI_MAX_INFO_VAL" using lex_shrinks assms by fastforce
  obtain t2 l2 where 2: "cb_config_list_lex l1 = Some (t2, l2)" using lex_ok [OF a1] by blast
  then have "length (token_ptr l2) \<le> MPI_MAX_INFO_VAL" using lex_shrinks a1 by fastforce
  then obtain t3 l3 where "cb_config_list_lex l2 = Some (t3, l3)" using lex_ok by blast
  with 1 2 show ?thesis by (simp add: get_max_procs_def Let_def)
qed

lemma config_loop_ok:
  "ranks_ok names used ranks n {} \<Longrightarrow> nodes \<le> int (length ranks) \<Longrightarrow> int n \<le> nodes \<Longrightarrow>
   length (token_ptr l) \<le> MPI_MAX_INFO_VAL \<Longrightarrow>
   \<exists>n' ranks' used'. config_loop names nodes l used ranks n = Some (n', ranks') \<and>
     ranks_ok names used' ranks' n' {} \<and> extends n ranks n' ranks' \<and> int n' \<le> nodes"
proof (induction names nodes l used ranks n rule: config_loop.induct)
  case (1 names nodes l used ranks n)
  obtain t l1 where l1: "cb_config_list_lex l = Some (t, l1)" using lex_ok [OF 1(5)] by blast
  then have s1: "length (token_ptr l1) \<le> MPI_MAX_INFO_VAL" using lex_shrinks [OF l1] 1(5) by simp
  obtain m l2 where l2: "get_max_procs nodes l1 = Some (m, l2)" using get_max_procs_ok [OF s1] by blast
  then have s2: "length (token_ptr l2) \<le> MPI_MAX_INFO_VAL" using get_max_procs_shrinks [OF l2] s1 by simp
  show ?case
  proof (cases "int n < nodes \<and> (t = AGG_WILDCARD \<or> t = AGG_STRING)")
    case False
    then show ?thesis using 1(2,4) l1 by (subst config_loop.simps) auto
  next
    case True
    let ?name = "if t = AGG_WILDCARD then None else Some (yylval l1)"
    obtain u1 r1 n1 where m: "match_procs ?name m names used ranks nodes n = Some (u1, r1, n1)"
        "ranks_ok names u1 r1 n1 {}" "extends n ranks n1 r1" "int n1 \<le> nodes"
      using match_procs_ok [OF 1(2-4)] by blast
    then have "nodes \<le> int (length r1)" using 1(3) by (simp add: extends_def)
    moreover have "config_loop names nodes l used ranks n = config_loop names nodes l2 u1 r1 n1"
      using True l1 l2 m(1) by (subst config_loop.simps) auto
    ultimately show ?thesis
      using 1(1) [of "(t, l1)" t l1 "(m, l2)" m l2 "(u1, r1, n1)" u1 "(r1, n1)" r1 n1] True l1 l2 m s2
        extends_trans [OF m(3)] by auto
  qed
qed

text \<open>
  C24: whatever the user's \<open>cb_config_list\<close> says, \<open>ADIOI_cb_config_list_parse\<close> ends, stays inside its
  buffers and the rank array, and chooses distinct processes of the communicator: at most
  \<open>cb_nodes\<close> and at most as many as there are. The array beyond them is not touched.
\<close>

theorem config_list_picks_distinct_ranks:
  assumes "length config_list \<le> MPI_MAX_INFO_VAL" "0 \<le> nodes" "nodes \<le> int (length ranklist)"
  shows "\<exists>n ranks. ADIOI_cb_config_list_parse config_list names ranklist nodes = Some (n, ranks) \<and>
     0 \<le> n \<and> n \<le> nodes \<and> n \<le> int (length names) \<and> length ranks = length ranklist \<and>
     distinct (take (nat n) ranks) \<and> set (take (nat n) ranks) \<subseteq> {..<length names} \<and>
     drop (nat n) ranks = drop (nat n) ranklist"
proof -
  let ?cb = "if nodes > int (length names) then int (length names) else nodes"
  have cb: "0 \<le> ?cb" "?cb \<le> nodes" "?cb \<le> int (length names)" "?cb \<le> int (length ranklist)" using assms by auto
  show ?thesis
  proof (cases "config_list = ''*:*''")
    case True
    have "nat ?cb \<le> length ranklist" "nat ?cb \<le> length names" using cb by linarith+
    with True cb show ?thesis by (auto simp: ADIOI_cb_config_list_parse_def Let_def)
  next
    case False
    have "ranks_ok names (replicate (length names) False) ranklist 0 {}" by (simp add: ranks_ok_def)
    from config_loop_ok [OF this cb(4), of "\<lparr>token_ptr = config_list, yylval = []\<rparr>"]
    obtain n ranks used' where r: "config_loop names ?cb \<lparr>token_ptr = config_list, yylval = []\<rparr> (replicate (length names) False) ranklist 0 =
          Some (n, ranks)" "ranks_ok names used' ranks n {}" "extends 0 ranklist n ranks" "int n \<le> ?cb"
      using cb(1) assms(1) by auto
    have "ADIOI_cb_config_list_parse config_list names ranklist nodes = Some (int n, ranks)"
      using False r(1) by (simp add: ADIOI_cb_config_list_parse_def Let_def)
    then show ?thesis
      using r(2-4) cb by (intro exI [of _ "int n"] exI [of _ ranks]) (auto simp: ranks_ok_def extends_def)
  qed
qed

theorem config_list_picks_distinct_ranks_witness:
  "\<exists>n ranks. ADIOI_cb_config_list_parse ''ccn1:2,*:0'' [''ccn0'', ''ccn1'', ''ccn1''] [9, 9, 9] 3 = Some (n, ranks) \<and>
     distinct (take (nat n) ranks) \<and> set (take (nat n) ranks) \<subseteq> {..<3}"
  using config_list_picks_distinct_ranks [of "''ccn1:2,*:0''" 3 "[9, 9, 9]" "[''ccn0'', ''ccn1'', ''ccn1'']"]
  by (auto simp: MPI_MAX_INFO_VAL_def numeral_3_eq_3)

section \<open>A wildcard takes the same number of processes from every host\<close>

text \<open>The first process of every host, and all processes of the host of process \<open>i\<close>.\<close>

definition first_on_host :: "string list \<Rightarrow> nat \<Rightarrow> bool" where
  "first_on_host names i \<longleftrightarrow> names ! i \<notin> set (take i names)"

definition same_host :: "string list \<Rightarrow> nat \<Rightarrow> nat list" where
  "same_host names i = filter (\<lambda>j. names ! j = names ! i) [0..<length names]"

definition hosts_from :: "nat \<Rightarrow> string list \<Rightarrow> nat \<Rightarrow> nat list" where
  "hosts_from k names w =
     concat (map (\<lambda>i. take k (same_host names i)) (filter (first_on_host names) [w..<length names]))"

text \<open>The processes of the hosts met before \<open>w\<close> are used, the others are not.\<close>

definition used_before :: "string list \<Rightarrow> nat \<Rightarrow> bool list \<Rightarrow> bool" where
  "used_before names w used \<longleftrightarrow> length used = length names \<and>
     (\<forall>j < length names. used ! j \<longleftrightarrow> names ! j \<in> set (take w names))"

lemma skip_used_all: "w \<le> j \<Longrightarrow> j < skip_used us w \<Longrightarrow> us ! (j - w)"
proof (induction us w arbitrary: j rule: skip_used.induct)
  case (2 u us i)
  then show ?case by (cases "j = i"; cases u) (auto simp: nth_Cons' Suc_diff_le)
qed simp

lemma nth_in_take: "j < n \<Longrightarrow> j < length xs \<Longrightarrow> xs ! j \<in> set (take n xs)"
  by (force simp: in_set_conv_nth)

lemma in_take_nth: "x \<in> set (take n xs) \<Longrightarrow> \<exists>j < n. j < length xs \<and> x = xs ! j"
  by (auto simp: in_set_conv_nth)

lemma skip_used_first:
  assumes "used_before names w used" "w' = skip_used (drop w used) w" "w \<le> length names"
  shows "w \<le> w'" "w' \<le> length names" "\<forall>i. w \<le> i \<and> i < w' \<longrightarrow> names ! i \<in> set (take w names)"
    "w' < length names \<Longrightarrow> names ! w' \<notin> set (take w' names)"
proof -
  have len: "length used = length names" using assms(1) by (simp add: used_before_def)
  show b: "w \<le> w'" "w' \<le> length names"
    using skip_used_bounds [of w "drop w used"] assms(2,3) len by simp_all
  show before: "\<forall>i. w \<le> i \<and> i < w' \<longrightarrow> names ! i \<in> set (take w names)"
  proof (intro allI impI)
    fix i
    assume i: "w \<le> i \<and> i < w'"
    then have "used ! i" using skip_used_all [of w i "drop w used"] assms(2,3) len by simp
    then show "names ! i \<in> set (take w names)" using assms(1) i b by (simp add: used_before_def)
  qed
  assume w': "w' < length names"
  then have "\<not> used ! w'" using skip_used_drop(2) [of w used] assms(2) len by simp
  then have new: "names ! w' \<notin> set (take w names)" using assms(1) w' by (simp add: used_before_def)
  show "names ! w' \<notin> set (take w' names)"
  proof
    assume old: "names ! w' \<in> set (take w' names)"
    obtain j where "j < w'" "names ! w' = names ! j" using in_take_nth [OF old] by auto
    moreover have "names ! j \<in> set (take w names)" if "j < w'" for j
      using before [rule_format, of j] nth_in_take [of j w names] that w' by (cases "j < w") simp_all
    ultimately show False using new by metis
  qed
qed

lemma hosts_from_skip:
  assumes "\<forall>i. w \<le> i \<and> i < w' \<longrightarrow> names ! i \<in> set (take w names)" "w \<le> w'" "w' \<le> length names"
  shows "hosts_from k names w = hosts_from k names w'"
proof -
  have "[w..<length names] = [w..<w'] @ [w'..<length names]"
    using upt_add_eq_append [of w w' "length names - w'"] assms(2,3) by simp
  moreover have "names ! i \<in> set (take i names)" if "w \<le> i" "i < w'" for i
    using subsetD [OF set_take_subset_set_take [OF that(1)] assms(1) [rule_format, of i]] that by simp
  then have "filter (first_on_host names) [w..<w'] = []" by (auto simp: filter_empty_conv first_on_host_def)
  ultimately show ?thesis by (simp add: hosts_from_def)
qed

lemma hosts_from_first:
  assumes "w < length names" "names ! w \<notin> set (take w names)" "1 \<le> k"
    "used_before names v used" "\<forall>i. v \<le> i \<and> i < w \<longrightarrow> names ! i \<in> set (take v names)" "v \<le> w"
  shows "hosts_from k names w = w # take (k - 1) (avail (names ! w) names used (Suc w)) @ hosts_from k names (Suc w)"
proof -
  have new: "names ! w \<notin> set (take v names)"
    using assms(2,6) set_take_subset_set_take [of v w names] by blast
  have "[0..<length names] = [0..<w] @ w # [Suc w..<length names]"
    using upt_add_eq_append [of 0 w "length names - w"] assms(1) by (simp add: upt_conv_Cons)
  moreover have "names ! j \<noteq> names ! w" if "j < w" for j
    using that assms(1,2) nth_in_take [of j w names] by force
  then have "filter (\<lambda>j. names ! j = names ! w) [0..<w] = []" by (auto simp: filter_empty_conv)
  moreover have "filter (\<lambda>j. names ! j = names ! w) [Suc w..<length names] = avail (names ! w) names used (Suc w)"
    unfolding avail_def by (rule filter_cong) (use assms(4) new in \<open>auto simp: used_before_def\<close>)
  ultimately have "same_host names w = w # avail (names ! w) names used (Suc w)"
    by (simp add: same_host_def)
  moreover have "filter (first_on_host names) [w..<length names] = w # filter (first_on_host names) [Suc w..<length names]"
    using assms(1,2) by (simp add: upt_conv_Cons first_on_host_def)
  ultimately show ?thesis using assms(3) by (cases k) (simp_all add: hosts_from_def)
qed

lemma used_before_step:
  assumes "used_before names v used" "\<forall>i. v \<le> i \<and> i < w \<longrightarrow> names ! i \<in> set (take v names)" "v \<le> w"
    "w < length names" "names ! w \<notin> set (take w names)"
  shows "used_before names (Suc w) ((mark used (avail (names ! w) names used (Suc w)))[w := True])"
  unfolding used_before_def
proof (intro conjI allI impI)
  have len: "length used = length names" using assms(1) by (simp add: used_before_def)
  then show "length ((mark used (avail (names ! w) names used (Suc w)))[w := True]) = length names" by simp
  fix j
  assume j: "j < length names"
  have "set (take w names) = set (take v names)"
  proof (intro equalityI subsetI)
    fix x
    assume x: "x \<in> set (take w names)"
    obtain i where "i < w" "i < length names" "x = names ! i" using in_take_nth [OF x] by auto
    then show "x \<in> set (take v names)"
      using assms(2) [rule_format, of i] nth_in_take [of i v names] by (cases "i < v") simp_all
  next
    fix x
    assume "x \<in> set (take v names)"
    then show "x \<in> set (take w names)" by (rule subsetD [OF set_take_subset_set_take [OF assms(3)]])
  qed
  then have take: "names ! j \<in> set (take (Suc w) names) \<longleftrightarrow> used ! j \<or> names ! j = names ! w"
    using assms(1,4) j by (auto simp: take_Suc_conv_app_nth used_before_def)
  have "names ! j \<noteq> names ! w" if "j < w" using that assms(4,5) nth_in_take [of j w names] by auto
  then show "(mark used (avail (names ! w) names used (Suc w)))[w := True] ! j \<longleftrightarrow> names ! j \<in> set (take (Suc w) names)"
    unfolding take using j len by (cases "j = w"; cases "j < w") (simp_all add: nth_mark set_avail, blast?)
qed

lemma take_short:
  fixes as :: "nat list"
  assumes "length pre = n" "n + k \<le> m" "k = min k0 (m - n)"
  shows "take m (pre @ take k as @ rest) = take m (pre @ take k0 as @ rest)"
proof (cases "k0 \<le> m - n")
  case False
  then have k: "k = m - n" "m - n \<le> k0" using assms(3) by simp_all
  show ?thesis
  proof (cases "length as \<le> k")
    case True
    then show ?thesis using k by simp
  next
    case long: False
    then show ?thesis using k assms(1) by (auto simp: min_def)
  qed
qed (use assms(3) in simp)

lemma take_append3: "length xs = n \<Longrightarrow> take (n + length ys) (xs @ ys @ zs) = xs @ ys"
  by auto

lemma wildcard_loop_hosts:
  "used_before names w used \<Longrightarrow> w \<le> length names \<Longrightarrow> m \<le> length ranks \<Longrightarrow> n \<le> m \<Longrightarrow> 1 \<le> k \<Longrightarrow>
   mp = int k \<Longrightarrow> nr = int m \<Longrightarrow>
   \<exists>used' ranks' n'. wildcard_loop mp names w used ranks nr n = Some (used', ranks', n') \<and>
     n' \<le> length ranks' \<and> take n' ranks' = take m (take n ranks @ hosts_from k names w)"
proof (induction mp names w used ranks nr n rule: wildcard_loop.induct)
  case (1 mp names w used ranks nr n)
  note ub = 1(2) and prems = 1(3-8)
  let ?w = "skip_used (drop w used) w"
  have len: "length used = length names" using ub by (simp add: used_before_def)
  note sk = skip_used_first [OF ub refl prems(1)]
  have skip: "hosts_from k names w = hosts_from k names ?w" by (rule hosts_from_skip [OF sk(3,1,2)])
  show ?case
  proof (cases "n < m \<and> ?w < length names")
    case False
    have "take n ranks = take m (take n ranks @ hosts_from k names w)"
    proof (cases "n < m")
      case True
      then have "?w = length names" using False sk(2) by simp
      then have "hosts_from k names w = []" unfolding skip by (simp add: hosts_from_def)
      then show ?thesis using prems(3) by simp
    next
      case eq: False
      then show ?thesis using prems(2,3) by simp
    qed
    then show ?thesis using False prems len by (subst wildcard_loop.simps) (auto simp: Let_def)
  next
    case True
    then have nm: "n < m" and w: "?w < length names" by auto
    let ?A = "avail (names ! ?w) names used (Suc ?w)" and ?k = "nat (min (mp - 1) (nr - int (Suc n)))"
    let ?r = "ranks[n := ?w]"
    let ?r' = "take (Suc n) ?r @ take ?k ?A @ drop (Suc n + length (take ?k ?A)) ?r"
    let ?n = "Suc n + length (take ?k ?A)" and ?u = "(mark used ?A)[?w := True]"
    have k: "?k = min (k - 1) (m - Suc n)" using prems(4-6) nm by linarith
    have pre: "take (Suc n) ?r = take n ranks @ [?w]" using nm prems(2) by (simp add: take_Suc_conv_app_nth)
    have mt: "match_this_proc (names ! ?w) (Suc ?w) (mp - 1) names used ?r nr (Suc n) = Some (length (take ?k ?A), mark used ?A, ?r')"
      by (rule match_this_proc_eq) (use len prems nm in auto)
    have n': "?n \<le> m" using k nm by simp
    have len': "length ?r' = length ranks" "?n \<le> length ranks" using n' prems(2) nm by simp_all
    have ub': "used_before names (Suc ?w) ?u" by (rule used_before_step [OF ub sk(3,1) w sk(4) [OF w]])
    have eq: "wildcard_loop mp names w used ranks nr n = wildcard_loop mp names (Suc ?w) ?u ?r' nr ?n"
      using mt nm w len prems by (subst wildcard_loop.simps) (simp add: Let_def)
    have c: "nr - int n > 0" "\<not> (?w \<ge> length names \<or> ?w \<ge> length used)" "n < length ranks" "Suc ?w \<le> length names"
        "m \<le> length ?r'"
      using nm w len prems(2,6) len'(1) by simp_all
    obtain u2 r2 n2 where r: "wildcard_loop mp names (Suc ?w) ?u ?r' nr ?n = Some (u2, r2, n2)" "n2 \<le> length r2"
        "take n2 r2 = take m (take ?n ?r' @ hosts_from k names (Suc ?w))"
      using 1(1) [OF c(1) refl c(2,3) mt refl refl ub' c(4,5) n' prems(4-6)] by blast
    have "take ?n ?r' = (take n ranks @ [?w]) @ take ?k ?A"
      unfolding pre by (rule take_append3) (use nm prems(2) in simp)
    moreover have "take m ((take n ranks @ [?w]) @ take ?k ?A @ hosts_from k names (Suc ?w)) =
        take m ((take n ranks @ [?w]) @ take (k - 1) ?A @ hosts_from k names (Suc ?w))"
      by (rule take_short [where n = "Suc n"]) (use nm prems(2) k in auto)
    ultimately have "take n2 r2 = take m (take n ranks @ hosts_from k names w)"
      unfolding r(3) skip hosts_from_first [OF w sk(4) [OF w] prems(4) ub sk(3,1)]
      by (simp only: append_assoc append_Cons append_Nil)
    then show ?thesis unfolding eq using r(1,2) by blast
  qed
qed

section \<open>Reading \<open>*:k\<close>\<close>

lemma show_nat_length: "n < 10 ^ m \<Longrightarrow> 1 \<le> m \<Longrightarrow> length (show_nat n) \<le> m"
proof (induction n arbitrary: m rule: show_nat.induct)
  case (1 n)
  show ?case
  proof (cases "n < 10")
    case True
    then show ?thesis using 1(3) by (subst show_nat.simps) simp
  next
    case False
    then obtain j where j: "m = Suc j" "1 \<le> j" using 1(2,3) by (cases m; cases "m - 1") auto
    then have "n div 10 < 10 ^ j" using 1(2) by (simp add: less_mult_imp_div_less mult.commute)
    then have "length (show_nat (n div 10)) \<le> j" using 1(1) False j(2) by simp
    then show ?thesis using False j(1) by (subst show_nat.simps) simp
  qed
qed

lemma digit_not_special:
  "is_digit c \<Longrightarrow> c \<noteq> COLON \<and> c \<noteq> COMMA \<and> c \<noteq> CHR ''*'' \<and> c \<noteq> CHR ''-'' \<and> c \<noteq> CHR ''+'' \<and> \<not> is_space c"
  by (auto simp: is_digit_def is_space_def COLON_def COMMA_def)

lemma strtol_show: "n < 2 ^ 31 \<Longrightarrow> strtol (show_nat n) = (int n, [])"
proof -
  assume n: "n < 2 ^ 31"
  obtain c cs where s: "show_nat n = c # cs" using show_nat_digits [of n] by (cases "show_nat n") auto
  then have d: "\<forall>x \<in> set (c # cs). is_digit x" using show_nat_digits [of n] by simp
  have c: "is_digit c" using d by simp
  have "dropWhile is_digit (c # cs) = []" "takeWhile is_digit (c # cs) \<noteq> []" "dropWhile is_space (c # cs) = c # cs"
    using d digit_not_special [OF c] by (simp_all add: dropWhile_eq_Nil_conv)
  moreover have "hd (c # cs) \<noteq> CHR ''-''" "\<not> (c = CHR ''-'' \<or> c = CHR ''+'')" using digit_not_special [OF c] by simp_all
  moreover have "atoi_digits 0 (c # cs) = int n" using atoi_digits_show [of n] s by simp
  ultimately have "strtol (c # cs) = (max (- (2 ^ 63)) (min (2 ^ 63 - 1) (int n)), [])"
    unfolding strtol_def Let_def by (simp only: list.case if_False HOL.simp_thms)
  then show ?thesis using s n by simp
qed

lemma word_length_digits: "\<forall>c \<in> set s. is_digit c \<Longrightarrow> word_length s = length s"
proof -
  assume "\<forall>c \<in> set s. is_digit c"
  then have "\<forall>c \<in> set s. c \<noteq> COLON \<and> c \<noteq> COMMA" using digit_not_special by simp
  then have "takeWhile (\<lambda>c. c \<noteq> COLON \<and> c \<noteq> COMMA) s = s" by (simp only: takeWhile_eq_all_conv)
  then show ?thesis unfolding word_length_def by (rule arg_cong [where f = length])
qed

lemma lex_digits:
  assumes "n < 2 ^ 31"
  shows "cb_config_list_lex \<lparr>token_ptr = show_nat n, yylval = y\<rparr> = Some (AGG_STRING, \<lparr>token_ptr = [], yylval = show_nat n\<rparr>)"
proof -
  obtain c cs where s: "show_nat n = c # cs" using show_nat_digits [of n] by (cases "show_nat n") auto
  have c: "is_digit c" using show_nat_digits [of n] s by simp
  have "length (show_nat n) \<le> 10" using assms by (intro show_nat_length) simp_all
  moreover have "word_length (c # cs) = length (c # cs)"
    using show_nat_digits [of n] s by (intro word_length_digits) simp
  ultimately show ?thesis
    using digit_not_special [OF c] s by (simp add: cb_config_list_lex_def MPI_MAX_INFO_VAL_def Let_def)
qed

lemma get_max_procs_star:
  assumes "k < 2 ^ 31"
  shows "get_max_procs nodes \<lparr>token_ptr = COLON # show_nat k, yylval = y\<rparr> = Some (int k, \<lparr>token_ptr = [], yylval = show_nat k\<rparr>)"
proof -
  have "cb_config_list_lex \<lparr>token_ptr = COLON # show_nat k, yylval = y\<rparr> = Some (AGG_COLON, \<lparr>token_ptr = show_nat k, yylval = y\<rparr>)"
    by (simp add: cb_config_list_lex_def Let_def)
  moreover have "cb_config_list_lex \<lparr>token_ptr = [], yylval = show_nat k\<rparr> = Some (AGG_EOS, \<lparr>token_ptr = [], yylval = show_nat k\<rparr>)"
    by (simp add: cb_config_list_lex_def)
  moreover have "to_int (int k) = int k" using assms by (simp add: to_int_def)
  ultimately show ?thesis using assms by (simp add: get_max_procs_def lex_digits strtol_show Let_def)
qed

lemma config_loop_end:
  "config_loop names nodes \<lparr>token_ptr = [], yylval = y\<rparr> used ranks n = Some (n, ranks)"
  by (subst config_loop.simps) (simp add: cb_config_list_lex_def)

text \<open>
  C25: the configuration \<open>*:k\<close> (the default is \<open>*:1\<close>) takes, host after host in the order in which
  the hosts first appear, the \<open>k\<close> lowest ranks of each host (all of them where there are fewer),
  until \<open>cb_nodes\<close> aggregators have been found.
\<close>

theorem wildcard_takes_k_per_host:
  assumes "1 \<le> k" "k < 2 ^ 31" "nodes \<le> length names" "nodes \<le> length ranklist"
  shows "\<exists>n ranks. ADIOI_cb_config_list_parse (''*:'' @ show_nat k) names ranklist (int nodes) = Some (int n, ranks) \<and>
     n \<le> length ranks \<and>
     take n ranks = take nodes (concat (map (\<lambda>i. take k (same_host names i)) (filter (first_on_host names) [0..<length names])))"
proof -
  have ne: "''*:'' @ show_nat k \<noteq> ''*:*''"
    using show_nat_digits [of k] by (cases "show_nat k") (auto simp: is_digit_def)
  have lex: "cb_config_list_lex \<lparr>token_ptr = ''*:'' @ show_nat k, yylval = []\<rparr> =
      Some (AGG_WILDCARD, \<lparr>token_ptr = COLON # show_nat k, yylval = []\<rparr>)"
    by (simp add: cb_config_list_lex_def word_length_def COLON_def COMMA_def)
  have ub: "used_before names 0 (replicate (length names) False)" by (simp add: used_before_def)
  obtain used' ranks n where w: "wildcard_loop (int k) names 0 (replicate (length names) False) ranklist (int nodes) 0 = Some (used', ranks, n)"
      "n \<le> length ranks" "take n ranks = take nodes (take 0 ranklist @ hosts_from k names 0)"
    using wildcard_loop_hosts [OF ub _ assms(4) _ assms(1) refl refl, of 0] by auto
  have cb: "(if int nodes > int (length names) then int (length names) else int nodes) = int nodes" using assms(3) by simp
  have "config_loop names (int nodes) \<lparr>token_ptr = ''*:'' @ show_nat k, yylval = []\<rparr> (replicate (length names) False) ranklist 0 = Some (n, ranks)"
  proof (cases "nodes = 0")
    case True
    then show ?thesis using w(1) by (subst config_loop.simps) (simp add: wildcard_loop.simps)
  next
    case False
    then show ?thesis
      using lex get_max_procs_star [OF assms(2), of "int nodes"] w(1) assms(1) config_loop_end
      by (subst config_loop.simps) (simp add: match_procs_def)
  qed
  then show ?thesis
    using ne cb w(2,3) by (simp add: ADIOI_cb_config_list_parse_def hosts_from_def Let_def)
qed

theorem wildcard_takes_k_per_host_witness:
  "\<exists>n ranks. ADIOI_cb_config_list_parse ''*:1'' [''a'', ''a'', ''b'', ''a'', ''c''] [9, 9, 9, 9, 9] 5 = Some (int n, ranks) \<and>
     take n ranks = [0, 2, 4]"
proof -
  have "''*:'' @ show_nat 1 = ''*:1''" by code_simp
  moreover have "take 5 (concat (map (\<lambda>i. take 1 (same_host [''a'', ''a'', ''b'', ''a'', ''c''] i))
      (filter (first_on_host [''a'', ''a'', ''b'', ''a'', ''c'']) [0..<length [''a'', ''a'', ''b'', ''a'', ''c'']]))) = [0, 2, 4]"
    by code_simp
  ultimately show ?thesis
    using wildcard_takes_k_per_host [of 1 5 "[''a'', ''a'', ''b'', ''a'', ''c'']" "[9, 9, 9, 9, 9]"] by auto
qed

section \<open>The name array\<close>

lemma gatherv_concat:
  "length pre = d \<Longrightarrow> length junk = sum_list (map length bs) \<Longrightarrow>
   gatherv bs (displacements d (map length bs)) (pre @ junk) = Some (pre @ concat bs)"
proof (induction bs arbitrary: pre d junk)
  case (Cons b bs)
  have "gatherv bs (displacements (d + length b) (map length bs)) ((pre @ b) @ drop (length b) junk) = Some ((pre @ b) @ concat bs)"
    by (rule Cons.IH) (use Cons.prems in simp_all)
  with Cons.prems show ?case by simp
qed simp

lemma names_from_region:
  "\<forall>s \<in> set ns. NUL \<notin> set s \<Longrightarrow>
   map (\<lambda>d. cstr (drop d (pre @ concat (map (\<lambda>s. s @ [NUL]) ns)))) (displacements (length pre) (map (\<lambda>s. length s + 1) ns)) = ns"
proof (induction ns arbitrary: pre)
  case (Cons s ns)
  let ?rest = "concat (map (\<lambda>s. s @ [NUL]) ns)"
  have "cstr (s @ NUL # ?rest) = s" using Cons.prems by (intro cstr_append_NUL) simp
  moreover have "map (\<lambda>d. cstr (drop d ((pre @ s @ [NUL]) @ ?rest))) (displacements (length (pre @ s @ [NUL])) (map (\<lambda>s. length s + 1) ns)) = ns"
    by (rule Cons.IH) (use Cons.prems in simp)
  ultimately show ?case by simp
qed simp

text \<open>
  Process 0 ends up with the processor names in rank order: the region is large enough for
  all of them, every name is found at its displacement, and the array is freed exactly when the
  attributes of both communicators, and those of every duplicate, have been deleted.
\<close>

theorem gathered_names_in_rank_order:
  assumes "\<forall>s \<in> set procnames. NUL \<notin> set s" "\<And>n. length (junk n) = n"
  shows "\<exists>a. ADIOI_cb_gather_name_array junk procnames = Some a \<and> anames a = procnames \<and> namect a = length procnames \<and>
     (\<exists>b. ADIOI_cb_delete_name_array a = Some b \<and> ADIOI_cb_delete_name_array b = None \<and>
        Option.bind (ADIOI_cb_copy_name_array (Some b)) ADIOI_cb_delete_name_array = Some b)"
proof -
  let ?bs = "map (\<lambda>s. s @ [NUL]) procnames"
  have lens: "map length ?bs = map (\<lambda>s. length s + 1) procnames" by simp
  have "gatherv ?bs (displacements 0 (map (\<lambda>s. length s + 1) procnames)) (junk (sum_list (map (\<lambda>s. length s + 1) procnames))) = Some (concat ?bs)"
    using gatherv_concat [of "[]" 0 "junk (sum_list (map (\<lambda>s. length s + 1) procnames))" ?bs] assms(2) unfolding lens by simp
  moreover have "map (\<lambda>d. cstr (drop d (concat ?bs))) (displacements 0 (map (\<lambda>s. length s + 1) procnames)) = procnames"
    using names_from_region [OF assms(1), of "[]"] by simp
  ultimately show ?thesis
    by (simp add: ADIOI_cb_gather_name_array_def ADIOI_cb_delete_name_array_def ADIOI_cb_copy_name_array_def Let_def)
qed

theorem gathered_names_in_rank_order_witness:
  "\<exists>a. ADIOI_cb_gather_name_array (\<lambda>n. replicate n CHR ''x'') [''ccn1'', ''b''] = Some a \<and> anames a = [''ccn1'', ''b'']"
  using gathered_names_in_rank_order [of "[''ccn1'', ''b'']" "\<lambda>n. replicate n CHR ''x''"] by (auto simp: NUL_def)

lemma rank_string_eq:
  "length v < MPI_MAX_INFO_VAL \<Longrightarrow>
   rank_string v rs = take (MPI_MAX_INFO_VAL - 1) (v @ concat (map (\<lambda>r. show_nat r @ '' '') rs))"
proof (induction rs arbitrary: v)
  case (Cons r rs)
  show ?case
  proof (cases "length (show_nat r @ '' '') \<ge> MPI_MAX_INFO_VAL - length v")
    case True
    then have "take (MPI_MAX_INFO_VAL - 1 - length v) ((show_nat r @ '' '') @ concat (map (\<lambda>r. show_nat r @ '' '') rs)) =
        take (MPI_MAX_INFO_VAL - length v - 1) (show_nat r @ '' '')"
      by (simp add: diff_commute)
    then show ?thesis using True Cons.prems by (simp add: Let_def)
  next
    case False
    then have "length (v @ show_nat r @ '' '') < MPI_MAX_INFO_VAL" by simp
    from Cons.IH [OF this] False show ?thesis by (simp add: Let_def)
  qed
qed simp

lemma show_nat_NUL: "NUL \<notin> set (show_nat n)"
proof
  assume "NUL \<in> set (show_nat n)"
  then have "is_digit NUL" using show_nat_digits [of n] by blast
  then show False by (simp add: is_digit_def NUL_def)
qed

text \<open>
  after \<open>ADIOI_cb_bcast_rank_map\<close> the info object shows the number of aggregators and, under
  \<open>romio_aggregator_list\<close>, their ranks in order, cut to what fits into an info value; the hints
  are those of process 0.
\<close>

theorem rank_map_is_published:
  assumes "info_inv info" "1 \<le> nodes" "nodes < 2 ^ 31" "nodes \<le> length ranklist"
  shows "\<exists>info'. ADIOI_cb_bcast_rank_map romio_ops nodes ranklist info = Some (nodes, take nodes ranklist, info') \<and>
     info_inv info' \<and> map_option atoi (i_get romio_ops info' ''cb_nodes'') = Some (int nodes) \<and>
     i_get romio_ops info' ''romio_aggregator_list'' =
       Some (take (MPI_MAX_INFO_VAL - 1) (concat (map (\<lambda>r. show_nat r @ '' '') (take nodes ranklist))))"
proof -
  let ?v = "take (MPI_MAX_INFO_VAL - 1) (concat (map (\<lambda>r. show_nat r @ '' '') (take nodes ranklist)))"
  have v: "rank_string [] (take nodes ranklist) = ?v"
    using rank_string_eq [of "[]"] by (simp add: MPI_MAX_INFO_VAL_def)
  have "take nodes ranklist \<noteq> []" using assms(2,4) by auto
  then obtain r rs where "take nodes ranklist = r # rs" by (cases "take nodes ranklist") auto
  then have "?v \<noteq> []" using show_nat_digits [of r] by (simp add: MPI_MAX_INFO_VAL_def)
  moreover have "NUL \<notin> set (concat (map (\<lambda>r. show_nat r @ '' '') xs))" for xs
    using show_nat_NUL by (induction xs) (simp_all add: NUL_def)
  then have "NUL \<notin> set ?v" by (metis in_set_takeD)
  ultimately have acc2: "romio_accepts ''romio_aggregator_list'' ?v"
    by (simp add: romio_accepts_def key_ok_def MPI_MAX_INFO_KEY_def)
  have "length (show_nat nodes) \<le> 10" using assms(3) by (intro show_nat_length) simp_all
  then have acc1: "romio_accepts ''cb_nodes'' (show_nat nodes)"
    using show_nat_digits [of nodes] show_nat_NUL
    by (simp add: romio_accepts_def key_ok_def MPI_MAX_INFO_KEY_def MPI_MAX_INFO_VAL_def)
  obtain i1 where i1: "i_set romio_ops info ''cb_nodes'' (show_nat nodes) = Some i1" "info_inv i1"
      "i_get romio_ops i1 = (i_get romio_ops info)(''cb_nodes'' \<mapsto> show_nat nodes)"
    using ri.set_ok [OF assms(1) acc1] by blast
  obtain i2 where "i_set romio_ops i1 ''romio_aggregator_list'' ?v = Some i2" "info_inv i2"
      "i_get romio_ops i2 = (i_get romio_ops i1)(''romio_aggregator_list'' \<mapsto> ?v)"
    using ri.set_ok [OF i1(2) acc2] by blast
  with i1 assms(2) v show ?thesis by (simp add: ADIOI_cb_bcast_rank_map_def atoi_show)
qed

theorem rank_map_is_published_witness:
  "\<exists>info'. ADIOI_cb_bcast_rank_map romio_ops 2 [3, 12] MPI_Info_create = Some (2, [3, 12], info') \<and>
     i_get romio_ops info' ''romio_aggregator_list'' = Some ''3 12 ''"
proof -
  have "info_inv MPI_Info_create" by (simp add: info_inv_def valid_info_def MPI_Info_create_def)
  moreover have "take (MPI_MAX_INFO_VAL - 1) (concat (map (\<lambda>r. show_nat r @ '' '') [3, 12])) = ''3 12 ''" by code_simp
  ultimately show ?thesis using rank_map_is_published [of MPI_Info_create 2 "[3, 12]"] by auto
qed

end
