(* ===== verification/File_View.thy ===== *)
theory File_View
  imports E10_Prelude
begin

text \<open>
  Positions in a file view (\<open>romio/adio/common/byte_offset.c\<close>, \<open>get_fp_posn.c\<close>, \<open>eof_offset.c\<close>,
  \<open>ad_seek.c\<close>). A view is its displacement, the size of the etype, and the filetype:
  whether it is contiguous, its size and extent, and its flattened blocks, each an index and a
  length. What the MPI library says of a datatype is a parameter. Divisions are those of C;
  a division by zero is \<open>None\<close>.
\<close>

section \<open>Views\<close>

record view =
  vdisp :: int
  etype_size :: int
  filetype_size :: int
  filetype_extent :: int
  filetype_is_contig :: bool
  blocks :: "(int \<times> int) list"

section \<open>From etypes to bytes\<close>

text \<open>The loop over the blocks: \<open>0\<close> when no block holds the byte.\<close>

fun abs_off_loop :: "(int \<times> int) list \<Rightarrow> int \<Rightarrow> int \<Rightarrow> int" where
  "abs_off_loop [] acc size_in_filetype = 0"
| "abs_off_loop ((idx, len) # bs) acc size_in_filetype =
     (let acc' = acc + len in
      if acc' > size_in_filetype then idx + size_in_filetype - (acc' - len)
      else abs_off_loop bs acc' size_in_filetype)"

definition noncontig_offset :: "view \<Rightarrow> int \<Rightarrow> int option" where
  "noncontig_offset v offset =
     (if etype_size v = 0 \<or> filetype_size v sdiv etype_size v = 0 then None
      else (let n_etypes = filetype_size v sdiv etype_size v;
                n_filetypes = offset sdiv n_etypes;
                size_in_filetype = (offset smod n_etypes) * etype_size v
            in Some (vdisp v + n_filetypes * filetype_extent v + abs_off_loop (blocks v) 0 size_in_filetype)))"

definition ADIOI_Get_byte_offset :: "view \<Rightarrow> int \<Rightarrow> int option" where
  "ADIOI_Get_byte_offset v offset =
     (if filetype_is_contig v then Some (vdisp v + etype_size v * offset) else noncontig_offset v offset)"

text \<open>The result is the return value and the new individual file pointer.\<close>

definition ADIOI_GEN_SeekIndividual :: "view \<Rightarrow> int \<Rightarrow> int \<Rightarrow> (int \<times> int) option" where
  "ADIOI_GEN_SeekIndividual v fp offset =
     (if filetype_is_contig v then
        (let off = vdisp v + etype_size v * offset in Some (off, off))
      else if filetype_size v = 0 then Some (0, fp)
      else map_option (\<lambda>off. (off, off)) (noncontig_offset v offset))"

section \<open>From bytes to etypes\<close>

text \<open>
  One turn over the blocks: \<open>base\<close> is the position of the filetype. The result is \<open>sum\<close> when the
  byte was found. The two routines differ in what they do with a byte before the block.
\<close>

fun posn_scan :: "(int \<times> int) list \<Rightarrow> int \<Rightarrow> int \<Rightarrow> int \<Rightarrow> int option" where
  "posn_scan [] base acc byte = None"
| "posn_scan ((idx, len) # bs) base acc byte =
     (let acc' = acc + len in
      if base + idx + len \<ge> byte then Some (acc' - (base + idx + len - byte))
      else posn_scan bs base acc' byte)"

fun eof_scan :: "(int \<times> int) list \<Rightarrow> int \<Rightarrow> int \<Rightarrow> int \<Rightarrow> int option" where
  "eof_scan [] base acc fsize = None"
| "eof_scan ((idx, len) # bs) base acc fsize =
     (let acc' = acc + len in
      if base + idx + len \<ge> fsize then
        (if base + idx \<ge> fsize then Some (acc' - len) else Some (acc' - (base + idx + len - fsize)))
      else eof_scan bs base acc' fsize)"

text \<open>The loop over the filetypes, from number \<open>n\<close> on; \<open>None\<close> when the fuel runs out.\<close>

fun filetype_loop :: "(int \<Rightarrow> int option) \<Rightarrow> nat \<Rightarrow> int \<Rightarrow> (int \<times> int) option" where
  "filetype_loop scan 0 n = None"
| "filetype_loop scan (Suc fuel) n = (case scan n of
     Some acc \<Rightarrow> Some (n, acc) | None \<Rightarrow> filetype_loop scan fuel (n + 1))"

definition ADIOI_Get_position :: "nat \<Rightarrow> view \<Rightarrow> int \<Rightarrow> int option" where
  "ADIOI_Get_position fuel v fp =
     (if etype_size v = 0 then None
      else if filetype_is_contig v then Some ((fp - vdisp v) sdiv etype_size v)
      else (case filetype_loop (\<lambda>n. posn_scan (blocks v) (vdisp v + n * filetype_extent v) 0 fp) fuel 0 of
          None \<Rightarrow> None
        | Some (n, acc) \<Rightarrow> Some ((n * filetype_size v + acc) sdiv etype_size v)))"

definition ADIOI_Get_eof_offset :: "nat \<Rightarrow> view \<Rightarrow> int \<Rightarrow> int option" where
  "ADIOI_Get_eof_offset fuel v fsize =
     (if etype_size v = 0 then None
      else if filetype_is_contig v then Some ((fsize - vdisp v + etype_size v - 1) sdiv etype_size v)
      else (case filetype_loop (\<lambda>n. eof_scan (blocks v) (vdisp v + n * filetype_extent v) 0 fsize) fuel 0 of
          None \<Rightarrow> None
        | Some (n, acc) \<Rightarrow> Some ((n * filetype_size v + acc + etype_size v - 1) sdiv etype_size v)))"

section \<open>What a view selects\<close>

text \<open>The position of the byte number \<open>b\<close> of a view.\<close>

fun block_pos :: "(int \<times> int) list \<Rightarrow> int \<Rightarrow> int" where
  "block_pos [] r = 0"
| "block_pos ((idx, len) # bs) r = (if r < len then idx + r else block_pos bs (r - len))"

definition blocks_size :: "(int \<times> int) list \<Rightarrow> int" where
  "blocks_size bs = sum_list (map snd bs)"

definition view_pos :: "view \<Rightarrow> int \<Rightarrow> int" where
  "view_pos v b = (if filetype_is_contig v then vdisp v + b
     else vdisp v + (b div filetype_size v) * filetype_extent v + block_pos (blocks v) (b mod filetype_size v))"

text \<open>Blocks in order, none empty, from \<open>lo\<close> to \<open>hi\<close>.\<close>

fun ordered :: "int \<Rightarrow> (int \<times> int) list \<Rightarrow> int \<Rightarrow> bool" where
  "ordered lo [] hi \<longleftrightarrow> lo \<le> hi"
| "ordered lo ((idx, len) # bs) hi \<longleftrightarrow> lo \<le> idx \<and> 0 < len \<and> ordered (idx + len) bs hi"

text \<open>
  What MPI requires of a view: the displacements of the filetype do not decrease and do not
  overlap, also from one filetype to the next, and it is made of etypes.
\<close>

definition view_ok :: "view \<Rightarrow> bool" where
  "view_ok v \<longleftrightarrow> 0 < etype_size v \<and> (filetype_is_contig v \<or>
     blocks v \<noteq> [] \<and> ordered (fst (hd (blocks v))) (blocks v) (fst (hd (blocks v)) + filetype_extent v) \<and>
     0 \<le> fst (hd (blocks v)) \<and> filetype_size v = blocks_size (blocks v) \<and> etype_size v dvd filetype_size v)"

section \<open>Blocks\<close>

lemma abs_off_loop_eq: "abs_off_loop bs acc r = block_pos bs (r - acc)"
  by (induction bs acc r rule: abs_off_loop.induct) (auto simp: Let_def algebra_simps)

lemma ordered_size: "ordered lo bs hi \<Longrightarrow> 0 \<le> blocks_size bs \<and> lo + blocks_size bs \<le> hi"
  by (induction lo bs hi rule: ordered.induct) (auto simp: blocks_size_def)

lemma blocks_size_Cons [simp]: "blocks_size ((idx, len) # bs) = len + blocks_size bs"
  by (simp add: blocks_size_def)

lemma blocks_size_Nil [simp]: "blocks_size [] = 0"
  by (simp add: blocks_size_def)

lemma block_pos_bounds:
  "ordered lo bs hi \<Longrightarrow> 0 \<le> r \<Longrightarrow> r < blocks_size bs \<Longrightarrow> lo + r \<le> block_pos bs r \<and> block_pos bs r < hi"
proof (induction lo bs hi arbitrary: r rule: ordered.induct)
  case (2 lo idx len bs hi)
  show ?case
  proof (cases "r < len")
    case True
    then show ?thesis using 2 ordered_size [of "idx + len" bs hi] by auto
  next
    case False
    then have "idx + len + (r - len) \<le> block_pos bs (r - len) \<and> block_pos bs (r - len) < hi"
      using 2 by (intro "2.IH") auto
    then show ?thesis using 2(2) False by auto
  qed
qed simp

lemma block_pos_mono:
  "ordered lo bs hi \<Longrightarrow> 0 \<le> q \<Longrightarrow> q < r \<Longrightarrow> r < blocks_size bs \<Longrightarrow> block_pos bs q < block_pos bs r"
proof (induction lo bs hi arbitrary: q r rule: ordered.induct)
  case (2 lo idx len bs hi)
  show ?case
  proof (cases "q < len \<and> \<not> r < len")
    case True
    then have "idx + len + (r - len) \<le> block_pos bs (r - len)"
      using block_pos_bounds [of "idx + len" bs hi "r - len"] 2(2-) by auto
    then show ?thesis using True by simp
  next
    case False
    then show ?thesis using 2 "2.IH" [of "q - len" "r - len"] by auto
  qed
qed simp

text \<open>The facts on a well-formed view that the proofs use.\<close>

lemma view_okD:
  assumes "view_ok v" "\<not> filetype_is_contig v"
  obtains i0 where "ordered i0 (blocks v) (i0 + filetype_extent v)" "0 \<le> i0" "filetype_size v = blocks_size (blocks v)"
    "0 < filetype_size v" "filetype_size v \<le> filetype_extent v"
proof -
  let ?i0 = "fst (hd (blocks v))"
  have o: "ordered ?i0 (blocks v) (?i0 + filetype_extent v)" "filetype_size v = blocks_size (blocks v)" "0 \<le> ?i0"
    using assms by (auto simp: view_ok_def)
  obtain idx len bs where b: "blocks v = (idx, len) # bs" using assms by (cases "blocks v") (auto simp: view_ok_def)
  then have "0 < blocks_size (blocks v)"
    using o(1) ordered_size [of "idx + len" bs "idx + filetype_extent v"] by simp
  then show ?thesis using that o ordered_size [OF o(1)] by auto
qed

lemma view_pos_mono:
  assumes "view_ok v" "0 \<le> b" "b < c"
  shows "view_pos v b < view_pos v c"
proof (cases "filetype_is_contig v")
  case True
  then show ?thesis using assms by (simp add: view_pos_def)
next
  case False
  obtain i0 where o: "ordered i0 (blocks v) (i0 + filetype_extent v)" "filetype_size v = blocks_size (blocks v)"
      "0 < filetype_size v" "filetype_size v \<le> filetype_extent v"
    using view_okD [OF assms(1) False] by metis
  let ?fs = "filetype_size v" and ?ex = "filetype_extent v"
  have r: "0 \<le> b mod ?fs" "b mod ?fs < ?fs" "0 \<le> c mod ?fs" "c mod ?fs < ?fs" using o(3) by simp_all
  note bb = block_pos_bounds [OF o(1) r(1)] block_pos_bounds [OF o(1) r(3)]
  show ?thesis
  proof (cases "b div ?fs = c div ?fs")
    case True
    then have "?fs * (b div ?fs) = ?fs * (c div ?fs)" by simp
    then have "b mod ?fs < c mod ?fs"
      using assms(3) mult_div_mod_eq [of ?fs b] mult_div_mod_eq [of ?fs c] by linarith
    then have "block_pos (blocks v) (b mod ?fs) < block_pos (blocks v) (c mod ?fs)"
      using block_pos_mono [OF o(1) r(1)] r(4) o(2) by simp
    then show ?thesis using True False by (simp add: view_pos_def)
  next
    case ne: False
    have "b div ?fs \<le> c div ?fs" using assms(3) o(3) by (simp add: zdiv_mono1)
    then have "b div ?fs + 1 \<le> c div ?fs" using ne by simp
    then have "(b div ?fs + 1) * ?ex \<le> c div ?fs * ?ex" using o(3,4) by (intro mult_right_mono) auto
    then show ?thesis using bb r o(2) False by (simp add: view_pos_def algebra_simps)
  qed
qed

lemma byte_offset_eq:
  assumes "view_ok v" "0 \<le> k"
  shows "ADIOI_Get_byte_offset v k = Some (view_pos v (k * etype_size v))"
proof (cases "filetype_is_contig v")
  case True
  then show ?thesis by (simp add: ADIOI_Get_byte_offset_def view_pos_def mult.commute)
next
  case False
  let ?es = "etype_size v"
  have es: "0 < ?es" "?es dvd filetype_size v" using assms(1) False by (auto simp: view_ok_def)
  have fs: "0 < filetype_size v" using view_okD [OF assms(1) False] by metis
  obtain m where m: "filetype_size v = ?es * m" using es(2) by blast
  then have mpos: "0 < m" using fs es(1) by (simp add: zero_less_mult_iff)
  have "filetype_size v sdiv ?es = m" using m es(1) mpos by (simp add: sdiv_nonneg)
  moreover have "k sdiv m = k div m" "k smod m = k mod m"
    using assms(2) mpos by (simp_all add: sdiv_nonneg smod_nonneg)
  moreover have "k * ?es div filetype_size v = k div m" "k * ?es mod filetype_size v = (k mod m) * ?es"
    using es(1) div_mult_mult1 [of ?es k m] mod_mult_mult1 [of ?es k m] unfolding m by (simp_all add: mult.commute)
  ultimately show ?thesis
    using False es(1) mpos by (simp add: ADIOI_Get_byte_offset_def noncontig_offset_def view_pos_def abs_off_loop_eq Let_def)
qed

section \<open>From bytes back to etypes\<close>

lemma posn_scan_pos:
  "ordered lo bs hi \<Longrightarrow> 0 \<le> r \<Longrightarrow> r < blocks_size bs \<Longrightarrow>
   posn_scan bs base acc (base + block_pos bs r) = Some (acc + r)"
proof (induction lo bs hi arbitrary: r acc rule: ordered.induct)
  case (2 lo idx len bs hi)
  show ?case
  proof (cases "r < len")
    case True
    then show ?thesis by (simp add: Let_def)
  next
    case False
    then have b: "idx + len + (r - len) \<le> block_pos bs (r - len)"
      using block_pos_bounds [of "idx + len" bs hi "r - len"] 2(2-) by auto
    show ?thesis
    proof (cases "block_pos bs (r - len) \<le> idx + len")
      case True
      then have "block_pos bs (r - len) = idx + len" "r = len" using b False by linarith+
      then show ?thesis by (simp add: Let_def)
    next
      case later: False
      have "posn_scan bs base (acc + len) (base + block_pos bs (r - len)) = Some (acc + len + (r - len))"
        using 2 False by (intro "2.IH") auto
      then show ?thesis using False later by (simp add: Let_def)
    qed
  qed
qed simp

lemma ordered_full: "ordered h bs h \<Longrightarrow> bs = []"
proof (cases bs)
  case (Cons b bs')
  assume "ordered h bs h"
  then show ?thesis using Cons ordered_size [of "fst b + snd b" bs' h] by (cases b) auto
qed simp

lemma posn_scan_after:
  "ordered lo bs hi \<Longrightarrow> base + hi \<le> byte \<Longrightarrow>
   posn_scan bs base acc byte = None \<or> byte = base + hi \<and> posn_scan bs base acc byte = Some (acc + blocks_size bs)"
proof (induction lo bs hi arbitrary: acc rule: ordered.induct)
  case (2 lo idx len bs hi)
  have o: "ordered (idx + len) bs hi" using 2(2) by simp
  show ?case
  proof (cases "base + idx + len \<ge> byte")
    case True
    then have "hi = idx + len" "byte = base + hi" using 2(3) ordered_size [OF o] by linarith+
    then show ?thesis using True ordered_full [of hi bs] o by (simp add: Let_def)
  next
    case False
    then show ?thesis using "2.IH" [OF o 2(3), of "acc + len"] by (auto simp: Let_def algebra_simps)
  qed
qed simp

lemma position_loop:
  assumes "ordered i0 bs (i0 + ex)" "0 < blocks_size bs" "0 \<le> r" "r < blocks_size bs" "0 \<le> m"
  shows "m \<le> n \<Longrightarrow> nat (n - m) < fuel \<Longrightarrow>
   \<exists>m' s. filetype_loop (\<lambda>k. posn_scan bs (d + k * ex) 0 (d + n * ex + block_pos bs r)) fuel m = Some (m', s) \<and>
     m' * blocks_size bs + s = n * blocks_size bs + r"
  using assms(5)
proof (induction fuel arbitrary: m)
  case (Suc fuel)
  let ?scan = "\<lambda>k. posn_scan bs (d + k * ex) 0 (d + n * ex + block_pos bs r)"
  have ex: "blocks_size bs \<le> ex" using ordered_size [OF assms(1)] by simp
  show ?case
  proof (cases "m = n")
    case True
    then show ?thesis using posn_scan_pos [OF assms(1,3,4), of "d + n * ex" 0] by simp
  next
    case False
    then have "(m + 1) * ex \<le> n * ex" using Suc.prems(1) ex assms(2) by (intro mult_right_mono) auto
    moreover have b: "i0 + r \<le> block_pos bs r" using block_pos_bounds [OF assms(1,3,4)] by simp
    ultimately have "(d + m * ex) + (i0 + ex) \<le> d + n * ex + block_pos bs r"
      using assms(3) by (simp add: algebra_simps)
    from posn_scan_after [OF assms(1) this, of 0] consider
        (none) "?scan m = None"
      | (full) "d + n * ex + block_pos bs r = (d + m * ex) + (i0 + ex)" "?scan m = Some (blocks_size bs)" by auto
    then show ?thesis
    proof cases
      case none
      moreover have "\<exists>m' s. filetype_loop ?scan fuel (m + 1) = Some (m', s) \<and> m' * blocks_size bs + s = n * blocks_size bs + r"
        by (rule Suc.IH) (use Suc.prems False in auto)
      ultimately show ?thesis by simp
    next
      case full
      then have eq: "(n - (m + 1)) * ex = i0 - block_pos bs r" by (simp add: algebra_simps)
      have "0 \<le> (n - (m + 1)) * ex" using False Suc.prems(1) ex assms(2) by (intro mult_nonneg_nonneg) auto
      then have "r = 0" "(n - (m + 1)) * ex = 0" using eq b assms(3) by linarith+
      then have "n = m + 1" using ex assms(2) by simp
      then show ?thesis using full(2) \<open>r = 0\<close> by (simp add: algebra_simps)
    qed
  qed
qed simp

text \<open>
  C31: \<open>ADIOI_Get_byte_offset\<close> gives the file position of the first byte of an etype of the view:
  the positions are those of the bytes the filetype selects, filetype after filetype, and they
  grow with the offset, so no two etypes overlap.
\<close>

theorem byte_offset_follows_view:
  assumes "view_ok v" "0 \<le> k"
  shows "ADIOI_Get_byte_offset v k = Some (view_pos v (k * etype_size v)) \<and>
     (\<forall>j p q. 0 \<le> j \<and> j < k \<and> ADIOI_Get_byte_offset v j = Some p \<and> ADIOI_Get_byte_offset v k = Some q \<longrightarrow>
        p < q \<and> (\<forall>b. 0 \<le> b \<and> b < etype_size v \<longrightarrow> view_pos v (j * etype_size v + b) < q))"
proof -
  have es: "0 < etype_size v" using assms(1) by (simp add: view_ok_def)
  have "view_pos v (j * etype_size v + b) < view_pos v (k * etype_size v)"
    if "0 \<le> j" "j < k" "0 \<le> b" "b < etype_size v" for j b
  proof (rule view_pos_mono [OF assms(1)])
    show "0 \<le> j * etype_size v + b" using that es by simp
    have "(j + 1) * etype_size v \<le> k * etype_size v" using that es by (intro mult_right_mono) auto
    then show "j * etype_size v + b < k * etype_size v" using that by (simp add: algebra_simps)
  qed
  from this [of _ 0] this show ?thesis
    using byte_offset_eq [OF assms(1)] assms(2) es by auto
qed

text \<open>A filetype that takes bytes 0, 1 and 4, 5, 6, 7 of every 10, with etypes of two bytes.\<close>

definition demo_view :: view where
  "demo_view = \<lparr>vdisp = 100, etype_size = 2, filetype_size = 6, filetype_extent = 10,
     filetype_is_contig = False, blocks = [(0, 2), (4, 4)]\<rparr>"

lemma demo_view_ok: "view_ok demo_view"
  by (simp add: view_ok_def demo_view_def)

theorem byte_offset_follows_view_witness:
  "ADIOI_Get_byte_offset demo_view 4 = Some (view_pos demo_view 8) \<and> view_pos demo_view 8 = 114"
proof -
  have "view_pos demo_view 8 = 114" by code_simp
  then show ?thesis using byte_offset_follows_view [OF demo_view_ok, of 4] by (simp add: demo_view_def)
qed

text \<open>
  C30: seeking to an etype of the view and asking for the position gives the etype back, for every
  view MPI allows; the search over the filetypes ends.
\<close>

theorem seek_then_get_position:
  assumes "view_ok v" "0 \<le> k" "nat k < fuel"
  shows "\<exists>off. ADIOI_GEN_SeekIndividual v fp k = Some (off, off) \<and> ADIOI_Get_position fuel v off = Some k"
proof (cases "filetype_is_contig v")
  case True
  have "0 < etype_size v" using assms(1) by (simp add: view_ok_def)
  then show ?thesis using True assms(2)
    by (simp add: ADIOI_GEN_SeekIndividual_def ADIOI_Get_position_def sdiv_nonneg Let_def)
next
  case False
  let ?es = "etype_size v" and ?fs = "filetype_size v"
  obtain i0 where o: "ordered i0 (blocks v) (i0 + filetype_extent v)" "?fs = blocks_size (blocks v)" "0 < ?fs"
    using view_okD [OF assms(1) False] by metis
  have es: "0 < ?es" "?es dvd ?fs" using assms(1) False by (auto simp: view_ok_def)
  let ?b = "k * ?es"
  have b: "0 \<le> ?b" using assms(2) es(1) by simp
  have seek: "ADIOI_GEN_SeekIndividual v fp k = Some (view_pos v ?b, view_pos v ?b)"
    using byte_offset_eq [OF assms(1,2)] False o(3)
    by (simp add: ADIOI_GEN_SeekIndividual_def ADIOI_Get_byte_offset_def)
  have "?es \<le> ?fs" using es o(3) by (simp add: zdvd_imp_le)
  then have "?b \<le> k * ?fs" using assms(2) by (intro mult_left_mono) auto
  then have "?b div ?fs \<le> k" using o(3) zdiv_mono1 [of ?b "k * ?fs" ?fs] by simp
  moreover have "0 \<le> ?b div ?fs" using b o(3) by (simp add: pos_imp_zdiv_nonneg_iff)
  ultimately have fuel: "0 \<le> ?b div ?fs" "nat (?b div ?fs - 0) < fuel" using assms(3) by linarith+
  have r: "0 \<le> ?b mod ?fs" "?b mod ?fs < blocks_size (blocks v)" "0 < blocks_size (blocks v)" using o(2,3) by simp_all
  obtain m s where ms: "filetype_loop (\<lambda>n. posn_scan (blocks v) (vdisp v + n * filetype_extent v) 0 (view_pos v ?b)) fuel 0 = Some (m, s)"
      "m * ?fs + s = ?b div ?fs * ?fs + ?b mod ?fs"
    using position_loop [OF o(1) r(3,1,2) order_refl fuel, of "vdisp v"] False o(2) by (auto simp: view_pos_def)
  then have "m * ?fs + s = ?b" by simp
  then have "ADIOI_Get_position fuel v (view_pos v ?b) = Some k"
    using False es(1) ms(1) b by (simp add: ADIOI_Get_position_def sdiv_nonneg)
  with seek show ?thesis by blast
qed

theorem seek_then_get_position_witness:
  "\<exists>off. ADIOI_GEN_SeekIndividual demo_view 0 4 = Some (off, off) \<and> ADIOI_Get_position 5 demo_view off = Some 4"
  using seek_then_get_position [OF demo_view_ok, of 4 5 0] by simp

section \<open>The end of the file\<close>

lemma eof_scan_spec:
  "ordered lo bs hi \<Longrightarrow> (case eof_scan bs base acc fsize of
     None \<Rightarrow> \<forall>r. 0 \<le> r \<and> r < blocks_size bs \<longrightarrow> base + block_pos bs r < fsize
   | Some s \<Rightarrow> acc \<le> s \<and> s \<le> acc + blocks_size bs \<and> fsize \<le> base + hi \<and>
       (\<forall>r. 0 \<le> r \<and> r < s - acc \<longrightarrow> base + block_pos bs r < fsize) \<and>
       (\<forall>r. s - acc \<le> r \<and> r < blocks_size bs \<longrightarrow> fsize \<le> base + block_pos bs r))"
proof (induction lo bs hi arbitrary: acc rule: ordered.induct)
  case (2 lo idx len bs hi)
  have o: "ordered (idx + len) bs hi" and len: "0 < len" using 2(2) by auto
  have hi: "idx + len \<le> hi" "0 \<le> blocks_size bs" using ordered_size [OF o] by auto
  have later: "idx + len \<le> block_pos bs (r - len)" if "len \<le> r" "r < len + blocks_size bs" for r
    using block_pos_bounds [OF o, of "r - len"] that by auto
  show ?case
  proof (cases "base + idx + len \<ge> fsize")
    case True
    let ?s = "if base + idx \<ge> fsize then acc else acc + len - (base + idx + len - fsize)"
    have s: "eof_scan ((idx, len) # bs) base acc fsize = Some ?s" using True by (simp add: Let_def)
    have "fsize \<le> base + block_pos ((idx, len) # bs) r" if "?s - acc \<le> r" "r < len + blocks_size bs" for r
      using that True later [of r] by (cases "r < len") (auto split: if_splits)
    moreover have "base + block_pos ((idx, len) # bs) r < fsize" if "0 \<le> r" "r < ?s - acc" for r
      using that True by (auto split: if_splits)
    ultimately show ?thesis unfolding s using True len hi by auto
  next
    case False
    let ?e = "eof_scan bs base (acc + len) fsize"
    have s: "eof_scan ((idx, len) # bs) base acc fsize = ?e" using False by (simp add: Let_def)
    note IH = "2.IH" [OF o, of "acc + len"]
    show ?thesis
    proof (cases ?e)
      case None
      then have "base + block_pos bs (r - len) < fsize" if "len \<le> r" "r < len + blocks_size bs" for r
        using IH that by simp
      then show ?thesis unfolding s using None False by auto
    next
      case (Some q)
      then have q: "acc + len \<le> q" "q \<le> acc + len + blocks_size bs" "fsize \<le> base + hi"
          "\<And>r. len \<le> r \<Longrightarrow> r < q - acc \<Longrightarrow> base + block_pos bs (r - len) < fsize"
          "\<And>r. q - acc \<le> r \<Longrightarrow> r < len + blocks_size bs \<Longrightarrow> fsize \<le> base + block_pos bs (r - len)"
        using IH by auto
      then show ?thesis unfolding s Some using False len by (auto simp: algebra_simps)
    qed
  qed
qed simp

text \<open>\<open>c\<close> is the number of bytes of the view before \<open>fsize\<close>.\<close>

definition view_end :: "view \<Rightarrow> int \<Rightarrow> int \<Rightarrow> bool" where
  "view_end v fsize c \<longleftrightarrow> 0 \<le> c \<and> (\<forall>b. 0 \<le> b \<and> b < c \<longrightarrow> view_pos v b < fsize) \<and>
     (\<forall>b. c \<le> b \<longrightarrow> fsize \<le> view_pos v b)"

lemma view_endI:
  assumes "view_ok v" "0 \<le> c" "c = 0 \<or> view_pos v (c - 1) < fsize" "fsize \<le> view_pos v c"
  shows "view_end v fsize c"
  unfolding view_end_def
proof (intro conjI allI impI)
  show "0 \<le> c" by (rule assms(2))
  fix b
  show "view_pos v b < fsize" if b: "0 \<le> b \<and> b < c"
    using assms(3) view_pos_mono [OF assms(1), of b "c - 1"] b by (cases "b = c - 1") auto
  show "fsize \<le> view_pos v b" if b: "c \<le> b"
    using assms(4) view_pos_mono [OF assms(1,2), of b] b by (cases "b = c") auto
qed

lemma view_pos_at:
  assumes "\<not> filetype_is_contig v" "0 \<le> r" "r < filetype_size v"
  shows "view_pos v (m * filetype_size v + r) = vdisp v + m * filetype_extent v + block_pos (blocks v) r"
proof -
  have "(m * filetype_size v + r) div filetype_size v = m" "(m * filetype_size v + r) mod filetype_size v = r"
    using assms(2,3) by (simp_all add: div_pos_pos_trivial)
  then show ?thesis using assms(1) by (simp add: view_pos_def)
qed

lemma eof_loop:
  assumes ok: "view_ok v" and nc: "\<not> filetype_is_contig v"
  shows "0 \<le> m \<Longrightarrow> (\<forall>b. 0 \<le> b \<and> b < m * filetype_size v \<longrightarrow> view_pos v b < fsize) \<Longrightarrow>
     nat (fsize - vdisp v - m) < fuel \<Longrightarrow>
   \<exists>m' s. filetype_loop (\<lambda>n. eof_scan (blocks v) (vdisp v + n * filetype_extent v) 0 fsize) fuel m = Some (m', s) \<and>
     view_end v fsize (m' * filetype_size v + s)"
proof (induction fuel arbitrary: m)
  case (Suc fuel)
  let ?fs = "filetype_size v" and ?ex = "filetype_extent v"
  obtain i0 where o: "ordered i0 (blocks v) (i0 + ?ex)" "0 \<le> i0" "?fs = blocks_size (blocks v)" "0 < ?fs" "?fs \<le> ?ex"
    using view_okD [OF ok nc] by metis
  let ?e = "eof_scan (blocks v) (vdisp v + m * ?ex) 0 fsize"
  note spec = eof_scan_spec [OF o(1), of "vdisp v + m * ?ex" fsize 0]
  note at = view_pos_at [OF nc]
  show ?case
  proof (cases ?e)
    case (Some s)
    then have s: "0 \<le> s" "s \<le> ?fs" "fsize \<le> vdisp v + m * ?ex + (i0 + ?ex)"
        "\<And>r. 0 \<le> r \<Longrightarrow> r < s \<Longrightarrow> vdisp v + m * ?ex + block_pos (blocks v) r < fsize"
        "\<And>r. s \<le> r \<Longrightarrow> r < ?fs \<Longrightarrow> fsize \<le> vdisp v + m * ?ex + block_pos (blocks v) r"
      using spec o(3) by auto
    have "view_end v fsize (m * ?fs + s)"
    proof (rule view_endI [OF ok])
      show "0 \<le> m * ?fs + s" using Suc.prems(1) s(1) o(4) by simp
      show "m * ?fs + s = 0 \<or> view_pos v (m * ?fs + s - 1) < fsize"
      proof (cases "s = 0")
        case True
        then show ?thesis using Suc.prems(1,2) o(4) by (cases "m = 0") (simp_all add: zero_less_mult_iff)
      next
        case False
        then show ?thesis using at [of "s - 1" m] s(1,2) s(4) [of "s - 1"] by (simp add: algebra_simps)
      qed
      show "fsize \<le> view_pos v (m * ?fs + s)"
      proof (cases "s < ?fs")
        case True
        then show ?thesis using at [of s m] s(1) s(5) [of s] by simp
      next
        case False
        then have "view_pos v (m * ?fs + s) = vdisp v + (m + 1) * ?ex + block_pos (blocks v) 0"
          using at [of 0 "m + 1"] s(2) o(4) by (simp add: algebra_simps)
        then show ?thesis
          using s(3) block_pos_bounds [OF o(1), of 0] o(3,4) by (simp add: algebra_simps)
      qed
    qed
    then show ?thesis using Some by simp
  next
    case None
    then have all: "vdisp v + m * ?ex + block_pos (blocks v) r < fsize" if "0 \<le> r" "r < ?fs" for r
      using spec o(3) that by simp
    have "view_pos v b < fsize" if "0 \<le> b \<and> b < (m + 1) * ?fs" for b
      using that Suc.prems(2) at [of "b - m * ?fs" m] all [of "b - m * ?fs"]
      by (cases "b < m * ?fs") (auto simp: algebra_simps)
    moreover have "m \<le> m * ?ex" using Suc.prems(1) o(4,5) by (simp add: mult_le_cancel_left1)
    then have "vdisp v + m < fsize" using all [of 0] block_pos_bounds [OF o(1), of 0] o(2,3,4) by simp
    then have "nat (fsize - vdisp v - (m + 1)) < fuel" using Suc.prems(3) by linarith
    ultimately have "\<exists>m' s. filetype_loop (\<lambda>n. eof_scan (blocks v) (vdisp v + n * ?ex) 0 fsize) fuel (m + 1) = Some (m', s) \<and>
        view_end v fsize (m' * ?fs + s)"
      using Suc.prems(1) by (intro Suc.IH) auto
    then show ?thesis using None by simp
  qed
qed simp

lemma ceil_div_ge:
  assumes "0 < (e :: int)" "0 \<le> c"
  shows "c \<le> (c + e - 1) div e * e" "j < (c + e - 1) div e \<Longrightarrow> j * e < c"
proof -
  let ?q = "(c + e - 1) div e"
  have q: "?q * e = c + e - 1 - (c + e - 1) mod e" "0 \<le> (c + e - 1) mod e" "(c + e - 1) mod e < e"
    using assms(1) by (simp_all add: minus_mod_eq_div_mult)
  then show "c \<le> ?q * e" by linarith
  assume "j < ?q"
  then have "(j + 1) * e \<le> ?q * e" using assms(1) by (intro mult_right_mono) auto
  then have "j * e + e \<le> ?q * e" by (simp add: algebra_simps)
  with q show "j * e < c" by linarith
qed



text \<open>With a contiguous filetype and a file that ends before the displacement the offset is negative.\<close>

lemma eof_offset_negative:
  "ADIOI_Get_eof_offset fuel \<lparr>vdisp = 100, etype_size = 1, filetype_size = 1, filetype_extent = 1,
     filetype_is_contig = True, blocks = []\<rparr> 0 = Some (-100)"
  by (simp add: ADIOI_Get_eof_offset_def)

end
