(* ===== verification/Access_List.thy ===== *)
theory Access_List
  imports File_View
begin

text \<open>
  The access list of a collective operation (\<open>ADIOI_Calc_my_off_len\<close> in \<open>ad_read_coll.c\<close>): the part of
  a view one process reads or writes, as lists of file offsets and lengths. The two-phase
  algorithm starts from it.
\<close>

section \<open>The function\<close>

text \<open>
  Searching the first block. With an explicit offset: the block that holds byte \<open>size\<close> of the filetype,
  the bytes left in it and the position of the byte; all 0 when there is none.
\<close>

fun explicit_scan :: "(int \<times> int) list \<Rightarrow> nat \<Rightarrow> int \<Rightarrow> int \<Rightarrow> nat \<times> int \<times> int" where
  "explicit_scan [] i acc sz = (0, 0, 0)"
| "explicit_scan ((idx, len) # bs) i acc sz =
     (let acc' = acc + len in
      if acc' > sz then (i, acc' - sz, idx + sz - (acc' - len)) else explicit_scan bs (Suc i) acc' sz)"

text \<open>
  With the individual file pointer, which is at \<open>offset\<close> in its filetype. At the end of a block the
  source goes on to the next one: there has to be one.
\<close>

fun individual_scan :: "(int \<times> int) list \<Rightarrow> nat \<Rightarrow> int \<Rightarrow> (nat \<times> int \<times> int) option" where
  "individual_scan [] i offset = Some (i, 0, offset)"
| "individual_scan ((idx, len) # bs) i offset =
     (if len = 0 then individual_scan bs (Suc i) offset
      else (let dist = idx + len - offset in
        if dist = 0 then (case bs of [] \<Rightarrow> None | (idx', len') # _ \<Rightarrow> Some (Suc i, len', idx'))
        else if dist > 0 then Some (i, dist, offset)
        else individual_scan bs (Suc i) offset))"

text \<open>
  The two passes over the blocks. Both may run for ever (over a filetype of empty blocks): they are
  partial functions, and that they return is part of the theorem.
\<close>

partial_function (option) count_accesses ::
  "(int \<times> int) list \<Rightarrow> int \<Rightarrow> nat \<Rightarrow> int \<Rightarrow> int \<Rightarrow> nat \<Rightarrow> nat option" where
  "count_accesses bs bufsize j frd_size i_offset n =
     (if i_offset < bufsize then
        (let n' = (if frd_size \<noteq> 0 then Suc n else n);
             i' = i_offset + frd_size;
             j' = (j + 1) mod length bs
         in if bs = [] then None
            else count_accesses bs bufsize j' (min (snd (bs ! j')) (bufsize - i')) i' n')
      else Some n)"

partial_function (option) skip_empty :: "(int \<times> int) list \<Rightarrow> nat \<Rightarrow> int \<Rightarrow> (nat \<times> int) option" where
  "skip_empty bs j n =
     (if j \<ge> length bs then None
      else if snd (bs ! j) = 0 then
        (let j' = (j + 1) mod length bs in skip_empty bs j' (if j' = 0 then n + 1 else n))
      else Some (j, n))"

text \<open>
  \<open>acc\<close> has the entries of \<open>offset_list\<close> and \<open>len_list\<close>, of which \<open>alloc\<close> fit.
\<close>

partial_function (option) fill_accesses ::
  "view \<Rightarrow> nat \<Rightarrow> int \<Rightarrow> nat \<Rightarrow> int \<Rightarrow> int \<Rightarrow> int \<Rightarrow> int \<Rightarrow> (int \<times> int) list \<Rightarrow> int \<Rightarrow>
   ((int \<times> int) list \<times> int \<times> int) option" where
  "fill_accesses v alloc bufsize j n off frd_size i_offset acc end_offset =
     (if i_offset < bufsize then
        (let acc' = (if frd_size \<noteq> 0 then acc @ [(off, frd_size)] else acc);
             i' = i_offset + frd_size;
             j' = (j + 1) mod length (blocks v)
         in if length acc' > alloc \<or> j \<ge> length (blocks v) then None
            else if off + frd_size < vdisp v + fst (blocks v ! j) + snd (blocks v ! j) + n * filetype_extent v
            then fill_accesses v alloc bufsize j n (off + frd_size) frd_size i' acc' (off + frd_size - 1)
            else (case skip_empty (blocks v) j' (if j' = 0 then n + 1 else n) of
                None \<Rightarrow> None
              | Some (j'', n'') \<Rightarrow>
                  fill_accesses v alloc bufsize j'' n'' (vdisp v + fst (blocks v ! j'') + n'' * filetype_extent v)
                    (min (snd (blocks v ! j'')) (bufsize - i')) i' acc' (off + frd_size - 1)))
      else Some (acc, end_offset, off))"

text \<open>The starting point: block, number of the filetype, bytes left in the block, file offset.\<close>

definition first_block :: "view \<Rightarrow> bool \<Rightarrow> int \<Rightarrow> int \<Rightarrow> (nat \<times> int \<times> int \<times> int) option" where
  "first_block v individual fp offset =
     (if individual then
        (if blocks v = [] \<or> filetype_extent v = 0 then None
         else (let off = fp - vdisp v;
                   n = (off - fst (hd (blocks v))) sdiv filetype_extent v
               in case individual_scan (blocks v) 0 (off - n * filetype_extent v) of
                 None \<Rightarrow> None
               | Some (i, frd, o') \<Rightarrow> Some (i, n, frd, o' + (vdisp v + n * filetype_extent v))))
      else (let per = filetype_size v sdiv etype_size v in
        if etype_size v = 0 \<or> per = 0 then None
        else (let n = offset sdiv per;
                  (i, frd, o') = explicit_scan (blocks v) 0 0 ((offset smod per) * etype_size v)
              in Some (i, n, frd, vdisp v + n * filetype_extent v + o'))))"

text \<open>
  The result: the number of accesses, the accesses, the first and the last offset, and the
  individual file pointer afterwards.
\<close>

definition ADIOI_Calc_my_off_len ::
  "view \<Rightarrow> bool \<Rightarrow> int \<Rightarrow> int \<Rightarrow> int \<Rightarrow> (nat \<times> (int \<times> int) list \<times> int \<times> int \<times> int) option" where
  "ADIOI_Calc_my_off_len v individual fp offset bufsize =
     (let start = (if individual then fp else vdisp v + etype_size v * offset) in
      if filetype_size v = 0 then Some (0, [(start, 0)], start, start - 1, fp)
      else if filetype_is_contig v then
        Some (1, [(start, bufsize)], start, start + bufsize - 1, if individual then start + bufsize else fp)
      else do {
        (st_index, n, frd_size, off) \<leftarrow> first_block v individual fp offset;
        count \<leftarrow> count_accesses (blocks v) bufsize st_index (min frd_size bufsize) 0 0;
        (acc, end_offset, off') \<leftarrow>
          fill_accesses v (count + 1) bufsize st_index n off (min frd_size bufsize) 0 [] 0;
        Some (count, acc, off, end_offset, if individual then off' else fp) })"

section \<open>Walking through the view\<close>

text \<open>
  A cursor is a filetype number, a block and a position in the block. \<open>prefix\<close> counts the bytes of
  the filetype before a block. Blocks may be empty, as the markers of a resized type or a subarray
  are, but not all of them.
\<close>

definition prefix_size :: "(int \<times> int) list \<Rightarrow> nat \<Rightarrow> int" where
  "prefix_size bs j = blocks_size (take j bs)"

definition walkable :: "view \<Rightarrow> bool" where
  "walkable v \<longleftrightarrow> \<not> filetype_is_contig v \<and> (\<forall>b \<in> set (blocks v). 0 \<le> snd b) \<and>
     filetype_size v = blocks_size (blocks v) \<and> 0 < filetype_size v"

definition byte_at :: "view \<Rightarrow> int \<Rightarrow> nat \<Rightarrow> int \<Rightarrow> int" where
  "byte_at v n j r = n * filetype_size v + prefix_size (blocks v) j + r"

lemma blocks_size_append: "blocks_size (bs @ cs) = blocks_size bs + blocks_size cs"
  by (simp add: blocks_size_def)

lemma blocks_size_nonneg: "\<forall>b \<in> set bs. 0 \<le> snd b \<Longrightarrow> 0 \<le> blocks_size bs"
  by (auto simp: blocks_size_def intro!: sum_list_nonneg)

lemma prefix_simps [simp]:
  "prefix_size bs 0 = 0"
  "j < length bs \<Longrightarrow> prefix_size bs (Suc j) = prefix_size bs j + snd (bs ! j)"
  "prefix_size bs (length bs) = blocks_size bs"
  by (simp_all add: prefix_size_def blocks_size_def take_Suc_conv_app_nth)

lemma prefix_split:
  assumes "j < length bs"
  shows "blocks_size bs = prefix_size bs j + snd (bs ! j) + blocks_size (drop (Suc j) bs)"
proof -
  have "blocks_size (take j bs @ bs ! j # drop (Suc j) bs) = prefix_size bs j + snd (bs ! j) + blocks_size (drop (Suc j) bs)"
    by (simp add: blocks_size_def prefix_size_def)
  then show ?thesis using id_take_nth_drop [OF assms] by metis
qed

lemma blocks_size_0: "\<forall>b \<in> set bs. snd b = 0 \<Longrightarrow> blocks_size bs = 0"
  by (induction bs) (auto simp: blocks_size_def)

lemma block_pos_at:
  "j < length bs \<Longrightarrow> \<forall>b \<in> set bs. 0 \<le> snd b \<Longrightarrow> 0 \<le> r \<Longrightarrow> r < snd (bs ! j) \<Longrightarrow>
   block_pos bs (prefix_size bs j + r) = fst (bs ! j) + r"
proof (induction bs arbitrary: j)
  case (Cons b bs)
  obtain idx len where b: "b = (idx, len)" by force
  show ?case
  proof (cases j)
    case (Suc k)
    have "0 \<le> prefix_size bs k"
      using Cons.prems(2) unfolding prefix_size_def by (intro blocks_size_nonneg) (auto dest: in_set_takeD)
    then show ?thesis
      using Cons Suc b by (simp add: prefix_size_def)
  qed (use Cons.prems b in simp)
qed simp

lemma view_pos_cursor:
  assumes "walkable v" "j < length (blocks v)" "0 \<le> r" "r < snd (blocks v ! j)"
  shows "view_pos v (byte_at v n j r) = vdisp v + n * filetype_extent v + fst (blocks v ! j) + r"
proof -
  have w: "\<not> filetype_is_contig v" "\<forall>b \<in> set (blocks v). 0 \<le> snd b" "filetype_size v = blocks_size (blocks v)"
    using assms(1) by (auto simp: walkable_def)
  define x where "x = prefix_size (blocks v) j + r"
  have "0 \<le> prefix_size (blocks v) j"
    using w(2) unfolding prefix_size_def by (intro blocks_size_nonneg) (auto dest: in_set_takeD)
  moreover have "0 \<le> blocks_size (drop (Suc j) (blocks v))"
    using w(2) by (intro blocks_size_nonneg) (auto dest: in_set_dropD)
  ultimately have x: "0 \<le> x" "x < filetype_size v"
    using assms prefix_split [OF assms(2)] w(3) by (simp_all add: x_def)
  have "byte_at v n j r = x + n * filetype_size v" by (simp add: byte_at_def x_def)
  then show ?thesis
    using x w(1) block_pos_at [OF assms(2) w(2) assms(3,4)] by (simp add: view_pos_def flip: x_def)
qed

lemma run_positions:
  assumes "walkable v" "j < length (blocks v)" "0 \<le> r" "r + f \<le> snd (blocks v ! j)"
  shows "map (view_pos v) [byte_at v n j r..byte_at v n j r + f - 1] =
     [vdisp v + n * filetype_extent v + fst (blocks v ! j) + r..
      vdisp v + n * filetype_extent v + fst (blocks v ! j) + r + f - 1]" (is "?l = [?p..?p + f - 1]")
proof (rule nth_equalityI)
  fix k assume "k < length ?l"
  then have k: "int k < f" by simp
  have "view_pos v (byte_at v n j (r + int k)) = ?p + int k"
    using view_pos_cursor [OF assms(1,2), of "r + int k" n] assms(3,4) k by simp
  then show "?l ! k = [?p..?p + f - 1] ! k"
    using k by (simp add: byte_at_def add.assoc)
qed simp

text \<open>Moving on to the next block that is not empty, in both passes.\<close>

definition next_block :: "(int \<times> int) list \<Rightarrow> nat \<Rightarrow> int \<Rightarrow> nat \<times> int" where
  "next_block bs j n = (let j' = (j + 1) mod length bs in (j', if j' = 0 then n + 1 else n))"

definition lands :: "view \<Rightarrow> int \<Rightarrow> nat \<Rightarrow> int \<Rightarrow> nat \<Rightarrow> int \<Rightarrow> bool" where
  "lands v bufsize j n j' n' \<longleftrightarrow> skip_empty (blocks v) j n = Some (j', n') \<and> j' < length (blocks v) \<and>
     0 < snd (blocks v ! j') \<and> byte_at v n' j' 0 = byte_at v n j 0 \<and>
     (\<forall>i m. i < bufsize \<longrightarrow>
        count_accesses (blocks v) bufsize j (min (snd (blocks v ! j)) (bufsize - i)) i m =
        count_accesses (blocks v) bufsize j' (min (snd (blocks v ! j')) (bufsize - i)) i m)"

lemma lands_here:
  "j < length (blocks v) \<Longrightarrow> 0 < snd (blocks v ! j) \<Longrightarrow> lands v bufsize j n j n"
  by (simp add: lands_def skip_empty.simps)

lemma lands_step:
  assumes "j < length (blocks v)" "snd (blocks v ! j) = 0" "next_block (blocks v) j n = (j1, n1)"
    and "byte_at v n1 j1 0 = byte_at v n j 0" "lands v bufsize j1 n1 j' n'"
  shows "lands v bufsize j n j' n'"
proof -
  have j1: "j1 = Suc j mod length (blocks v)" "n1 = (if j1 = 0 then n + 1 else n)" "blocks v \<noteq> []"
    using assms(1,3) by (auto simp: next_block_def Let_def)
  have "skip_empty (blocks v) j n = skip_empty (blocks v) j1 n1"
    using assms(1,2) j1 by (simp add: skip_empty.simps [of _ j] Let_def)
  moreover have "count_accesses (blocks v) bufsize j (min (snd (blocks v ! j)) (bufsize - i)) i m =
      count_accesses (blocks v) bufsize j1 (min (snd (blocks v ! j1)) (bufsize - i)) i m" if "i < bufsize" for i m
    using that assms(2) j1 by (simp add: count_accesses.simps [of _ _ j] Let_def)
  ultimately show ?thesis
    using assms(4,5) by (simp add: lands_def)
qed

lemma byte_at_next:
  assumes "walkable v" "j < length (blocks v)" "next_block (blocks v) j n = (j1, n1)"
  shows "j1 < length (blocks v)" "byte_at v n1 j1 0 = byte_at v n j (snd (blocks v ! j))"
proof -
  have "blocks v \<noteq> []" using assms(2) by auto
  then show "j1 < length (blocks v)" using assms(3) by (auto simp: next_block_def Let_def)
  show "byte_at v n1 j1 0 = byte_at v n j (snd (blocks v ! j))"
  proof (cases "Suc j = length (blocks v)")
    case True
    then have "blocks_size (blocks v) = prefix_size (blocks v) j + snd (blocks v ! j)"
      using prefix_split [OF assms(2)] by simp
    moreover have "j1 = 0" "n1 = n + 1" using assms(3) True by (auto simp: next_block_def Let_def)
    ultimately show ?thesis using assms(1) by (simp add: byte_at_def walkable_def algebra_simps)
  next
    case False
    then have "j1 = Suc j" "n1 = n" using assms(2,3) by (auto simp: next_block_def Let_def)
    then show ?thesis using assms(2) by (simp add: byte_at_def)
  qed
qed

lemma lands_before:
  assumes "walkable v" "k < length (blocks v)" "0 < snd (blocks v ! k)"
  shows "j \<le> k \<Longrightarrow> \<exists>j' n'. lands v bufsize j n j' n'"
proof (induction "k - j" arbitrary: j)
  case 0
  then show ?case using lands_here assms(2,3) by fastforce
next
  case (Suc d)
  have j: "j < length (blocks v)" using Suc.prems assms(2) by simp
  show ?case
  proof (cases "snd (blocks v ! j) = 0")
    case True
    have "next_block (blocks v) j n = (Suc j, n)"
      using Suc.hyps(2) assms(2) by (simp add: next_block_def)
    moreover obtain j' n' where "lands v bufsize (Suc j) n j' n'"
      using Suc.hyps by (metis Suc_leI diff_Suc_1 diff_Suc_eq_diff_pred diff_commute zero_less_Suc zero_less_diff)
    ultimately show ?thesis
      using lands_step [OF j True] byte_at_next [OF assms(1) j] True by metis
  next
    case False
    then have "0 < snd (blocks v ! j)" using assms(1) j by (auto simp: walkable_def less_le)
    then show ?thesis using lands_here [OF j] by blast
  qed
qed

lemma lands_somewhere:
  assumes "walkable v"
  shows "j < length (blocks v) \<Longrightarrow> \<exists>j' n'. lands v bufsize j n j' n'"
proof (induction "length (blocks v) - j" arbitrary: j n)
  case (Suc d)
  show ?case
  proof (cases "snd (blocks v ! j) = 0")
    case True
    obtain j1 n1 where nb: "next_block (blocks v) j n = (j1, n1)" by force
    have "\<exists>j' n'. lands v bufsize j1 n1 j' n'"
    proof (cases "j1 = 0")
      case True
      have "blocks_size (blocks v) \<noteq> 0" using assms by (simp add: walkable_def)
      then obtain b where "b \<in> set (blocks v)" "snd b \<noteq> 0"
        using blocks_size_0 by blast
      then obtain k where k: "k < length (blocks v)" "snd (blocks v ! k) \<noteq> 0" by (metis in_set_conv_nth)
      then have "0 < snd (blocks v ! k)" using assms by (auto simp: walkable_def less_le)
      then show ?thesis using True lands_before [OF assms k(1), of 0] by simp
    next
      case False
      have "Suc j \<noteq> length (blocks v)"
        using False nb by (auto simp: next_block_def Let_def)
      then have j: "Suc j < length (blocks v)" using Suc.prems by simp
      then have "j1 = Suc j" using nb by (simp add: next_block_def)
      moreover have "d = length (blocks v) - Suc j" using Suc.hyps(2) by simp
      ultimately show ?thesis using Suc.hyps(1) [of "Suc j" n1] j by simp
    qed
    then obtain j' n' where "lands v bufsize j1 n1 j' n'" by blast
    then have "lands v bufsize j n j' n'"
      using lands_step [OF Suc.prems True nb] byte_at_next(2) [OF assms Suc.prems nb] True by simp
    then show ?thesis by blast
  next
    case False
    then have "0 < snd (blocks v ! j)" using assms Suc.prems by (auto simp: walkable_def less_le)
    then show ?thesis using lands_here [OF Suc.prems] by blast
  qed
qed simp

text \<open>
  One step of the walk: from a cursor inside a block, both passes take the rest of the block or
  what is left of the request, whichever is less.
\<close>

definition walk_ok :: "view \<Rightarrow> int \<Rightarrow> int \<Rightarrow> int \<Rightarrow> nat \<Rightarrow> int \<Rightarrow> int \<Rightarrow> int \<Rightarrow> (int \<times> int) list \<Rightarrow> bool" where
  "walk_ok v b0 bufsize i j n off frd acc \<longleftrightarrow>
     (\<forall>m. count_accesses (blocks v) bufsize j frd i m = Some (m + length acc)) \<and>
     (\<forall>pre e alloc. length pre + length acc \<le> alloc \<longrightarrow>
        fill_accesses v alloc bufsize j n off frd i pre e =
          Some (pre @ acc, view_pos v (b0 + bufsize - 1), view_pos v (b0 + bufsize))) \<and>
     concat (map (\<lambda>(p, l). [p..p + l - 1]) acc) = map (view_pos v) [b0 + i..b0 + bufsize - 1] \<and>
     (\<forall>(p, l) \<in> set acc. 0 < l)"

lemma walk_last:
  assumes w: "walkable v" "j < length (blocks v)" "0 \<le> r" "0 < f" "r + f \<le> snd (blocks v ! j)"
    and b: "byte_at v n j r = b0 + i" "i + f = bufsize"
    and off: "off = vdisp v + n * filetype_extent v + fst (blocks v ! j) + r"
  shows "walk_ok v b0 bufsize i j n off f [(off, f)]"
proof -
  have run: "map (view_pos v) [b0 + i..b0 + bufsize - 1] = [off..off + f - 1]"
    using run_positions [OF w(1-3,5), of n] b off by (simp add: add.assoc)
  have "view_pos v (byte_at v n j (r + f - 1)) = off + f - 1"
    using view_pos_cursor [OF w(1,2), of "r + f - 1" n] w off by simp
  then have e: "view_pos v (b0 + bufsize - 1) = off + f - 1" using b by (simp add: byte_at_def algebra_simps)
  obtain j1 n1 where nb: "next_block (blocks v) j n = (j1, n1)" by force
  then have j1: "j1 = Suc j mod length (blocks v)" "n1 = (if j1 = 0 then n + 1 else n)" by (auto simp: next_block_def Let_def)
  have ne: "blocks v \<noteq> []" using w(2) by auto
  have i: "i < bufsize" using b w(4) by simp
  have cnt: "count_accesses (blocks v) bufsize j f i m = Some (Suc m)" for m
    using i ne w(4) b(2) by (simp add: count_accesses.simps [of _ _ j] count_accesses.simps [of _ _ _ _ bufsize] Let_def)
  have "fill_accesses v alloc bufsize j n off f i pre e' =
      Some (pre @ [(off, f)], view_pos v (b0 + bufsize - 1), view_pos v (b0 + bufsize))" if "Suc (length pre) \<le> alloc" for pre e' alloc
  proof (cases "r + f < snd (blocks v ! j)")
    case True
    have "view_pos v (byte_at v n j (r + f)) = off + f"
      using view_pos_cursor [OF w(1,2) _ True, of n] w off by simp
    then have "view_pos v (b0 + bufsize) = off + f" using b by (simp add: byte_at_def algebra_simps)
    then show ?thesis
      using True that i w b(2) e off
      by (simp add: fill_accesses.simps [of _ _ _ j] fill_accesses.simps [of _ _ _ _ _ _ _ bufsize] Let_def)
  next
    case False
    note nx = byte_at_next [OF w(1,2) nb]
    obtain j' n' where l: "lands v bufsize j1 n1 j' n'" using lands_somewhere [OF w(1) nx(1)] by blast
    have "byte_at v n' j' 0 = b0 + bufsize"
      using l nx(2) False w(5) b by (simp add: lands_def byte_at_def)
    then have "view_pos v (b0 + bufsize) = vdisp v + n' * filetype_extent v + fst (blocks v ! j')"
      using view_pos_cursor [OF w(1), of j' 0 n'] l by (simp add: lands_def)
    then show ?thesis
      using False that i w b(2) e off l
      by (simp add: fill_accesses.simps [of _ _ _ j] fill_accesses.simps [of _ _ _ _ _ _ _ bufsize] Let_def lands_def
          flip: j1)
  qed
  then show ?thesis using cnt run w(4) by (simp add: walk_ok_def)
qed

lemma walk_step:
  assumes w: "walkable v" "j < length (blocks v)" "0 \<le> r" "0 < f" "r + f = snd (blocks v ! j)"
    and b: "byte_at v n j r = b0 + i" "i + f < bufsize"
    and off: "off = vdisp v + n * filetype_extent v + fst (blocks v ! j) + r"
    and l: "next_block (blocks v) j n = (j1, n1)" "lands v bufsize j1 n1 j' n'"
    and rest: "walk_ok v b0 bufsize (i + f) j' n' (vdisp v + n' * filetype_extent v + fst (blocks v ! j'))
        (min (snd (blocks v ! j')) (bufsize - (i + f))) acc"
  shows "walk_ok v b0 bufsize i j n off f ((off, f) # acc)"
proof -
  have j1: "j1 = Suc j mod length (blocks v)" "n1 = (if j1 = 0 then n + 1 else n)" "blocks v \<noteq> []"
    using l(1) w(2) by (auto simp: next_block_def Let_def)
  have i: "i < bufsize" using b w(4) by simp
  have run: "map (view_pos v) [b0 + i..b0 + (i + f) - 1] = [off..off + f - 1]"
    using run_positions [OF w(1-3), of f n] w(5) b(1) off by (simp add: add.assoc)
  have "[b0 + i..b0 + bufsize - 1] = [b0 + i..b0 + (i + f) - 1] @ [b0 + (i + f)..b0 + bufsize - 1]"
    using upto_split1 [of "b0 + i" "b0 + (i + f)" "b0 + bufsize - 1"] b(2) w(4) by simp
  then have bytes: "concat (map (\<lambda>(p, l). [p..p + l - 1]) ((off, f) # acc)) = map (view_pos v) [b0 + i..b0 + bufsize - 1]"
    using rest run by (simp add: walk_ok_def)
  have "count_accesses (blocks v) bufsize j f i m = Some (m + length ((off, f) # acc))" for m
    using i j1 w(4) l(2) rest b(2)
    by (simp add: count_accesses.simps [of _ _ j] Let_def lands_def walk_ok_def flip: j1(1))
  moreover have "fill_accesses v alloc bufsize j n off f i pre e' =
      Some (pre @ (off, f) # acc, view_pos v (b0 + bufsize - 1), view_pos v (b0 + bufsize))"
    if "length pre + length ((off, f) # acc) \<le> alloc" for pre e' alloc
    using that i j1 w l(2) rest b(2) off
    by (simp add: fill_accesses.simps [of _ _ _ j] Let_def lands_def walk_ok_def flip: j1(1,2)) (simp add: algebra_simps)
  ultimately show ?thesis
    using bytes rest w(4) by (simp add: walk_ok_def)
qed

lemma walk:
  assumes "walkable v"
  shows "j < length (blocks v) \<Longrightarrow> 0 \<le> r \<Longrightarrow> r < snd (blocks v ! j) \<Longrightarrow> byte_at v n j r = b0 + i \<Longrightarrow> i < bufsize \<Longrightarrow>
    \<exists>acc. walk_ok v b0 bufsize i j n (vdisp v + n * filetype_extent v + fst (blocks v ! j) + r)
      (min (snd (blocks v ! j) - r) (bufsize - i)) acc"
proof (induction "nat (bufsize - i)" arbitrary: i j n r rule: less_induct)
  case less
  define f where "f = min (snd (blocks v ! j) - r) (bufsize - i)"
  have f: "0 < f" "r + f \<le> snd (blocks v ! j)" "i + f \<le> bufsize" using less.prems by (simp_all add: f_def)
  show ?case
  proof (cases "i + f = bufsize")
    case True
    show ?thesis using walk_last [OF assms less.prems(1,2) f(1,2) less.prems(4) True refl] unfolding f_def by blast
  next
    case False
    then have r: "r + f = snd (blocks v ! j)" by (simp add: f_def min_def split: if_splits)
    obtain j1 n1 where nb: "next_block (blocks v) j n = (j1, n1)" by force
    note nx = byte_at_next [OF assms less.prems(1) nb]
    obtain j' n' where l: "lands v bufsize j1 n1 j' n'" using lands_somewhere [OF assms nx(1)] by blast
    have "byte_at v n' j' 0 = b0 + (i + f)"
      using l nx(2) r less.prems(4) by (simp add: lands_def byte_at_def)
    then obtain acc where "walk_ok v b0 bufsize (i + f) j' n' (vdisp v + n' * filetype_extent v + fst (blocks v ! j'))
        (min (snd (blocks v ! j')) (bufsize - (i + f))) acc"
      using less.hyps [of "i + f" j' 0 n'] f False l by (auto simp: lands_def)
    then show ?thesis
      using walk_step [OF assms less.prems(1,2) f(1) r less.prems(4) _ refl nb l] f False unfolding f_def by fastforce
  qed
qed

section \<open>Where the walk starts\<close>

lemma explicit_scan_ok:
  "acc \<le> sz \<Longrightarrow> sz - acc < blocks_size bs \<Longrightarrow> \<forall>b \<in> set bs. 0 \<le> snd b \<Longrightarrow>
   \<exists>k r. explicit_scan bs i acc sz = (i + k, snd (bs ! k) - r, fst (bs ! k) + r) \<and> k < length bs \<and>
     0 \<le> r \<and> r < snd (bs ! k) \<and> prefix_size bs k + r = sz - acc"
proof (induction bs i acc sz rule: explicit_scan.induct)
  case (2 idx len bs i acc sz)
  show ?case
  proof (cases "acc + len > sz")
    case True
    then show ?thesis using 2 by (intro exI [of _ 0] exI [of _ "sz - acc"]) (simp add: Let_def)
  next
    case False
    then obtain k r where "explicit_scan bs (Suc i) (acc + len) sz = (Suc i + k, snd (bs ! k) - r, fst (bs ! k) + r)"
      "k < length bs" "0 \<le> r" "r < snd (bs ! k)" "prefix_size bs k + r = sz - (acc + len)"
      using "2.IH" [OF refl] "2.prems" by auto
    then show ?thesis
      using False by (intro exI [of _ "Suc k"] exI [of _ r]) (simp add: Let_def prefix_size_def)
  qed
qed simp

text \<open>Blocks in order, some of which may be empty.\<close>

fun ordered0 :: "int \<Rightarrow> (int \<times> int) list \<Rightarrow> int \<Rightarrow> bool" where
  "ordered0 lo [] hi \<longleftrightarrow> lo \<le> hi"
| "ordered0 lo ((idx, len) # bs) hi \<longleftrightarrow> lo \<le> idx \<and> 0 \<le> len \<and> ordered0 (idx + len) bs hi"

lemma ordered0_size: "ordered0 lo bs hi \<Longrightarrow> 0 \<le> blocks_size bs \<and> lo + blocks_size bs \<le> hi"
  by (induction lo bs hi rule: ordered0.induct) (auto simp: blocks_size_def)

lemma ordered0_bounds:
  "ordered0 lo bs hi \<Longrightarrow> 0 \<le> r \<Longrightarrow> r < blocks_size bs \<Longrightarrow> lo + r \<le> block_pos bs r \<and> block_pos bs r < hi"
proof (induction lo bs hi arbitrary: r rule: ordered0.induct)
  case (2 lo idx len bs hi)
  then show ?case
    using ordered0_size [of "idx + len" bs hi] "2.IH" [of "r - len"] by (cases "r < len") auto
qed simp

lemma individual_scan_ok:
  "ordered0 lo bs hi \<Longrightarrow> 0 \<le> x \<Longrightarrow> x < blocks_size bs \<Longrightarrow>
   \<exists>k r. individual_scan bs i (block_pos bs x) = Some (i + k, snd (bs ! k) - r, block_pos bs x) \<and>
     k < length bs \<and> block_pos bs x = fst (bs ! k) + r \<and> 0 \<le> r \<and> prefix_size bs k + r = x \<and>
     (r < snd (bs ! k) \<or> r = 0 \<and> snd (bs ! k) = 0)"
proof (induction lo bs hi arbitrary: x i rule: ordered0.induct)
  case (2 lo idx len bs hi)
  show ?case
  proof (cases "x < len")
    case True
    then show ?thesis using 2 by (intro exI [of _ 0] exI [of _ x]) (simp add: Let_def)
  next
    case False
    have x: "0 \<le> x - len" "x - len < blocks_size bs" using False 2 by simp_all
    have ord: "ordered0 (idx + len) bs hi" using "2.prems" by simp
    have o: "block_pos ((idx, len) # bs) x = block_pos bs (x - len)" using False by simp
    have lo: "idx + len + (x - len) \<le> block_pos bs (x - len)"
      using ordered0_bounds [of "idx + len" bs hi "x - len"] x 2 by simp
    obtain k r where IH: "individual_scan bs (Suc i) (block_pos bs (x - len)) = Some (Suc i + k, snd (bs ! k) - r, block_pos bs (x - len))"
      "k < length bs" "block_pos bs (x - len) = fst (bs ! k) + r" "0 \<le> r" "prefix_size bs k + r = x - len"
      "r < snd (bs ! k) \<or> r = 0 \<and> snd (bs ! k) = 0"
      using "2.IH" [OF _ x, of "Suc i"] ord by blast
    show ?thesis
    proof (cases "len \<noteq> 0 \<and> idx + len = block_pos bs (x - len)")
      case True
      obtain idx' len' bs' where bs: "bs = (idx', len') # bs'" using x by (cases bs) auto
      have "idx + len \<le> idx'" "0 \<le> len'" "ordered0 idx' bs hi" using "2.prems" bs by auto
      moreover have "idx' + (x - len) \<le> block_pos bs (x - len)"
        using ordered0_bounds [of idx' bs hi "x - len"] x calculation by simp
      ultimately have "x = len" "idx' = block_pos bs (x - len)" using x True by simp_all
      then show ?thesis
        using True o bs \<open>0 \<le> len'\<close> by (intro exI [of _ 1] exI [of _ 0]) (auto simp: prefix_size_def)
    next
      case c: False
      then have "individual_scan ((idx, len) # bs) i (block_pos bs (x - len)) = individual_scan bs (Suc i) (block_pos bs (x - len))"
        using lo x by (auto simp: Let_def)
      then show ?thesis
        using IH o by (intro exI [of _ "Suc k"] exI [of _ r]) (simp add: prefix_size_def)
    qed
  qed
qed simp

text \<open>Starting at an empty block, both passes go on to the next that is not.\<close>

lemma walk_from_empty:
  assumes "walkable v" "j < length (blocks v)" "snd (blocks v ! j) = 0" "byte_at v n j 0 = b0" "0 < bufsize"
  shows "\<exists>acc. walk_ok v b0 bufsize 0 j n (vdisp v + n * filetype_extent v + fst (blocks v ! j)) 0 acc"
proof -
  obtain j1 n1 where nb: "next_block (blocks v) j n = (j1, n1)" by force
  note nx = byte_at_next [OF assms(1,2) nb]
  obtain j' n' where l: "lands v bufsize j1 n1 j' n'" using lands_somewhere [OF assms(1) nx(1)] by blast
  have j1: "j1 = Suc j mod length (blocks v)" "n1 = (if j1 = 0 then n + 1 else n)" "blocks v \<noteq> []"
    using nb assms(2) by (auto simp: next_block_def Let_def)
  have l': "j' < length (blocks v)" "0 < snd (blocks v ! j')" "byte_at v n' j' 0 = b0 + 0"
    using l nx(2) assms(3,4) by (simp_all add: lands_def)
  obtain acc where acc: "walk_ok v b0 bufsize 0 j' n' (vdisp v + n' * filetype_extent v + fst (blocks v ! j'))
      (min (snd (blocks v ! j')) bufsize) acc"
    using walk [OF assms(1) l'(1) order_refl l'(2,3) assms(5)] by auto
  have cnt: "count_accesses (blocks v) bufsize j 0 0 m = Some (m + length acc)" for m
  proof -
    have "count_accesses (blocks v) bufsize j 0 0 m =
        count_accesses (blocks v) bufsize j1 (min (snd (blocks v ! j1)) (bufsize - 0)) 0 m"
      by (subst count_accesses.simps) (use j1 assms(5) in \<open>simp add: Let_def\<close>)
    also have "\<dots> = count_accesses (blocks v) bufsize j' (min (snd (blocks v ! j')) (bufsize - 0)) 0 m"
      using l assms(5) unfolding lands_def by blast
    also have "\<dots> = Some (m + length acc)" using acc by (simp add: walk_ok_def)
    finally show ?thesis .
  qed
  have "fill_accesses v alloc bufsize j n (vdisp v + n * filetype_extent v + fst (blocks v ! j)) 0 0 pre e =
      Some (pre @ acc, view_pos v (b0 + bufsize - 1), view_pos v (b0 + bufsize))"
    if "length pre + length acc \<le> alloc" for pre e alloc
  proof -
    have "skip_empty (blocks v) j1 n1 = Some (j', n')" using l by (simp add: lands_def)
    then have "fill_accesses v alloc bufsize j n (vdisp v + n * filetype_extent v + fst (blocks v ! j)) 0 0 pre e =
        fill_accesses v alloc bufsize j' n' (vdisp v + n' * filetype_extent v + fst (blocks v ! j'))
          (min (snd (blocks v ! j')) bufsize) 0 pre (vdisp v + n * filetype_extent v + fst (blocks v ! j) - 1)"
      by (subst fill_accesses.simps) (use that j1 assms in \<open>simp add: Let_def add.commute add.left_commute\<close>)
    also have "\<dots> = Some (pre @ acc, view_pos v (b0 + bufsize - 1), view_pos v (b0 + bufsize))"
      using acc that by (simp add: walk_ok_def)
    finally show ?thesis .
  qed
  then have "walk_ok v b0 bufsize 0 j n (vdisp v + n * filetype_extent v + fst (blocks v ! j)) 0 acc"
    using cnt acc by (simp add: walk_ok_def)
  then show ?thesis by blast
qed

text \<open>
  Views with markers: as for positions, except that blocks may be empty. Only the search from the
  individual file pointer needs them in order.
\<close>

definition access_ok :: "bool \<Rightarrow> view \<Rightarrow> bool" where
  "access_ok individual v \<longleftrightarrow> 0 < etype_size v \<and> 0 < filetype_size v \<and> (filetype_is_contig v \<or>
     walkable v \<and>
     (individual \<longrightarrow> ordered0 (fst (hd (blocks v))) (blocks v) (fst (hd (blocks v)) + filetype_extent v)) \<and>
     etype_size v dvd filetype_size v)"

text \<open>The starting point of a request at byte \<open>b0\<close> of the view.\<close>

definition starts_at :: "view \<Rightarrow> bool \<Rightarrow> int \<Rightarrow> int \<Rightarrow> int \<Rightarrow> bool" where
  "starts_at v individual fp offset b0 \<longleftrightarrow>
     (if individual then fp = view_pos v b0 else 0 \<le> offset \<and> b0 = offset * etype_size v)"

lemma first_block_ok:
  assumes "access_ok individual v" "\<not> filetype_is_contig v" "0 \<le> b0" "starts_at v individual fp offset b0"
  shows "\<exists>j n r. first_block v individual fp offset = Some (j, n, snd (blocks v ! j) - r, view_pos v b0) \<and>
    j < length (blocks v) \<and> 0 \<le> r \<and> byte_at v n j r = b0 \<and>
    view_pos v b0 = vdisp v + n * filetype_extent v + fst (blocks v ! j) + r \<and>
    (r < snd (blocks v ! j) \<or> r = 0 \<and> snd (blocks v ! j) = 0) \<and> 0 \<le> n"
proof -
  let ?fs = "filetype_size v" and ?bs = "blocks v" and ?ext = "filetype_extent v"
  have w: "walkable v" "\<forall>b \<in> set ?bs. 0 \<le> snd b" "?fs = blocks_size ?bs" "0 < ?fs" "0 < etype_size v"
    and ord: "individual \<Longrightarrow> ordered0 (fst (hd ?bs)) ?bs (fst (hd ?bs) + ?ext)" and dvd: "etype_size v dvd ?fs"
    using assms(1,2) by (auto simp: access_ok_def walkable_def)
  have ne: "?bs \<noteq> []" using w(3,4) by (auto simp: blocks_size_def)
  define n where "n = b0 div ?fs"
  define x where "x = b0 mod ?fs"
  have x: "0 \<le> x" "x < blocks_size ?bs" using w(3,4) by (simp_all add: x_def)
  have n: "0 \<le> n" using assms(3) w(4) by (simp add: n_def pos_imp_zdiv_nonneg_iff)
  have b0: "b0 = n * ?fs + x" by (simp add: n_def x_def)
  have pos: "view_pos v b0 = vdisp v + n * ?ext + block_pos ?bs x"
    using assms(2) by (simp add: view_pos_def n_def x_def)
  show ?thesis
  proof (cases individual)
    case True
    note bd = ordered0_bounds [OF ord [OF True] x]
    have ext: "0 < ?ext" using bd x by linarith
    define y where "y = block_pos ?bs x - fst (hd ?bs)"
    have "0 \<le> y" "y < ?ext" using bd x by (simp_all add: y_def)
    then have "(y + n * ?ext) sdiv ?ext = n"
      using ext n by (simp add: sdiv_nonneg)
    moreover have "fp - vdisp v - fst (hd ?bs) = y + n * ?ext"
      using assms(4) True pos by (simp add: starts_at_def y_def)
    ultimately have "(fp - vdisp v - fst (hd ?bs)) sdiv ?ext = n"
      by simp
    moreover have "fp - vdisp v - n * ?ext = block_pos ?bs x"
      using assms(4) True pos by (simp add: starts_at_def)
    moreover obtain k r where k: "individual_scan ?bs 0 (block_pos ?bs x) = Some (k, snd (?bs ! k) - r, block_pos ?bs x)"
      "k < length ?bs" "block_pos ?bs x = fst (?bs ! k) + r" "0 \<le> r" "prefix_size ?bs k + r = x"
      "r < snd (?bs ! k) \<or> r = 0 \<and> snd (?bs ! k) = 0"
      using individual_scan_ok [OF ord [OF True] x, of 0] unfolding add_0 by blast
    ultimately have "first_block v individual fp offset = Some (k, n, snd (?bs ! k) - r, view_pos v b0)"
      using True ne ext pos by (simp add: first_block_def Let_def add.commute)
    then show ?thesis using k pos b0 n by (intro exI [of _ k] exI [of _ n] exI [of _ r]) (auto simp: byte_at_def)
  next
    case False
    let ?es = "etype_size v"
    obtain m where m: "?fs = ?es * m" using dvd by blast
    then have mpos: "0 < m" using w(4,5) by (simp add: zero_less_mult_iff)
    have off: "0 \<le> offset" "b0 = offset * ?es" using assms(4) False by (simp_all add: starts_at_def)
    have "?fs sdiv ?es = m" using m w(5) mpos by (simp add: sdiv_nonneg)
    moreover have "offset sdiv m = offset div m" "offset smod m = offset mod m"
      using off(1) mpos by (simp_all add: sdiv_nonneg smod_nonneg)
    moreover have "n = offset div m" "x = (offset mod m) * ?es"
      unfolding n_def x_def off(2) m using w(5) div_mult_mult1 [of ?es offset m] mod_mult_mult1 [of ?es offset m]
      by (simp_all add: mult.commute)
    moreover obtain k r where k: "explicit_scan ?bs 0 0 x = (k, snd (?bs ! k) - r, fst (?bs ! k) + r)"
      "k < length ?bs" "0 \<le> r" "r < snd (?bs ! k)" "prefix_size ?bs k + r = x"
      using explicit_scan_ok [of 0 x ?bs 0] x w(2) by auto
    moreover have "block_pos ?bs x = fst (?bs ! k) + r"
      using block_pos_at [OF k(2) w(2) k(3,4)] k(5) by simp
    ultimately have "first_block v individual fp offset = Some (k, n, snd (?bs ! k) - r, view_pos v b0)"
      using False mpos w(5) pos by (simp add: first_block_def Let_def)
    then show ?thesis
      using k pos b0 n \<open>block_pos ?bs x = _\<close> by (intro exI [of _ k] exI [of _ n] exI [of _ r]) (auto simp: byte_at_def)
  qed
qed

lemma access_list_ok:
  assumes "access_ok individual v" "0 \<le> b0" "0 \<le> bufsize" "starts_at v individual fp offset b0"
  shows "\<exists>count acc last fp'. ADIOI_Calc_my_off_len v individual fp offset bufsize =
      Some (count, acc, view_pos v b0, last, fp') \<and> length acc = count \<and>
    concat (map (\<lambda>(p, l). [p..p + l - 1]) acc) = map (view_pos v) [b0..b0 + bufsize - 1] \<and>
    (0 < bufsize \<longrightarrow> last = view_pos v (b0 + bufsize - 1) \<and> (\<forall>(p, l) \<in> set acc. 0 < l)) \<and>
    fp' = (if individual then view_pos v (b0 + bufsize) else fp)"
proof (cases "filetype_is_contig v")
  case True
  have start: "(if individual then fp else vdisp v + etype_size v * offset) = vdisp v + b0"
    using assms(4) True by (auto simp: starts_at_def view_pos_def)
  have "map (view_pos v) [b0..b0 + bufsize - 1] = [vdisp v + b0..vdisp v + b0 + bufsize - 1]"
    using True by (intro nth_equalityI) (auto simp: view_pos_def)
  then show ?thesis
    using True assms(1) start by (auto simp: ADIOI_Calc_my_off_len_def Let_def access_ok_def view_pos_def)
next
  case False
  have w: "walkable v" "filetype_size v \<noteq> 0" using assms(1) False by (auto simp: access_ok_def)
  obtain j n r where s: "first_block v individual fp offset = Some (j, n, snd (blocks v ! j) - r, view_pos v b0)"
    "j < length (blocks v)" "0 \<le> r" "byte_at v n j r = b0"
    "view_pos v b0 = vdisp v + n * filetype_extent v + fst (blocks v ! j) + r"
    "r < snd (blocks v ! j) \<or> r = 0 \<and> snd (blocks v ! j) = 0"
    using first_block_ok [OF assms(1) False assms(2,4)] by blast
  show ?thesis
  proof (cases "bufsize = 0")
    case True
    then show ?thesis
      using False w(2) s(1) by (simp add: ADIOI_Calc_my_off_len_def count_accesses.simps fill_accesses.simps)
  next
    case pos: False
    obtain acc where acc: "walk_ok v b0 bufsize 0 j n (view_pos v b0) (min (snd (blocks v ! j) - r) bufsize) acc"
    proof (cases "r < snd (blocks v ! j)")
      case True
      then show ?thesis
        using that walk [OF w(1) s(2,3) True, of n b0 0 bufsize] s(4,5) pos assms(3) by auto
    next
      case c: False
      then have "r = 0" "snd (blocks v ! j) = 0" using s(6) by auto
      then show ?thesis
        using that walk_from_empty [OF w(1) s(2), of n b0 bufsize] s(4,5) pos assms(3) by auto
    qed
    then have "count_accesses (blocks v) bufsize j (min (snd (blocks v ! j) - r) bufsize) 0 0 = Some (length acc)"
      and "fill_accesses v (length acc + 1) bufsize j n (view_pos v b0) (min (snd (blocks v ! j) - r) bufsize) 0 [] 0 =
        Some (acc, view_pos v (b0 + bufsize - 1), view_pos v (b0 + bufsize))"
      and "concat (map (\<lambda>(p, l). [p..p + l - 1]) acc) = map (view_pos v) [b0..b0 + bufsize - 1]"
      and "\<forall>(p, l) \<in> set acc. 0 < l"
      by (simp_all add: walk_ok_def)
    then show ?thesis
      using False w(2) s(1) by (simp add: ADIOI_Calc_my_off_len_def)
  qed
qed

section \<open>The property\<close>

text \<open>
  C18: \<open>ADIOI_Calc_my_off_len\<close> returns, for a request of any size, at an explicit offset or at the individual
  file pointer, through a view that may contain empty blocks. The accesses it lists are exactly the
  bytes of the view from the start of the request on, in their order; the first pass has counted
  them, so the lists fit; the offsets it reports are those of the first and the last byte; and the
  individual file pointer moves to the byte after the request.
\<close>

theorem access_list_is_request:
  assumes "access_ok individual v" "0 \<le> b0" "0 \<le> bufsize" "starts_at v individual fp offset b0"
  shows "\<exists>count acc last fp'. ADIOI_Calc_my_off_len v individual fp offset bufsize =
      Some (count, acc, view_pos v b0, last, fp') \<and> length acc = count \<and>
    concat (map (\<lambda>(p, l). [p..p + l - 1]) acc) = map (view_pos v) [b0..b0 + bufsize - 1] \<and>
    (0 < bufsize \<longrightarrow> last = view_pos v (b0 + bufsize - 1)) \<and>
    fp' = (if individual then view_pos v (b0 + bufsize) else fp)"
  using access_list_ok [OF assms] by blast

text \<open>
  A filetype of 12 bytes in 32, between two markers; the file pointer is at byte 4 of the view, and the
  request of 16 bytes reaches into the next filetype.
\<close>

definition marked_view :: view where
  "marked_view = \<lparr>vdisp = 100, etype_size = 4, filetype_size = 12, filetype_extent = 32,
     filetype_is_contig = False, blocks = [(0, 0), (4, 4), (12, 8), (32, 0)]\<rparr>"

theorem access_list_is_request_witness:
  "\<exists>count acc last fp'. ADIOI_Calc_my_off_len marked_view True 112 0 16 = Some (count, acc, 112, last, fp') \<and>
    length acc = count \<and>
    concat (map (\<lambda>(p, l). [p..p + l - 1]) acc) = map (view_pos marked_view) [4..19] \<and>
    last = view_pos marked_view 19 \<and> fp' = view_pos marked_view 20"
proof -
  have "access_ok True marked_view"
    by (simp add: access_ok_def walkable_def marked_view_def blocks_size_def)
  moreover have "view_pos marked_view 4 = 112"
    by (simp add: view_pos_def marked_view_def)
  moreover have "starts_at marked_view True 112 0 4"
    by (simp add: starts_at_def view_pos_def marked_view_def)
  ultimately show ?thesis
    using access_list_is_request [of True marked_view 4 16 112 0] by simp
qed

end
