(* ===== verification/Datatypes.thy ===== *)
theory Datatypes
  imports E10_Prelude
begin

text \<open>
  MPI datatypes as ROMIO sees them through \<open>MPI_Type_get_envelope\<close> and \<open>MPI_Type_get_contents\<close>:
  a tree of combiners with their integer, address and datatype arguments. The type map, the
  list of the byte positions of one instance in the order of the MPI standard, is the reference
  the flattened form is compared with. The constructors \<open>ADIO_Type_create_subarray\<close>
  (\<open>ad_subarray.c\<close>) and \<open>ADIO_Type_create_darray\<close> (\<open>ad_darray.c\<close>) build such trees.
\<close>

text \<open>
  \<open>NAMED\<close> carries the handle of a basic type; \<open>MPI_LB\<close> and \<open>MPI_UB\<close> are the named marker types.
  An \<open>INDEXED\<close> type has pairs of a block length and a displacement, a \<open>STRUCT\<close> triples of a block
  length, a displacement and a type, a \<open>SUBARRAY\<close> the size, subsize and start of each dimension
  and whether the order is Fortran's, a \<open>DARRAY\<close> the global size, the distribution, its argument
  and the number of processes of each dimension. \<open>COMBINER_UNKNOWN\<close> stands for every other combiner.
  The variants \<open>HVECTOR_INTEGER\<close>, \<open>HINDEXED_INTEGER\<close>, \<open>STRUCT_INTEGER\<close> share the code of the plain ones.
\<close>

datatype distrib = DISTRIBUTE_BLOCK | DISTRIBUTE_CYCLIC | DISTRIBUTE_NONE | DISTRIBUTE_UNKNOWN

datatype mpi_type =
    NAMED int
  | MPI_LB
  | MPI_UB
  | DUP mpi_type
  | CONTIGUOUS int mpi_type
  | VECTOR int int int mpi_type
  | HVECTOR int int int mpi_type
  | INDEXED "(int \<times> int) list" mpi_type
  | HINDEXED "(int \<times> int) list" mpi_type
  | INDEXED_BLOCK int "int list" mpi_type
  | HINDEXED_BLOCK int "int list" mpi_type
  | STRUCT "(int \<times> int \<times> mpi_type) list"
  | RESIZED int int mpi_type
  | SUBARRAY "(int \<times> int \<times> int) list" bool mpi_type
  | DARRAY int int "(int \<times> distrib \<times> int option \<times> int) list" bool mpi_type
  | COMBINER_UNKNOWN

text \<open>
  What ROMIO asks the MPI library about a datatype: \<open>MPI_Type_size_x\<close>, \<open>MPI_Type_extent\<close> and the
  contiguity test (\<open>MPIR_Datatype_iscontig\<close> where the MPI library has one).
\<close>

record type_env =
  tsize :: "mpi_type \<Rightarrow> int"
  textent :: "mpi_type \<Rightarrow> int"
  tcontig :: "mpi_type \<Rightarrow> bool"

fun is_named :: "mpi_type \<Rightarrow> bool" where
  "is_named (NAMED h) = True"
| "is_named MPI_LB = True"
| "is_named MPI_UB = True"
| "is_named _ = False"

text \<open>
  The condition under which the code takes a type as one block: named, or contiguous.
\<close>

definition simple_type :: "type_env \<Rightarrow> mpi_type \<Rightarrow> bool" where
  "simple_type E t \<longleftrightarrow> is_named t \<or> tcontig E t"

subsection \<open>Contiguity (\<open>iscontig.c\<close>)\<close>

text \<open>With MPICH: \<open>says\<close> and \<open>true_lb\<close> are the answers of the MPI library.\<close>

definition ADIOI_Datatype_iscontig_mpich :: "bool \<Rightarrow> int \<Rightarrow> bool" where
  "ADIOI_Datatype_iscontig_mpich says true_lb = (if says then (if true_lb > 0 then False else says) else says)"

text \<open>Without a test of the MPI library: by the combiner.\<close>

fun ADIOI_Datatype_iscontig :: "mpi_type \<Rightarrow> bool" where
  "ADIOI_Datatype_iscontig (NAMED h) = True"
| "ADIOI_Datatype_iscontig MPI_LB = True"
| "ADIOI_Datatype_iscontig MPI_UB = True"
| "ADIOI_Datatype_iscontig (CONTIGUOUS n t) = ADIOI_Datatype_iscontig t"
| "ADIOI_Datatype_iscontig _ = False"

subsection \<open>\<open>ADIO_Type_create_subarray\<close>\<close>

text \<open>
  The loop over the slower dimensions: \<open>size\<close> is the distance of two neighbours in the previous
  dimension, \<open>prev\<close> the size of that dimension.
\<close>

fun hvector_loop :: "int \<Rightarrow> int \<Rightarrow> (int \<times> int \<times> int) list \<Rightarrow> mpi_type \<Rightarrow> mpi_type" where
  "hvector_loop sz prev [] t = t"
| "hvector_loop sz prev ((n, sub, st) # ds) t = hvector_loop (sz * prev) n ds (HVECTOR sub 1 (sz * prev) t)"

fun start_loop :: "int \<Rightarrow> int \<Rightarrow> (int \<times> int \<times> int) list \<Rightarrow> int" where
  "start_loop sz prev [] = 0"
| "start_loop sz prev ((n, sub, st) # ds) = sz * prev * st + start_loop (sz * prev) n ds"

text \<open>
  The two orders of the source differ in the direction in which the dimensions are visited: \<open>ds\<close>
  lists them with the fastest one first. No dimension at all is outside the interface (the source
  then reads outside its arguments): \<open>None\<close>.
\<close>

definition ADIO_Type_create_subarray ::
  "type_env \<Rightarrow> (int \<times> int \<times> int) list \<Rightarrow> bool \<Rightarrow> mpi_type \<Rightarrow> mpi_type option" where
  "ADIO_Type_create_subarray E dims fortran oldtype =
     (let extent = textent E oldtype; ds = (if fortran then dims else rev dims)
      in case ds of
        [] \<Rightarrow> None
      | (n0, sub0, st0) # rest \<Rightarrow>
          (let tmp1 = (case rest of
                 [] \<Rightarrow> CONTIGUOUS sub0 oldtype
               | (n1, sub1, st1) # slower \<Rightarrow> hvector_loop (n0 * extent) n1 slower (VECTOR sub1 sub0 n0 oldtype));
               disp = (st0 + start_loop 1 n0 rest) * extent;
               ub = fold (\<lambda>(n, _, _) u. u * n) dims extent
           in Some (STRUCT [(1, 0, MPI_LB), (1, disp, tmp1), (1, ub, MPI_UB)])))"

subsection \<open>\<open>ADIO_Type_create_darray\<close>\<close>

text \<open>
  The position of a process in the grid, row-major; a grid dimension that divides to 0 processes
  makes the source divide by zero.
\<close>

fun grid_coords :: "int \<Rightarrow> int \<Rightarrow> int list \<Rightarrow> int list option" where
  "grid_coords procs rank [] = Some []"
| "grid_coords procs rank (p # ps) =
     (if p = 0 then None
      else (let procs' = procs sdiv p in
        if procs' = 0 then None
        else map_option ((#) (rank sdiv procs')) (grid_coords procs' (rank smod procs') ps)))"

text \<open>
  One dimension, distributed in blocks. \<open>below\<close> has the global sizes of the dimensions that
  change faster; with none of them the source builds a contiguous type. \<open>darg\<close> is \<open>None\<close> for
  \<open>MPI_DISTRIBUTE_DFLT_DARG\<close>. The result is the new type and the start, in elements of this
  dimension; \<open>None\<close> is \<open>MPI_ERR_ARG\<close> (or a division by zero).
\<close>

definition MPIOI_Type_block ::
  "int list \<Rightarrow> int \<Rightarrow> int \<Rightarrow> int \<Rightarrow> int option \<Rightarrow> int \<Rightarrow> mpi_type \<Rightarrow> (mpi_type \<times> int) option" where
  "MPIOI_Type_block below global_size nprocs rank darg orig_extent type_old =
     do {
       blksize \<leftarrow> (case darg of
           None \<Rightarrow> if nprocs = 0 then None else Some ((global_size + nprocs - 1) sdiv nprocs)
         | Some d \<Rightarrow> if d \<le> 0 \<or> d * nprocs < global_size then None else Some d);
       let mysize = max 0 (min blksize (global_size - blksize * rank));
       Some (if below = [] then CONTIGUOUS mysize type_old
             else HVECTOR mysize 1 (fold (\<lambda>g s. s * g) below orig_extent) type_old,
             if mysize = 0 then 0 else blksize * rank)
     }"

text \<open>One dimension, distributed in rounds of blocks.\<close>

definition cyclic_local_size :: "int \<Rightarrow> int \<Rightarrow> int \<Rightarrow> int \<Rightarrow> int" where
  "cyclic_local_size global_size nprocs rank blksize =
     (let st_index = rank * blksize; end_index = global_size - 1
      in if end_index < st_index then 0
         else ((end_index - st_index + 1) sdiv (nprocs * blksize)) * blksize
              + min ((end_index - st_index + 1) smod (nprocs * blksize)) blksize)"

definition MPIOI_Type_cyclic ::
  "int list \<Rightarrow> int \<Rightarrow> int \<Rightarrow> int \<Rightarrow> int option \<Rightarrow> int \<Rightarrow> mpi_type \<Rightarrow> (mpi_type \<times> int) option" where
  "MPIOI_Type_cyclic below global_size nprocs rank darg orig_extent type_old =
     (let blksize = (case darg of None \<Rightarrow> 1 | Some d \<Rightarrow> d) in
      if blksize \<le> 0 \<or> nprocs = 0 then None
      else
        (let local_size = cyclic_local_size global_size nprocs rank blksize;
             count = local_size sdiv blksize;
             rem = local_size smod blksize;
             stride = fold (\<lambda>g s. s * g) below (nprocs * blksize * orig_extent);
             type1 = HVECTOR count blksize stride type_old;
             type2 = (if rem \<noteq> 0 then STRUCT [(1, 0, type1), (rem, count * stride, type_old)] else type1)
         in Some (if below = []
               then (STRUCT [(1, 0, MPI_LB), (1, rank * blksize * orig_extent, type2),
                             (1, orig_extent * global_size, MPI_UB)], 0)
               else (type2, if local_size = 0 then 0 else rank * blksize))))"

text \<open>
  The loop over the dimensions, fastest first, each with the coordinate of the process. In C
  order the dimension that is not distributed is treated with the grid of the caller, in
  Fortran order as one process. An unknown distribution leaves the new type unset: \<open>None\<close>.
\<close>

fun darray_loop ::
  "bool \<Rightarrow> int \<Rightarrow> int list \<Rightarrow> ((int \<times> distrib \<times> int option \<times> int) \<times> int) list \<Rightarrow> mpi_type \<Rightarrow>
   (mpi_type \<times> int list) option" where
  "darray_loop fortran ext below [] t = Some (t, [])"
| "darray_loop fortran ext below (((g, d, darg, p), c) # ds) t = do {
     (t', st) \<leftarrow> (case d of
         DISTRIBUTE_BLOCK \<Rightarrow> MPIOI_Type_block below g p c darg ext t
       | DISTRIBUTE_CYCLIC \<Rightarrow> MPIOI_Type_cyclic below g p c darg ext t
       | DISTRIBUTE_NONE \<Rightarrow> if fortran then MPIOI_Type_block below g 1 0 None ext t
                           else MPIOI_Type_block below g p c None ext t
       | DISTRIBUTE_UNKNOWN \<Rightarrow> None);
     (t'', sts) \<leftarrow> darray_loop fortran ext (below @ [g]) ds t';
     Some (t'', st # sts) }"

fun darray_disp :: "int \<Rightarrow> int list \<Rightarrow> int list \<Rightarrow> int" where
  "darray_disp sz (st # sts) (g # gs) = sz * st + darray_disp (sz * g) sts gs"
| "darray_disp sz _ _ = 0"

definition ADIO_Type_create_darray ::
  "type_env \<Rightarrow> int \<Rightarrow> int \<Rightarrow> (int \<times> distrib \<times> int option \<times> int) list \<Rightarrow> bool \<Rightarrow> mpi_type \<Rightarrow> mpi_type option" where
  "ADIO_Type_create_darray E nprocs rank dims fortran oldtype =
     (if dims = [] then None
      else do {
        coords \<leftarrow> grid_coords nprocs rank (map (\<lambda>(_, _, _, p). p) dims);
        let dcs = zip dims coords;
        let ds = (if fortran then dcs else rev dcs);
        let gs = map (\<lambda>((g, _, _, _), _). g) ds;
        let ext = textent E oldtype;
        (type_new, st_offsets) \<leftarrow> darray_loop fortran ext [] ds oldtype;
        Some (STRUCT [(1, 0, MPI_LB), (1, darray_disp 1 st_offsets gs * ext, type_new),
                      (1, fold (\<lambda>(g, _, _, _) u. u * g) dims ext, MPI_UB)])
      })"

section \<open>The depth of a type\<close>

text \<open>
  The depth of a type bounds the recursion: the types built for subarrays and distributed arrays
  nest a bounded number of constructors per dimension around the old type.
\<close>

fun tdepth :: "mpi_type \<Rightarrow> nat" where
  "tdepth (DUP t) = Suc (tdepth t)"
| "tdepth (CONTIGUOUS n t) = Suc (tdepth t)"
| "tdepth (VECTOR n b s t) = Suc (tdepth t)"
| "tdepth (HVECTOR n b s t) = Suc (tdepth t)"
| "tdepth (INDEXED bds t) = Suc (tdepth t)"
| "tdepth (HINDEXED bds t) = Suc (tdepth t)"
| "tdepth (INDEXED_BLOCK b ds t) = Suc (tdepth t)"
| "tdepth (HINDEXED_BLOCK b ds t) = Suc (tdepth t)"
| "tdepth (STRUCT ms) = Suc (fold max (map (\<lambda>(b, d, t). tdepth t) ms) 0)"
| "tdepth (RESIZED lb e t) = Suc (tdepth t)"
| "tdepth (SUBARRAY dims f t) = tdepth t + length dims + 3"
| "tdepth (DARRAY n r dims f t) = tdepth t + 3 * length dims + 3"
| "tdepth _ = 0"

definition max_depth :: "(int \<times> int \<times> mpi_type) list \<Rightarrow> nat" where
  "max_depth ms = fold max (map (\<lambda>(b, d, t). tdepth t) ms) 0"

lemma fold_max_eq: "fold max xs (m :: nat) = max m (fold max xs 0)"
proof (induction xs arbitrary: m)
  case (Cons x xs)
  show ?case using Cons [of "max x m"] Cons [of x] by simp
qed simp

lemma max_depth_simps [simp]:
  "max_depth [] = 0"
  "max_depth ((b, d, t) # ms) = max (tdepth t) (max_depth ms)"
  by (simp_all add: max_depth_def fold_max_eq [of _ "tdepth t"])

lemma tdepth_STRUCT [simp]: "tdepth (STRUCT ms) = Suc (max_depth ms)"
  by (simp add: max_depth_def)

declare tdepth.simps(9) [simp del]

lemma max_depth_member: "(b, d, t) \<in> set ms \<Longrightarrow> tdepth t \<le> max_depth ms"
  by (induction ms) auto

lemma tdepth_hvector_loop: "tdepth (hvector_loop sz p ds t) = tdepth t + length ds"
  by (induction sz p ds t rule: hvector_loop.induct) auto

lemma tdepth_subarray:
  "ADIO_Type_create_subarray E dims f t = Some s \<Longrightarrow> tdepth s < tdepth (SUBARRAY dims f t)"
  by (auto simp: ADIO_Type_create_subarray_def Let_def tdepth_hvector_loop
      split: list.splits if_splits dest!: arg_cong [of _ _ length])

lemma tdepth_darray_loop:
  "darray_loop f ext below ds t = Some (t', sts) \<Longrightarrow> tdepth t' \<le> tdepth t + 3 * length ds"
proof (induction f ext below ds t arbitrary: t' sts rule: darray_loop.induct)
  case (2 f ext below g d darg p c ds t)
  have block: "MPIOI_Type_block below g p c darg ext t = Some (u, st) \<Longrightarrow> tdepth u \<le> tdepth t + 3" for p c darg u st
    by (auto simp: MPIOI_Type_block_def bind_eq_Some_conv Let_def split: if_splits)
  have cyc: "MPIOI_Type_cyclic below g p c darg ext t = Some (u, st) \<Longrightarrow> tdepth u \<le> tdepth t + 3" for u st
    by (auto simp: MPIOI_Type_cyclic_def Let_def split: if_splits option.splits)
  from "2.prems" obtain u st sts' where
    u: "(case d of
         DISTRIBUTE_BLOCK \<Rightarrow> MPIOI_Type_block below g p c darg ext t
       | DISTRIBUTE_CYCLIC \<Rightarrow> MPIOI_Type_cyclic below g p c darg ext t
       | DISTRIBUTE_NONE \<Rightarrow> if f then MPIOI_Type_block below g 1 0 None ext t
                           else MPIOI_Type_block below g p c None ext t
       | DISTRIBUTE_UNKNOWN \<Rightarrow> None) = Some (u, st)"
    and r: "darray_loop f ext (below @ [g]) ds u = Some (t', sts')"
    by (auto simp: bind_eq_Some_conv)
  have "tdepth u \<le> tdepth t + 3"
    using u by (auto split: distrib.splits if_splits dest: block cyc)
  moreover have "tdepth t' \<le> tdepth u + 3 * length ds"
    using "2.IH" [OF u refl r] .
  ultimately show ?case by simp
qed simp

lemma tdepth_darray:
  assumes "ADIO_Type_create_darray E n r dims f t = Some s"
  shows "tdepth s < tdepth (DARRAY n r dims f t)"
proof -
  from assms obtain cs u sts where
    s: "darray_loop f (textent E t) [] (if f then zip dims cs else rev (zip dims cs)) t = Some (u, sts)"
       "tdepth s = Suc (tdepth u)"
    unfolding ADIO_Type_create_darray_def Let_def bind_eq_Some_conv
    by (cases f; cases "dims = []") (fastforce simp: bind_eq_Some_conv)+
  then show ?thesis
    using tdepth_darray_loop [OF s(1)] by (auto split: if_splits)
qed

section \<open>The type map\<close>

text \<open>
  The type map of the MPI standard, as the list of the positions of the bytes of one instance:
  \<open>move d\<close> displaces it, \<open>spread n d\<close> lines up \<open>n\<close> instances at distance \<open>d\<close>. Subarrays and
  distributed arrays mean what the types built for them mean; what that is in terms of array
  elements is a theorem.
\<close>

definition move :: "int \<Rightarrow> int list \<Rightarrow> int list" where
  "move d xs = map ((+) d) xs"

definition spread :: "int \<Rightarrow> int \<Rightarrow> int list \<Rightarrow> int list" where
  "spread n d xs = concat (map (\<lambda>k. move (k * d) xs) [0..n - 1])"

function (sequential) type_map :: "type_env \<Rightarrow> mpi_type \<Rightarrow> int list" where
  "type_map E (NAMED h) = [0..tsize E (NAMED h) - 1]"
| "type_map E (DUP t) = type_map E t"
| "type_map E (CONTIGUOUS n t) = spread n (textent E t) (type_map E t)"
| "type_map E (VECTOR n b s t) = spread n (s * textent E t) (spread b (textent E t) (type_map E t))"
| "type_map E (HVECTOR n b s t) = spread n s (spread b (textent E t) (type_map E t))"
| "type_map E (INDEXED bds t) =
     concat (map (\<lambda>(b, d). move (d * textent E t) (spread b (textent E t) (type_map E t))) bds)"
| "type_map E (HINDEXED bds t) =
     concat (map (\<lambda>(b, d). move d (spread b (textent E t) (type_map E t))) bds)"
| "type_map E (INDEXED_BLOCK b ds t) =
     concat (map (\<lambda>d. move (d * textent E t) (spread b (textent E t) (type_map E t))) ds)"
| "type_map E (HINDEXED_BLOCK b ds t) =
     concat (map (\<lambda>d. move d (spread b (textent E t) (type_map E t))) ds)"
| "type_map E (STRUCT ms) =
     concat (map (\<lambda>(b, d, t). move d (spread b (textent E t) (type_map E t))) ms)"
| "type_map E (RESIZED lb ext t) = type_map E t"
| "type_map E (SUBARRAY dims f t) =
     (case ADIO_Type_create_subarray E dims f t of None \<Rightarrow> [] | Some s \<Rightarrow> type_map E s)"
| "type_map E (DARRAY n r dims f t) =
     (case ADIO_Type_create_darray E n r dims f t of None \<Rightarrow> [] | Some s \<Rightarrow> type_map E s)"
| "type_map E _ = []"
  by pat_completeness auto
termination
  by (relation "measure (\<lambda>(E, t). tdepth t)")
    (auto simp del: tdepth.simps(11,12) simp: tdepth.simps(1-8,10) less_Suc_eq_le
      intro: max_depth_member tdepth_subarray tdepth_darray)

text \<open>
  What the code relies on: a named type occupies its extent without holes (which excludes the
  pair types of MPI), the markers are empty, and the contiguity test says yes only of types
  whose bytes are \<open>0\<close> up to their size, which is also their extent.
\<close>

definition type_laws :: "type_env \<Rightarrow> bool" where
  "type_laws E \<longleftrightarrow>
     (\<forall>t. is_named t \<longrightarrow> 0 \<le> tsize E t \<and> textent E t = tsize E t) \<and>
     tsize E MPI_LB = 0 \<and> tsize E MPI_UB = 0 \<and>
     (\<forall>t. tcontig E t \<longrightarrow> 0 \<le> tsize E t \<and> textent E t = tsize E t \<and> type_map E t = [0..tsize E t - 1])"

end
