(* ===== verification/Flatten.thy ===== *)
theory Flatten
  imports Datatypes
begin

text \<open>
  Flattening of datatypes (\<open>flatten.c\<close>): a datatype becomes the list of its contiguous blocks,
  which every strided and collective access of ROMIO works on. \<open>ADIOI_Count_contiguous_blocks\<close>
  computes how many blocks there are, the arrays are allocated for as many, \<open>ADIOI_Flatten\<close> fills
  them and \<open>ADIOI_Optimize_flattened\<close> merges neighbours. The model is the branch of
  \<open>ADIOI_Flatten_datatype\<close> for MPI libraries without \<open>MPIR_Type_flatten\<close>.
\<close>

section \<open>The arrays of a flattened type\<close>

text \<open>
  \<open>indices\<close> and \<open>blocklens\<close> are allocated with the same length and written at the same places:
  one array of pairs. An access outside is \<open>None\<close>. The state of the recursion is the array, the
  field \<open>count\<close> and \<open>*curr_index\<close>.
\<close>

type_synonym blocks = "(int \<times> int) list"
type_synonym flat_state = "blocks \<times> int \<times> nat"

definition get_block :: "blocks \<Rightarrow> nat \<Rightarrow> (int \<times> int) option" where
  "get_block a i = (if i < length a then Some (a ! i) else None)"

definition put_block :: "blocks \<Rightarrow> nat \<Rightarrow> int \<times> int \<Rightarrow> blocks option" where
  "put_block a i b = (if i < length a then Some (a[i := b]) else None)"

text \<open>
  The inner loop of a replication: \<open>n\<close> blocks are copied from \<open>num\<close> places before, moved by \<open>d\<close>.
  The outer loop repeats it.
\<close>

fun copy_blocks :: "nat \<Rightarrow> nat \<Rightarrow> int \<Rightarrow> nat \<Rightarrow> blocks \<Rightarrow> (blocks \<times> nat) option" where
  "copy_blocks 0 num d j a = Some (a, j)"
| "copy_blocks (Suc n) num d j a = do {
     (i, l) \<leftarrow> (if num \<le> j then get_block a (j - num) else None);
     a' \<leftarrow> put_block a j (i + d, l);
     copy_blocks n num d (Suc j) a' }"

fun repeat_blocks :: "nat \<Rightarrow> nat \<Rightarrow> int \<Rightarrow> nat \<Rightarrow> blocks \<Rightarrow> (blocks \<times> nat) option" where
  "repeat_blocks 0 num d j a = Some (a, j)"
| "repeat_blocks (Suc k) num d j a = do {
     (a', j') \<leftarrow> copy_blocks num num d j a;
     repeat_blocks k num d j' a' }"

text \<open>
  The loops of the indexed cases leave out blocks of length 0, and then neither \<open>j\<close> nor
  \<open>nonzeroth\<close> advances. The two variables are equal throughout: \<open>nonzeroth\<close> starts at \<open>j\<close>. \<open>dec\<close> tells
  whether the loop also decrements \<open>flat->count\<close>.
\<close>

fun copy_nonzero :: "bool \<Rightarrow> nat \<Rightarrow> nat \<Rightarrow> int \<Rightarrow> nat \<Rightarrow> int \<Rightarrow> blocks \<Rightarrow> (blocks \<times> int \<times> nat) option" where
  "copy_nonzero dec 0 num d j cnt a = Some (a, cnt, j)"
| "copy_nonzero dec (Suc n) num d j cnt a = do {
     (i, l) \<leftarrow> (if num \<le> j then get_block a (j - num) else None);
     if l > 0 then do {
       a' \<leftarrow> put_block a j (i + d, l);
       copy_nonzero dec n num d (Suc j) cnt a' }
     else copy_nonzero dec n num d j (if dec then cnt - 1 else cnt) a }"

fun repeat_nonzero :: "bool \<Rightarrow> nat \<Rightarrow> nat \<Rightarrow> int \<Rightarrow> nat \<Rightarrow> int \<Rightarrow> blocks \<Rightarrow> (blocks \<times> int \<times> nat) option" where
  "repeat_nonzero dec 0 num d j cnt a = Some (a, cnt, j)"
| "repeat_nonzero dec (Suc k) num d j cnt a = do {
     (a', cnt', j') \<leftarrow> copy_nonzero dec num num d j cnt a;
     repeat_nonzero dec k num d j' cnt' a' }"

section \<open>The cases of \<open>ADIOI_Flatten\<close>\<close>

text \<open>
  Each case is split into what it does once the recursive call on the old type has been made (or
  not): \<open>prev\<close> is the index before that call, \<open>st\<close> the offset the case was entered with.
\<close>

definition flatten_contiguous ::
  "type_env \<Rightarrow> int \<Rightarrow> mpi_type \<Rightarrow> int \<Rightarrow> nat \<Rightarrow> flat_state \<Rightarrow> flat_state option" where
  "flatten_contiguous E top_count t st prev = (\<lambda>(a, cnt, j).
     if prev = j then do {
       a' \<leftarrow> put_block a j (st, top_count * tsize E t);
       Some (a', cnt, Suc j) }
     else do {
       (a', j') \<leftarrow> repeat_blocks (nat (top_count - 1)) (j - prev) (textent E t) j a;
       Some (a', cnt, j') })"

text \<open>The loop of the simple vector: block \<open>i\<close> from block \<open>i - 1\<close>, its length from block \<open>j\<close>.\<close>

fun stride_loop :: "nat \<Rightarrow> int \<Rightarrow> int \<Rightarrow> nat \<Rightarrow> blocks \<Rightarrow> (blocks \<times> nat) option" where
  "stride_loop 0 d len i a = Some (a, i)"
| "stride_loop (Suc n) d len i a = do {
     (x, _) \<leftarrow> get_block a (i - 1);
     a' \<leftarrow> put_block a i (x + d, len);
     stride_loop n d len (Suc i) a' }"

text \<open>\<open>simple_stride\<close> and \<open>stride\<close> are the byte distances the two branches use.\<close>

definition flatten_vector ::
  "type_env \<Rightarrow> int \<Rightarrow> int \<Rightarrow> int \<Rightarrow> int \<Rightarrow> mpi_type \<Rightarrow> int \<Rightarrow> nat \<Rightarrow> flat_state \<Rightarrow> flat_state option" where
  "flatten_vector E top_count blocklength simple_stride stride t st prev = (\<lambda>(a, cnt, j).
     if prev = j then do {
       a1 \<leftarrow> put_block a j (st, blocklength * tsize E t);
       (a2, i) \<leftarrow> stride_loop (nat (top_count - 1)) simple_stride (blocklength * tsize E t) (Suc j) a1;
       Some (a2, cnt, i) }
     else do {
       (a1, j1) \<leftarrow> repeat_blocks (nat (blocklength - 1)) (j - prev) (textent E t) j a;
       (a2, j2) \<leftarrow> repeat_blocks (nat (top_count - 1)) (j1 - prev) stride j1 a1;
       Some (a2, cnt, j2) })"

text \<open>
  The simple indexed cases: \<open>nz\<close> is \<open>nonzeroth\<close>. The list has the length in elements and the byte
  displacement of each block, \<open>unit\<close> is the length of an element. The index the case returns is that of the
  loop variable, not of \<open>nonzeroth\<close>.
\<close>

fun indexed_simple :: "int \<Rightarrow> int \<Rightarrow> (int \<times> int) list \<Rightarrow> nat \<Rightarrow> int \<Rightarrow> blocks \<Rightarrow> (blocks \<times> int) option" where
  "indexed_simple st unit [] nz cnt a = Some (a, cnt)"
| "indexed_simple st unit ((b, d) # bds) nz cnt a =
     (if b > 0 then do {
        a' \<leftarrow> put_block a nz (st + d, b * unit);
        indexed_simple st unit bds (Suc nz) cnt a' }
      else indexed_simple st unit bds nz (cnt - 1) a)"

text \<open>
  The blocks after the first of an indexed type over a type that is not contiguous: \<open>basic_num\<close>
  blocks are taken from the start of the previous group, moved by the difference of the
  displacements, and then replicated.
\<close>

fun indexed_groups ::
  "bool \<Rightarrow> nat \<Rightarrow> int \<Rightarrow> int \<Rightarrow> (int \<times> int) list \<Rightarrow> nat \<Rightarrow> flat_state \<Rightarrow> flat_state option" where
  "indexed_groups dec basic ext last_d [] prev s = Some s"
| "indexed_groups dec basic ext last_d ((b, d) # bds) prev (a, cnt, j) = do {
     (a1, cnt1, j1) \<leftarrow> copy_nonzero True basic (j - prev) (d - last_d) j cnt a;
     (a2, cnt2, j2) \<leftarrow> repeat_nonzero dec (nat (b - 1)) basic ext j1 cnt1 a1;
     indexed_groups dec basic ext d bds j (a2, cnt2, j2) }"

text \<open>
  \<open>INDEXED\<close> and \<open>HINDEXED\<close> with the displacements in bytes; \<open>dec\<close> is false for \<open>HINDEXED\<close>, whose last
  loop does not count the blocks it leaves out. Without any block the source would read outside
  the arguments when the old type is not contiguous: that call is not made here.
\<close>

definition flatten_indexed ::
  "bool \<Rightarrow> int \<Rightarrow> int \<Rightarrow> (int \<times> int) list \<Rightarrow> int \<Rightarrow> nat \<Rightarrow> flat_state \<Rightarrow> flat_state option" where
  "flatten_indexed dec unit ext bds st prev = (\<lambda>(a, cnt, j).
     if prev = j then do {
       (a', cnt') \<leftarrow> indexed_simple st unit bds j cnt a;
       Some (a', cnt', j + length bds) }
     else (case bds of
       [] \<Rightarrow> None
     | (b0, d0) # rest \<Rightarrow> do {
         (a1, cnt1, j1) \<leftarrow> repeat_nonzero True (nat (b0 - 1)) (j - prev) ext j cnt a;
         indexed_groups dec (j - prev) ext d0 rest prev (a1, cnt1, j1) }))"

fun write_blocks :: "int \<Rightarrow> int \<Rightarrow> int list \<Rightarrow> nat \<Rightarrow> blocks \<Rightarrow> (blocks \<times> nat) option" where
  "write_blocks st len [] i a = Some (a, i)"
| "write_blocks st len (d # ds) i a = do {
     a' \<leftarrow> put_block a i (st + d, len);
     write_blocks st len ds (Suc i) a' }"

fun block_groups :: "nat \<Rightarrow> int \<Rightarrow> int list \<Rightarrow> nat \<Rightarrow> blocks \<Rightarrow> (blocks \<times> nat) option" where
  "block_groups num last_d [] j a = Some (a, j)"
| "block_groups num last_d (d # ds) j a = do {
     (a', j') \<leftarrow> copy_blocks num num (d - last_d) j a;
     block_groups num d ds j' a' }"

definition flatten_indexed_block ::
  "type_env \<Rightarrow> int \<Rightarrow> int list \<Rightarrow> mpi_type \<Rightarrow> int \<Rightarrow> nat \<Rightarrow> flat_state \<Rightarrow> flat_state option" where
  "flatten_indexed_block E blocklength ds t st prev = (\<lambda>(a, cnt, j).
     if prev = j then do {
       (a', i) \<leftarrow> write_blocks st (blocklength * textent E t) ds j a;
       Some (a', cnt, i) }
     else (case ds of
       [] \<Rightarrow> None
     | d0 # rest \<Rightarrow> do {
         (a1, j1) \<leftarrow> repeat_blocks (nat (blocklength - 1)) (j - prev) (textent E t) j a;
         (a2, j2) \<leftarrow> block_groups (j1 - prev) d0 rest j1 a1;
         Some (a2, cnt, j2) }))"

definition flatten_member ::
  "type_env \<Rightarrow> int \<Rightarrow> int \<Rightarrow> mpi_type \<Rightarrow> int \<Rightarrow> nat \<Rightarrow> flat_state \<Rightarrow> flat_state option" where
  "flatten_member E b d t st prev = (\<lambda>(a, cnt, j).
     if prev = j then
       (if b > 0 \<or> t = MPI_LB \<or> t = MPI_UB then do {
          a' \<leftarrow> put_block a j (st + d, b * tsize E t);
          Some (a', cnt, Suc j) }
        else Some (a, cnt, j))
     else do {
       (a', j') \<leftarrow> repeat_blocks (nat (b - 1)) (j - prev) (textent E t) j a;
       Some (a', cnt, j') })"

section \<open>The recursion\<close>

text \<open>
  \<open>flatten_child\<close> is the call every case starts with: only a type that is neither named nor
  contiguous is flattened.
\<close>

function (sequential) ADIOI_Flatten :: "type_env \<Rightarrow> mpi_type \<Rightarrow> int \<Rightarrow> flat_state \<Rightarrow> flat_state option"
  and flatten_child :: "type_env \<Rightarrow> mpi_type \<Rightarrow> int \<Rightarrow> flat_state \<Rightarrow> flat_state option"
  and flatten_struct :: "type_env \<Rightarrow> (int \<times> int \<times> mpi_type) list \<Rightarrow> int \<Rightarrow> flat_state \<Rightarrow> flat_state option"
where
  "ADIOI_Flatten E (DUP t) st s = flatten_child E t st s"
| "ADIOI_Flatten E (SUBARRAY dims f t) st s =
     (case ADIO_Type_create_subarray E dims f t of None \<Rightarrow> None | Some stype \<Rightarrow> ADIOI_Flatten E stype st s)"
| "ADIOI_Flatten E (DARRAY n r dims f t) st s =
     (case ADIO_Type_create_darray E n r dims f t of None \<Rightarrow> None | Some dtype \<Rightarrow> ADIOI_Flatten E dtype st s)"
| "ADIOI_Flatten E (CONTIGUOUS n t) st s =
     Option.bind (flatten_child E t st s) (flatten_contiguous E n t st (snd (snd s)))"
| "ADIOI_Flatten E (VECTOR n b stride t) st s =
     Option.bind (flatten_child E t st s)
       (flatten_vector E n b (stride * tsize E t) (stride * textent E t) t st (snd (snd s)))"
| "ADIOI_Flatten E (HVECTOR n b stride t) st s =
     Option.bind (flatten_child E t st s) (flatten_vector E n b stride stride t st (snd (snd s)))"
| "ADIOI_Flatten E (INDEXED bds t) st s =
     (if bds = [] \<and> \<not> simple_type E t then None
      else Option.bind (flatten_child E t (st + snd (hd (bds @ [(0, 0)])) * textent E t) s)
        (flatten_indexed True (textent E t) (textent E t) (map (\<lambda>(b, d). (b, d * textent E t)) bds) st (snd (snd s))))"
| "ADIOI_Flatten E (HINDEXED bds t) st s =
     (if bds = [] \<and> \<not> simple_type E t then None
      else Option.bind (flatten_child E t (st + snd (hd (bds @ [(0, 0)]))) s)
        (flatten_indexed False (tsize E t) (textent E t) bds st (snd (snd s))))"
| "ADIOI_Flatten E (INDEXED_BLOCK b ds t) st s =
     (if ds = [] \<and> \<not> simple_type E t then None
      else Option.bind (flatten_child E t (st + hd (ds @ [0]) * textent E t) s)
        (flatten_indexed_block E b (map (\<lambda>d. d * textent E t) ds) t st (snd (snd s))))"
| "ADIOI_Flatten E (HINDEXED_BLOCK b ds t) st s =
     (if ds = [] \<and> \<not> simple_type E t then None
      else Option.bind (flatten_child E t (st + hd (ds @ [0])) s)
        (flatten_indexed_block E b ds t st (snd (snd s))))"
| "ADIOI_Flatten E (STRUCT ms) st s = flatten_struct E ms st s"
| "ADIOI_Flatten E (RESIZED lb ext t) st (a, cnt, j) =
     (case put_block a j (st + lb, 0) of None \<Rightarrow> None
      | Some a1 \<Rightarrow>
        (case (if simple_type E t
               then map_option (\<lambda>a2. (a2, cnt, Suc (Suc j))) (put_block a1 (Suc j) (st, tsize E t))
               else ADIOI_Flatten E t (st + lb) (a1, cnt, Suc j)) of None \<Rightarrow> None
         | Some (a2, cnt2, j2) \<Rightarrow>
             map_option (\<lambda>a3. (a3, cnt2, Suc j2)) (put_block a2 j2 (st + lb + ext, 0))))"
| "ADIOI_Flatten E _ st s = None"
| "flatten_child E t st s = (if simple_type E t then Some s else ADIOI_Flatten E t st s)"
| "flatten_struct E [] st s = Some s"
| "flatten_struct E ((b, d, t) # ms) st s =
     (case flatten_child E t (st + d) s of None \<Rightarrow> None
      | Some s' \<Rightarrow> (case flatten_member E b d t st (snd (snd s)) s' of None \<Rightarrow> None
        | Some s'' \<Rightarrow> flatten_struct E ms st s''))"
  by pat_completeness auto
termination
proof (relation "measures [
     \<lambda>x. case x of Inl (E, t, st, s) \<Rightarrow> 2 * tdepth t
       | Inr (Inl (E, t, st, s)) \<Rightarrow> 2 * tdepth t
       | Inr (Inr (E, ms, st, s)) \<Rightarrow> Suc (2 * max_depth ms),
     \<lambda>x. case x of Inl _ \<Rightarrow> 0 | Inr (Inl _) \<Rightarrow> 1 | Inr (Inr (E, ms, st, s)) \<Rightarrow> length ms]", goal_cases)
  case (3 E dims f t st s stype)
  then show ?case using tdepth_subarray by fastforce
next
  case (4 E n r dims f t st s dtype)
  then show ?case using tdepth_darray by fastforce
qed auto

section \<open>Counting the blocks\<close>

text \<open>The result is the returned count and \<open>*curr_index\<close>.\<close>

definition count_contiguous :: "int \<Rightarrow> int \<Rightarrow> int \<times> int \<Rightarrow> int \<times> int" where
  "count_contiguous n prev = (\<lambda>(count, c).
     if prev = c then (count, c + 1) else (count * n, c + (n - 1) * (c - prev)))"

definition count_vector :: "int \<Rightarrow> int \<Rightarrow> int \<Rightarrow> int \<times> int \<Rightarrow> int \<times> int" where
  "count_vector n b prev = (\<lambda>(count, c).
     if prev = c then (n, c + n)
     else (let c1 = c + (b - 1) * (c - prev)
           in (count * (b * n), c1 + (n - 1) * (c1 - prev))))"

definition count_indexed :: "int list \<Rightarrow> int \<Rightarrow> int \<times> int \<Rightarrow> (int \<times> int) option" where
  "count_indexed bs prev = (\<lambda>(count, c).
     if prev = c then Some (int (length bs), c + int (length bs))
     else (case bs of [] \<Rightarrow> None
       | b0 # rest \<Rightarrow>
           (let basic = c - prev
            in Some (fold (\<lambda>b (count, c). (count + b * basic, c + b * basic)) rest
                       (count * b0, c + (b0 - 1) * basic)))))"

definition count_indexed_block :: "int \<Rightarrow> int \<Rightarrow> int \<Rightarrow> int \<times> int \<Rightarrow> int \<times> int" where
  "count_indexed_block n b prev = (\<lambda>(count, c).
     if prev = c then (n, c + n)
     else (let basic = c - prev; c1 = c + (b - 1) * basic; count1 = count * b
           in (count1 * n, c1 + (n - 1) * count1)))"

function (sequential) ADIOI_Count_contiguous_blocks :: "type_env \<Rightarrow> mpi_type \<Rightarrow> int \<Rightarrow> (int \<times> int) option"
  and count_child :: "type_env \<Rightarrow> mpi_type \<Rightarrow> int \<Rightarrow> (int \<times> int) option"
  and count_struct :: "type_env \<Rightarrow> (int \<times> int \<times> mpi_type) list \<Rightarrow> int \<Rightarrow> int \<Rightarrow> (int \<times> int) option"
where
  "ADIOI_Count_contiguous_blocks E (DUP t) c =
     (if simple_type E t then Some (1, c + 1) else ADIOI_Count_contiguous_blocks E t c)"
| "ADIOI_Count_contiguous_blocks E (SUBARRAY dims f t) c =
     (case ADIO_Type_create_subarray E dims f t of None \<Rightarrow> None
      | Some stype \<Rightarrow> ADIOI_Count_contiguous_blocks E stype c)"
| "ADIOI_Count_contiguous_blocks E (DARRAY n r dims f t) c =
     (case ADIO_Type_create_darray E n r dims f t of None \<Rightarrow> None
      | Some dtype \<Rightarrow> ADIOI_Count_contiguous_blocks E dtype c)"
| "ADIOI_Count_contiguous_blocks E (CONTIGUOUS n t) c = map_option (count_contiguous n c) (count_child E t c)"
| "ADIOI_Count_contiguous_blocks E (VECTOR n b stride t) c = map_option (count_vector n b c) (count_child E t c)"
| "ADIOI_Count_contiguous_blocks E (HVECTOR n b stride t) c = map_option (count_vector n b c) (count_child E t c)"
| "ADIOI_Count_contiguous_blocks E (INDEXED bds t) c =
     Option.bind (count_child E t c) (count_indexed (map fst bds) c)"
| "ADIOI_Count_contiguous_blocks E (HINDEXED bds t) c =
     Option.bind (count_child E t c) (count_indexed (map fst bds) c)"
| "ADIOI_Count_contiguous_blocks E (INDEXED_BLOCK b ds t) c =
     map_option (count_indexed_block (int (length ds)) b c) (count_child E t c)"
| "ADIOI_Count_contiguous_blocks E (HINDEXED_BLOCK b ds t) c =
     map_option (count_indexed_block (int (length ds)) b c) (count_child E t c)"
| "ADIOI_Count_contiguous_blocks E (STRUCT ms) c = count_struct E ms 0 c"
| "ADIOI_Count_contiguous_blocks E (RESIZED lb ext t) c =
     (if simple_type E t then Some (3, c + 3)
      else map_option (\<lambda>(count, c'). (count + 2, c')) (ADIOI_Count_contiguous_blocks E t (c + 2)))"
| "ADIOI_Count_contiguous_blocks E _ c = None"
| "count_child E t c = (if simple_type E t then Some (1, c) else ADIOI_Count_contiguous_blocks E t c)"
| "count_struct E [] count c = Some (count, c)"
| "count_struct E ((b, d, t) # ms) count c =
     (case (if simple_type E t then Some (0, c) else ADIOI_Count_contiguous_blocks E t c) of None \<Rightarrow> None
      | Some (n, c') \<Rightarrow>
          if c = c' then count_struct E ms (count + n + 1) (c' + 1)
          else count_struct E ms (count + n + (b - 1) * (c' - c)) (c' + (b - 1) * (c' - c)))"
  by pat_completeness auto
termination
proof (relation "measures [
     \<lambda>x. case x of Inl (E, t, c) \<Rightarrow> 2 * tdepth t
       | Inr (Inl (E, t, c)) \<Rightarrow> 2 * tdepth t
       | Inr (Inr (E, ms, count, c)) \<Rightarrow> Suc (2 * max_depth ms),
     \<lambda>x. case x of Inl _ \<Rightarrow> 0 | Inr (Inl _) \<Rightarrow> 1 | Inr (Inr (E, ms, count, c)) \<Rightarrow> length ms]", goal_cases)
  case (3 E dims f t c stype)
  then show ?case using tdepth_subarray by fastforce
next
  case (4 E n r dims f t c dtype)
  then show ?case using tdepth_darray by fastforce
qed auto

section \<open>Merging neighbours\<close>

fun opt_count :: "blocks \<Rightarrow> nat" where
  "opt_count ((i, l) # (i', l') # bs) =
     (if i + l \<noteq> i' then Suc (opt_count ((i', l') # bs)) else opt_count ((i', l') # bs))"
| "opt_count _ = 1"

fun opt_fill :: "blocks \<Rightarrow> nat \<Rightarrow> blocks \<Rightarrow> blocks option" where
  "opt_fill ((i, l) # (i', l') # bs) j out =
     (if i + l = i' then do {
        (x, y) \<leftarrow> get_block out j;
        out' \<leftarrow> put_block out j (x, y + l');
        opt_fill ((i', l') # bs) j out' }
      else do {
        out' \<leftarrow> put_block out (Suc j) (i', l');
        opt_fill ((i', l') # bs) (Suc j) out' })"
| "opt_fill _ j out = Some out"

text \<open>
  \<open>fresh\<close> is the contents of newly allocated memory. A count of 0 or one larger than the arrays
  makes the source read outside of them.
\<close>

definition ADIOI_Optimize_flattened :: "(nat \<Rightarrow> int \<times> int) \<Rightarrow> int \<times> blocks \<Rightarrow> (int \<times> blocks) option" where
  "ADIOI_Optimize_flattened fresh = (\<lambda>(count, a).
     if count \<le> 0 \<or> nat count > length a then None
     else (let bs = take (nat count) a; opt_blocks = opt_count bs
           in if int opt_blocks = count then Some (count, a)
              else do {
                out \<leftarrow> put_block (map fresh [0..<opt_blocks]) 0 (hd bs);
                out' \<leftarrow> opt_fill bs 0 out;
                Some (int opt_blocks, out') }))"

section \<open>The list of flattened types\<close>

text \<open>
  \<open>ADIOI_Flatlist\<close> is a list whose first node is a sentinel with \<open>MPI_DATATYPE_NULL\<close>. Types are
  found by their handle.
\<close>

record flat_node =
  fhandle_of :: int
  fcount :: int
  fblocks :: blocks

definition ADIOI_Flatten_datatype ::
  "type_env \<Rightarrow> (nat \<Rightarrow> int \<times> int) \<Rightarrow> int \<Rightarrow> mpi_type \<Rightarrow> flat_node list \<Rightarrow> flat_node list option" where
  "ADIOI_Flatten_datatype E fresh h t nodes =
     (if tcontig E t then Some nodes
      else if h \<in> fhandle_of ` set nodes then Some nodes
      else if nodes = [] then None
      else do {
        (count, _) \<leftarrow> ADIOI_Count_contiguous_blocks E t 0;
        (a, count', _) \<leftarrow> ADIOI_Flatten E t 0 (map fresh [0..<nat count], count, 0);
        (count'', a') \<leftarrow> ADIOI_Optimize_flattened fresh (count', a);
        Some (nodes @ [\<lparr>fhandle_of = h, fcount = count'', fblocks = a'\<rparr>]) })"

text \<open>Deleting the first node leaves \<open>ADIOI_Flatlist\<close> dangling.\<close>

fun ADIOI_Delete_flattened :: "int \<Rightarrow> flat_node list \<Rightarrow> flat_node list option" where
  "ADIOI_Delete_flattened h [] = Some []"
| "ADIOI_Delete_flattened h (n # ns) =
     (if fhandle_of n = h then None
      else Some (n # takeWhile (\<lambda>m. fhandle_of m \<noteq> h) ns @ tl (dropWhile (\<lambda>m. fhandle_of m \<noteq> h) ns)))"

end
