(* ===== verification/Flatten_Loops.thy ===== *)
theory Flatten_Loops
  imports Flatten
begin

text \<open>
  The loops of \<open>ADIOI_Flatten\<close>, each shown to append displaced copies of the blocks written
  before it, and never to leave the array when there is room for them.
\<close>

section \<open>Lists of blocks\<close>

definition shift :: "int \<Rightarrow> blocks \<Rightarrow> blocks" where
  "shift d bs = map (\<lambda>(i, l). (i + d, l)) bs"

fun reps :: "nat \<Rightarrow> int \<Rightarrow> blocks \<Rightarrow> blocks" where
  "reps 0 d B = []"
| "reps (Suc n) d B = B @ reps n d (shift d B)"

definition bytes_of_blocks :: "blocks \<Rightarrow> int list" where
  "bytes_of_blocks bs = concat (map (\<lambda>(i, l). [i..i + l - 1]) bs)"

definition put_at :: "nat \<Rightarrow> 'a list \<Rightarrow> 'a list \<Rightarrow> 'a list" where
  "put_at c bs a = take c a @ bs @ drop (c + length bs) a"

definition segment :: "nat \<Rightarrow> nat \<Rightarrow> 'a list \<Rightarrow> 'a list" where
  "segment i n a = take n (drop i a)"

lemma shift_simps [simp]:
  "length (shift d bs) = length bs"
  "shift d (bs @ cs) = shift d bs @ shift d cs"
  "shift d (shift e bs) = shift (d + e) bs"
  "shift d [] = []"
  "shift 0 bs = bs"
  "shift d bs = [] \<longleftrightarrow> bs = []"
  "shift d ((i, l) # bs) = (i + d, l) # shift d bs"
  by (auto simp: shift_def add_ac)

lemma shift_snd [simp]: "map snd (shift d bs) = map snd bs"
  by (auto simp: shift_def)

lemma shift_reps [simp]: "shift d (reps n e B) = reps n e (shift d B)"
  by (induction n arbitrary: B) (auto simp: add_ac)

lemma length_reps [simp]: "length (reps n d B) = n * length B"
  by (induction n arbitrary: B) auto

text \<open>No block is empty: lists without markers.\<close>

definition nonempty :: "blocks \<Rightarrow> bool" where
  "nonempty bs \<longleftrightarrow> (\<forall>b \<in> set bs. 0 < snd b)"

lemma nonempty_simps [simp]:
  "nonempty []"
  "nonempty (b # bs) \<longleftrightarrow> 0 < snd b \<and> nonempty bs"
  "nonempty (bs @ cs) \<longleftrightarrow> nonempty bs \<and> nonempty cs"
  "nonempty (shift d bs) = nonempty bs"
  by (auto simp: nonempty_def shift_def)

definition nonneg :: "blocks \<Rightarrow> bool" where
  "nonneg bs \<longleftrightarrow> (\<forall>b \<in> set bs. 0 \<le> snd b)"

lemma nonneg_simps [simp]:
  "nonneg []"
  "nonneg (b # bs) \<longleftrightarrow> 0 \<le> snd b \<and> nonneg bs"
  "nonneg (bs @ cs) \<longleftrightarrow> nonneg bs \<and> nonneg cs"
  "nonneg (shift d bs) = nonneg bs"
  by (auto simp: nonneg_def shift_def)

lemma nonempty_reps [simp]:
  "nonempty B \<Longrightarrow> nonempty (reps n d B)"
  "nonneg B \<Longrightarrow> nonneg (reps n d B)"
  by (induction n arbitrary: B) auto

lemma bytes_simps [simp]:
  "bytes_of_blocks [] = []"
  "bytes_of_blocks (bs @ cs) = bytes_of_blocks bs @ bytes_of_blocks cs"
  "bytes_of_blocks ((i, l) # bs) = [i..i + l - 1] @ bytes_of_blocks bs"
  by (auto simp: bytes_of_blocks_def)

lemma upto_shift: "map ((+) d) [i..j] = [d + i..d + (j :: int)]"
proof -
  have "n = nat (j - i + 1) \<Longrightarrow> ?thesis" for n
  proof (induction n arbitrary: i)
    case (Suc n)
    then have "map ((+) d) [i + 1..j] = [d + (i + 1)..d + j]" "i \<le> j"
      by auto
    then show ?case
      using upto_rec1 [of i j] upto_rec1 [of "d + i" "d + j"] by (simp add: add.assoc)
  qed simp
  then show ?thesis by blast
qed

lemma bytes_shift [simp]: "bytes_of_blocks (shift d bs) = move d (bytes_of_blocks bs)"
  by (induction bs) (auto simp: move_def upto_shift algebra_simps)

lemma move_simps [simp]:
  "move d [] = []"
  "move d (xs @ ys) = move d xs @ move d ys"
  "move d (move e xs) = move (d + e) xs"
  "move 0 xs = xs"
  "length (move d xs) = length xs"
  by (auto simp: move_def add_ac map_idI)

lemma upto_Suc_front: "[0..int n] = 0 # map ((+) 1) [0..int n - 1]"
  by (simp add: upto_rec1 [of 0 "int n"] upto_shift)

lemma spread_Suc: "spread (1 + int n) d xs = xs @ spread (int n) d (move d xs)"
  by (simp add: spread_def upto_Suc_front o_def algebra_simps)

lemma spread_0 [simp]: "n \<le> 0 \<Longrightarrow> spread n d xs = []"
  by (simp add: spread_def)

lemma spread_1 [simp]: "spread 1 d xs = xs"
  using spread_Suc [of 0 d xs] by simp

lemma bytes_reps: "bytes_of_blocks (reps n d B) = spread (int n) d (bytes_of_blocks B)"
  by (induction n arbitrary: B) (auto simp: spread_Suc)

lemma bytes_reps_nat: "0 \<le> n \<Longrightarrow> bytes_of_blocks (reps (nat n) d B) = spread n d (bytes_of_blocks B)"
  by (simp add: bytes_reps)

lemma spread_upto:
  assumes "0 \<le> l"
  shows "spread (int n) l [0..l - 1] = [0..int n * l - 1]"
proof -
  have "spread (int n) l [a..a + l - 1] = [a..a + int n * l - 1]" for a
  proof (induction n arbitrary: a)
    case (Suc n)
    have "[a..a + l - 1] @ [a + l..(a + l) + int n * l - 1] = [a..a + int (Suc n) * l - 1]"
    proof (cases "int n * l = 0")
      case False
      then have "0 < int n * l"
        using assms by (simp add: zero_less_mult_iff)
      then show ?thesis
        using assms upto_split1 [of a "a + l" "a + int (Suc n) * l - 1"] by (simp add: algebra_simps)
    qed (auto simp: algebra_simps)
    then show ?case
      using Suc [of "a + l"] by (simp add: spread_Suc move_def upto_shift algebra_simps)
  qed simp
  from this [of 0] show ?thesis by simp
qed

section \<open>Writing into the array\<close>

lemma length_put_at [simp]: "c + length bs \<le> length a \<Longrightarrow> length (put_at c bs a) = length a"
  by (simp add: put_at_def)

lemma nth_put_at:
  "c + length bs \<le> length a \<Longrightarrow> i < length a \<Longrightarrow>
   put_at c bs a ! i = (if c \<le> i \<and> i < c + length bs then bs ! (i - c) else a ! i)"
  by (auto simp: put_at_def nth_append)

lemma put_at_Nil [simp]: "put_at c [] a = a"
  by (simp add: put_at_def)

lemma put_at_put_at [simp]:
  "c + length bs + length cs \<le> length a \<Longrightarrow> put_at (c + length bs) cs (put_at c bs a) = put_at c (bs @ cs) a"
  by (simp add: put_at_def add_ac)

lemma put_at_over:
  assumes "cs \<noteq> []" "c + length cs \<le> length a"
  shows "put_at c cs (put_at c [b] a) = put_at c cs a"
proof -
  have "c + length [b] \<le> length a" "Suc 0 \<le> length cs"
    using assms by (cases cs; simp)+
  then show ?thesis
    using assms(2) by (intro nth_equalityI) (auto simp: nth_put_at)
qed

lemma put_block_at: "j < length a \<Longrightarrow> put_block a j b = Some (put_at j [b] a)"
  by (simp add: put_block_def put_at_def upd_conv_take_nth_drop)

lemma length_segment [simp]: "i + n \<le> length a \<Longrightarrow> length (segment i n a) = n"
  by (simp add: segment_def)

lemma segment_nth: "i + n \<le> length a \<Longrightarrow> k < n \<Longrightarrow> segment i n a ! k = a ! (i + k)"
  by (simp add: segment_def)

lemma segment_put_at_same: "c + length bs \<le> length a \<Longrightarrow> segment c (length bs) (put_at c bs a) = bs"
  by (simp add: segment_def put_at_def)

lemma segment_put_at_before:
  "i + n \<le> c \<Longrightarrow> c + length bs \<le> length a \<Longrightarrow> segment i n (put_at c bs a) = segment i n a"
  by (rule nth_equalityI) (auto simp: segment_nth nth_put_at)

lemma copy_blocks_ok:
  "n \<le> num \<Longrightarrow> num \<le> j \<Longrightarrow> j + n \<le> length a \<Longrightarrow>
   copy_blocks n num d j a = Some (put_at j (shift d (segment (j - num) n a)) a, j + n)"
proof (induction n arbitrary: j a)
  case 0
  then show ?case by (simp add: segment_def)
next
  case (Suc n)
  define b where "b = (fst (a ! (j - num)) + d, snd (a ! (j - num)))"
  have s: "segment (j - num) (Suc n) a = a ! (j - num) # segment (Suc j - num) n a"
    using Suc.prems by (simp add: segment_def Suc_diff_le flip: Cons_nth_drop_Suc)
  have "segment (Suc j - num) n (put_at j [b] a) = segment (Suc j - num) n a"
    using Suc.prems by (intro segment_put_at_before) auto
  then have "put_at (Suc j) (shift d (segment (Suc j - num) n (put_at j [b] a))) (put_at j [b] a)
      = put_at j (b # shift d (segment (Suc j - num) n a)) a"
    using Suc.prems put_at_put_at [of j "[b]" "shift d (segment (Suc j - num) n a)" a] by simp
  then show ?case
    using Suc.prems Suc.IH [of "Suc j" "put_at j [b] a"]
    by (simp add: get_block_def put_block_at s b_def split_beta shift_def)
qed

lemma repeat_blocks_ok:
  "num \<le> j \<Longrightarrow> j + k * num \<le> length a \<Longrightarrow>
   repeat_blocks k num d j a = Some (put_at j (reps k d (shift d (segment (j - num) num a))) a, j + k * num)"
proof (induction k arbitrary: j a)
  case (Suc k)
  define B where "B = shift d (segment (j - num) num a)"
  have len: "length B = num" using Suc.prems by (simp add: B_def)
  have "segment j num (put_at j B a) = B"
    using Suc.prems len segment_put_at_same [of j B a] by simp
  moreover have "put_at (j + num) (reps k d (shift d B)) (put_at j B a) = put_at j (B @ reps k d (shift d B)) a"
    using Suc.prems len put_at_put_at [of j B "reps k d (shift d B)" a] by (simp add: algebra_simps)
  ultimately show ?case
    using Suc.prems Suc.IH [of "j + num" "put_at j B a"] len
    by (simp add: copy_blocks_ok add_ac flip: B_def)
qed simp

text \<open>With only nonempty blocks to copy, the loops of the indexed cases are the plain ones.\<close>

lemma copy_nonzero_ok:
  "n \<le> num \<Longrightarrow> num \<le> j \<Longrightarrow> j + n \<le> length a \<Longrightarrow> nonempty (segment (j - num) n a) \<Longrightarrow>
   copy_nonzero dec n num d j cnt a = Some (put_at j (shift d (segment (j - num) n a)) a, cnt, j + n)"
proof (induction n arbitrary: j a)
  case 0
  then show ?case by (simp add: segment_def)
next
  case (Suc n)
  define b where "b = (fst (a ! (j - num)) + d, snd (a ! (j - num)))"
  have s: "segment (j - num) (Suc n) a = a ! (j - num) # segment (Suc j - num) n a"
    using Suc.prems by (simp add: segment_def Suc_diff_le flip: Cons_nth_drop_Suc)
  have same: "segment (Suc j - num) n (put_at j [b] a) = segment (Suc j - num) n a"
    using Suc.prems by (intro segment_put_at_before) auto
  have "put_at (Suc j) (shift d (segment (Suc j - num) n a)) (put_at j [b] a)
      = put_at j (b # shift d (segment (Suc j - num) n a)) a"
    using Suc.prems put_at_put_at [of j "[b]" "shift d (segment (Suc j - num) n a)" a] by simp
  then show ?case
    using Suc.prems Suc.IH [of "Suc j" "put_at j [b] a"] same
    by (simp add: get_block_def put_block_at s b_def split_beta shift_def)
qed

lemma repeat_nonzero_ok:
  "num \<le> j \<Longrightarrow> j + k * num \<le> length a \<Longrightarrow> nonempty (segment (j - num) num a) \<Longrightarrow>
   repeat_nonzero dec k num d j cnt a =
     Some (put_at j (reps k d (shift d (segment (j - num) num a))) a, cnt, j + k * num)"
proof (induction k arbitrary: j a)
  case (Suc k)
  define B where "B = shift d (segment (j - num) num a)"
  have len: "length B = num" using Suc.prems by (simp add: B_def)
  have same: "segment j num (put_at j B a) = B"
    using Suc.prems len segment_put_at_same [of j B a] by simp
  have "nonempty B" using Suc.prems by (simp add: B_def)
  moreover have "put_at (j + num) (reps k d (shift d B)) (put_at j B a) = put_at j (B @ reps k d (shift d B)) a"
    using Suc.prems len put_at_put_at [of j B "reps k d (shift d B)" a] by (simp add: algebra_simps)
  ultimately show ?case
    using Suc.prems Suc.IH [of "j + num" "put_at j B a"] len same
    by (simp add: copy_nonzero_ok add_ac flip: B_def)
qed simp

lemma indexed_groups_ok:
  "length C = basic \<Longrightarrow> segment prev basic a = shift last_d C \<Longrightarrow> nonempty C \<Longrightarrow> prev + basic \<le> j \<Longrightarrow>
   j + sum_list (map (\<lambda>(b, d). nat b) bds) * basic \<le> length a \<Longrightarrow> (\<forall>(b, d) \<in> set bds. 1 \<le> b) \<Longrightarrow>
   indexed_groups dec basic ext last_d bds prev (a, cnt, j) =
     Some (put_at j (concat (map (\<lambda>(b, d). reps (nat b) ext (shift d C)) bds)) a, cnt,
           j + sum_list (map (\<lambda>(b, d). nat b) bds) * basic)"
proof (induction bds arbitrary: last_d prev a j)
  case (Cons bd bds)
  obtain b d where bd: "bd = (b, d)" by force
  then have b: "nat b = Suc (nat (b - 1))" using Cons.prems by auto
  define B where "B = shift d C"
  define R where "R = reps (nat (b - 1)) ext (shift ext B)"
  have len: "length B = basic" "length R = nat (b - 1) * basic" "nonempty B"
    using Cons.prems by (simp_all add: B_def R_def)
  have fits: "j + basic + length R + sum_list (map (\<lambda>(b, d). nat b) bds) * basic \<le> length a"
    using Cons.prems(5) b bd len by (simp add: algebra_simps)
  have "copy_nonzero True basic (j - prev) (d - last_d) j cnt a = Some (put_at j B a, cnt, j + basic)"
    using copy_nonzero_ok [of basic "j - prev" j a True "d - last_d" cnt] Cons.prems fits
    by (simp add: B_def)
  moreover have "segment j basic (put_at j B a) = B"
    using fits len segment_put_at_same [of j B a] by simp
  then have "repeat_nonzero dec (nat (b - 1)) basic ext (j + basic) cnt (put_at j B a)
      = Some (put_at (j + basic) R (put_at j B a), cnt, j + basic + length R)"
    using repeat_nonzero_ok [of basic "j + basic" "nat (b - 1)" "put_at j B a" dec ext cnt] fits len
    by (simp add: R_def)
  moreover have "put_at (j + basic) R (put_at j B a) = put_at j (B @ R) a"
    using put_at_put_at [of j B R a] fits len by simp
  moreover have "segment j basic (put_at j (B @ R) a) = shift d C"
    using fits len by (simp add: segment_def put_at_def flip: B_def)
  then have "indexed_groups dec basic ext d bds j (put_at j (B @ R) a, cnt, j + basic + length R)
      = Some (put_at (j + basic + length R) (concat (map (\<lambda>(b, d). reps (nat b) ext (shift d C)) bds))
                (put_at j (B @ R) a), cnt, j + basic + length R + sum_list (map (\<lambda>(b, d). nat b) bds) * basic)"
    using Cons.IH [of j "put_at j (B @ R) a" d "j + basic + length R"] Cons.prems fits len by simp
  moreover have "length (concat (map (\<lambda>(b, d). reps (nat b) ext (shift d C)) bds)) = sum_list (map (\<lambda>(b, d). nat b) bds) * basic"
    using Cons.prems(1) by (induction bds) (auto simp: algebra_simps)
  moreover have "reps (nat (b - 1)) ext (shift (ext + d) C) = R"
    by (simp add: R_def B_def)
  ultimately show ?case
    using put_at_put_at [of j "B @ R" "concat (map (\<lambda>(b, d). reps (nat b) ext (shift d C)) bds)" a]
      fits len b bd
    by (simp add: add_mult_distrib B_def [symmetric] add.assoc)
qed simp

lemma stride_loop_ok:
  "0 < i \<Longrightarrow> i + n \<le> length a \<Longrightarrow> a ! (i - 1) = (x, len) \<Longrightarrow>
   stride_loop n d len i a = Some (put_at i (reps n d [(x + d, len)]) a, i + n)"
proof (induction n arbitrary: i a x)
  case (Suc n)
  have "put_at i [(x + d, len)] a ! i = (x + d, len)"
    using Suc.prems by (simp add: nth_put_at)
  then have "stride_loop n d len (Suc i) (put_at i [(x + d, len)] a) =
      Some (put_at (Suc i) (reps n d [(x + d + d, len)]) (put_at i [(x + d, len)] a), Suc i + n)"
    using Suc.IH [of "Suc i" "put_at i [(x + d, len)] a" "x + d"] Suc.prems by simp
  moreover have "put_at (Suc i) (reps n d [(x + d + d, len)]) (put_at i [(x + d, len)] a)
      = put_at i ((x + d, len) # reps n d [(x + d + d, len)]) a"
    using Suc.prems put_at_put_at [of i "[(x + d, len)]" "reps n d [(x + d + d, len)]" a] by simp
  ultimately show ?case
    using Suc.prems by (simp add: get_block_def put_block_at)
qed simp

lemma indexed_simple_ok:
  "(\<forall>(b, d) \<in> set bds. 1 \<le> b) \<Longrightarrow> nz + length bds \<le> length a \<Longrightarrow>
   indexed_simple st unit bds nz cnt a = Some (put_at nz (map (\<lambda>(b, d). (st + d, b * unit)) bds) a, cnt)"
proof (induction bds arbitrary: nz a)
  case (Cons bd bds)
  obtain b d where bd: "bd = (b, d)" by force
  have "put_at (Suc nz) (map (\<lambda>(b, d). (st + d, b * unit)) bds) (put_at nz [(st + d, b * unit)] a)
      = put_at nz (map (\<lambda>(b, d). (st + d, b * unit)) (bd # bds)) a"
    using put_at_put_at [of nz "[(st + d, b * unit)]" "map (\<lambda>(b, d). (st + d, b * unit)) bds" a] Cons.prems bd
    by simp
  then show ?case
    using Cons.IH [of "Suc nz" "put_at nz [(st + d, b * unit)] a"] Cons.prems bd
    by (simp add: put_block_at)
qed simp

lemma write_blocks_ok:
  "i + length ds \<le> length a \<Longrightarrow>
   write_blocks st len ds i a = Some (put_at i (map (\<lambda>d. (st + d, len)) ds) a, i + length ds)"
proof (induction ds arbitrary: i a)
  case (Cons d ds)
  have "put_at (Suc i) (map (\<lambda>d. (st + d, len)) ds) (put_at i [(st + d, len)] a)
      = put_at i (map (\<lambda>d. (st + d, len)) (d # ds)) a"
    using put_at_put_at [of i "[(st + d, len)]" "map (\<lambda>d. (st + d, len)) ds" a] Cons.prems by simp
  then show ?case
    using Cons.IH [of "Suc i" "put_at i [(st + d, len)] a"] Cons.prems by (simp add: put_block_at)
qed simp

lemma block_groups_ok:
  "length C = num \<Longrightarrow> num \<le> j \<Longrightarrow> segment (j - num) num a = shift last_d C \<Longrightarrow>
   j + length ds * num \<le> length a \<Longrightarrow>
   block_groups num last_d ds j a =
     Some (put_at j (concat (map (\<lambda>d. shift d C) ds)) a, j + length ds * num)"
proof (induction ds arbitrary: last_d j a)
  case (Cons d ds)
  define B where "B = shift d C"
  have len: "length B = num" using Cons.prems by (simp add: B_def)
  have "copy_blocks num num (d - last_d) j a = Some (put_at j B a, j + num)"
    using copy_blocks_ok [of num num j a "d - last_d"] Cons.prems by (simp add: B_def)
  moreover have "segment j num (put_at j B a) = shift d C"
    using segment_put_at_same [of j B a] Cons.prems len by (simp add: B_def)
  then have "block_groups num d ds (j + num) (put_at j B a) =
      Some (put_at (j + num) (concat (map (\<lambda>d. shift d C) ds)) (put_at j B a), j + num + length ds * num)"
    using Cons.IH [of "j + num" "put_at j B a" d] Cons.prems len by (simp add: algebra_simps)
  moreover have "length (concat (map (\<lambda>d. shift d C) ds)) = length ds * num"
    using Cons.prems(1) by (induction ds) auto
  ultimately show ?case
    using put_at_put_at [of j B "concat (map (\<lambda>d. shift d C) ds)" a] Cons.prems len
    by (simp add: B_def add_ac)
qed simp

lemma repeat_after:
  assumes "c + Suc k * length B \<le> length a"
  shows "repeat_blocks k (length B) d (c + length B) (put_at c B a) =
     Some (put_at c (reps (Suc k) d B) a, c + Suc k * length B)"
proof -
  have "segment c (length B) (put_at c B a) = B"
    using assms by (simp add: segment_put_at_same)
  moreover have "put_at (c + length B) (reps k d (shift d B)) (put_at c B a) = put_at c (B @ reps k d (shift d B)) a"
    using assms by (simp add: algebra_simps)
  ultimately show ?thesis
    using repeat_blocks_ok [of "length B" "c + length B" k "put_at c B a" d] assms
    by (simp add: algebra_simps)
qed

end
