(* ===== verification/Flatten_Correct.thy ===== *)
theory Flatten_Correct
  imports Flatten_Loops
begin

text \<open>
  Correctness of flattening. A type \<open>flattens_to\<close> a list of blocks when counting and flattening
  agree on it and its bytes are the type map. The rules for the combiners compose to the theorem
  on whole types.
\<close>

section \<open>Types and their blocks\<close>

definition flattens_to :: "type_env \<Rightarrow> mpi_type \<Rightarrow> blocks \<Rightarrow> bool" where
  "flattens_to E t bs \<longleftrightarrow> bs \<noteq> [] \<and> bytes_of_blocks bs = type_map E t \<and>
     (\<forall>c. ADIOI_Count_contiguous_blocks E t c = Some (int (length bs), c + int (length bs))) \<and>
     (\<forall>st a cnt c. c + length bs \<le> length a \<longrightarrow>
        ADIOI_Flatten E t st (a, cnt, c) = Some (put_at c (shift st bs) a, cnt, c + length bs))"

lemma flattens_toD:
  assumes "flattens_to E t bs"
  shows "bs \<noteq> []" "bytes_of_blocks bs = type_map E t"
    "ADIOI_Count_contiguous_blocks E t c = Some (int (length bs), c + int (length bs))"
    "c' + length bs \<le> length a \<Longrightarrow>
       ADIOI_Flatten E t st (a, cnt, c') = Some (put_at c' (shift st bs) a, cnt, c' + length bs)"
  using assms by (auto simp: flattens_to_def)

lemma simple_typeD:
  assumes "type_laws E" "simple_type E t"
  shows "0 \<le> tsize E t" "textent E t = tsize E t" "type_map E t = [0..tsize E t - 1]"
proof -
  have "is_named t \<Longrightarrow> type_map E t = [0..tsize E t - 1]"
    using assms(1) by (cases t) (auto simp: type_laws_def)
  then show "0 \<le> tsize E t" "textent E t = tsize E t" "type_map E t = [0..tsize E t - 1]"
    using assms by (auto simp: type_laws_def simple_type_def)
qed

lemma spread_simple:
  "type_laws E \<Longrightarrow> simple_type E t \<Longrightarrow> 0 \<le> n \<Longrightarrow>
   spread n (textent E t) (type_map E t) = [0..n * tsize E t - 1]"
  using simple_typeD [of E t] spread_upto [of "tsize E t" "nat n"] by simp

lemma flatten_DUP: "\<not> simple_type E t \<Longrightarrow> flattens_to E t bs \<Longrightarrow> flattens_to E (DUP t) bs"
  by (simp add: flattens_to_def)

lemma flatten_CONTIGUOUS_simple:
  "type_laws E \<Longrightarrow> simple_type E t \<Longrightarrow> 0 \<le> n \<Longrightarrow> flattens_to E (CONTIGUOUS n t) [(0, n * tsize E t)]"
  by (simp add: flattens_to_def count_contiguous_def flatten_contiguous_def put_block_at spread_simple)

lemma flatten_CONTIGUOUS:
  assumes "\<not> simple_type E t" "flattens_to E t bs" "1 \<le> n"
  shows "flattens_to E (CONTIGUOUS n t) (reps (nat n) (textent E t) bs)"
proof -
  note D = flattens_toD [OF assms(2)]
  have n: "nat n = Suc (nat (n - 1))" using assms(3) by simp
  have "ADIOI_Flatten E (CONTIGUOUS n t) st (a, cnt, c) =
      Some (put_at c (reps (nat n) (textent E t) (shift st bs)) a, cnt, c + nat n * length bs)"
    if "c + nat n * length bs \<le> length a" for st a cnt c
    using that D assms repeat_after [of c "nat (n - 1)" "shift st bs" a "textent E t"]
    unfolding n by (simp add: flatten_contiguous_def)
  moreover have "ADIOI_Count_contiguous_blocks E (CONTIGUOUS n t) c
      = Some (int (nat n * length bs), c + int (nat n * length bs))" for c
    using D assms by (simp add: count_contiguous_def algebra_simps)
  moreover have "reps (nat n) (textent E t) bs \<noteq> []" using D(1) n by simp
  ultimately show ?thesis
    using D(2) assms(3) by (simp add: flattens_to_def bytes_reps)
qed

text \<open>Both vector cases: \<open>s\<close> is the distance of the blocks in bytes.\<close>

lemma count_vector_ok:
  "1 \<le> n \<Longrightarrow> 1 \<le> b \<Longrightarrow> 0 < k \<Longrightarrow>
   count_vector n b c (int k, c + int k) = (int (nat n * (nat b * k)), c + int (nat n * (nat b * k)))"
  by (simp add: count_vector_def Let_def algebra_simps)

lemma flatten_vector_simple:
  assumes "1 \<le> n" "c + nat n \<le> length a"
  shows "flatten_vector E n b s s' t st c (a, cnt, c) =
     Some (put_at c (shift st (reps (nat n) s [(0, b * tsize E t)])) a, cnt, c + nat n)"
proof -
  define l where "l = b * tsize E t"
  have n: "nat n = Suc (nat (n - 1))" using assms(1) by simp
  have "put_at c [(st, l)] a ! c = (st, l)" using assms n by (simp add: nth_put_at)
  then have "stride_loop (nat (n - 1)) s l (Suc c) (put_at c [(st, l)] a) =
      Some (put_at (Suc c) (reps (nat (n - 1)) s [(st + s, l)]) (put_at c [(st, l)] a), Suc c + nat (n - 1))"
    using stride_loop_ok [of "Suc c" "nat (n - 1)" "put_at c [(st, l)] a" st l s] assms n by simp
  moreover have "put_at (Suc c) (reps (nat (n - 1)) s [(st + s, l)]) (put_at c [(st, l)] a)
      = put_at c (reps (nat n) s [(st, l)]) a"
    using put_at_put_at [of c "[(st, l)]" "reps (nat (n - 1)) s [(st + s, l)]" a] assms n by simp
  ultimately show ?thesis
    using assms n by (simp add: flatten_vector_def put_block_at l_def add.commute [of st s])
qed

lemma flatten_vector_deep:
  assumes "1 \<le> n" "1 \<le> b" "B \<noteq> []" "c + nat n * (nat b * length B) \<le> length a"
  shows "flatten_vector E n b s' s t st c (put_at c B a, cnt, c + length B) =
     Some (put_at c (reps (nat n) s (reps (nat b) (textent E t) B)) a, cnt, c + nat n * (nat b * length B))"
proof -
  define R where "R = reps (nat b) (textent E t) B"
  have n: "nat n = Suc (nat (n - 1))" "nat b = Suc (nat (b - 1))" using assms(1,2) by simp_all
  have len: "length R = nat b * length B" by (simp add: R_def)
  have fits: "c + nat b * length B \<le> length a" "c + nat n * length R \<le> length a"
    using assms(4) n(1) unfolding len by simp_all
  have "repeat_blocks (nat (b - 1)) (length B) (textent E t) (c + length B) (put_at c B a)
      = Some (put_at c R a, c + length R)"
    using repeat_after [of c "nat (b - 1)" B a "textent E t"] fits n(2) len by (simp add: R_def)
  moreover have "repeat_blocks (nat (n - 1)) (length R) s (c + length R) (put_at c R a)
      = Some (put_at c (reps (nat n) s R) a, c + nat n * length R)"
    using repeat_after [of c "nat (n - 1)" R a s] fits n(1) by simp
  ultimately show ?thesis
    using assms(3) len by (simp add: flatten_vector_def R_def)
qed

lemma flatten_HVECTOR_simple:
  "type_laws E \<Longrightarrow> simple_type E t \<Longrightarrow> 1 \<le> n \<Longrightarrow> 0 \<le> b \<Longrightarrow>
   flattens_to E (HVECTOR n b s t) (reps (nat n) s [(0, b * tsize E t)])"
  by (simp add: flattens_to_def count_vector_def flatten_vector_simple bytes_reps spread_simple
      flip: length_greater_0_conv)

lemma flatten_VECTOR_simple:
  "type_laws E \<Longrightarrow> simple_type E t \<Longrightarrow> 1 \<le> n \<Longrightarrow> 0 \<le> b \<Longrightarrow>
   flattens_to E (VECTOR n b s t) (reps (nat n) (s * tsize E t) [(0, b * tsize E t)])"
  using simple_typeD(2) [of E t] spread_simple [of E t b]
  by (simp add: flattens_to_def count_vector_def flatten_vector_simple bytes_reps
      flip: length_greater_0_conv)

lemma flatten_HVECTOR:
  assumes "\<not> simple_type E t" "flattens_to E t bs" "1 \<le> n" "1 \<le> b"
  shows "flattens_to E (HVECTOR n b s t) (reps (nat n) s (reps (nat b) (textent E t) bs))"
    and "flattens_to E (VECTOR n b s t) (reps (nat n) (s * textent E t) (reps (nat b) (textent E t) bs))"
proof -
  note D = flattens_toD [OF assms(2)]
  have k: "0 < length bs" "0 < nat n" "0 < nat b" using D(1) assms by auto
  have room: "c + length bs \<le> length a" if "c + nat n * (nat b * length bs) \<le> length a" for c and a :: blocks
  proof -
    have "1 * (1 * length bs) \<le> nat n * (nat b * length bs)"
      using k by (intro mult_le_mono) auto
    then show ?thesis using that by linarith
  qed
  have deep: "flatten_vector E n b s' s t st c (put_at c (shift st bs) a, cnt, c + length bs) =
      Some (put_at c (reps (nat n) s (reps (nat b) (textent E t) (shift st bs))) a, cnt, c + nat n * (nat b * length bs))"
    if "c + nat n * (nat b * length bs) \<le> length a" for s s' st a cnt c
    using flatten_vector_deep [of n b "shift st bs" c a E s' s t st cnt] that assms D(1) by simp
  have cnt: "count_vector n b c (int (length bs), c + int (length bs)) =
      (int (nat n * (nat b * length bs)), c + int (nat n * (nat b * length bs)))" for c
    using count_vector_ok [of n b "length bs" c] assms k by simp
  note facts = D assms k room deep cnt bytes_reps
  show "flattens_to E (HVECTOR n b s t) (reps (nat n) s (reps (nat b) (textent E t) bs))"
    using facts by (simp add: flattens_to_def flip: length_greater_0_conv)
  show "flattens_to E (VECTOR n b s t) (reps (nat n) (s * textent E t) (reps (nat b) (textent E t) bs))"
    using facts by (simp add: flattens_to_def flip: length_greater_0_conv)
qed

text \<open>The two indexed cases: \<open>bds\<close> has the displacements in bytes.\<close>

lemma count_fold:
  "\<forall>b \<in> set bs. 1 \<le> b \<Longrightarrow> fold (\<lambda>b (count, c). (count + b * int k, c + b * int k)) bs (x, y)
     = (x + int (sum_list (map nat bs) * k), y + int (sum_list (map nat bs) * k))"
  by (induction bs arbitrary: x y) (auto simp: algebra_simps)

lemma count_indexed_ok:
  assumes "\<forall>b \<in> set bs. 1 \<le> b" "bs \<noteq> []" "0 < k"
  shows "count_indexed bs c (int k, c + int k) =
     Some (int (sum_list (map nat bs) * k), c + int (sum_list (map nat bs) * k))"
proof (cases bs)
  case (Cons b0 rest)
  then have b: "1 \<le> b0" and r: "\<forall>b \<in> set rest. 1 \<le> b" using assms(1) by auto
  have "count_indexed bs c (int k, c + int k) =
      Some (fold (\<lambda>b (count, c). (count + b * int k, c + b * int k)) rest (int k * b0, c + int k + (b0 - 1) * int k))"
    using assms(3) by (simp add: count_indexed_def Cons Let_def)
  then show ?thesis
    using b by (simp add: count_fold [OF r] Cons) (simp add: algebra_simps)
qed (use assms in simp)

lemma flatten_indexed_deep:
  assumes ok: "\<forall>(b, d) \<in> set bds. 1 \<le> b" "bds \<noteq> []" "C \<noteq> []" "nonempty C"
    and room: "c + sum_list (map (nat \<circ> fst) bds) * length C \<le> length a"
  shows "flatten_indexed dec unit ext bds st c
       (put_at c (shift (snd (hd bds)) C) a, cnt, c + length C) =
     Some (put_at c (concat (map (\<lambda>(b, d). reps (nat b) ext (shift d C)) bds)) a, cnt,
           c + sum_list (map (nat \<circ> fst) bds) * length C)"
proof -
  obtain b0 d0 rest where bds: "bds = (b0, d0) # rest" using ok(2) by (cases bds) auto
  define B where "B = shift d0 C"
  define R where "R = reps (nat b0) ext B"
  have n: "nat b0 = Suc (nat (b0 - 1))" using ok(1) bds by auto
  have len: "length B = length C" "length R = nat b0 * length C" "nonempty B"
    using ok by (simp_all add: B_def R_def)
  define k where "k = sum_list (map (\<lambda>(b, d). nat b) rest) * length C"
  have sum: "map (nat \<circ> fst) rest = map (\<lambda>(b, d). nat b) rest" by auto
  have fits: "c + length R + k \<le> length a"
    using room len by (simp add: bds k_def sum algebra_simps)
  then have fitB: "c + length B + nat (b0 - 1) * length C \<le> length a"
    using len n by simp
  have "segment c (length C) (put_at c B a) = B"
    using fitB len segment_put_at_same [of c B a] by simp
  then have "repeat_nonzero True (nat (b0 - 1)) (length C) ext (c + length C) cnt (put_at c B a) =
      Some (put_at (c + length C) (reps (nat (b0 - 1)) ext (shift ext B)) (put_at c B a), cnt,
            c + length C + nat (b0 - 1) * length C)"
    using repeat_nonzero_ok [of "length C" "c + length C" "nat (b0 - 1)" "put_at c B a" True ext cnt] fitB len
    by simp
  moreover have "put_at (c + length C) (reps (nat (b0 - 1)) ext (shift ext B)) (put_at c B a) = put_at c R a"
    using put_at_put_at [of c B "reps (nat (b0 - 1)) ext (shift ext B)" a] fitB len n by (simp add: R_def)
  moreover have "segment c (length C) (put_at c R a) = shift d0 C"
    using fits len n by (simp add: segment_def put_at_def R_def flip: B_def)
  then have "indexed_groups dec (length C) ext d0 rest c (put_at c R a, cnt, c + length R) =
      Some (put_at (c + length R) (concat (map (\<lambda>(b, d). reps (nat b) ext (shift d C)) rest)) (put_at c R a),
            cnt, c + length R + k)"
    using indexed_groups_ok [of C "length C" c "put_at c R a" d0 "c + length R" rest dec ext cnt] ok bds fits len n
    by (simp add: k_def)
  moreover have "length (concat (map (\<lambda>(b, d). reps (nat b) ext (shift d C)) rest)) = k"
    unfolding k_def by (induction rest) (auto simp: algebra_simps)
  moreover have "R = B @ reps (nat (b0 - 1)) ext (shift (ext + d0) C)"
    using n by (simp add: R_def B_def)
  ultimately show ?thesis
    using ok(3) len n fits put_at_put_at [of c R "concat (map (\<lambda>(b, d). reps (nat b) ext (shift d C)) rest)" a]
    by (simp add: flatten_indexed_def bds add.assoc flip: B_def) (simp add: k_def sum algebra_simps)
qed

lemma shift_concat: "shift st (concat xss) = concat (map (shift st) xss)"
  by (induction xss) auto

lemma move_concat: "move d (concat xss) = concat (map (move d) xss)"
  by (induction xss) auto

lemma spread_move: "spread n d (move e xs) = move e (spread n d xs)"
  by (simp add: spread_def move_concat o_def add_ac)

definition groups :: "int \<Rightarrow> (int \<times> int) list \<Rightarrow> blocks \<Rightarrow> blocks" where
  "groups ext bds bs = concat (map (\<lambda>(b, d). reps (nat b) ext (shift d bs)) bds)"

lemma length_groups [simp]: "length (groups ext bds bs) = sum_list (map (nat \<circ> fst) bds) * length bs"
  unfolding groups_def by (induction bds) (auto simp: algebra_simps)

lemma shift_groups [simp]: "shift st (groups ext bds bs) = groups ext bds (shift st bs)"
  by (simp add: groups_def shift_concat o_def split_def add_ac)

lemma nonempty_groups [simp]:
  "nonempty bs \<Longrightarrow> nonempty (groups ext bds bs)"
  "nonneg bs \<Longrightarrow> nonneg (groups ext bds bs)"
  unfolding groups_def by (induction bds) auto

lemma bytes_groups:
  "\<forall>(b, d) \<in> set bds. 1 \<le> b \<Longrightarrow> bytes_of_blocks (groups ext bds bs) =
     concat (map (\<lambda>(b, d). move d (spread b ext (bytes_of_blocks bs))) bds)"
  unfolding groups_def by (induction bds) (auto simp: bytes_reps_nat spread_move)

lemma groups_ne:
  assumes "bds \<noteq> []" "\<forall>(b, d) \<in> set bds. 1 \<le> b" "bs \<noteq> []"
  shows "groups ext bds bs \<noteq> []"
proof (cases bds)
  case (Cons bd rest)
  moreover obtain b d where "bd = (b, d)" by force
  moreover have "nat (fst bd) = Suc (nat (fst bd - 1))"
    using assms(2) Cons by (cases bd) auto
  ultimately show ?thesis using assms(3) by (simp add: groups_def)
qed (use assms in simp)

lemma indexed_child:
  assumes "\<not> simple_type E t" "flattens_to E t bs" "nonempty bs" "bds \<noteq> []" "\<forall>(b, d) \<in> set bds. 1 \<le> b"
    and room: "c + length (groups ext bds bs) \<le> length a"
  shows "Option.bind (flatten_child E t (st + snd (hd bds)) (a, cnt, c)) (flatten_indexed dec u ext bds st c) =
     Some (put_at c (shift st (groups ext bds bs)) a, cnt, c + length (groups ext bds bs))"
proof -
  obtain b0 d0 rest where bds: "bds = (b0, d0) # rest" using assms(4) by (cases bds) auto
  then have "1 * length bs \<le> sum_list (map (nat \<circ> fst) bds) * length bs"
    using assms(5) by (intro mult_le_mono1) auto
  then have "c + length bs \<le> length a" using room unfolding length_groups by linarith
  then have "flatten_child E t (st + snd (hd bds)) (a, cnt, c) =
      Some (put_at c (shift (snd (hd bds)) (shift st bs)) a, cnt, c + length bs)"
    using flattens_toD(4) [OF assms(2)] assms(1) by (simp add: add.commute)
  then show ?thesis
    using flatten_indexed_deep [of bds "shift st bs" c a dec u ext st cnt] assms flattens_toD(1) [OF assms(2)]
    by (simp add: groups_def [of ext bds "shift st bs"])
qed

lemma flatten_HINDEXED:
  assumes "\<not> simple_type E t" "flattens_to E t bs" "nonempty bs" "bds \<noteq> []" "\<forall>(b, d) \<in> set bds. 1 \<le> b"
  shows "flattens_to E (HINDEXED bds t) (groups (textent E t) bds bs)"
proof -
  have "\<forall>b \<in> set (map fst bds). 1 \<le> b" using assms(5) by auto
  then have "count_indexed (map fst bds) c (int (length bs), c + int (length bs)) =
      Some (int (length (groups (textent E t) bds bs)), c + int (length (groups (textent E t) bds bs)))" for c
    using count_indexed_ok [of "map fst bds" "length bs" c] assms(4) flattens_toD(1) [OF assms(2)]
    by (simp add: o_def)
  then show ?thesis
    using indexed_child [OF assms, of _ "textent E t"] flattens_toD [OF assms(2)] assms
    by (simp add: flattens_to_def bytes_groups groups_ne)
qed

lemma flatten_INDEXED:
  assumes "\<not> simple_type E t" "flattens_to E t bs" "nonempty bs" "bds \<noteq> []" "\<forall>(b, d) \<in> set bds. 1 \<le> b"
  shows "flattens_to E (INDEXED bds t) (groups (textent E t) (map (\<lambda>(b, d). (b, d * textent E t)) bds) bs)"
proof -
  define bds' where "bds' = map (\<lambda>(b, d). (b, d * textent E t)) bds"
  have ok: "bds' \<noteq> []" "\<forall>(b, d) \<in> set bds'. 1 \<le> b" "map fst bds' = map fst bds"
    "snd (hd bds') = snd (hd (bds @ [(0, 0)])) * textent E t"
    using assms(4,5) by (auto simp: bds'_def split_def hd_append hd_map)
  have H: "flattens_to E (HINDEXED bds' t) (groups (textent E t) bds' bs)"
    using flatten_HINDEXED [OF assms(1-3) ok(1,2)] .
  have "ADIOI_Flatten E (INDEXED bds t) st (a, cnt, c) =
      Some (put_at c (shift st (groups (textent E t) bds' bs)) a, cnt, c + length (groups (textent E t) bds' bs))"
    if "c + length (groups (textent E t) bds' bs) \<le> length a" for st a cnt c
    using indexed_child [OF assms(1-3) ok(1,2) that, of st cnt True "textent E t"] assms(1,4) ok(4)
    by (simp flip: bds'_def)
  moreover have "ADIOI_Count_contiguous_blocks E (INDEXED bds t) c = ADIOI_Count_contiguous_blocks E (HINDEXED bds' t) c" for c
    by (simp add: ok(3))
  moreover have "type_map E (INDEXED bds t) = type_map E (HINDEXED bds' t)"
    by (simp add: bds'_def o_def split_def)
  ultimately show ?thesis
    using H unfolding flattens_to_def by (simp only: bds'_def) blast
qed

lemma map_shift: "shift st (map f xs) = map (\<lambda>x. (fst (f x) + st, snd (f x))) xs"
  by (simp add: shift_def split_def)

lemma move_upto: "move d [i..j] = [d + i..d + j]"
  by (simp add: move_def upto_shift)

lemma flatten_HINDEXED_simple:
  assumes "type_laws E" "simple_type E t" "bds \<noteq> []" "\<forall>(b, d) \<in> set bds. 1 \<le> b"
  shows "flattens_to E (HINDEXED bds t) (map (\<lambda>(b, d). (d, b * tsize E t)) bds)"
proof -
  have "bytes_of_blocks (map (\<lambda>(b, d). (d, b * tsize E t)) bds) = type_map E (HINDEXED bds t)"
    using assms(4) by (induction bds) (auto simp: move_upto spread_simple [OF assms(1,2)] algebra_simps)
  then show ?thesis
    using assms by (simp add: flattens_to_def count_indexed_def flatten_indexed_def indexed_simple_ok
        map_shift split_def add.commute)
qed

lemma flatten_INDEXED_simple:
  assumes "type_laws E" "simple_type E t" "bds \<noteq> []" "\<forall>(b, d) \<in> set bds. 1 \<le> b"
  shows "flattens_to E (INDEXED bds t) (map (\<lambda>(b, d). (d * textent E t, b * tsize E t)) bds)"
proof -
  have "bytes_of_blocks (map (\<lambda>(b, d). (d * textent E t, b * tsize E t)) bds) = type_map E (INDEXED bds t)"
    using assms(4) by (induction bds) (auto simp: move_upto spread_simple [OF assms(1,2)] algebra_simps)
  moreover have "\<forall>(b, d) \<in> set (map (\<lambda>(b, d). (b, d * textent E t)) bds). 1 \<le> b"
    using assms(4) by auto
  ultimately show ?thesis
    using assms simple_typeD(2) [OF assms(1,2)]
    by (simp add: flattens_to_def count_indexed_def flatten_indexed_def indexed_simple_ok
        map_shift split_def add.commute o_def)
qed

text \<open>The two cases with one block length.\<close>

lemma groups_const: "groups ext (map (Pair b) ds) bs = concat (map (\<lambda>d. shift d (reps (nat b) ext bs)) ds)"
  by (simp add: groups_def o_def)

lemma length_groups_const: "length (groups ext (map (Pair b) ds) bs) = length ds * (nat b * length bs)"
  by (induction ds) (auto simp: groups_def)

lemma flatten_indexed_block_deep:
  assumes "C \<noteq> []" "1 \<le> b" "ds \<noteq> []" "c + length ds * (nat b * length C) \<le> length a"
  shows "flatten_indexed_block E b ds t st c (put_at c (shift (hd ds) C) a, cnt, c + length C) =
     Some (put_at c (groups (textent E t) (map (Pair b) ds) C) a, cnt, c + length ds * (nat b * length C))"
proof -
  obtain d0 rest where ds: "ds = d0 # rest" using assms(3) by (cases ds) auto
  define B where "B = shift d0 C"
  define R where "R = reps (nat b) (textent E t) B"
  define W where "W = concat (map (\<lambda>d. shift d (reps (nat b) (textent E t) C)) rest)"
  have n: "nat b = Suc (nat (b - 1))" using assms(2) by simp
  have len: "length B = length C" "length R = nat b * length C" "length W = length rest * length R"
    by (simp_all add: B_def R_def W_def) (induction rest; simp)
  have fits: "c + length R + length W \<le> length a" using assms(4) ds len by simp
  have "repeat_blocks (nat (b - 1)) (length C) (textent E t) (c + length C) (put_at c B a) = Some (put_at c R a, c + length R)"
    using repeat_after [of c "nat (b - 1)" B a "textent E t"] fits n len by (simp add: R_def)
  moreover have "R = shift d0 (reps (nat b) (textent E t) C)" by (simp add: R_def B_def)
  then have "block_groups (length R) d0 rest (c + length R) (put_at c R a) =
      Some (put_at (c + length R) W (put_at c R a), c + length R + length W)"
    using block_groups_ok [of "reps (nat b) (textent E t) C" "length R" "c + length R" "put_at c R a" d0 rest]
      segment_put_at_same [of c R a] fits len by (simp add: W_def)
  moreover have "R @ W = groups (textent E t) (map (Pair b) ds) C"
    by (simp only: groups_const ds) (simp add: R_def B_def W_def)
  ultimately show ?thesis
    using assms(1) fits len put_at_put_at [of c R W a]
    by (simp add: flatten_indexed_block_def ds flip: B_def)
qed

lemma indexed_block_child:
  assumes "\<not> simple_type E t" "flattens_to E t bs" "1 \<le> b" "ds \<noteq> []"
    and room: "c + length (groups (textent E t) (map (Pair b) ds) bs) \<le> length a"
  shows "Option.bind (flatten_child E t (st + hd ds) (a, cnt, c)) (flatten_indexed_block E b ds t st c) =
     Some (put_at c (shift st (groups (textent E t) (map (Pair b) ds) bs)) a, cnt,
           c + length (groups (textent E t) (map (Pair b) ds) bs))"
proof -
  have "1 * (1 * length bs) \<le> length ds * (nat b * length bs)"
    using assms(3,4) by (intro mult_le_mono) (auto simp: Suc_le_eq)
  then have "c + length bs \<le> length a" using room unfolding length_groups_const by linarith
  then have "flatten_child E t (st + hd ds) (a, cnt, c) =
      Some (put_at c (shift (hd ds) (shift st bs)) a, cnt, c + length bs)"
    using flattens_toD(4) [OF assms(2)] assms(1) by (simp add: add.commute)
  then show ?thesis
    using flatten_indexed_block_deep [of "shift st bs" b ds c a E t st cnt] assms flattens_toD(1) [OF assms(2)]
    by (simp add: length_groups_const del: length_groups)
qed

lemma count_indexed_block_ok:
  "1 \<le> b \<Longrightarrow> 0 < k \<Longrightarrow> 0 < n \<Longrightarrow> count_indexed_block (int n) b c (int k, c + int k) =
     (int (n * (nat b * k)), c + int (n * (nat b * k)))"
  by (simp add: count_indexed_block_def Let_def algebra_simps)

lemma flatten_HINDEXED_BLOCK:
  assumes "\<not> simple_type E t" "flattens_to E t bs" "1 \<le> b" "ds \<noteq> []"
  shows "flattens_to E (HINDEXED_BLOCK b ds t) (groups (textent E t) (map (Pair b) ds) bs)"
proof -
  note D = flattens_toD [OF assms(2)]
  have "\<forall>(b, d) \<in> set (map (Pair b) ds). 1 \<le> b" using assms(3) by auto
  note B = bytes_groups [OF this, of "textent E t" bs] groups_ne [OF _ this D(1), of "textent E t"]
  have "count_indexed_block (int (length ds)) b c (int (length bs), c + int (length bs)) =
      (int (length (groups (textent E t) (map (Pair b) ds) bs)), c + int (length (groups (textent E t) (map (Pair b) ds) bs)))" for c
    using count_indexed_block_ok [of b "length bs" "length ds" c] assms D(1) unfolding length_groups_const by simp
  then show ?thesis
    using indexed_block_child [OF assms] D assms B
    by (simp add: flattens_to_def o_def del: length_groups)
qed

lemma flatten_INDEXED_BLOCK:
  assumes "\<not> simple_type E t" "flattens_to E t bs" "1 \<le> b" "ds \<noteq> []"
  shows "flattens_to E (INDEXED_BLOCK b ds t) (groups (textent E t) (map (\<lambda>d. (b, d * textent E t)) ds) bs)"
proof -
  define ds' where "ds' = map (\<lambda>d. d * textent E t) ds"
  have ok: "ds' \<noteq> []" "hd ds' = hd (ds @ [0]) * textent E t" "map (Pair b) ds' = map (\<lambda>d. (b, d * textent E t)) ds"
    using assms(4) by (auto simp: ds'_def hd_map)
  have H: "flattens_to E (HINDEXED_BLOCK b ds' t) (groups (textent E t) (map (Pair b) ds') bs)"
    using flatten_HINDEXED_BLOCK [OF assms(1-3) ok(1)] .
  have "ADIOI_Flatten E (INDEXED_BLOCK b ds t) st (a, cnt, c) = ADIOI_Flatten E (HINDEXED_BLOCK b ds' t) st (a, cnt, c)" for st a cnt c
    using ok assms(4) by (simp flip: ds'_def)
  moreover have "ADIOI_Count_contiguous_blocks E (INDEXED_BLOCK b ds t) c = ADIOI_Count_contiguous_blocks E (HINDEXED_BLOCK b ds' t) c" for c
    by (simp add: ds'_def)
  moreover have "type_map E (INDEXED_BLOCK b ds t) = type_map E (HINDEXED_BLOCK b ds' t)"
    by (simp add: ds'_def o_def)
  ultimately show ?thesis
    using H unfolding flattens_to_def ok(3) by simp
qed

lemma flatten_HINDEXED_BLOCK_simple:
  assumes "type_laws E" "simple_type E t" "0 \<le> b" "ds \<noteq> []"
  shows "flattens_to E (HINDEXED_BLOCK b ds t) (map (\<lambda>d. (d, b * tsize E t)) ds)"
proof -
  have "bytes_of_blocks (map (\<lambda>d. (d, b * tsize E t)) ds) = type_map E (HINDEXED_BLOCK b ds t)"
    by (induction ds) (auto simp: move_upto spread_simple [OF assms(1-3)] algebra_simps)
  then show ?thesis
    using assms simple_typeD(2) [OF assms(1,2)]
    by (simp add: flattens_to_def count_indexed_block_def flatten_indexed_block_def write_blocks_ok
        map_shift add.commute)
qed

lemma flatten_INDEXED_BLOCK_simple:
  assumes "type_laws E" "simple_type E t" "0 \<le> b" "ds \<noteq> []"
  shows "flattens_to E (INDEXED_BLOCK b ds t) (map (\<lambda>d. (d * textent E t, b * tsize E t)) ds)"
proof -
  have "bytes_of_blocks (map (\<lambda>d. (d * textent E t, b * tsize E t)) ds) = type_map E (INDEXED_BLOCK b ds t)"
    by (induction ds) (auto simp: move_upto spread_simple [OF assms(1-3)] algebra_simps)
  then show ?thesis
    using assms simple_typeD(2) [OF assms(1,2)]
    by (simp add: flattens_to_def count_indexed_block_def flatten_indexed_block_def write_blocks_ok
        map_shift add.commute o_def)
qed

text \<open>Members of a structure, one after the other.\<close>

definition struct_to :: "type_env \<Rightarrow> (int \<times> int \<times> mpi_type) list \<Rightarrow> blocks \<Rightarrow> bool" where
  "struct_to E ms bs \<longleftrightarrow> bytes_of_blocks bs = type_map E (STRUCT ms) \<and>
     (\<forall>n c. count_struct E ms n c = Some (n + int (length bs), c + int (length bs))) \<and>
     (\<forall>st a cnt c. c + length bs \<le> length a \<longrightarrow>
        flatten_struct E ms st (a, cnt, c) = Some (put_at c (shift st bs) a, cnt, c + length bs))"

lemma struct_to_Nil: "struct_to E [] []"
  by (simp add: struct_to_def)

lemma struct_to_simple:
  assumes "type_laws E" "simple_type E t" "0 < b \<or> t = MPI_LB \<or> t = MPI_UB" "struct_to E ms bs"
  shows "struct_to E ((b, d, t) # ms) ((d, b * tsize E t) # bs)"
proof -
  have S: "flatten_struct E ms st (a, cnt, c) = Some (put_at c (shift st bs) a, cnt, c + length bs)"
    if "c + length bs \<le> length a" for st a cnt c
    using assms(4) that by (simp add: struct_to_def)
  have "flatten_struct E ((b, d, t) # ms) st (a, cnt, c) =
      Some (put_at c (shift st ((d, b * tsize E t) # bs)) a, cnt, c + length ((d, b * tsize E t) # bs))"
    if "c + length ((d, b * tsize E t) # bs) \<le> length a" for st a cnt c
    using that assms(2,3) S [of "Suc c" "put_at c [(st + d, b * tsize E t)] a" st cnt]
      put_at_put_at [of c "[(st + d, b * tsize E t)]" "shift st bs" a]
    by (auto simp: flatten_member_def put_block_at add.commute)
  moreover have "type_map E t = []" "tsize E t = 0" if "t = MPI_LB \<or> t = MPI_UB"
    using that assms(1) by (auto simp: type_laws_def)
  then have "[d..d + b * tsize E t - 1] = move d (spread b (textent E t) (type_map E t))"
    using assms(3) spread_simple [OF assms(1,2), of b]
    by (cases "0 < b") (auto simp: move_upto spread_def algebra_simps)
  ultimately show ?thesis
    using assms(2,4) by (simp add: struct_to_def add.assoc)
qed

lemma struct_to_deep:
  assumes "\<not> simple_type E t" "flattens_to E t cs" "1 \<le> b" "struct_to E ms bs"
  shows "struct_to E ((b, d, t) # ms) (reps (nat b) (textent E t) (shift d cs) @ bs)"
proof -
  note D = flattens_toD [OF assms(2)]
  define R where "R = reps (nat b) (textent E t) (shift d cs)"
  have n: "nat b = Suc (nat (b - 1))" using assms(3) by simp
  have len: "length R = nat b * length cs" by (simp add: R_def)
  have S: "flatten_struct E ms st (a, cnt, c) = Some (put_at c (shift st bs) a, cnt, c + length bs)"
    if "c + length bs \<le> length a" for st a cnt c
    using assms(4) that by (simp add: struct_to_def)
  have "flatten_struct E ((b, d, t) # ms) st (a, cnt, c) =
      Some (put_at c (shift st (R @ bs)) a, cnt, c + length (R @ bs))"
    if room: "c + length (R @ bs) \<le> length a" for st a cnt c
  proof -
    have "c + length cs \<le> length a" using room len n by simp
    then have "flatten_child E t (st + d) (a, cnt, c) = Some (put_at c (shift (st + d) cs) a, cnt, c + length cs)"
      using D(4) assms(1) by simp
    moreover have "flatten_member E b d t st c (put_at c (shift (st + d) cs) a, cnt, c + length cs)
        = Some (put_at c (shift st R) a, cnt, c + length R)"
      using repeat_after [of c "nat (b - 1)" "shift (st + d) cs" a "textent E t"] room len n D(1)
      by (simp add: flatten_member_def R_def add.left_commute)
    moreover have "put_at (c + length R) (shift st bs) (put_at c (shift st R) a) = put_at c (shift st (R @ bs)) a"
      using put_at_put_at [of c "shift st R" "shift st bs" a] room by simp
    ultimately show ?thesis
      using S [of "c + length R" "put_at c (shift st R) a" st cnt] assms(1) room by simp
  qed
  moreover have "count_struct E ((b, d, t) # ms) k c = Some (k + int (length (R @ bs)), c + int (length (R @ bs)))" for k c
  proof -
    have "c \<noteq> c + int (length cs)" using D(1) by simp
    moreover have "int (length cs) + (b - 1) * int (length cs) = int (length R)"
      using assms(3) len by (simp add: algebra_simps)
    ultimately show ?thesis
      using D(3) [of c] assms(1,4) by (simp add: struct_to_def add.assoc)
  qed
  moreover have "bytes_of_blocks R = move d (spread b (textent E t) (type_map E t))"
    using assms(3) D(2) by (simp add: R_def bytes_reps_nat spread_move)
  ultimately show ?thesis
    using assms(4) by (simp add: struct_to_def flip: R_def)
qed

lemma flatten_STRUCT: "struct_to E ms bs \<Longrightarrow> bs \<noteq> [] \<Longrightarrow> flattens_to E (STRUCT ms) bs"
  by (simp add: struct_to_def flattens_to_def)

text \<open>The data of a resized type stands between two markers.\<close>

lemma flatten_RESIZED_simple:
  assumes "type_laws E" "simple_type E t"
  shows "flattens_to E (RESIZED lb ext t) [(lb, 0), (0, tsize E t), (lb + ext, 0)]"
proof -
  have "ADIOI_Flatten E (RESIZED lb ext t) st (a, cnt, c) =
      Some (put_at c (shift st [(lb, 0), (0, tsize E t), (lb + ext, 0)]) a, cnt, c + 3)"
    if "c + 3 \<le> length a" for st a cnt c
    using that assms(2) put_at_put_at [of c "[(st + lb, 0)]" "[(st, tsize E t)]" a]
      put_at_put_at [of c "[(st + lb, 0), (st, tsize E t)]" "[(st + lb + ext, 0)]" a]
    by (simp add: put_block_at add.commute add.left_commute)
  then show ?thesis
    using assms simple_typeD(3) [OF assms] by (simp add: flattens_to_def)
qed

lemma flatten_RESIZED:
  assumes "\<not> simple_type E t" "flattens_to E t bs"
  shows "flattens_to E (RESIZED 0 ext t) ((0, 0) # bs @ [(ext, 0)])"
proof -
  note D = flattens_toD [OF assms(2)]
  have "ADIOI_Flatten E (RESIZED 0 ext t) st (a, cnt, c) =
      Some (put_at c (shift st ((0, 0) # bs @ [(ext, 0)])) a, cnt, c + (length bs + 2))"
    if "c + (length bs + 2) \<le> length a" for st a cnt c
    using that assms(1) D(4) [of "Suc c" "put_at c [(st, 0)] a" st cnt]
      put_at_put_at [of c "[(st, 0)]" "shift st bs" a]
      put_at_put_at [of c "(st, 0) # shift st bs" "[(st + ext, 0)]" a]
    by (simp add: put_block_at add.commute)
  then show ?thesis
    using assms(1) D(2,3) by (simp add: flattens_to_def)
qed

section \<open>Regular types\<close>

text \<open>
  The types flattening is right for. Counts and block lengths are positive wherever the old type
  has to be flattened itself; over a simple type only the counts are. A duplicate is of a type
  that is not contiguous (the duplicate of a contiguous type is contiguous), a resized type that
  is not contiguous keeps its lower bound at 0, and no indexed type is built over a type with
  markers: \<open>markerless\<close> types have no empty blocks. What the code does on other types is shown
  at the end of this theory.
\<close>

function (sequential) markerless :: "type_env \<Rightarrow> mpi_type \<Rightarrow> bool" where
  "markerless E (DUP t) = markerless E t"
| "markerless E (CONTIGUOUS n t) = (if simple_type E t then 0 < n * tsize E t else markerless E t)"
| "markerless E (VECTOR n b s t) = (if simple_type E t then 0 < b * tsize E t else markerless E t)"
| "markerless E (HVECTOR n b s t) = (if simple_type E t then 0 < b * tsize E t else markerless E t)"
| "markerless E (INDEXED bds t) = (if simple_type E t then 0 < tsize E t else markerless E t)"
| "markerless E (HINDEXED bds t) = (if simple_type E t then 0 < tsize E t else markerless E t)"
| "markerless E (INDEXED_BLOCK b ds t) = (if simple_type E t then 0 < b * tsize E t else markerless E t)"
| "markerless E (HINDEXED_BLOCK b ds t) = (if simple_type E t then 0 < b * tsize E t else markerless E t)"
| "markerless E (STRUCT ms) =
     (\<forall>(b, d, t) \<in> set ms. if simple_type E t then 0 < b * tsize E t else markerless E t)"
| "markerless E _ = False"
  by pat_completeness auto
termination
  by (relation "measure (\<lambda>(E, t). tdepth t)") (auto simp: less_Suc_eq_le intro: max_depth_member)

function (sequential) regular :: "type_env \<Rightarrow> mpi_type \<Rightarrow> bool" where
  "regular E (DUP t) \<longleftrightarrow> \<not> simple_type E t \<and> regular E t"
| "regular E (CONTIGUOUS n t) \<longleftrightarrow> (if simple_type E t then 0 \<le> n else 1 \<le> n \<and> regular E t)"
| "regular E (VECTOR n b s t) \<longleftrightarrow> 1 \<le> n \<and> (if simple_type E t then 0 \<le> b else 1 \<le> b \<and> regular E t)"
| "regular E (HVECTOR n b s t) \<longleftrightarrow> 1 \<le> n \<and> (if simple_type E t then 0 \<le> b else 1 \<le> b \<and> regular E t)"
| "regular E (INDEXED bds t) \<longleftrightarrow> bds \<noteq> [] \<and> (\<forall>(b, d) \<in> set bds. 1 \<le> b) \<and>
     (if simple_type E t then True else regular E t \<and> markerless E t)"
| "regular E (HINDEXED bds t) \<longleftrightarrow> bds \<noteq> [] \<and> (\<forall>(b, d) \<in> set bds. 1 \<le> b) \<and>
     (if simple_type E t then True else regular E t \<and> markerless E t)"
| "regular E (INDEXED_BLOCK b ds t) \<longleftrightarrow> ds \<noteq> [] \<and> (if simple_type E t then 0 \<le> b else 1 \<le> b \<and> regular E t)"
| "regular E (HINDEXED_BLOCK b ds t) \<longleftrightarrow> ds \<noteq> [] \<and> (if simple_type E t then 0 \<le> b else 1 \<le> b \<and> regular E t)"
| "regular E (STRUCT ms) \<longleftrightarrow> ms \<noteq> [] \<and>
     (\<forall>(b, d, t) \<in> set ms. if simple_type E t then 0 < b \<or> t = MPI_LB \<or> t = MPI_UB else 1 \<le> b \<and> regular E t)"
| "regular E (RESIZED lb ext t) \<longleftrightarrow> (if simple_type E t then True else lb = 0 \<and> regular E t)"
| "regular E (SUBARRAY dims f t) \<longleftrightarrow>
     (case ADIO_Type_create_subarray E dims f t of None \<Rightarrow> False | Some s \<Rightarrow> regular E s)"
| "regular E (DARRAY n r dims f t) \<longleftrightarrow>
     (case ADIO_Type_create_darray E n r dims f t of None \<Rightarrow> False | Some s \<Rightarrow> regular E s)"
| "regular E _ \<longleftrightarrow> False"
  by pat_completeness auto
termination
  by (relation "measure (\<lambda>(E, t). tdepth t)")
    (auto simp del: tdepth.simps(11,12) simp: less_Suc_eq_le
      intro: max_depth_member tdepth_subarray tdepth_darray)

text \<open>What is shown of a type by induction: it flattens, without empty blocks if it is markerless.\<close>

definition flattens :: "type_env \<Rightarrow> mpi_type \<Rightarrow> bool" where
  "flattens E t \<longleftrightarrow> (\<exists>bs. flattens_to E t bs \<and> nonneg bs \<and> (markerless E t \<longrightarrow> nonempty bs))"

lemma flattensI: "flattens_to E t bs \<Longrightarrow> nonneg bs \<Longrightarrow> (markerless E t \<Longrightarrow> nonempty bs) \<Longrightarrow> flattens E t"
  by (auto simp: flattens_def)

lemma flattensE:
  assumes "flattens E t"
  obtains bs where "flattens_to E t bs" "nonneg bs" "markerless E t \<Longrightarrow> nonempty bs"
  using assms by (auto simp: flattens_def)

lemma struct_flattens:
  assumes "type_laws E"
    and "\<forall>(b, d, t) \<in> set ms. if simple_type E t then 0 < b \<or> t = MPI_LB \<or> t = MPI_UB else 1 \<le> b \<and> flattens E t"
  shows "\<exists>bs. struct_to E ms bs \<and> (ms \<noteq> [] \<longrightarrow> bs \<noteq> []) \<and> nonneg bs \<and>
     (markerless E (STRUCT ms) \<longrightarrow> nonempty bs)"
  using assms(2)
proof (induction ms)
  case (Cons m ms)
  obtain b d t where m: "m = (b, d, t)" by (cases m)
  have "\<forall>(b, d, t) \<in> set ms. if simple_type E t then 0 < b \<or> t = MPI_LB \<or> t = MPI_UB else 1 \<le> b \<and> flattens E t"
    using Cons.prems by simp
  then obtain bs where bs: "struct_to E ms bs" "markerless E (STRUCT ms) \<Longrightarrow> nonempty bs" "nonneg bs"
    using Cons.IH by blast
  show ?case
  proof (cases "simple_type E t")
    case True
    then have "struct_to E (m # ms) ((d, b * tsize E t) # bs)"
      using struct_to_simple [OF assms(1) True _ bs(1)] Cons.prems m by simp
    moreover have "0 \<le> b * tsize E t"
      using True simple_typeD(1) [OF assms(1) True] Cons.prems m assms(1) by (auto simp: type_laws_def)
    ultimately show ?thesis
      using True bs(2,3) m by (intro exI [of _ "(d, b * tsize E t) # bs"]) simp
  next
    case False
    then obtain cs where cs: "flattens_to E t cs" "markerless E t \<Longrightarrow> nonempty cs" "nonneg cs" and b: "1 \<le> b"
      using Cons.prems m by (auto elim: flattensE)
    have "struct_to E (m # ms) (reps (nat b) (textent E t) (shift d cs) @ bs)"
      using struct_to_deep [OF False cs(1) b bs(1)] m by simp
    moreover have "reps (nat b) (textent E t) (shift d cs) \<noteq> []"
      using flattens_toD(1) [OF cs(1)] b by (simp flip: length_greater_0_conv)
    ultimately show ?thesis
      using False bs(2,3) cs(2,3) m by (intro exI [of _ "reps (nat b) (textent E t) (shift d cs) @ bs"]) simp
  qed
qed (auto intro!: exI [of _ "[]"] struct_to_Nil)

lemma nonempty_const [simp]:
  "0 < k \<Longrightarrow> nonempty (map (\<lambda>d. (f d, k)) ds)"
  "0 \<le> k \<Longrightarrow> nonneg (map (\<lambda>d. (f d, k)) ds)"
  by (induction ds) auto

lemma flattens_cong:
  "ADIO_Type_create_subarray E dims f t = Some s \<Longrightarrow> flattens E s \<Longrightarrow> flattens E (SUBARRAY dims f t)"
  "ADIO_Type_create_darray E n r ddims f t = Some s \<Longrightarrow> flattens E s \<Longrightarrow> flattens E (DARRAY n r ddims f t)"
  by (auto simp: flattens_def flattens_to_def)

lemma nonempty_indexed:
  "\<forall>(b, d) \<in> set bds. 1 \<le> b \<Longrightarrow> 0 < k \<Longrightarrow> nonempty (map (\<lambda>(b, d). (f d, b * k)) bds)"
  "\<forall>(b, d) \<in> set bds. 1 \<le> b \<Longrightarrow> 0 \<le> k \<Longrightarrow> nonneg (map (\<lambda>(b, d). (f d, b * k)) bds)"
  by (induction bds) auto

lemma flattens_indexed:
  assumes "type_laws E" "bds \<noteq> []" "\<forall>(b, d) \<in> set bds. 1 \<le> b"
    and "\<not> simple_type E u \<Longrightarrow> flattens E u \<and> markerless E u"
  shows "flattens E (INDEXED bds u)" and "flattens E (HINDEXED bds u)"
proof -
  have "flattens E (INDEXED bds u) \<and> flattens E (HINDEXED bds u)"
  proof (cases "simple_type E u")
    case True
    then show ?thesis
      using flattensI [OF flatten_INDEXED_simple [OF assms(1) True assms(2,3)]]
        flattensI [OF flatten_HINDEXED_simple [OF assms(1) True assms(2,3)]]
        nonempty_indexed [OF assms(3), of "tsize E u"] simple_typeD(1) [OF assms(1) True] by simp
  next
    case False
    then obtain bs where "flattens_to E u bs" "nonempty bs" "nonneg bs"
      using assms(4) by (auto elim: flattensE)
    then show ?thesis
      using flattensI [OF flatten_INDEXED [OF False _ _ assms(2,3)]]
        flattensI [OF flatten_HINDEXED [OF False _ _ assms(2,3)]] by simp
  qed
  then show "flattens E (INDEXED bds u)" "flattens E (HINDEXED bds u)" by simp_all
qed

lemma regular_flattens:
  assumes laws: "type_laws E"
  shows "regular E t \<Longrightarrow> flattens E t"
proof (induction "tdepth t" arbitrary: t rule: less_induct)
  case less
  note size = simple_typeD(1) [OF laws]
  have IH: "flattens E u" if "tdepth u < tdepth t" "regular E u" for u
    using less.hyps [OF that(1) that(2)] .
  show ?case
  proof (cases t)
    case (DUP u)
    then show ?thesis using less.prems IH [of u] by (auto simp: size elim!: flattensE intro: flattensI flatten_DUP)
  next
    case (CONTIGUOUS n u)
    then show ?thesis using less.prems IH [of u] laws
      by (cases "simple_type E u")
        (auto simp: size elim!: flattensE intro: flattensI flatten_CONTIGUOUS_simple flatten_CONTIGUOUS)
  next
    case (VECTOR n b s u)
    then show ?thesis using less.prems IH [of u] laws
      by (cases "simple_type E u")
        (auto simp: size elim!: flattensE intro: flattensI flatten_VECTOR_simple flatten_HVECTOR)
  next
    case (HVECTOR n b s u)
    then show ?thesis using less.prems IH [of u] laws
      by (cases "simple_type E u")
        (auto simp: size elim!: flattensE intro: flattensI flatten_HVECTOR_simple flatten_HVECTOR)
  next
    case (INDEXED bds u)
    then show ?thesis using less.prems IH [of u]
      by (auto intro: flattens_indexed [OF laws] split: if_splits)
  next
    case (HINDEXED bds u)
    then show ?thesis using less.prems IH [of u]
      by (auto intro: flattens_indexed [OF laws] split: if_splits)
  next
    case (INDEXED_BLOCK b ds u)
    then show ?thesis using less.prems IH [of u] laws
      by (cases "simple_type E u")
        (auto simp: size elim!: flattensE intro: flattensI flatten_INDEXED_BLOCK_simple flatten_INDEXED_BLOCK)
  next
    case (HINDEXED_BLOCK b ds u)
    then show ?thesis using less.prems IH [of u] laws
      by (cases "simple_type E u")
        (auto simp: size elim!: flattensE intro: flattensI flatten_HINDEXED_BLOCK_simple flatten_HINDEXED_BLOCK)
  next
    case (STRUCT ms)
    then have "\<forall>(b, d, u) \<in> set ms. if simple_type E u then 0 < b \<or> u = MPI_LB \<or> u = MPI_UB else 1 \<le> b \<and> flattens E u"
      using less.prems IH by (fastforce dest: max_depth_member)
    then show ?thesis
      using struct_flattens [OF laws] less.prems STRUCT by (fastforce intro: flattensI flatten_STRUCT)
  next
    case (RESIZED lb ext u)
    then show ?thesis using less.prems IH [of u] laws
      by (cases "simple_type E u")
        (auto simp: size elim!: flattensE intro: flattensI flatten_RESIZED_simple flatten_RESIZED)
  next
    case (SUBARRAY dims f u)
    then show ?thesis using less.prems IH tdepth_subarray [of E dims f u]
      by (auto intro: flattens_cong split: option.splits)
  next
    case (DARRAY n r dims f u)
    then show ?thesis using less.prems IH tdepth_darray [of E n r dims f u]
      by (auto intro: flattens_cong split: option.splits)
  qed (use less.prems in auto)
qed

section \<open>Merging\<close>

text \<open>The list \<open>ADIOI_Optimize_flattened\<close> computes: \<open>(x, y)\<close> is the block being extended.\<close>

fun merged :: "int \<times> int \<Rightarrow> blocks \<Rightarrow> blocks" where
  "merged b [] = [b]"
| "merged (x, y) ((i, l) # bs) = (if x + y = i then merged (x, y + l) bs else (x, y) # merged (i, l) bs)"

definition apart :: "int \<times> int \<Rightarrow> int \<times> int \<Rightarrow> bool" where
  "apart b b' \<longleftrightarrow> fst b + snd b \<noteq> fst b'"

lemma length_merged: "length (merged b bs) \<le> Suc (length bs)"
  by (induction b bs rule: merged.induct) auto

lemma merged_same: "length (merged b bs) = Suc (length bs) \<Longrightarrow> merged b bs = b # bs"
proof (induction b bs rule: merged.induct)
  case (2 x y i l bs)
  then show ?case using length_merged [of "(x, y + l)" bs] by (auto split: if_splits)
qed simp

lemma merged_ne [simp]: "merged b bs \<noteq> []"
  by (induction b bs rule: merged.induct) auto

lemma hd_merged: "fst (hd (merged (x, y) bs)) = x"
  by (induction "(x, y)" bs arbitrary: x y rule: merged.induct) auto

lemma merged_apart: "successively apart (merged (x, y) bs)"
proof (induction "(x, y)" bs arbitrary: x y rule: merged.induct)
  case (2 x y i l bs)
  then show ?case using hd_merged [of i l bs] by (simp add: successively_Cons apart_def)
qed simp

lemma bytes_merged:
  "0 \<le> y \<Longrightarrow> nonneg bs \<Longrightarrow> bytes_of_blocks (merged (x, y) bs) = [x..x + y - 1] @ bytes_of_blocks bs"
proof (induction "(x, y)" bs arbitrary: x y rule: merged.induct)
  case (2 x y i l bs)
  have "[x..x + y - 1] @ [x + y..x + y + l - 1] = [x..x + (y + l) - 1]"
  proof (cases "l = 0")
    case False
    then show ?thesis
      using "2.prems" upto_split1 [of x "x + y" "x + (y + l) - 1"] by (simp add: algebra_simps)
  qed (use "2.prems" in simp)
  then show ?case using 2 by auto
qed simp

lemma nonneg_merged: "0 \<le> y \<Longrightarrow> nonneg bs \<Longrightarrow> nonneg (merged (x, y) bs)"
  by (induction "(x, y)" bs arbitrary: x y rule: merged.induct) auto

lemma opt_count_merged: "x + y = i + l \<Longrightarrow> opt_count ((i, l) # bs) = length (merged (x, y) bs)"
proof (induction bs arbitrary: x y i l)
  case (Cons b bs)
  obtain i' l' where b: "b = (i', l')" by force
  then show ?case
    using Cons.IH [of x "y + l'" i' l'] Cons.IH [of i' l' i' l'] Cons.prems by auto
qed simp

lemma opt_fill_merged:
  "x + y = i + l \<Longrightarrow> j + length (merged (x, y) bs) \<le> length out \<Longrightarrow> out ! j = (x, y) \<Longrightarrow>
   opt_fill ((i, l) # bs) j out = Some (put_at j (merged (x, y) bs) out)"
proof (induction bs arbitrary: x y i l j out)
  case Nil
  then show ?case
    by (simp add: put_at_def) (metis Cons_nth_drop_Suc Suc_le_lessD append_take_drop_id)
next
  case (Cons b bs)
  obtain i' l' where b: "b = (i', l')" by force
  have pos: "0 < length (merged p bs)" for p by simp
  show ?case
  proof (cases "i + l = i'")
    case True
    have fits: "j + length (merged (x, y + l') bs) \<le> length out"
      using Cons.prems(1,2) True b by simp
    then have j: "j < length out" using pos [of "(x, y + l')"] by linarith
    have "opt_fill ((i', l') # bs) j (put_at j [(x, y + l')] out)
        = Some (put_at j (merged (x, y + l') bs) (put_at j [(x, y + l')] out))"
      using Cons.IH [of x "y + l'" i' l' j "put_at j [(x, y + l')] out"] Cons.prems(1) True fits j
      by (simp add: nth_put_at)
    moreover have "put_at j (merged (x, y + l') bs) (put_at j [(x, y + l')] out) = put_at j (merged (x, y + l') bs) out"
      using fits by (simp add: put_at_over)
    ultimately show ?thesis
      using Cons.prems True j b by (simp add: get_block_def put_block_at)
  next
    case False
    then have ne: "x + y \<noteq> i'" using Cons.prems(1) by simp
    have fits: "Suc j + length (merged (i', l') bs) \<le> length out"
      using Cons.prems(2) ne b by simp
    then have j: "Suc j < length out" using pos [of "(i', l')"] by linarith
    have "opt_fill ((i', l') # bs) (Suc j) (put_at (Suc j) [(i', l')] out)
        = Some (put_at (Suc j) (merged (i', l') bs) (put_at (Suc j) [(i', l')] out))"
      using Cons.IH [of i' l' i' l' "Suc j" "put_at (Suc j) [(i', l')] out"] fits j
      by (simp add: nth_put_at)
    moreover have "put_at (Suc j) (merged (i', l') bs) (put_at (Suc j) [(i', l')] out) = put_at (Suc j) (merged (i', l') bs) out"
      using fits by (simp add: put_at_over)
    moreover have "put_at (Suc j) (merged (i', l') bs) out = put_at j ((x, y) # merged (i', l') bs) out"
      using Cons.prems(3) j by (simp add: put_at_def take_Suc_conv_app_nth)
    ultimately show ?thesis
      using False ne j b by (simp add: put_block_at)
  qed
qed

lemma optimize_merged:
  "ADIOI_Optimize_flattened fresh (int (Suc (length bs)), b # bs) = Some (int (length (merged b bs)), merged b bs)"
proof -
  obtain i l where b: "b = (i, l)" by force
  have n: "opt_count (b # bs) = length (merged b bs)" using opt_count_merged [of i l i l bs] b by simp
  define new where "new = map fresh [0..<length (merged b bs)]"
  have pos: "Suc 0 \<le> length (merged b bs)" by (simp add: Suc_le_eq)
  have len: "length new = length (merged b bs)" by (simp add: new_def)
  have "put_at 0 [b] new ! 0 = b"
    by (simp add: put_at_def)
  moreover have "length (put_at 0 [b] new) = length new"
    using len pos by (intro length_put_at) simp
  ultimately have "opt_fill (b # bs) 0 (put_at 0 [b] new) = Some (put_at 0 (merged b bs) (put_at 0 [b] new))"
    using opt_fill_merged [of i l i l 0 bs "put_at 0 [b] new"] b len by simp
  moreover have "put_at 0 (merged b bs) (put_at 0 [b] new) = merged b bs"
    using len put_at_over [of "merged b bs" 0 new b] by (simp add: put_at_def)
  moreover have "put_block new 0 b = Some (put_at 0 [b] new)"
    using len pos by (intro put_block_at) simp
  ultimately show ?thesis
    using n merged_same [of b bs] by (simp add: ADIOI_Optimize_flattened_def Let_def flip: new_def)
qed

section \<open>A build without a contiguity test of its own\<close>

text \<open>
  The contiguity test of \<open>iscontig.c\<close> satisfies the laws: an environment over basic types of given
  widths, with the sizes and extents of the MPI standard for the combiners used below.
\<close>

fun std_extent :: "(int \<Rightarrow> nat) \<Rightarrow> mpi_type \<Rightarrow> int" where
  "std_extent w (NAMED h) = int (w h)"
| "std_extent w (DUP t) = std_extent w t"
| "std_extent w (CONTIGUOUS n t) = max 0 n * std_extent w t"
| "std_extent w (VECTOR n b s t) = ((n - 1) * s + b) * std_extent w t"
| "std_extent w (HVECTOR n b s t) = (n - 1) * s + b * std_extent w t"
| "std_extent w (RESIZED lb ext t) = ext"
| "std_extent w _ = 0"

fun std_size :: "(int \<Rightarrow> nat) \<Rightarrow> mpi_type \<Rightarrow> int" where
  "std_size w (NAMED h) = int (w h)"
| "std_size w (DUP t) = std_size w t"
| "std_size w (CONTIGUOUS n t) = max 0 n * std_size w t"
| "std_size w (VECTOR n b s t) = max 0 n * max 0 b * std_size w t"
| "std_size w (HVECTOR n b s t) = max 0 n * max 0 b * std_size w t"
| "std_size w (RESIZED lb ext t) = std_size w t"
| "std_size w _ = 0"

definition std_env :: "(int \<Rightarrow> nat) \<Rightarrow> type_env" where
  "std_env w = \<lparr>tsize = std_size w, textent = std_extent w, tcontig = ADIOI_Datatype_iscontig\<rparr>"

lemma std_env_simps [simp]:
  "tsize (std_env w) = std_size w"
  "textent (std_env w) = std_extent w"
  "tcontig (std_env w) = ADIOI_Datatype_iscontig"
  by (simp_all add: std_env_def)

lemma iscontig_sound:
  "ADIOI_Datatype_iscontig t \<Longrightarrow>
   0 \<le> std_size w t \<and> std_extent w t = std_size w t \<and> type_map (std_env w) t = [0..std_size w t - 1]"
proof (induction t)
  case (CONTIGUOUS n t)
  then show ?case
    using spread_upto [of "std_size w t" "nat n"] by (cases "0 \<le> n") auto
qed auto

lemma std_env_laws: "type_laws (std_env w)"
  using iscontig_sound [of _ w] by (auto simp: type_laws_def elim: is_named.elims)

section \<open>The properties\<close>


definition demo_type :: mpi_type where
  "demo_type = STRUCT [(1, 0, MPI_LB), (2, 8, INDEXED [(2, 0), (1, 7)] (VECTOR 2 1 2 (NAMED 0))),
     (1, 400, SUBARRAY [(4, 2, 1), (6, 3, 2)] False (NAMED 0)), (1, 800, MPI_UB)]"

lemma demo_type_regular: "regular (std_env (\<lambda>_. 4)) demo_type"
  by (simp add: demo_type_def simple_type_def ADIO_Type_create_subarray_def)


lemma flatten_datatype_ok:
  assumes "type_laws E" "regular E t" "\<not> tcontig E t" "nodes \<noteq> []" "h \<notin> fhandle_of ` set nodes"
  shows "\<exists>bs. ADIOI_Flatten_datatype E fresh h t nodes =
       Some (nodes @ [\<lparr>fhandle_of = h, fcount = int (length bs), fblocks = bs\<rparr>]) \<and>
     bytes_of_blocks bs = type_map E t \<and> nonneg bs \<and> successively apart bs"
proof -
  obtain bs where bs: "flattens_to E t bs" "nonneg bs"
    using regular_flattens [OF assms(1,2)] by (auto elim: flattensE)
  note D = flattens_toD [OF bs(1)]
  obtain x y cs where cs: "bs = (x, y) # cs" using D(1) by (cases bs) auto
  have "ADIOI_Flatten E t 0 (map fresh [0..<length bs], int (length bs), 0) = Some (bs, int (length bs), length bs)"
    using D(4) [of 0 "map fresh [0..<length bs]" 0] by (simp add: put_at_def)
  moreover have "ADIOI_Optimize_flattened fresh (int (length bs), bs) = Some (int (length (merged (x, y) cs)), merged (x, y) cs)"
    using optimize_merged [of fresh cs "(x, y)"] cs by simp
  ultimately have "ADIOI_Flatten_datatype E fresh h t nodes =
      Some (nodes @ [\<lparr>fhandle_of = h, fcount = int (length (merged (x, y) cs)), fblocks = merged (x, y) cs\<rparr>])"
    using assms(3-5) D(3) [of 0] by (simp add: ADIOI_Flatten_datatype_def)
  moreover have "bytes_of_blocks (merged (x, y) cs) = type_map E t"
    using bytes_merged [of y cs x] D(2) bs(2) cs by simp
  ultimately show ?thesis
    using merged_apart [of x y cs] nonneg_merged [of y cs x] bs(2) cs by (intro exI) auto
qed


definition sentinel :: flat_node where
  "sentinel = \<lparr>fhandle_of = 0, fcount = 0, fblocks = []\<rparr>"


text \<open>
  C23: \<open>ADIOI_Optimize_flattened\<close> on any list of blocks: it stays in its arrays, keeps the bytes in
  their order, never lengthens the list and leaves no two neighbours that touch.
\<close>

theorem optimize_keeps_bytes:
  assumes "bs \<noteq> []" and "nonneg bs"
  shows "\<exists>bs'. ADIOI_Optimize_flattened fresh (int (length bs), bs) = Some (int (length bs'), bs') \<and>
     bytes_of_blocks bs' = bytes_of_blocks bs \<and> length bs' \<le> length bs \<and> successively apart bs'"
proof -
  obtain x y cs where bs: "bs = (x, y) # cs" using assms(1) by (cases bs) auto
  then show ?thesis
    using optimize_merged [of fresh cs "(x, y)"] bytes_merged [of y cs x] merged_apart [of x y cs]
      length_merged [of "(x, y)" cs] assms(2) by auto
qed

theorem optimize_keeps_bytes_witness:
  "\<exists>bs'. ADIOI_Optimize_flattened (\<lambda>_. (9, 9)) (3, [(0, 4), (4, 4), (12, 4)]) = Some (int (length bs'), bs') \<and>
     bytes_of_blocks bs' = bytes_of_blocks [(0, 4), (4, 4), (12, 4)] \<and> successively apart bs'"
  using optimize_keeps_bytes [of "[(0, 4), (4, 4), (12, 4)]" "\<lambda>_. (9, 9)"] by auto

section \<open>Types flattening is wrong for\<close>

text \<open>
  Outside the regular types, over basic types of 4 bytes. A vector of no blocks has a count of 0
  and is written nevertheless. An indexed type over a resized type stops copying at the marker:
  the second instance is lost. A member with block length 0 is counted but not written, so the
  node ends in memory that was never set. A resized type with a lower bound moves its data.
\<close>

lemma zero_vector_overrun:
  "ADIOI_Count_contiguous_blocks (std_env (\<lambda>_. 4)) (VECTOR 0 1 2 (NAMED 0)) 0 = Some (0, 0)"
  "ADIOI_Flatten (std_env (\<lambda>_. 4)) (VECTOR 0 1 2 (NAMED 0)) 0 ([], 0, 0) = None"
  by (simp_all add: simple_type_def count_vector_def flatten_vector_def put_block_def)

lemma indexed_over_resized_loses_bytes:
  "ADIOI_Flatten (std_env (\<lambda>_. 4)) (INDEXED [(2, 0)] (RESIZED 0 8 (NAMED 0))) 0 (replicate 6 (0, 0), 6, 0)
     = Some ([(0, 0), (0, 4), (8, 0), (0, 0), (0, 0), (0, 0)], 3, 3)"
  "type_map (std_env (\<lambda>_. 4)) (INDEXED [(2, 0)] (RESIZED 0 8 (NAMED 0))) = [0, 1, 2, 3, 8, 9, 10, 11]"
  by (simp_all add: simple_type_def flatten_indexed_def put_block_def get_block_def numeral_eq_Suc
      spread_def move_def upto_rec1)

lemma empty_member_unset:
  "ADIOI_Flatten_datatype (std_env (\<lambda>_. 4)) fresh 1 (STRUCT [(1, 0, NAMED 0), (0, 8, NAMED 0), (1, 16, NAMED 0)]) [sentinel]
     = Option.bind (ADIOI_Optimize_flattened fresh (3, [(0, 4), (16, 4), fresh 2]))
         (\<lambda>(n, a). Some [sentinel, \<lparr>fhandle_of = 1, fcount = n, fblocks = a\<rparr>])"
  by (simp add: ADIOI_Flatten_datatype_def simple_type_def sentinel_def flatten_member_def put_block_def
      numeral_eq_Suc split_def)

lemma resized_moves_data:
  "ADIOI_Flatten (std_env (\<lambda>_. 4)) (RESIZED 4 32 (VECTOR 2 1 2 (NAMED 0))) 0 (replicate 4 (0, 0), 4, 0)
     = Some ([(4, 0), (4, 4), (12, 4), (36, 0)], 4, 4)"
  "type_map (std_env (\<lambda>_. 4)) (RESIZED 4 32 (VECTOR 2 1 2 (NAMED 0))) = [0, 1, 2, 3, 8, 9, 10, 11]"
  by (simp_all add: simple_type_def flatten_vector_def put_block_def get_block_def numeral_eq_Suc
      spread_def move_def upto_rec1)

end
