(* ===== verification/Array_Types.thy ===== *)
theory Array_Types
  imports Flatten_Correct
begin

text \<open>
  What the types built for subarrays and distributed arrays mean: their type maps are those of the
  array elements they select, in the order of the array.
\<close>

section \<open>Instances at positions\<close>

definition placed :: "int list \<Rightarrow> int list \<Rightarrow> int list" where
  "placed ps T = concat (map (\<lambda>p. move p T) ps)"

definition grid :: "int list \<Rightarrow> int list \<Rightarrow> int list" where
  "grid outer inner = concat (map (\<lambda>p. map ((+) p) inner) outer)"

lemma placed_simps [simp]:
  "placed [] T = []"
  "placed (p # ps) T = move p T @ placed ps T"
  "placed (ps @ qs) T = placed ps T @ placed qs T"
  by (simp_all add: placed_def)

lemma grid_simps [simp]:
  "grid [] inner = []"
  "grid (p # ps) inner = map ((+) p) inner @ grid ps inner"
  "grid (ps @ qs) inner = grid ps inner @ grid qs inner"
  by (simp_all add: grid_def)

lemma move_placed: "move p (placed ps T) = placed (map ((+) p) ps) T"
  by (induction ps) auto

lemma placed_placed: "placed ps (placed qs T) = placed (grid ps qs) T"
  by (induction ps) (auto simp: move_placed)

lemma spread_placed: "spread n d T = placed (map (\<lambda>k. k * d) [0..n - 1]) T"
  by (simp add: spread_def placed_def o_def)

lemma grid_shift: "map ((+) a) (grid ps qs) = grid (map ((+) a) ps) qs"
  by (induction ps) auto

lemma grid_assoc: "grid ps (grid qs rs) = grid (grid ps qs) rs"
  by (induction ps) (auto simp: grid_shift)

lemma map_grid_scale: "map (\<lambda>e. c * e) (grid ps qs) = grid (map (\<lambda>e. c * e) ps) (map (\<lambda>e. c * e) qs)"
  by (induction ps) (auto simp: distrib_left)

section \<open>Subarrays\<close>

text \<open>
  The linear indices of the elements of a subarray; the dimensions are listed with the fastest
  one first, each with its size, the size of the subarray and its start.
\<close>

fun subarray_elems :: "(int \<times> int \<times> int) list \<Rightarrow> int list" where
  "subarray_elems [] = [0]"
| "subarray_elems ((n, sub, st) # ds) =
     concat (map (\<lambda>k. map (\<lambda>i. n * k + st + i) [0..sub - 1]) (subarray_elems ds))"

text \<open>The displacements the chain of vectors produces.\<close>

fun chain_pos :: "int \<Rightarrow> int \<Rightarrow> (int \<times> int \<times> int) list \<Rightarrow> int list" where
  "chain_pos sz prev [] = [0]"
| "chain_pos sz prev ((n, sub, st) # ds) =
     grid (chain_pos (sz * prev) n ds) (map (\<lambda>k. k * (sz * prev)) [0..sub - 1])"

lemma type_map_hvector_loop:
  "type_map E (hvector_loop sz prev ds t) = placed (chain_pos sz prev ds) (type_map E t)"
  by (induction sz prev ds t rule: hvector_loop.induct) (auto simp: placed_placed spread_placed)

lemma start_loop_scale: "start_loop (c * sz) prev ds = c * start_loop sz prev ds"
  by (induction sz prev ds rule: start_loop.induct) (auto simp: distrib_left mult.assoc)

lemma elems_grid:
  "subarray_elems ((n, sub, st) # ds) =
     grid (map (\<lambda>k. st + n * k) (subarray_elems ds)) [0..sub - 1]"
  by (simp add: grid_def o_def add.commute)

lemma scaled_elems:
  "map (\<lambda>e. sz * prev * e) (subarray_elems ds) = map ((+) (start_loop sz prev ds)) (chain_pos sz prev ds)"
proof (induction sz prev ds rule: start_loop.induct)
  case (2 sz prev n sub st ds)
  have "map (\<lambda>e. sz * prev * e) (subarray_elems ((n, sub, st) # ds)) =
      grid (map (\<lambda>k. sz * prev * st + sz * prev * n * k) (subarray_elems ds)) (map (\<lambda>i. sz * prev * i) [0..sub - 1])"
    by (simp only: elems_grid map_grid_scale map_map o_def) (simp add: distrib_left mult.assoc)
  also have "map (\<lambda>k. sz * prev * st + sz * prev * n * k) (subarray_elems ds) =
      map ((+) (sz * prev * st)) (map (\<lambda>e. sz * prev * n * e) (subarray_elems ds))"
    by simp
  also have "\<dots> = map ((+) (start_loop sz prev ((n, sub, st) # ds))) (chain_pos (sz * prev) n ds)"
    by (simp only: 2) (simp add: add.assoc)
  finally show ?case
    by (simp add: grid_shift mult.commute)
qed simp

lemma struct_with_markers:
  "type_map E (STRUCT [(1, 0, MPI_LB), (1, d, t), (1, u, MPI_UB)]) = move d (type_map E t)"
  by (simp add: spread_def)

lemma subarray_type_map:
  assumes "ADIO_Type_create_subarray E dims f t = Some s"
  shows "type_map E s =
    placed (map (\<lambda>e. textent E t * e) (subarray_elems (if f then dims else rev dims))) (type_map E t)"
proof -
  obtain n0 sub0 st0 rest where ds: "(if f then dims else rev dims) = (n0, sub0, st0) # rest"
    using assms by (auto simp: ADIO_Type_create_subarray_def Let_def split: list.splits)
  define ext where "ext = textent E t"
  define tmp where "tmp = (case rest of [] \<Rightarrow> CONTIGUOUS sub0 t
      | (n1, sub1, st1) # slower \<Rightarrow> hvector_loop (n0 * ext) n1 slower (VECTOR sub1 sub0 n0 t))"
  have "type_map E tmp = placed (chain_pos ext n0 rest) (spread sub0 ext (type_map E t))"
    by (cases rest) (auto simp: tmp_def type_map_hvector_loop placed_placed spread_placed grid_assoc ext_def o_def mult.commute)
  moreover have "s = STRUCT [(1, 0, MPI_LB), (1, (st0 + start_loop 1 n0 rest) * ext, tmp),
      (1, fold (\<lambda>(n, _, _) u. u * n) dims ext, MPI_UB)]"
    using assms unfolding ADIO_Type_create_subarray_def Let_def ds tmp_def ext_def by simp
  then have "type_map E s = move ((st0 + start_loop 1 n0 rest) * ext) (type_map E tmp)"
    by (simp only: struct_with_markers)
  moreover have "map (\<lambda>e. ext * e) (subarray_elems ((n0, sub0, st0) # rest)) =
      grid (map ((+) (ext * st0)) (map (\<lambda>k. ext * n0 * k) (subarray_elems rest))) (map (\<lambda>i. i * ext) [0..sub0 - 1])"
    by (simp only: elems_grid map_grid_scale map_map o_def) (simp add: distrib_left mult_ac)
  moreover have disp: "ext * st0 + start_loop ext n0 rest = (st0 + start_loop 1 n0 rest) * ext"
    using start_loop_scale [of ext 1 n0 rest] by (simp add: algebra_simps)
  have "map ((+) (ext * st0)) (map (\<lambda>k. ext * n0 * k) (subarray_elems rest)) =
      map ((+) ((st0 + start_loop 1 n0 rest) * ext)) (chain_pos ext n0 rest)"
    unfolding scaled_elems disp [symmetric] by (simp add: add.assoc)
  ultimately show ?thesis
    unfolding ds by (simp add: move_placed placed_placed spread_placed grid_shift flip: ext_def)
qed

text \<open>
  C22: the type \<open>ADIO_Type_create_subarray\<close> builds selects the elements of the subarray, and only them,
  in the order of the array: dimension 0 fastest in Fortran order, the last one fastest in C order.
\<close>

theorem subarray_selects_elements:
  assumes "dims \<noteq> []"
  shows "\<exists>s. ADIO_Type_create_subarray E dims f t = Some s \<and>
    type_map E s = concat (map (\<lambda>e. move (textent E t * e) (type_map E t))
      (subarray_elems (if f then dims else rev dims)))"
proof -
  obtain s where "ADIO_Type_create_subarray E dims f t = Some s"
    using assms by (cases "if f then dims else rev dims")
      (auto simp: ADIO_Type_create_subarray_def Let_def split: if_splits)
  then show ?thesis
    using subarray_type_map [of E dims f t s] by (simp add: placed_def o_def)
qed

text \<open>A 4 by 6 array in C order: rows 1 and 2, columns 2 to 4, of elements of 4 bytes.\<close>

theorem subarray_selects_elements_witness:
  "subarray_elems (rev [(4, 2, 1), (6, 3, 2)]) = [8, 9, 10, 14, 15, 16] \<and>
   (\<exists>s. ADIO_Type_create_subarray (\<lparr>tsize = \<lambda>_. 4, textent = \<lambda>_. 4, tcontig = \<lambda>_. False\<rparr>)
          [(4, 2, 1), (6, 3, 2)] False (NAMED 0) = Some s \<and>
     type_map (\<lparr>tsize = \<lambda>_. 4, textent = \<lambda>_. 4, tcontig = \<lambda>_. False\<rparr>) s =
       concat (map (\<lambda>e. move (4 * e) [0, 1, 2, 3]) [8, 9, 10, 14, 15, 16]))"
  using subarray_selects_elements [of "[(4, 2, 1), (6, 3, 2)]"
    "\<lparr>tsize = \<lambda>_. 4, textent = \<lambda>_. 4, tcontig = \<lambda>_. False\<rparr>" False "NAMED 0"]
  by (simp add: upto_rec1)

section \<open>Distributed arrays\<close>

text \<open>
  The indices of one dimension a process owns, by the rules of the MPI standard: with a block
  distribution the blocks are dealt out once, with a cyclic one in rounds.
\<close>

definition block_size :: "int \<Rightarrow> int option \<Rightarrow> int \<Rightarrow> int" where
  "block_size g darg p = (case darg of None \<Rightarrow> (g + p - 1) div p | Some d \<Rightarrow> d)"

definition cyclic_size :: "int option \<Rightarrow> int" where
  "cyclic_size darg = (case darg of None \<Rightarrow> 1 | Some d \<Rightarrow> d)"

fun owned :: "(int \<times> distrib \<times> int option \<times> int) \<times> int \<Rightarrow> int list" where
  "owned ((g, DISTRIBUTE_BLOCK, darg, p), c) = filter (\<lambda>i. i div block_size g darg p = c) [0..g - 1]"
| "owned ((g, DISTRIBUTE_CYCLIC, darg, p), c) = filter (\<lambda>i. (i div cyclic_size darg) mod p = c) [0..g - 1]"
| "owned ((g, _, darg, p), c) = [0..g - 1]"

fun darray_elems :: "((int \<times> distrib \<times> int option \<times> int) \<times> int) list \<Rightarrow> int list" where
  "darray_elems [] = [0]"
| "darray_elems (dc # dcs) = grid (map (\<lambda>k. fst (fst dc) * k) (darray_elems dcs)) (owned dc)"

lemma upto_eqI:
  assumes "sorted xs" "distinct xs" "sorted ys" "distinct ys" "set xs = set (ys :: int list)"
  shows "xs = ys"
  using sorted_distinct_set_unique [OF assms] .

lemma filter_upto_sorted [simp]:
  "sorted (filter P [i..j])" "distinct (filter P [i..j :: int])"
  by (auto intro: sorted_wrt_filter)

lemma owned_block:
  assumes "0 < b" "0 \<le> c"
  shows "filter (\<lambda>i. i div b = c) [0..g - 1] = map ((+) (b * c)) [0..max 0 (min b (g - b * c)) - 1]"
proof -
  have iff: "i div b = c \<longleftrightarrow> b * c \<le> i \<and> i < b * c + b" for i
  proof -
    have "b * c \<le> i \<and> i < b * c + b" if "i div b = c"
    proof -
      have "b * c + i mod b = i" using mult_div_mod_eq [of b i] that by simp
      moreover have "0 \<le> i mod b" "i mod b < b" using assms(1) by simp_all
      ultimately show ?thesis by linarith
    qed
    moreover have "i div b = c" if "b * c \<le> i" "i < b * c + b"
      using int_div_pos_eq [of i b c "i - b * c"] that by simp
    ultimately show ?thesis by blast
  qed
  have "0 \<le> b * c" using assms by simp
  then have "set (filter (\<lambda>i. i div b = c) [0..g - 1]) = set [b * c..b * c + max 0 (min b (g - b * c)) - 1]"
    by (simp only: set_filter set_upto iff) auto
  then have "filter (\<lambda>i. i div b = c) [0..g - 1] = [b * c..b * c + max 0 (min b (g - b * c)) - 1]"
    by (intro upto_eqI) simp_all
  then show ?thesis by (simp add: upto_shift algebra_simps)
qed

text \<open>Rounds of blocks: \<open>n\<close> of them, at distance \<open>w\<close>, of \<open>b\<close> elements.\<close>

definition rounds :: "int \<Rightarrow> int \<Rightarrow> int \<Rightarrow> int list" where
  "rounds n w b = grid (map (\<lambda>j. j * w) [0..n - 1]) [0..b - 1]"

lemma set_rounds: "set (rounds n w b) = {x. \<exists>j r. x = j * w + r \<and> 0 \<le> j \<and> j < n \<and> 0 \<le> r \<and> r < b}"
proof (intro set_eqI iffI)
  fix x assume "x \<in> set (rounds n w b)"
  then obtain j where "j * w \<le> x" "x \<le> b - 1 + j * w" "0 \<le> j" "j < n"
    by (auto simp: rounds_def grid_def)
  then show "x \<in> {x. \<exists>j r. x = j * w + r \<and> 0 \<le> j \<and> j < n \<and> 0 \<le> r \<and> r < b}"
    by (simp, intro exI [of _ j] exI [of _ "x - j * w"]) simp
next
  fix x assume "x \<in> {x. \<exists>j r. x = j * w + r \<and> 0 \<le> j \<and> j < n \<and> 0 \<le> r \<and> r < b}"
  then obtain j r where "x = j * w + r" "j \<in> {0..n - 1}" "r \<in> {0..b - 1}" by auto
  then show "x \<in> set (rounds n w b)"
    by (auto simp: rounds_def grid_def intro!: bexI [of _ j] imageI)
qed

lemma rounds_Suc: "rounds (int (Suc n)) w b = rounds (int n) w b @ map ((+) (int n * w)) [0..b - 1]"
  using upto_rec2 [of 0 "int n"] by (simp add: rounds_def)

lemma rounds_below: "x \<in> set (rounds (int n) w b) \<Longrightarrow> b \<le> w \<Longrightarrow> x < int n * w"
proof -
  assume "x \<in> set (rounds (int n) w b)" "b \<le> w"
  then obtain j r where *: "x = j * w + r" "0 \<le> j" "j < int n" "0 \<le> r" "r < b"
    by (auto simp: set_rounds)
  then have "(j + 1) * w \<le> int n * w"
    using \<open>b \<le> w\<close> by (intro mult_right_mono) auto
  then show "x < int n * w" using * \<open>b \<le> w\<close> by (simp add: algebra_simps)
qed

lemma rounds_sorted: "b \<le> w \<Longrightarrow> sorted_wrt (<) (rounds (int n) w b @ map ((+) (int n * w)) [0..m - 1])"
proof (induction n arbitrary: m)
  case 0
  show ?case by (simp add: rounds_def upto_shift sorted_wrt_upto)
next
  case (Suc n)
  have "sorted_wrt (<) (rounds (int (Suc n)) w b)"
    using Suc.IH [of b] Suc.prems by (simp only: rounds_Suc)
  moreover have "sorted_wrt (<) (map ((+) (int (Suc n) * w)) [0..m - 1])"
    by (simp only: upto_shift sorted_wrt_upto)
  ultimately show ?case
    using rounds_below [of _ "Suc n" w b] Suc.prems by (fastforce simp: sorted_wrt_append)
qed

lemma cyclic_counts:
  assumes "0 < b" "0 < p" "c * b < g"
  defines "M \<equiv> g - c * b" and "w \<equiv> p * b"
  shows "cyclic_local_size g p c b sdiv b = (if b \<le> M mod w then M div w + 1 else M div w)"
    and "cyclic_local_size g p c b smod b = (if b \<le> M mod w then 0 else M mod w)"
    and "0 \<le> cyclic_local_size g p c b"
proof -
  have w: "0 < w" "0 < M" using assms by simp_all
  define m where "m = M mod w"
  have m: "0 \<le> m" using w by (simp add: m_def)
  have q: "0 \<le> M div w" using w by (simp add: pos_imp_zdiv_nonneg_iff)
  have L: "cyclic_local_size g p c b = M div w * b + min m b"
    using assms w by (simp add: cyclic_local_size_def Let_def sdiv_nonneg smod_nonneg m_def)
  then show L0: "0 \<le> cyclic_local_size g p c b" using m q assms(1) by simp
  show "cyclic_local_size g p c b sdiv b = (if b \<le> M mod w then M div w + 1 else M div w)"
    using L L0 m assms(1) unfolding m_def [symmetric]
    by (auto simp: sdiv_nonneg min_def div_add_self1 div_add_self2)
  show "cyclic_local_size g p c b smod b = (if b \<le> M mod w then 0 else M mod w)"
    using L L0 m assms(1) unfolding m_def [symmetric] by (auto simp: smod_nonneg min_def)
qed

text \<open>The rounds and the rest of one process are the elements of its rounds below the bound.\<close>

lemma rounds_rest:
  assumes "0 < b" "b \<le> w" "0 < M"
  defines "n \<equiv> (if b \<le> M mod w then M div w + 1 else M div w)"
    and "k \<equiv> (if b \<le> M mod w then 0 else M mod w)"
  shows "set (rounds n w b @ map ((+) (n * w)) [0..k - 1]) =
     {y. \<exists>j r. y = j * w + r \<and> 0 \<le> j \<and> 0 \<le> r \<and> r < b \<and> y < M}"
proof -
  define q where "q = M div w"
  define m where "m = M mod w"
  have M: "M = q * w + m" "0 \<le> m" "m < w" "0 \<le> q"
    using assms(1-3) by (simp_all add: q_def m_def pos_imp_zdiv_nonneg_iff)
  have less: "j * w + w \<le> q * w" if "j < q" for j
    using that assms(1,2) mult_right_mono [of "j + 1" q w] by (simp add: distrib_right)
  have more: "q * w + w \<le> j * w" if "q < j" for j
    using that assms(1,2) mult_right_mono [of "q + 1" j w] by (simp add: distrib_right)
  have n: "n = (if b \<le> m then q + 1 else q)" "k = (if b \<le> m then 0 else m)"
    by (simp_all add: n_def k_def q_def m_def)
  have fwd: "j * w + r < M" if "j < n" "r < b" for j r
    using that n M less [of j] assms(2) by (cases "j < q") (auto split: if_splits)
  have tail: "n * w + r < M \<and> r < b" if "r < k" "0 \<le> r" for r
    using that n M by (auto split: if_splits)
  have bwd: "j < n \<or> (j = n \<and> r < k)" if "j * w + r < M" "0 \<le> r" for j r
    using that n M more [of j] by (cases "j < q"; cases "j = q") (auto split: if_splits)
  have n0: "0 \<le> n" using n M by simp
  show ?thesis
  proof (intro set_eqI iffI)
    fix y assume "y \<in> set (rounds n w b @ map ((+) (n * w)) [0..k - 1])"
    then have "y \<in> set (rounds n w b) \<or> n * w \<le> y \<and> y < n * w + k" by auto
    then show "y \<in> {y. \<exists>j r. y = j * w + r \<and> 0 \<le> j \<and> 0 \<le> r \<and> r < b \<and> y < M}"
    proof
      assume "y \<in> set (rounds n w b)"
      then show ?thesis using fwd unfolding set_rounds by blast
    next
      assume y: "n * w \<le> y \<and> y < n * w + k"
      then have "y < M \<and> y - n * w < b" using tail [of "y - n * w"] by simp
      then show ?thesis using y n0 by (simp, intro exI [of _ n] exI [of _ "y - n * w"]) simp
    qed
  next
    fix y assume "y \<in> {y. \<exists>j r. y = j * w + r \<and> 0 \<le> j \<and> 0 \<le> r \<and> r < b \<and> y < M}"
    then obtain j r where y: "y = j * w + r" "0 \<le> j" "0 \<le> r" "r < b" "y < M" by blast
    from bwd [of j r] y have "j < n \<or> (j = n \<and> r < k)" by simp
    then show "y \<in> set (rounds n w b @ map ((+) (n * w)) [0..k - 1])"
      using y by (auto simp: set_rounds)
  qed
qed

lemma in_round_iff:
  assumes "0 < b" "0 < p" "0 \<le> c" "c < p" "0 \<le> (x :: int)"
  shows "x div b mod p = c \<longleftrightarrow> (\<exists>j r. x - c * b = j * (p * b) + r \<and> 0 \<le> j \<and> 0 \<le> r \<and> r < b)"
proof
  assume c: "x div b mod p = c"
  have "x div b = p * (x div b div p) + c" using mult_div_mod_eq [of p "x div b"] c by simp
  moreover have "x = b * (x div b) + x mod b" by simp
  ultimately have "x = b * (p * (x div b div p) + c) + x mod b" by metis
  then have "x - c * b = (x div b div p) * (p * b) + x mod b" by (simp add: algebra_simps)
  moreover have "0 \<le> x div b div p" "0 \<le> x mod b" "x mod b < b"
    using assms by (simp_all add: pos_imp_zdiv_nonneg_iff)
  ultimately show "\<exists>j r. x - c * b = j * (p * b) + r \<and> 0 \<le> j \<and> 0 \<le> r \<and> r < b" by blast
next
  assume "\<exists>j r. x - c * b = j * (p * b) + r \<and> 0 \<le> j \<and> 0 \<le> r \<and> r < b"
  then obtain j r where *: "x - c * b = j * (p * b) + r" "0 \<le> r" "r < b" by blast
  then have "x = b * (c + j * p) + r" by (simp add: algebra_simps)
  then have "x div b = c + j * p" using *(2,3) by (rule int_div_pos_eq)
  then show "x div b mod p = c" using assms by simp
qed

lemma owned_cyclic:
  fixes g :: int
  assumes "0 < b" "0 < p" "0 \<le> c" "c < p"
  defines "L \<equiv> cyclic_local_size g p c b"
  shows "filter (\<lambda>i. i div b mod p = c) [0..g - 1] =
     map ((+) (c * b)) (rounds (L sdiv b) (p * b) b @ map ((+) (L sdiv b * (p * b))) [0..L smod b - 1])"
    (is "?l = map _ ?r")
proof (cases "c * b < g")
  case True
  note C = cyclic_counts [OF assms(1,2) True]
  have bw: "b \<le> p * b" using assms(1,2) by simp
  have n: "0 \<le> L sdiv b" using C(3) assms(1) by (simp add: L_def sdiv_nonneg pos_imp_zdiv_nonneg_iff)
  have R: "set ?r = {y. \<exists>j r. y = j * (p * b) + r \<and> 0 \<le> j \<and> 0 \<le> r \<and> r < b \<and> y < g - c * b}"
    using rounds_rest [OF assms(1) bw, of "g - c * b"] True C by (simp add: L_def)
  have "set ?l = set (map ((+) (c * b)) ?r)"
  proof (intro set_eqI iffI)
    fix x assume "x \<in> set ?l"
    then have x: "0 \<le> x" "x < g" "x div b mod p = c" by auto
    then have "x - c * b \<in> set ?r" unfolding R using in_round_iff [OF assms(1-4) x(1)] by auto
    then have "c * b + (x - c * b) \<in> set (map ((+) (c * b)) ?r)" unfolding set_map by (rule imageI)
    then show "x \<in> set (map ((+) (c * b)) ?r)" by simp
  next
    fix x assume "x \<in> set (map ((+) (c * b)) ?r)"
    then have y: "x - c * b \<in> set ?r" unfolding set_map by auto
    then obtain j r where *: "x - c * b = j * (p * b) + r" "0 \<le> j" "0 \<le> r" "r < b" "x - c * b < g - c * b"
      unfolding R by blast
    have "0 \<le> j * (p * b)" "0 \<le> c * b" using * assms(1-3) by simp_all
    then have "0 \<le> x" using * by linarith
    then have "x div b mod p = c" using in_round_iff [OF assms(1-4), of x] * by blast
    then show "x \<in> set ?l" using \<open>0 \<le> x\<close> * by simp
  qed
  moreover have "sorted_wrt (<) ?r"
    using rounds_sorted [OF bw, of "nat (L sdiv b)" "L smod b"] n by simp
  then have "sorted_wrt (<) (map ((+) (c * b)) ?r)" by (simp only: sorted_wrt_map add_less_cancel_left)
  then have "sorted (map ((+) (c * b)) ?r)" "distinct (map ((+) (c * b)) ?r)"
    unfolding strict_sorted_iff by blast+
  ultimately show ?thesis by (intro upto_eqI filter_upto_sorted)
next
  case False
  have "cyclic_local_size g p c b = 0" using False by (simp add: cyclic_local_size_def Let_def)
  moreover have "x div b mod p \<noteq> c" if x: "0 \<le> x" "x < g" for x
  proof
    assume "x div b mod p = c"
    then obtain j r where *: "x - c * b = j * (p * b) + r" "0 \<le> j" "0 \<le> r"
      using in_round_iff [OF assms(1-4) x(1)] by blast
    have "0 \<le> j * (p * b)" using * assms(1,2) by simp
    then show False using * False x by linarith
  qed
  ultimately show ?thesis
    using assms(1) by (simp add: L_def sdiv_nonneg smod_nonneg rounds_def)
qed

subsection \<open>One dimension\<close>

text \<open>
  The arguments of a dimension the construction is right for: those the MPI standard allows,
  except that a cyclic distribution with blocks of more than one element is only right in the
  dimension that changes fastest. In the others the source counts on the extent of the type of
  the faster dimensions, which a block distribution has not set.
\<close>

fun dim_ok :: "bool \<Rightarrow> int \<times> distrib \<times> int option \<times> int \<Rightarrow> bool" where
  "dim_ok fastest (g, DISTRIBUTE_BLOCK, darg, p) \<longleftrightarrow> 1 \<le> g \<and> 1 \<le> p \<and>
     (case darg of None \<Rightarrow> True | Some d \<Rightarrow> 1 \<le> d \<and> g \<le> d * p)"
| "dim_ok fastest (g, DISTRIBUTE_CYCLIC, darg, p) \<longleftrightarrow> 1 \<le> g \<and> 1 \<le> p \<and>
     1 \<le> cyclic_size darg \<and> (fastest \<or> cyclic_size darg = 1)"
| "dim_ok fastest (g, DISTRIBUTE_NONE, darg, p) \<longleftrightarrow> 1 \<le> g \<and> p = 1"
| "dim_ok fastest (g, DISTRIBUTE_UNKNOWN, darg, p) \<longleftrightarrow> False"

definition dim_type ::
  "bool \<Rightarrow> int \<Rightarrow> int list \<Rightarrow> (int \<times> distrib \<times> int option \<times> int) \<times> int \<Rightarrow> mpi_type \<Rightarrow> (mpi_type \<times> int) option" where
  "dim_type fortran ext below = (\<lambda>((g, d, darg, p), c) t. case d of
       DISTRIBUTE_BLOCK \<Rightarrow> MPIOI_Type_block below g p c darg ext t
     | DISTRIBUTE_CYCLIC \<Rightarrow> MPIOI_Type_cyclic below g p c darg ext t
     | DISTRIBUTE_NONE \<Rightarrow> if fortran then MPIOI_Type_block below g 1 0 None ext t
                         else MPIOI_Type_block below g p c None ext t
     | DISTRIBUTE_UNKNOWN \<Rightarrow> None)"

definition dim_meets :: "type_env \<Rightarrow> int \<Rightarrow> int list \<Rightarrow> int list \<Rightarrow> mpi_type \<Rightarrow> (mpi_type \<times> int) option \<Rightarrow> bool" where
  "dim_meets E ext below I t r \<longleftrightarrow> (\<exists>t' st J. r = Some (t', st) \<and>
     type_map E t' = placed (map (\<lambda>i. ext * prod_list below * i) J) (type_map E t) \<and> map ((+) st) J = I)"

lemma fold_mult: "fold (\<lambda>g s. s * g) xs e = e * prod_list (xs :: int list)"
  by (induction xs arbitrary: e) auto

lemma dim_block:
  assumes "1 \<le> g" "1 \<le> p" "0 \<le> c" "case darg of None \<Rightarrow> True | Some d \<Rightarrow> 1 \<le> d \<and> g \<le> d * p"
    and "below = [] \<longrightarrow> textent E t = ext"
  shows "dim_meets E ext below (filter (\<lambda>i. i div block_size g darg p = c) [0..g - 1]) t
    (MPIOI_Type_block below g p c darg ext t)"
proof -
  define b where "b = block_size g darg p"
  define n where "n = max 0 (min b (g - b * c))"
  have "1 * p \<le> g + p - 1" using assms(1) by simp
  then have "1 \<le> (g + p - 1) div p" using assms(2) by (simp only: zdiv_mono1 [of "1 * p" "g + p - 1" p, simplified])
  then have b: "0 < b" using assms(4) by (auto simp: b_def block_size_def split: option.splits)
  have r: "MPIOI_Type_block below g p c darg ext t =
      Some (if below = [] then CONTIGUOUS n t else HVECTOR n 1 (ext * prod_list below) t, if n = 0 then 0 else b * c)"
    using assms(1,2,4)
    by (auto simp: MPIOI_Type_block_def b_def n_def block_size_def Let_def fold_mult sdiv_nonneg split: option.splits)
  have "map ((+) (if n = 0 then 0 else b * c)) [0..n - 1] = filter (\<lambda>i. i div b = c) [0..g - 1]"
    using owned_block [OF b assms(3), of g] by (simp add: n_def)
  moreover have "type_map E (if below = [] then CONTIGUOUS n t else HVECTOR n 1 (ext * prod_list below) t) =
      placed (map (\<lambda>i. ext * prod_list below * i) [0..n - 1]) (type_map E t)"
    using assms(5) by (simp add: spread_placed mult.commute)
  ultimately show ?thesis
    unfolding dim_meets_def r by (fold b_def) blast
qed

lemma scale_rounds:
  "map (\<lambda>i. k * i) (rounds n w b) = grid (map (\<lambda>j. j * (w * k)) [0..n - 1]) (map (\<lambda>i. i * k) [0..b - 1])"
  by (simp only: rounds_def map_grid_scale map_map o_def) (simp add: mult_ac)

lemma dim_cyclic_fastest:
  assumes "1 \<le> p" "0 \<le> c" "c < p" "1 \<le> cyclic_size darg" "textent E t = ext"
  shows "dim_meets E ext [] (filter (\<lambda>i. i div cyclic_size darg mod p = c) [0..g - 1]) t
    (MPIOI_Type_cyclic [] g p c darg ext t)"
proof -
  define b where "b = cyclic_size darg"
  define L where "L = cyclic_local_size g p c b"
  define n where "n = L sdiv b"
  define k where "k = L smod b"
  define J where "J = rounds n (p * b) b @ map ((+) (n * (p * b))) [0..k - 1]"
  define t2 where "t2 = (if k \<noteq> 0 then STRUCT [(1, 0, HVECTOR n b (p * b * ext) t), (k, n * (p * b * ext), t)]
      else HVECTOR n b (p * b * ext) t)"
  have r: "MPIOI_Type_cyclic [] g p c darg ext t =
      Some (STRUCT [(1, 0, MPI_LB), (1, c * b * ext, t2), (1, ext * g, MPI_UB)], 0)"
    using assms(1,4) unfolding MPIOI_Type_cyclic_def t2_def k_def n_def L_def b_def cyclic_size_def [symmetric] Let_def
    by simp
  have "type_map E t2 = placed (map (\<lambda>i. ext * i) J) (type_map E t)"
    unfolding J_def map_append scale_rounds
    by (simp add: t2_def spread_placed placed_placed assms(5) move_placed o_def algebra_simps)
  then have "type_map E (STRUCT [(1, 0, MPI_LB), (1, c * b * ext, t2), (1, ext * g, MPI_UB)]) =
      placed (map (\<lambda>i. ext * i) (map ((+) (c * b)) J)) (type_map E t)"
    unfolding struct_with_markers by (simp add: move_placed o_def algebra_simps)
  moreover have "map ((+) (c * b)) J = filter (\<lambda>i. i div b mod p = c) [0..g - 1]"
    using owned_cyclic [of b p c g] assms(1-4) by (simp add: J_def n_def k_def L_def b_def)
  ultimately show ?thesis
    unfolding dim_meets_def r by (fold b_def) (auto intro!: exI [of _ "map ((+) (c * b)) J"] simp: map_idI)
qed

lemma rounds_1: "rounds n w 1 = map (\<lambda>j. j * w) [0..n - 1]"
  by (simp add: rounds_def grid_def o_def)

lemma dim_cyclic_1:
  assumes "1 \<le> p" "0 \<le> c" "c < p" "cyclic_size darg = 1" "below \<noteq> []"
  shows "dim_meets E ext below (filter (\<lambda>i. i div cyclic_size darg mod p = c) [0..g - 1]) t
    (MPIOI_Type_cyclic below g p c darg ext t)"
proof -
  define L where "L = cyclic_local_size g p c 1"
  have one: "x sdiv 1 = x" "x smod 1 = 0" for x :: int
    by (simp_all add: signed_divide_int_def signed_modulo_int_def sgn_mult_abs)
  have r: "MPIOI_Type_cyclic below g p c darg ext t =
      Some (HVECTOR L 1 (p * ext * prod_list below) t, if L = 0 then 0 else c)"
    using assms unfolding MPIOI_Type_cyclic_def L_def cyclic_size_def [symmetric] Let_def
    by (simp add: one fold_mult)
  have "map ((+) (if L = 0 then 0 else c)) (map (\<lambda>j. j * p) [0..L - 1]) = filter (\<lambda>i. i div 1 mod p = c) [0..g - 1]"
    using owned_cyclic [of 1 p c g] assms(1-3) by (simp add: rounds_1 one L_def [symmetric])
  moreover have "type_map E (HVECTOR L 1 (p * ext * prod_list below) t) =
      placed (map (\<lambda>i. ext * prod_list below * i) (map (\<lambda>j. j * p) [0..L - 1])) (type_map E t)"
    by (simp add: spread_placed o_def mult_ac)
  ultimately show ?thesis
    unfolding dim_meets_def r assms(4) by blast
qed

lemma dim_type_meets:
  assumes "dim_ok (below = []) d" "0 \<le> c" "c < (case d of (_, _, _, p) \<Rightarrow> p)" "below = [] \<longrightarrow> textent E t = ext"
  shows "dim_meets E ext below (owned (d, c)) t (dim_type f ext below (d, c) t)"
proof -
  obtain g k darg p where d: "d = (g, k, darg, p)" by (cases d)
  have c: "c = 0" if "k = DISTRIBUTE_NONE" using assms(1-3) d that by simp
  have none: "filter (\<lambda>i. i div block_size g None 1 = 0) [0..g - 1] = [0..g - 1]"
    by (rule filter_True) (simp add: block_size_def)
  show ?thesis
  proof (cases k)
    case DISTRIBUTE_BLOCK
    then show ?thesis using assms d dim_block [of g p c darg below E t ext] by (simp add: dim_type_def)
  next
    case DISTRIBUTE_CYCLIC
    then show ?thesis
      using assms d dim_cyclic_fastest [of p c darg E t ext g] dim_cyclic_1 [of p c darg below E ext g t]
      by (cases "below = []") (simp_all add: dim_type_def)
  next
    case DISTRIBUTE_NONE
    then show ?thesis
      using assms(1,4) d c dim_block [of g 1 0 None below E t ext] none by (simp add: dim_type_def)
  next
    case DISTRIBUTE_UNKNOWN
    then show ?thesis using assms d by simp
  qed
qed

subsection \<open>All dimensions\<close>

fun dims_ok :: "bool \<Rightarrow> (int \<times> distrib \<times> int option \<times> int) list \<Rightarrow> bool" where
  "dims_ok fastest [] = True"
| "dims_ok fastest (d # ds) \<longleftrightarrow> dim_ok fastest d \<and> dims_ok False ds"

definition gsize :: "(int \<times> distrib \<times> int option \<times> int) \<times> int \<Rightarrow> int" where
  "gsize = (\<lambda>((g, _, _, _), _). g)"

definition in_grid :: "((int \<times> distrib \<times> int option \<times> int) \<times> int) list \<Rightarrow> bool" where
  "in_grid dcs \<longleftrightarrow> (\<forall>((g, k, darg, p), c) \<in> set dcs. 0 \<le> c \<and> c < p)"

lemma in_grid_Cons [simp]: "in_grid (dc # dcs) \<longleftrightarrow> 0 \<le> snd dc \<and> snd dc < (case fst dc of (_, _, _, p) \<Rightarrow> p) \<and> in_grid dcs"
  by (cases dc) (auto simp: in_grid_def)

lemma grid_shift_both: "grid (map ((+) a) ps) (map ((+) b) qs) = map ((+) (a + b)) (grid ps qs)"
  by (induction ps) (auto simp: add_ac)

lemma darray_loop_dim:
  "darray_loop f ext below (dc # dcs) t = Option.bind (dim_type f ext below dc t)
     (\<lambda>(t', st). Option.bind (darray_loop f ext (below @ [gsize dc]) dcs t') (\<lambda>(t'', sts). Some (t'', st # sts)))"
proof -
  obtain g k darg p c where "dc = ((g, k, darg, p), c)" by (metis surj_pair)
  then show ?thesis by (simp add: dim_type_def gsize_def)
qed

lemma darray_loop_meets:
  "dims_ok (below = []) (map fst dcs) \<Longrightarrow> in_grid dcs \<Longrightarrow> (below = [] \<longrightarrow> textent E t = ext) \<Longrightarrow>
   \<exists>t' sts P. darray_loop f ext below dcs t = Some (t', sts) \<and> type_map E t' = placed P (type_map E t) \<and>
     map ((+) (ext * darray_disp (prod_list below) sts (map gsize dcs))) P =
       map (\<lambda>e. ext * prod_list below * e) (darray_elems dcs)"
proof (induction dcs arbitrary: below t)
  case Nil
  then show ?case by (auto intro!: exI [of _ "[0]"])
next
  case (Cons dc dcs)
  define W where "W = prod_list below"
  define I where "I = owned dc"
  obtain t1 st J where 1: "dim_type f ext below dc t = Some (t1, st)"
    "type_map E t1 = placed (map (\<lambda>i. ext * W * i) J) (type_map E t)" "map ((+) st) J = I"
    using dim_type_meets [of below "fst dc" "snd dc" E t ext f] Cons.prems
    unfolding dim_meets_def W_def I_def by auto
  obtain t2 sts P where 2: "darray_loop f ext (below @ [gsize dc]) dcs t1 = Some (t2, sts)"
    "type_map E t2 = placed P (type_map E t1)"
    "map ((+) (ext * darray_disp (W * gsize dc) sts (map gsize dcs))) P = map (\<lambda>e. ext * (W * gsize dc) * e) (darray_elems dcs)"
    using Cons.IH [of "below @ [gsize dc]" t1] Cons.prems unfolding W_def by auto
  have g: "fst (fst dc) = gsize dc" by (simp add: gsize_def split: prod.splits)
  have "map (\<lambda>e. ext * W * e) (darray_elems (dc # dcs)) =
      grid (map (\<lambda>k. ext * (W * gsize dc) * k) (darray_elems dcs)) (map (\<lambda>i. ext * W * i) I)"
    by (simp only: darray_elems.simps map_grid_scale map_map o_def g I_def) (simp add: mult.assoc)
  also have "\<dots> = grid (map ((+) (ext * darray_disp (W * gsize dc) sts (map gsize dcs))) P)
      (map ((+) (ext * W * st)) (map (\<lambda>i. ext * W * i) J))"
    unfolding 2(3) 1(3) [symmetric] by (simp add: distrib_left o_def)
  also have "\<dots> = map ((+) (ext * darray_disp W (st # sts) (map gsize (dc # dcs)))) (grid P (map (\<lambda>i. ext * W * i) J))"
  proof -
    have "ext * darray_disp (W * gsize dc) sts (map gsize dcs) + ext * W * st =
        ext * darray_disp W (st # sts) (map gsize (dc # dcs))"
      by (simp add: algebra_simps)
    then show ?thesis by (simp only: grid_shift_both)
  qed
  finally have "map ((+) (ext * darray_disp W (st # sts) (map gsize (dc # dcs)))) (grid P (map (\<lambda>i. ext * W * i) J)) =
      map (\<lambda>e. ext * W * e) (darray_elems (dc # dcs))" by simp
  moreover have "darray_loop f ext below (dc # dcs) t = Some (t2, st # sts)"
    unfolding darray_loop_dim using 1(1) 2(1) by simp
  moreover have "type_map E t2 = placed (grid P (map (\<lambda>i. ext * W * i) J)) (type_map E t)"
    using 1(2) 2(2) by (simp add: placed_placed)
  ultimately show ?case unfolding W_def by blast
qed

text \<open>The place of a process in the grid: row-major, with every coordinate in range.\<close>

fun row_major :: "int list \<Rightarrow> int list \<Rightarrow> int" where
  "row_major (p # ps) (c # cs) = c * prod_list ps + row_major ps cs"
| "row_major _ _ = 0"

lemma prod_list_pos: "\<forall>p \<in> set ps. 1 \<le> p \<Longrightarrow> 1 \<le> prod_list (ps :: int list)"
  by (induction ps) (auto intro: order_trans [OF _ mult_mono [of 1 _ 1]])

lemma grid_coords_ok:
  "\<forall>p \<in> set ps. 1 \<le> p \<Longrightarrow> 0 \<le> rank \<Longrightarrow> rank < prod_list ps \<Longrightarrow>
   \<exists>cs. grid_coords (prod_list ps) rank ps = Some cs \<and> list_all2 (\<lambda>c p. 0 \<le> c \<and> c < p) cs ps \<and>
     rank = row_major ps cs"
proof (induction ps arbitrary: rank)
  case (Cons p ps)
  define n where "n = prod_list ps"
  have n: "1 \<le> n" "1 \<le> p" using Cons.prems prod_list_pos [of ps] by (simp_all add: n_def)
  have r: "0 \<le> rank mod n" "rank mod n < n" "0 \<le> rank div n"
    using n Cons.prems(2) by (simp_all add: pos_imp_zdiv_nonneg_iff)
  obtain cs where cs: "grid_coords n (rank mod n) ps = Some cs" "list_all2 (\<lambda>c p. 0 \<le> c \<and> c < p) cs ps"
    "rank mod n = row_major ps cs"
    using Cons.IH [of "rank mod n"] Cons.prems(1) r by (auto simp: n_def)
  have "rank < p * n" using Cons.prems(3) by (simp add: n_def)
  then have "rank div n * n < p * n" using div_mult_mod_eq [of rank n] r(1) by linarith
  then have "rank div n < p" using n by simp
  moreover have "p * n sdiv p = n" using n by (simp add: sdiv_nonneg)
  moreover have "rank = rank div n * n + row_major ps cs" using cs(3) by (metis div_mult_mod_eq)
  ultimately show ?case
    using n r cs Cons.prems(2) by (auto simp: sdiv_nonneg smod_nonneg simp flip: n_def)
qed simp


text \<open>
  Process 3 of a grid of 2 by 2, an array of 5 by 4 elements of 4 bytes in Fortran order, the first
  dimension cyclic in blocks of 2, the second in blocks.
\<close>

definition demo_dims :: "(int \<times> distrib \<times> int option \<times> int) list" where
  "demo_dims = [(5, DISTRIBUTE_CYCLIC, Some 2, 2), (4, DISTRIBUTE_BLOCK, None, 2)]"


text \<open>
  Blocks of two elements in the slower dimension, over a block distribution of the faster one:
  process 0 of 2 gets the wrong elements of a 4 by 4 array of bytes. The first four bytes of its
  type should be 0, 1, 4, 5.
\<close>

lemma slow_cyclic_blocks_wrong:
  "map_option (take 4 \<circ> type_map (std_env (\<lambda>_. 1)))
     (ADIO_Type_create_darray (std_env (\<lambda>_. 1)) 2 0
        [(4, DISTRIBUTE_BLOCK, None, 2), (4, DISTRIBUTE_CYCLIC, Some 2, 1)] True (NAMED 0)) = Some [0, 1, 2, 3]"
  "take 4 (darray_elems [((4, DISTRIBUTE_BLOCK, None, 2), 0), ((4, DISTRIBUTE_CYCLIC, Some 2, 1), 0)]) = [0, 1, 4, 5]"
  by (simp_all add: ADIO_Type_create_darray_def MPIOI_Type_block_def MPIOI_Type_cyclic_def
      cyclic_local_size_def Let_def sdiv_nonneg smod_nonneg spread_def move_def block_size_def
      cyclic_size_def grid_def upto_rec1)

end
