(* ===== verification/Strided_IO.thy ===== *)
theory Strided_IO
  imports Access_List Cache_Sync
begin

text \<open>
  Strided reads and writes, one contiguous access per piece (\<open>ad_write_str_naive.c\<close>,
  \<open>ad_read_str_naive.c\<close>). The two functions walk through the buffer and the view side by side. The walk is
  modelled over the operations it calls (\<open>strided_ops\<close>); the theorems say which pieces it
  transfers, that it ends, and where it leaves the individual file pointer.
\<close>

section \<open>The functions\<close>

text \<open>
  The calls on the file: the contiguous transfer of a piece (its offset in the user's buffer, its
  length, its offset in the file), which \<open>None\<close> says does not return; the locks; the two file
  pointers.
\<close>

record 's strided_ops =
  contig_io :: "int \<Rightarrow> int \<Rightarrow> int \<Rightarrow> 's \<Rightarrow> (mpi_error \<times> 's) option"
  lock_region :: "int \<Rightarrow> int \<Rightarrow> 's \<Rightarrow> 's"
  unlock_region :: "int \<Rightarrow> int \<Rightarrow> 's \<Rightarrow> 's"
  store_fp_ind :: "int \<Rightarrow> 's \<Rightarrow> 's"
  forget_posn :: "'s \<Rightarrow> 's"

text \<open>What the functions take from the type of the buffer: size, extent, contiguity, flattened blocks.\<close>

record buftype =
  bt_size :: int
  bt_extent :: int
  bt_is_contig :: bool
  bt_blocks :: "(int \<times> int) list"

text \<open>Conversions to \<open>unsigned\<close> and to \<open>int\<close>, both 32 bits wide.\<close>

definition to_unsigned :: "int \<Rightarrow> int" where
  "to_unsigned x = x mod 2 ^ 32"

definition to_int :: "int \<Rightarrow> int" where
  "to_int x = (x + 2 ^ 31) mod 2 ^ 32 - 2 ^ 31"

text \<open>A transfer, after the assertion that its length is an \<open>int\<close>.\<close>

definition issue :: "(int \<Rightarrow> int \<Rightarrow> int \<Rightarrow> 's \<Rightarrow> (mpi_error \<times> 's) option) \<Rightarrow> int \<Rightarrow> int \<Rightarrow> int \<Rightarrow> 's \<Rightarrow> (mpi_error \<times> 's) option" where
  "issue io userbuf_off req_len req_off s = (if req_len = to_int req_len then io userbuf_off req_len req_off s else None)"

text \<open>
  A loop ends with an early return of the function, which hands on the error code, or with the file
  offset after the last piece.
\<close>

type_synonym 's loop_result = "((mpi_error \<times> 's) + ('s \<times> int)) option"

text \<open>Noncontiguous in memory, contiguous in the file: the regions of the buffer in their order.\<close>

definition regions :: "buftype \<Rightarrow> int \<Rightarrow> (int \<times> int) list" where
  "regions bt count = concat (map (\<lambda>b. map (\<lambda>(i, l). (b * bt_extent bt + i, l)) (bt_blocks bt)) [0..count - 1])"

fun memory_loop :: "(int \<Rightarrow> int \<Rightarrow> int \<Rightarrow> 's \<Rightarrow> (mpi_error \<times> 's) option) \<Rightarrow> (int \<times> int) list \<Rightarrow> int \<Rightarrow> 's \<Rightarrow> 's loop_result" where
  "memory_loop io [] off s = Some (Inr (s, off))"
| "memory_loop io ((u, l) # rs) off s =
     (case issue io u l off s of
        None \<Rightarrow> None
      | Some (e, s') \<Rightarrow> if e \<noteq> MPI_OK then Some (Inl (e, s')) else memory_loop io rs (off + l) s')"

text \<open>
  The starting point in a view that is not contiguous: block, number of the filetype, bytes left in
  the block, file offset. From the individual file pointer: the first block that ends at it or
  behind it, in the filetypes from the first one on.
\<close>

fun block_reaching :: "(int \<times> int) list \<Rightarrow> nat \<Rightarrow> int \<Rightarrow> int \<Rightarrow> (nat \<times> int) option" where
  "block_reaching [] i base start = None"
| "block_reaching ((idx, len) # bs) i base start =
     (if base + idx + len \<ge> start then Some (i, base + idx + len - start) else block_reaching bs (Suc i) base start)"

partial_function (option) individual_start :: "view \<Rightarrow> int \<Rightarrow> int \<Rightarrow> (nat \<times> int \<times> int \<times> int) option" where
  "individual_start v n start =
     (case block_reaching (blocks v) 0 (vdisp v + n * filetype_extent v) start of
        Some (i, left) \<Rightarrow> Some (i, n, left, start)
      | None \<Rightarrow> individual_start v (n + 1) start)"

text \<open>
  From an explicit offset. The write computes in 64 bits; the read keeps the number of etypes in an
  \<open>int\<close> and multiplies as \<open>unsigned\<close>.
\<close>

definition explicit_start :: "view \<Rightarrow> int \<Rightarrow> (nat \<times> int \<times> int \<times> int) option" where
  "explicit_start v offset =
     (let per = filetype_size v sdiv etype_size v in
      if etype_size v = 0 \<or> per = 0 then None
      else (let n = offset sdiv per;
                (i, left, pos) = explicit_scan (blocks v) 0 0 ((offset smod per) * etype_size v)
            in Some (i, n, left, vdisp v + n * filetype_extent v + pos)))"

definition explicit_start_read :: "view \<Rightarrow> int \<Rightarrow> (nat \<times> int \<times> int \<times> int) option" where
  "explicit_start_read v offset =
     (let per = to_int (filetype_size v sdiv etype_size v) in
      if etype_size v = 0 \<or> per = 0 then None
      else (let n = offset sdiv per;
                sz = to_unsigned (to_unsigned (to_int (offset smod per)) * to_unsigned (etype_size v));
                (i, left, pos) = explicit_scan (blocks v) 0 0 sz
            in Some (i, n, left, vdisp v + n * filetype_extent v + pos)))"

text \<open>The next block of the file, and its position.\<close>

definition advance :: "(int \<times> int) list \<Rightarrow> nat \<Rightarrow> int \<Rightarrow> nat \<times> int" where
  "advance bs j n = (if int j < int (length bs) - 1 then (j + 1, n) else (0, n + 1))"

definition file_pos :: "view \<Rightarrow> int \<Rightarrow> nat \<Rightarrow> int" where
  "file_pos v n j = vdisp v + fst (blocks v ! j) + n * filetype_extent v"

text \<open>The last byte that will be accessed, for the lock.\<close>

partial_function (option) end_loop :: "view \<Rightarrow> int \<Rightarrow> nat \<Rightarrow> int \<Rightarrow> int \<Rightarrow> int \<Rightarrow> int \<Rightarrow> int \<Rightarrow> int option" where
  "end_loop v bufsize j n off fwr_size userbuf_off end_offset =
     (if userbuf_off < bufsize then
        (let i' = userbuf_off + fwr_size; (j', n') = advance (blocks v) j n
         in if length (blocks v) \<le> j' then None
            else end_loop v bufsize j' n' (file_pos v n' j')
              (min (snd (blocks v ! j')) (bufsize - to_unsigned i')) i' (off + fwr_size - 1))
      else Some end_offset)"

text \<open>Contiguous in memory.\<close>

partial_function (option) file_loop ::
  "(int \<Rightarrow> int \<Rightarrow> int \<Rightarrow> 's \<Rightarrow> (mpi_error \<times> 's) option) \<Rightarrow> view \<Rightarrow> int \<Rightarrow> nat \<Rightarrow> int \<Rightarrow> int \<Rightarrow> int \<Rightarrow> int \<Rightarrow> 's \<Rightarrow> 's loop_result" where
  "file_loop io v bufsize j n off fwr_size userbuf_off s =
     (if userbuf_off < bufsize then
        (case (if fwr_size \<noteq> 0 then issue io userbuf_off fwr_size off s else Some (MPI_OK, s)) of
           None \<Rightarrow> None
         | Some (e, s') \<Rightarrow>
             if e \<noteq> MPI_OK then Some (Inl (e, s'))
             else if length (blocks v) \<le> j then None
             else (let i' = userbuf_off + fwr_size; (j', n') = advance (blocks v) j n
               in if off + fwr_size < vdisp v + fst (blocks v ! j) + snd (blocks v ! j) + n * filetype_extent v
                  then file_loop io v bufsize j n (off + fwr_size) fwr_size i' s'
                  else file_loop io v bufsize j' n' (file_pos v n' j')
                    (min (snd (blocks v ! j')) (bufsize - to_unsigned i')) i' s'))
      else Some (Inr (s, off)))"

text \<open>
  Noncontiguous in memory as well: at least one of the two blocks ends with each piece, and the
  other one is cut.
\<close>

definition memory_pos :: "buftype \<Rightarrow> nat \<Rightarrow> nat \<Rightarrow> int" where
  "memory_pos bt buf_count b_index =
     bt_extent bt * int (buf_count div length (bt_blocks bt)) + fst (bt_blocks bt ! b_index)"

partial_function (option) both_loop ::
  "(int \<Rightarrow> int \<Rightarrow> int \<Rightarrow> 's \<Rightarrow> (mpi_error \<times> 's) option) \<Rightarrow> view \<Rightarrow> buftype \<Rightarrow> int \<Rightarrow> nat \<Rightarrow> int \<Rightarrow> int \<Rightarrow> int \<Rightarrow>
   nat \<Rightarrow> nat \<Rightarrow> int \<Rightarrow> int \<Rightarrow> int \<Rightarrow> 's \<Rightarrow> 's loop_result" where
  "both_loop io v bt bufsize j n off fwr_size b_index buf_count i_offset bwr_size tmp_bufsize s =
     (if tmp_bufsize < bufsize then
        (let sz = min fwr_size bwr_size in
         case (if sz \<noteq> 0 then issue io i_offset sz off s else Some (MPI_OK, s)) of
           None \<Rightarrow> None
         | Some (e, s') \<Rightarrow>
             if e \<noteq> MPI_OK then Some (Inl (e, s'))
             else (let (j', n') = (if sz = fwr_size then advance (blocks v) j n else (j, n));
                       (b', c') = (if sz = bwr_size then ((b_index + 1) mod length (bt_blocks bt), buf_count + 1)
                                   else (b_index, buf_count))
               in if length (blocks v) \<le> j' \<or> length (bt_blocks bt) \<le> b' then None
                  else both_loop io v bt bufsize j' n'
                    (if sz = fwr_size then file_pos v n' j' else off + sz)
                    (if sz = fwr_size then snd (blocks v ! j') else fwr_size - sz)
                    b' c'
                    (if sz = bwr_size then memory_pos bt c' b' else i_offset + sz)
                    (if sz = bwr_size then snd (bt_blocks bt ! b') else bwr_size - sz)
                    (tmp_bufsize + sz) s'))
      else Some (Inr (s, off)))"

text \<open>
  The two parts of the functions. \<open>locking\<close> is the condition under which the region is locked:
  atomic mode on a file system with locks; \<open>unlocking\<close> the one for the unlock at the end. An
  early return goes past the unlock.
\<close>

definition finish :: "'s strided_ops \<Rightarrow> bool \<Rightarrow> bool \<Rightarrow> int \<Rightarrow> int \<Rightarrow> 's loop_result \<Rightarrow> (mpi_error \<times> 's) option" where
  "finish ops individual unlocking start_off end_offset r =
     (case r of
        None \<Rightarrow> None
      | Some (Inl (e, s)) \<Rightarrow> Some (e, s)
      | Some (Inr (s, off)) \<Rightarrow>
          (let s1 = (if unlocking then unlock_region ops start_off (end_offset - start_off + 1) s else s)
           in Some (MPI_OK, if individual then store_fp_ind ops off s1 else s1)))"

definition contiguous_in_file ::
  "'s strided_ops \<Rightarrow> view \<Rightarrow> buftype \<Rightarrow> int \<Rightarrow> bool \<Rightarrow> int \<Rightarrow> int \<Rightarrow> bool \<Rightarrow> 's \<Rightarrow> (mpi_error \<times> 's) option" where
  "contiguous_in_file ops v bt count individual fp offset locking s =
     (let off = (if individual then fp else vdisp v + etype_size v * offset);
          end_offset = off + bt_size bt * count - 1;
          s1 = (if locking then lock_region ops off (end_offset - off + 1) s else s)
      in finish ops individual locking off end_offset (memory_loop (contig_io ops) (regions bt count) off s1))"

definition noncontiguous_in_file ::
  "'s strided_ops \<Rightarrow> view \<Rightarrow> buftype \<Rightarrow> int \<Rightarrow> bool \<Rightarrow> (nat \<times> int \<times> int \<times> int) \<Rightarrow> bool \<Rightarrow> bool \<Rightarrow> 's \<Rightarrow> (mpi_error \<times> 's) option" where
  "noncontiguous_in_file ops v bt count individual start locking unlocking s =
     (let (st_index, n, st_fwr_size, start_off) = start; bufsize = bt_size bt * count in
      case end_loop v bufsize st_index n start_off (min st_fwr_size bufsize) 0 0 of
        None \<Rightarrow> None
      | Some end_offset \<Rightarrow>
          (let s1 = (if locking then lock_region ops start_off (end_offset - start_off + 1) s else s)
           in if \<not> (bt_is_contig bt \<and> \<not> filetype_is_contig v) \<and> bt_blocks bt = [] then None
              else finish ops individual unlocking start_off end_offset
                (if bt_is_contig bt \<and> \<not> filetype_is_contig v
                 then file_loop (contig_io ops) v bufsize st_index n start_off (min st_fwr_size bufsize) 0 s1
                 else both_loop (contig_io ops) v bt bufsize st_index n start_off st_fwr_size
                   0 0 (fst (bt_blocks bt ! 0)) (snd (bt_blocks bt ! 0)) 0 s1)))"

text \<open>
  The functions. The result is the error code, the number of bytes given to
  \<open>MPIR_Status_set_bytes\<close> (if it is called) and the file. The buffer type is the one
  \<open>ADIOI_Flatten_datatype\<close> has flattened.
\<close>

definition conclude :: "'s strided_ops \<Rightarrow> int \<Rightarrow> (mpi_error \<times> 's) option \<Rightarrow> (mpi_error \<times> int option \<times> 's) option" where
  "conclude ops bufsize r =
     (case r of
        None \<Rightarrow> None
      | Some (e, s) \<Rightarrow> if e \<noteq> MPI_OK then Some (e, None, s) else Some (MPI_OK, Some bufsize, forget_posn ops s))"

definition ADIOI_GEN_WriteStrided_naive ::
  "'s strided_ops \<Rightarrow> view \<Rightarrow> buftype \<Rightarrow> int \<Rightarrow> bool \<Rightarrow> int \<Rightarrow> int \<Rightarrow> bool \<Rightarrow> 's \<Rightarrow> (mpi_error \<times> int option \<times> 's) option" where
  "ADIOI_GEN_WriteStrided_naive ops v bt count individual fp offset locking s =
     (if filetype_size v = 0 then Some (MPI_OK, Some 0, s)
      else if bt_size bt * count \<noteq> to_unsigned (bt_size bt) * count then None
      else conclude ops (bt_size bt * count)
        (if \<not> bt_is_contig bt \<and> filetype_is_contig v
         then contiguous_in_file ops v bt count individual fp offset locking s
         else (case (if individual then individual_start v 0 fp else explicit_start v offset) of
            None \<Rightarrow> None
          | Some start \<Rightarrow> noncontiguous_in_file ops v bt count individual start locking locking s)))"

text \<open>
  The read. Its unlock at the end does not ask for the lock feature but for three file systems by
  name; \<open>unlocking\<close> is that condition.
\<close>

definition ADIOI_GEN_ReadStrided_naive ::
  "'s strided_ops \<Rightarrow> view \<Rightarrow> buftype \<Rightarrow> int \<Rightarrow> bool \<Rightarrow> int \<Rightarrow> int \<Rightarrow> bool \<Rightarrow> bool \<Rightarrow> 's \<Rightarrow> (mpi_error \<times> int option \<times> 's) option" where
  "ADIOI_GEN_ReadStrided_naive ops v bt count individual fp offset locking unlocking s =
     (if filetype_size v = 0 then Some (MPI_OK, Some 0, s)
      else conclude ops (bt_size bt * count)
        (if \<not> bt_is_contig bt \<and> filetype_is_contig v
         then contiguous_in_file ops v bt count individual fp offset locking s
         else (case (if individual then individual_start v 0 fp else explicit_start_read v offset) of
            None \<Rightarrow> None
          | Some start \<Rightarrow> noncontiguous_in_file ops v bt count individual start locking unlocking s)))"

section \<open>Pieces\<close>

text \<open>
  What a walk amounts to: a list of pieces (offset in the buffer, length, offset in the file),
  transferred in order until one fails.
\<close>

fun run_pieces :: "(int \<Rightarrow> int \<Rightarrow> int \<Rightarrow> 's \<Rightarrow> (mpi_error \<times> 's) option) \<Rightarrow> (int \<times> int \<times> int) list \<Rightarrow> 's \<Rightarrow> (mpi_error \<times> 's) option" where
  "run_pieces io [] s = Some (MPI_OK, s)"
| "run_pieces io ((u, l, p) # ps) s =
     (case io u l p s of
        None \<Rightarrow> None
      | Some (e, s') \<Rightarrow> if e \<noteq> MPI_OK then Some (e, s') else run_pieces io ps s')"

text \<open>The bytes of a list of pieces: where each is in the buffer and in the file.\<close>

definition piece_bytes :: "(int \<times> int \<times> int) list \<Rightarrow> (int \<times> int) list" where
  "piece_bytes ps = concat (map (\<lambda>(u, l, p). zip [u..u + l - 1] [p..p + l - 1]) ps)"

lemma piece_bytes_simps [simp]:
  "piece_bytes [] = []"
  "piece_bytes ((u, l, p) # ps) = zip [u..u + l - 1] [p..p + l - 1] @ piece_bytes ps"
  by (simp_all add: piece_bytes_def)

definition loop_end :: "int \<Rightarrow> (mpi_error \<times> 's) option \<Rightarrow> 's loop_result" where
  "loop_end off r = (case r of None \<Rightarrow> None
     | Some (e, s) \<Rightarrow> if e \<noteq> MPI_OK then Some (Inl (e, s)) else Some (Inr (s, off)))"

lemma loop_end_simps [simp]:
  "loop_end off None = None"
  "loop_end off (Some (e, s)) = (if e \<noteq> MPI_OK then Some (Inl (e, s)) else Some (Inr (s, off)))"
  by (simp_all add: loop_end_def)

lemma zip_pieces:
  assumes "[u..u + l - 1] = map f xs" "[p..p + l - 1] = map g xs"
  shows "zip [u..u + l - 1] [p..p + l - 1] = map (\<lambda>x. (f x, g x)) xs"
  unfolding assms by (induction xs) simp_all

lemma to_unsigned_id: "0 \<le> x \<Longrightarrow> x < 2 ^ 32 \<Longrightarrow> to_unsigned x = x"
  by (simp add: to_unsigned_def)

lemma to_int_id: "- (2 ^ 31) \<le> x \<Longrightarrow> x < 2 ^ 31 \<Longrightarrow> to_int x = x"
  by (simp add: to_int_def)

lemma issue_fits: "0 \<le> l \<Longrightarrow> l \<le> INT_MAX \<Longrightarrow> issue io u l p s = io u l p s"
  by (simp add: issue_def to_int_id INT_MAX_def)

section \<open>Cursors\<close>

text \<open>
  A cursor at byte \<open>b\<close> of a view: \<open>r\<close> bytes into block \<open>j\<close> of filetype \<open>n\<close>, at file offset \<open>off\<close>. It may be at
  the end of a block, and the block may be empty.
\<close>

definition at_cursor :: "view \<Rightarrow> int \<Rightarrow> nat \<Rightarrow> int \<Rightarrow> int \<Rightarrow> int \<Rightarrow> bool" where
  "at_cursor v n j r b off \<longleftrightarrow> j < length (blocks v) \<and> 0 \<le> n \<and> 0 \<le> r \<and> r \<le> snd (blocks v ! j) \<and>
     byte_at v n j r = b \<and> off = file_pos v n j + r"

lemma advance_next_block: "j < length bs \<Longrightarrow> advance bs j n = next_block bs j n"
  by (cases "Suc j = length bs") (auto simp: advance_def next_block_def Let_def)

text \<open>The number of empty blocks from \<open>j\<close> on.\<close>

definition gap :: "view \<Rightarrow> nat \<Rightarrow> nat" where
  "gap v j = (LEAST m. 0 < snd (blocks v ! ((j + m) mod length (blocks v))))"

lemma gap_step:
  assumes "walkable v" "j < length (blocks v)" "snd (blocks v ! j) = 0"
  shows "gap v (Suc j mod length (blocks v)) < gap v j"
proof -
  let ?L = "length (blocks v)" and ?P = "\<lambda>j m. 0 < snd (blocks v ! ((j + m) mod length (blocks v)))"
  have "blocks_size (blocks v) \<noteq> 0" using assms(1) by (simp add: walkable_def)
  then obtain k where k: "k < ?L" "snd (blocks v ! k) \<noteq> 0" using blocks_size_0 by (metis in_set_conv_nth)
  then have "?P j (k + ?L - j)" using assms(1,2) by (auto simp: walkable_def less_le)
  then have P: "?P j (gap v j)" unfolding gap_def by (rule LeastI)
  moreover have "\<not> ?P j 0" using assms(2,3) by simp
  ultimately obtain m where m: "gap v j = Suc m" by (metis not0_implies_Suc)
  have "?P (Suc j mod ?L) m" using P m by (simp add: mod_simps)
  then have "gap v (Suc j mod ?L) \<le> m" unfolding gap_def by (rule Least_le)
  then show ?thesis using m by simp
qed

definition idle :: "view \<Rightarrow> nat \<Rightarrow> int \<Rightarrow> nat" where
  "idle v j left = (if left = 0 then Suc (gap v (Suc j mod length (blocks v))) else 0)"

lemma cursor_within:
  assumes "walkable v" "at_cursor v n j r b off" "0 \<le> f" "r + f \<le> snd (blocks v ! j)"
  shows "at_cursor v n j (r + f) (b + f) (off + f)"
    and "[off..off + f - 1] = map (view_pos v) [b..b + f - 1]"
proof -
  show "at_cursor v n j (r + f) (b + f) (off + f)"
    using assms by (auto simp: at_cursor_def byte_at_def)
  show "[off..off + f - 1] = map (view_pos v) [b..b + f - 1]"
    using run_positions [OF assms(1), of j r f n] assms by (auto simp: at_cursor_def file_pos_def algebra_simps)
qed

lemma cursor_advance:
  assumes "walkable v" "at_cursor v n j r b off" "r = snd (blocks v ! j)" "advance (blocks v) j n = (j', n')"
  shows "at_cursor v n' j' 0 b (file_pos v n' j')"
    and "j' < length (blocks v)" "0 \<le> snd (blocks v ! j')"
    and "f = 0 \<longrightarrow> snd (blocks v ! j') = 0 \<Longrightarrow> idle v j' f < idle v j 0"
proof -
  have j: "j < length (blocks v)" "0 \<le> n" using assms(2) by (auto simp: at_cursor_def)
  then have nb: "next_block (blocks v) j n = (j', n')" using assms(4) advance_next_block by metis
  note nx = byte_at_next [OF assms(1) j(1) nb]
  show "j' < length (blocks v)" by (rule nx(1))
  then show pos: "0 \<le> snd (blocks v ! j')" using assms(1) by (simp add: walkable_def)
  have "n \<le> n'" using nb by (auto simp: next_block_def Let_def split: if_splits)
  then show "at_cursor v n' j' 0 b (file_pos v n' j')"
    using assms(2,3) nx pos j(2) by (auto simp: at_cursor_def)
  have "j' = Suc j mod length (blocks v)" using nb by (auto simp: next_block_def Let_def)
  then show "idle v j' f < idle v j 0" if "f = 0 \<longrightarrow> snd (blocks v ! j') = 0"
    using gap_step [OF assms(1) nx(1)] that by (auto simp: idle_def)
qed

definition walk_order :: "((nat \<times> nat) \<times> nat \<times> nat) set" where
  "walk_order = less_than <*lex*> less_than"

lemma wf_walk_order: "wf walk_order"
  by (simp add: walk_order_def wf_lex_prod)

lemma in_walk_order: "((a, b), (c, d)) \<in> walk_order \<longleftrightarrow> a < c \<or> a = c \<and> b < d"
  by (auto simp: walk_order_def)

section \<open>The loops\<close>

text \<open>
  The three loops over the file, from a cursor at byte \<open>b0 + i\<close> of the view when \<open>i\<close> bytes are done.
\<close>

lemma end_loop_ok:
  assumes "walkable v" "bufsize \<le> 2 ^ 32"
  shows "at_cursor v n j r (b0 + i) off \<Longrightarrow> 0 \<le> i \<Longrightarrow> i \<le> bufsize \<Longrightarrow> f = min (snd (blocks v ! j) - r) (bufsize - i) \<Longrightarrow>
    end_loop v bufsize j n off f i e = Some (if i < bufsize then view_pos v (b0 + bufsize - 1) else e)"
proof (induction "(nat (bufsize - i), idle v j f)" arbitrary: i j n r off f e rule: wf_induct_rule [OF wf_walk_order])
  case 1
  obtain j' n' where a: "advance (blocks v) j n = (j', n')" by force
  have f: "0 \<le> f" "r + f \<le> snd (blocks v ! j)" "i + f \<le> bufsize" using 1 by (auto simp: at_cursor_def)
  note w = cursor_within [OF assms(1) "1.prems"(1) f(1,2)]
  have j': "j' < length (blocks v)"
    using a "1.prems"(1) by (auto simp: advance_def at_cursor_def split: if_splits)
  show ?case
  proof (cases "i < bufsize \<and> i + f < bufsize")
    case True
    then have r: "r + f = snd (blocks v ! j)" using "1.prems"(4) by linarith
    define f' where "f' = min (snd (blocks v ! j')) (bufsize - (i + f))"
    have c: "at_cursor v n' j' 0 (b0 + (i + f)) (file_pos v n' j')" "f' = 0 \<longrightarrow> snd (blocks v ! j') = 0"
      using cursor_advance(1) [OF assms(1) w(1) r a] True by (auto simp: f'_def add.assoc)
    have "((nat (bufsize - (i + f)), idle v j' f'), nat (bufsize - i), idle v j f) \<in> walk_order"
      using cursor_advance(4) [OF assms(1) w(1) r a c(2)] f(1) True by (cases "f = 0") (auto simp: in_walk_order)
    then have "end_loop v bufsize j' n' (file_pos v n' j') f' (i + f) (off + f - 1) =
        Some (if i + f < bufsize then view_pos v (b0 + bufsize - 1) else off + f - 1)"
      by (rule "1.hyps" [OF _ c(1)]) (use f "1.prems"(2) in \<open>simp_all add: f'_def\<close>)
    moreover have "to_unsigned (i + f) = i + f" using assms(2) True f "1.prems" by (simp add: to_unsigned_id)
    ultimately show ?thesis
      using True j' by (subst end_loop.simps) (simp add: a f'_def [symmetric])
  next
    case False
    show ?thesis
    proof (cases "i < bufsize")
      case True
      then have i: "i + f = bufsize" "0 < f" using False f by auto
      have "[off..off + f - 1] ! nat (f - 1) = map (view_pos v) [b0 + i..b0 + i + f - 1] ! nat (f - 1)"
        using w(2) by simp
      then have "off + f - 1 = view_pos v (b0 + bufsize - 1)" using i by (simp add: algebra_simps)
      moreover have "end_loop v bufsize j' n' x y bufsize z = Some z" for x y z by (simp add: end_loop.simps)
      ultimately show ?thesis using True i j' by (subst end_loop.simps) (simp add: a)
    qed (simp add: end_loop.simps)
  qed
qed

text \<open>An offset at which a file pointer stands for byte \<open>b\<close> of the view.\<close>

definition fp_at :: "view \<Rightarrow> int \<Rightarrow> int \<Rightarrow> bool" where
  "fp_at v b off \<longleftrightarrow> (if filetype_is_contig v then off = vdisp v + b else \<exists>n j r. at_cursor v n j r b off)"

lemma cursor_fp_at: "walkable v \<Longrightarrow> at_cursor v n j r b off \<Longrightarrow> fp_at v b off"
  by (auto simp: fp_at_def walkable_def)

text \<open>Blocks that one transfer can carry.\<close>

definition small_blocks :: "view \<Rightarrow> bool" where
  "small_blocks v \<longleftrightarrow> (\<forall>b \<in> set (blocks v). snd b \<le> INT_MAX)"

lemma small_block: "small_blocks v \<Longrightarrow> j < length (blocks v) \<Longrightarrow> snd (blocks v ! j) \<le> INT_MAX"
  by (auto simp: small_blocks_def)

text \<open>
  Pieces that one transfer can carry each, at the bytes of the view from \<open>b0 + i\<close> on, one after the
  other. Only in a contiguous view may they be empty.
\<close>

fun placed :: "view \<Rightarrow> int \<Rightarrow> int \<Rightarrow> (int \<times> int \<times> int) list \<Rightarrow> bool" where
  "placed v b0 i [] \<longleftrightarrow> True"
| "placed v b0 i ((u, l, p) # ps) \<longleftrightarrow> 0 \<le> i \<and> 0 \<le> l \<and> l \<le> INT_MAX \<and> (0 < l \<or> filetype_is_contig v) \<and>
     p = view_pos v (b0 + i) \<and> placed v b0 (i + l) ps"

lemma placed_at: "placed v b0 i ps \<Longrightarrow> (u, l, p) \<in> set ps \<Longrightarrow> 0 \<le> l \<and> l \<le> INT_MAX \<and> (\<exists>k \<ge> 0. p = view_pos v (b0 + k))"
  by (induction v b0 i ps rule: placed.induct) auto

text \<open>A loop that transfers the bytes of the request from \<open>i\<close> on, in at most \<open>N\<close> pieces.\<close>

definition walks :: "(int \<Rightarrow> int) \<Rightarrow> (int \<Rightarrow> int \<Rightarrow> int \<Rightarrow> 's \<Rightarrow> (mpi_error \<times> 's) option) \<Rightarrow> view \<Rightarrow> int \<Rightarrow> int \<Rightarrow> int \<Rightarrow> nat \<Rightarrow>
    ('s \<Rightarrow> 's loop_result) \<Rightarrow> bool" where
  "walks mpos io v b0 bufsize i N loop \<longleftrightarrow> (\<exists>ps off'.
     (\<forall>s. loop s = loop_end off' (run_pieces io ps s)) \<and> placed v b0 i ps \<and> length ps \<le> N \<and>
     piece_bytes ps = map (\<lambda>k. (mpos k, view_pos v (b0 + k))) [i..bufsize - 1] \<and> fp_at v (b0 + bufsize) off')"

lemma walks_end:
  "fp_at v (b0 + i) off \<Longrightarrow> i = bufsize \<Longrightarrow> (\<And>s. loop s = Some (Inr (s, off))) \<Longrightarrow> walks mpos io v b0 bufsize i N loop"
  unfolding walks_def by (rule exI [of _ "[]"], rule exI [of _ off]) simp

lemma walks_Cons:
  assumes "walks mpos io v b0 bufsize (i + f) N loop'" "0 \<le> f" "f \<le> INT_MAX" "0 \<le> i" "i + f \<le> bufsize"
    and "p = view_pos v (b0 + i) \<and> (0 < f \<or> filetype_is_contig v)"
    and "[u..u + f - 1] = map mpos [i..i + f - 1]" "[p..p + f - 1] = map (view_pos v) [b0 + i..b0 + i + f - 1]"
    and "\<And>s. loop s = (case issue io u f p s of None \<Rightarrow> None
        | Some (e, s') \<Rightarrow> if e \<noteq> MPI_OK then Some (Inl (e, s')) else loop' s')"
  shows "walks mpos io v b0 bufsize i (Suc N) loop"
proof -
  obtain ps off' where ps: "\<And>s. loop' s = loop_end off' (run_pieces io ps s)" "placed v b0 (i + f) ps" "length ps \<le> N"
    "piece_bytes ps = map (\<lambda>k. (mpos k, view_pos v (b0 + k))) [i + f..bufsize - 1]" "fp_at v (b0 + bufsize) off'"
    using assms(1) unfolding walks_def by blast
  have "map (view_pos v) [b0 + i..b0 + i + f - 1] = map (\<lambda>k. view_pos v (b0 + k)) [i..i + f - 1]"
    by (rule nth_equalityI) (auto simp: algebra_simps)
  then have "zip [u..u + f - 1] [p..p + f - 1] = map (\<lambda>k. (mpos k, view_pos v (b0 + k))) [i..i + f - 1]"
    using zip_pieces assms(7,8) by metis
  moreover have "[i..bufsize - 1] = [i..i + f - 1] @ [i + f..bufsize - 1]"
    using upto_split1 [of i "i + f" "bufsize - 1"] assms(2,5) by (cases "i + f = bufsize") auto
  ultimately have "piece_bytes ((u, f, p) # ps) = map (\<lambda>k. (mpos k, view_pos v (b0 + k))) [i..bufsize - 1]"
    using ps(4) by simp
  moreover have "loop s = loop_end off' (run_pieces io ((u, f, p) # ps) s)" for s
    using assms(2,3,9) ps(1) by (simp add: issue_fits split: option.splits prod.splits)
  moreover have "placed v b0 i ((u, f, p) # ps)" using assms(2-6) ps(2) by simp
  ultimately show ?thesis
    using ps(3,5) unfolding walks_def
    by (intro exI [of _ "(u, f, p) # ps"] exI [of _ off']) auto
qed

lemma walks_piece:
  assumes "walks mpos io v b0 bufsize (i + f) (nat (bufsize - (i + f))) loop'"
    and "0 \<le> f" "f \<le> INT_MAX" "0 \<le> i" "i + f \<le> bufsize"
    and "[u..u + f - 1] = map mpos [i..i + f - 1]" "[p..p + f - 1] = map (view_pos v) [b0 + i..b0 + i + f - 1]"
    and "\<And>s. loop s = (case (if f \<noteq> 0 then issue io u f p s else Some (MPI_OK, s)) of None \<Rightarrow> None
        | Some (e, s') \<Rightarrow> if e \<noteq> MPI_OK then Some (Inl (e, s')) else loop' s')"
  shows "walks mpos io v b0 bufsize i (nat (bufsize - i)) loop"
proof (cases "f = 0")
  case True
  then have "loop = loop'" using assms(8) by (intro ext) simp
  then show ?thesis using True assms(1) by simp
next
  case False
  then have "hd [p..p + f - 1] = p" "hd (map (view_pos v) [b0 + i..b0 + i + f - 1]) = view_pos v (b0 + i)"
    using assms(2) by (simp_all add: upto_rec1)
  then have "p = view_pos v (b0 + i) \<and> (0 < f \<or> filetype_is_contig v)" using assms(2,7) False by simp
  then have "walks mpos io v b0 bufsize i (Suc (nat (bufsize - (i + f)))) loop"
    using walks_Cons [OF assms(1-5) _ assms(6,7), of loop] assms(8) False by simp
  moreover have "Suc (nat (bufsize - (i + f))) \<le> nat (bufsize - i)" using False assms(2,5) by linarith
  ultimately show ?thesis unfolding walks_def by (meson le_trans)
qed

lemma file_loop_ok:
  assumes "walkable v" "bufsize \<le> 2 ^ 32" "small_blocks v"
  shows "at_cursor v n j r (b0 + i) off \<Longrightarrow> 0 \<le> i \<Longrightarrow> i \<le> bufsize \<Longrightarrow> f = min (snd (blocks v ! j) - r) (bufsize - i) \<Longrightarrow>
    walks (\<lambda>k. k) io v b0 bufsize i (nat (bufsize - i)) (file_loop io v bufsize j n off f i)"
proof (induction "(nat (bufsize - i), idle v j f)" arbitrary: i j n r off f rule: wf_induct_rule [OF wf_walk_order])
  case 1
  obtain j' n' where a: "advance (blocks v) j n = (j', n')" by force
  have f: "0 \<le> f" "r + f \<le> snd (blocks v ! j)" "i + f \<le> bufsize" "j < length (blocks v)" "0 \<le> r"
    using 1 by (auto simp: at_cursor_def)
  then have small: "f \<le> INT_MAX" using small_block [OF assms(3) f(4)] by linarith
  note w = cursor_within [OF assms(1) "1.prems"(1) f(1,2)]
  have off: "off = file_pos v n j + r" using "1.prems"(1) by (simp add: at_cursor_def)
  show ?case
  proof (cases "i < bufsize")
    case True
    define loop' where "loop' = (if r + f < snd (blocks v ! j) then file_loop io v bufsize j n (off + f) f (i + f)
      else file_loop io v bufsize j' n' (file_pos v n' j') (min (snd (blocks v ! j')) (bufsize - to_unsigned (i + f))) (i + f))"
    have rest: "walks (\<lambda>k. k) io v b0 bufsize (i + f) (nat (bufsize - (i + f))) loop'"
    proof (cases "i + f < bufsize")
      case True
      then have r: "r + f = snd (blocks v ! j)" using "1.prems"(4) by linarith
      define f' where "f' = min (snd (blocks v ! j')) (bufsize - (i + f))"
      have c: "at_cursor v n' j' 0 (b0 + (i + f)) (file_pos v n' j')" "f' = 0 \<longrightarrow> snd (blocks v ! j') = 0"
        using cursor_advance(1) [OF assms(1) w(1) r a] True by (auto simp: f'_def add.assoc)
      have "((nat (bufsize - (i + f)), idle v j' f'), nat (bufsize - i), idle v j f) \<in> walk_order"
        using cursor_advance(4) [OF assms(1) w(1) r a c(2)] f(1) True by (cases "f = 0") (auto simp: in_walk_order)
      then have "walks (\<lambda>k. k) io v b0 bufsize (i + f) (nat (bufsize - (i + f))) (file_loop io v bufsize j' n' (file_pos v n' j') f' (i + f))"
        by (rule "1.hyps" [OF _ c(1)]) (use f "1.prems"(2) in \<open>simp_all add: f'_def\<close>)
      moreover have "to_unsigned (i + f) = i + f" using assms(2) True f "1.prems" by (simp add: to_unsigned_id)
      ultimately show ?thesis using r by (simp add: loop'_def f'_def)
    next
      case False
      define off' where "off' = (if r + f < snd (blocks v ! j) then off + f else file_pos v n' j')"
      have "fp_at v (b0 + (i + f)) off'"
        using w(1) cursor_advance(1) [OF assms(1) w(1) _ a] f(2) cursor_fp_at [OF assms(1)] unfolding off'_def
        by (cases "r + f < snd (blocks v ! j)") (auto simp: add.assoc)
      then show ?thesis
        by (rule walks_end) (use False f in \<open>auto simp: loop'_def off'_def file_loop.simps\<close>)
    qed
    have "(off + f < vdisp v + fst (blocks v ! j) + snd (blocks v ! j) + n * filetype_extent v) \<longleftrightarrow> r + f < snd (blocks v ! j)"
      using off by (auto simp: file_pos_def)
    note eq = this
    have step: "file_loop io v bufsize j n off f i s =
        (case (if f \<noteq> 0 then issue io i f off s else Some (MPI_OK, s)) of None \<Rightarrow> None
        | Some (e, s') \<Rightarrow> if e \<noteq> MPI_OK then Some (Inl (e, s')) else loop' s')" for s
      unfolding loop'_def eq [symmetric] using True f(4)
      by (subst file_loop.simps) (simp add: a Let_def split: option.splits)
    show ?thesis
      by (rule walks_piece [OF rest f(1) small "1.prems"(2) f(3) _ w(2) step]) simp
  next
    case False
    then show ?thesis
      using "1.prems" by (intro walks_end [of _ _ _ off]) (auto simp: file_loop.simps intro: cursor_fp_at [OF assms(1)])
  qed
qed

text \<open>The buffer is a view of memory: its bytes in the order of their transfer.\<close>

definition mem_view :: "buftype \<Rightarrow> view" where
  "mem_view bt = \<lparr>vdisp = 0, etype_size = 1, filetype_size = bt_size bt, filetype_extent = bt_extent bt,
     filetype_is_contig = bt_is_contig bt, blocks = bt_blocks bt\<rparr>"

lemma mem_view_simps [simp]:
  "vdisp (mem_view bt) = 0" "filetype_size (mem_view bt) = bt_size bt" "blocks (mem_view bt) = bt_blocks bt"
  "filetype_extent (mem_view bt) = bt_extent bt" "filetype_is_contig (mem_view bt) = bt_is_contig bt"
  by (simp_all add: mem_view_def)

lemma memory_pos_eq: "memory_pos bt c b = file_pos (mem_view bt) (int (c div length (bt_blocks bt))) b"
  by (simp add: memory_pos_def file_pos_def mult.commute)

lemma memory_advance:
  assumes "b = c mod length (bt_blocks bt)" "bt_blocks bt \<noteq> []"
  shows "advance (bt_blocks bt) b (int (c div length (bt_blocks bt))) =
    ((b + 1) mod length (bt_blocks bt), int (Suc c div length (bt_blocks bt)))"
proof -
  have "b < length (bt_blocks bt)" using assms by simp
  then show ?thesis
    using assms(1) by (auto simp: advance_next_block next_block_def Let_def div_Suc mod_Suc split: if_splits)
qed

lemma block_within_request:
  assumes "walkable v" "at_cursor v n j r i off" "i < filetype_size v * count"
  shows "i + (snd (blocks v ! j) - r) \<le> filetype_size v * count"
proof -
  let ?fs = "filetype_size v"
  have w: "0 < ?fs" "\<forall>b \<in> set (blocks v). 0 \<le> snd b" "?fs = blocks_size (blocks v)"
    using assms(1) by (auto simp: walkable_def)
  have c: "j < length (blocks v)" "0 \<le> r" "byte_at v n j r = i" using assms(2) by (auto simp: at_cursor_def)
  have "0 \<le> prefix_size (blocks v) j" "0 \<le> blocks_size (drop (Suc j) (blocks v))"
    using w(2) unfolding prefix_size_def by (auto intro!: blocks_size_nonneg dest: in_set_takeD in_set_dropD)
  then have "n * ?fs \<le> i" "i + (snd (blocks v ! j) - r) \<le> n * ?fs + ?fs"
    using prefix_split [OF c(1)] c(2,3) w(3) by (auto simp: byte_at_def)
  moreover have "n < count"
    using calculation(1) assms(3) w(1) by (metis mult.commute mult_less_cancel_left_pos order_le_less_trans)
  then have "(n + 1) * ?fs \<le> count * ?fs" using w(1) by (intro mult_right_mono) auto
  ultimately show ?thesis by (simp add: algebra_simps)
qed

text \<open>One side of the walk: a piece of \<open>sz\<close> bytes, then the next block if the piece was the rest of this one.\<close>

lemma cursor_step:
  assumes "walkable v" "at_cursor v n j r b off" "f = snd (blocks v ! j) - r" "0 \<le> sz" "sz \<le> f"
    and "(j', n') = (if sz = f then advance (blocks v) j n else (j, n))"
  defines "r' \<equiv> (if sz = f then 0 else r + sz)" and "f' \<equiv> (if sz = f then snd (blocks v ! j') else f - sz)"
    and "off' \<equiv> (if sz = f then file_pos v n' j' else off + sz)"
  shows "at_cursor v n' j' r' (b + sz) off'" "f' = snd (blocks v ! j') - r'"
    and "sz = 0 \<Longrightarrow> idle v j' f' \<le> idle v j f \<and> (f = 0 \<longrightarrow> idle v j' f' < idle v j f)"
    and "[off..off + sz - 1] = map (view_pos v) [b..b + sz - 1]"
proof -
  note w = cursor_within [OF assms(1,2,4)]
  show "[off..off + sz - 1] = map (view_pos v) [b..b + sz - 1]" using w(2) assms(3,5) by simp
  have "at_cursor v n' j' r' (b + sz) off' \<and> f' = snd (blocks v ! j') - r' \<and>
    (sz = 0 \<longrightarrow> idle v j' f' \<le> idle v j f \<and> (f = 0 \<longrightarrow> idle v j' f' < idle v j f))"
  proof (cases "sz = f")
    case True
    then have a: "advance (blocks v) j n = (j', n')" using assms(6) by simp
    have "at_cursor v n j (r + sz) (b + sz) (off + sz)" "r + sz = snd (blocks v ! j)" using w(1) True assms(3) by auto
    from cursor_advance [OF assms(1) this a] show ?thesis
      using True by (auto simp: r'_def f'_def off'_def less_imp_le)
  next
    case False
    then show ?thesis using w(1) assms(3,5,6) by (auto simp: r'_def f'_def off'_def)
  qed
  then show "at_cursor v n' j' r' (b + sz) off'" "f' = snd (blocks v ! j') - r'"
    "sz = 0 \<Longrightarrow> idle v j' f' \<le> idle v j f \<and> (f = 0 \<longrightarrow> idle v j' f' < idle v j f)" by blast+
qed

lemma both_loop_ok:
  assumes "walkable v" "walkable (mem_view bt)" "small_blocks v" "bufsize = bt_size bt * count"
  shows "at_cursor v n j r (b0 + i) off \<Longrightarrow> f = snd (blocks v ! j) - r \<Longrightarrow>
    at_cursor (mem_view bt) (int (c div length (bt_blocks bt))) b q i ioff \<Longrightarrow> g = snd (bt_blocks bt ! b) - q \<Longrightarrow>
    b = c mod length (bt_blocks bt) \<Longrightarrow> i \<le> bufsize \<Longrightarrow> 0 \<le> i \<Longrightarrow>
    walks (view_pos (mem_view bt)) io v b0 bufsize i (nat (bufsize - i)) (both_loop io v bt bufsize j n off f b c ioff g i)"
proof (induction "(nat (bufsize - i), idle v j f + idle (mem_view bt) b g)" arbitrary: i j n r off f b c q ioff g
    rule: wf_induct_rule [OF wf_walk_order])
  case 1
  let ?L = "length (bt_blocks bt)" and ?m = "mem_view bt"
  show ?case
  proof (cases "i < bufsize")
    case True
    define sz where "sz = min f g"
    obtain j' n' where jn: "(j', n') = (if sz = f then advance (blocks v) j n else (j, n))" by (metis prod.collapse)
    obtain b' c' where bc: "(b', c') = (if sz = g then ((b + 1) mod ?L, c + 1) else (b, c))" by (metis prod.collapse)
    have cur: "j < length (blocks v)" "b < ?L" "0 \<le> f" "0 \<le> g" "0 \<le> r"
      using "1.prems" by (auto simp: at_cursor_def)
    have sz: "0 \<le> sz" "sz \<le> f" "sz \<le> g" using cur by (auto simp: sz_def)
    have ne: "bt_blocks bt \<noteq> []" using cur(2) by auto
    have bc2: "(b', int (c' div ?L)) = (if sz = g then advance (blocks ?m) b (int (c div ?L)) else (b, int (c div ?L)))"
      using bc memory_advance [OF "1.prems"(5) ne] by (auto split: if_splits)
    have g: "g = snd (blocks ?m ! b) - q" using "1.prems"(4) by simp
    note F = cursor_step [OF assms(1) "1.prems"(1,2) sz(1,2) jn]
    note M = cursor_step [OF assms(2) "1.prems"(3) g sz(1,3) bc2]
    define f' where "f' = (if sz = f then snd (blocks v ! j') else f - sz)"
    define off' where "off' = (if sz = f then file_pos v n' j' else off + sz)"
    define g' where "g' = (if sz = g then snd (bt_blocks bt ! b') else g - sz)"
    define ioff' where "ioff' = (if sz = g then memory_pos bt c' b' else ioff + sz)"
    have fits: "i + sz \<le> bufsize"
      using block_within_request [OF assms(2) "1.prems"(3), of count] True sz(3) assms(4) g by simp
    have small: "f \<le> INT_MAX" using small_block [OF assms(3) cur(1)] "1.prems"(2) cur(5) by linarith
    have b': "b' = c' mod ?L" using bc "1.prems"(5) by (auto simp: mod_Suc_eq split: if_splits)
    have FM: "at_cursor v n' j' (if sz = f then 0 else r + sz) (b0 + (i + sz)) off'"
      "f' = snd (blocks v ! j') - (if sz = f then 0 else r + sz)"
      "at_cursor ?m (int (c' div ?L)) b' (if sz = g then 0 else q + sz) (i + sz) ioff'"
      "g' = snd (bt_blocks bt ! b') - (if sz = g then 0 else q + sz)"
      using F(1,2) M(1,2) by (simp_all only: f'_def off'_def g'_def ioff'_def memory_pos_eq add.assoc mem_view_simps)
    have "((nat (bufsize - (i + sz)), idle v j' f' + idle ?m b' g'), nat (bufsize - i), idle v j f + idle ?m b g) \<in> walk_order"
    proof (cases "sz = 0")
      case z: True
      then have "f = 0 \<or> g = 0" using cur by (auto simp: sz_def min_def split: if_splits)
      then show ?thesis using F(3) [OF z] M(3) [OF z] z unfolding f'_def g'_def in_walk_order by auto
    qed (use sz(1) True in \<open>auto simp: in_walk_order\<close>)
    moreover have "0 \<le> i + sz" using "1.prems"(7) sz(1) by simp
    ultimately have rest: "walks (view_pos ?m) io v b0 bufsize (i + sz) (nat (bufsize - (i + sz)))
        (both_loop io v bt bufsize j' n' off' f' b' c' ioff' g' (i + sz))"
      by (rule "1.hyps" [OF _ FM b' fits])
    have "\<not> (length (blocks v) \<le> j' \<or> ?L \<le> b')" using F(1) M(1) by (auto simp: at_cursor_def)
    then have step: "both_loop io v bt bufsize j n off f b c ioff g i s =
        (case (if sz \<noteq> 0 then issue io ioff sz off s else Some (MPI_OK, s)) of None \<Rightarrow> None
        | Some (e, s') \<Rightarrow> if e \<noteq> MPI_OK then Some (Inl (e, s'))
            else both_loop io v bt bufsize j' n' off' f' b' c' ioff' g' (i + sz) s')" for s
      using True
      by (subst both_loop.simps)
        (simp only: Let_def if_True if_False prod.case jn [symmetric] bc [symmetric] sz_def [symmetric]
          f'_def [symmetric] off'_def [symmetric] g'_def [symmetric] ioff'_def [symmetric])
    show ?thesis
      by (rule walks_piece [OF rest sz(1) _ "1.prems"(7) fits M(4) F(4) step]) (use small sz(2) in auto)
  next
    case False
    then show ?thesis
      using "1.prems" by (intro walks_end [of _ _ _ off]) (auto simp: both_loop.simps intro: cursor_fp_at [OF assms(1)])
  qed
qed

text \<open>The regions of the buffer are its bytes in order.\<close>

lemma upto_join: "a \<le> b \<Longrightarrow> b \<le> c \<Longrightarrow> [a..b - 1] @ [b..c - 1] = [a..(c :: int) - 1]"
  using upto_split1 [of a b "c - 1"] by (cases "b = c") auto

lemma prefix_nonneg: "\<forall>b \<in> set bs. 0 \<le> snd b \<Longrightarrow> 0 \<le> prefix_size bs j"
  unfolding prefix_size_def by (intro blocks_size_nonneg) (auto dest: in_set_takeD)

lemma one_instance:
  assumes "walkable (mem_view bt)"
  shows "j \<le> length (bt_blocks bt) \<Longrightarrow>
    concat (map (\<lambda>(i, l). [n * bt_extent bt + i..n * bt_extent bt + i + l - 1]) (take j (bt_blocks bt))) =
    map (view_pos (mem_view bt)) [n * bt_size bt..n * bt_size bt + prefix_size (bt_blocks bt) j - 1]"
proof (induction j)
  case (Suc j)
  let ?bs = "bt_blocks bt" and ?v = "mem_view bt"
  obtain i l where b: "?bs ! j = (i, l)" by force
  have j: "j < length ?bs" and l: "0 \<le> l" and p: "0 \<le> prefix_size ?bs j"
    using Suc.prems assms b nth_mem [of j ?bs] prefix_nonneg [of ?bs j] by (force simp: walkable_def)+
  have "[n * bt_extent bt + i..n * bt_extent bt + i + l - 1] =
      map (view_pos ?v) [n * bt_size bt + prefix_size ?bs j..n * bt_size bt + prefix_size ?bs j + l - 1]"
    using run_positions [OF assms, of j 0 l n] j l b by (simp add: byte_at_def)
  moreover have "[n * bt_size bt..n * bt_size bt + prefix_size ?bs (Suc j) - 1] =
      [n * bt_size bt..n * bt_size bt + prefix_size ?bs j - 1] @
      [n * bt_size bt + prefix_size ?bs j..n * bt_size bt + prefix_size ?bs j + l - 1]"
    using upto_join [of "n * bt_size bt" "n * bt_size bt + prefix_size ?bs j" "n * bt_size bt + prefix_size ?bs j + l"] p l j b
    by (simp add: add.assoc)
  ultimately show ?case
    using Suc.IH j b by (simp add: take_Suc_conv_app_nth)
qed simp

lemma concat_map_concat: "concat (map f (concat xss)) = concat (map (\<lambda>xs. concat (map f xs)) xss)"
  by (induction xss) simp_all

lemma regions_bytes:
  assumes "walkable (mem_view bt)" "0 \<le> count"
  shows "concat (map (\<lambda>(u, l). [u..u + l - 1]) (regions bt count)) =
    map (view_pos (mem_view bt)) [0..bt_size bt * count - 1]"
proof -
  let ?g = "\<lambda>b. concat (map (\<lambda>(i, l). [b * bt_extent bt + i..b * bt_extent bt + i + l - 1]) (bt_blocks bt))"
  have sz: "bt_size bt = blocks_size (bt_blocks bt)" "0 < bt_size bt" using assms(1) by (auto simp: walkable_def)
  have "concat (map ?g [0..int c - 1]) = map (view_pos (mem_view bt)) [0..int c * bt_size bt - 1]" for c
  proof (induction c)
    case (Suc c)
    have "[0..int (Suc c) - 1] = [0..int c - 1] @ [int c]" using upto_rec2 [of 0 "int c"] by simp
    moreover have "[0..int (Suc c) * bt_size bt - 1] = [0..int c * bt_size bt - 1] @ [int c * bt_size bt..int c * bt_size bt + bt_size bt - 1]"
      using upto_join [of 0 "int c * bt_size bt" "int c * bt_size bt + bt_size bt"] sz(2) by (simp add: algebra_simps)
    moreover have "?g (int c) = map (view_pos (mem_view bt)) [int c * bt_size bt..int c * bt_size bt + bt_size bt - 1]"
      using one_instance [OF assms(1) order_refl, of "int c"] sz(1) by simp
    ultimately show ?case using Suc by simp
  qed simp
  from this [of "nat count"] have "concat (map ?g [0..count - 1]) = map (view_pos (mem_view bt)) [0..bt_size bt * count - 1]"
    using assms(2) by (simp add: mult.commute)
  then show ?thesis
    by (simp add: regions_def concat_map_concat comp_def split_def)
qed

lemma memory_loop_ok:
  assumes "filetype_is_contig v"
  shows "concat (map (\<lambda>(u, l). [u..u + l - 1]) rs) = map mpos [i..bufsize - 1] \<Longrightarrow>
    \<forall>(u, l) \<in> set rs. 0 \<le> l \<and> l \<le> INT_MAX \<Longrightarrow> i \<le> bufsize \<Longrightarrow> 0 \<le> i \<Longrightarrow> off = vdisp v + (b0 + i) \<Longrightarrow>
    walks mpos io v b0 bufsize i (length rs) (memory_loop io rs off)"
proof (induction rs arbitrary: i off)
  case Nil
  then show ?case using assms by (intro walks_end [of v b0 i off]) (auto simp: fp_at_def upto_Nil2)
next
  case (Cons x rs)
  obtain u l where x: "x = (u, l)" by force
  have l: "0 \<le> l" "l \<le> INT_MAX" using Cons.prems(2) x by auto
  have eq: "[u..u + l - 1] @ concat (map (\<lambda>(u, l). [u..u + l - 1]) rs) = map mpos [i..bufsize - 1]"
    using Cons.prems(1) x by simp
  from arg_cong [OF this, of length] have fits: "i + l \<le> bufsize"
    using l(1) Cons.prems(3) by simp
  then have "map mpos [i..bufsize - 1] = map mpos [i..i + l - 1] @ map mpos [i + l..bufsize - 1]"
    using upto_join [of i "i + l" bufsize] l(1) by (metis le_add_same_cancel1 map_append)
  then have parts: "[u..u + l - 1] = map mpos [i..i + l - 1]"
    "concat (map (\<lambda>(u, l). [u..u + l - 1]) rs) = map mpos [i + l..bufsize - 1]"
    using eq by (auto simp: append_eq_append_conv)
  have rest: "walks mpos io v b0 bufsize (i + l) (length rs) (memory_loop io rs (off + l))"
    using Cons.IH [OF parts(2) _ fits] Cons.prems(2,4,5) l(1) by (simp add: add.assoc)
  have p: "[off..off + l - 1] = map (view_pos v) [b0 + i..b0 + i + l - 1]"
    using assms Cons.prems(5) by (intro nth_equalityI) (auto simp: view_pos_def)
  have "off = view_pos v (b0 + i) \<and> (0 < l \<or> filetype_is_contig v)" using assms Cons.prems(5) by (simp add: view_pos_def)
  from walks_Cons [OF rest l Cons.prems(4) fits this parts(1) p, of "memory_loop io ((u, l) # rs) off"]
  have "walks mpos io v b0 bufsize i (Suc (length rs)) (memory_loop io ((u, l) # rs) off)" by simp
  then show ?case unfolding x by (simp only: length_Cons)
qed

section \<open>Where the walk starts\<close>

lemma explicit_start_ok:
  assumes "access_ok False v" "\<not> filetype_is_contig v" "0 \<le> offset"
  shows "\<exists>j n r off. explicit_start v offset = Some (j, n, snd (blocks v ! j) - r, off) \<and>
    at_cursor v n j r (offset * etype_size v) off"
proof -
  have same: "explicit_start v offset = first_block v False 0 offset"
    by (simp add: explicit_start_def first_block_def)
  have es: "0 < etype_size v" "etype_size v dvd filetype_size v" "0 < filetype_size v"
    using assms(1,2) by (auto simp: access_ok_def)
  obtain j n r where s: "first_block v False 0 offset = Some (j, n, snd (blocks v ! j) - r, view_pos v (offset * etype_size v))"
    "j < length (blocks v)" "0 \<le> r" "byte_at v n j r = offset * etype_size v"
    "view_pos v (offset * etype_size v) = vdisp v + n * filetype_extent v + fst (blocks v ! j) + r"
    "r < snd (blocks v ! j) \<or> r = 0 \<and> snd (blocks v ! j) = 0" "0 \<le> n"
    using first_block_ok [OF assms(1,2), of "offset * etype_size v" 0 offset] assms(3) es(1) by (auto simp: starts_at_def)
  then show ?thesis using same by (auto simp: at_cursor_def file_pos_def)
qed

text \<open>In order, positions grow at least as fast as the bytes of the view.\<close>

lemma ordered0_gap:
  "ordered0 lo bs hi \<Longrightarrow> j < k \<Longrightarrow> k < length bs \<Longrightarrow>
   fst (bs ! j) + snd (bs ! j) + (prefix_size bs k - prefix_size bs (Suc j)) \<le> fst (bs ! k)"
  "ordered0 lo bs hi \<Longrightarrow> j < length bs \<Longrightarrow> lo + prefix_size bs j \<le> fst (bs ! j)"
  "ordered0 lo bs hi \<Longrightarrow> j < length bs \<Longrightarrow>
   fst (bs ! j) + snd (bs ! j) + (blocks_size bs - prefix_size bs (Suc j)) \<le> hi"
proof -
  have lo: "lo + prefix_size bs j \<le> fst (bs ! j)" if "ordered0 lo bs hi" "j < length bs" for lo bs hi j
    using that
  proof (induction lo bs hi arbitrary: j rule: ordered0.induct)
    case (2 lo idx len bs hi)
    show ?case using "2.IH" [of "j - 1"] "2.prems" by (cases j) (simp_all add: prefix_size_def)
  qed simp
  then show "ordered0 lo bs hi \<Longrightarrow> j < length bs \<Longrightarrow> lo + prefix_size bs j \<le> fst (bs ! j)" .
  show "fst (bs ! j) + snd (bs ! j) + (prefix_size bs k - prefix_size bs (Suc j)) \<le> fst (bs ! k)"
    if "ordered0 lo bs hi" "j < k" "k < length bs"
    using that
  proof (induction lo bs hi arbitrary: j k rule: ordered0.induct)
    case (2 lo idx len bs hi)
    obtain k' where k: "k = Suc k'" using "2.prems"(2) by (cases k) auto
    show ?case
    proof (cases j)
      case 0
      then show ?thesis using lo [of "idx + len" bs hi k'] "2.prems" k by (auto simp: prefix_size_def)
    next
      case (Suc j')
      then show ?thesis using "2.IH" [of j' k'] "2.prems" k by (simp add: prefix_size_def)
    qed
  qed simp
  show "fst (bs ! j) + snd (bs ! j) + (blocks_size bs - prefix_size bs (Suc j)) \<le> hi"
    if "ordered0 lo bs hi" "j < length bs"
    using that
  proof (induction lo bs hi arbitrary: j rule: ordered0.induct)
    case (2 lo idx len bs hi)
    show ?case
    proof (cases j)
      case 0
      then show ?thesis using ordered0_size [of "idx + len" bs hi] "2.prems" by (simp add: prefix_size_def)
    next
      case (Suc j')
      then show ?thesis using "2.IH" [of j'] "2.prems" by (simp add: prefix_size_def)
    qed
  qed simp
qed

definition in_order :: "view \<Rightarrow> bool" where
  "in_order v \<longleftrightarrow> ordered0 (fst (hd (blocks v))) (blocks v) (fst (hd (blocks v)) + filetype_extent v)"

lemma earlier_block:
  assumes "walkable v" "in_order v" "j < length (blocks v)" "j' < length (blocks v)" "n < n' \<or> n = n' \<and> j < j'"
  shows "file_pos v n j + snd (blocks v ! j) + (byte_at v n' j' 0 - byte_at v n j (snd (blocks v ! j))) \<le> file_pos v n' j'"
    and "byte_at v n j (snd (blocks v ! j)) \<le> byte_at v n' j' 0"
proof -
  let ?bs = "blocks v" and ?fs = "filetype_size v" and ?ext = "filetype_extent v"
  have w: "\<forall>b \<in> set ?bs. 0 \<le> snd b" "?fs = blocks_size ?bs" using assms(1) by (auto simp: walkable_def)
  note o = assms(2) [unfolded in_order_def]
  note sz = ordered0_size [OF o]
  have tail: "prefix_size ?bs (Suc j) \<le> ?fs"
    using prefix_split [OF assms(3)] w blocks_size_nonneg [of "drop (Suc j) ?bs"] assms(3) by (auto dest: in_set_dropD)
  have "file_pos v n j + snd (?bs ! j) + (byte_at v n' j' 0 - byte_at v n j (snd (?bs ! j))) \<le> file_pos v n' j' \<and>
    byte_at v n j (snd (?bs ! j)) \<le> byte_at v n' j' 0"
  proof (cases "n = n'")
    case True
    then have j: "j < j'" using assms(5) by simp
    have "prefix_size ?bs (Suc j) \<le> prefix_size ?bs j'"
    proof -
      have "take j' ?bs = take (Suc j) ?bs @ take (j' - Suc j) (drop (Suc j) ?bs)"
        using j by (metis Suc_leI le_add_diff_inverse take_add)
      moreover have "0 \<le> blocks_size (take (j' - Suc j) (drop (Suc j) ?bs))"
        using w(1) by (intro blocks_size_nonneg) (auto dest!: in_set_takeD in_set_dropD)
      ultimately show ?thesis by (simp add: prefix_size_def blocks_size_append)
    qed
    then show ?thesis
      using ordered0_gap(1) [OF o j assms(4)] True assms(3) by (simp add: byte_at_def file_pos_def)
  next
    case False
    then have n: "0 \<le> n' - n - 1" using assms(5) by simp
    have "(n' - n - 1) * ?fs \<le> (n' - n - 1) * ?ext" using sz w(2) n by (intro mult_left_mono) auto
    moreover have "0 \<le> (n' - n - 1) * ?fs" using n sz w(2) by simp
    moreover note ordered0_gap(2) [OF o assms(4)] ordered0_gap(3) [OF o assms(3)] prefix_nonneg [OF w(1), of j'] tail
    ultimately show ?thesis
      using assms(3) w(2) by (simp add: byte_at_def file_pos_def algebra_simps)
  qed
  then show "file_pos v n j + snd (blocks v ! j) + (byte_at v n' j' 0 - byte_at v n j (snd (blocks v ! j))) \<le> file_pos v n' j'"
    "byte_at v n j (snd (blocks v ! j)) \<le> byte_at v n' j' 0" by blast+
qed

lemma block_reaching_spec:
  "case block_reaching bs i base start of
     None \<Rightarrow> \<forall>k < length bs. base + fst (bs ! k) + snd (bs ! k) < start
   | Some (m, left) \<Rightarrow> \<exists>k. m = i + k \<and> k < length bs \<and> left = base + fst (bs ! k) + snd (bs ! k) - start \<and> 0 \<le> left \<and>
       (\<forall>k' < k. base + fst (bs ! k') + snd (bs ! k') < start)"
proof (induction bs i base start rule: block_reaching.induct)
  case (2 idx len bs i base start)
  show ?case
  proof (cases "base + idx + len \<ge> start")
    case True
    then show ?thesis by (auto intro!: exI [of _ 0])
  next
    case False
    show ?thesis
    proof (cases "block_reaching bs (Suc i) base start")
      case None
      then show ?thesis using "2.IH" [OF False] False by (auto simp: less_Suc_eq_0_disj nth_Cons split: nat.split)
    next
      case (Some ml)
      then obtain k where "ml = (Suc i + k, base + fst (bs ! k) + snd (bs ! k) - start)" "k < length bs"
        "start \<le> base + fst (bs ! k) + snd (bs ! k)" "\<forall>k' < k. base + fst (bs ! k') + snd (bs ! k') < start"
        using "2.IH" [OF False] by (cases ml) auto
      then show ?thesis
        using False Some by (auto simp: less_Suc_eq_0_disj intro!: exI [of _ "Suc k"])
    qed
  qed
qed simp

lemma individual_start_ok:
  assumes "walkable v" "in_order v" "at_cursor v n0 j0 r0 b fp"
  shows "0 \<le> n \<Longrightarrow> n \<le> n0 \<Longrightarrow>
    \<exists>j m r. individual_start v n fp = Some (j, m, snd (blocks v ! j) - r, fp) \<and> at_cursor v m j r b fp"
proof (induction "nat (n0 - n)" arbitrary: n rule: less_induct)
  case less
  have c: "j0 < length (blocks v)" "0 \<le> r0" "r0 \<le> snd (blocks v ! j0)" "byte_at v n0 j0 r0 = b" "fp = file_pos v n0 j0 + r0"
    using assms(3) by (auto simp: at_cursor_def)
  have pos: "vdisp v + m * filetype_extent v + fst (blocks v ! k) = file_pos v m k" for m k by (simp add: file_pos_def)
  note spec = block_reaching_spec [where bs = "blocks v" and i = 0 and base = "vdisp v + n * filetype_extent v" and start = fp, unfolded pos]
  show ?case
  proof (cases "block_reaching (blocks v) 0 (vdisp v + n * filetype_extent v) fp")
    case None
    then have "file_pos v n j0 + snd (blocks v ! j0) < fp" using spec c(1) by simp
    then have n: "n < n0" using c(3,5) less.prems(2) by (cases "n = n0") auto
    have "individual_start v n fp = individual_start v (n + 1) fp" by (subst individual_start.simps) (simp add: None)
    moreover have "nat (n0 - (n + 1)) < nat (n0 - n)" "0 \<le> n + 1" "n + 1 \<le> n0" using n less.prems by auto
    ultimately show ?thesis using less.hyps by metis
  next
    case (Some kl)
    then obtain k where k: "kl = (k, file_pos v n k + snd (blocks v ! k) - fp)" "k < length (blocks v)"
      "fp \<le> file_pos v n k + snd (blocks v ! k)" "\<forall>k' < k. file_pos v n k' + snd (blocks v ! k') < fp"
      using spec by (cases kl) auto
    have r: "individual_start v n fp = Some (k, n, snd (blocks v ! k) - (fp - file_pos v n k), fp)"
      by (subst individual_start.simps) (simp add: Some k(1))
    have "at_cursor v n k (fp - file_pos v n k) b fp"
    proof (cases "n = n0 \<and> k = j0")
      case True
      then show ?thesis using assms(3) c(5) by simp
    next
      case False
      have "k \<le> j0" if "n = n0" using k(4) that c(3,5) by (meson add_left_mono leI not_le order_le_less_trans)
      then have "n < n0 \<or> n = n0 \<and> k < j0" using False less.prems(2) by (cases "n = n0") auto
      note e = earlier_block [OF assms(1,2) k(2) c(1) this]
      have "fp = file_pos v n k + snd (blocks v ! k)" "r0 = 0" "byte_at v n k (snd (blocks v ! k)) = byte_at v n0 j0 0"
        using e k(3) c(2,5) by linarith+
      moreover have "0 \<le> snd (blocks v ! k)" using assms(1) k(2) by (simp add: walkable_def)
      ultimately show ?thesis using c(4) k(2) less.prems(1) by (simp add: at_cursor_def)
    qed
    with r show ?thesis by blast
  qed
qed

text \<open>Below 2 GB the narrow arithmetic of the read is exact.\<close>

lemma explicit_start_read_eq:
  assumes "0 < etype_size v" "0 < filetype_size v" "etype_size v dvd filetype_size v" "filetype_size v < 2 ^ 31" "0 \<le> offset"
  shows "explicit_start_read v offset = explicit_start v offset"
proof -
  obtain m where m: "filetype_size v = etype_size v * m" using assms(3) by blast
  then have mpos: "0 < m" using assms(1,2) by (simp add: zero_less_mult_iff)
  have per: "filetype_size v sdiv etype_size v = m" using m assms(1) mpos by (simp add: sdiv_nonneg)
  have "1 * m \<le> etype_size v * m" "etype_size v * 1 \<le> etype_size v * m" using assms(1) mpos by (intro mult_mono; simp)+
  then have lt: "m < 2 ^ 31" "etype_size v < 2 ^ 31" using assms(4) m by auto
  have o: "0 \<le> offset smod m" "offset smod m < m" using assms(5) mpos by (simp_all add: smod_nonneg)
  have "(offset smod m) * etype_size v < m * etype_size v" using o(2) assms(1) by (rule mult_strict_right_mono)
  then have "(offset smod m) * etype_size v < 2 ^ 32" using m assms(4) mult.commute [of m "etype_size v"] by auto
  then have "to_unsigned ((offset smod m) * etype_size v) = (offset smod m) * etype_size v"
    using assms(1) o(1) by (intro to_unsigned_id) simp_all
  moreover have "to_int m = m" "to_int (offset smod m) = offset smod m" "to_unsigned (offset smod m) = offset smod m"
    "to_unsigned (etype_size v) = etype_size v"
    using lt o mpos assms(1) by (simp_all add: to_int_id to_unsigned_id)
  ultimately show ?thesis by (simp add: explicit_start_read_def explicit_start_def per)
qed

section \<open>The functions are walks\<close>

text \<open>
  The requests: buffer or view are not contiguous, the blocks of both are not negative and make up
  the size of the type, the view has the etype as a unit, and the whole request is at most 4 GB. A
  file pointer needs the blocks of the view in order.
\<close>

definition strided_ok :: "bool \<Rightarrow> view \<Rightarrow> buftype \<Rightarrow> int \<Rightarrow> bool" where
  "strided_ok individual v bt count \<longleftrightarrow> \<not> (bt_is_contig bt \<and> filetype_is_contig v) \<and>
     0 < etype_size v \<and> 0 < filetype_size v \<and>
     (filetype_is_contig v \<or> walkable v \<and> small_blocks v \<and> etype_size v dvd filetype_size v \<and> (individual \<longrightarrow> in_order v)) \<and>
     (bt_is_contig bt \<or> walkable (mem_view bt) \<and> small_blocks (mem_view bt)) \<and>
     0 \<le> bt_size bt \<and> bt_size bt < 2 ^ 32 \<and> 0 \<le> count \<and> bt_size bt * count \<le> 2 ^ 32"

definition request_at :: "view \<Rightarrow> bool \<Rightarrow> int \<Rightarrow> int \<Rightarrow> int \<Rightarrow> bool" where
  "request_at v individual fp offset b0 \<longleftrightarrow>
     (if individual then fp_at v b0 fp else 0 \<le> offset \<and> b0 = offset * etype_size v)"

text \<open>What a call does with its pieces: lock, transfer until the first error, unlock, move the file pointer.\<close>

definition transfer :: "'s strided_ops \<Rightarrow> bool \<Rightarrow> bool \<Rightarrow> bool \<Rightarrow> int \<Rightarrow> int \<Rightarrow> (int \<times> int \<times> int) list \<Rightarrow> int \<Rightarrow> int \<Rightarrow> 's \<Rightarrow> (mpi_error \<times> int option \<times> 's) option" where
  "transfer ops individual locking unlocking start len ps off bufsize s =
     (case run_pieces (contig_io ops) ps (if locking then lock_region ops start len s else s) of
        None \<Rightarrow> None
      | Some (e, s1) \<Rightarrow>
          if e \<noteq> MPI_OK then Some (e, None, s1)
          else (let s2 = (if unlocking then unlock_region ops start len s1 else s1);
                    s3 = (if individual then store_fp_ind ops off s2 else s2)
                in Some (MPI_OK, Some bufsize, forget_posn ops s3)))"

text \<open>The pieces are the request: the bytes of the buffer in order, at the bytes of the view from \<open>b0\<close> on.
  At most one piece per byte is needed, or one per region of the buffer.\<close>

definition max_pieces :: "view \<Rightarrow> buftype \<Rightarrow> int \<Rightarrow> nat" where
  "max_pieces v bt count = (if filetype_is_contig v then nat count * length (bt_blocks bt) else nat (bt_size bt * count))"

definition serves :: "view \<Rightarrow> buftype \<Rightarrow> int \<Rightarrow> int \<Rightarrow> (int \<times> int \<times> int) list \<Rightarrow> bool" where
  "serves v bt count b0 ps \<longleftrightarrow>
     piece_bytes ps = map (\<lambda>k. (view_pos (mem_view bt) k, view_pos v (b0 + k))) [0..bt_size bt * count - 1] \<and>
     placed v b0 0 ps \<and> length ps \<le> max_pieces v bt count"

lemma walks_finish:
  assumes "walks (view_pos (mem_view bt)) (contig_io ops) v b0 bufsize 0 (max_pieces v bt count) loop" "e - start + 1 = len"
    and "bufsize = bt_size bt * count"
  shows "\<exists>ps off. (\<forall>s. conclude ops bufsize (finish ops individual unlocking start e
        (loop (if locking then lock_region ops start (e - start + 1) s else s))) =
      transfer ops individual locking unlocking start len ps off bufsize s) \<and>
    serves v bt count b0 ps \<and> fp_at v (b0 + bufsize) off"
proof -
  obtain ps off where ps: "\<And>s. loop s = loop_end off (run_pieces (contig_io ops) ps s)"
    and rest: "serves v bt count b0 ps" "fp_at v (b0 + bufsize) off"
    using assms(1,3) unfolding walks_def serves_def by blast
  have "conclude ops bufsize (finish ops individual unlocking start e
        (loop (if locking then lock_region ops start (e - start + 1) s else s))) =
      transfer ops individual locking unlocking start len ps off bufsize s" for s
    using assms(2) by (auto simp: ps transfer_def finish_def conclude_def Let_def split: option.splits prod.splits)
  with rest show ?thesis by blast
qed

lemma contiguous_in_file_ok:
  assumes "strided_ok individual v bt count" "filetype_is_contig v" "request_at v individual fp offset b0"
  shows "\<exists>ps off. (\<forall>s. conclude ops (bt_size bt * count) (contiguous_in_file ops v bt count individual fp offset locking s) =
      transfer ops individual locking locking (vdisp v + b0) (bt_size bt * count) ps off (bt_size bt * count) s) \<and>
    serves v bt count b0 ps \<and> fp_at v (b0 + bt_size bt * count) off"
proof -
  have bt: "\<not> bt_is_contig bt" "walkable (mem_view bt)" "small_blocks (mem_view bt)" "0 \<le> count" "0 \<le> bt_size bt * count"
    using assms(1,2) by (auto simp: strided_ok_def)
  have off: "(if individual then fp else vdisp v + etype_size v * offset) = vdisp v + b0"
    using assms(2,3) by (auto simp: request_at_def fp_at_def mult.commute)
  have "\<forall>(u, l) \<in> set (regions bt count). 0 \<le> l \<and> l \<le> INT_MAX"
    using bt(2,3) by (auto simp: regions_def walkable_def small_blocks_def)
  then have "walks (view_pos (mem_view bt)) (contig_io ops) v b0 (bt_size bt * count) 0 (length (regions bt count))
      (memory_loop (contig_io ops) (regions bt count) (vdisp v + b0))"
    by (rule memory_loop_ok [OF assms(2) regions_bytes [OF bt(2,4)] _ bt(5)]) simp_all
  moreover have "length (regions bt count) = max_pieces v bt count"
    using assms(2) bt(4) by (simp add: regions_def max_pieces_def length_concat comp_def sum_list_triv)
  ultimately have "walks (view_pos (mem_view bt)) (contig_io ops) v b0 (bt_size bt * count) 0 (max_pieces v bt count)
      (memory_loop (contig_io ops) (regions bt count) (vdisp v + b0))" by simp
  from walks_finish [OF this, of "vdisp v + b0 + bt_size bt * count - 1" "vdisp v + b0" "bt_size bt * count", OF _ refl, of individual locking locking]
  show ?thesis unfolding contiguous_in_file_def Let_def off by simp
qed

lemma noncontiguous_in_file_ok:
  assumes "strided_ok individual v bt count" "\<not> filetype_is_contig v" "at_cursor v n j r b0 start"
  shows "\<exists>ps off len. (\<forall>s. conclude ops (bt_size bt * count)
      (noncontiguous_in_file ops v bt count individual (j, n, snd (blocks v ! j) - r, start) locking unlocking s) =
        transfer ops individual locking unlocking start len ps off (bt_size bt * count) s) \<and>
    serves v bt count b0 ps \<and> fp_at v (b0 + bt_size bt * count) off \<and>
    (0 < bt_size bt * count \<longrightarrow> start + len = view_pos v (b0 + bt_size bt * count - 1) + 1)"
proof -
  let ?n = "bt_size bt * count" and ?left = "snd (blocks v ! j) - r"
  have v: "walkable v" "small_blocks v" "0 \<le> ?n" "?n \<le> 2 ^ 32"
    and bt: "bt_is_contig bt \<or> walkable (mem_view bt)" using assms(1,2) by (auto simp: strided_ok_def)
  have c: "at_cursor v n j r (b0 + 0) start" using assms(3) by simp
  define e where "e = (if 0 < ?n then view_pos v (b0 + ?n - 1) else 0)"
  have e: "end_loop v ?n j n start (min ?left ?n) 0 0 = Some e"
    using end_loop_ok [OF v(1,4) c order_refl v(3), of "min ?left ?n" 0] by (simp add: e_def)
  define loop where "loop = (if bt_is_contig bt then file_loop (contig_io ops) v ?n j n start (min ?left ?n) 0
    else both_loop (contig_io ops) v bt ?n j n start ?left 0 0 (fst (bt_blocks bt ! 0)) (snd (bt_blocks bt ! 0)) 0)"
  have ne: "bt_blocks bt \<noteq> []" if "\<not> bt_is_contig bt" using bt that by (auto simp: walkable_def)
  have "walks (view_pos (mem_view bt)) (contig_io ops) v b0 ?n 0 (nat (?n - 0)) loop"
  proof (cases "bt_is_contig bt")
    case True
    have "view_pos (mem_view bt) = (\<lambda>k. k)" using True by (intro ext) (simp add: view_pos_def)
    then show ?thesis using True file_loop_ok [OF v(1,4,2) c order_refl v(3) refl] by (simp add: loop_def)
  next
    case False
    then have w: "walkable (mem_view bt)" using bt by simp
    then have "at_cursor (mem_view bt) (int (0 div length (bt_blocks bt))) 0 0 0 (fst (bt_blocks bt ! 0))"
      using ne [OF False] by (auto simp: at_cursor_def byte_at_def file_pos_def walkable_def)
    then show ?thesis
      using False both_loop_ok [OF v(1) w v(2) refl c refl, of 0 0 0 "fst (bt_blocks bt ! 0)" "snd (bt_blocks bt ! 0)" count] v(3) by (simp add: loop_def)
  qed
  then have "walks (view_pos (mem_view bt)) (contig_io ops) v b0 ?n 0 (max_pieces v bt count) loop"
    using assms(2) by (simp add: max_pieces_def)
  from walks_finish [OF this refl refl, of individual unlocking start e locking]
  obtain ps off where ps: "\<And>s. conclude ops ?n (finish ops individual unlocking start e
        (loop (if locking then lock_region ops start (e - start + 1) s else s))) =
      transfer ops individual locking unlocking start (e - start + 1) ps off ?n s"
    "serves v bt count b0 ps" "fp_at v (b0 + ?n) off" by blast
  have "conclude ops ?n (noncontiguous_in_file ops v bt count individual (j, n, ?left, start) locking unlocking s) =
      transfer ops individual locking unlocking start (e - start + 1) ps off ?n s" for s
    using ps(1) [of s] e ne assms(2) by (auto simp: noncontiguous_in_file_def Let_def loop_def)
  then show ?thesis
    using ps(2,3) by (intro exI [of _ ps] exI [of _ off] exI [of _ "e - start + 1"]) (simp add: e_def)
qed

lemma start_ok:
  assumes "strided_ok individual v bt count" "\<not> filetype_is_contig v" "request_at v individual fp offset b0"
  shows "\<exists>j n r start. (if individual then individual_start v 0 fp else explicit_start v offset) =
      Some (j, n, snd (blocks v ! j) - r, start) \<and> at_cursor v n j r b0 start"
proof (cases individual)
  case True
  then obtain n j r where c: "at_cursor v n j r b0 fp" using assms(2,3) by (auto simp: request_at_def fp_at_def)
  moreover have "walkable v" "in_order v" "0 \<le> n" using assms(1,2) True c by (auto simp: strided_ok_def at_cursor_def)
  ultimately show ?thesis using individual_start_ok [of v n j r b0 fp 0] True by auto
next
  case False
  moreover have "access_ok False v" using assms(1) by (auto simp: strided_ok_def access_ok_def)
  ultimately show ?thesis using explicit_start_ok assms(2,3) by (auto simp: request_at_def)
qed

lemma strided_write_ok:
  assumes "strided_ok individual v bt count" "request_at v individual fp offset b0"
  shows "\<exists>ps off start len. (\<forall>s. ADIOI_GEN_WriteStrided_naive ops v bt count individual fp offset locking s =
      transfer ops individual locking locking start len ps off (bt_size bt * count) s) \<and>
    serves v bt count b0 ps \<and> fp_at v (b0 + bt_size bt * count) off \<and>
    fp_at v b0 start \<and> (0 < bt_size bt * count \<longrightarrow> start + len = view_pos v (b0 + bt_size bt * count - 1) + 1)"
proof -
  have sz: "filetype_size v \<noteq> 0" "to_unsigned (bt_size bt) = bt_size bt"
    using assms(1) by (auto simp: strided_ok_def to_unsigned_id)
  show ?thesis
  proof (cases "filetype_is_contig v")
    case True
    have "\<not> bt_is_contig bt" using assms(1) True by (auto simp: strided_ok_def)
    moreover obtain ps off where "\<forall>s. conclude ops (bt_size bt * count) (contiguous_in_file ops v bt count individual fp offset locking s) =
        transfer ops individual locking locking (vdisp v + b0) (bt_size bt * count) ps off (bt_size bt * count) s"
      "serves v bt count b0 ps" "fp_at v (b0 + bt_size bt * count) off"
      using contiguous_in_file_ok [OF assms(1) True assms(2)] by blast
    ultimately show ?thesis
      using True sz by (intro exI [of _ ps] exI [of _ off] exI [of _ "vdisp v + b0"] exI [of _ "bt_size bt * count"])
        (simp add: ADIOI_GEN_WriteStrided_naive_def fp_at_def view_pos_def)
  next
    case False
    obtain j n r start where st: "(if individual then individual_start v 0 fp else explicit_start v offset) =
        Some (j, n, snd (blocks v ! j) - r, start)" "at_cursor v n j r b0 start"
      using start_ok [OF assms(1) False assms(2)] by blast
    have "fp_at v b0 start" using st(2) False by (auto simp: fp_at_def)
    moreover have "ADIOI_GEN_WriteStrided_naive ops v bt count individual fp offset locking s = conclude ops (bt_size bt * count)
        (noncontiguous_in_file ops v bt count individual (j, n, snd (blocks v ! j) - r, start) locking locking s)" for s
      using False sz by (simp add: ADIOI_GEN_WriteStrided_naive_def st(1))
    ultimately show ?thesis
      using noncontiguous_in_file_ok [OF assms(1) False st(2), of ops locking locking] by auto
  qed
qed

lemma strided_read_ok:
  assumes "strided_ok individual v bt count" "request_at v individual fp offset b0" "filetype_size v < 2 ^ 31"
  shows "\<exists>ps off start len unlk. (\<forall>s. ADIOI_GEN_ReadStrided_naive ops v bt count individual fp offset locking unlocking s =
      transfer ops individual locking unlk start len ps off (bt_size bt * count) s) \<and>
    serves v bt count b0 ps \<and> fp_at v (b0 + bt_size bt * count) off \<and>
    unlk = (if filetype_is_contig v then locking else unlocking)"
proof (cases "filetype_is_contig v")
  case True
  moreover have "\<not> bt_is_contig bt" "filetype_size v \<noteq> 0" using assms(1) True by (auto simp: strided_ok_def)
  ultimately show ?thesis
    using contiguous_in_file_ok [OF assms(1) True assms(2), of ops locking]
    by (simp add: ADIOI_GEN_ReadStrided_naive_def) blast
next
  case False
  obtain j n r start where st: "(if individual then individual_start v 0 fp else explicit_start v offset) =
      Some (j, n, snd (blocks v ! j) - r, start)" "at_cursor v n j r b0 start"
    using start_ok [OF assms(1) False assms(2)] by blast
  have "explicit_start_read v offset = explicit_start v offset" if "\<not> individual"
    using assms False that by (intro explicit_start_read_eq) (auto simp: strided_ok_def request_at_def)
  then have "(if individual then individual_start v 0 fp else explicit_start_read v offset) =
      Some (j, n, snd (blocks v ! j) - r, start)" using st(1) by (cases individual) auto
  then have "ADIOI_GEN_ReadStrided_naive ops v bt count individual fp offset locking unlocking s = conclude ops (bt_size bt * count)
      (noncontiguous_in_file ops v bt count individual (j, n, snd (blocks v ! j) - r, start) locking unlocking s)" for s
    using False assms(1) by (simp add: ADIOI_GEN_ReadStrided_naive_def strided_ok_def)
  then show ?thesis
    using noncontiguous_in_file_ok [OF assms(1) False st(2), of ops locking unlocking] False by auto
qed

section \<open>Properties\<close>


text \<open>A file that records the pieces, and 16 bytes of a buffer with holes at the file pointer of a view with markers.\<close>

definition log_ops :: "(int \<times> int \<times> int) list strided_ops" where
  "log_ops = \<lparr>contig_io = (\<lambda>u l p s. Some (MPI_OK, s @ [(u, l, p)])), lock_region = (\<lambda>_ _ s. s), unlock_region = (\<lambda>_ _ s. s),
     store_fp_ind = (\<lambda>_ s. s), forget_posn = (\<lambda>s. s)\<rparr>"

definition holed_buffer :: buftype where
  "holed_buffer = \<lparr>bt_size = 8, bt_extent = 16, bt_is_contig = False, bt_blocks = [(0, 3), (6, 5)]\<rparr>"

lemma marked_view_strided: "strided_ok True marked_view holed_buffer 2" "fp_at marked_view 4 112"
proof -
  show "strided_ok True marked_view holed_buffer 2"
    by (simp add: strided_ok_def walkable_def small_blocks_def in_order_def marked_view_def holed_buffer_def blocks_size_def
        mem_view_def INT_MAX_def)
  have "at_cursor marked_view 0 2 0 4 112"
    by (simp add: at_cursor_def byte_at_def prefix_size_def blocks_size_def file_pos_def marked_view_def numeral_2_eq_2)
  then show "fp_at marked_view 4 112" by (auto simp: fp_at_def marked_view_def)
qed


text \<open>
  The early return after a failed transfer goes past the unlock: when the first transfer fails, the
  file is left as the lock left it.
\<close>

lemma failed_strided_write_keeps_lock:
  assumes "strided_ok individual v bt count" "request_at v individual fp offset b0" "0 < bt_size bt * count"
    and "\<And>u l p s. contig_io ops u l p s = Some (MPI_ERR_IO, s)"
  shows "\<exists>start len. ADIOI_GEN_WriteStrided_naive ops v bt count individual fp offset True s =
    Some (MPI_ERR_IO, None, lock_region ops start len s)"
proof -
  obtain ps off start len where t: "ADIOI_GEN_WriteStrided_naive ops v bt count individual fp offset True s =
      transfer ops individual True True start len ps off (bt_size bt * count) s" "serves v bt count b0 ps"
    using strided_write_ok [OF assms(1,2), of ops True] by metis
  have "ps \<noteq> []" using t(2) assms(3) by (auto simp: serves_def)
  then have "transfer ops individual True True start len ps off (bt_size bt * count) s =
      Some (MPI_ERR_IO, None, lock_region ops start len s)"
    using assms(4) by (cases ps) (auto simp: transfer_def)
  then show ?thesis using t(1) by metis
qed

text \<open>
  Beyond 4 GB: the rest of the buffer is computed with the number of bytes done cut to 32 bits. Of
  a request of \<open>6442450951\<close> bytes the last piece has 10, but a whole block is written.
\<close>

definition wide_view :: view where
  "wide_view = \<lparr>vdisp = 0, etype_size = 1, filetype_size = INT_MAX, filetype_extent = 2 * INT_MAX,
     filetype_is_contig = False, blocks = [(0, INT_MAX)]\<rparr>"

lemma strided_write_overruns_buffer:
  "file_loop (contig_io log_ops) wide_view (3 * INT_MAX + 10) 0 0 0 INT_MAX 0 [] =
    Some (Inr ([(0, INT_MAX, 0), (INT_MAX, INT_MAX, 2 * INT_MAX), (2 * INT_MAX, INT_MAX, 4 * INT_MAX),
      (3 * INT_MAX, INT_MAX, 6 * INT_MAX)], 8 * INT_MAX))"
  by (simp add: file_loop.simps log_ops_def wide_view_def INT_MAX_def issue_def to_int_def to_unsigned_def
      advance_def file_pos_def)

text \<open>
  A filetype of 4 GB: the read divides by zero, the write does not.
\<close>

lemma strided_read_divides_by_zero:
  "explicit_start_read \<lparr>vdisp = 0, etype_size = 1, filetype_size = 2 ^ 32, filetype_extent = 2 ^ 33,
     filetype_is_contig = False, blocks = [(0, 2 ^ 31), (2 ^ 32, 2 ^ 31)]\<rparr> 1 = None"
  "explicit_start \<lparr>vdisp = 0, etype_size = 1, filetype_size = 2 ^ 32, filetype_extent = 2 ^ 33,
     filetype_is_contig = False, blocks = [(0, 2 ^ 31), (2 ^ 32, 2 ^ 31)]\<rparr> 1 = Some (0, 0, 2 ^ 31 - 1, 1)"
  by (simp_all add: explicit_start_read_def explicit_start_def to_int_def to_unsigned_def Let_def signed_divide_int_def signed_modulo_int_def)

end
