(* ===== verification/Strided_File.thy ===== *)
theory Strided_File
  imports Strided_IO Cache_IO
begin

text \<open>
  Strided reads and writes of a file: \<open>Strided_IO\<close> over the contiguous operations of \<open>Cache_IO\<close>. What
  the walks rely on is an interface, a store of bytes that takes contiguous reads and writes; it is
  interpreted on a file without a cache and on a file with a cache.
\<close>

section \<open>Copying byte by byte\<close>

text \<open>For each pair, the value of \<open>h\<close> at the first part goes to the second; later pairs win.\<close>

fun assign :: "('a \<Rightarrow> 'b) \<Rightarrow> ('a \<times> 'k) list \<Rightarrow> ('k \<Rightarrow> 'b) \<Rightarrow> 'k \<Rightarrow> 'b" where
  "assign h [] c = c"
| "assign h ((a, b) # xs) c = assign h xs (c(b := h a))"

lemma assign_append: "assign h (xs @ ys) c = assign h ys (assign h xs c)"
  by (induction h xs c rule: assign.induct) (simp_all only: append.simps assign.simps)

lemma assign_range:
  "assign h (zip [u..u + int n - 1] [p..p + int n - 1]) c = (\<lambda>q. if p \<le> q \<and> q < p + int n then h (u + (q - p)) else c q)"
proof (induction n)
  case (Suc n)
  have "[a..a + int (Suc n) - 1] = [a..a + int n - 1] @ [a + int n]" for a
    using upto_rec2 [of a "a + int n"] by simp
  then show ?case using Suc by (auto simp: assign_append intro!: ext)
qed (auto intro!: ext)

lemma assign_other: "q \<notin> b ` set ks \<Longrightarrow> assign h (map (\<lambda>k. (a k, b k)) ks) c q = c q"
  by (induction ks arbitrary: c) auto

lemma assign_same:
  "inj_on b (set ks) \<Longrightarrow> k \<in> set ks \<Longrightarrow> assign h (map (\<lambda>k. (a k, b k)) ks) c (b k) = h (a k)"
proof (induction ks arbitrary: c)
  case (Cons x ks)
  show ?case
  proof (cases "k \<in> set ks")
    case False
    then have "k = x" "b k \<notin> b ` set ks" using Cons.prems by (auto simp: inj_on_def)
    then show ?thesis using assign_other [of "b k" b ks h a] by simp
  qed (use Cons in simp)
qed simp

section \<open>Stores\<close>

text \<open>
  \<open>ready c k f\<close>: \<open>f\<close> can take \<open>k\<close> more transfers, \<open>c\<close> being the environment they run in.
\<close>

locale byte_store =
  fixes ready :: "'c \<Rightarrow> nat \<Rightarrow> 'f \<Rightarrow> bool"
    and content :: "'f \<Rightarrow> int \<Rightarrow> byte option"
    and put :: "'c \<Rightarrow> byte list \<Rightarrow> int \<Rightarrow> 'f \<Rightarrow> (mpi_error \<times> 'f) option"
  assumes put_ok: "ready c (Suc k) f \<Longrightarrow> 0 \<le> off \<Longrightarrow>
      \<exists>f'. put c bs off f = Some (MPI_OK, f') \<and> ready c k f' \<and>
        content f' = (\<lambda>p. if off \<le> p \<and> p < off + int (length bs) then Some (bs ! nat (p - off)) else content f p)"
begin

lemma put_pieces:
  "ready c (length ps + k) f \<Longrightarrow> \<forall>(u, l, p) \<in> set ps. 0 \<le> l \<and> 0 \<le> p \<Longrightarrow>
   \<exists>f'. run_pieces (\<lambda>u l p. put c (map m [u..u + l - 1]) p) ps f = Some (MPI_OK, f') \<and> ready c k f' \<and>
     content f' = assign (\<lambda>u. Some (m u)) (piece_bytes ps) (content f)"
proof (induction ps arbitrary: f)
  case (Cons x ps)
  obtain u l p where x: "x = (u, l, p)" by (cases x) auto
  then have l: "0 \<le> l" "0 \<le> p" using Cons.prems(2) by auto
  obtain f1 where f1: "put c (map m [u..u + l - 1]) p f = Some (MPI_OK, f1)" "ready c (length ps + k) f1"
    "content f1 = (\<lambda>q. if p \<le> q \<and> q < p + int (length (map m [u..u + l - 1])) then Some (map m [u..u + l - 1] ! nat (q - p)) else content f q)"
    using put_ok [of c "length ps + k" f p "map m [u..u + l - 1]"] Cons.prems(1) l(2) by auto
  have "content f1 = assign (\<lambda>u. Some (m u)) (zip [u..u + l - 1] [p..p + l - 1]) (content f)"
    using assign_range [of "\<lambda>u. Some (m u)" u "nat l" p "content f"] l(1) unfolding f1(3) by (auto intro!: ext)
  then show ?case using Cons.IH [OF f1(2)] Cons.prems(2) f1(1) x by (simp add: assign_append)
qed simp

end

text \<open>A store that is read as well, and reading a piece into the memory of the buffer.\<close>

locale readable_store = byte_store ready content put
  for ready :: "'c \<Rightarrow> nat \<Rightarrow> 'f \<Rightarrow> bool" and content :: "'f \<Rightarrow> int \<Rightarrow> byte option"
    and put :: "'c \<Rightarrow> byte list \<Rightarrow> int \<Rightarrow> 'f \<Rightarrow> (mpi_error \<times> 'f) option" +
  fixes get :: "'c \<Rightarrow> int \<Rightarrow> int \<Rightarrow> 'f \<Rightarrow> (mpi_error \<times> byte list \<times> 'f) option"
  assumes get_ok: "ready c (Suc k) f \<Longrightarrow> 0 \<le> off \<Longrightarrow> 0 \<le> len \<Longrightarrow> (\<And>p. off \<le> p \<Longrightarrow> p < off + len \<Longrightarrow> content f p = Some (g p)) \<Longrightarrow>
      \<exists>f'. get c len off f = Some (MPI_OK, map g [off..off + len - 1], f') \<and> ready c k f' \<and> content f' = content f"

definition read_into :: "('c \<Rightarrow> int \<Rightarrow> int \<Rightarrow> 'f \<Rightarrow> (mpi_error \<times> byte list \<times> 'f) option) \<Rightarrow> 'c \<Rightarrow> int \<Rightarrow> int \<Rightarrow> int \<Rightarrow>
    'f \<times> (int \<Rightarrow> byte) \<Rightarrow> (mpi_error \<times> 'f \<times> (int \<Rightarrow> byte)) option" where
  "read_into get c u l p = (\<lambda>(f, m).
     case get c l p f of
       None \<Rightarrow> None
     | Some (e, bs, f') \<Rightarrow> Some (e, f', \<lambda>x. if u \<le> x \<and> x < u + int (length bs) then bs ! nat (x - u) else m x))"

text \<open>The bytes of the pieces from the side of the file.\<close>

definition file_bytes :: "(int \<times> int \<times> int) list \<Rightarrow> (int \<times> int) list" where
  "file_bytes ps = map (\<lambda>(u, p). (p, u)) (piece_bytes ps)"

lemma file_bytes_Cons: "file_bytes ((u, l, p) # ps) = zip [p..p + l - 1] [u..u + l - 1] @ file_bytes ps"
  by (simp add: file_bytes_def zip_commute [of "[p..p + l - 1]"])

lemma file_bytes_first:
  assumes "\<forall>(p, u) \<in> set (file_bytes ((u, l, p) # ps)). c p = Some (g p)" "p \<le> q" "q < p + l"
  shows "c q = Some (g q)"
proof -
  have "q \<in> set [p..p + l - 1]" using assms(2,3) by simp
  then have "q \<in> fst ` set (zip [p..p + l - 1] [u..u + l - 1])" by (simp flip: set_map)
  then show ?thesis using assms(1) unfolding file_bytes_Cons by fastforce
qed

context readable_store
begin

lemma get_pieces:
  "ready c (length ps + k) f \<Longrightarrow> \<forall>(u, l, p) \<in> set ps. 0 \<le> l \<and> 0 \<le> p \<Longrightarrow>
   \<forall>(p, u) \<in> set (file_bytes ps). content f p = Some (g p) \<Longrightarrow>
   \<exists>f'. run_pieces (read_into get c) ps (f, m) = Some (MPI_OK, f', assign g (file_bytes ps) m) \<and>
     ready c k f' \<and> content f' = content f"
proof (induction ps arbitrary: f m)
  case (Cons x ps)
  obtain u l p where x: "x = (u, l, p)" by (cases x) auto
  then have l: "0 \<le> l" "0 \<le> p" using Cons.prems(2) by auto
  have fb: "file_bytes (x # ps) = zip [p..p + l - 1] [u..u + l - 1] @ file_bytes ps"
    unfolding x by (rule file_bytes_Cons)
  have "content f q = Some (g q)" if "p \<le> q" "q < p + l" for q
    using Cons.prems(3) that unfolding x by (rule file_bytes_first)
  then obtain f1 where f1: "get c l p f = Some (MPI_OK, map g [p..p + l - 1], f1)" "ready c (length ps + k) f1" "content f1 = content f"
    using get_ok [of c "length ps + k" f p l g] Cons.prems(1) l by auto
  let ?m1 = "assign g (zip [p..p + l - 1] [u..u + l - 1]) m"
  have "read_into get c u l p (f, m) = Some (MPI_OK, f1, ?m1)"
    using assign_range [of g p "nat l" u m] l(1) f1(1) by (auto simp: read_into_def intro!: ext)
  then show ?case using Cons.IH [OF f1(2), of ?m1] Cons.prems(2,3) f1(3) x fb by (simp add: assign_append)
qed (simp add: file_bytes_def)

end

section \<open>Files as stores\<close>

text \<open>
  The environment of the transfers: the MPI library, \<open>MPI_BYTE\<close>, the operating system's \<open>pwrite\<close> and
  \<open>pread\<close>, and the content of fresh requests.
\<close>

record 'g io_params =
  penv :: "'g env"
  pbyte :: int
  pwr :: "nat \<Rightarrow> int \<Rightarrow> int"
  prd :: "pfile \<Rightarrow> nat \<Rightarrow> int \<Rightarrow> int \<Rightarrow> int"
  preq :: sync_req

definition put_contig :: "'g io_params \<Rightarrow> byte list \<Rightarrow> int \<Rightarrow> 'g adio_file \<Rightarrow> (mpi_error \<times> 'g adio_file) option" where
  "put_contig P bs off fd =
     (case ADIOI_GEN_WriteContig (penv P) (length bs) (pwr P) (preq P) bs (int (length bs)) (pbyte P) ADIO_EXPLICIT_OFFSET off fd of
        Done (e, st, fd') \<Rightarrow> Some (e, fd') | _ \<Rightarrow> None)"

definition get_contig :: "'g io_params \<Rightarrow> int \<Rightarrow> int \<Rightarrow> 'g adio_file \<Rightarrow> (mpi_error \<times> byte list \<times> 'g adio_file) option" where
  "get_contig P len off fd =
     (case ADIOI_GEN_ReadContig (penv P) (nat len) (prd P (fcontent (gfh fd))) len (pbyte P) ADIO_EXPLICIT_OFFSET off fd of
        Done (e, st, bs, fd') \<Rightarrow> Some (e, bs, fd') | _ \<Rightarrow> None)"

definition file_content :: "'g adio_file \<Rightarrow> int \<Rightarrow> byte option" where
  "file_content fd = fdata (fcontent (the_fh fd))"

text \<open>What is documented of the calls: a byte has size 1; a transfer moves something, and does not fail.\<close>

definition params_ok :: "'g io_params \<Rightarrow> bool" where
  "params_ok P \<longleftrightarrow> type_size (penv P) (pbyte P) = 1 \<and> pwrite_ok (pwr P) \<and> (\<forall>k n. pwr P k n \<noteq> -1) \<and>
     (\<forall>f. pread_ok (prd P f) f) \<and> (\<forall>f k p n. prd P f k p n \<noteq> -1)"

definition direct_ready :: "'g io_params \<Rightarrow> nat \<Rightarrow> 'g adio_file \<Rightarrow> bool" where
  "direct_ready P k fd \<longleftrightarrow> params_ok P \<and> \<not> cache_on fd \<and>
     (\<forall>p. fdata (fcontent (gfh fd)) p \<noteq> None \<longrightarrow> p < fsize (fcontent (gfh fd)))"

lemma the_fh_direct: "\<not> cache_on fd \<Longrightarrow> the_fh fd = gfh fd"
  by (auto simp: the_fh_def cache_on_def split: option.splits)

lemma explicit_not_individual: "(ADIO_EXPLICIT_OFFSET = ADIO_INDIVIDUAL) = False"
  by (simp add: ADIO_EXPLICIT_OFFSET_def ADIO_INDIVIDUAL_def)

lemma put_contig_direct:
  assumes "params_ok P" "\<not> cache_on fd"
  shows "put_contig P bs off fd = Some (MPI_OK, fd\<lparr>gfh := (gfh fd)\<lparr>fcontent := file_pwrite (fcontent (gfh fd)) off bs,
    fp_sys_posn := off + int (length bs)\<rparr>\<rparr>)"
proof -
  have "write_loop (length bs) (pwr P) 0 (fcontent (gfh fd)) bs off (int (length bs)) 0 =
      Some (True, file_pwrite (fcontent (gfh fd)) off bs, int (length bs))"
    using write_loop_total [of "pwr P" 0 "int (length bs)" bs "length bs" 0 "fcontent (gfh fd)" off] assms(1)
    by (auto simp: params_ok_def split: if_splits)
  then show ?thesis
    using assms by (simp add: put_contig_def ADIOI_GEN_WriteContig_def Let_def params_ok_def the_fh_direct set_fh_def
        explicit_not_individual)
qed

lemma get_contig_direct:
  assumes "params_ok P" "0 \<le> len" "\<And>p. off \<le> p \<Longrightarrow> p < off + len \<Longrightarrow> fdata (fcontent (gfh fd)) p = Some (g p)"
    and "len = 0 \<or> off + len \<le> fsize (fcontent (gfh fd))"
  shows "get_contig P len off fd = Some (MPI_OK, map g [off..off + len - 1],
    fd\<lparr>gfh := (gfh fd)\<lparr>fp_sys_posn := off + len\<rparr>\<rparr>)"
proof -
  let ?f = "fcontent (gfh fd)"
  obtain n where r: "read_loop (nat len) (prd P ?f) 0 ?f [] off len 0 = Some (True, file_pread ?f off n, n)"
    "0 \<le> n" "n \<le> len" "n = len \<or> fsize ?f \<le> off + n"
    using read_loop_total [of "prd P ?f" ?f 0 len "nat len" 0 "[]" off] assms(1,2)
    by (auto simp: params_ok_def split: if_splits)
  then have n: "n = len" using assms(4) by auto
  have "file_pread ?f off len = map g [off..off + len - 1]"
    using assms(3,4) by (auto simp: file_pread_def min_def)
  then show ?thesis
    using assms(1,2) r(1) n by (simp add: get_contig_def ADIOI_GEN_ReadContig_def Let_def params_ok_def explicit_not_individual)
qed

interpretation direct: readable_store direct_ready file_content put_contig get_contig
proof unfold_locales
  fix P :: "'a io_params" and k :: nat and fd :: "'a adio_file" and off :: int and bs :: "byte list"
  assume "direct_ready P (Suc k) fd" "0 \<le> off"
  then have d: "params_ok P" "\<not> cache_on fd" "\<And>p. fdata (fcontent (gfh fd)) p \<noteq> None \<Longrightarrow> p < fsize (fcontent (gfh fd))"
    by (auto simp: direct_ready_def)
  let ?f = "file_pwrite (fcontent (gfh fd)) off bs"
  have "p < fsize ?f" if "fdata ?f p \<noteq> None" for p
    using that d(3) [of p] fsize_pwrite [of "fcontent (gfh fd)" off bs] fsize_pwrite_ge [of bs off "fcontent (gfh fd)"]
    by (cases "bs = []") (auto simp: fdata_pwrite split: if_splits)
  then show "\<exists>f'. put_contig P bs off fd = Some (MPI_OK, f') \<and> direct_ready P k f' \<and> file_content f' =
      (\<lambda>p. if off \<le> p \<and> p < off + int (length bs) then Some (bs ! nat (p - off)) else file_content fd p)"
    unfolding put_contig_direct [OF d(1,2)] using d(1,2)
    by (auto simp: direct_ready_def file_content_def the_fh_direct fdata_pwrite intro!: ext)
next
  fix P :: "'a io_params" and k :: nat and fd :: "'a adio_file" and off len :: int and g
  assume "direct_ready P (Suc k) fd" and pos: "0 \<le> off" "0 \<le> len"
    and g: "\<And>p. off \<le> p \<Longrightarrow> p < off + len \<Longrightarrow> file_content fd p = Some (g p)"
  then have d: "params_ok P" "\<not> cache_on fd" "\<And>p. fdata (fcontent (gfh fd)) p \<noteq> None \<Longrightarrow> p < fsize (fcontent (gfh fd))"
    by (auto simp: direct_ready_def)
  have g': "\<And>p. off \<le> p \<Longrightarrow> p < off + len \<Longrightarrow> fdata (fcontent (gfh fd)) p = Some (g p)"
    using g d(2) by (simp add: file_content_def the_fh_direct)
  have "len = 0 \<or> off + len \<le> fsize (fcontent (gfh fd))"
    using g' [of "off + len - 1"] d(3) [of "off + len - 1"] pos by (cases "len = 0") auto
  from get_contig_direct [OF d(1) pos(2) g' this]
  show "\<exists>f'. get_contig P len off fd = Some (MPI_OK, map g [off..off + len - 1], f') \<and> direct_ready P k f' \<and>
      file_content f' = file_content fd"
    using d by (auto simp: direct_ready_def file_content_def the_fh_direct)
qed

text \<open>With the cache: every transfer needs a place in the queues of the sync thread.\<close>

definition cached_ready :: "'g io_params \<Rightarrow> nat \<Rightarrow> 'g adio_file \<Rightarrow> bool" where
  "cached_ready P k fd \<longleftrightarrow> params_ok P \<and> greq_laws (penv P) \<and> full_transfers (penv P) \<and> single fd \<and>
     reachable (penv P) (abs_file fd) \<and> e10_cache_flush_flag fd = ADIOI_HINT_FLUSHONCLOSE \<and>
     int (length (waits (thr (core (abs_file fd)))) + length (pens (thr (core (abs_file fd)))) + k) \<le> INT_MAX"

interpretation cached: byte_store cached_ready file_content put_contig
proof unfold_locales
  fix P :: "'a io_params" and k :: nat and fd :: "'a adio_file" and off :: int and bs :: "byte list"
  assume r: "cached_ready P (Suc k) fd" and off: "0 \<le> off"
  then have P: "params_ok P" "greq_laws (penv P)" "full_transfers (penv P)" "single fd" "reachable (penv P) (abs_file fd)"
    "e10_cache_flush_flag fd = ADIOI_HINT_FLUSHONCLOSE"
    and room: "int (length (waits (thr (core (abs_file fd)))) + length (pens (thr (core (abs_file fd)))) + Suc k) \<le> INT_MAX"
    by (auto simp: cached_ready_def)
  have pw: "pwrite_ok (pwr P)" "\<And>k n. pwr P k n \<noteq> -1" and len: "int (length bs) = type_size (penv P) (pbyte P) * int (length bs)"
    using P(1) by (simp_all add: params_ok_def)
  have ti: "thread_inv (thr (core (abs_file fd)))"
    using reachable_inv [OF P(5,2,3)] by (simp add: proto_inv_def req_inv_def Let_def)
  have ne: "ADIO_EXPLICIT_OFFSET \<noteq> ADIO_INDIVIDUAL" using explicit_not_individual by simp
  obtain st fd' where w: "ADIOI_GEN_WriteContig (penv P) (length bs) (pwr P) (preq P) bs (int (length bs)) (pbyte P) ADIO_EXPLICIT_OFFSET off fd =
      Done (MPI_OK, st, fd')" "e10_cache_flush_flag fd' = ADIOI_HINT_FLUSHONCLOSE"
      "length (pens (thr (core (abs_file fd')))) = Suc (length (pens (thr (core (abs_file fd)))))"
      "waits (thr (core (abs_file fd'))) = waits (thr (core (abs_file fd)))"
    using WriteContig_succeeds [OF pw P(4) ti ne len order_refl P(6)] room by force
  then have s: "single fd'" "reachable (penv P) (abs_file fd')" "fcontent (the_fh fd') = file_pwrite (fcontent (the_fh fd)) off bs"
    using WriteContig_steps [OF pw(1) P(4) ti ne off len order_refl w(1)] reachable_steps P(5) by auto
  have "cached_ready P k fd'" using P s w room by (simp add: cached_ready_def)
  then show "\<exists>f'. put_contig P bs off fd = Some (MPI_OK, f') \<and> cached_ready P k f' \<and> file_content f' =
      (\<lambda>p. if off \<le> p \<and> p < off + int (length bs) then Some (bs ! nat (p - off)) else file_content fd p)"
    using w(1) s(3) by (auto simp: put_contig_def file_content_def fdata_pwrite intro!: ext)
qed

section \<open>The operations on a file\<close>

definition write_ops :: "'g io_params \<Rightarrow> (int \<Rightarrow> byte) \<Rightarrow> 'g adio_file strided_ops" where
  "write_ops P m = \<lparr>contig_io = (\<lambda>u l p. put_contig P (map m [u..u + l - 1]) p),
     lock_region = (\<lambda>off len fd. fd\<lparr>flocks := lock_range (flocks fd) off len\<rparr>),
     unlock_region = (\<lambda>off len fd. fd\<lparr>flocks := unlock_range (flocks fd) off len\<rparr>),
     store_fp_ind = (\<lambda>off fd. fd\<lparr>gfh := (gfh fd)\<lparr>fp_ind := off\<rparr>\<rparr>),
     forget_posn = (\<lambda>fd. fd\<lparr>gfh := (gfh fd)\<lparr>fp_sys_posn := -1\<rparr>\<rparr>)\<rparr>"

text \<open>A read has the memory of the buffer beside the file.\<close>

definition read_ops :: "'g io_params \<Rightarrow> ('g adio_file \<times> (int \<Rightarrow> byte)) strided_ops" where
  "read_ops P = \<lparr>contig_io = read_into get_contig P,
     lock_region = (\<lambda>off len (fd, m). (fd\<lparr>flocks := lock_range (flocks fd) off len\<rparr>, m)),
     unlock_region = (\<lambda>off len (fd, m). (fd\<lparr>flocks := unlock_range (flocks fd) off len\<rparr>, m)),
     store_fp_ind = (\<lambda>off (fd, m). (fd\<lparr>gfh := (gfh fd)\<lparr>fp_ind := off\<rparr>\<rparr>, m)),
     forget_posn = (\<lambda>(fd, m). (fd\<lparr>gfh := (gfh fd)\<lparr>fp_sys_posn := -1\<rparr>\<rparr>, m))\<rparr>"

definition view_nonneg :: "view \<Rightarrow> bool" where
  "view_nonneg v \<longleftrightarrow> 0 \<le> vdisp v \<and> 0 \<le> filetype_extent v \<and> (\<forall>b \<in> set (blocks v). 0 \<le> fst b)"

lemma block_pos_nonneg: "\<forall>b \<in> set bs. 0 \<le> fst b \<Longrightarrow> 0 \<le> r \<Longrightarrow> 0 \<le> block_pos bs r"
proof (induction bs r rule: block_pos.induct)
  case (2 idx len bs r)
  then show ?case by (cases "0 \<le> r - len") auto
qed simp

lemma view_pos_nonneg:
  "view_nonneg v \<Longrightarrow> 0 < filetype_size v \<Longrightarrow> 0 \<le> b \<Longrightarrow> 0 \<le> view_pos v b"
  by (auto simp: view_nonneg_def view_pos_def pos_imp_zdiv_nonneg_iff intro!: add_nonneg_nonneg mult_nonneg_nonneg block_pos_nonneg)

lemma serves_nonneg:
  assumes "serves v bt count b0 ps" "view_nonneg v" "0 < filetype_size v" "0 \<le> b0"
  shows "\<forall>(u, l, p) \<in> set ps. 0 \<le> l \<and> 0 \<le> p"
  using assms placed_at [of v b0 0 ps] by (fastforce simp: serves_def intro!: view_pos_nonneg)

lemma gfh_frame [frame_simps]:
  "direct_ready P k (fd\<lparr>flocks := L\<rparr>) = direct_ready P k fd" "file_content (fd\<lparr>flocks := L\<rparr>) = file_content fd"
  "direct_ready P k (fd\<lparr>gfh := (gfh fd)\<lparr>fp_ind := x\<rparr>\<rparr>) = direct_ready P k fd"
  "file_content (fd\<lparr>gfh := (gfh fd)\<lparr>fp_ind := x\<rparr>\<rparr>) = file_content fd"
  "direct_ready P k (fd\<lparr>gfh := (gfh fd)\<lparr>fp_sys_posn := x\<rparr>\<rparr>) = direct_ready P k fd"
  "file_content (fd\<lparr>gfh := (gfh fd)\<lparr>fp_sys_posn := x\<rparr>\<rparr>) = file_content fd"
  by (auto simp: direct_ready_def file_content_def the_fh_def cache_on_def split: option.splits)

lemma abs_frame [frame_simps]:
  "abs_file (fd\<lparr>gfh := (gfh fd)\<lparr>fp_ind := x\<rparr>\<rparr>) = abs_file fd"
  "abs_file (fd\<lparr>gfh := (gfh fd)\<lparr>fp_sys_posn := x\<rparr>\<rparr>) = abs_file fd"
  "single (fd\<lparr>gfh := h\<rparr>) = single fd"
  by (auto simp: abs_file_def to_state_def single_def cache_on_def intro!: ext)

text \<open>The state in which a successful call leaves the file.\<close>

definition wrap_up :: "'s strided_ops \<Rightarrow> bool \<Rightarrow> bool \<Rightarrow> int \<Rightarrow> int \<Rightarrow> int \<Rightarrow> 's \<Rightarrow> 's" where
  "wrap_up ops individual unlocking start len off s =
     (let s2 = (if unlocking then unlock_region ops start len s else s)
      in forget_posn ops (if individual then store_fp_ind ops off s2 else s2))"

lemma transfer_wrap_up:
  "run_pieces (contig_io ops) ps (if locking then lock_region ops start len s else s) = Some (MPI_OK, s1) \<Longrightarrow>
   transfer ops individual locking unlocking start len ps off n s = Some (MPI_OK, Some n, wrap_up ops individual unlocking start len off s1)"
  by (simp add: transfer_def wrap_up_def Let_def)

lemma wrap_up_write:
  "direct_ready P k (wrap_up (write_ops P m) individual unlocking start len off fd) = direct_ready P k fd"
  "file_content (wrap_up (write_ops P m) individual unlocking start len off fd) = file_content fd"
  "individual \<Longrightarrow> fp_ind (gfh (wrap_up (write_ops P m) individual unlocking start len off fd)) = off"
  "abs_file (wrap_up (write_ops P m) individual False start len off fd) = abs_file fd"
  "single (wrap_up (write_ops P m) individual False start len off fd) = single fd"
  by (simp_all add: wrap_up_def write_ops_def Let_def frame_simps)

lemma wrap_up_read:
  "wrap_up (read_ops P) individual unlocking start len off (fd, m) = (wrap_up (write_ops P m) individual unlocking start len off fd, m)"
  by (simp add: wrap_up_def write_ops_def read_ops_def Let_def)

lemma locked_ops:
  "(if locking then lock_region (write_ops P m) start len fd else fd) =
     (if locking then fd\<lparr>flocks := lock_range (flocks fd) start len\<rparr> else fd)"
  "(if locking then lock_region (read_ops P) start len (fd, m) else (fd, m)) =
     (if locking then fd\<lparr>flocks := lock_range (flocks fd) start len\<rparr> else fd, m)"
  "contig_io (write_ops P m) = (\<lambda>u l p. put_contig P (map m [u..u + l - 1]) p)"
  "contig_io (read_ops P) = read_into get_contig P"
  by (simp_all add: write_ops_def read_ops_def)

lemma direct_write:
  assumes "direct_ready P k fd" "strided_ok individual v bt count" "request_at v individual (fp_ind (gfh fd)) offset b0"
    and "0 \<le> b0" "view_nonneg v"
  shows "\<exists>fd1. ADIOI_GEN_WriteStrided_naive (write_ops P m) v bt count individual (fp_ind (gfh fd)) offset locking fd =
      Some (MPI_OK, Some (bt_size bt * count), fd1) \<and> direct_ready P k fd1 \<and>
    file_content fd1 = assign (\<lambda>u. Some (m u))
      (map (\<lambda>k. (view_pos (mem_view bt) k, view_pos v (b0 + k))) [0..bt_size bt * count - 1]) (file_content fd) \<and>
    (individual \<longrightarrow> fp_at v (b0 + bt_size bt * count) (fp_ind (gfh fd1)))"
proof -
  obtain ps off start len where t: "\<And>s. ADIOI_GEN_WriteStrided_naive (write_ops P m) v bt count individual (fp_ind (gfh fd)) offset locking s =
      transfer (write_ops P m) individual locking locking start len ps off (bt_size bt * count) s"
    "serves v bt count b0 ps" "fp_at v (b0 + bt_size bt * count) off"
    using strided_write_ok [OF assms(2,3)] by blast
  let ?fd = "if locking then fd\<lparr>flocks := lock_range (flocks fd) start len\<rparr> else fd"
  have "\<forall>(u, l, p) \<in> set ps. 0 \<le> l \<and> 0 \<le> p"
    using serves_nonneg [OF t(2) assms(5) _ assms(4)] assms(2) by (simp add: strided_ok_def)
  moreover have "direct_ready P (length ps + k) ?fd" using assms(1) by (simp add: direct_ready_def cache_on_def)
  ultimately obtain fd1 where w: "run_pieces (\<lambda>u l p. put_contig P (map m [u..u + l - 1]) p) ps ?fd = Some (MPI_OK, fd1)"
    "direct_ready P k fd1" "file_content fd1 = assign (\<lambda>u. Some (m u)) (piece_bytes ps) (file_content ?fd)"
    using direct.put_pieces by blast
  have "transfer (write_ops P m) individual locking locking start len ps off (bt_size bt * count) fd =
      Some (MPI_OK, Some (bt_size bt * count), wrap_up (write_ops P m) individual locking start len off fd1)"
    using w(1) by (intro transfer_wrap_up) (simp only: locked_ops)
  moreover have "file_content ?fd = file_content fd" by (simp add: frame_simps)
  ultimately show ?thesis
    using w(2,3) t(2,3) unfolding t(1) serves_def by (simp add: wrap_up_write)
qed

lemma direct_read:
  assumes "direct_ready P k fd" "strided_ok individual v bt count" "request_at v individual (fp_ind (gfh fd)) offset b0"
    and "0 \<le> b0" "view_nonneg v" "filetype_size v < 2 ^ 31"
    and g: "\<And>k. 0 \<le> k \<Longrightarrow> k < bt_size bt * count \<Longrightarrow> file_content fd (view_pos v (b0 + k)) = Some (g (view_pos v (b0 + k)))"
  shows "\<exists>fd1. ADIOI_GEN_ReadStrided_naive (read_ops P) v bt count individual (fp_ind (gfh fd)) offset locking unlocking (fd, m) =
      Some (MPI_OK, Some (bt_size bt * count), fd1,
        assign g (map (\<lambda>k. (view_pos v (b0 + k), view_pos (mem_view bt) k)) [0..bt_size bt * count - 1]) m) \<and>
    direct_ready P k fd1 \<and> file_content fd1 = file_content fd \<and>
    (individual \<longrightarrow> fp_at v (b0 + bt_size bt * count) (fp_ind (gfh fd1)))"
proof -
  obtain ps off start len unlk where t: "\<And>s. ADIOI_GEN_ReadStrided_naive (read_ops P) v bt count individual (fp_ind (gfh fd)) offset locking unlocking s =
      transfer (read_ops P) individual locking unlk start len ps off (bt_size bt * count) s"
    "serves v bt count b0 ps" "fp_at v (b0 + bt_size bt * count) off"
    using strided_read_ok [OF assms(2,3,6)] by blast
  let ?fd = "if locking then fd\<lparr>flocks := lock_range (flocks fd) start len\<rparr> else fd"
  have "\<forall>(u, l, p) \<in> set ps. 0 \<le> l \<and> 0 \<le> p"
    using serves_nonneg [OF t(2) assms(5) _ assms(4)] assms(2) by (simp add: strided_ok_def)
  moreover have "direct_ready P (length ps + k) ?fd" using assms(1) by (simp add: direct_ready_def cache_on_def)
  moreover have fb: "file_bytes ps = map (\<lambda>k. (view_pos v (b0 + k), view_pos (mem_view bt) k)) [0..bt_size bt * count - 1]"
    using t(2) by (simp add: serves_def file_bytes_def)
  moreover have "\<forall>(p, u) \<in> set (file_bytes ps). file_content ?fd p = Some (g p)"
    using g unfolding fb by (auto simp: frame_simps)
  ultimately obtain fd1 where w: "run_pieces (read_into get_contig P) ps (?fd, m) = Some (MPI_OK, fd1, assign g (file_bytes ps) m)"
    "direct_ready P k fd1" "file_content fd1 = file_content ?fd"
    using direct.get_pieces [of P ps k ?fd g m] by blast
  have "transfer (read_ops P) individual locking unlk start len ps off (bt_size bt * count) (fd, m) =
      Some (MPI_OK, Some (bt_size bt * count), wrap_up (read_ops P) individual unlk start len off (fd1, assign g (file_bytes ps) m))"
    using w(1) by (intro transfer_wrap_up) (simp only: locked_ops)
  moreover have "file_content ?fd = file_content fd" by (simp add: frame_simps)
  ultimately show ?thesis
    using w(2,3) t(3) unfolding t(1) by (simp add: wrap_up_write wrap_up_read fb)
qed

lemma cached_write:
  assumes "cached_ready P (max_pieces v bt count) fd" "strided_ok individual v bt count"
    and "request_at v individual (fp_ind (gfh fd)) offset b0" "0 \<le> b0" "view_nonneg v"
  shows "\<exists>fd1. ADIOI_GEN_WriteStrided_naive (write_ops P m) v bt count individual (fp_ind (gfh fd)) offset False fd =
      Some (MPI_OK, Some (bt_size bt * count), fd1) \<and>
    single fd1 \<and> reachable (penv P) (abs_file fd1) \<and>
    int (length (waits (thr (core (abs_file fd1)))) + length (pens (thr (core (abs_file fd1))))) \<le> INT_MAX \<and>
    file_content fd1 = assign (\<lambda>u. Some (m u))
      (map (\<lambda>k. (view_pos (mem_view bt) k, view_pos v (b0 + k))) [0..bt_size bt * count - 1]) (file_content fd) \<and>
    (individual \<longrightarrow> fp_at v (b0 + bt_size bt * count) (fp_ind (gfh fd1)))"
proof -
  obtain ps off start len where t: "\<And>s. ADIOI_GEN_WriteStrided_naive (write_ops P m) v bt count individual (fp_ind (gfh fd)) offset False s =
      transfer (write_ops P m) individual False False start len ps off (bt_size bt * count) s"
    "serves v bt count b0 ps" "fp_at v (b0 + bt_size bt * count) off"
    using strided_write_ok [OF assms(2,3)] by blast
  have "\<forall>(u, l, p) \<in> set ps. 0 \<le> l \<and> 0 \<le> p"
    using serves_nonneg [OF t(2) assms(5) _ assms(4)] assms(2) by (simp add: strided_ok_def)
  moreover have "cached_ready P (length ps + 0) fd" using assms(1) t(2) by (auto simp: cached_ready_def serves_def)
  ultimately obtain fd1 where w: "run_pieces (\<lambda>u l p. put_contig P (map m [u..u + l - 1]) p) ps fd = Some (MPI_OK, fd1)"
    "cached_ready P 0 fd1" "file_content fd1 = assign (\<lambda>u. Some (m u)) (piece_bytes ps) (file_content fd)"
    using cached.put_pieces by blast
  have "transfer (write_ops P m) individual False False start len ps off (bt_size bt * count) fd =
      Some (MPI_OK, Some (bt_size bt * count), wrap_up (write_ops P m) individual False start len off fd1)"
    using w(1) by (intro transfer_wrap_up) (simp add: locked_ops)
  then show ?thesis
    using w(2,3) t(2,3) unfolding t(1) serves_def cached_ready_def by (simp add: wrap_up_write)
qed

section \<open>Properties\<close>


text \<open>An operating system that transfers one byte at a time, and 16 bytes of a buffer with holes.\<close>

definition byte_params :: "int set io_params" where
  "byte_params = \<lparr>penv = demo_env, pbyte = 1, pwr = (\<lambda>k n. 1), prd = (\<lambda>f k p n. if p < fsize f then 1 else 0), preq = demo_req\<rparr>"

lemma byte_params_ok: "params_ok byte_params"
  by (auto simp: params_ok_def byte_params_def pwrite_ok_def pread_ok_def demo_env_def)

lemma distinct_positions:
  "inj_on (\<lambda>k. view_pos marked_view (4 + k)) {0..15}" "inj_on (view_pos (mem_view holed_buffer)) {0..15}"
proof -
  have "distinct (map (\<lambda>k. view_pos marked_view (4 + k)) [0..15])" "distinct (map (view_pos (mem_view holed_buffer)) [0..15])"
    by code_simp+
  then show "inj_on (\<lambda>k. view_pos marked_view (4 + k)) {0..15}" "inj_on (view_pos (mem_view holed_buffer)) {0..15}"
    by (simp_all add: distinct_map)
qed

lemma marked_view_explicit:
  "strided_ok False marked_view holed_buffer 2" "request_at marked_view False fp 1 4" "view_nonneg marked_view"
  "bt_size holed_buffer * 2 = 16"
  using marked_view_strided(1)
  by (auto simp: strided_ok_def request_at_def view_nonneg_def marked_view_def holed_buffer_def)



text \<open>Back from a view into contiguous memory.\<close>

definition plain_buffer :: buftype where
  "plain_buffer = \<lparr>bt_size = 1, bt_extent = 1, bt_is_contig = True, bt_blocks = [(0, 1)]\<rparr>"


end
