(* ===== verification/Sieving.thy ===== *)
theory Sieving
  imports Strided_File
begin

text \<open>
  Strided reads and writes with data sieving (\<open>ad_write_str.c\<close>, \<open>ad_read_str.c\<close>): the pieces of a request
  go through a window of the file that is held in a buffer, which a write reads, changes and
  writes back as a whole. The walk is that of \<open>Strided_IO\<close> but for empty blocks, which are skipped.
\<close>

section \<open>Windows\<close>

text \<open>The calls on the file. A read delivers the bytes it got, fewer than asked for at the end of the file.\<close>

record 's sieve_ops =
  sv_write :: "byte list \<Rightarrow> int \<Rightarrow> 's \<Rightarrow> (mpi_error \<times> 's) option"
  sv_read :: "int \<Rightarrow> int \<Rightarrow> 's \<Rightarrow> (mpi_error \<times> byte list \<times> 's) option"
  sv_lock :: "int \<Rightarrow> int \<Rightarrow> 's \<Rightarrow> 's"
  sv_unlock :: "int \<Rightarrow> int \<Rightarrow> 's \<Rightarrow> 's"
  sv_fp_ind :: "int \<Rightarrow> 's \<Rightarrow> 's"
  sv_forget :: "'s \<Rightarrow> 's"

text \<open>\<open>writebuf\<close> or \<open>readbuf\<close> with the extent of the file it stands for.\<close>

record window =
  wdata :: "byte list"
  woff :: int
  wlen :: int

text \<open>\<open>memcpy\<close> into an array; \<open>None\<close> outside of it.\<close>

definition memcpy_at :: "byte list \<Rightarrow> int \<Rightarrow> byte list \<Rightarrow> byte list option" where
  "memcpy_at d i bs = (if 0 \<le> i \<and> i + int (length bs) \<le> int (length d)
     then Some (take (nat i) d @ bs @ drop (nat i + length bs) d) else None)"

section \<open>The write\<close>

text \<open>
  The two macros \<open>ADIOI_BUFFERED_WRITE\<close> (\<open>rmw\<close>: reads, locks each window unless the whole region is locked)
  and \<open>ADIOI_BUFFERED_WRITE_WITHOUT_READ\<close>. Their errors are \<open>MPI_ERR_IO\<close>.
\<close>

definition write_window :: "'s sieve_ops \<Rightarrow> bool \<Rightarrow> bool \<Rightarrow> 's \<Rightarrow> window \<Rightarrow> (mpi_error \<times> 's) option" where
  "write_window ops rmw atomic s w =
     (if int (length (wdata w)) < wlen w then None
      else (case sv_write ops (take (nat (wlen w)) (wdata w)) (woff w) s of
          None \<Rightarrow> None
        | Some (e, s1) \<Rightarrow> Some (e, if rmw \<and> \<not> atomic then sv_unlock ops (woff w) (wlen w) s1 else s1)))"

definition open_window :: "'s sieve_ops \<Rightarrow> bool \<Rightarrow> bool \<Rightarrow> int \<Rightarrow> int \<Rightarrow> int \<Rightarrow> 's \<Rightarrow> window \<Rightarrow> (mpi_error \<times> 's \<times> window) option" where
  "open_window ops rmw atomic max_bufsize end_offset off s w =
     (let len = to_unsigned (min max_bufsize (end_offset - off + 1)) in
      if rmw then
        (case sv_read ops len off (if atomic then s else sv_lock ops off len s) of
           None \<Rightarrow> None
         | Some (e, bs, s1) \<Rightarrow>
             (case memcpy_at (wdata w) 0 bs of
                None \<Rightarrow> None
              | Some d \<Rightarrow> Some (if e = MPI_OK then MPI_OK else MPI_ERR_IO, s1, \<lparr>wdata = d, woff = off, wlen = len\<rparr>)))
      else Some (MPI_OK, s, w\<lparr>woff := off, wlen := len\<rparr>))"

partial_function (option) write_through ::
  "'s sieve_ops \<Rightarrow> bool \<Rightarrow> bool \<Rightarrow> int \<Rightarrow> int \<Rightarrow> (int \<Rightarrow> byte) \<Rightarrow> int \<Rightarrow> int \<Rightarrow> int \<Rightarrow> 's \<Rightarrow> window \<Rightarrow> (mpi_error \<times> 's \<times> window) option" where
  "write_through ops rmw atomic max_bufsize end_offset m userbuf_off req_len write_sz s w =
     (if write_sz \<noteq> req_len then
        (case write_window ops rmw atomic s w of
           None \<Rightarrow> None
         | Some (e, s1) \<Rightarrow>
             if e \<noteq> MPI_OK then Some (MPI_ERR_IO, s1, w)
             else (case open_window ops rmw atomic max_bufsize end_offset (woff w + wlen w) s1 w of
                 None \<Rightarrow> None
               | Some (e, s2, w2) \<Rightarrow>
                   if e \<noteq> MPI_OK then Some (e, s2, w2)
                   else (let l = req_len - write_sz; u = userbuf_off + write_sz; sz = min l (wlen w2) in
                     case memcpy_at (wdata w2) 0 (map m [u..u + sz - 1]) of
                       None \<Rightarrow> None
                     | Some d \<Rightarrow> write_through ops rmw atomic max_bufsize end_offset m u l sz s2 (w2\<lparr>wdata := d\<rparr>))))
      else Some (MPI_OK, s, w))"

definition enter_window :: "'s sieve_ops \<Rightarrow> bool \<Rightarrow> bool \<Rightarrow> int \<Rightarrow> int \<Rightarrow> int \<Rightarrow> 's \<Rightarrow> window \<Rightarrow> (mpi_error \<times> 's \<times> window) option" where
  "enter_window ops rmw atomic max_bufsize end_offset req_off s w =
     (if req_off \<ge> woff w + wlen w then
        (case (if wlen w \<noteq> 0 \<or> \<not> rmw then write_window ops rmw atomic s w else Some (MPI_OK, s)) of
           None \<Rightarrow> None
         | Some (e, s1) \<Rightarrow>
             if e \<noteq> MPI_OK then Some (MPI_ERR_IO, s1, w)
             else open_window ops rmw atomic max_bufsize end_offset req_off s1 w)
      else Some (MPI_OK, s, w))"

definition buffered_write ::
  "'s sieve_ops \<Rightarrow> bool \<Rightarrow> bool \<Rightarrow> int \<Rightarrow> int \<Rightarrow> (int \<Rightarrow> byte) \<Rightarrow> int \<Rightarrow> int \<Rightarrow> int \<Rightarrow> 's \<times> window \<Rightarrow> (mpi_error \<times> 's \<times> window) option" where
  "buffered_write ops rmw atomic max_bufsize end_offset m userbuf_off req_len req_off = (\<lambda>(s, w).
     case enter_window ops rmw atomic max_bufsize end_offset req_off s w of
       None \<Rightarrow> None
     | Some (e, s1, w1) \<Rightarrow>
         if e \<noteq> MPI_OK then Some (e, s1, w1)
         else (let sz = min req_len (woff w1 + wlen w1 - req_off) in
           if to_unsigned sz \<noteq> sz then None
           else (case memcpy_at (wdata w1) (req_off - woff w1) (map m [userbuf_off..userbuf_off + sz - 1]) of
               None \<Rightarrow> None
             | Some d \<Rightarrow> write_through ops rmw atomic max_bufsize end_offset m userbuf_off req_len sz s1 (w1\<lparr>wdata := d\<rparr>))))"

section \<open>The walk\<close>

definition next_nonempty :: "view \<Rightarrow> nat \<Rightarrow> int \<Rightarrow> (nat \<times> int) option" where
  "next_nonempty v j n = (let j' = (j + 1) mod length (blocks v) in
     if blocks v = [] then None else skip_empty (blocks v) j' (if j' = 0 then n + 1 else n))"

partial_function (option) sieve_end :: "view \<Rightarrow> int \<Rightarrow> nat \<Rightarrow> int \<Rightarrow> int \<Rightarrow> int \<Rightarrow> int \<Rightarrow> int \<Rightarrow> int option" where
  "sieve_end v bufsize j n off fwr_size i_offset end_offset =
     (if i_offset < bufsize then
        (case next_nonempty v j n of
           None \<Rightarrow> None
         | Some (j', n') \<Rightarrow> sieve_end v bufsize j' n' (file_pos v n' j')
             (min (snd (blocks v ! j')) (bufsize - (i_offset + fwr_size))) (i_offset + fwr_size) (off + fwr_size - 1))
      else Some end_offset)"

fun sieve_regions :: "(int \<Rightarrow> int \<Rightarrow> int \<Rightarrow> 's \<Rightarrow> (mpi_error \<times> 's) option) \<Rightarrow> (int \<times> int) list \<Rightarrow> int \<Rightarrow> 's \<Rightarrow> 's loop_result" where
  "sieve_regions io [] off s = Some (Inr (s, off))"
| "sieve_regions io ((u, l) # rs) off s =
     (case io u l off s of
        None \<Rightarrow> None
      | Some (e, s') \<Rightarrow> if e \<noteq> MPI_OK then Some (Inl (e, s')) else sieve_regions io rs (off + l) s')"

partial_function (option) sieve_file ::
  "(int \<Rightarrow> int \<Rightarrow> int \<Rightarrow> 's \<Rightarrow> (mpi_error \<times> 's) option) \<Rightarrow> view \<Rightarrow> int \<Rightarrow> nat \<Rightarrow> int \<Rightarrow> int \<Rightarrow> int \<Rightarrow> int \<Rightarrow> 's \<Rightarrow> 's loop_result" where
  "sieve_file io v bufsize j n off fwr_size i_offset s =
     (if i_offset < bufsize then
        (case (if fwr_size \<noteq> 0 then io i_offset fwr_size off s else Some (MPI_OK, s)) of
           None \<Rightarrow> None
         | Some (e, s') \<Rightarrow>
             if e \<noteq> MPI_OK then Some (Inl (e, s'))
             else if length (blocks v) \<le> j then None
             else if off + fwr_size < vdisp v + fst (blocks v ! j) + snd (blocks v ! j) + n * filetype_extent v
             then sieve_file io v bufsize j n (off + fwr_size) fwr_size (i_offset + fwr_size) s'
             else (case next_nonempty v j n of
                 None \<Rightarrow> None
               | Some (j', n') \<Rightarrow> sieve_file io v bufsize j' n' (file_pos v n' j')
                   (min (snd (blocks v ! j')) (bufsize - (i_offset + fwr_size))) (i_offset + fwr_size) s'))
      else Some (Inr (s, off)))"

text \<open>\<open>small\<close>: the read asserts that the number of bytes done fits an \<open>unsigned\<close>.\<close>

partial_function (option) sieve_both ::
  "(int \<Rightarrow> int \<Rightarrow> int \<Rightarrow> 's \<Rightarrow> (mpi_error \<times> 's) option) \<Rightarrow> bool \<Rightarrow> view \<Rightarrow> buftype \<Rightarrow> int \<Rightarrow> nat \<Rightarrow> int \<Rightarrow> int \<Rightarrow> int \<Rightarrow>
   nat \<Rightarrow> nat \<Rightarrow> int \<Rightarrow> int \<Rightarrow> int \<Rightarrow> 's \<Rightarrow> 's loop_result" where
  "sieve_both io small v bt bufsize j n off fwr_size k buf_count i_offset bwr_size num s =
     (if num < bufsize then
        (let sz = min fwr_size bwr_size in
         case (if sz \<noteq> 0 then io i_offset sz off s else Some (MPI_OK, s)) of
           None \<Rightarrow> None
         | Some (e, s') \<Rightarrow>
             if e \<noteq> MPI_OK then Some (Inl (e, s'))
             else if small \<and> to_unsigned (num + sz) \<noteq> num + sz then None
             else (case (if sz = fwr_size then next_nonempty v j n else Some (j, n)) of
                 None \<Rightarrow> None
               | Some (j', n') \<Rightarrow>
                   (let (k', c') = (if sz = bwr_size then ((k + 1) mod length (bt_blocks bt), buf_count + 1) else (k, buf_count))
                    in if length (bt_blocks bt) \<le> k' then None
                       else sieve_both io small v bt bufsize j' n'
                         (if sz = fwr_size then file_pos v n' j' else off + sz)
                         (if sz = fwr_size then snd (blocks v ! j') else fwr_size - sz)
                         k' c'
                         (if sz = bwr_size then memory_pos bt c' k' else i_offset + sz)
                         (if sz = bwr_size then snd (bt_blocks bt ! k') else bwr_size - sz)
                         (num + sz) s')))
      else Some (Inr (s, off)))"

text \<open>
  The walk over a view that is not contiguous, with a window that \<open>w0\<close> initialises and \<open>io\<close> moves.
\<close>

definition sieve_walk ::
  "(int \<Rightarrow> int \<Rightarrow> int \<Rightarrow> 's \<Rightarrow> (mpi_error \<times> 's) option) \<Rightarrow> bool \<Rightarrow> view \<Rightarrow> buftype \<Rightarrow> int \<Rightarrow> nat \<times> int \<times> int \<times> int \<Rightarrow> 's \<Rightarrow> 's loop_result" where
  "sieve_walk io small v bt bufsize = (\<lambda>(st_index, n, st_fwr_size, start_off) s.
     if bt_is_contig bt \<and> \<not> filetype_is_contig v
     then sieve_file io v bufsize st_index n start_off (min st_fwr_size bufsize) 0 s
     else if bt_blocks bt = [] then None
     else sieve_both io small v bt bufsize st_index n start_off st_fwr_size 0 0 (fst (bt_blocks bt ! 0)) (snd (bt_blocks bt ! 0)) 0 s)"

text \<open>
  A request inside one block of the view: the file pointer after it, at the next byte of the view.
\<close>

definition single_block_fp :: "view \<Rightarrow> int \<Rightarrow> nat \<times> int \<times> int \<times> int \<Rightarrow> int option" where
  "single_block_fp v bufsize = (\<lambda>(st_index, n, fwr_size, offset).
     if bufsize = fwr_size then
       (case next_nonempty v st_index n of None \<Rightarrow> None | Some (j, n') \<Rightarrow> Some (file_pos v n' j))
     else Some (offset + bufsize))"

section \<open>\<open>ADIOI_GEN_WriteStrided\<close>\<close>

text \<open>
  The end of the call: what remains in the window is written, locks are released, the file pointers
  set. The errors on the way leave the function before that.
\<close>

definition sieve_done :: "'s sieve_ops \<Rightarrow> bool \<Rightarrow> int \<Rightarrow> int \<Rightarrow> 's \<Rightarrow> (mpi_error \<times> int option \<times> 's) option" where
  "sieve_done ops individual bufsize off s =
     Some (MPI_OK, Some bufsize, sv_forget ops (if individual then sv_fp_ind ops off s else s))"

definition sieve_write_contiguous ::
  "'s sieve_ops \<Rightarrow> view \<Rightarrow> buftype \<Rightarrow> int \<Rightarrow> bool \<Rightarrow> int \<Rightarrow> int \<Rightarrow> bool \<Rightarrow> int \<Rightarrow> byte list \<Rightarrow> (int \<Rightarrow> byte) \<Rightarrow> 's \<Rightarrow> (mpi_error \<times> int option \<times> 's) option" where
  "sieve_write_contiguous ops v bt count individual fp offset atomic max_bufsize junk m s =
     (let off = (if individual then fp else vdisp v + etype_size v * offset);
          bufsize = bt_size bt * count;
          end_offset = off + bufsize - 1;
          w = \<lparr>wdata = junk, woff = off, wlen = to_unsigned (min max_bufsize (end_offset - off + 1))\<rparr>;
          s1 = (if atomic then sv_lock ops off (end_offset - off + 1) s else s)
      in case sieve_regions (buffered_write ops False atomic max_bufsize end_offset m) (regions bt count) off (s1, w) of
           None \<Rightarrow> None
         | Some (Inl (e, s2, _)) \<Rightarrow> Some (e, None, s2)
         | Some (Inr ((s2, w2), off')) \<Rightarrow>
             (case write_window ops False atomic s2 w2 of
                None \<Rightarrow> None
              | Some (e, s3) \<Rightarrow>
                  (let s4 = (if atomic then sv_unlock ops off (end_offset - off + 1) s3 else s3)
                   in if e \<noteq> MPI_OK then Some (e, None, s4) else sieve_done ops individual bufsize off' s4)))"

definition sieve_write_noncontiguous ::
  "'s sieve_ops \<Rightarrow> view \<Rightarrow> buftype \<Rightarrow> int \<Rightarrow> bool \<Rightarrow> nat \<times> int \<times> int \<times> int \<Rightarrow> bool \<Rightarrow> int \<Rightarrow> (int \<Rightarrow> byte) \<Rightarrow> 's \<Rightarrow> (mpi_error \<times> int option \<times> 's) option" where
  "sieve_write_noncontiguous ops v bt count individual start atomic max_bufsize m s =
     (let (st_index, n, st_fwr_size, start_off) = start; bufsize = bt_size bt * count in
      if bt_is_contig bt \<and> bufsize \<le> st_fwr_size then
        (case sv_write ops (map m [0..bufsize - 1]) start_off s of
           None \<Rightarrow> None
         | Some (e, s1) \<Rightarrow>
             (if individual then
                (case single_block_fp v bufsize start of
                   None \<Rightarrow> None
                 | Some p \<Rightarrow> Some (e, Some bufsize, sv_forget ops (sv_fp_ind ops p s1)))
              else Some (e, Some bufsize, sv_forget ops s1)))
      else (case sieve_end v bufsize st_index n start_off (min st_fwr_size bufsize) 0 0 of
          None \<Rightarrow> None
        | Some end_offset \<Rightarrow>
            (let s1 = (if atomic then sv_lock ops start_off (end_offset - start_off + 1) s else s);
                 w = \<lparr>wdata = replicate (nat max_bufsize) 255, woff = 0, wlen = 0\<rparr>
             in case sieve_walk (buffered_write ops True atomic max_bufsize end_offset m) False v bt bufsize start (s1, w) of
                  None \<Rightarrow> None
                | Some (Inl (e, s2, _)) \<Rightarrow> Some (e, None, s2)
                | Some (Inr ((s2, w2), off)) \<Rightarrow>
                    (case (if wlen w2 \<noteq> 0 then write_window ops True atomic s2 w2 else Some (MPI_OK, s2)) of
                       None \<Rightarrow> None
                     | Some (e, s3) \<Rightarrow>
                         if e \<noteq> MPI_OK then Some (e, None, s3)
                         else sieve_done ops individual bufsize off
                           (if atomic then sv_unlock ops start_off (end_offset - start_off + 1) s3 else s3)))))"

text \<open>
  \<open>disabled\<close>: the hint \<open>romio_ds_write\<close> says so; then the naive function is called. \<open>junk\<close> is the content of the fresh
  buffer in the first case.
\<close>

definition ADIOI_GEN_WriteStrided ::
  "'s sieve_ops \<Rightarrow> 's strided_ops \<Rightarrow> bool \<Rightarrow> bool \<Rightarrow> view \<Rightarrow> buftype \<Rightarrow> int \<Rightarrow> bool \<Rightarrow> int \<Rightarrow> int \<Rightarrow> bool \<Rightarrow> int \<Rightarrow> byte list \<Rightarrow> (int \<Rightarrow> byte) \<Rightarrow> 's \<Rightarrow>
   (mpi_error \<times> int option \<times> 's) option" where
  "ADIOI_GEN_WriteStrided ops naive disabled locking v bt count individual fp offset atomic max_bufsize junk m s =
     (if disabled then ADIOI_GEN_WriteStrided_naive naive v bt count individual fp offset locking s
      else if filetype_size v = 0 then Some (MPI_OK, Some 0, s)
      else if \<not> bt_is_contig bt \<and> filetype_is_contig v
      then sieve_write_contiguous ops v bt count individual fp offset atomic max_bufsize junk m s
      else (case first_block v individual fp offset of
          None \<Rightarrow> None
        | Some start \<Rightarrow> sieve_write_noncontiguous ops v bt count individual start atomic max_bufsize m s))"

section \<open>The read\<close>

text \<open>
  \<open>ADIOI_BUFFERED_READ\<close>. A piece that reaches beyond the window makes the window longer: the part that is
  still needed is kept at its front, in a new array whose rest is \<open>junk\<close>. The error code of the
  contiguous read is returned as it is.
\<close>

definition read_window :: "'s sieve_ops \<Rightarrow> int \<Rightarrow> int \<Rightarrow> int \<Rightarrow> byte list \<Rightarrow> 's \<Rightarrow> (mpi_error \<times> 's \<times> window) option" where
  "read_window ops off len partial_read d s =
     (case sv_read ops (len - partial_read) (off + partial_read) s of
        None \<Rightarrow> None
      | Some (e, bs, s1) \<Rightarrow>
          (case memcpy_at d partial_read bs of None \<Rightarrow> None | Some d' \<Rightarrow> Some (e, s1, \<lparr>wdata = d', woff = off, wlen = len\<rparr>)))"

partial_function (option) grow_window ::
  "'s sieve_ops \<Rightarrow> int \<Rightarrow> byte list \<Rightarrow> int \<Rightarrow> int \<Rightarrow> int \<Rightarrow> 's \<Rightarrow> window \<Rightarrow> (mpi_error \<times> 's \<times> window) option" where
  "grow_window ops max_bufsize junk end_offset req_len req_off s w =
     (let partial_read = woff w + wlen w - req_off in
      if req_len > partial_read then
        (if partial_read \<noteq> to_int partial_read \<or> partial_read < 0 \<or> wlen w < partial_read \<or> int (length (wdata w)) < wlen w then None
         else (let tmp_buf = take (nat partial_read) (drop (nat (wlen w - partial_read)) (wdata w));
                   off = woff w + (wlen w - partial_read);
                   len = to_unsigned (partial_read + min max_bufsize (end_offset - off + 1))
               in case read_window ops off len partial_read (tmp_buf @ junk) s of
                    None \<Rightarrow> None
                  | Some (e, s1, w1) \<Rightarrow>
                      if e \<noteq> MPI_OK then Some (e, s1, w1)
                      else grow_window ops max_bufsize junk end_offset req_len req_off s1 w1))
      else Some (MPI_OK, s, w))"

definition buffered_read ::
  "'s sieve_ops \<Rightarrow> int \<Rightarrow> byte list \<Rightarrow> int \<Rightarrow> int \<Rightarrow> int \<Rightarrow> int \<Rightarrow> ('s \<times> window) \<times> (int \<Rightarrow> byte) \<Rightarrow>
   (mpi_error \<times> ('s \<times> window) \<times> (int \<Rightarrow> byte)) option" where
  "buffered_read ops max_bufsize junk end_offset userbuf_off req_len req_off = (\<lambda>((s, w), m).
     case (if req_off \<ge> woff w + wlen w
           then read_window ops req_off (to_unsigned (min max_bufsize (end_offset - req_off + 1))) 0 (wdata w) s
           else Some (MPI_OK, s, w)) of
       None \<Rightarrow> None
     | Some (e, s1, w1) \<Rightarrow>
         if e \<noteq> MPI_OK then Some (e, (s1, w1), m)
         else (case grow_window ops max_bufsize junk end_offset req_len req_off s1 w1 of
             None \<Rightarrow> None
           | Some (e, s2, w2) \<Rightarrow>
               if e \<noteq> MPI_OK then Some (e, (s2, w2), m)
               else if req_len < 0 \<or> req_off < woff w2 \<or> int (length (wdata w2)) < req_off - woff w2 + req_len then None
               else Some (MPI_OK, (s2, w2), \<lambda>x. if userbuf_off \<le> x \<and> x < userbuf_off + req_len
                   then wdata w2 ! nat (req_off - woff w2 + (x - userbuf_off)) else m x)))"

text \<open>
  The functions. \<open>locking\<close> is atomic mode on a file system with locks; the number of etypes of a filetype is an \<open>int\<close> here.
\<close>

definition sieve_first_block :: "view \<Rightarrow> bool \<Rightarrow> int \<Rightarrow> int \<Rightarrow> (nat \<times> int \<times> int \<times> int) option" where
  "sieve_first_block v individual fp offset =
     (if individual then first_block v True fp offset
      else (let per = to_int (filetype_size v sdiv etype_size v) in
        if etype_size v = 0 \<or> per = 0 then None
        else (let n = offset sdiv per;
                  (i, left, pos) = explicit_scan (blocks v) 0 0 ((offset smod per) * etype_size v)
              in Some (i, n, left, vdisp v + n * filetype_extent v + pos))))"

definition sieve_read_end ::
  "'s sieve_ops \<Rightarrow> bool \<Rightarrow> int \<Rightarrow> bool \<Rightarrow> int \<Rightarrow> int \<Rightarrow> (('s \<times> window) \<times> (int \<Rightarrow> byte)) loop_result \<Rightarrow>
   (mpi_error \<times> int option \<times> 's \<times> (int \<Rightarrow> byte)) option" where
  "sieve_read_end ops individual bufsize locking start_off end_offset r =
     (case r of
        None \<Rightarrow> None
      | Some (Inl (e, (s, _), m)) \<Rightarrow> Some (e, None, s, m)
      | Some (Inr (((s, _), m), off)) \<Rightarrow>
          (let s1 = (if locking then sv_unlock ops start_off (end_offset - start_off + 1) s else s)
           in Some (MPI_OK, Some bufsize, sv_forget ops (if individual then sv_fp_ind ops off s1 else s1), m)))"

definition sieve_read_contiguous ::
  "'s sieve_ops \<Rightarrow> view \<Rightarrow> buftype \<Rightarrow> int \<Rightarrow> bool \<Rightarrow> int \<Rightarrow> int \<Rightarrow> bool \<Rightarrow> int \<Rightarrow> byte list \<Rightarrow> 's \<times> (int \<Rightarrow> byte) \<Rightarrow>
   (mpi_error \<times> int option \<times> 's \<times> (int \<Rightarrow> byte)) option" where
  "sieve_read_contiguous ops v bt count individual fp offset locking max_bufsize junk = (\<lambda>(s, m).
     let off = (if individual then fp else vdisp v + etype_size v * offset);
         end_offset = off + bt_size bt * count - 1;
         s1 = (if locking then sv_lock ops off (end_offset - off + 1) s else s)
     in case read_window ops off (to_unsigned (min max_bufsize (end_offset - off + 1))) 0 junk s1 of
          None \<Rightarrow> None
        | Some (e, s2, w) \<Rightarrow>
            if e \<noteq> MPI_OK then Some (e, None, s2, m)
            else sieve_read_end ops individual (bt_size bt * count) locking off end_offset
              (sieve_regions (buffered_read ops max_bufsize junk end_offset) (regions bt count) off ((s2, w), m)))"

definition sieve_read_noncontiguous ::
  "'s sieve_ops \<Rightarrow> view \<Rightarrow> buftype \<Rightarrow> int \<Rightarrow> bool \<Rightarrow> nat \<times> int \<times> int \<times> int \<Rightarrow> bool \<Rightarrow> int \<Rightarrow> byte list \<Rightarrow> 's \<times> (int \<Rightarrow> byte) \<Rightarrow>
   (mpi_error \<times> int option \<times> 's \<times> (int \<Rightarrow> byte)) option" where
  "sieve_read_noncontiguous ops v bt count individual start locking max_bufsize junk = (\<lambda>(s, m).
     let (st_index, n, st_frd_size, start_off) = start; bufsize = bt_size bt * count in
     if bt_is_contig bt \<and> bufsize \<le> st_frd_size then
       (case sv_read ops bufsize start_off s of
          None \<Rightarrow> None
        | Some (e, bs, s1) \<Rightarrow>
            (let m1 = (\<lambda>x. if 0 \<le> x \<and> x < int (length bs) then bs ! nat x else m x)
             in if individual then
                  (case single_block_fp v bufsize start of
                     None \<Rightarrow> None
                   | Some p \<Rightarrow> Some (e, Some bufsize, sv_forget ops (sv_fp_ind ops p s1), m1))
                else Some (e, Some bufsize, sv_forget ops s1, m1)))
     else (case sieve_end v bufsize st_index n start_off (min st_frd_size bufsize) 0 0 of
         None \<Rightarrow> None
       | Some end_offset \<Rightarrow>
           (let s1 = (if locking then sv_lock ops start_off (end_offset - start_off + 1) s else s);
                w = \<lparr>wdata = junk, woff = 0, wlen = 0\<rparr>
            in sieve_read_end ops individual bufsize locking start_off end_offset
              (sieve_walk (buffered_read ops max_bufsize junk end_offset) True v bt bufsize start ((s1, w), m)))))"

definition ADIOI_GEN_ReadStrided ::
  "'s sieve_ops \<Rightarrow> ('s \<times> (int \<Rightarrow> byte)) strided_ops \<Rightarrow> bool \<Rightarrow> bool \<Rightarrow> view \<Rightarrow> buftype \<Rightarrow> int \<Rightarrow> bool \<Rightarrow> int \<Rightarrow> int \<Rightarrow> bool \<Rightarrow> int \<Rightarrow> byte list \<Rightarrow>
   's \<times> (int \<Rightarrow> byte) \<Rightarrow> (mpi_error \<times> int option \<times> 's \<times> (int \<Rightarrow> byte)) option" where
  "ADIOI_GEN_ReadStrided ops naive disabled unlocking v bt count individual fp offset locking max_bufsize junk sm =
     (if disabled then ADIOI_GEN_ReadStrided_naive naive v bt count individual fp offset locking unlocking sm
      else if filetype_size v = 0 then Some (MPI_OK, Some 0, sm)
      else if \<not> bt_is_contig bt \<and> filetype_is_contig v
      then sieve_read_contiguous ops v bt count individual fp offset locking max_bufsize junk sm
      else (case sieve_first_block v individual fp offset of
          None \<Rightarrow> None
        | Some start \<Rightarrow> sieve_read_noncontiguous ops v bt count individual start locking max_bufsize junk sm))"

end
