(* ===== verification/Sieving_Correct.thy ===== *)
theory Sieving_Correct
  imports Sieving
begin

text \<open>
  Correctness of data sieving: the walk issues the pieces of the request in order of their position,
  the window refines the file it stands for, and the sieving operations have the effect of the
  naive ones.
\<close>

section \<open>The walk\<close>

lemma cursor_exists:
  assumes "walkable v"
  shows "\<exists>n j r. j < length (blocks v) \<and> 0 \<le> r \<and> r < snd (blocks v ! j) \<and> byte_at v n j r = b"
proof -
  have w: "\<forall>b \<in> set (blocks v). 0 \<le> snd b" "filetype_size v = blocks_size (blocks v)" "0 < filetype_size v"
    using assms by (auto simp: walkable_def)
  obtain k r where "k < length (blocks v)" "0 \<le> r" "r < snd (blocks v ! k)" "prefix_size (blocks v) k + r = b mod filetype_size v"
    using explicit_scan_ok [of 0 "b mod filetype_size v" "blocks v" 0] w by auto
  moreover from this(4) have "byte_at v (b div filetype_size v) k r = b" by (simp add: byte_at_def add.assoc)
  ultimately show ?thesis by blast
qed

text \<open>In order, later bytes of a view are behind earlier ones.\<close>

lemma view_pos_increasing:
  assumes "walkable v" "in_order v" "b < c"
  shows "view_pos v b < view_pos v c"
proof -
  obtain n j r n' j' r' where
    b: "j < length (blocks v)" "0 \<le> r" "r < snd (blocks v ! j)" "byte_at v n j r = b" and
    c: "j' < length (blocks v)" "0 \<le> r'" "r' < snd (blocks v ! j')" "byte_at v n' j' r' = c"
    using cursor_exists [OF assms(1)] by metis
  have pos: "view_pos v b = file_pos v n j + r" "view_pos v c = file_pos v n' j' + r'"
    using view_pos_cursor [OF assms(1) b(1-3), of n] view_pos_cursor [OF assms(1) c(1-3), of n'] b(4) c(4)
    by (simp_all add: file_pos_def)
  consider "n = n'" "j = j'" | "n < n' \<or> n = n' \<and> j < j'" | "n' < n \<or> n = n' \<and> j' < j" by linarith
  then show ?thesis
  proof cases
    case 1
    then show ?thesis using assms(3) b(4) c(4) pos by (simp add: byte_at_def)
  next
    case 2
    from earlier_block [OF assms(1,2) b(1) c(1) this] show ?thesis using b(3) c(2) pos by linarith
  next
    case 3
    then have "n' < n \<or> n' = n \<and> j' < j" by auto
    from earlier_block(2) [OF assms(1,2) c(1) b(1) this] show ?thesis
      using assms(3) b(2,4) c(3,4) by (simp add: byte_at_def)
  qed
qed

lemma next_nonempty_cursor:
  assumes "walkable v" "at_cursor v n j r b off" "r = snd (blocks v ! j)" "0 \<le> b"
  shows "\<exists>j' n'. next_nonempty v j n = Some (j', n') \<and> at_cursor v n' j' 0 b (file_pos v n' j') \<and> 0 < snd (blocks v ! j')"
proof -
  have j: "j < length (blocks v)" using assms(2) by (simp add: at_cursor_def)
  obtain j1 n1 where nb: "next_block (blocks v) j n = (j1, n1)" by force
  note nx = byte_at_next [OF assms(1) j nb]
  obtain j' n' where l: "lands v 0 j1 n1 j' n'" using lands_somewhere [OF assms(1) nx(1)] by blast
  then have j': "j' < length (blocks v)" "0 < snd (blocks v ! j')" "byte_at v n' j' 0 = b"
    and sk: "skip_empty (blocks v) j1 n1 = Some (j', n')"
    using nx(2) assms(2,3) by (auto simp: lands_def at_cursor_def)
  have "next_nonempty v j n = Some (j', n')"
    using sk nb j by (auto simp: next_nonempty_def next_block_def Let_def)
  moreover have "0 \<le> n'"
  proof (rule ccontr)
    assume "\<not> 0 \<le> n'"
    have "0 \<le> blocks_size (drop (Suc j') (blocks v))"
      using assms(1) by (intro blocks_size_nonneg) (auto simp: walkable_def dest: in_set_dropD)
    then have "prefix_size (blocks v) j' < filetype_size v"
      using prefix_split [OF j'(1)] j'(2) assms(1) by (simp add: walkable_def)
    moreover have "n' * filetype_size v \<le> - 1 * filetype_size v"
      using \<open>\<not> 0 \<le> n'\<close> assms(1) by (intro mult_right_mono) (auto simp: walkable_def)
    ultimately show False using j'(3) assms(4) by (simp add: byte_at_def)
  qed
  ultimately show ?thesis using j' by (auto simp: at_cursor_def)
qed

lemma sieve_end_ok:
  assumes "walkable v" "0 \<le> b0"
  shows "at_cursor v n j r (b0 + i) off \<Longrightarrow> 0 \<le> i \<Longrightarrow> i \<le> bufsize \<Longrightarrow> f = min (snd (blocks v ! j) - r) (bufsize - i) \<Longrightarrow>
    sieve_end v bufsize j n off f i e = Some (if i < bufsize then view_pos v (b0 + bufsize - 1) else e)"
proof (induction "(nat (bufsize - i), if f = 0 then 1 else 0 :: nat)" arbitrary: i j n r off f e rule: wf_induct_rule [OF wf_walk_order])
  case 1
  have f: "0 \<le> f" "r + f \<le> snd (blocks v ! j)" "i + f \<le> bufsize" using 1 by (auto simp: at_cursor_def)
  note w = cursor_within [OF assms(1) "1.prems"(1) f(1,2)]
  show ?case
  proof (cases "i < bufsize")
    case True
    show ?thesis
    proof (cases "i + f < bufsize")
      case more: True
      then have r: "r + f = snd (blocks v ! j)" using "1.prems"(4) by linarith
      have b: "0 \<le> b0 + i + f" using assms(2) "1.prems"(2) f(1) by simp
      obtain j' n' where nx: "next_nonempty v j n = Some (j', n')" "at_cursor v n' j' 0 (b0 + i + f) (file_pos v n' j')" "0 < snd (blocks v ! j')"
        using next_nonempty_cursor [OF assms(1) w(1) r b] by blast
      define f' where "f' = min (snd (blocks v ! j')) (bufsize - (i + f))"
      have c: "at_cursor v n' j' 0 (b0 + (i + f)) (file_pos v n' j')" "0 < f'" using nx(2,3) more by (auto simp: f'_def add.assoc)
      have "((nat (bufsize - (i + f)), if f' = 0 then 1 else 0), nat (bufsize - i), if f = 0 then 1 else 0) \<in> walk_order"
        using f(1) True c(2) by (auto simp: in_walk_order)
      then have "sieve_end v bufsize j' n' (file_pos v n' j') f' (i + f) (off + f - 1) =
          Some (if i + f < bufsize then view_pos v (b0 + bufsize - 1) else off + f - 1)"
        by (rule "1.hyps" [OF _ c(1)]) (use f "1.prems"(2) in \<open>simp_all add: f'_def\<close>)
      then show ?thesis using True more nx(1) by (subst sieve_end.simps) (simp add: f'_def [symmetric])
    next
      case False
      then have i: "i + f = bufsize" "0 < f" using True f by auto
      have "[off..off + f - 1] ! nat (f - 1) = map (view_pos v) [b0 + i..b0 + i + f - 1] ! nat (f - 1)" using w(2) by simp
      then have e: "off + f - 1 = view_pos v (b0 + bufsize - 1)" using i by (simp add: algebra_simps)
      have stop: "sieve_end v bufsize x y z a bufsize d = Some d" for x y z a d by (simp add: sieve_end.simps)
      have "\<exists>j' n'. next_nonempty v j n = Some (j', n')"
      proof -
        have "at_cursor v n j (snd (blocks v ! j)) (byte_at v n j (snd (blocks v ! j))) (file_pos v n j + snd (blocks v ! j))"
          using "1.prems"(1) by (auto simp: at_cursor_def)
        moreover have "0 \<le> byte_at v n j (snd (blocks v ! j))"
          using "1.prems"(1,2) assms(2) by (auto simp: at_cursor_def byte_at_def)
        ultimately show ?thesis using next_nonempty_cursor [OF assms(1)] by blast
      qed
      then obtain j' n' where "next_nonempty v j n = Some (j', n')" by blast
      then show ?thesis using True i e by (subst sieve_end.simps) (simp add: stop)
    qed
  qed (simp add: sieve_end.simps)
qed

lemma sieve_file_ok:
  assumes "walkable v" "small_blocks v" "0 \<le> b0"
  shows "at_cursor v n j r (b0 + i) off \<Longrightarrow> 0 \<le> i \<Longrightarrow> i \<le> bufsize \<Longrightarrow> f = min (snd (blocks v ! j) - r) (bufsize - i) \<Longrightarrow>
    walks (\<lambda>k. k) io v b0 bufsize i (nat (bufsize - i)) (sieve_file io v bufsize j n off f i)"
proof (induction "(nat (bufsize - i), if f = 0 then 1 else 0 :: nat)" arbitrary: i j n r off f rule: wf_induct_rule [OF wf_walk_order])
  case 1
  have f: "0 \<le> f" "r + f \<le> snd (blocks v ! j)" "i + f \<le> bufsize" "j < length (blocks v)" "0 \<le> r"
    using 1 by (auto simp: at_cursor_def)
  then have small: "f \<le> INT_MAX" using small_block [OF assms(2) f(4)] by linarith
  note w = cursor_within [OF assms(1) "1.prems"(1) f(1,2)]
  have off: "off = file_pos v n j + r" using "1.prems"(1) by (simp add: at_cursor_def)
  have eq: "(off + f < vdisp v + fst (blocks v ! j) + snd (blocks v ! j) + n * filetype_extent v) \<longleftrightarrow> r + f < snd (blocks v ! j)"
    using off by (auto simp: file_pos_def)
  have stop: "sieve_file io v bufsize x y z a bufsize s = Some (Inr (s, z))" for x y z a s by (simp add: sieve_file.simps)
  show ?case
  proof (cases "i < bufsize")
    case True
    obtain loop' where rest: "walks (\<lambda>k. k) io v b0 bufsize (i + f) (nat (bufsize - (i + f))) loop'"
      and step: "\<And>s. sieve_file io v bufsize j n off f i s =
        (case (if f \<noteq> 0 then io i f off s else Some (MPI_OK, s)) of None \<Rightarrow> None
        | Some (e, s') \<Rightarrow> if e \<noteq> MPI_OK then Some (Inl (e, s')) else loop' s')"
    proof (cases "r + f < snd (blocks v ! j)")
      case inside: True
      then have i: "i + f = bufsize" using "1.prems"(4) by linarith
      let ?loop = "sieve_file io v bufsize j n (off + f) f (i + f)"
      have "fp_at v (b0 + (i + f)) (off + f)" using cursor_fp_at [OF assms(1) w(1)] by (simp add: add.assoc)
      then have "walks (\<lambda>k. k) io v b0 bufsize (i + f) (nat (bufsize - (i + f))) ?loop"
        by (rule walks_end) (use i stop in simp_all)
      moreover have "sieve_file io v bufsize j n off f i s =
        (case (if f \<noteq> 0 then io i f off s else Some (MPI_OK, s)) of None \<Rightarrow> None
        | Some (e, s') \<Rightarrow> if e \<noteq> MPI_OK then Some (Inl (e, s')) else ?loop s')" for s
        using True f(4) inside eq by (subst sieve_file.simps) (simp split: option.splits)
      ultimately show ?thesis by (rule that)
    next
      case False
      then have r: "r + f = snd (blocks v ! j)" using f(2) by simp
      have b: "0 \<le> b0 + i + f" using assms(3) "1.prems"(2) f(1) by simp
      obtain j' n' where nx: "next_nonempty v j n = Some (j', n')" "at_cursor v n' j' 0 (b0 + i + f) (file_pos v n' j')" "0 < snd (blocks v ! j')"
        using next_nonempty_cursor [OF assms(1) w(1) r b] by blast
      define f' where "f' = min (snd (blocks v ! j')) (bufsize - (i + f))"
      let ?loop = "sieve_file io v bufsize j' n' (file_pos v n' j') f' (i + f)"
      have c: "at_cursor v n' j' 0 (b0 + (i + f)) (file_pos v n' j')" using nx(2) by (simp add: add.assoc)
      have "walks (\<lambda>k. k) io v b0 bufsize (i + f) (nat (bufsize - (i + f))) ?loop"
      proof (cases "i + f = bufsize")
        case True
        then show ?thesis using cursor_fp_at [OF assms(1) c] stop by (intro walks_end) simp_all
      next
        case False
        then have "((nat (bufsize - (i + f)), if f' = 0 then 1 else 0), nat (bufsize - i), if f = 0 then 1 else 0) \<in> walk_order"
          using f(1,3) \<open>i < bufsize\<close> nx(3) by (auto simp: in_walk_order f'_def)
        then show ?thesis by (rule "1.hyps" [OF _ c]) (use f "1.prems"(2) in \<open>simp_all add: f'_def\<close>)
      qed
      moreover have "sieve_file io v bufsize j n off f i s =
        (case (if f \<noteq> 0 then io i f off s else Some (MPI_OK, s)) of None \<Rightarrow> None
        | Some (e, s') \<Rightarrow> if e \<noteq> MPI_OK then Some (Inl (e, s')) else ?loop s')" for s
        unfolding f'_def using True f(4) False eq nx(1) by (subst sieve_file.simps) (simp split: option.splits)
      ultimately show ?thesis by (rule that)
    qed
    have "sieve_file io v bufsize j n off f i s =
        (case (if f \<noteq> 0 then issue io i f off s else Some (MPI_OK, s)) of None \<Rightarrow> None
        | Some (e, s') \<Rightarrow> if e \<noteq> MPI_OK then Some (Inl (e, s')) else loop' s')" for s
      unfolding step issue_fits [OF f(1) small] ..
    from walks_piece [OF rest f(1) small "1.prems"(2) f(3) _ w(2) this] show ?thesis by simp
  next
    case False
    then show ?thesis
      using "1.prems" by (intro walks_end [of _ _ _ off]) (auto simp: sieve_file.simps intro: cursor_fp_at [OF assms(1)])
  qed
qed

lemma cursor_land:
  assumes "walkable v" "at_cursor v n j r b off" "f = snd (blocks v ! j) - r" "0 \<le> sz" "sz \<le> f" "0 \<le> b"
  shows "\<exists>j' n'. (if sz = f then next_nonempty v j n else Some (j, n)) = Some (j', n') \<and> j' < length (blocks v) \<and>
    at_cursor v n' j' (if sz = f then 0 else r + sz) (b + sz) (if sz = f then file_pos v n' j' else off + sz) \<and>
    (if sz = f then snd (blocks v ! j') else f - sz) = snd (blocks v ! j') - (if sz = f then 0 else r + sz) \<and>
    (if sz = f then snd (blocks v ! j') else f - sz) \<noteq> 0 \<and>
    [off..off + sz - 1] = map (view_pos v) [b..b + sz - 1]"
proof -
  note w = cursor_within [OF assms(1,2,4)]
  show ?thesis
  proof (cases "sz = f")
    case True
    then obtain j' n' where "next_nonempty v j n = Some (j', n')" "at_cursor v n' j' 0 (b + sz) (file_pos v n' j')" "0 < snd (blocks v ! j')"
      using next_nonempty_cursor [OF assms(1) w(1)] assms(3,4,6) by fastforce
    then show ?thesis using True w(2) assms(3) by (auto simp: at_cursor_def)
  next
    case False
    then show ?thesis using w assms(3,5) by (auto simp: at_cursor_def)
  qed
qed

lemma sieve_both_ok:
  assumes "walkable v" "walkable (mem_view bt)" "small_blocks v" "bufsize = bt_size bt * count" "0 \<le> b0"
    and "small \<Longrightarrow> bufsize < 2 ^ 32"
  shows "at_cursor v n j r (b0 + i) off \<Longrightarrow> f = snd (blocks v ! j) - r \<Longrightarrow>
    at_cursor (mem_view bt) (int (c div length (bt_blocks bt))) k q i ioff \<Longrightarrow> g = snd (bt_blocks bt ! k) - q \<Longrightarrow>
    k = c mod length (bt_blocks bt) \<Longrightarrow> i \<le> bufsize \<Longrightarrow> 0 \<le> i \<Longrightarrow>
    walks (view_pos (mem_view bt)) io v b0 bufsize i (nat (bufsize - i)) (sieve_both io small v bt bufsize j n off f k c ioff g i)"
proof (induction "(nat (bufsize - i), (if f = 0 then 1 else 0) + idle (mem_view bt) k g)" arbitrary: i j n r off f k c q ioff g
    rule: wf_induct_rule [OF wf_walk_order])
  case 1
  let ?L = "length (bt_blocks bt)" and ?m = "mem_view bt"
  show ?case
  proof (cases "i < bufsize")
    case True
    define sz where "sz = min f g"
    obtain k' c' where kc: "(k', c') = (if sz = g then ((k + 1) mod ?L, c + 1) else (k, c))" by (metis prod.collapse)
    have cur: "j < length (blocks v)" "k < ?L" "0 \<le> f" "0 \<le> g" "0 \<le> r"
      using "1.prems" by (auto simp: at_cursor_def)
    have sz: "0 \<le> sz" "sz \<le> f" "sz \<le> g" using cur by (auto simp: sz_def)
    have ne: "bt_blocks bt \<noteq> []" using cur(2) by auto
    have kc2: "(k', int (c' div ?L)) = (if sz = g then advance (blocks ?m) k (int (c div ?L)) else (k, int (c div ?L)))"
      using kc memory_advance [OF "1.prems"(5) ne] by (auto split: if_splits)
    have g: "g = snd (blocks ?m ! k) - q" using "1.prems"(4) by simp
    define f' where "f' j' = (if sz = f then snd (blocks v ! j') else f - sz)" for j'
    define off' where "off' j' n' = (if sz = f then file_pos v n' j' else off + sz)" for j' n'
    define g' where "g' = (if sz = g then snd (bt_blocks bt ! k') else g - sz)"
    define ioff' where "ioff' = (if sz = g then memory_pos bt c' k' else ioff + sz)"
    have b: "0 \<le> b0 + i" using assms(5) "1.prems"(7) by simp
    obtain j' n' where F: "(if sz = f then next_nonempty v j n else Some (j, n)) = Some (j', n')" "j' < length (blocks v)"
      "at_cursor v n' j' (if sz = f then 0 else r + sz) (b0 + (i + sz)) (off' j' n')"
      "f' j' = snd (blocks v ! j') - (if sz = f then 0 else r + sz)" "f' j' \<noteq> 0"
      "[off..off + sz - 1] = map (view_pos v) [b0 + i..b0 + i + sz - 1]"
      using cursor_land [OF assms(1) "1.prems"(1,2) sz(1,2) b] unfolding f'_def off'_def by (auto simp: add.assoc)
    note M = cursor_step [OF assms(2) "1.prems"(3) g sz(1,3) kc2]
    have fits: "i + sz \<le> bufsize"
      using block_within_request [OF assms(2) "1.prems"(3), of count] True sz(3) assms(4) g by simp
    have small: "sz \<le> INT_MAX" using small_block [OF assms(3) cur(1)] "1.prems"(2) cur(5) sz(2) by linarith
    have k': "k' = c' mod ?L" using kc "1.prems"(5) by (auto simp: mod_Suc_eq split: if_splits)
    have M': "at_cursor ?m (int (c' div ?L)) k' (if sz = g then 0 else q + sz) (i + sz) ioff'"
      "g' = snd (bt_blocks bt ! k') - (if sz = g then 0 else q + sz)"
      using M(1,2) by (simp_all only: g'_def ioff'_def memory_pos_eq mem_view_simps)
    have "((nat (bufsize - (i + sz)), (if f' j' = 0 then 1 else 0) + idle ?m k' g'), nat (bufsize - i), (if f = 0 then 1 else 0) + idle ?m k g) \<in> walk_order"
    proof (cases "sz = 0")
      case z: True
      then have "f = 0 \<or> g = 0" using cur by (auto simp: sz_def min_def split: if_splits)
      then show ?thesis using M(3) [OF z] z F(5) unfolding g'_def in_walk_order by auto
    qed (use sz(1) True in \<open>auto simp: in_walk_order\<close>)
    moreover have "0 \<le> i + sz" using "1.prems"(7) sz(1) by simp
    ultimately have rest: "walks (view_pos ?m) io v b0 bufsize (i + sz) (nat (bufsize - (i + sz)))
        (sieve_both io small v bt bufsize j' n' (off' j' n') (f' j') k' c' ioff' g' (i + sz))"
      by (rule "1.hyps" [OF _ F(3,4) M' k' fits])
    have "\<not> ?L \<le> k'" using M(1) by (auto simp: at_cursor_def)
    moreover have "\<not> (small \<and> to_unsigned (i + sz) \<noteq> i + sz)"
      using assms(6) fits "1.prems"(7) sz(1) by (auto simp: to_unsigned_id)
    ultimately have "sieve_both io small v bt bufsize j n off f k c ioff g i s =
        (case (if sz \<noteq> 0 then io ioff sz off s else Some (MPI_OK, s)) of None \<Rightarrow> None
        | Some (e, s') \<Rightarrow> if e \<noteq> MPI_OK then Some (Inl (e, s'))
            else sieve_both io small v bt bufsize j' n' (off' j' n') (f' j') k' c' ioff' g' (i + sz) s')" for s
      using True
      by (subst sieve_both.simps)
        (simp only: Let_def if_True if_False prod.case option.case kc [symmetric] sz_def [symmetric] F(1)
          f'_def [symmetric] off'_def [symmetric] g'_def [symmetric] ioff'_def [symmetric])
    then have "sieve_both io small v bt bufsize j n off f k c ioff g i s =
        (case (if sz \<noteq> 0 then issue io ioff sz off s else Some (MPI_OK, s)) of None \<Rightarrow> None
        | Some (e, s') \<Rightarrow> if e \<noteq> MPI_OK then Some (Inl (e, s'))
            else sieve_both io small v bt bufsize j' n' (off' j' n') (f' j') k' c' ioff' g' (i + sz) s')" for s
      unfolding issue_fits [OF sz(1) small] .
    from walks_piece [OF rest sz(1) small "1.prems"(7) fits M(4) F(6) this] show ?thesis .
  next
    case False
    then show ?thesis
      using "1.prems" by (intro walks_end [of _ _ _ off]) (auto simp: sieve_both.simps intro: cursor_fp_at [OF assms(1)])
  qed
qed

lemma sieve_regions_eq:
  "\<forall>(u, l) \<in> set rs. 0 \<le> l \<and> l \<le> INT_MAX \<Longrightarrow> sieve_regions io rs off = memory_loop io rs off"
proof (induction rs arbitrary: off)
  case (Cons x rs)
  obtain u l where "x = (u, l)" by force
  then show ?case using Cons by (auto simp: issue_fits intro!: ext split: option.splits)
qed (auto intro!: ext)

end
