(* ===== verification/Sieve_Windows.thy ===== *)
theory Sieve_Windows
  imports Sieving
begin

text \<open>
  The window of a sieving operation refines the file it stands for: what the file would hold if the
  window were written back. The laws the macros need of a file are a locale.
\<close>

section \<open>The interface\<close>

locale sieved_file =
  fixes inv :: "'c \<Rightarrow> 'f \<Rightarrow> bool"
    and content :: "'f \<Rightarrow> int \<Rightarrow> byte option"
    and ops :: "'c \<Rightarrow> 'f sieve_ops"
    and fp :: "'f \<Rightarrow> int"
  assumes write_ok: "inv c f \<Longrightarrow> 0 \<le> off \<Longrightarrow> \<exists>f'. sv_write (ops c) bs off f = Some (MPI_OK, f') \<and> inv c f' \<and>
      content f' = (\<lambda>p. if off \<le> p \<and> p < off + int (length bs) then Some (bs ! nat (p - off)) else content f p)"
    and read_ok: "inv c f \<Longrightarrow> 0 \<le> off \<Longrightarrow> 0 \<le> len \<Longrightarrow> \<exists>bs f'. sv_read (ops c) len off f = Some (MPI_OK, bs, f') \<and> inv c f' \<and>
      content f' = content f \<and> int (length bs) \<le> len \<and>
      (\<forall>p b. off \<le> p \<and> p < off + len \<and> content f p = Some b \<longrightarrow> nat (p - off) < length bs \<and> bs ! nat (p - off) = b)"
    and lock_ok: "inv c f \<Longrightarrow> inv c (sv_lock (ops c) off len f)" "content (sv_lock (ops c) off len f) = content f"
    and unlock_ok: "inv c f \<Longrightarrow> inv c (sv_unlock (ops c) off len f)" "content (sv_unlock (ops c) off len f) = content f"
    and fp_ok: "inv c f \<Longrightarrow> inv c (sv_fp_ind (ops c) off f)" "content (sv_fp_ind (ops c) off f) = content f"
      "fp (sv_forget (ops c) (sv_fp_ind (ops c) off f)) = off"
    and forget_ok: "inv c f \<Longrightarrow> inv c (sv_forget (ops c) f)" "content (sv_forget (ops c) f) = content f"

section \<open>Windows over a file\<close>

definition overlay :: "window \<Rightarrow> (int \<Rightarrow> byte option) \<Rightarrow> int \<Rightarrow> byte option" where
  "overlay w c = (\<lambda>p. if woff w \<le> p \<and> p < woff w + wlen w then Some (wdata w ! nat (p - woff w)) else c p)"

text \<open>
  A window of a call that accesses \<open>lo\<close> to \<open>end_offset\<close>.
\<close>

definition window_ok :: "int \<Rightarrow> int \<Rightarrow> int \<Rightarrow> window \<Rightarrow> bool" where
  "window_ok maxb lo end_offset w \<longleftrightarrow> int (length (wdata w)) = maxb \<and> 0 \<le> wlen w \<and> wlen w \<le> maxb \<and>
     (wlen w = 0 \<or> lo \<le> woff w \<and> woff w + wlen w \<le> end_offset + 1)"

text \<open>
  What the file is to hold, \<open>T\<close>, is in file and window; without a read, only up to \<open>cur\<close> in the window.
\<close>

definition sees :: "bool \<Rightarrow> int \<Rightarrow> (int \<Rightarrow> byte option) \<Rightarrow> window \<Rightarrow> (int \<Rightarrow> byte option) \<Rightarrow> bool" where
  "sees rmw cur T w c \<longleftrightarrow> (\<forall>q b. T q = Some b \<longrightarrow> rmw \<or> q < cur \<or> woff w + wlen w \<le> q \<longrightarrow> overlay w c q = Some b)"

lemma memcpy_at_Some:
  assumes "0 \<le> i" "i + int (length bs) \<le> int (length d)"
  obtains d' where "memcpy_at d i bs = Some d'" "length d' = length d"
    "\<And>k. k < length d \<Longrightarrow> d' ! k = (if nat i \<le> k \<and> k < nat i + length bs then bs ! (k - nat i) else d ! k)"
proof
  show "memcpy_at d i bs = Some (take (nat i) d @ bs @ drop (nat i + length bs) d)" using assms by (simp add: memcpy_at_def)
  have n: "nat i + length bs \<le> length d" using assms by linarith
  then show "length (take (nat i) d @ bs @ drop (nat i + length bs) d) = length d" by simp
  show "(take (nat i) d @ bs @ drop (nat i + length bs) d) ! k =
      (if nat i \<le> k \<and> k < nat i + length bs then bs ! (k - nat i) else d ! k)" if "k < length d" for k
    using n that by (auto simp: nth_append)
qed

lemma overlay_empty: "wlen w = 0 \<Longrightarrow> overlay w c = c"
  by (auto simp: overlay_def intro!: ext)

lemma window_len:
  assumes "0 < maxb" "maxb \<le> INT_MAX" "off \<le> end_offset + 1"
  shows "to_unsigned (min maxb (end_offset - off + 1)) = min maxb (end_offset - off + 1)"
  using assms by (intro to_unsigned_id) (auto simp: INT_MAX_def)

text \<open>Copying bytes of the buffer into the window brings the file further.\<close>

lemma sees_memcpy:
  assumes "sees rmw cur T w c" "window_ok maxb lo e w" "woff w \<le> cur" "0 \<le> sz" "cur + sz \<le> woff w + wlen w"
  obtains d where "memcpy_at (wdata w) (cur - woff w) (map m [u..u + sz - 1]) = Some d" "window_ok maxb lo e (w\<lparr>wdata := d\<rparr>)"
    "sees rmw (cur + sz) (assign (\<lambda>u. Some (m u)) (zip [u..u + sz - 1] [cur..cur + sz - 1]) T) (w\<lparr>wdata := d\<rparr>) c"
proof -
  have w: "int (length (wdata w)) = maxb" "0 \<le> wlen w" "wlen w \<le> maxb" using assms(2) by (auto simp: window_ok_def)
  obtain d where d: "memcpy_at (wdata w) (cur - woff w) (map m [u..u + sz - 1]) = Some d" "length d = length (wdata w)"
    "\<And>k. k < length (wdata w) \<Longrightarrow> d ! k = (if nat (cur - woff w) \<le> k \<and> k < nat (cur - woff w) + length (map m [u..u + sz - 1])
        then map m [u..u + sz - 1] ! (k - nat (cur - woff w)) else wdata w ! k)"
    by (rule memcpy_at_Some [of "cur - woff w" "map m [u..u + sz - 1]" "wdata w"]) (use assms w in auto)
  let ?T = "assign (\<lambda>u. Some (m u)) (zip [u..u + sz - 1] [cur..cur + sz - 1]) T"
  have T: "?T = (\<lambda>q. if cur \<le> q \<and> q < cur + sz then Some (m (u + (q - cur))) else T q)"
    using assign_range [of "\<lambda>u. Some (m u)" u "nat sz" cur T] assms(4) by simp
  have ov: "overlay (w\<lparr>wdata := d\<rparr>) c q = (if cur \<le> q \<and> q < cur + sz then Some (m (u + (q - cur))) else overlay w c q)" for q
  proof (cases "woff w \<le> q \<and> q < woff w + wlen w")
    case True
    then have k: "nat (q - woff w) < length (wdata w)" using w by linarith
    have "nat (q - woff w) - nat (cur - woff w) = nat (q - cur)" using True assms(3) by linarith
    moreover have "(nat (cur - woff w) \<le> nat (q - woff w) \<and> nat (q - woff w) < nat (cur - woff w) + length (map m [u..u + sz - 1])) \<longleftrightarrow> cur \<le> q \<and> q < cur + sz"
      using True assms(3,4) by auto
    ultimately show ?thesis using d(3) [OF k] True by (auto simp: overlay_def)
  next
    case False
    then show ?thesis using assms(3-5) by (auto simp: overlay_def)
  qed
  have "sees rmw (cur + sz) ?T (w\<lparr>wdata := d\<rparr>) c"
    using assms(1,4) unfolding sees_def ov T by (auto split: if_splits)
  moreover have "window_ok maxb lo e (w\<lparr>wdata := d\<rparr>)" using assms(2) d(2) by (simp add: window_ok_def)
  ultimately show ?thesis using that d(1) by blast
qed

lemma assign_join:
  assumes "0 \<le> a" "a \<le> l"
  shows "assign h (zip [u + a..u + l - 1] [p + a..p + l - 1]) (assign h (zip [u..u + a - 1] [p..p + a - 1]) c) =
    assign h (zip [u..u + l - 1] [p..p + l - 1]) c"
proof -
  have "[u..u + l - 1] = [u..u + a - 1] @ [u + a..u + l - 1]" "[p..p + l - 1] = [p..p + a - 1] @ [p + a..p + l - 1]"
    using upto_join [of u "u + a" "u + l"] upto_join [of p "p + a" "p + l"] assms by simp_all
  then show ?thesis using assms by (simp add: assign_append)
qed

context sieved_file
begin

lemma write_window_ok:
  assumes "inv c f" "window_ok maxb lo e w" "0 \<le> woff w"
  shows "\<exists>f'. write_window (ops c) rmw atomic f w = Some (MPI_OK, f') \<and> inv c f' \<and> content f' = overlay w (content f)"
proof -
  have w: "wlen w \<le> int (length (wdata w))" "0 \<le> wlen w" using assms(2) by (auto simp: window_ok_def)
  obtain f1 where f1: "sv_write (ops c) (take (nat (wlen w)) (wdata w)) (woff w) f = Some (MPI_OK, f1)" "inv c f1"
    "content f1 = (\<lambda>p. if woff w \<le> p \<and> p < woff w + int (length (take (nat (wlen w)) (wdata w)))
       then Some (take (nat (wlen w)) (wdata w) ! nat (p - woff w)) else content f p)"
    using write_ok [OF assms(1,3)] by blast
  have "content f1 = overlay w (content f)"
    using w unfolding f1(3) by (auto simp: overlay_def min_def intro!: ext)
  then show ?thesis using f1(1,2) w unlock_ok by (auto simp: write_window_def)
qed

lemma open_window_ok:
  assumes "inv c f" "int (length (wdata w)) = maxb" "0 < maxb" "maxb \<le> INT_MAX" "0 \<le> off" "lo \<le> off" "off \<le> e + 1"
  shows "\<exists>f' w'. open_window (ops c) rmw atomic maxb e off f w = Some (MPI_OK, f', w') \<and> inv c f' \<and> content f' = content f \<and>
    window_ok maxb lo e w' \<and> woff w' = off \<and> wlen w' = min maxb (e - off + 1) \<and>
    (\<forall>q b. content f q = Some b \<longrightarrow> rmw \<or> q < off \<or> off + wlen w' \<le> q \<longrightarrow> overlay w' (content f') q = Some b)"
proof -
  let ?len = "min maxb (e - off + 1)"
  note len = window_len [OF assms(3,4,7)]
  have pos: "0 \<le> ?len" "?len \<le> maxb" "off + ?len \<le> e + 1" using assms(3,7) by auto
  show ?thesis
  proof (cases rmw)
    case True
    let ?f = "if atomic then f else sv_lock (ops c) off ?len f"
    have f: "inv c ?f" "content ?f = content f" using assms(1) lock_ok by auto
    obtain bs f1 where r: "sv_read (ops c) ?len off ?f = Some (MPI_OK, bs, f1)" "inv c f1" "content f1 = content f" "int (length bs) \<le> ?len"
      "\<And>p b. off \<le> p \<Longrightarrow> p < off + ?len \<Longrightarrow> content f p = Some b \<Longrightarrow> nat (p - off) < length bs \<and> bs ! nat (p - off) = b"
      using read_ok [OF f(1) assms(5) pos(1)] f(2) by auto
    have "0 + int (length bs) \<le> int (length (wdata w))" using r(4) pos(2) assms(2) by simp
    then obtain d where d: "memcpy_at (wdata w) 0 bs = Some d" "length d = length (wdata w)"
      "\<And>k. k < length (wdata w) \<Longrightarrow> d ! k = (if nat 0 \<le> k \<and> k < nat 0 + length bs then bs ! (k - nat 0) else wdata w ! k)"
      using memcpy_at_Some [of 0 bs "wdata w"] by blast
    let ?w = "\<lparr>wdata = d, woff = off, wlen = ?len\<rparr>"
    have "overlay ?w (content f1) q = Some b" if "content f q = Some b" for q b
    proof (cases "off \<le> q \<and> q < off + ?len")
      case True
      then have "nat (q - off) < length (wdata w)" using pos(2) assms(2) by linarith
      then show ?thesis using r(5) [OF _ _ that] True d(3) by (auto simp: overlay_def)
    next
      case False
      then show ?thesis using that r(3) by (auto simp: overlay_def)
    qed
    moreover have "open_window (ops c) rmw atomic maxb e off f w = Some (MPI_OK, f1, ?w)"
      using True r(1) d(1) by (simp add: open_window_def len Let_def)
    moreover have "window_ok maxb lo e ?w" using d(2) assms(2,6) pos by (simp add: window_ok_def)
    ultimately show ?thesis using r(2,3) by auto
  next
    case False
    have "open_window (ops c) rmw atomic maxb e off f w = Some (MPI_OK, f, w\<lparr>woff := off, wlen := ?len\<rparr>)"
      using False by (simp add: open_window_def len Let_def)
    moreover have "window_ok maxb lo e (w\<lparr>woff := off, wlen := ?len\<rparr>)" using assms(2,6) pos by (simp add: window_ok_def)
    ultimately show ?thesis using assms(1) False by (auto simp: overlay_def)
  qed
qed

text \<open>
  The state between two pieces: everything before \<open>cur\<close> is done, and outside of \<open>lo\<close> to \<open>e\<close> the file is as
  it was, \<open>c0\<close>.
\<close>

definition between :: "'c \<Rightarrow> int \<Rightarrow> bool \<Rightarrow> int \<Rightarrow> int \<Rightarrow> (int \<Rightarrow> byte option) \<Rightarrow> (int \<Rightarrow> byte option) \<Rightarrow> int \<Rightarrow> 'f \<Rightarrow> window \<Rightarrow> bool" where
  "between c maxb rmw lo e c0 T cur f w \<longleftrightarrow> inv c f \<and> window_ok maxb lo e w \<and> sees rmw cur T w (content f) \<and>
     woff w \<le> cur \<and> (\<forall>q. q < lo \<or> e < q \<longrightarrow> content f q = c0 q) \<and> 0 \<le> woff w"

lemma overlay_outside: "window_ok maxb lo e w \<Longrightarrow> q < lo \<or> e < q \<Longrightarrow> overlay w c q = c q"
  by (auto simp: window_ok_def overlay_def)

lemma flush_window:
  assumes "between c maxb rmw lo e c0 T cur f w" "rmw \<or> woff w + wlen w \<le> cur"
  shows "\<exists>f'. write_window (ops c) rmw atomic f w = Some (MPI_OK, f') \<and> inv c f' \<and> T \<subseteq>\<^sub>m content f' \<and>
    (\<forall>q. q < lo \<or> e < q \<longrightarrow> content f' q = c0 q)"
proof -
  have b: "inv c f" "window_ok maxb lo e w" "sees rmw cur T w (content f)" "0 \<le> woff w"
    and out: "\<And>q. q < lo \<or> e < q \<Longrightarrow> content f q = c0 q" using assms(1) by (auto simp: between_def)
  obtain f' where f': "write_window (ops c) rmw atomic f w = Some (MPI_OK, f')" "inv c f'" "content f' = overlay w (content f)"
    using write_window_ok [OF b(1,2,4)] by blast
  have "T \<subseteq>\<^sub>m content f'" unfolding map_le_def
  proof
    fix q assume "q \<in> dom T"
    moreover have "rmw \<or> q < cur \<or> woff w + wlen w \<le> q" using assms(2) by linarith
    ultimately show "T q = content f' q" using b(3) unfolding f'(3) sees_def by fastforce
  qed
  then show ?thesis using f' overlay_outside [OF b(2)] out by auto
qed

lemma open_between:
  assumes "inv c f" "T \<subseteq>\<^sub>m content f" "\<And>q. q < lo \<or> e < q \<Longrightarrow> content f q = c0 q" "int (length (wdata w)) = maxb"
    and "0 < maxb" "maxb \<le> INT_MAX" "0 \<le> lo" "lo \<le> p" "p \<le> e + 1"
  shows "\<exists>f' w'. open_window (ops c) rmw atomic maxb e p f w = Some (MPI_OK, f', w') \<and>
    between c maxb rmw lo e c0 T p f' w' \<and> woff w' = p \<and> wlen w' = min maxb (e - p + 1)"
proof -
  have p0: "0 \<le> p" using assms(7,8) by simp
  obtain f' w' where f': "open_window (ops c) rmw atomic maxb e p f w = Some (MPI_OK, f', w')" "inv c f'" "content f' = content f"
    "window_ok maxb lo e w'" "woff w' = p" "wlen w' = min maxb (e - p + 1)"
    "\<And>q b. content f q = Some b \<Longrightarrow> rmw \<or> q < p \<or> p + wlen w' \<le> q \<Longrightarrow> overlay w' (content f') q = Some b"
    using open_window_ok [OF assms(1,4,5,6) p0 assms(8,9)] by blast
  have "sees rmw p T w' (content f')"
    unfolding sees_def
  proof (intro allI impI)
    fix q b assume T: "T q = Some b" and q: "rmw \<or> q < p \<or> woff w' + wlen w' \<le> q"
    have "content f q = Some b" using assms(2) T by (metis domI map_le_def)
    then show "overlay w' (content f') q = Some b" using f'(5,7) q by simp
  qed
  then have "between c maxb rmw lo e c0 T p f' w'" using f' p0 assms(3) by (simp add: between_def)
  then show ?thesis using f'(1,5,6) by blast
qed

lemma turn_window:
  assumes "between c maxb rmw lo e c0 T cur f w" "0 < maxb" "maxb \<le> INT_MAX" "0 \<le> lo" "lo \<le> p" "p \<le> e + 1"
    and "rmw \<or> woff w + wlen w \<le> cur"
  shows "\<exists>f1 f2 w2. write_window (ops c) rmw atomic f w = Some (MPI_OK, f1) \<and>
    open_window (ops c) rmw atomic maxb e p f1 w = Some (MPI_OK, f2, w2) \<and>
    between c maxb rmw lo e c0 T p f2 w2 \<and> woff w2 = p \<and> wlen w2 = min maxb (e - p + 1)"
proof -
  obtain f1 where f1: "write_window (ops c) rmw atomic f w = Some (MPI_OK, f1)" "inv c f1" "T \<subseteq>\<^sub>m content f1"
    "\<And>q. q < lo \<or> e < q \<Longrightarrow> content f1 q = c0 q"
    using flush_window [OF assms(1,7)] by blast
  have len: "int (length (wdata w)) = maxb" using assms(1) by (simp add: between_def window_ok_def)
  from open_between [OF f1(2-4) len assms(2-6)] f1(1) show ?thesis by blast
qed

lemma enter_window_ok:
  assumes "between c maxb rmw lo e c0 T cur f w" "0 < maxb" "maxb \<le> INT_MAX" "0 \<le> lo" "lo \<le> p" "p \<le> e + 1"
    and "if rmw then cur \<le> p else p = cur"
  shows "\<exists>f' w'. enter_window (ops c) rmw atomic maxb e p f w = Some (MPI_OK, f', w') \<and>
    between c maxb rmw lo e c0 T p f' w' \<and> woff w' \<le> p \<and> (p < woff w' + wlen w' \<or> p = e + 1 \<and> woff w' + wlen w' = p)"
proof (cases "p \<ge> woff w + wlen w")
  case True
  have cur: "rmw \<or> woff w + wlen w \<le> cur" using True assms(7) by (auto split: if_splits)
  have ok: "inv c f" "window_ok maxb lo e w" "sees rmw cur T w (content f)" "\<And>q. q < lo \<or> e < q \<Longrightarrow> content f q = c0 q"
    using assms(1) by (auto simp: between_def)
  obtain f1 f2 w2 where t: "(if wlen w \<noteq> 0 \<or> \<not> rmw then write_window (ops c) rmw atomic f w else Some (MPI_OK, f)) = Some (MPI_OK, f1)"
    "open_window (ops c) rmw atomic maxb e p f1 w = Some (MPI_OK, f2, w2)"
    "between c maxb rmw lo e c0 T p f2 w2" "woff w2 = p" "wlen w2 = min maxb (e - p + 1)"
  proof (cases "wlen w \<noteq> 0 \<or> \<not> rmw")
    case True
    then show ?thesis using turn_window [OF assms(1-6) cur] that by auto
  next
    case False
    then have "T \<subseteq>\<^sub>m content f" using ok(3) overlay_empty [of w] by (auto simp: sees_def map_le_def dom_def)
    moreover have "int (length (wdata w)) = maxb" using ok(2) by (simp add: window_ok_def)
    ultimately obtain f2 w2 where "open_window (ops c) rmw atomic maxb e p f w = Some (MPI_OK, f2, w2)"
      "between c maxb rmw lo e c0 T p f2 w2" "woff w2 = p" "wlen w2 = min maxb (e - p + 1)"
      using open_between [OF ok(1) _ ok(4) _ assms(2-6)] by blast
    then show ?thesis using that [of f f2 w2] False by simp
  qed
  then have "enter_window (ops c) rmw atomic maxb e p f w = Some (MPI_OK, f2, w2)"
    using True by (simp add: enter_window_def)
  moreover have "p < woff w2 + wlen w2 \<or> p = e + 1 \<and> woff w2 + wlen w2 = p" using t(4,5) assms(2,6) by auto
  ultimately show ?thesis using t(3,4) by auto
next
  case False
  then have "woff w \<le> p" "between c maxb rmw lo e c0 T p f w"
    using assms(1,7) by (auto simp: between_def sees_def window_ok_def split: if_splits)
  then show ?thesis using False by (auto simp: enter_window_def)
qed

lemma write_through_ok:
  assumes "0 < maxb" "maxb \<le> INT_MAX" "0 \<le> lo"
  shows "between c maxb rmw lo e c0 T cur f w \<Longrightarrow> 0 \<le> sz \<Longrightarrow> sz \<le> l \<Longrightarrow> lo \<le> cur \<Longrightarrow> cur + (l - sz) \<le> e + 1 \<Longrightarrow>
    sz \<noteq> l \<longrightarrow> woff w + wlen w = cur \<Longrightarrow>
    \<exists>f' w'. write_through (ops c) rmw atomic maxb e m u l sz f w = Some (MPI_OK, f', w') \<and>
      between c maxb rmw lo e c0
        (assign (\<lambda>u. Some (m u)) (zip [u + sz..u + l - 1] [cur..cur + (l - sz) - 1]) T) (cur + (l - sz)) f' w'"
proof (induction "nat (l - sz)" arbitrary: T cur f w u l sz rule: less_induct)
  case less
  show ?case
  proof (cases "sz = l")
    case True
    then show ?thesis using less.prems(1) by (simp add: write_through.simps)
  next
    case False
    then have l: "0 < l - sz" "woff w + wlen w = cur" "cur \<le> e" using less.prems by auto
    obtain f1 f2 w2 where t: "write_window (ops c) rmw atomic f w = Some (MPI_OK, f1)"
      "open_window (ops c) rmw atomic maxb e cur f1 w = Some (MPI_OK, f2, w2)"
      "between c maxb rmw lo e c0 T cur f2 w2" "woff w2 = cur" "wlen w2 = min maxb (e - cur + 1)"
      using turn_window [OF less.prems(1) assms less.prems(4), of atomic] l(2,3) by auto
    define sz' where "sz' = min (l - sz) (wlen w2)"
    have sz': "0 < sz'" "sz' \<le> l - sz" "cur + sz' \<le> woff w2 + wlen w2" using l t(4,5) assms(1) by (auto simp: sz'_def)
    have b2: "sees rmw cur T w2 (content f2)" "window_ok maxb lo e w2" using t(3) by (auto simp: between_def)
    obtain d where d: "memcpy_at (wdata w2) 0 (map m [u + sz..u + sz + sz' - 1]) = Some d" "window_ok maxb lo e (w2\<lparr>wdata := d\<rparr>)"
      "sees rmw (cur + sz') (assign (\<lambda>u. Some (m u)) (zip [u + sz..u + sz + sz' - 1] [cur..cur + sz' - 1]) T) (w2\<lparr>wdata := d\<rparr>) (content f2)"
      using sees_memcpy [OF b2 _ _ sz'(3), where u = "u + sz" and m = m] sz'(1) t(4) by (metis diff_self less_imp_le order_refl)
    let ?T = "assign (\<lambda>u. Some (m u)) (zip [u + sz..u + sz + sz' - 1] [cur..cur + sz' - 1]) T"
    have "between c maxb rmw lo e c0 ?T (cur + sz') f2 (w2\<lparr>wdata := d\<rparr>)"
      using t(3,4) d(2,3) sz'(1) by (simp add: between_def)
    moreover have "nat (l - sz - sz') < nat (l - sz)" using sz'(1,2) by simp
    moreover have "sz' \<noteq> l - sz \<longrightarrow> woff (w2\<lparr>wdata := d\<rparr>) + wlen (w2\<lparr>wdata := d\<rparr>) = cur + sz'"
      using t(4) by (auto simp: sz'_def min_def)
    ultimately obtain f' w' where IH: "write_through (ops c) rmw atomic maxb e m (u + sz) (l - sz) sz' f2 (w2\<lparr>wdata := d\<rparr>) = Some (MPI_OK, f', w')"
      "between c maxb rmw lo e c0 (assign (\<lambda>u. Some (m u)) (zip [u + sz + sz'..u + sz + (l - sz) - 1] [cur + sz'..cur + sz' + (l - sz - sz') - 1]) ?T)
        (cur + sz' + (l - sz - sz')) f' w'"
      using less.hyps [of "l - sz" sz' ?T "cur + sz'" f2 "w2\<lparr>wdata := d\<rparr>" "u + sz"] less.prems(4,5) sz' by auto
    have "write_through (ops c) rmw atomic maxb e m u l sz f w = Some (MPI_OK, f', w')"
      using False t(1,2) l(2) d(1) IH(1) by (subst write_through.simps) (simp add: Let_def sz'_def [symmetric])
    moreover have "assign (\<lambda>u. Some (m u)) (zip [u + sz + sz'..u + sz + (l - sz) - 1] [cur + sz'..cur + sz' + (l - sz - sz') - 1]) ?T =
        assign (\<lambda>u. Some (m u)) (zip [u + sz..u + l - 1] [cur..cur + (l - sz) - 1]) T"
      using assign_join [of sz' "l - sz" _ "u + sz" cur T] sz' by simp
    ultimately show ?thesis using IH(2) by auto
  qed
qed

lemma buffered_write_ok:
  assumes "between c maxb rmw lo e c0 T cur f w" "0 < maxb" "maxb \<le> INT_MAX" "0 \<le> lo" "lo \<le> p" "p + l \<le> e + 1" "0 \<le> l"
    and "if rmw then cur \<le> p else p = cur"
  shows "\<exists>f' w'. buffered_write (ops c) rmw atomic maxb e m u l p (f, w) = Some (MPI_OK, f', w') \<and>
    between c maxb rmw lo e c0 (assign (\<lambda>u. Some (m u)) (zip [u..u + l - 1] [p..p + l - 1]) T) (p + l) f' w'"
proof -
  have "p \<le> e + 1" using assms(6,7) by simp
  then obtain f1 w1 where w1: "enter_window (ops c) rmw atomic maxb e p f w = Some (MPI_OK, f1, w1)"
    "between c maxb rmw lo e c0 T p f1 w1" "woff w1 \<le> p" "p < woff w1 + wlen w1 \<or> p = e + 1 \<and> woff w1 + wlen w1 = p"
    using enter_window_ok [OF assms(1-5) _ assms(8)] by blast
  define sz where "sz = min l (woff w1 + wlen w1 - p)"
  have ok: "sees rmw p T w1 (content f1)" "window_ok maxb lo e w1" using w1(2) by (auto simp: between_def)
  have sz: "0 \<le> sz" "sz \<le> l" "p + sz \<le> woff w1 + wlen w1" using w1(4) assms(7) by (auto simp: sz_def)
  moreover have "wlen w1 \<le> INT_MAX" using ok(2) assms(3) by (simp add: window_ok_def)
  ultimately have fits: "to_unsigned sz = sz" using w1(3) by (intro to_unsigned_id) (auto simp: INT_MAX_def)
  obtain d where d: "memcpy_at (wdata w1) (p - woff w1) (map m [u..u + sz - 1]) = Some d" "window_ok maxb lo e (w1\<lparr>wdata := d\<rparr>)"
    "sees rmw (p + sz) (assign (\<lambda>u. Some (m u)) (zip [u..u + sz - 1] [p..p + sz - 1]) T) (w1\<lparr>wdata := d\<rparr>) (content f1)"
    using sees_memcpy [OF ok w1(3) sz(1,3), where u = u and m = m] by blast
  let ?T = "assign (\<lambda>u. Some (m u)) (zip [u..u + sz - 1] [p..p + sz - 1]) T"
  have "between c maxb rmw lo e c0 ?T (p + sz) f1 (w1\<lparr>wdata := d\<rparr>)"
    using w1(2,3) d(2,3) sz(1) by (simp add: between_def)
  moreover have "sz \<noteq> l \<longrightarrow> woff (w1\<lparr>wdata := d\<rparr>) + wlen (w1\<lparr>wdata := d\<rparr>) = p + sz" by (auto simp: sz_def min_def)
  moreover have "lo \<le> p + sz" "p + sz + (l - sz) \<le> e + 1" using assms(5,6) sz(1) by auto
  ultimately obtain f' w' where t: "write_through (ops c) rmw atomic maxb e m u l sz f1 (w1\<lparr>wdata := d\<rparr>) = Some (MPI_OK, f', w')"
    "between c maxb rmw lo e c0
        (assign (\<lambda>u. Some (m u)) (zip [u + sz..u + l - 1] [p + sz..p + sz + (l - sz) - 1]) ?T) (p + sz + (l - sz)) f' w'"
    using write_through_ok [OF assms(2-4) _ sz(1,2)] by blast
  have "assign (\<lambda>u. Some (m u)) (zip [u + sz..u + l - 1] [p + sz..p + l - 1]) ?T =
      assign (\<lambda>u. Some (m u)) (zip [u..u + l - 1] [p..p + l - 1]) T"
    using sz by (intro assign_join) auto
  moreover have "buffered_write (ops c) rmw atomic maxb e m u l p (f, w) = Some (MPI_OK, f', w')"
    using w1(1) d(1) t(1) fits by (simp add: buffered_write_def Let_def sz_def [symmetric])
  ultimately show ?thesis using t(2) by auto
qed

end

text \<open>Pieces from \<open>cur\<close> to \<open>e\<close> that do not go back; without a read, that leave no hole.\<close>

fun chained :: "bool \<Rightarrow> int \<Rightarrow> (int \<times> int \<times> int) list \<Rightarrow> int \<Rightarrow> bool" where
  "chained rmw cur [] e \<longleftrightarrow> rmw \<or> e < cur"
| "chained rmw cur ((u, l, p) # ps) e \<longleftrightarrow> 0 \<le> l \<and> p + l \<le> e + 1 \<and> (if rmw then cur \<le> p else p = cur) \<and> chained rmw (p + l) ps e"

context sieved_file
begin

lemma write_pieces:
  assumes "0 < maxb" "maxb \<le> INT_MAX" "0 \<le> lo"
  shows "between c maxb rmw lo e c0 T cur f w \<Longrightarrow> lo \<le> cur \<Longrightarrow> chained rmw cur ps e \<Longrightarrow>
    \<exists>f' w' cur'. run_pieces (buffered_write (ops c) rmw atomic maxb e m) ps (f, w) = Some (MPI_OK, f', w') \<and>
      between c maxb rmw lo e c0 (assign (\<lambda>u. Some (m u)) (piece_bytes ps) T) cur' f' w' \<and> (rmw \<or> e < cur')"
proof (induction rmw cur ps e arbitrary: T f w rule: chained.induct)
  case (2 rmw cur u l p ps e)
  have l: "0 \<le> l" "p + l \<le> e + 1" "if rmw then cur \<le> p else p = cur" "chained rmw (p + l) ps e" and lo: "lo \<le> p"
    using "2.prems"(2,3) by (auto split: if_splits)
  obtain f1 w1 where w1: "buffered_write (ops c) rmw atomic maxb e m u l p (f, w) = Some (MPI_OK, f1, w1)"
    "between c maxb rmw lo e c0 (assign (\<lambda>u. Some (m u)) (zip [u..u + l - 1] [p..p + l - 1]) T) (p + l) f1 w1"
    using buffered_write_ok [OF "2.prems"(1) assms lo l(2,1,3)] by blast
  have "lo \<le> p + l" using lo l(1) by simp
  then show ?case using "2.IH" [OF w1(2) _ l(4)] w1(1) by (simp add: assign_append)
qed auto

text \<open>A write with sieving, up to and including the last window: the file has at least what it is to have.\<close>

lemma sieved_write:
  assumes "between c maxb rmw lo e (content f) (content f) lo f w" "0 < maxb" "maxb \<le> INT_MAX" "0 \<le> lo" "chained rmw lo ps e"
  shows "\<exists>f1 w1 f2. run_pieces (buffered_write (ops c) rmw atomic maxb e m) ps (f, w) = Some (MPI_OK, f1, w1) \<and>
    (if \<not> rmw \<or> wlen w1 \<noteq> 0 then write_window (ops c) rmw atomic f1 w1 else Some (MPI_OK, f1)) = Some (MPI_OK, f2) \<and> inv c f2 \<and>
    assign (\<lambda>u. Some (m u)) (piece_bytes ps) (content f) \<subseteq>\<^sub>m content f2 \<and>
    (\<forall>q. q < lo \<or> e < q \<longrightarrow> content f2 q = content f q)"
proof -
  let ?T = "assign (\<lambda>u. Some (m u)) (piece_bytes ps) (content f)"
  obtain f1 w1 cur where w1: "run_pieces (buffered_write (ops c) rmw atomic maxb e m) ps (f, w) = Some (MPI_OK, f1, w1)"
    "between c maxb rmw lo e (content f) ?T cur f1 w1" "rmw \<or> e < cur"
    using write_pieces [OF assms(2-4,1) order_refl assms(5)] by blast
  then have b: "inv c f1" "sees rmw cur ?T w1 (content f1)" "window_ok maxb lo e w1" "wlen w1 = 0 \<or> woff w1 + wlen w1 \<le> e + 1"
    "woff w1 \<le> cur" "\<And>q. q < lo \<or> e < q \<Longrightarrow> content f1 q = content f q"
    by (auto simp: between_def window_ok_def)
  show ?thesis
  proof (cases "\<not> rmw \<or> wlen w1 \<noteq> 0")
    case True
    have "rmw \<or> woff w1 + wlen w1 \<le> cur" using w1(3) b(4,5) by auto
    from flush_window [OF w1(2) this] w1(1) True show ?thesis by auto
  next
    case False
    then have "?T \<subseteq>\<^sub>m content f1" using b(2) overlay_empty [of w1] by (auto simp: sees_def map_le_def dom_def)
    then show ?thesis using False w1(1) b(1,6) by auto
  qed
qed

end

section \<open>Windows of a read\<close>

definition window_shows :: "int \<Rightarrow> (int \<Rightarrow> byte option) \<Rightarrow> window \<Rightarrow> bool" where
  "window_shows maxb c w \<longleftrightarrow> maxb \<le> int (length (wdata w)) \<and> 0 \<le> wlen w \<and> wlen w \<le> int (length (wdata w)) \<and>
     (\<forall>p b. woff w \<le> p \<and> p < woff w + wlen w \<and> c p = Some b \<longrightarrow> wdata w ! nat (p - woff w) = b)"

context sieved_file
begin

lemma read_window_ok:
  assumes "inv c f" "0 \<le> off" "0 \<le> part" "part \<le> len" "len \<le> int (length d)" "maxb \<le> int (length d)"
    and old: "\<And>p b. off \<le> p \<Longrightarrow> p < off + part \<Longrightarrow> content f p = Some b \<Longrightarrow> d ! nat (p - off) = b"
  shows "\<exists>f' w'. read_window (ops c) off len part d f = Some (MPI_OK, f', w') \<and> inv c f' \<and> content f' = content f \<and>
    window_shows maxb (content f) w' \<and> woff w' = off \<and> wlen w' = len"
proof -
  have pos: "0 \<le> off + part" "0 \<le> len - part" using assms(2-4) by auto
  obtain bs f1 where r: "sv_read (ops c) (len - part) (off + part) f = Some (MPI_OK, bs, f1)" "inv c f1" "content f1 = content f"
    "int (length bs) \<le> len - part"
    "\<And>p b. off + part \<le> p \<Longrightarrow> p < off + len \<Longrightarrow> content f p = Some b \<Longrightarrow>
      nat (p - (off + part)) < length bs \<and> bs ! nat (p - (off + part)) = b"
    using read_ok [OF assms(1) pos] by auto
  have "part + int (length bs) \<le> int (length d)" using r(4) assms(5) by simp
  then obtain d' where d': "memcpy_at d part bs = Some d'" "length d' = length d"
    "\<And>k. k < length d \<Longrightarrow> d' ! k = (if nat part \<le> k \<and> k < nat part + length bs then bs ! (k - nat part) else d ! k)"
    using memcpy_at_Some [OF assms(3)] by blast
  have "d' ! nat (p - off) = b" if p: "off \<le> p" "p < off + len" "content f p = Some b" for p b
  proof -
    have k: "nat (p - off) < length d" using p assms(5) by linarith
    show ?thesis
    proof (cases "p < off + part")
      case True
      then have "\<not> nat part \<le> nat (p - off)" using assms(3) p(1) by linarith
      then show ?thesis using d'(3) [OF k] old [OF p(1) True p(3)] by simp
    next
      case False
      then have "nat (p - off) = nat part + nat (p - (off + part))" using assms(3) by linarith
      then show ?thesis using d'(3) [OF k] r(5) [OF _ p(2,3)] False by simp
    qed
  qed
  then have "window_shows maxb (content f) \<lparr>wdata = d', woff = off, wlen = len\<rparr>"
    using d'(2) assms(3-6) by (simp add: window_shows_def)
  then show ?thesis using r(1-3) d'(1) by (simp add: read_window_def)
qed

text \<open>Each turn reads at least one byte more, so that the window reaches over the piece.\<close>

lemma grow_window_ok:
  assumes "0 < maxb" "maxb \<le> INT_MAX" "int (length junk) = maxb" "0 \<le> p" "l \<le> INT_MAX" "p + l \<le> e + 1"
  shows "inv c f \<Longrightarrow> window_shows maxb (content f) w \<Longrightarrow> woff w \<le> p \<Longrightarrow> p \<le> woff w + wlen w \<Longrightarrow>
    \<exists>f' w'. grow_window (ops c) maxb junk e l p f w = Some (MPI_OK, f', w') \<and> inv c f' \<and> content f' = content f \<and>
      window_shows maxb (content f) w' \<and> woff w' \<le> p \<and> p + l \<le> woff w' + wlen w'"
proof (induction "nat (l - (woff w + wlen w - p))" arbitrary: f w rule: less_induct)
  case less
  define part where "part = woff w + wlen w - p"
  show ?case
  proof (cases "l > part")
    case False
    then show ?thesis using less.prems by (subst grow_window.simps) (auto simp: part_def)
  next
    case True
    have ws: "0 \<le> wlen w" "wlen w \<le> int (length (wdata w))"
      "\<And>q b. woff w \<le> q \<Longrightarrow> q < woff w + wlen w \<Longrightarrow> content f q = Some b \<Longrightarrow> wdata w ! nat (q - woff w) = b"
      using less.prems(2) by (auto simp: window_shows_def)
    have part: "0 \<le> part" "part \<le> wlen w" "part < INT_MAX" "p \<le> e" and off: "woff w + (wlen w - part) = p"
      using less.prems(3,4) True assms(5,6) by (auto simp: part_def)
    define tmp where "tmp = take (nat part) (drop (nat (wlen w - part)) (wdata w))"
    define len where "len = part + min maxb (e - p + 1)"
    have tmp: "length tmp = nat part" using ws part by (simp add: tmp_def)
    have len: "part < len" "len \<le> part + maxb" "to_unsigned len = len"
      using part assms(1,2) by (auto simp: len_def INT_MAX_def intro!: to_unsigned_id)
    have "(tmp @ junk) ! nat (q - p) = b" if "p \<le> q" "q < p + part" "content f q = Some b" for q b
    proof -
      have "nat (wlen w - part) + nat (q - p) = nat (q - woff w)" "nat (q - p) < length tmp"
        using that part(1,2) off tmp by auto
      moreover have "wdata w ! nat (q - woff w) = b" using ws(3) [of q b] that off part(1,2) by simp
      moreover have "nat (wlen w - part) + nat (q - p) < length (wdata w)" using that ws part off by linarith
      ultimately show ?thesis using tmp ws part that by (simp add: nth_append tmp_def)
    qed
    moreover have "len \<le> int (length (tmp @ junk))" "maxb \<le> int (length (tmp @ junk))" using tmp len(2) assms(3) part(1) by simp_all
    ultimately obtain f1 w1 where r: "read_window (ops c) p len part (tmp @ junk) f = Some (MPI_OK, f1, w1)" "inv c f1" "content f1 = content f"
      "window_shows maxb (content f) w1" "woff w1 = p" "wlen w1 = len"
      using read_window_ok [OF less.prems(1) assms(4) part(1) less_imp_le [OF len(1)]] by blast
    have "to_int part = part" using part by (intro to_int_id) (auto simp: INT_MAX_def)
    then have "grow_window (ops c) maxb junk e l p f w = grow_window (ops c) maxb junk e l p f1 w1"
      using True part ws(2) r(1) off len(3) unfolding grow_window.simps [of "ops c" maxb junk e l p f w]
      by (simp add: Let_def part_def [symmetric] tmp_def [symmetric] len_def [symmetric])
    moreover have "nat (l - (woff w1 + wlen w1 - p)) < nat (l - (woff w + wlen w - p))"
      using True len(1) r(5,6) by (simp add: part_def)
    ultimately show ?thesis using less.hyps [of w1 f1] r len(1) part(1) by auto
  qed
qed

lemma buffered_read_ok:
  assumes "0 < maxb" "maxb \<le> INT_MAX" "int (length junk) = maxb" "0 \<le> p" "0 \<le> l" "l \<le> INT_MAX" "p + l \<le> e + 1"
    and "inv c f" "window_shows maxb (content f) w" "woff w \<le> p"
    and g: "\<And>q. p \<le> q \<Longrightarrow> q < p + l \<Longrightarrow> content f q = Some (g q)"
  shows "\<exists>f' w'. buffered_read (ops c) maxb junk e u l p ((f, w), m) =
      Some (MPI_OK, (f', w'), assign g (zip [p..p + l - 1] [u..u + l - 1]) m) \<and>
    inv c f' \<and> content f' = content f \<and> window_shows maxb (content f) w' \<and> woff w' \<le> p"
proof -
  obtain f1 w1 where w1: "(if p \<ge> woff w + wlen w then read_window (ops c) p (to_unsigned (min maxb (e - p + 1))) 0 (wdata w) f
      else Some (MPI_OK, f, w)) = Some (MPI_OK, f1, w1)" "inv c f1" "content f1 = content f"
      "window_shows maxb (content f) w1" "woff w1 \<le> p" "p \<le> woff w1 + wlen w1"
  proof (cases "p \<ge> woff w + wlen w")
    case True
    have "to_unsigned (min maxb (e - p + 1)) = min maxb (e - p + 1)" using window_len assms(1,2,5,7) by simp
    moreover have "\<exists>f1 w1. read_window (ops c) p (min maxb (e - p + 1)) 0 (wdata w) f = Some (MPI_OK, f1, w1) \<and> inv c f1 \<and>
        content f1 = content f \<and> window_shows maxb (content f) w1 \<and> woff w1 = p \<and> wlen w1 = min maxb (e - p + 1)"
      by (rule read_window_ok [OF assms(8,4)]) (use assms in \<open>auto simp: window_shows_def\<close>)
    ultimately show ?thesis using True that assms(1,5,7) by auto
  next
    case False
    then show ?thesis using assms(8-10) that [of f w] by simp
  qed
  obtain f2 w2 where w2: "grow_window (ops c) maxb junk e l p f1 w1 = Some (MPI_OK, f2, w2)" "inv c f2" "content f2 = content f"
    "window_shows maxb (content f) w2" "woff w2 \<le> p" "p + l \<le> woff w2 + wlen w2"
    using grow_window_ok [OF assms(1-4,6,7) w1(2) _ w1(5,6)] w1(3,4) by auto
  have in2: "p - woff w2 + l \<le> int (length (wdata w2))" using w2(4,6) by (simp add: window_shows_def)
  have "(\<lambda>x. if u \<le> x \<and> x < u + l then wdata w2 ! nat (p - woff w2 + (x - u)) else m x) =
      assign g (zip [p..p + l - 1] [u..u + l - 1]) m"
  proof -
    have "wdata w2 ! nat (p - woff w2 + (x - u)) = g (p + (x - u))" if "u \<le> x" "x < u + l" for x
    proof -
      have "woff w2 \<le> p + (x - u) \<and> p + (x - u) < woff w2 + wlen w2 \<and> content f (p + (x - u)) = Some (g (p + (x - u)))"
        using w2(5,6) g [of "p + (x - u)"] that by simp
      then have "wdata w2 ! nat (p + (x - u) - woff w2) = g (p + (x - u))" using w2(4) unfolding window_shows_def by blast
      then show ?thesis by (simp add: algebra_simps)
    qed
    then show ?thesis using assign_range [of g p "nat l" u m] assms(5) by (auto intro!: ext)
  qed
  then have "buffered_read (ops c) maxb junk e u l p ((f, w), m) = Some (MPI_OK, (f2, w2), assign g (zip [p..p + l - 1] [u..u + l - 1]) m)"
    using w1(1) w2(1,5) in2 assms(5) by (simp add: buffered_read_def)
  then show ?thesis using w2 by blast
qed

lemma read_pieces:
  assumes "0 < maxb" "maxb \<le> INT_MAX" "int (length junk) = maxb"
  shows "inv c f \<Longrightarrow> window_shows maxb (content f) w \<Longrightarrow> woff w \<le> cur \<Longrightarrow> 0 \<le> cur \<Longrightarrow> chained rmw cur ps e \<Longrightarrow>
    \<forall>(u, l, p) \<in> set ps. l \<le> INT_MAX \<Longrightarrow> \<forall>(p, u) \<in> set (file_bytes ps). content f p = Some (g p) \<Longrightarrow>
    \<exists>f' w'. run_pieces (buffered_read (ops c) maxb junk e) ps ((f, w), m) = Some (MPI_OK, (f', w'), assign g (file_bytes ps) m) \<and>
      inv c f' \<and> content f' = content f"
proof (induction rmw cur ps e arbitrary: f w m rule: chained.induct)
  case (2 rmw cur u l p ps e)
  have l: "0 \<le> l" "l \<le> INT_MAX" "p + l \<le> e + 1" "cur \<le> p" "chained rmw (p + l) ps e"
    using "2.prems"(5,6) by (auto split: if_splits)
  have p: "0 \<le> p" "woff w \<le> p" using l(4) "2.prems"(3,4) by auto
  have fb: "file_bytes ((u, l, p) # ps) = zip [p..p + l - 1] [u..u + l - 1] @ file_bytes ps"
    by (rule file_bytes_Cons)
  have g: "content f q = Some (g q)" if "p \<le> q" "q < p + l" for q
    using "2.prems"(7) that by (rule file_bytes_first)
  obtain f1 w1 where w1: "buffered_read (ops c) maxb junk e u l p ((f, w), m) =
      Some (MPI_OK, (f1, w1), assign g (zip [p..p + l - 1] [u..u + l - 1]) m)" "inv c f1" "content f1 = content f"
      "window_shows maxb (content f) w1" "woff w1 \<le> p"
    using buffered_read_ok [OF assms(1-3) p(1) l(1-3) "2.prems"(1,2) p(2) g] by blast
  have "woff w1 \<le> p + l" "0 \<le> p + l" using w1(5) l(1) p(1) by auto
  then show ?case
    using "2.IH" [OF w1(2) _ _ _ l(5), where m = "assign g (zip [p..p + l - 1] [u..u + l - 1]) m"] "2.prems"(6,7) w1(1,3,4) fb
    by (simp add: assign_append)
qed (auto simp: file_bytes_def)

end

end
