(* ===== verification/Sieve_File.thy ===== *)
theory Sieve_File
  imports Sieving_Correct Sieve_Windows
begin

text \<open>
  Data sieving on a file: the pieces of a request, in order of their position, go through the windows.
  The sieving operations have on the request the effect of the naive ones.
\<close>

section \<open>Requests in order\<close>

text \<open>Requests that the sieving functions serve: the filetypes that MPI allows for a view have their blocks in order.\<close>

definition sieve_ok :: "bool \<Rightarrow> view \<Rightarrow> buftype \<Rightarrow> int \<Rightarrow> int \<Rightarrow> int \<Rightarrow> int \<Rightarrow> bool" where
  "sieve_ok individual v bt count fp offset b0 \<longleftrightarrow> strided_ok individual v bt count \<and> (filetype_is_contig v \<or> in_order v) \<and>
     starts_at v individual fp offset b0 \<and> 0 \<le> b0 \<and> view_nonneg v \<and> 0 < bt_size bt * count"

lemma piece_bytes_first:
  assumes "map snd (piece_bytes ((u, l, p) # ps)) = map f [i..n - 1]" "0 \<le> l"
  shows "[p..p + l - 1] = map f [i..i + l - 1]" "map snd (piece_bytes ps) = map f [i + l..n - 1]" "0 < l \<Longrightarrow> i + l \<le> n"
proof -
  have eq: "[p..p + l - 1] @ map snd (piece_bytes ps) = map f [i..n - 1]" using assms by simp
  have "nat l \<le> length ([p..p + l - 1] @ map snd (piece_bytes ps))" by simp
  then have "nat l \<le> length [i..n - 1]" unfolding eq by simp
  then have l: "l = 0 \<or> i + l \<le> n" using assms(2) by auto
  then show "0 < l \<Longrightarrow> i + l \<le> n" by simp
  have "map f [i..n - 1] = map f [i..i + l - 1] @ map f [i + l..n - 1]"
    using l assms(2) upto_join [of i "i + l" n] by (auto simp flip: map_append)
  with eq have "[p..p + l - 1] @ map snd (piece_bytes ps) = map f [i..i + l - 1] @ map f [i + l..n - 1]" by simp
  then show "[p..p + l - 1] = map f [i..i + l - 1]" "map snd (piece_bytes ps) = map f [i + l..n - 1]"
    by (simp_all add: append_eq_append_conv)
qed

lemma chained_in_order:
  "walkable v \<Longrightarrow> in_order v \<Longrightarrow> placed v b0 i ps \<Longrightarrow> map snd (piece_bytes ps) = map (\<lambda>k. view_pos v (b0 + k)) [i..n - 1] \<Longrightarrow> cur \<le> view_pos v (b0 + i) \<Longrightarrow>
   chained True cur ps (view_pos v (b0 + n - 1))"
proof (induction v b0 i ps arbitrary: cur rule: placed.induct)
  case (2 v b0 i u l p ps)
  have l: "0 < l" "p = view_pos v (b0 + i)" "placed v b0 (i + l) ps"
    using "2.prems"(1,3) by (auto simp: walkable_def)
  note pb = piece_bytes_first [OF "2.prems"(4) less_imp_le [OF l(1)]]
  have n: "i + l \<le> n" using pb(3) l(1) .
  have "[p..p + l - 1] ! nat (l - 1) = map (\<lambda>k. view_pos v (b0 + k)) [i..i + l - 1] ! nat (l - 1)" using pb(1) by simp
  then have last: "p + l - 1 = view_pos v (b0 + (i + l - 1))" using l(1) by (simp add: algebra_simps)
  also have "\<dots> \<le> view_pos v (b0 + n - 1)"
    using view_pos_increasing [OF "2.prems"(1,2), of "b0 + (i + l - 1)" "b0 + n - 1"] n by (cases "i + l = n") (auto simp: algebra_simps)
  finally have e: "p + l \<le> view_pos v (b0 + n - 1) + 1" by simp
  have "view_pos v (b0 + (i + l - 1)) < view_pos v (b0 + (i + l))" by (rule view_pos_increasing [OF "2.prems"(1,2)]) simp
  then have "p + l \<le> view_pos v (b0 + (i + l))" using last by simp
  then show ?case using "2.IH" [OF "2.prems"(1,2) l(3) pb(2)] l "2.prems"(5) e by simp
qed simp

lemma chained_contiguous:
  "filetype_is_contig v \<Longrightarrow> placed v b0 i ps \<Longrightarrow> map snd (piece_bytes ps) = map (\<lambda>k. view_pos v (b0 + k)) [i..n - 1] \<Longrightarrow> i \<le> n \<Longrightarrow>
   chained False (view_pos v (b0 + i)) ps (view_pos v (b0 + n) - 1)"
proof (induction v b0 i ps rule: placed.induct)
  case (1 v b0 i)
  then show ?case by (simp add: view_pos_def)
next
  case (2 v b0 i u l p ps)
  have l: "0 \<le> l" "p = view_pos v (b0 + i)" "placed v b0 (i + l) ps" using "2.prems"(2) by auto
  note pb = piece_bytes_first [OF "2.prems"(3) l(1)]
  have n: "i + l \<le> n" using pb(3) l(1) "2.prems"(4) by (cases "l = 0") auto
  have "p + l = view_pos v (b0 + (i + l))" using l(2) "2.prems"(1) by (simp add: view_pos_def)
  then show ?case using "2.IH" [OF "2.prems"(1) l(3) pb(2) n] l n "2.prems"(1) by (simp add: view_pos_def add.assoc)
qed

lemma sieve_start:
  assumes "sieve_ok individual v bt count fp offset b0" "\<not> filetype_is_contig v"
  shows "\<exists>j n r. first_block v individual fp offset = Some (j, n, snd (blocks v ! j) - r, view_pos v b0) \<and>
    at_cursor v n j r b0 (view_pos v b0)"
proof -
  have "access_ok individual v" "starts_at v individual fp offset b0" "0 \<le> b0"
    using assms by (auto simp: sieve_ok_def strided_ok_def access_ok_def in_order_def)
  from first_block_ok [OF this(1) assms(2) this(3,2)] show ?thesis by (auto simp: at_cursor_def file_pos_def)
qed

lemma sieve_walk_ok:
  assumes "strided_ok individual v bt count" "\<not> filetype_is_contig v" "at_cursor v n j r b0 start" "0 \<le> b0"
    and "small \<Longrightarrow> bt_size bt * count < 2 ^ 32"
  shows "walks (view_pos (mem_view bt)) io v b0 (bt_size bt * count) 0 (nat (bt_size bt * count))
    (sieve_walk io small v bt (bt_size bt * count) (j, n, snd (blocks v ! j) - r, start))"
proof -
  let ?n = "bt_size bt * count"
  have v: "walkable v" "small_blocks v" "0 \<le> ?n"
    and bt: "bt_is_contig bt \<or> walkable (mem_view bt)" using assms(1,2) by (auto simp: strided_ok_def)
  have c: "at_cursor v n j r (b0 + 0) start" using assms(3) by simp
  show ?thesis
  proof (cases "bt_is_contig bt")
    case True
    have "view_pos (mem_view bt) = (\<lambda>k. k)" using True by (intro ext) (simp add: view_pos_def)
    then show ?thesis
      using True sieve_file_ok [OF v(1,2) assms(4) c order_refl v(3) refl] assms(2) by (simp add: sieve_walk_def)
  next
    case False
    then have w: "walkable (mem_view bt)" using bt by simp
    then have ne: "bt_blocks bt \<noteq> []" by (auto simp: walkable_def)
    then have "at_cursor (mem_view bt) (int (0 div length (bt_blocks bt))) 0 0 0 (fst (bt_blocks bt ! 0))"
      using w by (auto simp: at_cursor_def byte_at_def file_pos_def walkable_def)
    then show ?thesis
      using False ne sieve_both_ok [OF v(1) w v(2) refl assms(4) assms(5) c refl, of small 0 0 0 "fst (bt_blocks bt ! 0)" "snd (bt_blocks bt ! 0)"] v(3)
      by (simp add: sieve_walk_def)
  qed
qed

lemma sieve_request:
  assumes "sieve_ok individual v bt count fp offset b0"
  shows "strided_ok individual v bt count" "0 \<le> b0" "0 < bt_size bt * count" "0 \<le> view_pos v b0"
  using assms by (auto simp: sieve_ok_def strided_ok_def intro!: view_pos_nonneg)

lemma sieve_regions_walk:
  assumes "sieve_ok individual v bt count fp offset b0" "filetype_is_contig v"
  shows "walks (view_pos (mem_view bt)) io v b0 (bt_size bt * count) 0 (length (regions bt count))
      (sieve_regions io (regions bt count) (vdisp v + b0))" "\<not> bt_is_contig bt"
    and "(if individual then fp else vdisp v + etype_size v * offset) = vdisp v + b0"
proof -
  have bt: "\<not> bt_is_contig bt" "walkable (mem_view bt)" "small_blocks (mem_view bt)" "0 \<le> count" "0 \<le> bt_size bt * count"
    using assms by (auto simp: sieve_ok_def strided_ok_def)
  then show "\<not> bt_is_contig bt" by simp
  show "(if individual then fp else vdisp v + etype_size v * offset) = vdisp v + b0"
    using assms by (auto simp: sieve_ok_def starts_at_def view_pos_def mult.commute)
  have r: "\<forall>(u, l) \<in> set (regions bt count). 0 \<le> l \<and> l \<le> INT_MAX"
    using bt(2,3) by (auto simp: regions_def walkable_def small_blocks_def)
  have "walks (view_pos (mem_view bt)) io v b0 (bt_size bt * count) 0 (length (regions bt count))
      (memory_loop io (regions bt count) (vdisp v + b0))"
    by (rule memory_loop_ok [OF assms(2) regions_bytes [OF bt(2,4)] r bt(5)]) simp_all
  then show "walks (view_pos (mem_view bt)) io v b0 (bt_size bt * count) 0 (length (regions bt count))
      (sieve_regions io (regions bt count) (vdisp v + b0))"
    unfolding sieve_regions_eq [OF r] .
qed

lemma single_block_fp_ok:
  assumes "walkable v" "at_cursor v n j r b start" "0 \<le> b" "0 \<le> sz" "sz \<le> snd (blocks v ! j) - r"
  shows "\<exists>p. single_block_fp v sz (j, n, snd (blocks v ! j) - r, start) = Some p \<and> fp_at v (b + sz) p"
  using cursor_land [OF assms(1,2) refl assms(4,5,3)] cursor_fp_at [OF assms(1)]
  by (auto simp: single_block_fp_def split: if_splits)

section \<open>The write\<close>

context sieved_file
begin

text \<open>What the call leaves in the file.\<close>

definition written :: "'c \<Rightarrow> view \<Rightarrow> buftype \<Rightarrow> int \<Rightarrow> int \<Rightarrow> (int \<Rightarrow> byte) \<Rightarrow> 'f \<Rightarrow> 'f \<Rightarrow> bool" where
  "written c v bt n b0 m f f' \<longleftrightarrow> inv c f' \<and>
     assign (\<lambda>u. Some (m u)) (map (\<lambda>k. (view_pos (mem_view bt) k, view_pos v (b0 + k))) [0..n - 1]) (content f) \<subseteq>\<^sub>m content f' \<and>
     (\<forall>q. q < view_pos v b0 \<or> view_pos v (b0 + n - 1) < q \<longrightarrow> content f' q = content f q)"

lemma written_frame:
  assumes "written c v bt n b0 m f f'"
  shows "written c v bt n b0 m f (sv_unlock (ops c) off len f')" "written c v bt n b0 m f (sv_fp_ind (ops c) off f')"
    "written c v bt n b0 m f (sv_forget (ops c) f')"
  using assms unlock_ok fp_ok forget_ok by (simp_all add: written_def)

lemma contiguous_write:
  assumes "inv c f" "sieve_ok individual v bt count p offset b0" "filetype_is_contig v" "0 < maxb" "maxb \<le> INT_MAX" "int (length junk) = maxb"
  shows "\<exists>f'. sieve_write_contiguous (ops c) v bt count individual p offset atomic maxb junk m f = Some (MPI_OK, Some (bt_size bt * count), f') \<and>
    written c v bt (bt_size bt * count) b0 m f f' \<and> (individual \<longrightarrow> fp_at v (b0 + bt_size bt * count) (fp f'))"
proof -
  let ?n = "bt_size bt * count" and ?lo = "vdisp v + b0"
  let ?e = "?lo + ?n - 1"
  note rq = sieve_request [OF assms(2)] and W = sieve_regions_walk [OF assms(2,3)]
  define f0 where "f0 = (if atomic then sv_lock (ops c) ?lo (?e - ?lo + 1) f else f)"
  have f0: "inv c f0" "content f0 = content f" using assms(1) lock_ok by (auto simp: f0_def)
  have lo: "?lo = view_pos v b0" "0 \<le> ?lo" and e: "?e = view_pos v (b0 + ?n) - 1" "?e = view_pos v (b0 + ?n - 1)"
    using assms(3) rq(4) by (simp_all add: view_pos_def)
  let ?w = "\<lparr>wdata = junk, woff = ?lo, wlen = to_unsigned (min maxb (?e - ?lo + 1))\<rparr>"
  have "to_unsigned (min maxb (?e - ?lo + 1)) = min maxb (?e - ?lo + 1)" using window_len [OF assms(4,5), of ?lo ?e] rq(3) by simp
  then have bw: "between c maxb False ?lo ?e (content f0) (content f0) ?lo f0 ?w"
    using f0(1) lo(2) assms(4,6) rq(3) by (auto simp: between_def window_ok_def sees_def overlay_def)
  obtain ps off' where ps: "\<And>s. sieve_regions (buffered_write (ops c) False atomic maxb ?e m) (regions bt count) ?lo s =
      loop_end off' (run_pieces (buffered_write (ops c) False atomic maxb ?e m) ps s)" "placed v b0 0 ps"
    "piece_bytes ps = map (\<lambda>k. (view_pos (mem_view bt) k, view_pos v (b0 + k))) [0..?n - 1]" "fp_at v (b0 + ?n) off'"
    using W(1) unfolding walks_def by blast
  have "map snd (piece_bytes ps) = map (\<lambda>k. view_pos v (b0 + k)) [0..?n - 1]" using ps(3) by simp
  from chained_contiguous [OF assms(3) ps(2) this] have ch: "chained False ?lo ps ?e" using rq(3) e(1) lo(1) by simp
  obtain f1 w1 f2 where s: "run_pieces (buffered_write (ops c) False atomic maxb ?e m) ps (f0, ?w) = Some (MPI_OK, f1, w1)"
    "write_window (ops c) False atomic f1 w1 = Some (MPI_OK, f2)" "inv c f2"
    "assign (\<lambda>u. Some (m u)) (piece_bytes ps) (content f0) \<subseteq>\<^sub>m content f2"
    "\<forall>q. q < ?lo \<or> ?e < q \<longrightarrow> content f2 q = content f0 q"
    using sieved_write [OF bw assms(4,5) lo(2) ch, of atomic m] by auto
  have wr: "written c v bt ?n b0 m f f2" using s(3-5) ps(3) f0(2) lo(1) e(2) by (simp add: written_def)
  define f3 where "f3 = (if atomic then sv_unlock (ops c) ?lo (?e - ?lo + 1) f2 else f2)"
  define f4 where "f4 = sv_forget (ops c) (if individual then sv_fp_ind (ops c) off' f3 else f3)"
  have "sieve_write_contiguous (ops c) v bt count individual p offset atomic maxb junk m f = Some (MPI_OK, Some ?n, f4)"
    unfolding sieve_write_contiguous_def Let_def W(3) f0_def [symmetric] ps(1) s(1)
    by (simp add: s(2) sieve_done_def f3_def f4_def)
  moreover have "written c v bt ?n b0 m f f4" using wr by (simp add: f3_def f4_def written_frame)
  moreover have "individual \<longrightarrow> fp f4 = off'" by (simp add: f4_def fp_ok)
  ultimately show ?thesis using ps(4) by auto
qed

lemma single_block_write:
  assumes "inv c f" "walkable v" "at_cursor v n j r b0 start" "0 \<le> b0" "0 < sz" "sz \<le> snd (blocks v ! j) - r"
    and "bt_is_contig bt" "0 \<le> start"
  shows "\<exists>f'. sv_write (ops c) (map m [0..sz - 1]) start f = Some (MPI_OK, f') \<and> written c v bt sz b0 m f f'"
proof -
  obtain f' where f': "sv_write (ops c) (map m [0..sz - 1]) start f = Some (MPI_OK, f')" "inv c f'"
    "content f' = (\<lambda>p. if start \<le> p \<and> p < start + int (length (map m [0..sz - 1])) then Some (map m [0..sz - 1] ! nat (p - start)) else content f p)"
    using write_ok [OF assms(1,8)] by blast
  have within: "[start..start + sz - 1] = map (view_pos v) [b0..b0 + sz - 1]"
    using cursor_within [OF assms(2,3), of sz] assms(5,6) by simp
  have pos: "view_pos v (b0 + k) = start + k" if "0 \<le> k" "k < sz" for k
    using arg_cong [OF within, of "\<lambda>xs. xs ! nat k"] that by simp
  have "map (\<lambda>k. (view_pos (mem_view bt) k, view_pos v (b0 + k))) [0..sz - 1] = zip [0..sz - 1] [start..start + sz - 1]"
    using assms(7) pos by (intro nth_equalityI) (auto simp: view_pos_def)
  moreover have "content f' = assign (\<lambda>u. Some (m u)) (zip [0..sz - 1] [start..start + sz - 1]) (content f)"
    using assign_range [of "\<lambda>u. Some (m u)" 0 "nat sz" start "content f"] assms(5) unfolding f'(3) by (auto intro!: ext)
  moreover have "content f' q = content f q" if "q < view_pos v b0 \<or> view_pos v (b0 + sz - 1) < q" for q
    using that pos [of 0] pos [of "sz - 1"] assms(5) unfolding f'(3) by (auto simp: algebra_simps)
  ultimately show ?thesis using f'(1,2) by (auto simp: written_def)
qed

lemma noncontiguous_write:
  assumes "inv c f" "sieve_ok individual v bt count p offset b0" "\<not> filetype_is_contig v" "0 < maxb" "maxb \<le> INT_MAX"
    and "at_cursor v n j r b0 (view_pos v b0)"
  shows "\<exists>f'. sieve_write_noncontiguous (ops c) v bt count individual (j, n, snd (blocks v ! j) - r, view_pos v b0) atomic maxb m f =
      Some (MPI_OK, Some (bt_size bt * count), f') \<and>
    written c v bt (bt_size bt * count) b0 m f f' \<and> (individual \<longrightarrow> fp_at v (b0 + bt_size bt * count) (fp f'))"
proof -
  let ?n = "bt_size bt * count" and ?lo = "view_pos v b0" and ?left = "snd (blocks v ! j) - r"
  note rq = sieve_request [OF assms(2)]
  have v: "walkable v" "in_order v" using assms(2,3) by (auto simp: sieve_ok_def strided_ok_def)
  show ?thesis
  proof (cases "bt_is_contig bt \<and> ?n \<le> ?left")
    case True
    obtain f1 where f1: "sv_write (ops c) (map m [0..?n - 1]) ?lo f = Some (MPI_OK, f1)" "written c v bt ?n b0 m f f1"
      using single_block_write [OF assms(1) v(1) assms(6) rq(2,3)] True rq(4) by blast
    obtain q where q: "single_block_fp v ?n (j, n, ?left, ?lo) = Some q" "fp_at v (b0 + ?n) q"
      using single_block_fp_ok [OF v(1) assms(6) rq(2) less_imp_le [OF rq(3)]] True by blast
    let ?f = "sv_forget (ops c) (if individual then sv_fp_ind (ops c) q f1 else f1)"
    have "sieve_write_noncontiguous (ops c) v bt count individual (j, n, ?left, ?lo) atomic maxb m f = Some (MPI_OK, Some ?n, ?f)"
      using True f1(1) q(1) by (simp add: sieve_write_noncontiguous_def)
    moreover have "written c v bt ?n b0 m f ?f" using f1(2) by (simp add: written_frame)
    ultimately show ?thesis using q(2) fp_ok(3) by auto
  next
    case False
    define e where "e = view_pos v (b0 + ?n - 1)"
    have c0: "at_cursor v n j r (b0 + 0) ?lo" using assms(6) by simp
    have e: "sieve_end v ?n j n ?lo (min ?left ?n) 0 0 = Some e"
      using sieve_end_ok [OF v(1) rq(2) c0 order_refl _ refl, of ?n 0] rq(3) by (simp add: e_def)
    define f0 where "f0 = (if atomic then sv_lock (ops c) ?lo (e - ?lo + 1) f else f)"
    have f0: "inv c f0" "content f0 = content f" using assms(1) lock_ok by (auto simp: f0_def)
    let ?w = "\<lparr>wdata = replicate (nat maxb) 255, woff = 0, wlen = 0\<rparr> :: window"
    have bw: "between c maxb True ?lo e (content f0) (content f0) ?lo f0 ?w"
      using f0(1) rq(4) assms(4) by (auto simp: between_def window_ok_def sees_def overlay_def)
    let ?io = "buffered_write (ops c) True atomic maxb e m"
    have W: "walks (view_pos (mem_view bt)) ?io v b0 ?n 0 (nat ?n) (sieve_walk ?io False v bt ?n (j, n, ?left, ?lo))"
      by (rule sieve_walk_ok [OF rq(1) assms(3,6) rq(2)]) simp
    obtain ps off' where ps: "\<And>s. sieve_walk ?io False v bt ?n (j, n, ?left, ?lo) s = loop_end off' (run_pieces ?io ps s)" "placed v b0 0 ps"
      "piece_bytes ps = map (\<lambda>k. (view_pos (mem_view bt) k, view_pos v (b0 + k))) [0..?n - 1]" "fp_at v (b0 + ?n) off'"
      using W unfolding walks_def by blast
    have "map snd (piece_bytes ps) = map (\<lambda>k. view_pos v (b0 + k)) [0..?n - 1]" using ps(3) by simp
    from chained_in_order [OF v ps(2) this, of ?lo] have ch: "chained True ?lo ps e" by (simp add: e_def)
    obtain f1 w1 f2 where s: "run_pieces ?io ps (f0, ?w) = Some (MPI_OK, f1, w1)"
      "(if wlen w1 \<noteq> 0 then write_window (ops c) True atomic f1 w1 else Some (MPI_OK, f1)) = Some (MPI_OK, f2)" "inv c f2"
      "assign (\<lambda>u. Some (m u)) (piece_bytes ps) (content f0) \<subseteq>\<^sub>m content f2"
      "\<forall>q. q < ?lo \<or> e < q \<longrightarrow> content f2 q = content f0 q"
      using sieved_write [OF bw assms(4,5) rq(4) ch, of atomic m] by (simp only: simp_thms) blast
    have wr: "written c v bt ?n b0 m f f2" using s(3-5) ps(3) f0(2) by (simp add: written_def e_def)
    define f3 where "f3 = (if atomic then sv_unlock (ops c) ?lo (e - ?lo + 1) f2 else f2)"
    define f4 where "f4 = sv_forget (ops c) (if individual then sv_fp_ind (ops c) off' f3 else f3)"
    have "sieve_write_noncontiguous (ops c) v bt count individual (j, n, ?left, ?lo) atomic maxb m f = Some (MPI_OK, Some ?n, f4)"
      by (simp only: sieve_write_noncontiguous_def Let_def prod.case if_not_P [OF False] e option.case f0_def [symmetric] ps(1) s(1,2)
          loop_end_simps sum.case simp_thms if_False sieve_done_def f3_def f4_def)
    moreover have "written c v bt ?n b0 m f f4" using wr by (simp add: f3_def f4_def written_frame)
    moreover have "individual \<longrightarrow> fp f4 = off'" by (simp add: f4_def fp_ok)
    ultimately show ?thesis using ps(4) by auto
  qed
qed

lemma sieving_write:
  assumes "inv c f" "sieve_ok individual v bt count p offset b0" "0 < maxb" "maxb \<le> INT_MAX" "int (length junk) = maxb"
  shows "\<exists>f'. ADIOI_GEN_WriteStrided (ops c) naive False locking v bt count individual p offset atomic maxb junk m f =
      Some (MPI_OK, Some (bt_size bt * count), f') \<and>
    written c v bt (bt_size bt * count) b0 m f f' \<and> (individual \<longrightarrow> fp_at v (b0 + bt_size bt * count) (fp f'))"
proof -
  have "filetype_size v \<noteq> 0" using assms(2) by (auto simp: sieve_ok_def strided_ok_def)
  moreover have "\<not> bt_is_contig bt" if "filetype_is_contig v" using sieve_regions_walk(2) [OF assms(2) that] .
  ultimately show ?thesis
    using contiguous_write [OF assms(1,2) _ assms(3-5), of atomic m] noncontiguous_write [OF assms(1,2) _ assms(3,4), of _ _ _ atomic m]
      sieve_start [OF assms(2)]
    by (cases "filetype_is_contig v") (fastforce simp: ADIOI_GEN_WriteStrided_def)+
qed

end

section \<open>The read\<close>

lemma sieve_first_block_eq:
  assumes "strided_ok individual v bt count" "\<not> filetype_is_contig v" "filetype_size v < 2 ^ 31"
  shows "sieve_first_block v individual fp offset = first_block v individual fp offset"
proof -
  have v: "0 < etype_size v" "0 < filetype_size v" "etype_size v dvd filetype_size v" using assms by (auto simp: strided_ok_def)
  then have "filetype_size v sdiv etype_size v = filetype_size v div etype_size v" by (simp add: sdiv_nonneg)
  moreover have "0 \<le> filetype_size v div etype_size v" "filetype_size v div etype_size v \<le> filetype_size v"
    using v by (simp_all add: pos_imp_zdiv_nonneg_iff zdiv_mono2 [of _ 1, simplified])
  ultimately have "to_int (filetype_size v sdiv etype_size v) = filetype_size v sdiv etype_size v"
    using assms(3) by (intro to_int_id) auto
  then show ?thesis by (simp add: sieve_first_block_def first_block_def Let_def)
qed

context sieved_file
begin

text \<open>What a read puts into memory, from a file that has all bytes of the request.\<close>

definition arrived :: "view \<Rightarrow> buftype \<Rightarrow> int \<Rightarrow> int \<Rightarrow> (int \<Rightarrow> byte) \<Rightarrow> (int \<Rightarrow> byte) \<Rightarrow> int \<Rightarrow> byte" where
  "arrived v bt n b0 g m = assign g (map (\<lambda>k. (view_pos v (b0 + k), view_pos (mem_view bt) k)) [0..n - 1]) m"

lemma run_read:
  assumes "inv c f" "content f = c0" "window_shows maxb c0 w" "woff w \<le> lo" "0 \<le> lo" "chained rmw lo ps e" "placed v b0 0 ps"
    and "0 < maxb" "maxb \<le> INT_MAX" "int (length junk) = maxb"
    and "piece_bytes ps = map (\<lambda>k. (view_pos (mem_view bt) k, view_pos v (b0 + k))) [0..n - 1]"
    and g: "\<And>k. 0 \<le> k \<Longrightarrow> k < n \<Longrightarrow> c0 (view_pos v (b0 + k)) = Some (g (view_pos v (b0 + k)))"
  shows "\<exists>f' w'. run_pieces (buffered_read (ops c) maxb junk e) ps ((f, w), m) = Some (MPI_OK, (f', w'), arrived v bt n b0 g m) \<and>
    inv c f' \<and> content f' = c0"
proof -
  have fb: "file_bytes ps = map (\<lambda>k. (view_pos v (b0 + k), view_pos (mem_view bt) k)) [0..n - 1]"
    using assms(11) by (simp add: file_bytes_def)
  have "\<forall>(u, l, p) \<in> set ps. l \<le> INT_MAX" using placed_at [OF assms(7)] by fastforce
  moreover have "\<forall>(p, u) \<in> set (file_bytes ps). content f p = Some (g p)" using g assms(2) unfolding fb by auto
  ultimately show ?thesis
    using read_pieces [OF assms(8-10,1) _ assms(4-6)] assms(2,3) unfolding arrived_def fb by blast
qed

lemma read_exit:
  assumes "inv c f" "content f = c0" "f' = sv_forget (ops c) (if individual then sv_fp_ind (ops c) off
      (if locking then sv_unlock (ops c) a b f else f) else (if locking then sv_unlock (ops c) a b f else f))"
  shows "inv c f'" "content f' = c0" "individual \<Longrightarrow> fp f' = off"
  using assms fp_ok forget_ok unlock_ok by auto

lemma contiguous_read:
  assumes "inv c f" "sieve_ok individual v bt count p offset b0" "filetype_is_contig v" "0 < maxb" "maxb \<le> INT_MAX" "int (length junk) = maxb"
    and g: "\<And>k. 0 \<le> k \<Longrightarrow> k < bt_size bt * count \<Longrightarrow> content f (view_pos v (b0 + k)) = Some (g (view_pos v (b0 + k)))"
  shows "\<exists>f'. sieve_read_contiguous (ops c) v bt count individual p offset locking maxb junk (f, m) =
      Some (MPI_OK, Some (bt_size bt * count), f', arrived v bt (bt_size bt * count) b0 g m) \<and>
    inv c f' \<and> content f' = content f \<and> (individual \<longrightarrow> fp_at v (b0 + bt_size bt * count) (fp f'))"
proof -
  let ?n = "bt_size bt * count" and ?lo = "vdisp v + b0"
  let ?e = "?lo + ?n - 1"
  let ?io = "buffered_read (ops c) maxb junk ?e"
  note rq = sieve_request [OF assms(2)] and W = sieve_regions_walk [OF assms(2,3)]
  define f0 where "f0 = (if locking then sv_lock (ops c) ?lo (?e - ?lo + 1) f else f)"
  have f0: "inv c f0" "content f0 = content f" using assms(1) lock_ok by (auto simp: f0_def)
  have lo: "?lo = view_pos v b0" "0 \<le> ?lo" and e: "?e = view_pos v (b0 + ?n) - 1"
    using assms(3) rq(4) by (simp_all add: view_pos_def)
  have len: "to_unsigned (min maxb (?e - ?lo + 1)) = min maxb (?e - ?lo + 1)" using window_len [OF assms(4,5), of ?lo ?e] rq(3) by simp
  have "\<exists>f1 w1. read_window (ops c) ?lo (min maxb (?e - ?lo + 1)) 0 junk f0 = Some (MPI_OK, f1, w1) \<and> inv c f1 \<and>
      content f1 = content f0 \<and> window_shows maxb (content f0) w1 \<and> woff w1 = ?lo \<and> wlen w1 = min maxb (?e - ?lo + 1)"
    by (rule read_window_ok [OF f0(1) lo(2) order_refl]) (use assms(4,6) rq(3) in auto)
  then obtain f1 w1 where w1: "read_window (ops c) ?lo (min maxb (?e - ?lo + 1)) 0 junk f0 = Some (MPI_OK, f1, w1)" "inv c f1"
    "content f1 = content f" "window_shows maxb (content f) w1" "woff w1 = ?lo"
    using f0(2) by auto
  obtain ps off' where ps: "\<And>s. sieve_regions ?io (regions bt count) ?lo s = loop_end off' (run_pieces ?io ps s)" "placed v b0 0 ps"
    "piece_bytes ps = map (\<lambda>k. (view_pos (mem_view bt) k, view_pos v (b0 + k))) [0..?n - 1]" "fp_at v (b0 + ?n) off'"
    using W(1) unfolding walks_def by blast
  have "map snd (piece_bytes ps) = map (\<lambda>k. view_pos v (b0 + k)) [0..?n - 1]" using ps(3) by simp
  from chained_contiguous [OF assms(3) ps(2) this] have ch: "chained False ?lo ps ?e" using rq(3) e(1) lo(1) by simp
  obtain f2 w2 where s: "run_pieces ?io ps ((f1, w1), m) = Some (MPI_OK, (f2, w2), arrived v bt ?n b0 g m)" "inv c f2" "content f2 = content f"
    using run_read [OF w1(2-4) eq_refl [OF w1(5)] lo(2) ch ps(2) assms(4-6) ps(3) g] by blast
  define f3 where "f3 = sv_forget (ops c) (if individual then sv_fp_ind (ops c) off'
      (if locking then sv_unlock (ops c) ?lo (?e - ?lo + 1) f2 else f2) else (if locking then sv_unlock (ops c) ?lo (?e - ?lo + 1) f2 else f2))"
  have "sieve_read_contiguous (ops c) v bt count individual p offset locking maxb junk (f, m) =
      Some (MPI_OK, Some ?n, f3, arrived v bt ?n b0 g m)"
    by (simp only: sieve_read_contiguous_def Let_def prod.case W(3) len f0_def [symmetric] w1(1) option.case simp_thms if_False
        sieve_read_end_def ps(1) s(1) loop_end_simps sum.case f3_def)
  then show ?thesis using read_exit [OF s(2,3) f3_def] ps(4) by auto
qed

lemma single_block_read:
  assumes "inv c f" "walkable v" "at_cursor v n j r b0 start" "0 < sz" "sz \<le> snd (blocks v ! j) - r" "bt_is_contig bt" "0 \<le> start"
    and g: "\<And>k. 0 \<le> k \<Longrightarrow> k < sz \<Longrightarrow> content f (view_pos v (b0 + k)) = Some (g (view_pos v (b0 + k)))"
  shows "\<exists>bs f'. sv_read (ops c) sz start f = Some (MPI_OK, bs, f') \<and> inv c f' \<and> content f' = content f \<and>
    (\<lambda>x. if 0 \<le> x \<and> x < int (length bs) then bs ! nat x else m x) = arrived v bt sz b0 g m"
proof -
  have within: "[start..start + sz - 1] = map (view_pos v) [b0..b0 + sz - 1]"
    using cursor_within [OF assms(2,3), of sz] assms(4,5) by simp
  have pos: "view_pos v (b0 + k) = start + k" if "0 \<le> k" "k < sz" for k
    using arg_cong [OF within, of "\<lambda>xs. xs ! nat k"] that by simp
  obtain bs f' where r: "sv_read (ops c) sz start f = Some (MPI_OK, bs, f')" "inv c f'" "content f' = content f" "int (length bs) \<le> sz"
    "\<And>p b. start \<le> p \<Longrightarrow> p < start + sz \<Longrightarrow> content f p = Some b \<Longrightarrow> nat (p - start) < length bs \<and> bs ! nat (p - start) = b"
    using read_ok [OF assms(1,7) less_imp_le [OF assms(4)]] by blast
  have bs: "nat k < length bs \<and> bs ! nat k = g (start + k)" if "0 \<le> k" "k < sz" for k
    using r(5) [of "start + k"] g [OF that] pos [OF that] that by simp
  have "nat (sz - 1) < length bs" using bs [of "sz - 1"] assms(4) by simp
  then have len: "int (length bs) = sz" using r(4) by linarith
  have "map (\<lambda>k. (view_pos v (b0 + k), view_pos (mem_view bt) k)) [0..sz - 1] = zip [start..start + sz - 1] [0..sz - 1]"
    using assms(6) pos by (intro nth_equalityI) (auto simp: view_pos_def)
  then have "arrived v bt sz b0 g m = (\<lambda>x. if 0 \<le> x \<and> x < int (length bs) then bs ! nat x else m x)"
    using assign_range [of g start "nat sz" 0 m] assms(4) bs len by (auto simp: arrived_def intro!: ext)
  then show ?thesis using r(1-3) by auto
qed

lemma noncontiguous_read:
  assumes "inv c f" "sieve_ok individual v bt count p offset b0" "\<not> filetype_is_contig v" "0 < maxb" "maxb \<le> INT_MAX" "int (length junk) = maxb"
    and "at_cursor v n j r b0 (view_pos v b0)" "bt_size bt * count < 2 ^ 32"
    and g: "\<And>k. 0 \<le> k \<Longrightarrow> k < bt_size bt * count \<Longrightarrow> content f (view_pos v (b0 + k)) = Some (g (view_pos v (b0 + k)))"
  shows "\<exists>f'. sieve_read_noncontiguous (ops c) v bt count individual (j, n, snd (blocks v ! j) - r, view_pos v b0) locking maxb junk (f, m) =
      Some (MPI_OK, Some (bt_size bt * count), f', arrived v bt (bt_size bt * count) b0 g m) \<and>
    inv c f' \<and> content f' = content f \<and> (individual \<longrightarrow> fp_at v (b0 + bt_size bt * count) (fp f'))"
proof -
  let ?n = "bt_size bt * count" and ?lo = "view_pos v b0" and ?left = "snd (blocks v ! j) - r"
  note rq = sieve_request [OF assms(2)]
  have v: "walkable v" "in_order v" using assms(2,3) by (auto simp: sieve_ok_def strided_ok_def)
  show ?thesis
  proof (cases "bt_is_contig bt \<and> ?n \<le> ?left")
    case True
    then have bt: "bt_is_contig bt" "?n \<le> ?left" by auto
    obtain bs f1 where f1: "sv_read (ops c) ?n ?lo f = Some (MPI_OK, bs, f1)" "inv c f1" "content f1 = content f"
      "(\<lambda>x. if 0 \<le> x \<and> x < int (length bs) then bs ! nat x else m x) = arrived v bt ?n b0 g m"
      using single_block_read [OF assms(1) v(1) assms(7) rq(3) bt(2,1) rq(4) g] by blast
    obtain q where q: "single_block_fp v ?n (j, n, ?left, ?lo) = Some q" "fp_at v (b0 + ?n) q"
      using single_block_fp_ok [OF v(1) assms(7) rq(2) less_imp_le [OF rq(3)]] True by blast
    define f2 where "f2 = sv_forget (ops c) (if individual then sv_fp_ind (ops c) q
      (if False then sv_unlock (ops c) 0 0 f1 else f1) else (if False then sv_unlock (ops c) 0 0 f1 else f1))"
    have "sieve_read_noncontiguous (ops c) v bt count individual (j, n, ?left, ?lo) locking maxb junk (f, m) =
        Some (MPI_OK, Some ?n, f2, arrived v bt ?n b0 g m)"
      using f1(1) q(1) by (simp add: sieve_read_noncontiguous_def f2_def f1(4) bt Let_def)
    then show ?thesis using q(2) read_exit [OF f1(2,3) f2_def] by auto
  next
    case False
    define e where "e = view_pos v (b0 + ?n - 1)"
    have c0: "at_cursor v n j r (b0 + 0) ?lo" using assms(7) by simp
    have e: "sieve_end v ?n j n ?lo (min ?left ?n) 0 0 = Some e"
      using sieve_end_ok [OF v(1) rq(2) c0 order_refl _ refl, of ?n 0] rq(3) by (simp add: e_def)
    define f0 where "f0 = (if locking then sv_lock (ops c) ?lo (e - ?lo + 1) f else f)"
    have f0: "inv c f0" "content f0 = content f" using assms(1) lock_ok by (auto simp: f0_def)
    let ?w = "\<lparr>wdata = junk, woff = 0, wlen = 0\<rparr>" and ?io = "buffered_read (ops c) maxb junk e"
    have w: "window_shows maxb (content f) ?w" using assms(6) by (auto simp: window_shows_def)
    have W: "walks (view_pos (mem_view bt)) ?io v b0 ?n 0 (nat ?n) (sieve_walk ?io True v bt ?n (j, n, ?left, ?lo))"
      by (rule sieve_walk_ok [OF rq(1) assms(3,7) rq(2)]) (use assms(8) in simp)
    obtain ps off' where ps: "\<And>s. sieve_walk ?io True v bt ?n (j, n, ?left, ?lo) s = loop_end off' (run_pieces ?io ps s)" "placed v b0 0 ps"
      "piece_bytes ps = map (\<lambda>k. (view_pos (mem_view bt) k, view_pos v (b0 + k))) [0..?n - 1]" "fp_at v (b0 + ?n) off'"
      using W unfolding walks_def by blast
    have "map snd (piece_bytes ps) = map (\<lambda>k. view_pos v (b0 + k)) [0..?n - 1]" using ps(3) by simp
    from chained_in_order [OF v ps(2) this, of ?lo] have ch: "chained True ?lo ps e" by (simp add: e_def)
    obtain f2 w2 where s: "run_pieces ?io ps ((f0, ?w), m) = Some (MPI_OK, (f2, w2), arrived v bt ?n b0 g m)" "inv c f2" "content f2 = content f"
      using run_read [OF f0 w _ rq(4) ch ps(2) assms(4-6) ps(3) g, of m] rq(4) by auto
    define f3 where "f3 = sv_forget (ops c) (if individual then sv_fp_ind (ops c) off'
      (if locking then sv_unlock (ops c) ?lo (e - ?lo + 1) f2 else f2) else (if locking then sv_unlock (ops c) ?lo (e - ?lo + 1) f2 else f2))"
    have "sieve_read_noncontiguous (ops c) v bt count individual (j, n, ?left, ?lo) locking maxb junk (f, m) =
        Some (MPI_OK, Some ?n, f3, arrived v bt ?n b0 g m)"
      by (simp only: sieve_read_noncontiguous_def Let_def prod.case if_not_P [OF False] e option.case f0_def [symmetric] ps(1) s(1)
          loop_end_simps sum.case simp_thms if_False sieve_read_end_def f3_def)
    then show ?thesis using read_exit [OF s(2,3) f3_def] ps(4) by auto
  qed
qed

lemma sieving_read:
  assumes "inv c f" "sieve_ok individual v bt count p offset b0" "0 < maxb" "maxb \<le> INT_MAX" "int (length junk) = maxb"
    and "filetype_size v < 2 ^ 31" "bt_size bt * count < 2 ^ 32"
    and g: "\<And>k. 0 \<le> k \<Longrightarrow> k < bt_size bt * count \<Longrightarrow> content f (view_pos v (b0 + k)) = Some (g (view_pos v (b0 + k)))"
  shows "\<exists>f'. ADIOI_GEN_ReadStrided (ops c) naive False unlocking v bt count individual p offset locking maxb junk (f, m) =
      Some (MPI_OK, Some (bt_size bt * count), f', arrived v bt (bt_size bt * count) b0 g m) \<and>
    inv c f' \<and> content f' = content f \<and> (individual \<longrightarrow> fp_at v (b0 + bt_size bt * count) (fp f'))"
proof (cases "filetype_is_contig v")
  case True
  moreover have "filetype_size v \<noteq> 0" using assms(2) by (auto simp: sieve_ok_def strided_ok_def)
  ultimately show ?thesis
    using contiguous_read [OF assms(1,2) True assms(3-5) g] sieve_regions_walk(2) [OF assms(2) True]
    by (simp add: ADIOI_GEN_ReadStrided_def)
next
  case False
  obtain j n r where s: "first_block v individual p offset = Some (j, n, snd (blocks v ! j) - r, view_pos v b0)"
    "at_cursor v n j r b0 (view_pos v b0)" using sieve_start [OF assms(2) False] by blast
  moreover have "filetype_size v \<noteq> 0" using assms(2) by (auto simp: sieve_ok_def strided_ok_def)
  ultimately show ?thesis
    using noncontiguous_read [OF assms(1,2) False assms(3-5) s(2) assms(7) g] False
      sieve_first_block_eq [OF sieve_request(1) [OF assms(2)] False assms(6)]
    by (simp add: ADIOI_GEN_ReadStrided_def)
qed

end

section \<open>The file without a cache\<close>

definition sieve_file_ops :: "'g io_params \<Rightarrow> 'g adio_file sieve_ops" where
  "sieve_file_ops P = \<lparr>sv_write = put_contig P, sv_read = get_contig P,
     sv_lock = (\<lambda>off len fd. fd\<lparr>flocks := lock_range (flocks fd) off len\<rparr>),
     sv_unlock = (\<lambda>off len fd. fd\<lparr>flocks := unlock_range (flocks fd) off len\<rparr>),
     sv_fp_ind = (\<lambda>off fd. fd\<lparr>gfh := (gfh fd)\<lparr>fp_ind := off\<rparr>\<rparr>),
     sv_forget = (\<lambda>fd. fd\<lparr>gfh := (gfh fd)\<lparr>fp_sys_posn := -1\<rparr>\<rparr>)\<rparr>"

text \<open>A contiguous read delivers what the global file has, up to its end.\<close>

lemma get_contig_short:
  assumes "params_ok P" "0 \<le> len"
  shows "\<exists>n. get_contig P len off fd = Some (MPI_OK, file_pread (fcontent (gfh fd)) off n, fd\<lparr>gfh := (gfh fd)\<lparr>fp_sys_posn := off + n\<rparr>\<rparr>) \<and>
    0 \<le> n \<and> n \<le> len \<and> (n = 0 \<or> off + n \<le> fsize (fcontent (gfh fd))) \<and> (n = len \<or> fsize (fcontent (gfh fd)) \<le> off + n)"
proof -
  let ?f = "fcontent (gfh fd)"
  obtain n where r: "read_loop (nat len) (prd P ?f) 0 ?f [] off len 0 = Some (True, file_pread ?f off n, n)"
    "0 \<le> n" "n \<le> len" "n = 0 \<or> off + n \<le> fsize ?f" "n = len \<or> fsize ?f \<le> off + n"
    using read_loop_total [of "prd P ?f" ?f 0 len "nat len" 0 "[]" off] assms
    by (auto simp: params_ok_def split: if_splits)
  then show ?thesis
    using assms by (auto simp: get_contig_def ADIOI_GEN_ReadContig_def Let_def params_ok_def explicit_not_individual)
qed

lemma file_pread_nth:
  assumes "0 \<le> n" "n = 0 \<or> off + n \<le> fsize f" "off \<le> p" "p < off + n" "fdata f p = Some b"
  shows "nat (p - off) < length (file_pread f off n) \<and> file_pread f off n ! nat (p - off) = b"
  using assms by (auto simp: file_pread_def min_def)

interpretation sieved: sieved_file "\<lambda>P. direct_ready P 0" file_content sieve_file_ops "\<lambda>fd. fp_ind (gfh fd)"
proof unfold_locales
  fix P :: "'a io_params" and fd :: "'a adio_file" and off :: int and bs :: "byte list"
  assume "direct_ready P 0 fd" "0 \<le> off"
  moreover from this have "direct_ready P (Suc 0) fd" by (simp add: direct_ready_def)
  ultimately show "\<exists>f'. sv_write (sieve_file_ops P) bs off fd = Some (MPI_OK, f') \<and> direct_ready P 0 f' \<and>
      file_content f' = (\<lambda>p. if off \<le> p \<and> p < off + int (length bs) then Some (bs ! nat (p - off)) else file_content fd p)"
    using direct.put_ok [of P 0 fd off bs] by (simp add: sieve_file_ops_def)
next
  fix P :: "'a io_params" and fd :: "'a adio_file" and off len :: int
  assume d: "direct_ready P 0 fd" and pos: "0 \<le> off" "0 \<le> len"
  let ?f = "fcontent (gfh fd)"
  have P: "params_ok P" and content: "file_content fd = fdata ?f" and size: "\<And>p b. fdata ?f p = Some b \<Longrightarrow> p < fsize ?f"
    using d by (auto simp: direct_ready_def file_content_def the_fh_direct)
  obtain n where n: "get_contig P len off fd = Some (MPI_OK, file_pread ?f off n, fd\<lparr>gfh := (gfh fd)\<lparr>fp_sys_posn := off + n\<rparr>\<rparr>)"
    "0 \<le> n" "n \<le> len" "n = 0 \<or> off + n \<le> fsize ?f" "n = len \<or> fsize ?f \<le> off + n"
    using get_contig_short [OF P pos(2)] by blast
  have "nat (p - off) < length (file_pread ?f off n) \<and> file_pread ?f off n ! nat (p - off) = b"
    if "off \<le> p" "p < off + len" "file_content fd p = Some b" for p b
    using file_pread_nth [OF n(2,4) that(1)] size [of p b] n(5) that content by auto
  moreover have "int (length (file_pread ?f off n)) \<le> len" using n(2,3) by (auto simp: file_pread_def min_def)
  ultimately show "\<exists>bs f'. sv_read (sieve_file_ops P) len off fd = Some (MPI_OK, bs, f') \<and> direct_ready P 0 f' \<and>
      file_content f' = file_content fd \<and> int (length bs) \<le> len \<and>
      (\<forall>p b. off \<le> p \<and> p < off + len \<and> file_content fd p = Some b \<longrightarrow> nat (p - off) < length bs \<and> bs ! nat (p - off) = b)"
    using n(1) d by (auto simp: sieve_file_ops_def frame_simps)
qed (simp_all add: sieve_file_ops_def frame_simps)

lemma sieve_request_at:
  assumes "sieve_ok individual v bt count fp offset b0"
  shows "request_at v individual fp offset b0"
proof (cases individual)
  case True
  then have fp: "fp = view_pos v b0" using assms by (simp add: sieve_ok_def starts_at_def)
  show ?thesis
  proof (cases "filetype_is_contig v")
    case False
    then show ?thesis using sieve_start [OF assms False] fp True by (auto simp: request_at_def fp_at_def)
  qed (use True fp in \<open>simp add: request_at_def fp_at_def view_pos_def\<close>)
qed (use assms in \<open>auto simp: sieve_ok_def starts_at_def request_at_def\<close>)

section \<open>Properties\<close>


text \<open>16 bytes of a buffer with holes, in windows of 7 bytes.\<close>

lemma marked_view_sieve: "sieve_ok False marked_view holed_buffer 2 fp 1 4"
  using marked_view_explicit marked_view_strided(1)
  by (simp add: sieve_ok_def starts_at_def strided_ok_def in_order_def marked_view_def holed_buffer_def)



definition filled_direct :: "int set adio_file" where
  "filled_direct = demo_direct\<lparr>gfh := (gfh demo_direct)\<lparr>fcontent := file_pwrite (fcontent (gfh demo_direct)) 100 (replicate 100 7)\<rparr>\<rparr>"

lemma filled_direct_ok:
  "direct_ready byte_params 0 filled_direct" "0 \<le> k \<Longrightarrow> k < 16 \<Longrightarrow> file_content filled_direct (view_pos marked_view (4 + k)) \<noteq> None"
proof -
  have nc: "\<not> cache_on filled_direct" by (simp add: cache_on_def filled_direct_def demo_direct_def)
  have e: "p < 200" if "fdata (fcontent (gfh demo_direct)) p = Some x" for p x
    using that by (auto simp: demo_direct_def demo_file_def split: if_splits)
  have "fsize (fcontent (gfh filled_direct)) \<ge> 200"
    using fsize_pwrite_ge [of "replicate 100 (7 :: byte)" 100 "fcontent (gfh demo_direct)"] by (simp add: filled_direct_def)
  then show "direct_ready byte_params 0 filled_direct"
    using nc e by (auto simp: direct_ready_def byte_params_ok filled_direct_def fdata_pwrite split: if_splits)
  assume "0 \<le> k" "k < 16"
  moreover have "\<forall>k \<in> set [0..15]. 100 \<le> view_pos marked_view (4 + k) \<and> view_pos marked_view (4 + k) < 200" by code_simp
  ultimately have "100 \<le> view_pos marked_view (4 + k)" "view_pos marked_view (4 + k) < 200" by auto
  then show "file_content filled_direct (view_pos marked_view (4 + k)) \<noteq> None"
    using nc by (simp add: file_content_def the_fh_direct filled_direct_def fdata_pwrite cache_on_def)
qed


section \<open>Windows over a cached file\<close>

text \<open>
  With the cache, the window is read from the global file, which \<open>ADIOI_GEN_ReadContig\<close> always reads, and written
  to the cache file: where the window has bytes that are not of the request, what earlier writes
  left in the cache is replaced by the older content of the global file. (Stated in atomic mode, where the macro
  takes no lock of its own.)
\<close>

lemma cached_window_is_stale:
  assumes "cached_ready P (Suc k) fd" "0 < maxb" "maxb \<le> INT_MAX" "int (length (wdata w)) = maxb" "woff w = 0" "wlen w = 0"
    and "0 \<le> p" "p \<le> q" "q < p + min maxb (e - p + 1)" "fdata (fcontent (gfh fd)) q = Some b" "q < fsize (fcontent (gfh fd))"
  shows "\<exists>fd1 w1 fd2. enter_window (sieve_file_ops P) True True maxb e p fd w = Some (MPI_OK, fd1, w1) \<and>
    write_window (sieve_file_ops P) True True fd1 w1 = Some (MPI_OK, fd2) \<and> file_content fd2 q = Some b"
proof -
  let ?len = "min maxb (e - p + 1)" and ?f = "fcontent (gfh fd)"
  have len: "0 \<le> ?len" "?len \<le> maxb" "to_unsigned ?len = ?len" using assms(2,8,9) window_len [OF assms(2,3), of p e] by auto
  have P: "params_ok P" using assms(1) by (simp add: cached_ready_def)
  obtain n where n: "get_contig P ?len p fd = Some (MPI_OK, file_pread ?f p n, fd\<lparr>gfh := (gfh fd)\<lparr>fp_sys_posn := p + n\<rparr>\<rparr>)"
    "0 \<le> n" "n \<le> ?len" "n = 0 \<or> p + n \<le> fsize ?f" "n = ?len \<or> fsize ?f \<le> p + n"
    using get_contig_short [OF P len(1)] by blast
  define fd1 where "fd1 = fd\<lparr>gfh := (gfh fd)\<lparr>fp_sys_posn := p + n\<rparr>\<rparr>"
  have bs: "nat (q - p) < length (file_pread ?f p n)" "file_pread ?f p n ! nat (q - p) = b"
    using file_pread_nth [OF n(2,4) assms(8) _ assms(10)] n(5) assms(9,11) by auto
  have "0 + int (length (file_pread ?f p n)) \<le> int (length (wdata w))" using n(2,3) len(2) assms(4) by (auto simp: file_pread_def min_def)
  then obtain d where d: "memcpy_at (wdata w) 0 (file_pread ?f p n) = Some d" "length d = length (wdata w)"
    "\<And>k. k < length (wdata w) \<Longrightarrow> d ! k = (if nat 0 \<le> k \<and> k < nat 0 + length (file_pread ?f p n) then file_pread ?f p n ! (k - nat 0) else wdata w ! k)"
    using memcpy_at_Some [of 0 "file_pread ?f p n" "wdata w"] by blast
  let ?w = "\<lparr>wdata = d, woff = p, wlen = ?len\<rparr>"
  have "enter_window (sieve_file_ops P) True True maxb e p fd w = Some (MPI_OK, fd1, ?w)"
    using assms(5-7) n(1) d(1) len(3)
    by (simp add: enter_window_def open_window_def sieve_file_ops_def fd1_def Let_def)
  moreover have "cached_ready P (Suc k) fd1" using assms(1) by (simp add: cached_ready_def fd1_def frame_simps)
  then obtain fd2 where fd2: "put_contig P (take (nat ?len) d) p fd1 = Some (MPI_OK, fd2)"
    "file_content fd2 = (\<lambda>x. if p \<le> x \<and> x < p + int (length (take (nat ?len) d)) then Some (take (nat ?len) d ! nat (x - p)) else file_content fd1 x)"
    using cached.put_ok [of P k fd1 p "take (nat ?len) d"] assms(7) by blast
  have "nat (q - p) < nat ?len" "nat (q - p) < length d" using d(2) assms(4,8,9) len(2) by linarith+
  then have "file_content fd2 q = Some b"
    using d(2) d(3) [of "nat (q - p)"] bs assms(8,9) unfolding fd2(2) by (auto simp: nat_less_iff)
  moreover have "write_window (sieve_file_ops P) True True fd1 ?w = Some (MPI_OK, fd2)"
    using fd2(1) d(2) len(2) assms(4) by (simp add: write_window_def sieve_file_ops_def)
  ultimately show ?thesis by blast
qed

section \<open>A buffer of size 0\<close>

text \<open>
  The hint \<open>ind_wr_buffer_size\<close> is taken from \<open>atoi\<close> without a check: with a size of 0 every window is empty, and the loop writes
  empty windows forever when the writes succeed.
\<close>

lemma write_through_diverges:
  assumes "write_through ops rmw atomic maxb e m u l sz s w = Some y"
  shows "\<not> (\<not> rmw \<and> maxb = 0 \<and> sz = 0 \<and> 0 < l \<and> woff w + wlen w \<le> e \<and> (\<forall>bs off s. \<exists>s'. sv_write ops bs off s = Some (MPI_OK, s')))"
proof (rule write_through.raw_induct [where P = "\<lambda>ops rmw atomic maxb e m u l sz s w y.
      \<not> (\<not> rmw \<and> maxb = 0 \<and> sz = 0 \<and> 0 < l \<and> woff w + wlen w \<le> e \<and> (\<forall>bs off s. \<exists>s'. sv_write ops bs off s = Some (MPI_OK, s')))", OF _ assms],
    rule notI, elim conjE)
  fix write_through ops rmw atomic maxb e m u l sz s w y
  assume IH: "\<And>ops rmw atomic maxb e m u l sz s w y. write_through ops rmw atomic maxb e m u l sz s w = Some y \<Longrightarrow>
      \<not> (\<not> rmw \<and> maxb = 0 \<and> sz = 0 \<and> 0 < l \<and> woff w + wlen w \<le> e \<and> (\<forall>bs off s. \<exists>s'. sv_write ops bs off s = Some (MPI_OK, s')))"
    and body: "(if sz \<noteq> l then
        (case write_window ops rmw atomic s w of
           None \<Rightarrow> None
         | Some (e', s1) \<Rightarrow>
             if e' \<noteq> MPI_OK then Some (MPI_ERR_IO, s1, w)
             else (case open_window ops rmw atomic maxb e (woff w + wlen w) s1 w of
                 None \<Rightarrow> None
               | Some (e', s2, w2) \<Rightarrow>
                   if e' \<noteq> MPI_OK then Some (e', s2, w2)
                   else (let la = l - sz; ua = u + sz; sza = min la (wlen w2) in
                     case memcpy_at (wdata w2) 0 (map m [ua..ua + sza - 1]) of
                       None \<Rightarrow> None
                     | Some d \<Rightarrow> write_through ops rmw atomic maxb e m ua la sza s2 (w2\<lparr>wdata := d\<rparr>))))
      else Some (MPI_OK, s, w)) = Some y"
    and c: "\<not> rmw" "maxb = 0" "sz = 0" "0 < l" "woff w + wlen w \<le> e" and ok: "\<forall>bs off s. \<exists>s'. sv_write ops bs off s = Some (MPI_OK, s')"
  obtain s1 where s1: "sv_write ops (take (nat (wlen w)) (wdata w)) (woff w) s = Some (MPI_OK, s1)" using ok by blast
  have "min 0 (e - (woff w + wlen w) + 1) = 0" using c(5) by simp
  then have "to_unsigned (min 0 (e - (woff w + wlen w) + 1)) = 0" by (simp add: to_unsigned_def)
  then have "write_through ops False atomic 0 e m u l 0 s1 (w\<lparr>woff := woff w + wlen w, wlen := 0\<rparr>) = Some y"
    using body c s1 by (auto simp: write_window_def open_window_def memcpy_at_def Let_def split: if_splits)
  from IH [OF this] c ok show False by simp
qed

lemma zero_buffer_never_returns:
  assumes "\<And>bs off s. \<exists>s'. sv_write ops bs off s = Some (MPI_OK, s')" "0 < l" "p \<le> e"
  shows "buffered_write ops False atomic 0 e m u l p (s, \<lparr>wdata = [], woff = p, wlen = 0\<rparr>) = None"
proof (rule ccontr)
  assume "\<not> ?thesis"
  obtain s1 where s1: "sv_write ops [] p s = Some (MPI_OK, s1)" using assms(1) by blast
  have u: "to_unsigned (min 0 (e - p + 1)) = 0" "to_unsigned 0 = 0" using assms(3) by (simp_all add: to_unsigned_def)
  have "buffered_write ops False atomic 0 e m u l p (s, \<lparr>wdata = [], woff = p, wlen = 0\<rparr>) =
      write_through ops False atomic 0 e m u l 0 s1 \<lparr>wdata = [], woff = p, wlen = 0\<rparr>"
    using s1 u assms(2) by (simp add: buffered_write_def enter_window_def write_window_def open_window_def memcpy_at_def Let_def)
  with \<open>\<not> ?thesis\<close> obtain y where "write_through ops False atomic 0 e m u l 0 s1 \<lparr>wdata = [], woff = p, wlen = 0\<rparr> = Some y" by auto
  from write_through_diverges [OF this] assms show False by auto
qed

end
