(* ===== verification/Heap_Merge.thy ===== *)
theory Heap_Merge
  imports E10_Prelude "HOL-Library.Multiset"
begin

text \<open>
  \<open>ADIOI_Heap_merge\<close> (\<open>ad_write_coll.c\<close>), by which an aggregator merges the offset lists of the processes to find the
  holes in what it is about to write. An entry of the heap is what is left of one list, the pairs from
  \<open>off_list\<close> and \<open>len_list\<close> on, \<open>nelem\<close> of them. \<open>None\<close> is an access outside of an array or a list.
\<close>

section \<open>The merge\<close>

type_synonym offlens = "(int \<times> int) list"

definition first_off :: "offlens list \<Rightarrow> nat \<Rightarrow> int option" where
  "first_off a i = (if i < length a \<and> a ! i \<noteq> [] then Some (fst (hd (a ! i))) else None)"

definition before :: "offlens list \<Rightarrow> nat \<Rightarrow> nat \<Rightarrow> nat \<Rightarrow> nat option" where
  "before a heapsize c k = (if c < heapsize then
       do { x \<leftarrow> first_off a c; y \<leftarrow> first_off a k; Some (if x < y then c else k) }
     else Some k)"

definition merge_smallest :: "offlens list \<Rightarrow> nat \<Rightarrow> nat \<Rightarrow> nat option" where
  "merge_smallest a heapsize k = do {
     s \<leftarrow> before a heapsize (2 * (k + 1) - 1) k;
     before a heapsize (2 * (k + 1)) s }"

lemma merge_smallest_cases:
  assumes "merge_smallest a n k = Some s"
  shows "s = k \<or> k < s \<and> s < n \<and> s < length a"
  using assms by (auto simp: merge_smallest_def before_def first_off_def bind_eq_Some_conv split: if_splits)

function merge_heapify :: "nat \<Rightarrow> offlens list \<Rightarrow> nat \<Rightarrow> offlens list option" where
  "merge_heapify heapsize a k = (case merge_smallest a heapsize k of None \<Rightarrow> None
     | Some s \<Rightarrow> if s \<noteq> k then merge_heapify heapsize (a[k := a ! s, s := a ! k]) s else Some a)"
  by pat_completeness auto
termination
  by (relation "measure (\<lambda>(n, a, k). n - k)") (auto dest!: merge_smallest_cases)

declare merge_heapify.simps [simp del]

text \<open>From \<open>heapsize / 2 - 1\<close> down to 0.\<close>

fun merge_build :: "nat \<Rightarrow> offlens list \<Rightarrow> nat \<Rightarrow> offlens list option" where
  "merge_build heapsize a 0 = Some a"
| "merge_build heapsize a (Suc i) = do { a' \<leftarrow> merge_heapify heapsize a i; merge_build heapsize a' i }"

fun merge_extract :: "nat \<Rightarrow> nat \<Rightarrow> offlens list \<Rightarrow> offlens option" where
  "merge_extract 0 heapsize a = Some []"
| "merge_extract (Suc i) heapsize a =
     (if a = [] \<or> a ! 0 = [] then None
      else (let a1 = a[0 := tl (a ! 0)];
                (a2, n) = (if a1 ! 0 = [] then (a1[0 := a1 ! (heapsize - 1)], heapsize - 1) else (a1, heapsize))
            in if heapsize = 0 \<or> length a < heapsize then None
               else do { a3 \<leftarrow> merge_heapify n a2 0; xs \<leftarrow> merge_extract i n a3; Some (hd (a ! 0) # xs) }))"

text \<open>
  The entries are the parts of the lists that count, \<open>nprocs_recv\<close> of them, as the caller says.
\<close>

definition ADIOI_Heap_merge :: "offlens list \<Rightarrow> nat list \<Rightarrow> nat list \<Rightarrow> nat \<Rightarrow> nat \<Rightarrow> offlens option" where
  "ADIOI_Heap_merge others_req cnt start_pos nprocs_recv total_elements =
     (let a = map (\<lambda>i. take (cnt ! i) (drop (start_pos ! i) (others_req ! i))) (filter (\<lambda>i. cnt ! i \<noteq> 0) [0..<length cnt])
      in if nprocs_recv + 1 < length a \<or> length a < nprocs_recv then None
         else do { a' \<leftarrow> merge_build nprocs_recv a (nprocs_recv div 2); merge_extract total_elements nprocs_recv a' })"

section \<open>The heap\<close>

definition up :: "nat \<Rightarrow> nat" where
  "up j = (j - 1) div 2"

definition first :: "offlens list \<Rightarrow> nat \<Rightarrow> int" where
  "first a i = fst (hd (a ! i))"

definition runs_ok :: "offlens list \<Rightarrow> nat \<Rightarrow> bool" where
  "runs_ok a n \<longleftrightarrow> n \<le> length a \<and> (\<forall>i < n. a ! i \<noteq> [] \<and> sorted (map fst (a ! i)))"

definition heap_from :: "offlens list \<Rightarrow> nat \<Rightarrow> nat \<Rightarrow> bool" where
  "heap_from a n lo \<longleftrightarrow> (\<forall>j. 0 < j \<and> j < n \<and> lo \<le> up j \<longrightarrow> first a (up j) \<le> first a j)"

text \<open>The same but for \<open>k\<close>, whose children are not before its parent.\<close>

definition sinks :: "offlens list \<Rightarrow> nat \<Rightarrow> nat \<Rightarrow> nat \<Rightarrow> bool" where
  "sinks a n lo k \<longleftrightarrow> (\<forall>j. 0 < j \<and> j < n \<and> lo \<le> up j \<and> up j \<noteq> k \<longrightarrow> first a (up j) \<le> first a j) \<and>
     (\<forall>j. 0 < j \<and> j < n \<and> up j = k \<and> 0 < k \<and> lo \<le> up k \<longrightarrow> first a (up k) \<le> first a j)"

lemma up_child: "0 < j \<Longrightarrow> up j = k \<longleftrightarrow> j = 2 * (k + 1) - 1 \<or> j = 2 * (k + 1)"
  by (auto simp: up_def)

lemma up_less: "0 < j \<Longrightarrow> up j < j"
  by (auto simp: up_def)

lemma first_off_ok: "runs_ok a n \<Longrightarrow> i < n \<Longrightarrow> first_off a i = Some (first a i)"
  by (simp add: runs_ok_def first_off_def first_def)

lemma before_ok:
  assumes "runs_ok a n" "k < n"
  shows "before a n c k = Some (if c < n \<and> first a c < first a k then c else k)"
  using first_off_ok [OF assms(1)] assms(2) by (auto simp: before_def)

lemma merge_smallest_ok:
  assumes "runs_ok a n" "k < n"
  shows "\<exists>s. merge_smallest a n k = Some s \<and> s < n \<and> (s = k \<or> 0 < s \<and> up s = k \<and> first a s < first a k) \<and>
    (\<forall>j. 0 < j \<and> j < n \<and> up j = k \<longrightarrow> first a s \<le> first a j) \<and> first a s \<le> first a k"
proof -
  let ?l = "2 * (k + 1) - 1" and ?r = "2 * (k + 1)"
  define s1 where "s1 = (if ?l < n \<and> first a ?l < first a k then ?l else k)"
  have s1: "s1 < n" "before a n ?l k = Some s1" using before_ok [OF assms] assms(2) by (auto simp: s1_def)
  define s where "s = (if ?r < n \<and> first a ?r < first a s1 then ?r else s1)"
  have s: "s < n" "before a n ?r s1 = Some s" using before_ok [OF assms(1) s1(1)] s1(1) by (auto simp: s_def)
  have "first a s \<le> first a j" if "0 < j" "j < n" "up j = k" for j
  proof -
    have "j = ?l \<or> j = ?r" using up_child [OF that(1), of k] that(3) by simp
    then show ?thesis using that(2) by (elim disjE) (auto simp: s_def s1_def)
  qed
  moreover have "up ?l = k" "up ?r = k" using up_child [of ?l k] up_child [of ?r k] by simp_all
  then have "s = k \<or> 0 < s \<and> up s = k \<and> first a s < first a k" "first a s \<le> first a k" by (auto simp: s_def s1_def)
  ultimately show ?thesis using s s1(2) by (intro exI [of _ s]) (simp add: merge_smallest_def)
qed

lemma merge_heapify_ok:
  "runs_ok a n \<Longrightarrow> k < n \<Longrightarrow> lo \<le> k \<Longrightarrow> sinks a n lo k \<Longrightarrow>
   \<exists>a'. merge_heapify n a k = Some a' \<and> runs_ok a' n \<and> heap_from a' n lo \<and> mset (take n a') = mset (take n a)"
proof (induction n a k rule: merge_heapify.induct)
  case (1 n a k)
  obtain s where s: "merge_smallest a n k = Some s" "s < n" "s = k \<or> 0 < s \<and> up s = k \<and> first a s < first a k"
    "\<And>j. 0 < j \<Longrightarrow> j < n \<Longrightarrow> up j = k \<Longrightarrow> first a s \<le> first a j" "first a s \<le> first a k"
    using merge_smallest_ok [OF "1.prems"(1,2)] by blast
  show ?case
  proof (cases "s = k")
    case True
    have "first a (up j) \<le> first a j" if "0 < j" "j < n" "lo \<le> up j" for j
      using "1.prems"(4) s(4) [OF that(1,2)] that True by (cases "up j = k") (auto simp: sinks_def)
    then have "heap_from a n lo" by (simp add: heap_from_def)
    then show ?thesis using s(1) True "1.prems"(1) by (simp add: merge_heapify.simps [of n a k])
  next
    case False
    let ?a = "a[k := a ! s, s := a ! k]"
    have sk: "0 < s" "up s = k" "k < s" "first a s < first a k" using s(3) False up_less by auto
    have n: "n \<le> length a" using "1.prems"(1) by (simp add: runs_ok_def)
    have nth: "?a ! j = (if j = s then a ! k else if j = k then a ! s else a ! j)" if "j < n" for j
      using that n s(2) "1.prems"(2) by (auto simp: nth_list_update)
    then have fst': "first ?a j = (if j = s then first a k else if j = k then first a s else first a j)" if "j < n" for j
      using that by (simp add: first_def)
    have "runs_ok ?a n" using "1.prems"(1,2) s(2) nth by (auto simp: runs_ok_def)
    moreover have "sinks ?a n lo s" unfolding sinks_def
    proof (intro conjI allI impI)
      fix j assume j: "0 < j \<and> j < n \<and> lo \<le> up j \<and> up j \<noteq> s"
      then have u: "up j < n" "up j < j" using up_less [of j] by auto
      consider "j = s" | "j = k" "0 < k" | "j \<noteq> s" "up j = k" | "j \<noteq> s" "j \<noteq> k" "up j \<noteq> k" using j by auto
      then show "first ?a (up j) \<le> first ?a j"
      proof cases
        case 1
        then show ?thesis using sk s(5) u j fst' [of k] fst' [of s] "1.prems"(2) by simp
      next
        case 2
        have "first a (up k) \<le> first a s" using "1.prems"(4) 2 sk s(2) j by (auto simp: sinks_def)
        then show ?thesis using 2 u j fst' [of k] fst' [of "up k"] "1.prems"(2) by auto
      next
        case 3
        have "j \<noteq> k" using u 3 by auto
        then show ?thesis using 3 j u s(4) [of j] fst' [of k] fst' [of j] sk "1.prems"(2) by auto
      next
        case 4
        then show ?thesis using "1.prems"(4) j u fst' [of j] fst' [of "up j"] by (auto simp: sinks_def)
      qed
    next
      fix j assume j: "0 < j \<and> j < n \<and> up j = s \<and> 0 < s \<and> lo \<le> up s"
      then have "j \<noteq> s" "j \<noteq> k" "up j \<noteq> k" "lo \<le> up j" using sk "1.prems"(3) up_less [of j] by auto
      then have "first a s \<le> first a j" using "1.prems"(4) j by (auto simp: sinks_def)
      then show "first ?a (up s) \<le> first ?a j" using j sk fst' [of k] fst' [of j] "1.prems"(2) \<open>j \<noteq> s\<close> \<open>j \<noteq> k\<close> by simp
    qed
    moreover have "lo \<le> s" using "1.prems"(3) sk(3) by simp
    ultimately obtain a' where a': "merge_heapify n ?a s = Some a'" "runs_ok a' n" "heap_from a' n lo" "mset (take n a') = mset (take n ?a)"
      using "1.IH" [OF s(1) False] s(2) by blast
    have "take n ?a = (take n a)[k := take n a ! s, s := take n a ! k]"
      using s(2) "1.prems"(2) by (simp add: take_update_swap)
    then have "mset (take n ?a) = mset (take n a)" using mset_swap [of s "take n a" k] n s(2) "1.prems"(2) by simp
    then show ?thesis using a' s(1) False by (simp add: merge_heapify.simps [of n a k])
  qed
qed

lemma merge_build_ok:
  "runs_ok a n \<Longrightarrow> i \<le> n \<Longrightarrow> heap_from a n i \<Longrightarrow>
   \<exists>a'. merge_build n a i = Some a' \<and> runs_ok a' n \<and> heap_from a' n 0 \<and> mset (take n a') = mset (take n a)"
proof (induction i arbitrary: a)
  case (Suc i)
  have "sinks a n i i" using Suc.prems(3) up_less [of i] by (auto simp: sinks_def heap_from_def)
  then obtain a1 where a1: "merge_heapify n a i = Some a1" "runs_ok a1 n" "heap_from a1 n i" "mset (take n a1) = mset (take n a)"
    using merge_heapify_ok [OF Suc.prems(1), of i i] Suc.prems(2) by auto
  then show ?case using Suc.IH [OF a1(2) _ a1(3)] Suc.prems(2) by auto
qed simp

lemma heap_least: "heap_from a n 0 \<Longrightarrow> i < n \<Longrightarrow> first a 0 \<le> first a i"
proof (induction i rule: less_induct)
  case (less i)
  show ?case
  proof (cases "i = 0")
    case False
    then have "first a 0 \<le> first a (up i)" "first a (up i) \<le> first a i" using less up_less [of i] by (auto simp: heap_from_def)
    then show ?thesis by simp
  qed simp
qed

text \<open>All that is left in the first \<open>n\<close> lists.\<close>

definition left_over :: "offlens list \<Rightarrow> nat \<Rightarrow> (int \<times> int) multiset" where
  "left_over a n = mset (concat (take n a))"

lemma left_over_cong: "mset (take n a) = mset (take n b) \<Longrightarrow> left_over a n = left_over b n"
  unfolding left_over_def mset_concat by (metis mset_map sum_mset_sum_list)

lemma least_of_all:
  assumes "runs_ok a n" "heap_from a n 0" "x \<in># left_over a n"
  shows "first a 0 \<le> fst x"
proof -
  obtain r where "r \<in> set (take n a)" "x \<in> set r" using assms(3) by (auto simp: left_over_def)
  then obtain i where i: "i < n" "x \<in> set (a ! i)" by (auto simp: in_set_conv_nth [of r])
  then have "a ! i \<noteq> []" "sorted (map fst (a ! i))" using assms(1) by (auto simp: runs_ok_def)
  then have "first a i \<le> fst x" using i(2) by (cases "a ! i") (auto simp: first_def)
  then show ?thesis using heap_least [OF assms(2) i(1)] by simp
qed

lemma left_over_first: "0 < n \<Longrightarrow> n \<le> length a \<Longrightarrow> left_over a n = mset (a ! 0) + mset (concat (take (n - 1) (tl a)))"
  by (cases a; cases n) (auto simp: left_over_def)

text \<open>One extraction: the first pair goes, and heap and lists are again in order.\<close>

lemma extract_step:
  assumes "runs_ok a n" "heap_from a n 0" "0 < n"
    and "a1 = a[0 := tl (a ! 0)]" "(a2, n') = (if a1 ! 0 = [] then (a1[0 := a1 ! (n - 1)], n - 1) else (a1, n))"
  shows "\<exists>a3. merge_heapify n' a2 0 = Some a3 \<and> runs_ok a3 n' \<and> heap_from a3 n' 0 \<and>
    left_over a n = add_mset (hd (a ! 0)) (left_over a3 n')"
proof -
  have a0: "a \<noteq> []" "a ! 0 \<noteq> []" "n \<le> length a" "sorted (map fst (a ! 0))" using assms(1,3) by (auto simp: runs_ok_def)
  have le: "left_over a n = add_mset (hd (a ! 0)) (mset (tl (a ! 0)) + mset (concat (take (n - 1) (tl a))))"
    using left_over_first [OF assms(3) a0(3)] a0(2) by (cases "a ! 0") auto
  have nth: "a1 ! i = (if i = 0 then tl (a ! 0) else a ! i)" if "i < n" for i
    using that a0(1,3) assms(4) by (cases i) auto
  have t: "a1 ! 0 = tl (a ! 0)" using nth [of 0] assms(3) by simp
  have e: "n' = (if tl (a ! 0) = [] then n - 1 else n)" "a2 = (if tl (a ! 0) = [] then a1[0 := a1 ! (n - 1)] else a1)"
    using assms(5) unfolding t by (simp_all split: if_splits)
  have a2: "a2 ! i = (if i = 0 then (if tl (a ! 0) = [] then a ! (n - 1) else tl (a ! 0)) else a ! i)" if "i < n'" for i
  proof (cases "tl (a ! 0) = []")
    case True
    then have i: "i < n - 1" using that e(1) by simp
    have "a1 ! (n - 1) = a ! (n - 1)" using nth [of "n - 1"] i by (simp split: if_splits)
    then show ?thesis using True i e(2) nth [of i] a0(1) assms(4) by (cases i) auto
  next
    case False
    then show ?thesis using that e nth [of i] by simp
  qed
  have len: "length a2 = length a" using assms(4,5) by (auto split: if_splits)
  have ok2: "runs_ok a2 n'" unfolding runs_ok_def
  proof (intro conjI allI impI)
    show "n' \<le> length a2" using len a0(3) assms(5) by (auto split: if_splits)
    fix i assume i: "i < n'"
    then have "i < n" using assms(5) by (auto split: if_splits)
    have "n - 1 < n" using assms(3) by simp
    then show "a2 ! i \<noteq> []" "sorted (map fst (a2 ! i))"
      using a2 [OF i] assms(1) \<open>i < n\<close> a0(4) by (auto simp: runs_ok_def map_tl sorted_tl)
  qed
  have le2: "mset (tl (a ! 0)) + mset (concat (take (n - 1) (tl a))) = left_over a2 n'"
  proof (cases "tl (a ! 0) = []")
    case True
    then have e: "n' = n - 1" "a2 = a[0 := [], 0 := a[0 := []] ! (n - 1)]" using e assms(4) by simp_all
    show ?thesis
    proof (cases "n = 1")
      case True
      then show ?thesis using e \<open>tl (a ! 0) = []\<close> by (simp add: left_over_def)
    next
      case False
      then have "a2 = a[0 := a ! (n - 1)]" using e assms(3) by simp
      then have "left_over a2 n' = mset (a ! (n - 1)) + mset (concat (take (n - 2) (tl a)))"
        using left_over_first [of n' a2] e(1) False assms(3) a0(1,3) len by (cases a) (simp_all add: numeral_2_eq_2)
      moreover have "take (n - 1) (tl a) = take (n - 2) (tl a) @ [a ! (n - 1)]"
        using take_Suc_conv_app_nth [of "n - 2" "tl a"] False assms(3) a0(3) by (simp add: nth_tl Suc_diff_Suc numeral_2_eq_2)
      ultimately show ?thesis using True by simp
    qed
  next
    case False
    then have "n' = n" "a2 = a[0 := tl (a ! 0)]" using e assms(4) by simp_all
    then show ?thesis using left_over_first [OF assms(3), of a2] a0(1,3) by (cases a) simp_all
  qed
  show ?thesis
  proof (cases "n' = 0")
    case True
    have "merge_smallest a2 0 0 = Some 0" by (simp add: merge_smallest_def before_def)
    then have "merge_heapify n' a2 0 = Some a2" using True by (simp add: merge_heapify.simps)
    then show ?thesis using True le le2 ok2 by (simp add: heap_from_def)
  next
    case False
    have f: "first a2 i = first a i" if "0 < i" "i < n'" for i using a2 [OF that(2)] that(1) by (simp add: first_def)
    have "first a2 (up j) \<le> first a2 j" if "0 < j" "j < n'" "up j \<noteq> 0" for j
    proof -
      have "j < n" using that(2) e(1) by (simp split: if_splits)
      then have "first a (up j) \<le> first a j" using assms(2) that(1) by (auto simp: heap_from_def)
      then show ?thesis using f [of j] f [of "up j"] that up_less [of j] by simp
    qed
    then have "sinks a2 n' 0 0" by (simp add: sinks_def)
    then obtain a3 where "merge_heapify n' a2 0 = Some a3" "runs_ok a3 n'" "heap_from a3 n' 0" "mset (take n' a3) = mset (take n' a2)"
      using merge_heapify_ok [OF ok2, of 0 0] False by auto
    then show ?thesis using le le2 left_over_cong by metis
  qed
qed

lemma merge_extract_ok:
  "runs_ok a n \<Longrightarrow> heap_from a n 0 \<Longrightarrow> size (left_over a n) = t \<Longrightarrow>
   \<exists>xs. merge_extract t n a = Some xs \<and> mset xs = left_over a n \<and> sorted (map fst xs)"
proof (induction t arbitrary: a n)
  case (Suc t)
  have n: "0 < n" using Suc.prems(3) by (cases n) (auto simp: left_over_def)
  have a0: "a \<noteq> []" "a ! 0 \<noteq> []" "n \<le> length a" using Suc.prems(1) n by (auto simp: runs_ok_def)
  define a1 where "a1 = a[0 := tl (a ! 0)]"
  obtain a2 n' where e: "(a2, n') = (if a1 ! 0 = [] then (a1[0 := a1 ! (n - 1)], n - 1) else (a1, n))" by (metis prod.collapse)
  obtain a3 where a3: "merge_heapify n' a2 0 = Some a3" "runs_ok a3 n'" "heap_from a3 n' 0"
    "left_over a n = add_mset (hd (a ! 0)) (left_over a3 n')"
    using extract_step [OF Suc.prems(1,2) n a1_def e] by blast
  then obtain xs where xs: "merge_extract t n' a3 = Some xs" "mset xs = left_over a3 n'" "sorted (map fst xs)"
    using Suc.IH [OF a3(2,3)] Suc.prems(3) by auto
  have "merge_extract (Suc t) n a = Some (hd (a ! 0) # xs)"
    using a0 n a3(1) xs(1) by (simp add: Let_def a1_def [symmetric] e [symmetric] not_less)
  moreover have "\<forall>x \<in> set xs. fst (hd (a ! 0)) \<le> fst x"
  proof
    fix x assume "x \<in> set xs"
    then have "x \<in># left_over a n" using xs(2) a3(4) by (metis set_mset_mset union_iff set_mset_add_mset_insert insertCI)
    then show "fst (hd (a ! 0)) \<le> fst x" using least_of_all [OF Suc.prems(1,2)] by (simp add: first_def)
  qed
  ultimately show ?case using xs a3(4) by auto
qed (simp add: left_over_def)

lemma Heap_merge_ok:
  assumes "\<And>i. i < length cnt \<Longrightarrow> cnt ! i \<noteq> 0 \<Longrightarrow> start ! i + cnt ! i \<le> length (others ! i) \<and>
      sorted (map fst (take (cnt ! i) (drop (start ! i) (others ! i))))"
    and "nrecv = length (filter (\<lambda>c. c \<noteq> 0) cnt)" "tot = sum_list cnt"
  shows "\<exists>srt. ADIOI_Heap_merge others cnt start nrecv tot = Some srt \<and> sorted (map fst srt) \<and>
    mset srt = mset (concat (map (\<lambda>i. take (cnt ! i) (drop (start ! i) (others ! i))) [0..<length cnt]))"
proof -
  let ?f = "\<lambda>i. take (cnt ! i) (drop (start ! i) (others ! i))"
  define a where "a = map ?f (filter (\<lambda>i. cnt ! i \<noteq> 0) [0..<length cnt])"
  have "map (\<lambda>i. cnt ! i) [0..<length cnt] = cnt" by (rule map_nth)
  then have n: "length a = nrecv" unfolding a_def assms(2)
    by (metis (no_types, lifting) comp_def filter_cong filter_map length_map)
  have all: "\<forall>x \<in> set a. x \<noteq> [] \<and> sorted (map fst x)"
  proof
    fix x assume "x \<in> set a"
    then obtain i where i: "x = ?f i" "i < length cnt" "cnt ! i \<noteq> 0" by (auto simp: a_def)
    then have "start ! i + cnt ! i \<le> length (others ! i)" "sorted (map fst (?f i))" using assms(1) by blast+
    then show "x \<noteq> [] \<and> sorted (map fst x)" using i(1,3) by auto
  qed
  have ok: "runs_ok a nrecv" using all n by (auto simp: runs_ok_def)
  have "heap_from a nrecv (nrecv div 2)" by (auto simp: heap_from_def up_def)
  then obtain a' where a': "merge_build nrecv a (nrecv div 2) = Some a'" "runs_ok a' nrecv" "heap_from a' nrecv 0"
    "mset (take nrecv a') = mset (take nrecv a)"
    using merge_build_ok [OF ok, of "nrecv div 2"] by auto
  have skip: "concat (map ?f (filter (\<lambda>i. cnt ! i \<noteq> 0) xs)) = concat (map ?f xs)" for xs by (induction xs) auto
  have lo: "left_over a' nrecv = mset (concat (map ?f [0..<length cnt]))"
    using left_over_cong [OF a'(4)] n skip by (simp add: left_over_def a_def)
  have "length (concat (map ?f xs)) = sum_list (map ((!) cnt) xs)" if "set xs \<subseteq> {0..<length cnt}" for xs
    using that assms(1)
  proof (induction xs)
    case (Cons x xs)
    have "cnt ! x \<noteq> 0 \<Longrightarrow> start ! x + cnt ! x \<le> length (others ! x)" using Cons.prems by fastforce
    then have "length (?f x) = cnt ! x" by (cases "cnt ! x = 0") auto
    then show ?case using Cons by simp
  qed simp
  then have "size (left_over a' nrecv) = tot" unfolding lo assms(3) by (simp add: map_nth)
  with merge_extract_ok [OF a'(2,3)] lo obtain srt where "merge_extract tot nrecv a' = Some srt" "sorted (map fst srt)"
    "mset srt = mset (concat (map ?f [0..<length cnt]))" by auto
  then show ?thesis
    using a'(1) n unfolding ADIOI_Heap_merge_def a_def [symmetric] Let_def by (intro exI [of _ srt]) simp
qed

end
