(* ===== verification/Coll_Write.thy ===== *)
theory Coll_Write
  imports Sieving Aggregation Heap_Merge
begin

text \<open>
  The collective write (\<open>ad_write_coll.c\<close>): the exchange of the data in rounds and the writes of the
  aggregators. All processes are modelled together; lists over processes are indexed by rank. In a round every process finds out what it is to receive,
  \<open>MPI_Alltoall\<close> tells the others what to send, aggregators read their window when it has holes, the data are sent and
  received, and the windows are written. \<open>None\<close> and \<open>Fault\<close>: a failed assertion, an access out of bounds, a message of the wrong
  length; \<open>Blocked\<close>: processes wait for others that have left the rounds.
\<close>

section \<open>What an aggregator receives in a round\<close>

text \<open>
  What process \<open>i\<close> asks of the aggregator: \<open>others_req[i]\<close>, \<open>curr_offlen_ptr[i]\<close> and \<open>partial_recv[i]\<close>. The entries of \<open>mem_ptrs\<close> are relative
  to \<open>write_buf\<close>.
\<close>

record source =
  s_reqs :: offlens
  s_mems :: "int list"
  s_ptr :: nat
  s_part :: int

function scan_reqs :: "int \<Rightarrow> int \<Rightarrow> offlens \<Rightarrow> int list \<Rightarrow> nat \<Rightarrow> int \<Rightarrow> nat \<Rightarrow> int \<Rightarrow> bool \<Rightarrow>
    (source \<times> nat \<times> int \<times> bool) option" where
  "scan_reqs off sz rqs mems j part cnt recv_size overlap =
     (if j < length rqs then
        (let req_off = fst (rqs ! j) + part;
             req_len = to_int (snd (rqs ! j) - part);
             rqs' = (if part \<noteq> 0 then rqs[j := (req_off, req_len)] else rqs);
             avail = off + sz - req_off
         in if req_off < off + sz then
              (if length mems \<le> j \<or> avail \<noteq> to_int avail then None
               else if avail < to_unsigned req_len then
                 Some (\<lparr>s_reqs = rqs[j := (req_off, req_len)], s_mems = mems[j := req_off - off], s_ptr = j, s_part = to_int avail\<rparr>, cnt + 1,
                   recv_size + to_int (min avail (to_unsigned req_len)),
                   overlap \<or> j + 1 < length rqs \<and> fst (rqs ! (j + 1)) < off + sz)
               else scan_reqs off sz rqs' (mems[j := req_off - off]) (j + 1) 0 (cnt + 1)
                 (recv_size + to_int (min avail (to_unsigned req_len))) overlap)
            else Some (\<lparr>s_reqs = rqs', s_mems = mems, s_ptr = j, s_part = 0\<rparr>, cnt, recv_size, overlap))
      else Some (\<lparr>s_reqs = rqs, s_mems = mems, s_ptr = j, s_part = part\<rparr>, cnt, recv_size, overlap))"
  by pat_completeness auto
termination
  by (relation "measure (\<lambda>(off, sz, rqs, mems, j, _). length rqs - j)") (auto split: if_splits)

declare scan_reqs.simps [simp del]

text \<open>The plan for one source in a round: its state afterwards, \<open>start_pos\<close>, \<open>count\<close>, \<open>recv_size\<close>, and whether requests overlap.\<close>

record plan =
  p_source :: source
  p_start :: nat
  p_count :: nat
  p_recv :: int
  p_overlap :: bool

definition plan_source :: "int \<Rightarrow> int \<Rightarrow> source \<Rightarrow> plan option" where
  "plan_source off sz s =
     (case scan_reqs off sz (s_reqs s) (s_mems s) (s_ptr s) (s_part s) 0 0 False of
        None \<Rightarrow> None
      | Some (s', cnt, recv_size, overlap) \<Rightarrow>
          Some \<lparr>p_source = s', p_start = s_ptr s, p_count = cnt, p_recv = recv_size, p_overlap = overlap\<rparr>)"

text \<open>A process that has done all its writes receives nothing.\<close>

definition plan_nothing :: "source \<Rightarrow> plan" where
  "plan_nothing s = \<lparr>p_source = s, p_start = s_ptr s, p_count = 0, p_recv = 0, p_overlap = False\<rparr>"

section \<open>Holes\<close>

text \<open>The requests with the length of a partial last one set to what is received.\<close>

definition cut_reqs :: "plan \<Rightarrow> offlens" where
  "cut_reqs p = (let rqs = s_reqs (p_source p); k = p_start p + p_count p - 1
     in if s_part (p_source p) \<noteq> 0 then rqs[k := (fst (rqs ! k), s_part (p_source p))] else rqs)"

text \<open>The receive type: blocks of the window with their lengths.\<close>

definition recv_type :: "plan \<Rightarrow> (int \<times> int) list" where
  "recv_type p = zip (take (p_count p) (drop (p_start p) (s_mems (p_source p))))
     (map snd (take (p_count p) (drop (p_start p) (cut_reqs p))))"

text \<open>
  The coalescing of the sorted pairs: the length from the first offset on, and whether all pairs could be joined. \<open>srt_len\<close>
  and \<open>new_len\<close> are of type \<open>int\<close>.
\<close>

fun coalesce :: "int \<Rightarrow> int \<Rightarrow> offlens \<Rightarrow> bool \<times> int" where
  "coalesce off0 len0 [] = (True, len0)"
| "coalesce off0 len0 ((off, len) # xs) =
     (if off \<le> off0 + len0 then
        (let new_len = to_int (to_int off + to_int len - to_int off0)
         in coalesce off0 (if new_len > len0 then new_len else len0) xs)
      else (False, len0))"

definition has_hole :: "int \<Rightarrow> int \<Rightarrow> offlens \<Rightarrow> bool" where
  "has_hole off sz srt = (case srt of
     [] \<Rightarrow> False
   | (off0, len0) # xs \<Rightarrow>
       if off \<noteq> off0 then True
       else (let (joined, len) = coalesce off0 (to_int len0) xs in \<not> joined \<or> sz \<noteq> len))"

definition find_hole :: "int \<Rightarrow> int \<Rightarrow> plan list \<Rightarrow> bool option" where
  "find_hole off sz ps =
     (let cnt = map p_count ps; total = sum_list cnt in
      if total = 0 then Some False
      else map_option (has_hole off sz) (ADIOI_Heap_merge (map cut_reqs ps) cnt (map p_start ps)
        (length (filter (\<lambda>p. p_recv p \<noteq> 0) ps)) total))"

section \<open>What a process sends\<close>

text \<open>
  The place in the user's buffer: offset, block, number of the buffer type, bytes left in the block.
\<close>

type_synonym buf_cursor = "int \<times> nat \<times> int \<times> int"

definition cursor_next :: "buftype \<Rightarrow> buf_cursor \<Rightarrow> int \<Rightarrow> buf_cursor" where
  "cursor_next bt c n = (case c of (user_buf_idx, flat_buf_idx, n_buftypes, flat_buf_sz) \<Rightarrow>
     if flat_buf_sz - n = 0 then
       (let (k, m) = advance (bt_blocks bt) flat_buf_idx n_buftypes
        in (fst (bt_blocks bt ! k) + m * bt_extent bt, k, m, snd (bt_blocks bt ! k)))
     else (user_buf_idx + n, flat_buf_idx, n_buftypes, flat_buf_sz - n))"

definition cursor_left :: "buf_cursor \<Rightarrow> int" where
  "cursor_left c = snd (snd (snd c))"

text \<open>\<open>ADIOI_BUF_INCR\<close>\<close>

partial_function (option) buf_incr :: "buftype \<Rightarrow> buf_cursor \<Rightarrow> int \<Rightarrow> buf_cursor option" where
  "buf_incr bt c incr =
     (if incr = 0 then Some c
      else (let n = min incr (cursor_left c) in buf_incr bt (cursor_next bt c n) (incr - n)))"

text \<open>
  \<open>ADIOI_BUF_COPY\<close>. What is in the cells of the user's memory plays no role for the walk: the definitions are polymorphic in it. It
  copies \<open>sz\<close> bytes behind what is in the send buffer, then skips the rest of \<open>incr\<close>.
\<close>

partial_function (option) buf_copy :: "buftype \<Rightarrow> (int \<Rightarrow> 'a) \<Rightarrow> buf_cursor \<Rightarrow> int \<Rightarrow> int \<Rightarrow> 'a list \<Rightarrow> (buf_cursor \<times> 'a list) option" where
  "buf_copy bt m c sz incr acc =
     (if sz = 0 then map_option (\<lambda>c. (c, acc)) (buf_incr bt c incr)
      else (let n = min sz (cursor_left c) in
        buf_copy bt m (cursor_next bt c n) (sz - n) (incr - n) (acc @ map m [fst c..fst c + n - 1])))"

text \<open>
  One turn of the inner loop of \<open>ADIOI_Fill_send_buffer\<close>, for a piece of \<open>len\<close> bytes that goes to aggregator \<open>p\<close>. \<open>send_buf_idx[p]\<close> is the
  length of what is in \<open>send_buf[p]\<close>.
\<close>

definition fill_piece :: "buftype \<Rightarrow> (int \<Rightarrow> 'a) \<Rightarrow> int list \<Rightarrow> int list \<Rightarrow> nat \<Rightarrow> int \<Rightarrow>
    buf_cursor \<times> int list \<times> 'a list list \<Rightarrow> (buf_cursor \<times> int list \<times> 'a list list) option" where
  "fill_piece bt m send_size done_to p len = (\<lambda>(c, curr, sbufs).
     if length send_size \<le> p \<or> length done_to \<le> p \<or> length curr \<le> p \<or> length sbufs \<le> p then None
     else if int (length (sbufs ! p)) < send_size ! p then
       (if curr ! p + len > done_to ! p then
          (if done_to ! p > curr ! p then
             (let rest = curr ! p + len - done_to ! p; sz = min rest (send_size ! p - int (length (sbufs ! p)))
              in if rest \<noteq> to_unsigned rest \<or> done_to ! p + sz \<noteq> to_unsigned (done_to ! p + sz) then None
                 else do {
                   c1 \<leftarrow> buf_incr bt c (done_to ! p - curr ! p);
                   (c2, b) \<leftarrow> buf_copy bt m c1 sz rest (sbufs ! p);
                   Some (c2, curr[p := to_int (done_to ! p + to_int sz)], sbufs[p := b]) })
           else
             (let sz = min len (send_size ! p - int (length (sbufs ! p)))
              in if curr ! p + sz \<noteq> to_unsigned (curr ! p + sz) then None
                 else do {
                   (c2, b) \<leftarrow> buf_copy bt m c sz len (sbufs ! p);
                   Some (c2, curr[p := to_int (curr ! p + sz)], sbufs[p := b]) }))
        else if curr ! p + len \<noteq> to_unsigned (curr ! p + len) then None
        else do { c1 \<leftarrow> buf_incr bt c len; Some (c1, curr[p := to_int (curr ! p + len)], sbufs) })
     else do { c1 \<leftarrow> buf_incr bt c len; Some (c1, curr, sbufs) })"

fun fill_pieces :: "buftype \<Rightarrow> (int \<Rightarrow> 'a) \<Rightarrow> int list \<Rightarrow> int list \<Rightarrow> (nat \<times> int \<times> int) list \<Rightarrow>
    buf_cursor \<times> int list \<times> 'a list list \<Rightarrow> (buf_cursor \<times> int list \<times> 'a list list) option" where
  "fill_pieces bt m send_size done_to [] st = Some st"
| "fill_pieces bt m send_size done_to ((p, off, len) # ps) st = do {
     st' \<leftarrow> fill_piece bt m send_size done_to p len st;
     fill_pieces bt m send_size done_to ps st' }"

text \<open>
  The result: the send buffers and \<open>sent_to_proc\<close> afterwards. A buffer is sent when it is full; one that is never full is not sent.
\<close>

definition ADIOI_Fill_send_buffer ::
  "buftype \<Rightarrow> (int \<Rightarrow> 'a) \<Rightarrow> (int \<Rightarrow> int \<Rightarrow> (nat \<times> int) option) \<Rightarrow> (int \<times> int) list \<Rightarrow> int list \<Rightarrow> int list \<Rightarrow>
   ('a list list \<times> int list) option" where
  "ADIOI_Fill_send_buffer bt m agg accesses send_size sent_to_proc =
     (if bt_blocks bt = [] then None
      else do {
        ps \<leftarrow> all_pieces agg accesses;
        (c, curr, sbufs) \<leftarrow> fill_pieces bt m send_size sent_to_proc ps
          ((fst (bt_blocks bt ! 0), 0, 0, snd (bt_blocks bt ! 0)), replicate (length send_size) 0, replicate (length send_size) []);
        Some (sbufs, map (\<lambda>i. if send_size ! i \<noteq> 0 then curr ! i else sent_to_proc ! i) [0..<length send_size]) })"

text \<open>The sender: its buffer, the accesses, \<open>buf_idx\<close> and \<open>sent_to_proc\<close>.\<close>

record 'a sender =
  d_type :: buftype
  d_mem :: "int \<Rightarrow> 'a"
  d_accesses :: "(int \<times> int) list"
  d_buf_idx :: "int list"
  d_sent :: "int list"

definition send_data :: "(int \<Rightarrow> int \<Rightarrow> (nat \<times> int) option) \<Rightarrow> int list \<Rightarrow> 'a sender \<Rightarrow> ('a list list \<times> 'a sender) option" where
  "send_data agg send_size d =
     (if bt_is_contig (d_type d) then
        (if length (d_buf_idx d) \<noteq> length send_size then None
         else Some (map (\<lambda>i. map (d_mem d) [d_buf_idx d ! i..d_buf_idx d ! i + send_size ! i - 1]) [0..<length send_size],
           d\<lparr>d_buf_idx := map (\<lambda>i. d_buf_idx d ! i + send_size ! i) [0..<length send_size]\<rparr>))
      else if \<forall>n \<in> set send_size. n = 0 then Some (map (\<lambda>_. []) send_size, d)
      else (case ADIOI_Fill_send_buffer (d_type d) (d_mem d) agg (d_accesses d) send_size (d_sent d) of
          None \<Rightarrow> None
        | Some (bufs, sent) \<Rightarrow> Some (bufs, d\<lparr>d_sent := sent\<rparr>)))"

section \<open>A round\<close>

text \<open>The receive of one message into the blocks of its type.\<close>

fun recv_into :: "(int \<times> int) list \<Rightarrow> byte list \<Rightarrow> byte list \<Rightarrow> byte list option" where
  "recv_into [] msg w = (if msg = [] then Some w else None)"
| "recv_into ((p, len) # bs) msg w =
     (if len < 0 \<or> int (length msg) < len then None
      else (case memcpy_at w p (take (nat len) msg) of None \<Rightarrow> None | Some w' \<Rightarrow> recv_into bs (drop (nat len) msg) w'))"

text \<open>\<open>plans\<close> and \<open>msgs\<close> are indexed by the rank of the sender.\<close>

fun recv_all :: "(plan \<times> byte list) list \<Rightarrow> byte list \<Rightarrow> byte list option" where
  "recv_all [] w = Some w"
| "recv_all ((p, msg) # xs) w =
     (if p_recv p = 0 then recv_all xs w
      else (case recv_into (recv_type p) msg w of None \<Rightarrow> None | Some w' \<Rightarrow> recv_all xs w'))"

text \<open>
  An aggregator: what the others ask of it, the window in \<open>write_buf\<close>, the range of its writes, and how far it is. A process that
  does not write has \<open>a_ntimes = 0\<close>.
\<close>

record aggregator =
  a_sources :: "source list"
  a_buf :: "byte list"
  a_st :: int
  a_end :: int
  a_ntimes :: nat
  a_off :: int
  a_done :: int

definition round_size :: "int \<Rightarrow> aggregator \<Rightarrow> int" where
  "round_size coll_bufsize a = min (to_unsigned coll_bufsize) (a_end a - a_st a + 1 - a_done a)"

definition plan_round :: "int \<Rightarrow> nat \<Rightarrow> aggregator \<Rightarrow> plan list option" where
  "plan_round coll_bufsize r a =
     (if r < a_ntimes a then those (map (plan_source (a_off a) (round_size coll_bufsize a)) (a_sources a))
      else Some (map plan_nothing (a_sources a)))"

text \<open>The read of a window with holes. An error leaves the aggregator before it has posted its receives, and its senders wait.\<close>

definition read_holes :: "'s sieve_ops \<Rightarrow> int \<Rightarrow> plan list \<Rightarrow> aggregator \<Rightarrow> 's \<Rightarrow> (aggregator \<times> 's) outcome" where
  "read_holes ops coll_bufsize ps a s =
     (case find_hole (a_off a) (round_size coll_bufsize a) ps of
        None \<Rightarrow> Fault
      | Some hole \<Rightarrow>
          if hole \<and> (\<exists>p \<in> set ps. p_recv p \<noteq> 0) then
            (case sv_read ops (round_size coll_bufsize a) (a_off a) s of
               None \<Rightarrow> Fault
             | Some (e, bs, s') \<Rightarrow>
                 if e \<noteq> MPI_OK then Blocked
                 else (case memcpy_at (a_buf a) 0 bs of None \<Rightarrow> Fault | Some w \<Rightarrow> Done (a\<lparr>a_buf := w\<rparr>, s')))
          else Done (a, s))"

fun read_round :: "'s sieve_ops \<Rightarrow> int \<Rightarrow> plan list list \<Rightarrow> aggregator list \<Rightarrow> 's \<Rightarrow> (aggregator list \<times> 's) outcome" where
  "read_round ops coll_bufsize (ps # pss) (a # as) s =
     obind (read_holes ops coll_bufsize ps a s) (\<lambda>(a', s').
       obind (read_round ops coll_bufsize pss as s') (\<lambda>(as', s''). Done (a' # as', s'')))"
| "read_round ops coll_bufsize _ _ s = Done ([], s)"

text \<open>The window after the receives; \<open>msgs\<close> has for every process the message it sent.\<close>

definition recv_round :: "plan list \<Rightarrow> byte list list \<Rightarrow> aggregator \<Rightarrow> aggregator option" where
  "recv_round ps msgs a = map_option (\<lambda>w. a\<lparr>a_buf := w, a_sources := map p_source ps\<rparr>) (recv_all (zip ps msgs) (a_buf a))"

text \<open>
  The write of a window, if something was received, and the step to the next window. \<open>e\<close> is \<open>error_code\<close> before the round. With an error, of before or because
  requests overlap, the process returns after the exchange.
\<close>

definition write_step :: "'s sieve_ops \<Rightarrow> int \<Rightarrow> nat \<Rightarrow> mpi_error \<Rightarrow> plan list \<Rightarrow> aggregator \<Rightarrow> 's \<Rightarrow> (mpi_error \<times> aggregator \<times> 's) option" where
  "write_step ops coll_bufsize r e ps a s =
     (let sz = round_size coll_bufsize a; a' = a\<lparr>a_off := a_off a + sz, a_done := a_done a + sz\<rparr> in
      if a_ntimes a \<le> r then Some (e, a, s)
      else if \<exists>p \<in> set ps. p_overlap p then Some (MPI_ERR_ARG, a, s)
      else if e \<noteq> MPI_OK then Some (e, a, s)
      else if \<exists>p \<in> set ps. p_count p \<noteq> 0 then
        (if int (length (a_buf a)) < sz \<or> sz \<noteq> to_int sz then None
         else (case sv_write ops (take (nat sz) (a_buf a)) (a_off a) s of
             None \<Rightarrow> None
           | Some (e', s') \<Rightarrow> Some (e', a', s')))
      else Some (MPI_OK, a', s))"

fun write_round :: "'s sieve_ops \<Rightarrow> int \<Rightarrow> nat \<Rightarrow> mpi_error list \<Rightarrow> plan list list \<Rightarrow> aggregator list \<Rightarrow> 's \<Rightarrow> (mpi_error list \<times> aggregator list \<times> 's) option" where
  "write_round ops coll_bufsize r (e # es) (ps # pss) (a # as) s =
     (case write_step ops coll_bufsize r e ps a s of
        None \<Rightarrow> None
      | Some (e', a', s') \<Rightarrow> map_option (\<lambda>(es', as', s''). (e' # es', a' # as', s'')) (write_round ops coll_bufsize r es pss as s'))"
| "write_round ops coll_bufsize r _ _ _ s = Some ([], [], s)"

text \<open>The exchange of the data of one round, by all processes.\<close>

definition ADIOI_W_Exchange_data :: "'s sieve_ops \<Rightarrow> (int \<Rightarrow> int \<Rightarrow> (nat \<times> int) option) \<Rightarrow> int \<Rightarrow> plan list list \<Rightarrow>
    byte sender list \<times> aggregator list \<times> 's \<Rightarrow> (byte sender list \<times> aggregator list \<times> 's) outcome" where
  "ADIOI_W_Exchange_data ops agg coll_bufsize pss = (\<lambda>(ds, as, s).
     obind (read_round ops coll_bufsize pss as s) (\<lambda>(as1, s1).
     obind (of_option (those (map (\<lambda>i. send_data agg (map (\<lambda>ps. p_recv (ps ! i)) pss) (ds ! i)) [0..<length ds]))) (\<lambda>sent.
     obind (of_option (those (map (\<lambda>p. recv_round (pss ! p) (map (\<lambda>x. fst x ! p) sent) (as1 ! p)) [0..<length as1]))) (\<lambda>as2.
       Done (map snd sent, as2, s1)))))"

text \<open>One round; \<open>es\<close> are the error codes of the processes.\<close>

definition exch_round :: "'s sieve_ops \<Rightarrow> (int \<Rightarrow> int \<Rightarrow> (nat \<times> int) option) \<Rightarrow> int \<Rightarrow> nat \<Rightarrow> mpi_error list \<Rightarrow>
    byte sender list \<times> aggregator list \<times> 's \<Rightarrow> (mpi_error list \<times> byte sender list \<times> aggregator list \<times> 's) outcome" where
  "exch_round ops agg coll_bufsize r es = (\<lambda>(ds, as, s).
     obind (of_option (those (map (plan_round coll_bufsize r) as))) (\<lambda>pss.
     obind (ADIOI_W_Exchange_data ops agg coll_bufsize pss (ds, as, s)) (\<lambda>(ds', as', s').
     obind (of_option (write_round ops coll_bufsize r es pss as' s')) (\<lambda>(es', as'', s'').
       Done (es', ds', as'', s'')))))"

text \<open>
  The rounds. A process with an error leaves; when there is another round, processes without one wait for it in \<open>MPI_Alltoall\<close>.
\<close>

fun exch_rounds :: "'s sieve_ops \<Rightarrow> (int \<Rightarrow> int \<Rightarrow> (nat \<times> int) option) \<Rightarrow> int \<Rightarrow> nat \<Rightarrow> nat \<Rightarrow> mpi_error list \<Rightarrow>
    byte sender list \<times> aggregator list \<times> 's \<Rightarrow> (mpi_error list \<times> 's) outcome" where
  "exch_rounds ops agg coll_bufsize r 0 es (ds, as, s) = Done (es, s)"
| "exch_rounds ops agg coll_bufsize r (Suc n) es st =
     obind (exch_round ops agg coll_bufsize r es st) (\<lambda>(es', ds, as, s).
       if \<forall>e \<in> set es'. e = MPI_OK then exch_rounds ops agg coll_bufsize (Suc r) n es' (ds, as, s)
       else if n = 0 \<or> (\<forall>e \<in> set es'. e \<noteq> MPI_OK) then Done (es', s) else Blocked)"

section \<open>\<open>ADIOI_Exch_and_write\<close>\<close>

text \<open>The range of the requests; \<open>-1\<close> when there are none.\<close>

definition start_loc :: "offlens list \<Rightarrow> int" where
  "start_loc others = (case filter (\<lambda>r. r \<noteq> []) others of [] \<Rightarrow> -1 | r # _ \<Rightarrow> fst (hd r))"

definition st_loc :: "offlens list \<Rightarrow> int" where
  "st_loc others = fold (\<lambda>r x. fold (\<lambda>(off, len) x. min x off) r x) others (start_loc others)"

definition end_loc :: "offlens list \<Rightarrow> int" where
  "end_loc others = fold (\<lambda>r x. fold (\<lambda>(off, len) x. max x (off + len - 1)) r x) others (start_loc others)"

definition init_aggregator :: "int \<Rightarrow> offlens list \<Rightarrow> byte list \<Rightarrow> aggregator" where
  "init_aggregator coll_bufsize others io_buf =
     (let st = st_loc others; en = end_loc others;
          ntimes = to_int ((en - st + coll_bufsize) sdiv coll_bufsize)
      in \<lparr>a_sources = map (\<lambda>r. \<lparr>s_reqs = r, s_mems = map (\<lambda>_. 0) r, s_ptr = 0, s_part = 0\<rparr>) others, a_buf = io_buf,
           a_st = st, a_end = en, a_ntimes = (if st = -1 \<and> en = -1 then 0 else nat ntimes), a_off = st, a_done = 0\<rparr>)"

text \<open>
  The space for the file domains in the cache files: \<open>rets\<close> are the results of the system call in every process, \<open>max_error\<close> is the greatest of the error codes as
  \<open>MPI_Allreduce\<close> finds it, and \<open>revert\<close> flushes and closes the caches, so that writes go to the global file. The result is \<open>error_code\<close> of every process.
\<close>

definition cache_space :: "(mpi_error list \<Rightarrow> mpi_error) \<Rightarrow> ('s \<Rightarrow> 's) \<Rightarrow> bool \<Rightarrow> bool \<Rightarrow> errno option list \<Rightarrow> 's \<Rightarrow> mpi_error list \<times> 's" where
  "cache_space max_error revert cache_open cache_enabled rets s =
     (if \<not> cache_open then (map (\<lambda>_. MPI_OK) rets, s)
      else (let es = map ADIOI_Cache_alloc rets in
        if cache_enabled then
          (let e = max_error es in (map (\<lambda>_. e) es, if e \<noteq> MPI_OK then revert s else s))
        else (es, s)))"

text \<open>
  \<open>others\<close> and \<open>io_bufs\<close> are indexed by rank, \<open>es\<close> are the error codes after the allocation of cache space. The result is the error of every process.
\<close>

definition ADIOI_Exch_and_write :: "'s sieve_ops \<Rightarrow> (int \<Rightarrow> int \<Rightarrow> (nat \<times> int) option) \<Rightarrow> int \<Rightarrow> mpi_error list \<Rightarrow> byte sender list \<Rightarrow> offlens list list \<Rightarrow> byte list list \<Rightarrow> 's \<Rightarrow>
    (mpi_error list \<times> 's) outcome" where
  "ADIOI_Exch_and_write ops agg coll_bufsize es ds others io_bufs s =
     (if coll_bufsize = 0 then Fault
      else (let as = map (\<lambda>(o1, b). init_aggregator coll_bufsize o1 b) (zip others io_bufs);
                max_ntimes = fold max (map a_ntimes as) 0
            in exch_rounds ops agg coll_bufsize 0 max_ntimes es (ds, as, s)))"

end
