(* ===== verification/Coll_Read.thy ===== *)
theory Coll_Read
  imports Coll_Write
begin

text \<open>
  The collective read (\<open>ad_read_coll.c\<close>): in every round the aggregators read a window, find out which requests it satisfies, and send the
  bytes; the processes put them into their buffers. The scan of the requests is the one of the collective write, and so are the records of
  \<open>Coll_Write\<close>: of a \<open>plan\<close>, \<open>p_recv\<close> is here \<open>send_size\<close> and \<open>s_part\<close> is \<open>partial_send\<close>; of a \<open>sender\<close>, which receives here,
  \<open>d_sent\<close> is \<open>recd_from_proc\<close>. Errors are as there.
\<close>

section \<open>Placing what was received\<close>

definition store :: "(int \<Rightarrow> byte) \<Rightarrow> int \<Rightarrow> byte list \<Rightarrow> int \<Rightarrow> byte" where
  "store m a bs = (\<lambda>x. if a \<le> x \<and> x < a + int (length bs) then bs ! nat (x - a) else m x)"

text \<open>\<open>ADIOI_BUF_COPY\<close> of \<open>ad_read_coll.c\<close>: from \<open>recv_buf[p]\<close> at \<open>recv_buf_idx[p]\<close> to the user's buffer.\<close>

partial_function (option) buf_fill :: "buftype \<Rightarrow> byte list \<Rightarrow> buf_cursor \<Rightarrow> int \<Rightarrow> int \<Rightarrow> int \<Rightarrow> (int \<Rightarrow> byte) \<Rightarrow> (buf_cursor \<times> int \<times> (int \<Rightarrow> byte)) option" where
  "buf_fill bt rbuf c sz incr idx m =
     (if sz = 0 then map_option (\<lambda>c. (c, idx, m)) (buf_incr bt c incr)
      else (let n = min sz (cursor_left c) in
        if int (length rbuf) < idx + n then None
        else buf_fill bt rbuf (cursor_next bt c n) (sz - n) (incr - n) (idx + n) (store m (fst c) (take (nat n) (drop (nat idx) rbuf)))))"

text \<open>
  One turn of the inner loop of \<open>ADIOI_Fill_user_buffer\<close>, for a piece of \<open>len\<close> bytes that comes from aggregator \<open>p\<close>. The counters are
  \<open>unsigned\<close>. The state: cursor, \<open>curr_from_proc\<close>, \<open>recv_buf_idx\<close>, memory.
\<close>

definition user_piece :: "buftype \<Rightarrow> byte list list \<Rightarrow> int list \<Rightarrow> int list \<Rightarrow> nat \<Rightarrow> int \<Rightarrow>
    buf_cursor \<times> int list \<times> int list \<times> (int \<Rightarrow> byte) \<Rightarrow> (buf_cursor \<times> int list \<times> int list \<times> (int \<Rightarrow> byte)) option" where
  "user_piece bt rbufs recv_size done_from p len = (\<lambda>(c, curr, idx, m).
     if length recv_size \<le> p \<or> length done_from \<le> p \<or> length curr \<le> p \<or> length idx \<le> p \<or> length rbufs \<le> p then None
     else if idx ! p < recv_size ! p then
       (if curr ! p + len > done_from ! p then
          (if done_from ! p > curr ! p then
             (let sz = min (curr ! p + len - done_from ! p) (recv_size ! p - idx ! p)
              in if done_from ! p + sz \<noteq> to_unsigned (done_from ! p + sz) then None
                 else do {
                   c1 \<leftarrow> buf_incr bt c (done_from ! p - curr ! p);
                   (c2, i, m') \<leftarrow> buf_fill bt (rbufs ! p) c1 sz (curr ! p + len - done_from ! p) (idx ! p) m;
                   Some (c2, curr[p := done_from ! p + sz], idx[p := i], m') })
           else
             (let sz = min len (recv_size ! p - idx ! p)
              in if curr ! p + sz \<noteq> to_unsigned (curr ! p + sz) then None
                 else do {
                   (c2, i, m') \<leftarrow> buf_fill bt (rbufs ! p) c sz len (idx ! p) m;
                   Some (c2, curr[p := curr ! p + sz], idx[p := i], m') }))
        else if curr ! p + len \<noteq> to_unsigned (curr ! p + len) then None
        else do { c1 \<leftarrow> buf_incr bt c len; Some (c1, curr[p := curr ! p + len], idx, m) })
     else do { c1 \<leftarrow> buf_incr bt c len; Some (c1, curr, idx, m) })"

fun user_pieces :: "buftype \<Rightarrow> byte list list \<Rightarrow> int list \<Rightarrow> int list \<Rightarrow> (nat \<times> int \<times> int) list \<Rightarrow>
    buf_cursor \<times> int list \<times> int list \<times> (int \<Rightarrow> byte) \<Rightarrow> (buf_cursor \<times> int list \<times> int list \<times> (int \<Rightarrow> byte)) option" where
  "user_pieces bt rbufs recv_size done_from [] st = Some st"
| "user_pieces bt rbufs recv_size done_from ((p, off, len) # ps) st = do {
     st' \<leftarrow> user_piece bt rbufs recv_size done_from p len st;
     user_pieces bt rbufs recv_size done_from ps st' }"

text \<open>The result: \<open>recd_from_proc\<close> and memory afterwards.\<close>

definition ADIOI_Fill_user_buffer ::
  "buftype \<Rightarrow> (int \<Rightarrow> byte) \<Rightarrow> byte list list \<Rightarrow> (int \<Rightarrow> int \<Rightarrow> (nat \<times> int) option) \<Rightarrow> (int \<times> int) list \<Rightarrow> int list \<Rightarrow> int list \<Rightarrow>
   (int list \<times> (int \<Rightarrow> byte)) option" where
  "ADIOI_Fill_user_buffer bt m rbufs agg accesses recv_size recd_from_proc =
     (if bt_blocks bt = [] then None
      else do {
        ps \<leftarrow> all_pieces agg accesses;
        (c, curr, idx, m') \<leftarrow> user_pieces bt rbufs (map to_unsigned recv_size) (map to_unsigned recd_from_proc) ps
          ((fst (bt_blocks bt ! 0), 0, 0, snd (bt_blocks bt ! 0)), replicate (length recv_size) 0, replicate (length recv_size) 0, m);
        Some (map (\<lambda>i. if recv_size ! i \<noteq> 0 then to_int (curr ! i) else recd_from_proc ! i) [0..<length recv_size], m') })"

text \<open>The receives of a process in a round; \<open>msgs\<close> are the messages of the aggregators, by rank. A message of another length than the receive is a fault.\<close>

definition recv_data :: "(int \<Rightarrow> int \<Rightarrow> (nat \<times> int) option) \<Rightarrow> int list \<Rightarrow> byte list list \<Rightarrow> byte sender \<Rightarrow> byte sender option" where
  "recv_data agg recv_size msgs d =
     (if length msgs \<noteq> length recv_size \<or> (\<exists>i < length msgs. int (length (msgs ! i)) \<noteq> recv_size ! i) then None
      else if bt_is_contig (d_type d) then
        (if length (d_buf_idx d) \<noteq> length recv_size then None
         else Some (d\<lparr>d_mem := fold (\<lambda>(a, bs) m. store m a bs) (zip (d_buf_idx d) msgs) (d_mem d),
           d_buf_idx := map (\<lambda>i. d_buf_idx d ! i + recv_size ! i) [0..<length recv_size]\<rparr>))
      else if \<forall>n \<in> set recv_size. n = 0 then Some d
      else (case ADIOI_Fill_user_buffer (d_type d) (d_mem d) msgs agg (d_accesses d) recv_size (d_sent d) of
          None \<Rightarrow> None
        | Some (recd, m) \<Rightarrow> Some (d\<lparr>d_mem := m, d_sent := recd\<rparr>)))"

section \<open>A round\<close>

text \<open>An aggregator with \<open>for_curr_iter\<close>, the bytes at the end of the last window that are kept in front of the next.\<close>

type_synonym reader = "aggregator \<times> int"

definition read_plan :: "int \<Rightarrow> nat \<Rightarrow> reader \<Rightarrow> plan list option" where
  "read_plan coll_bufsize r = (\<lambda>(a, for_curr_iter).
     if r < a_ntimes a then those (map (plan_source (a_off a - for_curr_iter) (round_size coll_bufsize a + for_curr_iter)) (a_sources a))
     else Some (map plan_nothing (a_sources a)))"

text \<open>\<open>for_next_iter\<close>: as far back as the next request of a process whose last one is cut off.\<close>

definition keep_for_next :: "int \<Rightarrow> int \<Rightarrow> plan list \<Rightarrow> int" where
  "keep_for_next real_off real_size ps =
     fold (\<lambda>p x. if p_overlap p then max x (real_off + real_size - fst (s_reqs (p_source p) ! (s_ptr (p_source p) + 1))) else x) ps 0"

text \<open>The read of a window, behind what was kept, when it satisfies a request.\<close>

definition read_step :: "'s sieve_ops \<Rightarrow> int \<Rightarrow> nat \<Rightarrow> plan list \<Rightarrow> reader \<Rightarrow> 's \<Rightarrow> (mpi_error \<times> reader \<times> 's) option" where
  "read_step ops coll_bufsize r ps = (\<lambda>(a, for_curr_iter) s.
     if r < a_ntimes a \<and> (\<exists>p \<in> set ps. p_count p \<noteq> 0) then
       (let sz = round_size coll_bufsize a in
        if sz \<noteq> to_int sz then None
        else (case sv_read ops sz (a_off a) s of
            None \<Rightarrow> None
          | Some (e, bs, s') \<Rightarrow>
              if e \<noteq> MPI_OK then Some (e, (a, for_curr_iter), s')
              else map_option (\<lambda>w. (MPI_OK, (a\<lparr>a_buf := w\<rparr>, for_curr_iter), s')) (memcpy_at (a_buf a) for_curr_iter bs)))
     else Some (MPI_OK, (a, for_curr_iter), s))"

fun read_steps :: "'s sieve_ops \<Rightarrow> int \<Rightarrow> nat \<Rightarrow> plan list list \<Rightarrow> reader list \<Rightarrow> 's \<Rightarrow> (mpi_error list \<times> reader list \<times> 's) option" where
  "read_steps ops coll_bufsize r (ps # pss) (a # as) s =
     (case read_step ops coll_bufsize r ps a s of
        None \<Rightarrow> None
      | Some (e, a', s') \<Rightarrow> map_option (\<lambda>(es, as', s''). (e # es, a' # as', s'')) (read_steps ops coll_bufsize r pss as s'))"
| "read_steps ops coll_bufsize r _ _ s = Some ([], [], s)"

text \<open>The messages of an aggregator: the blocks of the send types.\<close>

fun send_from :: "(int \<times> int) list \<Rightarrow> byte list \<Rightarrow> byte list option" where
  "send_from [] w = Some []"
| "send_from ((p, len) # bs) w =
     (if p < 0 \<or> len < 0 \<or> int (length w) < p + len then None
      else map_option (\<lambda>xs. take (nat len) (drop (nat p) w) @ xs) (send_from bs w))"

definition send_window :: "plan list \<Rightarrow> byte list \<Rightarrow> byte list list option" where
  "send_window ps w = those (map (\<lambda>p. if p_recv p = 0 then Some [] else send_from (recv_type p) w) ps)"

text \<open>The exchange of the data of one round, by all processes.\<close>

definition ADIOI_R_Exchange_data :: "(int \<Rightarrow> int \<Rightarrow> (nat \<times> int) option) \<Rightarrow> plan list list \<Rightarrow> reader list \<Rightarrow> byte sender list \<Rightarrow> byte sender list option" where
  "ADIOI_R_Exchange_data agg pss as ds = do {
     msgs \<leftarrow> those (map (\<lambda>(ps, a, _). send_window ps (a_buf a)) (zip pss as));
     those (map (\<lambda>i. recv_data agg (map (\<lambda>ps. p_recv (ps ! i)) pss) (map (\<lambda>m. m ! i) msgs) (ds ! i)) [0..<length ds]) }"

text \<open>The step to the next window. When bytes are kept the buffer is allocated anew; \<open>fresh n\<close> are \<open>n\<close> bytes of allocated memory.\<close>

definition next_read :: "(nat \<Rightarrow> byte list) \<Rightarrow> int \<Rightarrow> nat \<Rightarrow> plan list \<Rightarrow> reader \<Rightarrow> reader option" where
  "next_read fresh coll_bufsize r ps = (\<lambda>(a, for_curr_iter).
     if r < a_ntimes a then
       (let sz = round_size coll_bufsize a; real_size = sz + for_curr_iter; k = keep_for_next (a_off a - for_curr_iter) real_size ps;
            a' = a\<lparr>a_sources := map p_source ps, a_off := a_off a + sz, a_done := a_done a + sz\<rparr>
        in if k = 0 then Some (a', 0)
           else if real_size < k \<or> int (length (a_buf a)) < real_size then None
           else Some (a'\<lparr>a_buf := take (nat k) (drop (nat (real_size - k)) (a_buf a)) @ fresh (nat coll_bufsize)\<rparr>, k))
     else Some (a\<lparr>a_sources := map p_source ps\<rparr>, for_curr_iter))"

text \<open>
  One round. A process whose read fails returns at once; the others wait for it in \<open>MPI_Alltoall\<close>, unless there are none.
\<close>

definition input_round :: "'s sieve_ops \<Rightarrow> (nat \<Rightarrow> byte list) \<Rightarrow> (int \<Rightarrow> int \<Rightarrow> (nat \<times> int) option) \<Rightarrow> int \<Rightarrow> nat \<Rightarrow>
    byte sender list \<times> reader list \<times> 's \<Rightarrow> (mpi_error list \<times> byte sender list \<times> reader list \<times> 's) outcome" where
  "input_round ops fresh agg coll_bufsize r = (\<lambda>(ds, as, s).
     obind (of_option (those (map (read_plan coll_bufsize r) as))) (\<lambda>pss.
     obind (of_option (read_steps ops coll_bufsize r pss as s)) (\<lambda>(es, as1, s1).
       if \<forall>e \<in> set es. e = MPI_OK then
         obind (of_option (ADIOI_R_Exchange_data agg pss as1 ds)) (\<lambda>ds'.
         obind (of_option (those (map (\<lambda>(ps, a). next_read fresh coll_bufsize r ps a) (zip pss as1)))) (\<lambda>as2.
           Done (es, ds', as2, s1)))
       else if \<forall>e \<in> set es. e \<noteq> MPI_OK then Done (es, ds, as1, s1) else Blocked)))"

fun input_rounds :: "'s sieve_ops \<Rightarrow> (nat \<Rightarrow> byte list) \<Rightarrow> (int \<Rightarrow> int \<Rightarrow> (nat \<times> int) option) \<Rightarrow> int \<Rightarrow> nat \<Rightarrow> nat \<Rightarrow>
    byte sender list \<times> reader list \<times> 's \<Rightarrow> (mpi_error list \<times> byte sender list \<times> 's) outcome" where
  "input_rounds ops fresh agg coll_bufsize r 0 (ds, as, s) = Done (map (\<lambda>_. MPI_OK) ds, ds, s)"
| "input_rounds ops fresh agg coll_bufsize r (Suc n) st =
     obind (input_round ops fresh agg coll_bufsize r st) (\<lambda>(es, ds, as, s).
       if \<forall>e \<in> set es. e = MPI_OK then input_rounds ops fresh agg coll_bufsize (Suc r) n (ds, as, s) else Done (es, ds, s))"

section \<open>\<open>ADIOI_Read_and_exch\<close>\<close>

text \<open>\<open>others\<close> and \<open>io_bufs\<close> are indexed by rank. A process without requests does not divide by the size of the buffer.\<close>

definition ADIOI_Read_and_exch :: "'s sieve_ops \<Rightarrow> (nat \<Rightarrow> byte list) \<Rightarrow> (int \<Rightarrow> int \<Rightarrow> (nat \<times> int) option) \<Rightarrow> int \<Rightarrow> byte sender list \<Rightarrow> offlens list list \<Rightarrow>
    byte list list \<Rightarrow> 's \<Rightarrow> (mpi_error list \<times> byte sender list \<times> 's) outcome" where
  "ADIOI_Read_and_exch ops fresh agg coll_bufsize ds others io_bufs s =
     (if coll_bufsize = 0 \<and> (\<exists>o1 \<in> set others. \<not> (st_loc o1 = -1 \<and> end_loc o1 = -1)) then Fault
      else (let as = map (\<lambda>(o1, b). (init_aggregator coll_bufsize o1 b, 0)) (zip others io_bufs);
                max_ntimes = fold max (map (\<lambda>(a, _). a_ntimes a) as) 0
            in input_rounds ops fresh agg coll_bufsize 0 max_ntimes (ds, as, s)))"

end
