(* ===== verification/Coll_Send.thy ===== *)
theory Coll_Send
  imports Coll_Write
begin

text \<open>
  The senders of the collective write: in every round a process sends an aggregator the next bytes it has for it, from a contiguous buffer
  as from one with holes, where \<open>ADIOI_Fill_send_buffer\<close> walks through buffer and accesses from the start in every round.
\<close>

section \<open>Walking through the buffer\<close>

definition buf_at :: "buftype \<Rightarrow> int \<Rightarrow> buf_cursor \<Rightarrow> bool" where
  "buf_at bt k c \<longleftrightarrow> (case c of (x, j, n, f) \<Rightarrow> \<exists>r. at_cursor (mem_view bt) n j r k x \<and> f = snd (bt_blocks bt ! j) - r)"

definition buf_idle :: "buftype \<Rightarrow> buf_cursor \<Rightarrow> nat" where
  "buf_idle bt c = (case c of (x, j, n, f) \<Rightarrow> idle (mem_view bt) j f)"

abbreviation walkable_buf :: "buftype \<Rightarrow> bool" where
  "walkable_buf bt \<equiv> walkable (mem_view bt)"

abbreviation buf_byte :: "buftype \<Rightarrow> (int \<Rightarrow> 'a) \<Rightarrow> int \<Rightarrow> 'a" where
  "buf_byte bt m k \<equiv> m (view_pos (mem_view bt) k)"

lemma buf_next:
  assumes "walkable_buf bt" "buf_at bt k c" "0 \<le> n" "n \<le> cursor_left c"
  shows "buf_at bt (k + n) (cursor_next bt c n)"
    "n = 0 \<Longrightarrow> cursor_left c = 0 \<Longrightarrow> buf_idle bt (cursor_next bt c n) < buf_idle bt c"
    "map m [fst c..fst c + n - 1] = map (buf_byte bt m) [k..k + n - 1]"
proof -
  obtain x j nb f where c: "c = (x, j, nb, f)" by (cases c) auto
  obtain r where r: "at_cursor (mem_view bt) nb j r k x" "f = snd (blocks (mem_view bt) ! j) - r"
    using assms(2) c by (auto simp: buf_at_def)
  have n: "n \<le> f" using assms(4) c by (simp add: cursor_left_def)
  obtain j' n' where nx: "(j', n') = (if n = f then advance (blocks (mem_view bt)) j nb else (j, nb))" by (metis surj_pair)
  note st = cursor_step [OF assms(1) r assms(3) n nx]
  have cn: "cursor_next bt c n = (if n = f then (file_pos (mem_view bt) n' j', j', n', snd (blocks (mem_view bt) ! j')) else (x + n, j, nb, f - n))"
    using nx by (auto simp: cursor_next_def c file_pos_def mult.commute split: if_splits prod.splits)
  show "buf_at bt (k + n) (cursor_next bt c n)" using st(1,2) nx by (auto simp: cn buf_at_def split: if_splits)
  show "buf_idle bt (cursor_next bt c n) < buf_idle bt c" if "n = 0" "cursor_left c = 0"
    unfolding cn using st(3) that nx by (auto simp: c buf_idle_def cursor_left_def split: if_splits)
  have "[x..x + n - 1] = map (view_pos (mem_view bt)) [k..k + n - 1]" by (rule st(4))
  then show "map m [fst c..fst c + n - 1] = map (buf_byte bt m) [k..k + n - 1]" by (simp add: c)
qed

lemma buf_at_left: "buf_at bt k c \<Longrightarrow> 0 \<le> cursor_left c"
  by (auto simp: buf_at_def at_cursor_def cursor_left_def)

lemma buf_incr_ok:
  assumes "walkable_buf bt"
  shows "buf_at bt k c \<Longrightarrow> 0 \<le> incr \<Longrightarrow> \<exists>c'. buf_incr bt c incr = Some c' \<and> buf_at bt (k + incr) c'"
proof (induction "(nat incr, buf_idle bt c)" arbitrary: k c incr rule: wf_induct_rule [OF wf_walk_order])
  case (1 c incr k)
  show ?case
  proof (cases "incr = 0")
    case True
    then show ?thesis using 1(2) by (auto simp: buf_incr.simps)
  next
    case False
    let ?n = "min incr (cursor_left c)"
    have n: "0 \<le> ?n" "?n \<le> cursor_left c" using 1(3) buf_at_left [OF 1(2)] by auto
    note nx = buf_next [OF assms 1(2) n]
    have "((nat (incr - ?n), buf_idle bt (cursor_next bt c ?n)), (nat incr, buf_idle bt c)) \<in> walk_order"
      using nx(2) n(1) 1(3) False unfolding in_walk_order by (cases "?n = 0") (auto simp: min_def split: if_splits)
    then obtain c' where "buf_incr bt (cursor_next bt c ?n) (incr - ?n) = Some c'" "buf_at bt (k + ?n + (incr - ?n)) c'"
      using 1(1) [OF _ nx(1)] by fastforce
    then show ?thesis using False by (intro exI [of _ c']) (subst buf_incr.simps, simp add: Let_def)
  qed
qed

lemma buf_copy_ok:
  assumes "walkable_buf bt"
  shows "buf_at bt k c \<Longrightarrow> 0 \<le> sz \<Longrightarrow> sz \<le> incr \<Longrightarrow>
    \<exists>c'. buf_copy bt m c sz incr acc = Some (c', acc @ map (buf_byte bt m) [k..k + sz - 1]) \<and> buf_at bt (k + incr) c'"
proof (induction "(nat sz, buf_idle bt c)" arbitrary: k c sz incr acc rule: wf_induct_rule [OF wf_walk_order])
  case (1 c sz k incr acc)
  show ?case
  proof (cases "sz = 0")
    case True
    then show ?thesis using buf_incr_ok [OF assms 1(2), of incr] 1(4) by (auto simp: buf_copy.simps)
  next
    case False
    let ?n = "min sz (cursor_left c)"
    have n: "0 \<le> ?n" "?n \<le> cursor_left c" "?n \<le> sz" using 1(3) buf_at_left [OF 1(2)] by auto
    note nx = buf_next [OF assms 1(2) n(1,2)]
    let ?acc = "acc @ map (buf_byte bt m) [k..k + ?n - 1]"
    have "((nat (sz - ?n), buf_idle bt (cursor_next bt c ?n)), (nat sz, buf_idle bt c)) \<in> walk_order"
      using nx(2) n(1) 1(3) False unfolding in_walk_order by (cases "?n = 0") (auto simp: min_def split: if_splits)
    then obtain c' where c': "buf_copy bt m (cursor_next bt c ?n) (sz - ?n) (incr - ?n) ?acc =
        Some (c', ?acc @ map (buf_byte bt m) [k + ?n..k + ?n + (sz - ?n) - 1])" "buf_at bt (k + ?n + (incr - ?n)) c'"
      using 1(1) [OF _ nx(1), of "sz - ?n" "incr - ?n" ?acc] 1(4) n by auto
    have "[k..k + sz - 1] = [k..k + ?n - 1] @ [k + ?n..k + sz - 1]" using upto_join [of k "k + ?n" "k + sz"] n by simp
    then have "?acc @ map (buf_byte bt m) [k + ?n..k + ?n + (sz - ?n) - 1] = acc @ map (buf_byte bt m) [k..k + sz - 1]" by simp
    moreover have "buf_copy bt m c sz incr acc = buf_copy bt m (cursor_next bt c ?n) (sz - ?n) (incr - ?n) ?acc"
      using False nx(3) [of m] by (subst buf_copy.simps) (simp add: Let_def)
    ultimately show ?thesis using c' by (intro exI [of _ c']) simp
  qed
qed

section \<open>Filling the send buffers\<close>

text \<open>The bytes of the buffer that go to process \<open>p\<close>; the pieces \<open>ps\<close> start at byte \<open>k\<close> of the buffer.\<close>

fun data_for :: "(int \<Rightarrow> 'a) \<Rightarrow> nat \<Rightarrow> int \<Rightarrow> (nat \<times> int \<times> int) list \<Rightarrow> 'a list" where
  "data_for h p k [] = []"
| "data_for h p k ((q, off, len) # ps) = (if q = p then map h [k..k + len - 1] else []) @ data_for h p (k + len) ps"

text \<open>What is in the send buffer of \<open>p\<close>, and \<open>curr_to_proc[p]\<close>, when the bytes \<open>seen p\<close> have gone by.\<close>

definition fill_inv :: "nat \<Rightarrow> int list \<Rightarrow> int list \<Rightarrow> (nat \<Rightarrow> 'a list) \<Rightarrow> int list \<Rightarrow> 'a list list \<Rightarrow> bool" where
  "fill_inv N send_size done_to seen cur bufs \<longleftrightarrow> length cur = N \<and> length bufs = N \<and>
     (\<forall>p < N. cur ! p = (if send_size ! p = 0 then 0 else min (int (length (seen p))) (done_to ! p + send_size ! p)) \<and>
        bufs ! p = take (nat (send_size ! p)) (drop (nat (done_to ! p)) (seen p)))"

definition sizes_ok :: "nat \<Rightarrow> int list \<Rightarrow> int list \<Rightarrow> bool" where
  "sizes_ok N send_size done_to \<longleftrightarrow> length send_size = N \<and> length done_to = N \<and>
     (\<forall>p < N. 0 \<le> send_size ! p \<and> 0 \<le> done_to ! p \<and> done_to ! p + send_size ! p \<le> INT_MAX)"

lemma fill_inv_update:
  assumes "fill_inv N send_size done_to seen cur bufs" "p < N"
    and "c = (if send_size ! p = 0 then 0 else min (int (length new)) (done_to ! p + send_size ! p))"
    and "b = take (nat (send_size ! p)) (drop (nat (done_to ! p)) new)"
  shows "fill_inv N send_size done_to (seen(p := new)) (cur[p := c]) (bufs[p := b])"
  using assms by (auto simp: fill_inv_def nth_list_update)

lemma drop_upto: "drop n [i..j] = [i + int n..j]"
  by (rule nth_equalityI) auto

lemma take_upto: "take n [i..j] = [i..min (i + int n - 1) j]"
  by (rule nth_equalityI) auto

lemma fits: "0 \<le> x \<Longrightarrow> x \<le> INT_MAX \<Longrightarrow> to_unsigned x = x \<and> to_int x = x"
  by (simp add: to_unsigned_id to_int_id INT_MAX_def)

lemma fill_piece_ok:
  assumes w: "walkable_buf bt" and c: "buf_at bt k c" and inv: "fill_inv N send_size done_to seen cur bufs" and sz: "sizes_ok N send_size done_to"
    and p: "p < N" "0 < len" "int (length (seen p)) + len \<le> INT_MAX"
  shows "\<exists>c' cur' bufs'. fill_piece bt m send_size done_to p len (c, cur, bufs) = Some (c', cur', bufs') \<and> buf_at bt (k + len) c' \<and>
    fill_inv N send_size done_to (seen(p := seen p @ map (buf_byte bt m) [k..k + len - 1])) cur' bufs'"
proof -
  let ?s = "send_size ! p" and ?d = "done_to ! p" and ?A = "int (length (seen p))" and ?b = "bufs ! p" and ?h = "buf_byte bt m"
  let ?new = "seen p @ map ?h [k..k + len - 1]"
  have i: "cur ! p = (if ?s = 0 then 0 else min ?A (?d + ?s))" "?b = take (nat ?s) (drop (nat ?d) (seen p))"
    "length cur = N" "length bufs = N" using inv p(1) by (auto simp: fill_inv_def)
  have s: "length send_size = N" "length done_to = N" "0 \<le> ?s" "0 \<le> ?d" "?d + ?s \<le> INT_MAX" using sz p(1) by (auto simp: sizes_ok_def)
  have rng: "\<not> (length send_size \<le> p \<or> length done_to \<le> p \<or> length cur \<le> p \<or> length bufs \<le> p)" using p(1) s i by simp
  have lb: "int (length ?b) = max 0 (min ?s (?A - ?d))" using i(2) s(3,4) by auto
  note upd = fill_inv_update [OF inv p(1), of _ ?new]
  obtain c1 where c1: "buf_incr bt c len = Some c1" "buf_at bt (k + len) c1" using buf_incr_ok [OF w c, of len] p(2) by auto
  consider "\<not> int (length ?b) < ?s" | "int (length ?b) < ?s" "cur ! p + len \<le> ?d" | "int (length ?b) < ?s" "?d < cur ! p + len" "cur ! p < ?d"
    | "int (length ?b) < ?s" "?d < cur ! p + len" "?d \<le> cur ! p" by linarith
  then show ?thesis
  proof cases
    case 1
    then have "cur[p := cur ! p] = cur" "bufs[p := ?b] = bufs" by simp_all
    moreover have "take (nat ?s) (drop (nat ?d) ?new) = ?b" "cur ! p = (if ?s = 0 then 0 else min (int (length ?new)) (?d + ?s))"
      using 1 lb i(1,2) s(3,4) p(2) by auto
    ultimately have "fill_inv N send_size done_to (seen(p := ?new)) cur bufs" using upd [of "cur ! p" ?b] by simp
    then show ?thesis using 1 rng c1 by (auto simp: fill_piece_def)
  next
    case 2
    then have "cur ! p = ?A" using i(1) lb s by (auto split: if_splits)
    then have "fill_inv N send_size done_to (seen(p := ?new)) (cur[p := cur ! p + len]) (bufs[p := []])"
      using 2 s p by (intro upd) auto
    moreover have "?b = []" using 2 \<open>cur ! p = ?A\<close> i(2) p(2) by simp
    ultimately have "fill_inv N send_size done_to (seen(p := ?new)) (cur[p := cur ! p + len]) bufs" by (metis list_update_id)
    moreover have "to_unsigned (cur ! p + len) = cur ! p + len \<and> to_int (cur ! p + len) = cur ! p + len"
      using 2 \<open>cur ! p = ?A\<close> p by (intro fits) auto
    ultimately show ?thesis using 2 rng c1 by (auto simp: fill_piece_def)
  next
    case 3
    then have A: "cur ! p = ?A" using i(1) lb s by (auto split: if_splits)
    let ?r = "?A + len - ?d" and ?z = "min (?A + len - ?d) ?s"
    have b: "?b = []" using 3 A i(2) by simp
    have f: "to_unsigned ?r = ?r" "to_unsigned (?d + ?z) = ?d + ?z" "to_int ?z = ?z" "to_int (?d + ?z) = ?d + ?z"
      using 3 A s p fits [of ?r] fits [of "?d + ?z"] fits [of ?z] by auto
    obtain c2 where c2: "buf_incr bt c (?d - ?A) = Some c2" "buf_at bt (k + (?d - ?A)) c2"
      using buf_incr_ok [OF w c, of "?d - ?A"] 3 A by auto
    obtain c3 where c3: "buf_copy bt m c2 ?z ?r [] = Some (c3, map ?h [k + (?d - ?A)..k + (?d - ?A) + ?z - 1])" "buf_at bt (k + (?d - ?A) + ?r) c3"
      using buf_copy_ok [OF w c2(2), of ?z ?r m "[]"] 3 A s by auto
    have "fill_inv N send_size done_to (seen(p := ?new)) (cur[p := ?d + ?z]) (bufs[p := map ?h [k + (?d - ?A)..k + (?d - ?A) + ?z - 1]])"
    proof (rule upd)
      have e: "k + (?d - ?A) + ?z - 1 = min (k + (?d - ?A) + ?s - 1) (k + len - 1)" by linarith
      show "map ?h [k + (?d - ?A)..k + (?d - ?A) + ?z - 1] = take (nat ?s) (drop (nat ?d) ?new)"
        using 3 A s e by (simp add: drop_map take_map drop_upto take_upto of_nat_diff)
    qed (use 3 A s p in auto)
    then show ?thesis using 3 A rng b f c2 c3 by (auto simp: fill_piece_def Let_def)
  next
    case 4
    then have A: "cur ! p = ?A" using i(1) lb s by (auto split: if_splits)
    let ?z = "min len (?s - int (length ?b))"
    have lb': "int (length ?b) = ?A - ?d" using 4 A lb s by auto
    have f: "to_unsigned (?A + ?z) = ?A + ?z" "to_int (?A + ?z) = ?A + ?z" using 4 p fits [of "?A + ?z"] by auto
    obtain c3 where c3: "buf_copy bt m c ?z len ?b = Some (c3, ?b @ map ?h [k..k + ?z - 1])" "buf_at bt (k + len) c3"
      using buf_copy_ok [OF w c, of ?z len m ?b] 4 p by auto
    have "fill_inv N send_size done_to (seen(p := ?new)) (cur[p := ?A + ?z]) (bufs[p := ?b @ map ?h [k..k + ?z - 1]])"
    proof (rule upd)
      have e: "k + ?z - 1 = min (k + (?s - int (length ?b)) - 1) (k + len - 1)" by linarith
      have "?b = drop (nat ?d) (seen p)" using 4 i(2) lb' s by auto
      moreover have "nat ?d \<le> length (seen p)" "int (nat ?s - length ?b) = ?s - int (length ?b)" "length ?b \<le> nat ?s" using 4 A s by auto
      ultimately have "take (nat ?s) (drop (nat ?d) ?new) = ?b @ map ?h (take (nat ?s - length ?b) [k..k + len - 1])" by (simp add: take_map)
      also have "take (nat ?s - length ?b) [k..k + len - 1] = [k..k + ?z - 1]"
        unfolding take_upto \<open>int (nat ?s - length ?b) = ?s - int (length ?b)\<close> e ..
      finally show "?b @ map ?h [k..k + ?z - 1] = take (nat ?s) (drop (nat ?d) ?new)" ..
    qed (use 4 A s p lb' in auto)
    then show ?thesis using 4 A rng f c3 by (auto simp: fill_piece_def Let_def)
  qed
qed

lemma fill_pieces_ok:
  assumes w: "walkable_buf bt" and sz: "sizes_ok N send_size done_to"
  shows "buf_at bt k c \<Longrightarrow> fill_inv N send_size done_to seen cur bufs \<Longrightarrow> \<forall>(p, off, len) \<in> set ps. p < N \<and> 0 < len \<Longrightarrow>
    \<forall>p < N. int (length (seen p)) + sum_list (map (\<lambda>x. snd (snd x)) ps) \<le> INT_MAX \<Longrightarrow>
    \<exists>c' cur' bufs'. fill_pieces bt m send_size done_to ps (c, cur, bufs) = Some (c', cur', bufs') \<and>
      fill_inv N send_size done_to (\<lambda>p. seen p @ data_for (buf_byte bt m) p k ps) cur' bufs'"
proof (induction ps arbitrary: k c seen cur bufs)
  case (Cons x ps)
  obtain p off len where x: "x = (p, off, len)" by (cases x) auto
  have p: "p < N" "0 < len" using Cons.prems(3) x by auto
  let ?sum = "sum_list (map (\<lambda>x. snd (snd x)) ps)"
  let ?seen = "seen(p := seen p @ map (buf_byte bt m) [k..k + len - 1])"
  have "0 \<le> ?sum" using Cons.prems(3) by (intro sum_list_nonneg) fastforce
  then have "int (length (seen p)) + len \<le> INT_MAX" using Cons.prems(4) p x by fastforce
  then obtain c1 cur1 bufs1 where 1: "fill_piece bt m send_size done_to p len (c, cur, bufs) = Some (c1, cur1, bufs1)"
    "buf_at bt (k + len) c1" "fill_inv N send_size done_to ?seen cur1 bufs1"
    using fill_piece_ok [OF w Cons.prems(1,2) sz p] by blast
  have "\<forall>q < N. int (length (?seen q)) + ?sum \<le> INT_MAX" using Cons.prems(4) x p by auto
  moreover have "\<forall>(p, off, len) \<in> set ps. p < N \<and> 0 < len" using Cons.prems(3) by simp
  ultimately obtain c' cur' bufs' where 2: "fill_pieces bt m send_size done_to ps (c1, cur1, bufs1) = Some (c', cur', bufs')"
    "fill_inv N send_size done_to (\<lambda>q. ?seen q @ data_for (buf_byte bt m) q (k + len) ps) cur' bufs'"
    using Cons.IH [OF 1(2,3)] by blast
  have e: "(\<lambda>q. ?seen q @ data_for (buf_byte bt m) q (k + len) ps) = (\<lambda>q. seen q @ data_for (buf_byte bt m) q k (x # ps))"
    by (auto simp: x)
  have "fill_pieces bt m send_size done_to (x # ps) (c, cur, bufs) = Some (c', cur', bufs')" using 1(1) 2(1) x by simp
  then show ?case using 2(2) unfolding e by blast
qed auto

text \<open>The pieces of a process, \<open>N\<close> processes in all.\<close>

definition pieces_ok :: "nat \<Rightarrow> (nat \<times> int \<times> int) list \<Rightarrow> bool" where
  "pieces_ok N ps \<longleftrightarrow> (\<forall>(p, off, len) \<in> set ps. p < N \<and> 0 < len) \<and> sum_list (map (\<lambda>x. snd (snd x)) ps) \<le> INT_MAX"

lemma Fill_send_buffer_ok:
  assumes "walkable_buf bt" "sizes_ok N send_size sent" "all_pieces agg accesses = Some ps" "pieces_ok N ps"
    and "\<forall>p < N. sent ! p + send_size ! p \<le> int (length (data_for (buf_byte bt m) p 0 ps))"
  shows "ADIOI_Fill_send_buffer bt m agg accesses send_size sent =
    Some (map (\<lambda>p. take (nat (send_size ! p)) (drop (nat (sent ! p)) (data_for (buf_byte bt m) p 0 ps))) [0..<N],
      map (\<lambda>p. sent ! p + send_size ! p) [0..<N])"
proof -
  have ne: "bt_blocks bt \<noteq> []" using assms(1) by (auto simp: walkable_def)
  have N: "length send_size = N" "length sent = N" "\<forall>p < N. 0 \<le> send_size ! p \<and> 0 \<le> sent ! p" using assms(2) by (auto simp: sizes_ok_def)
  let ?c = "(fst (bt_blocks bt ! 0), 0, 0, snd (bt_blocks bt ! 0))"
  have "0 < length (bt_blocks bt)" "0 \<le> snd (bt_blocks bt ! 0)" using ne assms(1) by (auto simp: walkable_def)
  then have c: "buf_at bt 0 ?c" by (auto simp: buf_at_def at_cursor_def byte_at_def file_pos_def)
  have i: "fill_inv N send_size sent (\<lambda>_. []) (replicate N 0) (replicate N [])" using N by (auto simp: fill_inv_def)
  obtain c' cur bufs where f: "fill_pieces bt m send_size sent ps (?c, replicate N 0, replicate N []) = Some (c', cur, bufs)"
    "fill_inv N send_size sent (\<lambda>p. [] @ data_for (buf_byte bt m) p 0 ps) cur bufs"
    using fill_pieces_ok [OF assms(1,2) c i, of ps m] assms(4) by (auto simp: pieces_ok_def)
  have "bufs = map (\<lambda>p. take (nat (send_size ! p)) (drop (nat (sent ! p)) (data_for (buf_byte bt m) p 0 ps))) [0..<N]"
    using f(2) by (intro nth_equalityI) (auto simp: fill_inv_def)
  moreover have "map (\<lambda>i. if send_size ! i \<noteq> 0 then cur ! i else sent ! i) [0..<N] = map (\<lambda>p. sent ! p + send_size ! p) [0..<N]"
    using f(2) assms(5) by (auto simp: fill_inv_def)
  ultimately show ?thesis using ne assms(3) f(1) N(1) by (simp add: ADIOI_Fill_send_buffer_def)
qed

section \<open>What is left to send\<close>

text \<open>The sender still has the bytes \<open>D p\<close> for process \<open>p\<close>.\<close>

definition to_send :: "(int \<Rightarrow> int \<Rightarrow> (nat \<times> int) option) \<Rightarrow> nat \<Rightarrow> 'a sender \<Rightarrow> (nat \<Rightarrow> 'a list) \<Rightarrow> bool" where
  "to_send agg N d D \<longleftrightarrow>
     (if bt_is_contig (d_type d) then
        length (d_buf_idx d) = N \<and> (\<forall>p < N. D p = map (d_mem d) [d_buf_idx d ! p..d_buf_idx d ! p + int (length (D p)) - 1])
      else walkable_buf (d_type d) \<and> length (d_sent d) = N \<and>
        (\<exists>ps. all_pieces agg (d_accesses d) = Some ps \<and> pieces_ok N ps \<and>
          (\<forall>p < N. 0 \<le> d_sent d ! p \<and> int (length (D p)) + d_sent d ! p \<le> INT_MAX \<and>
             D p = drop (nat (d_sent d ! p)) (data_for (buf_byte (d_type d) (d_mem d)) p 0 ps) \<and>
             d_sent d ! p \<le> int (length (data_for (buf_byte (d_type d) (d_mem d)) p 0 ps)))))"

lemma to_send_cong: "\<forall>p < N. D p = D' p \<Longrightarrow> to_send agg N d D \<Longrightarrow> to_send agg N d D'"
  unfolding to_send_def by (auto split: if_splits)

lemma to_send_holes:
  assumes "\<not> bt_is_contig (d_type d)" "walkable_buf (d_type d)" "length (d_sent d) = N" "all_pieces agg (d_accesses d) = Some ps" "pieces_ok N ps"
    and "\<And>p. p < N \<Longrightarrow> 0 \<le> d_sent d ! p \<and> int (length (D p)) + d_sent d ! p \<le> INT_MAX \<and>
      D p = drop (nat (d_sent d ! p)) (data_for (buf_byte (d_type d) (d_mem d)) p 0 ps) \<and>
      d_sent d ! p \<le> int (length (data_for (buf_byte (d_type d) (d_mem d)) p 0 ps))"
  shows "to_send agg N d D"
  unfolding to_send_def if_not_P [OF assms(1)] using assms(2-6) by blast

lemma send_data_ok:
  assumes "to_send agg N d D" "length send_size = N" "\<forall>p < N. 0 \<le> send_size ! p \<and> send_size ! p \<le> int (length (D p))"
  shows "\<exists>d'. send_data agg send_size d = Some (map (\<lambda>p. take (nat (send_size ! p)) (D p)) [0..<N], d') \<and>
    to_send agg N d' (\<lambda>p. drop (nat (send_size ! p)) (D p))"
proof (cases "bt_is_contig (d_type d)")
  case True
  have b: "length (d_buf_idx d) = N" and D: "\<And>p. p < N \<Longrightarrow> D p = map (d_mem d) [d_buf_idx d ! p..d_buf_idx d ! p + int (length (D p)) - 1]"
    using assms(1) True by (auto simp: to_send_def)
  have t: "map (d_mem d) [d_buf_idx d ! p..d_buf_idx d ! p + send_size ! p - 1] = take (nat (send_size ! p)) (D p)" if "p < N" for p
  proof -
    have "take (nat (send_size ! p)) (D p) = map (d_mem d) (take (nat (send_size ! p)) [d_buf_idx d ! p..d_buf_idx d ! p + int (length (D p)) - 1])"
      by (subst D [OF that]) (simp add: take_map)
    moreover have "min (d_buf_idx d ! p + int (nat (send_size ! p)) - 1) (d_buf_idx d ! p + int (length (D p)) - 1) = d_buf_idx d ! p + send_size ! p - 1"
      using assms(3) that by auto
    ultimately show ?thesis by (simp only: take_upto)
  qed
  have dr: "drop (nat (send_size ! p)) (D p) =
      map (d_mem d) [d_buf_idx d ! p + send_size ! p..d_buf_idx d ! p + send_size ! p + int (length (drop (nat (send_size ! p)) (D p))) - 1]" if "p < N" for p
  proof -
    have "drop (nat (send_size ! p)) (D p) = map (d_mem d) (drop (nat (send_size ! p)) [d_buf_idx d ! p..d_buf_idx d ! p + int (length (D p)) - 1])"
      by (subst D [OF that]) (simp add: drop_map)
    moreover have "d_buf_idx d ! p + send_size ! p + int (length (drop (nat (send_size ! p)) (D p))) - 1 = d_buf_idx d ! p + int (length (D p)) - 1"
      using assms(3) that by auto
    ultimately show ?thesis using assms(3) that by (simp add: drop_upto)
  qed
  let ?d = "d\<lparr>d_buf_idx := map (\<lambda>i. d_buf_idx d ! i + send_size ! i) [0..<N]\<rparr>"
  have "to_send agg N ?d (\<lambda>p. drop (nat (send_size ! p)) (D p))" using True dr by (simp add: to_send_def)
  moreover have "send_data agg send_size d = Some (map (\<lambda>p. take (nat (send_size ! p)) (D p)) [0..<N], ?d)"
    using True b assms(2) t by (simp add: send_data_def)
  ultimately show ?thesis by blast
next
  case False
  let ?D = "\<lambda>p ps. data_for (buf_byte (d_type d) (d_mem d)) p 0 ps"
  obtain ps where ps: "all_pieces agg (d_accesses d) = Some ps" "pieces_ok N ps" and w: "walkable_buf (d_type d)" "length (d_sent d) = N"
    and D: "\<And>p. p < N \<Longrightarrow> 0 \<le> d_sent d ! p \<and> int (length (D p)) + d_sent d ! p \<le> INT_MAX \<and> D p = drop (nat (d_sent d ! p)) (?D p ps) \<and>
      d_sent d ! p \<le> int (length (?D p ps))"
    using assms(1) False by (auto simp: to_send_def)
  show ?thesis
  proof (cases "\<forall>n \<in> set send_size. n = 0")
    case True
    then have z: "\<And>p. p < N \<Longrightarrow> send_size ! p = 0" using assms(2) by auto
    then have "map (\<lambda>p. take (nat (send_size ! p)) (D p)) [0..<N] = map (\<lambda>_. []) send_size" using assms(2) by (intro nth_equalityI) auto
    moreover have "to_send agg N d (\<lambda>p. drop (nat (send_size ! p)) (D p))"
      by (rule to_send_cong [OF _ assms(1)]) (simp add: z)
    ultimately show ?thesis using True False by (auto simp: send_data_def)
  next
    case ne: False
    have sz: "sizes_ok N send_size (d_sent d)" using assms(2,3) w(2) D by (fastforce simp: sizes_ok_def)
    have fit: "\<forall>p < N. d_sent d ! p + send_size ! p \<le> int (length (?D p ps))"
    proof (intro allI impI)
      fix p assume p: "p < N"
      then have "int (length (D p)) = int (length (?D p ps)) - d_sent d ! p" using D [OF p] by auto
      then show "d_sent d ! p + send_size ! p \<le> int (length (?D p ps))" using assms(3) p by fastforce
    qed
    let ?d = "d\<lparr>d_sent := map (\<lambda>p. d_sent d ! p + send_size ! p) [0..<N]\<rparr>"
    have "to_send agg N ?d (\<lambda>p. drop (nat (send_size ! p)) (D p))"
    proof -
      have *: "0 \<le> d_sent d ! p + send_size ! p \<and> int (length (drop (nat (send_size ! p)) (D p))) + (d_sent d ! p + send_size ! p) \<le> INT_MAX \<and>
        drop (nat (send_size ! p)) (D p) = drop (nat (d_sent d ! p + send_size ! p)) (?D p ps) \<and>
        d_sent d ! p + send_size ! p \<le> int (length (?D p ps))" if p: "p < N" for p
      proof -
        have ss: "0 \<le> send_size ! p" "send_size ! p \<le> int (length (D p))" using assms(3) p by auto
        then have "int (length (drop (nat (send_size ! p)) (D p))) = int (length (D p)) - send_size ! p" by simp
        moreover have "drop (nat (send_size ! p)) (D p) = drop (nat (d_sent d ! p + send_size ! p)) (?D p ps)"
          using D [OF p] ss(1) by (simp add: nat_add_distrib add.commute)
        ultimately show ?thesis using D [OF p] ss(1) fit p by auto
      qed
      show ?thesis
      proof (rule to_send_holes [where ps = ps])
        fix p assume p: "p < N"
        then have e: "d_sent ?d ! p = d_sent d ! p + send_size ! p" "d_type ?d = d_type d" "d_mem ?d = d_mem d" by simp_all
        show "0 \<le> d_sent ?d ! p \<and> int (length (drop (nat (send_size ! p)) (D p))) + d_sent ?d ! p \<le> INT_MAX \<and>
          drop (nat (send_size ! p)) (D p) = drop (nat (d_sent ?d ! p)) (data_for (buf_byte (d_type ?d) (d_mem ?d)) p 0 ps) \<and>
          d_sent ?d ! p \<le> int (length (data_for (buf_byte (d_type ?d) (d_mem ?d)) p 0 ps))"
          unfolding e by (rule * [OF p])
      qed (use False ps w in simp_all)
    qed
    moreover have e: "map (\<lambda>p. take (nat (send_size ! p)) (drop (nat (d_sent d ! p)) (?D p ps))) [0..<N] = map (\<lambda>p. take (nat (send_size ! p)) (D p)) [0..<N]"
      using D by simp
    have "send_data agg send_size d = Some (map (\<lambda>p. take (nat (send_size ! p)) (D p)) [0..<N], ?d)"
      unfolding send_data_def if_not_P [OF False] if_not_P [OF ne] Fill_send_buffer_ok [OF w(1) sz ps fit] e by simp
    ultimately show ?thesis by blast
  qed
qed

end
