(* ===== verification/Coll_Receive.thy ===== *)
theory Coll_Receive
  imports Coll_Read Coll_Send
begin

text \<open>
  The receivers of the collective read: what a process receives in a round goes to the next cells of its buffer that belong to the aggregator. A receiver walks
  through its buffer as a sender of the collective write does, so that the cells are what it would send if its memory held in every cell
  the address of the cell.
\<close>

section \<open>Memory after a number of stores\<close>

definition stored :: "(int \<times> byte) set \<Rightarrow> (int \<Rightarrow> byte) \<Rightarrow> (int \<Rightarrow> byte) \<Rightarrow> bool" where
  "stored X m m' \<longleftrightarrow> (\<forall>x. if x \<in> fst ` X then (x, m' x) \<in> X else m' x = m x)"

lemma stored_none: "stored {} m m"
  by (simp add: stored_def)

lemma stored_trans:
  assumes "stored X m m1" "stored Y m1 m2"
  shows "stored (X \<union> Y) m m2"
  unfolding stored_def
proof
  fix x
  have "if x \<in> fst ` X then (x, m1 x) \<in> X else m1 x = m x" "if x \<in> fst ` Y then (x, m2 x) \<in> Y else m2 x = m1 x"
    using assms by (auto simp: stored_def)
  then show "if x \<in> fst ` (X \<union> Y) then (x, m2 x) \<in> X \<union> Y else m2 x = m x" by (auto simp: image_Un split: if_splits)
qed

lemma set_zip_upto: "length bs = nat (b - a + 1) \<Longrightarrow> set (zip [a..b] bs) = {(x, bs ! nat (x - a)) | x. a \<le> x \<and> x \<le> b}"
proof -
  assume l: "length bs = nat (b - a + 1)"
  show ?thesis
  proof (rule set_eqI)
    fix y :: "int \<times> 'a"
    obtain x v where y: "y = (x, v)" by force
    have nth: "[a..b] ! i = a + int i" if "i < nat (b - a + 1)" for i using that by (intro nth_upto) linarith
    have "y \<in> set (zip [a..b] bs) \<longleftrightarrow> (\<exists>i. i < nat (b - a + 1) \<and> x = [a..b] ! i \<and> v = bs ! i)"
      using l by (auto simp: set_zip y)
    also have "\<dots> \<longleftrightarrow> (\<exists>i. i < nat (b - a + 1) \<and> x = a + int i \<and> v = bs ! i)" using nth by metis
    also have "\<dots> \<longleftrightarrow> a \<le> x \<and> x \<le> b \<and> v = bs ! nat (x - a)"
    proof
      assume "a \<le> x \<and> x \<le> b \<and> v = bs ! nat (x - a)"
      then show "\<exists>i. i < nat (b - a + 1) \<and> x = a + int i \<and> v = bs ! i" by (intro exI [of _ "nat (x - a)"]) auto
    qed auto
    finally show "y \<in> set (zip [a..b] bs) \<longleftrightarrow> y \<in> {(x, bs ! nat (x - a)) | x. a \<le> x \<and> x \<le> b}" by (auto simp: y)
  qed
qed

lemma store_stored: "stored (set (zip [a..a + int (length bs) - 1] bs)) m (store m a bs)"
proof -
  have "set (zip [a..a + int (length bs) - 1] bs) = {(x, bs ! nat (x - a)) | x. a \<le> x \<and> x \<le> a + int (length bs) - 1}"
    by (rule set_zip_upto) simp
  then show ?thesis by (auto simp: stored_def store_def image_iff)
qed

section \<open>Walking through the buffer\<close>

text \<open>Copying into the buffer goes along with copying out of it; the addresses are those of the bytes copied.\<close>

abbreviation cells :: "buftype \<Rightarrow> int \<Rightarrow> int \<Rightarrow> int list" where
  "cells bt k n \<equiv> map (view_pos (mem_view bt)) [k..k + n - 1]"

lemma buf_fill_ok:
  assumes "walkable_buf bt"
  shows "buf_at bt k c \<Longrightarrow> 0 \<le> sz \<Longrightarrow> sz \<le> incr \<Longrightarrow> 0 \<le> idx \<Longrightarrow> idx + sz \<le> int (length rbuf) \<Longrightarrow>
    \<exists>c' m'. buf_copy bt (\<lambda>x. x) c sz incr acc = Some (c', acc @ cells bt k sz) \<and> buf_fill bt rbuf c sz incr idx m = Some (c', idx + sz, m') \<and>
      buf_at bt (k + incr) c' \<and> stored (set (zip (cells bt k sz) (drop (nat idx) rbuf))) m m'"
proof (induction "(nat sz, buf_idle bt c)" arbitrary: k c sz incr idx m acc rule: wf_induct_rule [OF wf_walk_order])
  case (1 c sz k incr idx m acc)
  show ?case
  proof (cases "sz = 0")
    case True
    then show ?thesis using buf_incr_ok [OF assms 1(2), of incr] 1(4) stored_none by (auto simp: buf_copy.simps buf_fill.simps)
  next
    case False
    let ?n = "min sz (cursor_left c)"
    have n: "0 \<le> ?n" "?n \<le> cursor_left c" "?n \<le> sz" using 1(3) buf_at_left [OF 1(2)] by auto
    note nx = buf_next [OF assms 1(2) n(1,2)]
    have cs: "[fst c..fst c + ?n - 1] = cells bt k ?n" using nx(3) [of "\<lambda>x. x"] by simp
    let ?bs = "take (nat ?n) (drop (nat idx) rbuf)" and ?acc = "acc @ cells bt k ?n"
    let ?m = "store m (fst c) ?bs"
    have lb: "int (length ?bs) = ?n" using n 1(5,6) by auto
    have "((nat (sz - ?n), buf_idle bt (cursor_next bt c ?n)), (nat sz, buf_idle bt c)) \<in> walk_order"
      using nx(2) n(1) 1(3) False unfolding in_walk_order by (cases "?n = 0") (auto simp: min_def split: if_splits)
    moreover have "0 \<le> sz - ?n" "sz - ?n \<le> incr - ?n" "0 \<le> idx + ?n" "idx + ?n + (sz - ?n) \<le> int (length rbuf)" using n 1(4-6) by simp_all
    ultimately obtain c' m' where c': "buf_copy bt (\<lambda>x. x) (cursor_next bt c ?n) (sz - ?n) (incr - ?n) ?acc = Some (c', ?acc @ cells bt (k + ?n) (sz - ?n))"
      "buf_fill bt rbuf (cursor_next bt c ?n) (sz - ?n) (incr - ?n) (idx + ?n) ?m = Some (c', idx + ?n + (sz - ?n), m')"
      "buf_at bt (k + ?n + (incr - ?n)) c'" "stored (set (zip (cells bt (k + ?n) (sz - ?n)) (drop (nat (idx + ?n)) rbuf))) ?m m'"
      using 1(1) [OF _ nx(1)] by blast
    have "[k..k + sz - 1] = [k..k + ?n - 1] @ [k + ?n..k + sz - 1]" using upto_join [of k "k + ?n" "k + sz"] n by simp
    then have split: "cells bt k sz = cells bt k ?n @ cells bt (k + ?n) (sz - ?n)" by simp
    have "buf_copy bt (\<lambda>x. x) c sz incr acc = Some (c', acc @ cells bt k sz)"
      using False c'(1) cs unfolding split by (subst buf_copy.simps) (simp add: Let_def)
    moreover have "buf_fill bt rbuf c sz incr idx m = Some (c', idx + sz, m')"
      using False c'(2) 1(6) n(3) by (subst buf_fill.simps) (simp add: Let_def)
    moreover have "stored (set (zip (cells bt k ?n) ?bs)) m ?m" using store_stored [of "fst c" ?bs m] unfolding lb cs .
    then have "stored (set (zip (cells bt k ?n) ?bs) \<union> set (zip (cells bt (k + ?n) (sz - ?n)) (drop (nat (idx + ?n)) rbuf))) m m'"
      using c'(4) by (rule stored_trans)
    moreover have "zip (cells bt k sz) (drop (nat idx) rbuf) = zip (cells bt k ?n) ?bs @ zip (cells bt (k + ?n) (sz - ?n)) (drop (nat (idx + ?n)) rbuf)"
    proof -
      have "drop (nat (idx + ?n)) rbuf = drop (nat ?n) (drop (nat idx) rbuf)" using n(1) 1(5) by (simp add: nat_add_distrib add.commute)
      then have "drop (nat idx) rbuf = ?bs @ drop (nat (idx + ?n)) rbuf" by (simp only: append_take_drop_id)
      moreover have "length ?bs = nat ?n" using lb by (metis nat_int)
      then have "length (cells bt k ?n) = length ?bs" by (simp del: length_take)
      ultimately show ?thesis unfolding split by (metis zip_append)
    qed
    ultimately show ?thesis using c'(3) by (intro exI [of _ c'] exI [of _ m']) simp
  qed
qed

section \<open>Filling the user's buffer\<close>

lemma zip_take_length: "zip xs (take (length xs) ys) = zip xs ys"
proof (induction xs arbitrary: ys)
  case (Cons x xs)
  then show ?case by (cases ys) simp_all
qed simp

text \<open>
  The invariant: \<open>bufs ! p\<close> are the cells that were filled from \<open>rbufs ! p\<close>.
\<close>

definition user_inv :: "nat \<Rightarrow> byte list list \<Rightarrow> (int \<Rightarrow> byte) \<Rightarrow> int list \<Rightarrow> int list list \<Rightarrow> (int \<Rightarrow> byte) \<Rightarrow> bool" where
  "user_inv N rbufs m0 idx bufs m \<longleftrightarrow> idx = map (\<lambda>b. int (length b)) bufs \<and> stored (\<Union>p < N. set (zip (bufs ! p) (rbufs ! p))) m0 m"

lemma user_inv_append:
  assumes "user_inv N rbufs m0 idx bufs m" "p < N" "length bufs = N" "stored (set (zip new (drop (length (bufs ! p)) (rbufs ! p)))) m m'"
    and "length (bufs ! p) \<le> length (rbufs ! p)" "i = int (length (bufs ! p)) + int (length new)"
  shows "user_inv N rbufs m0 (idx[p := i]) (bufs[p := bufs ! p @ new]) m'"
proof -
  let ?X = "\<Union>q < N. set (zip (bufs ! q) (rbufs ! q))" and ?Y = "set (zip new (drop (length (bufs ! p)) (rbufs ! p)))"
  have z: "set (zip (bufs ! p @ new) (rbufs ! p)) = set (zip (bufs ! p) (rbufs ! p)) \<union> ?Y"
    by (simp only: zip_append1 zip_take_length set_append)
  have "(\<Union>q < N. set (zip (bufs[p := bufs ! p @ new] ! q) (rbufs ! q))) = ?X \<union> ?Y"
  proof -
    have "set (zip (bufs[p := bufs ! p @ new] ! q) (rbufs ! q)) = set (zip (bufs ! q) (rbufs ! q)) \<union> (if q = p then ?Y else {})" if "q < N" for q
      using z that assms(2,3) by (auto simp: nth_list_update)
    then have "(\<Union>q < N. set (zip (bufs[p := bufs ! p @ new] ! q) (rbufs ! q))) = (\<Union>q < N. set (zip (bufs ! q) (rbufs ! q)) \<union> (if q = p then ?Y else {}))"
      by simp
    also have "\<dots> = ?X \<union> ?Y" using assms(2) by (auto split: if_splits)
    finally show ?thesis .
  qed
  moreover have "stored (?X \<union> ?Y) m0 m'" by (rule stored_trans [OF _ assms(4)]) (use assms(1) in \<open>simp add: user_inv_def\<close>)
  ultimately show ?thesis using assms(1,2,3,6) by (simp add: user_inv_def map_update)
qed

lemma user_piece_ok:
  assumes w: "walkable_buf bt" and c: "buf_at bt k c" and inv: "fill_inv N recv_size done_from seen cur bufs" and sz: "sizes_ok N recv_size done_from"
    and p: "p < N" "0 < len" "int (length (seen p)) + len \<le> INT_MAX"
    and u: "user_inv N rbufs m0 idx bufs m" "length rbufs = N" "\<forall>p < N. int (length (rbufs ! p)) = recv_size ! p"
  shows "\<exists>c' cur' idx' bufs' m'. user_piece bt rbufs recv_size done_from p len (c, cur, idx, m) = Some (c', cur', idx', m') \<and> buf_at bt (k + len) c' \<and>
    fill_inv N recv_size done_from (seen(p := seen p @ cells bt k len)) cur' bufs' \<and> user_inv N rbufs m0 idx' bufs' m'"
proof -
  let ?s = "recv_size ! p" and ?d = "done_from ! p" and ?A = "int (length (seen p))" and ?b = "bufs ! p"
  have i: "cur ! p = (if ?s = 0 then 0 else min ?A (?d + ?s))" "?b = take (nat ?s) (drop (nat ?d) (seen p))"
    "length cur = N" "length bufs = N" "length idx = N" "idx ! p = int (length ?b)"
    using inv p(1) u(1) by (auto simp: fill_inv_def user_inv_def)
  have s: "length recv_size = N" "length done_from = N" "0 \<le> ?s" "0 \<le> ?d" "?d + ?s \<le> INT_MAX" using sz p(1) by (auto simp: sizes_ok_def)
  have rng: "\<not> (length recv_size \<le> p \<or> length done_from \<le> p \<or> length cur \<le> p \<or> length idx \<le> p \<or> length rbufs \<le> p)" using p(1) s i u(2) by simp
  have rng': "\<not> (length recv_size \<le> p \<or> length done_from \<le> p \<or> length cur \<le> p \<or> length bufs \<le> p)" using rng i p(1) by simp
  have lr: "int (length (rbufs ! p)) = ?s" using u(3) p(1) by simp
  obtain c' cur' bufs' where f: "fill_piece bt (\<lambda>x. x) recv_size done_from p len (c, cur, bufs) = Some (c', cur', bufs')" "buf_at bt (k + len) c'"
    "fill_inv N recv_size done_from (seen(p := seen p @ map (buf_byte bt (\<lambda>x. x)) [k..k + len - 1])) cur' bufs'"
    using fill_piece_ok [OF w c inv sz p, of "\<lambda>x. x"] by blast
  have lb: "int (length ?b) = max 0 (min ?s (?A - ?d))" using i(2) s(3,4) by auto
  consider "\<not> int (length ?b) < ?s" | "int (length ?b) < ?s" "cur ! p + len \<le> ?d" | "int (length ?b) < ?s" "?d < cur ! p + len" "cur ! p < ?d"
    | "int (length ?b) < ?s" "?d < cur ! p + len" "?d \<le> cur ! p" by linarith
  then have "\<exists>idx' m'. user_piece bt rbufs recv_size done_from p len (c, cur, idx, m) = Some (c', cur', idx', m') \<and> user_inv N rbufs m0 idx' bufs' m'"
  proof cases
    case 1
    then show ?thesis using f(1) rng rng' i(6) u(1) by (auto simp: fill_piece_def user_piece_def bind_eq_Some_conv)
  next
    case 2
    then have "cur ! p = ?A" using i(1) lb s by (auto split: if_splits)
    then have "to_unsigned (cur ! p + len) = cur ! p + len \<and> to_int (cur ! p + len) = cur ! p + len" using p by (intro fits) auto
    then show ?thesis using 2 f(1) rng rng' i(6) u(1) by (auto simp: fill_piece_def user_piece_def bind_eq_Some_conv)
  next
    case 3
    then have A: "cur ! p = ?A" using i(1) lb s by (auto split: if_splits)
    let ?r = "?A + len - ?d" and ?z = "min (?A + len - ?d) ?s"
    have b: "?b = []" using 3 A i(2) by simp
    have t: "to_unsigned ?r = ?r" "to_unsigned (?d + ?z) = ?d + ?z" "to_int ?z = ?z" "to_int (?d + ?z) = ?d + ?z"
      using 3 A s p fits [of ?r] fits [of "?d + ?z"] fits [of ?z] by auto
    obtain c2 where c2: "buf_incr bt c (?d - ?A) = Some c2" "buf_at bt (k + (?d - ?A)) c2"
      using buf_incr_ok [OF w c, of "?d - ?A"] 3 A by auto
    let ?new = "cells bt (k + (?d - ?A)) ?z"
    obtain c3 m3 where c3: "buf_copy bt (\<lambda>x. x) c2 ?z ?r [] = Some (c3, [] @ ?new)" "buf_fill bt (rbufs ! p) c2 ?z ?r 0 m = Some (c3, 0 + ?z, m3)"
      "stored (set (zip ?new (drop (nat 0) (rbufs ! p)))) m m3"
      using buf_fill_ok [OF w c2(2), of ?z ?r 0 "rbufs ! p" "[]" m] 3 A s lr by auto
    have e: "c' = c3" "cur' = cur[p := ?d + ?z]" "bufs' = bufs[p := ?b @ ?new]"
      using f(1) 3 A rng' b t c2(1) c3(1) by (auto simp: fill_piece_def Let_def)
    have "user_inv N rbufs m0 (idx[p := ?z]) bufs' m3"
      unfolding e by (rule user_inv_append [OF u(1) p(1) i(4)]) (use c3(3) b 3 A s in auto)
    moreover have "user_piece bt rbufs recv_size done_from p len (c, cur, idx, m) = Some (c', cur', idx[p := ?z], m3)"
      using 3 A rng b t c2(1) c3(2) i(6) by (simp add: user_piece_def Let_def e)
    ultimately show ?thesis by blast
  next
    case 4
    then have A: "cur ! p = ?A" using i(1) lb s by (auto split: if_splits)
    let ?z = "min len (?s - int (length ?b))"
    have t: "to_unsigned (?A + ?z) = ?A + ?z" "to_int (?A + ?z) = ?A + ?z" using 4 p fits [of "?A + ?z"] by auto
    let ?new = "cells bt k ?z"
    have z: "0 \<le> ?z" "?z \<le> len" "0 \<le> int (length ?b)" "int (length ?b) + ?z \<le> int (length (rbufs ! p))" using 4 p lr by auto
    obtain c3 m3 where c3: "buf_copy bt (\<lambda>x. x) c ?z len ?b = Some (c3, ?b @ ?new)"
      "buf_fill bt (rbufs ! p) c ?z len (int (length ?b)) m = Some (c3, int (length ?b) + ?z, m3)" "stored (set (zip ?new (drop (nat (int (length ?b))) (rbufs ! p)))) m m3"
      using buf_fill_ok [OF w c z, of ?b m] by blast
    have e: "c' = c3" "cur' = cur[p := ?A + ?z]" "bufs' = bufs[p := ?b @ ?new]"
      using f(1) 4 A rng' t c3(1) by (auto simp: fill_piece_def Let_def)
    have "user_inv N rbufs m0 (idx[p := int (length ?b) + ?z]) bufs' m3"
      unfolding e by (rule user_inv_append [OF u(1) p(1) i(4)]) (use c3(3) 4 p lr in auto)
    moreover have "user_piece bt rbufs recv_size done_from p len (c, cur, idx, m) = Some (c', cur', idx[p := int (length ?b) + ?z], m3)"
      using 4 A rng t c3(2) i(6) by (simp add: user_piece_def Let_def e)
    ultimately show ?thesis by blast
  qed
  then show ?thesis using f(2,3) by blast
qed

lemma user_pieces_ok:
  assumes w: "walkable_buf bt" and sz: "sizes_ok N recv_size done_from" and rb: "length rbufs = N" "\<forall>p < N. int (length (rbufs ! p)) = recv_size ! p"
  shows "buf_at bt k c \<Longrightarrow> fill_inv N recv_size done_from seen cur bufs \<Longrightarrow> user_inv N rbufs m0 idx bufs m \<Longrightarrow> \<forall>(p, off, len) \<in> set ps. p < N \<and> 0 < len \<Longrightarrow>
    \<forall>p < N. int (length (seen p)) + sum_list (map (\<lambda>x. snd (snd x)) ps) \<le> INT_MAX \<Longrightarrow>
    \<exists>c' cur' idx' bufs' m'. user_pieces bt rbufs recv_size done_from ps (c, cur, idx, m) = Some (c', cur', idx', m') \<and>
      fill_inv N recv_size done_from (\<lambda>p. seen p @ data_for (view_pos (mem_view bt)) p k ps) cur' bufs' \<and> user_inv N rbufs m0 idx' bufs' m'"
proof (induction ps arbitrary: k c seen cur bufs idx m)
  case (Cons x ps)
  obtain p off len where x: "x = (p, off, len)" by (cases x) auto
  have p: "p < N" "0 < len" using Cons.prems(4) x by auto
  let ?sum = "sum_list (map (\<lambda>x. snd (snd x)) ps)" and ?seen = "seen(p := seen p @ cells bt k len)"
  have "0 \<le> ?sum" using Cons.prems(4) by (intro sum_list_nonneg) fastforce
  then have "int (length (seen p)) + len \<le> INT_MAX" using Cons.prems(5) p x by fastforce
  then obtain c1 cur1 idx1 bufs1 m1 where 1: "user_piece bt rbufs recv_size done_from p len (c, cur, idx, m) = Some (c1, cur1, idx1, m1)"
    "buf_at bt (k + len) c1" "fill_inv N recv_size done_from ?seen cur1 bufs1" "user_inv N rbufs m0 idx1 bufs1 m1"
    using user_piece_ok [OF w Cons.prems(1,2) sz p _ Cons.prems(3) rb] by blast
  have "\<forall>q < N. int (length (?seen q)) + ?sum \<le> INT_MAX" using Cons.prems(5) x p by auto
  moreover have "\<forall>(p, off, len) \<in> set ps. p < N \<and> 0 < len" using Cons.prems(4) by simp
  ultimately obtain c' cur' idx' bufs' m' where 2: "user_pieces bt rbufs recv_size done_from ps (c1, cur1, idx1, m1) = Some (c', cur', idx', m')"
    "fill_inv N recv_size done_from (\<lambda>q. ?seen q @ data_for (view_pos (mem_view bt)) q (k + len) ps) cur' bufs'" "user_inv N rbufs m0 idx' bufs' m'"
    using Cons.IH [OF 1(2-4)] by blast
  have e: "(\<lambda>q. ?seen q @ data_for (view_pos (mem_view bt)) q (k + len) ps) = (\<lambda>q. seen q @ data_for (view_pos (mem_view bt)) q k (x # ps))"
    by (auto simp: x)
  have "user_pieces bt rbufs recv_size done_from (x # ps) (c, cur, idx, m) = Some (c', cur', idx', m')" using 1(1) 2(1) x by simp
  then show ?case using 2(2,3) unfolding e by blast
qed auto

lemma Fill_user_buffer_ok:
  assumes "walkable_buf bt" "sizes_ok N recv_size recd" "all_pieces agg accesses = Some ps" "pieces_ok N ps"
    and "\<forall>p < N. recd ! p + recv_size ! p \<le> int (length (data_for (view_pos (mem_view bt)) p 0 ps))"
    and rb: "length rbufs = N" "\<forall>p < N. int (length (rbufs ! p)) = recv_size ! p"
  shows "\<exists>m'. ADIOI_Fill_user_buffer bt m rbufs agg accesses recv_size recd = Some (map (\<lambda>p. recd ! p + recv_size ! p) [0..<N], m') \<and>
    stored (\<Union>p < N. set (zip (drop (nat (recd ! p)) (data_for (view_pos (mem_view bt)) p 0 ps)) (rbufs ! p))) m m'"
proof -
  have ne: "bt_blocks bt \<noteq> []" using assms(1) by (auto simp: walkable_def)
  have N: "length recv_size = N" "length recd = N" and pos: "\<forall>p < N. 0 \<le> recv_size ! p \<and> 0 \<le> recd ! p \<and> recd ! p + recv_size ! p \<le> INT_MAX"
    using assms(2) by (auto simp: sizes_ok_def)
  have uns: "map to_unsigned recv_size = recv_size" "map to_unsigned recd = recd"
    using N pos by (auto intro!: nth_equalityI simp: fits add_increasing2 intro: order_trans [rotated])
  let ?c = "(fst (bt_blocks bt ! 0), 0, 0, snd (bt_blocks bt ! 0))" and ?D = "\<lambda>p. data_for (view_pos (mem_view bt)) p 0 ps"
  have "0 < length (bt_blocks bt)" "0 \<le> snd (bt_blocks bt ! 0)" using ne assms(1) by (auto simp: walkable_def)
  then have c: "buf_at bt 0 ?c" by (auto simp: buf_at_def at_cursor_def byte_at_def file_pos_def)
  have i: "fill_inv N recv_size recd (\<lambda>_. [] :: int list) (replicate N 0) (replicate N [])" using N pos by (auto simp: fill_inv_def)
  have u: "user_inv N rbufs m (replicate N 0) (replicate N []) m" by (simp add: user_inv_def stored_none)
  have q: "\<forall>(p, off, len) \<in> set ps. p < N \<and> 0 < len" "\<forall>p < N. int (length ([] :: int list)) + sum_list (map (\<lambda>x. snd (snd x)) ps) \<le> INT_MAX"
    using assms(4) by (auto simp: pieces_ok_def)
  obtain c' cur idx bufs m' where f: "user_pieces bt rbufs recv_size recd ps (?c, replicate N 0, replicate N 0, m) = Some (c', cur, idx, m')"
    "fill_inv N recv_size recd (\<lambda>p. [] @ ?D p) cur bufs" "user_inv N rbufs m idx bufs m'"
    using user_pieces_ok [OF assms(1,2) rb c i u q] by blast
  have "zip (bufs ! p) (rbufs ! p) = zip (drop (nat (recd ! p)) (?D p)) (rbufs ! p)" if "p < N" for p
  proof -
    have "bufs ! p = take (length (rbufs ! p)) (drop (nat (recd ! p)) (?D p))"
      using f(2) rb(2) that by (auto simp: fill_inv_def) (metis nat_int)
    then show ?thesis by (metis take_zip take_all length_zip min.cobounded2 order_refl take_all_iff)
  qed
  then have "stored (\<Union>p < N. set (zip (drop (nat (recd ! p)) (?D p)) (rbufs ! p))) m m'" using f(3) by (simp add: user_inv_def)
  moreover have "map (\<lambda>i. if recv_size ! i \<noteq> 0 then to_int (cur ! i) else recd ! i) [0..<N] = map (\<lambda>p. recd ! p + recv_size ! p) [0..<N]"
    using f(2) assms(5) pos by (auto simp: fill_inv_def fits)
  ultimately show ?thesis using ne assms(3) f(1) N(1) by (intro exI [of _ m']) (simp add: ADIOI_Fill_user_buffer_def uns)
qed

section \<open>What is left to receive\<close>

text \<open>The receiver as a sender of addresses.\<close>

definition addr_of :: "'a sender \<Rightarrow> int sender" where
  "addr_of d = \<lparr>d_type = d_type d, d_mem = (\<lambda>x. x), d_accesses = d_accesses d, d_buf_idx = d_buf_idx d, d_sent = d_sent d\<rparr>"

lemma addr_of_simps [simp]: "d_type (addr_of d) = d_type d" "d_mem (addr_of d) = (\<lambda>x. x)" "d_accesses (addr_of d) = d_accesses d"
  "d_buf_idx (addr_of d) = d_buf_idx d" "d_sent (addr_of d) = d_sent d"
  by (simp_all add: addr_of_def)

lemma stores_stored:
  "length as = length bss \<Longrightarrow>
   stored (\<Union>p < length bss. set (zip [as ! p..as ! p + int (length (bss ! p)) - 1] (bss ! p))) m (fold (\<lambda>(a, bs) m. store m a bs) (zip as bss) m)"
proof (induction as bss arbitrary: m rule: list_induct2)
  case Nil
  then show ?case by (simp add: stored_none)
next
  case (Cons a as bs bss)
  have "stored (set (zip [a..a + int (length bs) - 1] bs) \<union> (\<Union>p < length bss. set (zip [as ! p..as ! p + int (length (bss ! p)) - 1] (bss ! p)))) m
      (fold (\<lambda>(a, bs) m. store m a bs) (zip as bss) (store m a bs))"
    by (rule stored_trans [OF store_stored Cons.IH])
  moreover have "(\<Union>p < Suc n. F p) = F 0 \<union> (\<Union>p < n. F (Suc p))" for n and F :: "nat \<Rightarrow> (int \<times> byte) set" by (auto simp: less_Suc_eq_0_disj)
  ultimately show ?case by simp
qed

lemma recv_data_ok:
  assumes t: "to_send agg N (addr_of d) A" and n: "length recv_size = N" "length msgs = N" "\<forall>p < N. int (length (msgs ! p)) = recv_size ! p"
    and le: "\<forall>p < N. recv_size ! p \<le> int (length (A p))"
  shows "\<exists>d'. recv_data agg recv_size msgs d = Some d' \<and> to_send agg N (addr_of d') (\<lambda>p. drop (nat (recv_size ! p)) (A p)) \<and>
    stored (\<Union>p < N. set (zip (A p) (msgs ! p))) (d_mem d) (d_mem d')"
proof -
  have pos: "\<forall>p < N. 0 \<le> recv_size ! p \<and> recv_size ! p \<le> int (length (A p))" using n(3) le by (metis of_nat_0_le_iff)
  obtain d2 where sd: "send_data agg recv_size (addr_of d) = Some (map (\<lambda>p. take (nat (recv_size ! p)) (A p)) [0..<N], d2)"
    "to_send agg N d2 (\<lambda>p. drop (nat (recv_size ! p)) (A p))"
    using send_data_ok [OF t n(1) pos] by blast
  have ok: "\<not> (length msgs \<noteq> length recv_size \<or> (\<exists>i < length msgs. int (length (msgs ! i)) \<noteq> recv_size ! i))" using n by simp
  consider "bt_is_contig (d_type d)" | "\<not> bt_is_contig (d_type d)" "\<forall>n \<in> set recv_size. n = 0" | "\<not> bt_is_contig (d_type d)" "\<not> (\<forall>n \<in> set recv_size. n = 0)" by blast
  then show ?thesis
  proof cases
    case 1
    have b: "length (d_buf_idx d) = N" "\<And>p. p < N \<Longrightarrow> A p = [d_buf_idx d ! p..d_buf_idx d ! p + int (length (A p)) - 1]"
      using t 1 by (auto simp: to_send_def)
    let ?d = "d\<lparr>d_mem := fold (\<lambda>(a, bs) m. store m a bs) (zip (d_buf_idx d) msgs) (d_mem d), d_buf_idx := map (\<lambda>i. d_buf_idx d ! i + recv_size ! i) [0..<N]\<rparr>"
    have "d2 = addr_of ?d" using sd(1) 1 b(1) n(1) by (simp add: send_data_def addr_of_def)
    moreover have "zip (A p) (msgs ! p) = zip [d_buf_idx d ! p..d_buf_idx d ! p + int (length (msgs ! p)) - 1] (msgs ! p)" if p: "p < N" for p
    proof -
      have l: "length (msgs ! p) \<le> length (A p)" using le n(3) p by (metis nat_int_comparison(3))
      have "take (length (msgs ! p)) (A p) = [d_buf_idx d ! p..d_buf_idx d ! p + int (length (msgs ! p)) - 1]"
        using l by (subst b(2) [OF p]) (auto simp: take_upto min_def)
      then show ?thesis by (metis take_zip take_all length_zip min.cobounded2 order_refl)
    qed
    then have "stored (\<Union>p < N. set (zip (A p) (msgs ! p))) (d_mem d) (d_mem ?d)" using stores_stored [of "d_buf_idx d" msgs] b(1) n(2) by simp
    moreover have "recv_data agg recv_size msgs d = Some ?d" using ok 1 b(1) n(1) by (simp add: recv_data_def)
    ultimately show ?thesis using sd(2) by blast
  next
    case 2
    then have z: "\<And>p. p < N \<Longrightarrow> recv_size ! p = 0" using n(1) by auto
    then have "msgs ! p = []" if "p < N" for p using n(3) that by simp
    then have "(\<Union>p < N. set (zip (A p) (msgs ! p))) = {}" by simp
    moreover have "to_send agg N (addr_of d) (\<lambda>p. drop (nat (recv_size ! p)) (A p))" by (rule to_send_cong [OF _ t]) (simp add: z)
    moreover have "recv_data agg recv_size msgs d = Some d" using ok 2 by (simp add: recv_data_def)
    ultimately show ?thesis using stored_none by metis
  next
    case 3
    let ?D = "\<lambda>ps p. data_for (view_pos (mem_view (d_type d))) p 0 ps"
    obtain ps where ps: "all_pieces agg (d_accesses d) = Some ps" "pieces_ok N ps" and w: "walkable_buf (d_type d)" "length (d_sent d) = N"
      and D: "\<And>p. p < N \<Longrightarrow> 0 \<le> d_sent d ! p \<and> int (length (A p)) + d_sent d ! p \<le> INT_MAX \<and> A p = drop (nat (d_sent d ! p)) (?D ps p) \<and>
        d_sent d ! p \<le> int (length (?D ps p))"
      using t 3(1) by (auto simp: to_send_def)
    have sz: "sizes_ok N recv_size (d_sent d)" using n(1) pos w(2) D by (fastforce simp: sizes_ok_def)
    have fit: "d_sent d ! p + recv_size ! p \<le> int (length (?D ps p))" if p: "p < N" for p
    proof -
      have "int (length (A p)) = int (length (?D ps p)) - d_sent d ! p" using D [OF p] by auto
      then show ?thesis using pos p by fastforce
    qed
    obtain m' where m': "ADIOI_Fill_user_buffer (d_type d) (d_mem d) msgs agg (d_accesses d) recv_size (d_sent d) = Some (map (\<lambda>p. d_sent d ! p + recv_size ! p) [0..<N], m')"
      "stored (\<Union>p < N. set (zip (drop (nat (d_sent d ! p)) (?D ps p)) (msgs ! p))) (d_mem d) m'"
      using Fill_user_buffer_ok [OF w(1) sz ps _ n(2,3)] fit by blast
    let ?d = "d\<lparr>d_mem := m', d_sent := map (\<lambda>p. d_sent d ! p + recv_size ! p) [0..<N]\<rparr>"
    have "recv_data agg recv_size msgs d = Some ?d"
      unfolding recv_data_def if_not_P [OF ok] if_not_P [OF 3(1)] if_not_P [OF 3(2)] m'(1) by simp
    moreover have "d2 = addr_of ?d"
    proof -
      have "ADIOI_Fill_send_buffer (d_type d) (\<lambda>x. x) agg (d_accesses d) recv_size (d_sent d) =
          Some (map (\<lambda>p. take (nat (recv_size ! p)) (drop (nat (d_sent d ! p)) (?D ps p))) [0..<N], map (\<lambda>p. d_sent d ! p + recv_size ! p) [0..<N])"
        using Fill_send_buffer_ok [OF w(1) sz ps, of "\<lambda>x. x"] fit by simp
      moreover have "\<not> bt_is_contig (d_type (addr_of d))" using 3(1) by simp
      ultimately show ?thesis using sd(1) unfolding send_data_def if_not_P [OF 3(2)] by (simp add: addr_of_def)
    qed
    moreover have "stored (\<Union>p < N. set (zip (A p) (msgs ! p))) (d_mem d) (d_mem ?d)" using m'(2) D by simp
    ultimately show ?thesis using sd(2) by blast
  qed
qed

end
