(* ===== verification/Coll_Round.thy ===== *)
theory Coll_Round
  imports Coll_Write Sieve_Windows
begin

text \<open>
  One aggregator in one round of the collective write: which bytes it asks for, whether its window has holes, and what is in the window
  when the messages have arrived.
\<close>

section \<open>Requests in order\<close>

fun ascending :: "int \<Rightarrow> offlens \<Rightarrow> bool" where
  "ascending lo [] = True"
| "ascending lo ((off, len) # xs) = (lo \<le> off \<and> 0 < len \<and> len \<le> INT_MAX \<and> ascending (off + len) xs)"

text \<open>The part of the requests below \<open>e\<close>, and the rest.\<close>

fun served :: "int \<Rightarrow> offlens \<Rightarrow> offlens" where
  "served e [] = []"
| "served e ((off, len) # xs) =
     (if off < e then (if e - off < len then [(off, e - off)] else (off, len) # served e xs) else [])"

fun unserved :: "int \<Rightarrow> offlens \<Rightarrow> offlens" where
  "unserved e [] = []"
| "unserved e ((off, len) # xs) =
     (if off < e then (if e - off < len then (e, len - (e - off)) # xs else unserved e xs) else (off, len) # xs)"

lemma bytes_of_Cons: "bytes_of ((off, len) # xs) = [off..off + len - 1] @ bytes_of xs"
  by (simp add: bytes_of_def)

lemma bytes_of_Nil [simp]: "bytes_of [] = []"
  by (simp add: bytes_of_def)

lemma ascending_weaken: "ascending lo xs \<Longrightarrow> lo' \<le> lo \<Longrightarrow> ascending lo' xs"
  by (cases xs) auto

lemma ascending_bytes: "ascending lo xs \<Longrightarrow> x \<in> set (bytes_of xs) \<Longrightarrow> lo \<le> x"
proof (induction xs arbitrary: lo)
  case (Cons p xs)
  obtain off len where p: "p = (off, len)" by force
  have "off + len \<le> x" if "x \<in> set (bytes_of xs)" using Cons p that by auto
  then show ?case using Cons.prems p by (auto simp: bytes_of_Cons)
qed simp

lemma ascending_unserved: "ascending lo xs \<Longrightarrow> ascending e (unserved e xs)"
  by (induction e xs arbitrary: lo rule: unserved.induct) (auto simp: add.commute)

lemma ascending_served: "ascending lo xs \<Longrightarrow> ascending lo (served e xs)"
  by (induction e xs arbitrary: lo rule: served.induct) (auto simp: INT_MAX_def)

lemma ascending_sorted: "ascending lo xs \<Longrightarrow> sorted (map fst xs) \<and> (\<forall>x \<in> set xs. lo \<le> fst x)"
proof (induction xs arbitrary: lo)
  case (Cons p xs)
  obtain off len where p: "p = (off, len)" by force
  have "sorted (map fst xs)" "\<forall>x \<in> set xs. off + len \<le> fst x" using Cons p by auto
  moreover have "0 < len" "lo \<le> off" using Cons.prems p by auto
  ultimately show ?case using p by fastforce
qed simp

lemma served_bytes: "ascending lo xs \<Longrightarrow> bytes_of xs = bytes_of (served e xs) @ bytes_of (unserved e xs)"
proof (induction e xs arbitrary: lo rule: served.induct)
  case (2 e off len xs)
  have "[off..off + len - 1] = [off..e - 1] @ [e..off + len - 1]" if "off < e" "e - off < len"
    using upto_join [of off e "off + len"] that by simp
  then show ?case using 2 by (auto simp: bytes_of_Cons add.commute)
qed simp

lemma served_below: "ascending lo xs \<Longrightarrow> x \<in> set (bytes_of (served e xs)) \<Longrightarrow> x < e"
  by (induction e xs arbitrary: lo rule: served.induct) (auto simp: bytes_of_Cons split: if_splits)

lemma length_bytes_of: "ascending lo xs \<Longrightarrow> int (length (bytes_of xs)) = sum_list (map snd xs)"
  by (induction xs arbitrary: lo) (auto simp: bytes_of_Cons)

lemma bytes_of_served: "ascending lo xs \<Longrightarrow> bytes_of (served e xs) = filter (\<lambda>x. x < e) (bytes_of xs)"
proof -
  assume a: "ascending lo xs"
  have "filter (\<lambda>x. x < e) (bytes_of (unserved e xs)) = []"
    using ascending_bytes [OF ascending_unserved [OF a]] by (auto simp: filter_empty_conv not_less)
  moreover have "filter (\<lambda>x. x < e) (bytes_of (served e xs)) = bytes_of (served e xs)"
    using served_below [OF a] by (simp add: filter_id_conv)
  ultimately show ?thesis using served_bytes [OF a, of e] by (metis append_Nil2 filter_append)
qed

section \<open>The scan\<close>

definition unmet :: "source \<Rightarrow> offlens" where
  "unmet s = (if s_ptr s < length (s_reqs s)
     then (fst (s_reqs s ! s_ptr s) + s_part s, snd (s_reqs s ! s_ptr s) - s_part s) # drop (Suc (s_ptr s)) (s_reqs s) else [])"

definition cut_at :: "source \<Rightarrow> nat \<Rightarrow> offlens" where
  "cut_at s k = (if s_part s \<noteq> 0 then (s_reqs s)[k := (fst (s_reqs s ! k), s_part s)] else s_reqs s)"

lemma to_int_pos: "0 \<le> x \<Longrightarrow> x \<le> INT_MAX \<Longrightarrow> to_int x = x"
  by (rule to_int_id) (auto simp: INT_MAX_def)

lemma to_unsigned_pos: "0 \<le> x \<Longrightarrow> x \<le> INT_MAX \<Longrightarrow> to_unsigned x = x"
  by (rule to_unsigned_id) (auto simp: INT_MAX_def)

text \<open>Where the scan of \<open>xs\<close> stops: so many requests are served completely, and so many bytes of the next one.\<close>

fun stop :: "int \<Rightarrow> offlens \<Rightarrow> nat \<times> int" where
  "stop e [] = (0, 0)"
| "stop e ((off, len) # xs) =
     (if off < e then (if e - off < len then (0, e - off) else (Suc (fst (stop e xs)), snd (stop e xs))) else (0, 0))"

lemma scan_whole:
  assumes "ascending off (drop j rqs)" "length mems = length rqs" "sz \<le> INT_MAX" "j \<le> length rqs"
  shows "scan_reqs off sz rqs mems j 0 cnt r ov =
    (let S = served (off + sz) (drop j rqs); (k, part) = stop (off + sz) (drop j rqs) in
     Some (\<lparr>s_reqs = rqs, s_mems = take j mems @ map (\<lambda>x. fst x - off) S @ drop (j + length S) mems, s_ptr = j + k, s_part = part\<rparr>,
       cnt + length S, r + sum_list (map snd S), ov))"
  using assms
proof (induction "drop j rqs" arbitrary: j mems cnt r)
  case Nil
  then show ?case by (simp add: scan_reqs.simps)
next
  case (Cons p xs)
  obtain o1 len where p: "p = (o1, len)" by force
  have j: "j < length rqs" using Cons.hyps(2) by (metis drop_all list.distinct(1) not_less)
  then have d: "drop j rqs = rqs ! j # drop (Suc j) rqs" by (simp add: Cons_nth_drop_Suc)
  then have x: "rqs ! j = (o1, len)" "xs = drop (Suc j) rqs" using Cons.hyps(2) p by auto
  have asc: "off \<le> o1" "0 < len" "len \<le> INT_MAX" "ascending (o1 + len) xs" using Cons.prems(1) d x by auto
  have i: "to_int len = len" "to_unsigned len = len" using asc by (simp_all add: to_int_pos to_unsigned_pos)
  have same: "rqs[j := (o1, len)] = rqs" using x(1) by (metis list_update_id)
  have av: "to_int (off + sz - o1) = off + sz - o1" if "o1 < off + sz" using asc Cons.prems(3) that by (intro to_int_pos) auto
  have mn: "to_int (min (off + sz - o1) len) = min (off + sz - o1) len" if "o1 < off + sz"
    using asc Cons.prems(3) that by (intro to_int_pos) auto
  have upd: "mems[j := v] = take j mems @ v # drop (Suc j) mems" for v using j Cons.prems(2) by (simp add: upd_conv_take_nth_drop)
  show ?case
  proof (cases "o1 < off + sz \<and> len \<le> off + sz - o1")
    case False
    have "\<not> (Suc j < length rqs \<and> fst (rqs ! Suc j) < off + sz)" if "off + sz - o1 < len"
    proof
      assume *: "Suc j < length rqs \<and> fst (rqs ! Suc j) < off + sz"
      then have "o1 + len \<le> fst (rqs ! Suc j)"
        using asc(4) unfolding x(2) by (metis Cons_nth_drop_Suc ascending_sorted list.set_intros(1))
      with * that show False by simp
    qed
    then show ?thesis using False j Cons.prems(2) asc av mn
      by (subst scan_reqs.simps) (auto simp: d x i same Let_def upd min_def)
  next
    case True
    have IH: "scan_reqs off sz rqs (mems[j := o1 - off]) (Suc j) 0 (Suc cnt) (r + len) ov =
      (let S = served (off + sz) (drop (Suc j) rqs); (k, part) = stop (off + sz) (drop (Suc j) rqs) in
       Some (\<lparr>s_reqs = rqs, s_mems = take (Suc j) (mems[j := o1 - off]) @ map (\<lambda>x. fst x - off) S @ drop (Suc j + length S) (mems[j := o1 - off]),
         s_ptr = Suc j + k, s_part = part\<rparr>, Suc cnt + length S, r + len + sum_list (map snd S), ov))"
      by (rule Cons.hyps(1)) (use x asc Cons.prems j ascending_weaken [of "o1 + len" xs off] in auto)
    have t: "take (Suc j) (mems[j := o1 - off]) = take j mems @ [o1 - off]" using j Cons.prems(2) by (simp add: take_Suc_conv_app_nth)
    have m: "min (off + sz - o1) len = len" using True by simp
    show ?thesis
      by (subst scan_reqs.simps) (use True j Cons.prems(2) av in \<open>simp add: x i m IH t d Let_def split_def\<close>)
  qed
qed

text \<open>A request that was served in part goes on where it stopped.\<close>

lemma scan_part:
  assumes "j < length rqs" "0 \<le> snd (rqs ! j) - part" "snd (rqs ! j) - part \<le> INT_MAX"
  shows "scan_reqs off sz rqs mems j part cnt r ov =
    scan_reqs off sz (rqs[j := (fst (rqs ! j) + part, snd (rqs ! j) - part)]) mems j 0 cnt r ov"
  using assms by (subst (1 2) scan_reqs.simps) (auto simp: Let_def to_int_pos)

lemma stop_served:
  assumes "ascending lo xs"
  shows "fst (stop e xs) \<le> length xs" "fst (stop e xs) = length xs \<Longrightarrow> snd (stop e xs) = 0"
    "fst (stop e xs) < length xs \<Longrightarrow> unserved e xs = (fst (xs ! fst (stop e xs)) + snd (stop e xs), snd (xs ! fst (stop e xs)) - snd (stop e xs)) #
       drop (Suc (fst (stop e xs))) xs"
    "fst (stop e xs) = length xs \<Longrightarrow> unserved e xs = []"
    "snd (stop e xs) = 0 \<Longrightarrow> served e xs = take (fst (stop e xs)) xs"
    "snd (stop e xs) \<noteq> 0 \<Longrightarrow> served e xs = take (fst (stop e xs)) xs @ [(fst (xs ! fst (stop e xs)), snd (stop e xs))] \<and> fst (stop e xs) < length xs"
  using assms by (induction e xs arbitrary: lo rule: stop.induct) (auto split: if_splits)

lemma served_cut:
  assumes "ascending lo xs" "stop e xs = (k, pt)"
  defines "n \<equiv> length (served e xs)"
  shows "n \<le> length xs" "take n (if pt \<noteq> 0 then xs[n - 1 := (fst (xs ! (n - 1)), pt)] else xs) = served e xs" "pt \<noteq> 0 \<Longrightarrow> served e xs \<noteq> []"
proof -
  note stp = stop_served [OF assms(1), of e, unfolded assms(2) fst_conv snd_conv]
  have n: "n = (if pt = 0 then k else Suc k)" using stp(1,5,6) by (auto simp: n_def)
  show "n \<le> length xs" using n stp(1,6) by auto
  show "pt \<noteq> 0 \<Longrightarrow> served e xs \<noteq> []" using stp(6) by auto
  show "take n (if pt \<noteq> 0 then xs[n - 1 := (fst (xs ! (n - 1)), pt)] else xs) = served e xs"
    using n stp(5,6) by (auto simp: take_Suc_conv_app_nth take_update_cancel)
qed

definition source_ok :: "int \<Rightarrow> source \<Rightarrow> bool" where
  "source_ok off s \<longleftrightarrow> ascending off (unmet s) \<and> length (s_mems s) = length (s_reqs s) \<and> s_ptr s \<le> length (s_reqs s) \<and>
     (s_ptr s = length (s_reqs s) \<longrightarrow> s_part s = 0)"

text \<open>What process asks is what is served, and what is left is unmet.\<close>

lemma plan_ok:
  assumes "source_ok off s" "0 \<le> sz" "sz \<le> INT_MAX"
  defines "S \<equiv> served (off + sz) (unmet s)"
  shows "\<exists>p. plan_source off sz s = Some p \<and> source_ok (off + sz) (p_source p) \<and> unmet (p_source p) = unserved (off + sz) (unmet s) \<and>
    p_count p = length S \<and> p_recv p = sum_list (map snd S) \<and> \<not> p_overlap p \<and>
    recv_type p = map (\<lambda>x. (fst x - off, snd x)) S \<and>
    p_start p + p_count p \<le> length (cut_reqs p) \<and> take (p_count p) (drop (p_start p) (cut_reqs p)) = S"
proof -
  obtain rqs mems j part where s: "s = \<lparr>s_reqs = rqs, s_mems = mems, s_ptr = j, s_part = part\<rparr>" by (cases s) auto
  define rqs' where "rqs' = (if j < length rqs then rqs[j := (fst (rqs ! j) + part, snd (rqs ! j) - part)] else rqs)"
  have ok: "ascending off (unmet s)" "length mems = length rqs" "j \<le> length rqs" "j = length rqs \<Longrightarrow> part = 0"
    using assms(1) by (auto simp: source_ok_def s)
  have len: "length rqs' = length rqs" by (simp add: rqs'_def)
  have pend: "unmet s = drop j rqs'"
    using ok(3) by (auto simp: unmet_def s rqs'_def drop_update_cancel Cons_nth_drop_Suc [symmetric])
  let ?xs = "drop j rqs'"
  have asc: "ascending off ?xs" using ok(1) pend by simp
  obtain k pt where st: "stop (off + sz) ?xs = (k, pt)" by force
  note stp = stop_served [OF asc, of "off + sz", unfolded st fst_conv snd_conv]
  have "scan_reqs off sz rqs mems j part 0 0 False = scan_reqs off sz rqs' mems j 0 0 0 False"
  proof (cases "j < length rqs")
    case True
    then have "0 \<le> snd (rqs ! j) - part" "snd (rqs ! j) - part \<le> INT_MAX" using ok(1) by (auto simp: unmet_def s)
    then show ?thesis using scan_part [OF True] True by (simp add: rqs'_def)
  qed (use ok in \<open>simp add: rqs'_def\<close>)
  moreover have "S = served (off + sz) ?xs" using pend by (simp add: S_def)
  ultimately have sc: "scan_reqs off sz rqs mems j part 0 0 False =
      Some (\<lparr>s_reqs = rqs', s_mems = take j mems @ map (\<lambda>x. fst x - off) S @ drop (j + length S) mems, s_ptr = j + k, s_part = pt\<rparr>,
        length S, sum_list (map snd S), False)" (is "_ = Some (?s', _)")
    using scan_whole [OF asc _ assms(3)] ok(2,3) len st by (simp add: Let_def)
  let ?p = "\<lparr>p_source = ?s', p_start = j, p_count = length S, p_recv = sum_list (map snd S), p_overlap = False\<rparr>"
  have S: "length S \<le> length ?xs" "take (length S) (if pt \<noteq> 0 then ?xs[length S - 1 := (fst (?xs ! (length S - 1)), pt)] else ?xs) = S" "pt \<noteq> 0 \<Longrightarrow> S \<noteq> []"
    unfolding S_def pend by (fact served_cut [OF asc st])+
  have "cut_reqs ?p = (if pt \<noteq> 0 then rqs'[j + length S - 1 := (fst (rqs' ! (j + length S - 1)), pt)] else rqs')"
    by (simp add: cut_reqs_def Let_def)
  moreover have "drop j (rqs'[j + length S - 1 := y]) = ?xs[length S - 1 := y]" if "S \<noteq> []" for y
    using that by (cases S) (simp_all add: drop_update_swap)
  moreover have "?xs ! (length S - 1) = rqs' ! (j + length S - 1)" if "S \<noteq> []" using that ok(3) len by (cases S) simp_all
  ultimately have cut: "take (length S) (drop j (cut_reqs ?p)) = S" "length (cut_reqs ?p) = length rqs" using S len by auto
  have "unmet ?s' = unserved (off + sz) ?xs"
    using stp(1,3,4) len ok(3) by (cases "k = length ?xs") (auto simp: unmet_def add.commute)
  moreover have "source_ok (off + sz) ?s'" 
    using calculation ascending_unserved [OF asc] S(1) len ok(2,3) stp(1,2) by (auto simp: source_ok_def)
  moreover have "recv_type ?p = map (\<lambda>x. (fst x - off, snd x)) S"
    using cut(1) ok(2,3) S(1) len by (simp add: recv_type_def zip_map1 zip_map2 zip_same_conv_map split_def)
  moreover have "plan_source off sz s = Some ?p" using sc by (simp add: plan_source_def s)
  ultimately show ?thesis using cut S(1) ok(3) len pend by (intro exI [of _ ?p]) auto
qed

section \<open>Holes\<close>

lemma to_int_cong: "to_int (to_int a + to_int b - to_int c) = to_int (a + b - c)"
proof -
  have m: "to_int x mod 2 ^ 32 = x mod 2 ^ 32" for x by (simp add: to_int_def mod_simps)
  have "(to_int a + to_int b - to_int c) mod 2 ^ 32 = (a + b - c) mod 2 ^ 32"
    using m by (metis (no_types, opaque_lifting) mod_add_eq mod_diff_eq)
  then have "(to_int a + to_int b - to_int c + 2 ^ 31) mod 2 ^ 32 = (a + b - c + 2 ^ 31) mod 2 ^ 32" by (metis mod_add_left_eq)
  then show ?thesis by (simp only: to_int_def)
qed

lemma coalesce_covers:
  assumes "coalesce off0 len0 xs = (True, len)" "\<forall>(off, l) \<in> set xs. off0 \<le> off \<and> 0 < l \<and> off + l - off0 \<le> INT_MAX"
    and "off0 \<le> q" "q < off0 + len"
  shows "q < off0 + len0 \<or> q \<in> set (bytes_of xs)"
  using assms
proof (induction off0 len0 xs rule: coalesce.induct)
  case (2 off0 len0 off l xs)
  have "to_int (off + l - off0) = off + l - off0" using 2(3) by (intro to_int_pos) auto
  then have "to_int (to_int off + to_int l - to_int off0) = off + l - off0" by (simp add: to_int_cong)
  moreover have "off \<le> off0 + len0" using 2(2) by (auto split: if_splits)
  ultimately have "q < off0 + (if off + l - off0 > len0 then off + l - off0 else len0) \<or> q \<in> set (bytes_of xs)"
    using 2 by (auto simp: Let_def)
  then show ?case using \<open>off \<le> off0 + len0\<close> by (auto simp: bytes_of_Cons split: if_splits)
qed simp

lemma set_bytes_of: "set (bytes_of xs) = (\<Union>(off, l) \<in> set xs. {off..<off + l})"
  by (auto simp: bytes_of_def)

lemma no_hole_covers:
  assumes "\<not> has_hole off sz srt" "srt \<noteq> []" "\<forall>(o1, l) \<in> set srt. off \<le> o1 \<and> 0 < l \<and> o1 + l \<le> off + sz" "sz \<le> INT_MAX"
    and "off \<le> q" "q < off + sz"
  shows "q \<in> set (bytes_of srt)"
proof -
  obtain off0 len0 xs where srt: "srt = (off0, len0) # xs" using assms(2) by (cases srt) auto
  have o: "off0 = off" using assms(1) srt by (auto simp: has_hole_def split: if_splits)
  have l0: "0 < len0" "off + len0 \<le> off + sz" using assms(3) srt o by auto
  then have i: "to_int len0 = len0" using assms(4) by (intro to_int_pos) auto
  then have c: "coalesce off len0 xs = (True, sz)" using assms(1) srt o by (auto simp: has_hole_def split: prod.splits)
  have "\<forall>(o1, l) \<in> set xs. off \<le> o1 \<and> 0 < l \<and> o1 + l - off \<le> INT_MAX" using assms(3,4) srt by fastforce
  from coalesce_covers [OF c this assms(5,6)] show ?thesis using srt o assms(5) by (auto simp: bytes_of_Cons)
qed

text \<open>The plan for requests \<open>U\<close> in the window from \<open>off\<close>, \<open>sz\<close> bytes long.\<close>

definition planned :: "int \<Rightarrow> int \<Rightarrow> offlens \<Rightarrow> plan \<Rightarrow> bool" where
  "planned off sz U p \<longleftrightarrow> ascending off U \<and> p_count p = length (served (off + sz) U) \<and> p_recv p = sum_list (map snd (served (off + sz) U)) \<and>
     \<not> p_overlap p \<and> recv_type p = map (\<lambda>x. (fst x - off, snd x)) (served (off + sz) U) \<and>
     p_start p + p_count p \<le> length (cut_reqs p) \<and> take (p_count p) (drop (p_start p) (cut_reqs p)) = served (off + sz) U"

lemma served_within:
  assumes "ascending off U"
  shows "\<forall>(o1, l) \<in> set (served (off + sz) U). off \<le> o1 \<and> 0 < l \<and> o1 + l \<le> off + sz"
proof -
  have pos: "\<forall>(o1, l) \<in> set xs. off \<le> o1 \<and> 0 < l" if "ascending off xs" for xs
    using that
  proof (induction xs arbitrary: off)
    case (Cons x xs)
    then show ?case by (cases x) fastforce
  qed simp
  note * = pos [OF ascending_served [OF assms, of "off + sz"]]
  show ?thesis
  proof clarify
    fix o1 l assume m: "(o1, l) \<in> set (served (off + sz) U)"
    then have l: "off \<le> o1" "0 < l" using * by auto
    then have "o1 + l - 1 \<in> set (bytes_of (served (off + sz) U))" using m by (force simp: set_bytes_of)
    then show "off \<le> o1 \<and> 0 < l \<and> o1 + l \<le> off + sz" using served_below [OF assms] l by fastforce
  qed
qed

lemma sum_snd_pos: "xs \<noteq> [] \<Longrightarrow> \<forall>(o1, l) \<in> set xs. 0 < l \<Longrightarrow> 0 < sum_list (map snd (xs :: offlens))"
  by (induction xs rule: list_nonempty_induct) auto

lemma planned_none:
  assumes "planned off sz U p"
  shows "p_recv p \<noteq> 0 \<longleftrightarrow> p_count p \<noteq> 0"
proof -
  have "\<forall>(o1, l) \<in> set (served (off + sz) U). 0 < l" using served_within [of off U sz] assms by (auto simp: planned_def)
  then have "served (off + sz) U \<noteq> [] \<Longrightarrow> sum_list (map snd (served (off + sz) U)) \<noteq> 0" using sum_snd_pos by fastforce
  moreover have "p_recv p = sum_list (map snd (served (off + sz) U))" "p_count p = length (served (off + sz) U)"
    using assms by (simp_all add: planned_def)
  ultimately show ?thesis by auto
qed

lemma find_hole_ok:
  assumes "\<forall>i < length ps. planned off sz (U i) (ps ! i)" "sz \<le> INT_MAX"
  shows "\<exists>h. find_hole off sz ps = Some h \<and>
    (\<not> h \<longrightarrow> (\<exists>p \<in> set ps. p_count p \<noteq> 0) \<longrightarrow> (\<forall>q. off \<le> q \<and> q < off + sz \<longrightarrow> (\<exists>i < length ps. q \<in> set (bytes_of (served (off + sz) (U i))))))"
proof (cases "sum_list (map p_count ps) = 0")
  case True
  then show ?thesis by (auto simp: find_hole_def)
next
  case False
  let ?cnt = "map p_count ps" and ?start = "map p_start ps" and ?o = "map cut_reqs ps"
  let ?f = "\<lambda>i. take (?cnt ! i) (drop (?start ! i) (?o ! i))"
  have f: "?f i = served (off + sz) (U i)" if "i < length ps" for i using assms(1) that by (auto simp: planned_def)
  have asc: "ascending off (U i)" if "i < length ps" for i using assms(1) that by (auto simp: planned_def)
  have "?start ! i + ?cnt ! i \<le> length (?o ! i) \<and> sorted (map fst (?f i))" if "i < length ?cnt" for i
  proof -
    have i: "i < length ps" using that by simp
    then have "planned off sz (U i) (ps ! i)" using assms(1) by blast
    then show ?thesis using f [OF i] ascending_sorted [OF ascending_served [OF asc [OF i]]] i by (simp add: planned_def)
  qed
  moreover have "length (filter (\<lambda>p. p_recv p \<noteq> 0) ps) = length (filter (\<lambda>c. c \<noteq> 0) ?cnt)"
  proof -
    have "(p_recv p \<noteq> 0) = (p_count p \<noteq> 0)" if "p \<in> set ps" for p
      using that assms(1) planned_none unfolding in_set_conv_nth by blast
    then have "filter (\<lambda>p. p_recv p \<noteq> 0) ps = filter (\<lambda>p. p_count p \<noteq> 0) ps" by (rule filter_cong [OF refl])
    then show ?thesis by (simp add: filter_map comp_def)
  qed
  ultimately obtain srt where srt: "ADIOI_Heap_merge ?o ?cnt ?start (length (filter (\<lambda>p. p_recv p \<noteq> 0) ps)) (sum_list ?cnt) = Some srt"
    "mset srt = mset (concat (map ?f [0..<length ?cnt]))"
    using Heap_merge_ok [of ?cnt ?start ?o] by blast
  have "map ?f [0..<length ?cnt] = map (\<lambda>i. served (off + sz) (U i)) [0..<length ps]" using f by auto
  then have "set srt = set (concat (map (\<lambda>i. served (off + sz) (U i)) [0..<length ps]))" using mset_eq_setD [OF srt(2)] by simp
  then have set: "set srt = (\<Union>i < length ps. set (served (off + sz) (U i)))" by auto
  have win: "\<forall>(o1, l) \<in> set srt. off \<le> o1 \<and> 0 < l \<and> o1 + l \<le> off + sz" unfolding set using served_within [OF asc] by blast
  have ne: "srt \<noteq> []" 
  proof -
    obtain p where "p \<in> set ps" "p_count p \<noteq> 0" using False by auto
    then obtain i where "i < length ps" "served (off + sz) (U i) \<noteq> []" using assms(1) by (force simp: planned_def in_set_conv_nth)
    then show ?thesis using set by force
  qed
  have "find_hole off sz ps = Some (has_hole off sz srt)" using srt(1) by (simp only: find_hole_def Let_def if_not_P [OF False] option.map)
  moreover have "\<exists>i < length ps. q \<in> set (bytes_of (served (off + sz) (U i)))" if "\<not> has_hole off sz srt" "off \<le> q" "q < off + sz" for q
    using no_hole_covers [OF that(1) ne win assms(2) that(2,3)] unfolding set_bytes_of set by auto
  ultimately show ?thesis by blast
qed

section \<open>Receives\<close>

text \<open>The window \<open>w'\<close> is \<open>w\<close> with data at the file positions of \<open>zs\<close>.\<close>

definition filled :: "int \<Rightarrow> (int \<times> byte) list \<Rightarrow> byte list \<Rightarrow> byte list \<Rightarrow> bool" where
  "filled off zs w w' \<longleftrightarrow> length w' = length w \<and>
     (\<forall>k < length w. if off + int k \<in> fst ` set zs then (off + int k, w' ! k) \<in> set zs else w' ! k = w ! k)"

lemma filled_at:
  assumes "filled off zs w w'" "off \<le> q" "q < off + int (length w)"
  shows "if q \<in> fst ` set zs then (q, w' ! nat (q - off)) \<in> set zs else w' ! nat (q - off) = w ! nat (q - off)"
proof -
  have "nat (q - off) < length w" "off + int (nat (q - off)) = q" using assms(2,3) by auto
  moreover have "\<forall>k < length w. if off + int k \<in> fst ` set zs then (off + int k, w' ! k) \<in> set zs else w' ! k = w ! k"
    using assms(1) by (simp add: filled_def)
  ultimately show ?thesis by (metis (no_types, lifting))
qed

lemma filled_Nil: "filled off [] w w"
  by (simp add: filled_def)

lemma filled_append:
  assumes "filled off zs w w1" "filled off ys w1 w2"
  shows "filled off (zs @ ys) w w2"
  unfolding filled_def
proof (intro conjI allI impI)
  show "length w2 = length w" using assms by (simp add: filled_def)
  fix k assume k: "k < length w"
  have 1: "if off + int k \<in> fst ` set zs then (off + int k, w1 ! k) \<in> set zs else w1 ! k = w ! k"
    using assms(1) k by (simp add: filled_def)
  have 2: "if off + int k \<in> fst ` set ys then (off + int k, w2 ! k) \<in> set ys else w2 ! k = w1 ! k"
    using assms k by (simp add: filled_def)
  show "if off + int k \<in> fst ` set (zs @ ys) then (off + int k, w2 ! k) \<in> set (zs @ ys) else w2 ! k = w ! k"
    using 1 2 by (simp add: image_Un split: if_splits)
qed

lemma filled_block:
  assumes "0 \<le> i" "i + int (length bs) \<le> int (length w)"
  shows "\<exists>w'. memcpy_at w i bs = Some w' \<and> filled off (zip [off + i..off + i + int (length bs) - 1] bs) w w'"
proof -
  obtain w' where w': "memcpy_at w i bs = Some w'" "length w' = length w"
    "\<And>k. k < length w \<Longrightarrow> w' ! k = (if nat i \<le> k \<and> k < nat i + length bs then bs ! (k - nat i) else w ! k)"
    using memcpy_at_Some [OF assms] by blast
  let ?zs = "zip [off + i..off + i + int (length bs) - 1] bs"
  have mem: "(off + int k, b) \<in> set ?zs \<longleftrightarrow> nat i \<le> k \<and> k < nat i + length bs \<and> b = bs ! (k - nat i)" for k b
  proof
    assume "(off + int k, b) \<in> set ?zs"
    then obtain n where n: "n < length bs" "off + i + int n = off + int k" "b = bs ! n" by (auto simp: in_set_zip)
    then have "n = k - nat i" "nat i \<le> k" using assms(1) by linarith+
    then show "nat i \<le> k \<and> k < nat i + length bs \<and> b = bs ! (k - nat i)" using n by auto
  qed (use assms in \<open>auto simp: in_set_zip intro!: exI [of _ "k - nat i"]\<close>)
  then have "off + int k \<in> fst ` set ?zs \<longleftrightarrow> nat i \<le> k \<and> k < nat i + length bs" for k by force
  then have "filled off ?zs w w'" using w'(2,3) mem by (auto simp: filled_def)
  then show ?thesis using w'(1) by blast
qed

lemma recv_into_ok:
  assumes "ascending off S" "\<forall>(o1, l) \<in> set S. o1 + l \<le> off + int (length w)" "length msg = length (bytes_of S)"
  shows "\<exists>w'. recv_into (map (\<lambda>x. (fst x - off, snd x)) S) msg w = Some w' \<and> filled off (zip (bytes_of S) msg) w w'"
  using assms
proof (induction S arbitrary: w msg)
  case (Cons x S)
  obtain o1 l where x: "x = (o1, l)" by force
  have o: "off \<le> o1" "0 < l" "ascending off S" using Cons.prems(1) x ascending_weaken [of "o1 + l" S off] by auto
  let ?a = "take (nat l) msg" and ?b = "drop (nat l) msg"
  have len: "int (length msg) = l + int (length (bytes_of S))" using Cons.prems(3) x o by (simp add: bytes_of_Cons)
  then have a: "int (length ?a) = l" "length ?b = length (bytes_of S)" using o by auto
  obtain w1 where w1: "memcpy_at w (o1 - off) ?a = Some w1" "filled off (zip [off + (o1 - off)..off + (o1 - off) + int (length ?a) - 1] ?a) w w1"
    using filled_block [of "o1 - off" ?a w off] o a(1) Cons.prems(2) x by auto
  have "length w1 = length w" using w1(2) by (simp add: filled_def)
  then obtain w' where w': "recv_into (map (\<lambda>x. (fst x - off, snd x)) S) ?b w1 = Some w'" "filled off (zip (bytes_of S) ?b) w1 w'"
    using Cons.IH [OF o(3) _ a(2), of w1] Cons.prems(2) by auto
  have "zip (bytes_of (x # S)) msg = zip [o1..o1 + l - 1] ?a @ zip (bytes_of S) ?b"
    using o(2) zip_append1 [of "[o1..o1 + l - 1]" "bytes_of S" msg] by (simp add: x bytes_of_Cons)
  then have "filled off (zip (bytes_of (x # S)) msg) w w'" using filled_append [OF w1(2) w'(2)] a(1) by simp
  moreover have "recv_into (map (\<lambda>x. (fst x - off, snd x)) (x # S)) msg w = Some w'" using w1(1) w'(1) x o(2) len by simp
  ultimately show ?case by blast
qed (simp add: filled_Nil)

text \<open>All messages of a round.\<close>

lemma recv_all_ok:
  assumes "length msgs = length ps" "\<forall>i < length ps. planned off sz (U i) (ps ! i) \<and> length (msgs ! i) = length (bytes_of (served (off + sz) (U i)))"
    and "sz \<le> int (length w)"
  shows "\<exists>w'. recv_all (zip ps msgs) w = Some w' \<and>
    filled off (concat (map (\<lambda>i. zip (bytes_of (served (off + sz) (U i))) (msgs ! i)) [0..<length ps])) w w'"
  using assms
proof (induction ps arbitrary: msgs U w)
  case (Cons p ps)
  obtain m ms where msgs: "msgs = m # ms" using Cons.prems(1) by (cases msgs) auto
  let ?S = "served (off + sz) (U 0)"
  have p: "planned off sz (U 0) p" "length m = length (bytes_of ?S)" using Cons.prems(2) msgs by (auto dest: spec [of _ 0])
  have asc: "ascending off (U 0)" using p(1) by (simp add: planned_def)
  have "\<forall>(o1, l) \<in> set ?S. o1 + l \<le> off + int (length w)" using served_within [OF asc, of sz] Cons.prems(3) by fastforce
  with recv_into_ok [OF ascending_served [OF asc] _ p(2)] obtain w1 where
    w1: "recv_into (map (\<lambda>x. (fst x - off, snd x)) ?S) m w = Some w1" "filled off (zip (bytes_of ?S) m) w w1" by blast
  have rest: "\<forall>i < length ps. planned off sz (U (Suc i)) (ps ! i) \<and> length (ms ! i) = length (bytes_of (served (off + sz) (U (Suc i))))"
    using Cons.prems(2) msgs by auto
  have "length w1 = length w" using w1(2) by (simp add: filled_def)
  then obtain w' where w': "recv_all (zip ps ms) w1 = Some w'"
    "filled off (concat (map (\<lambda>i. zip (bytes_of (served (off + sz) (U (Suc i)))) (ms ! i)) [0..<length ps])) w1 w'"
    using Cons.IH [of ms "\<lambda>i. U (Suc i)" w1] rest Cons.prems(1,3) msgs by auto
  have "concat (map (\<lambda>i. zip (bytes_of (served (off + sz) (U i))) (msgs ! i)) [0..<length (p # ps)]) =
      zip (bytes_of ?S) m @ concat (map (\<lambda>i. zip (bytes_of (served (off + sz) (U (Suc i)))) (ms ! i)) [0..<length ps])"
    by (simp add: msgs upt_conv_Cons map_Suc_upt [symmetric] comp_def del: upt_Suc)
  then have "filled off (concat (map (\<lambda>i. zip (bytes_of (served (off + sz) (U i))) (msgs ! i)) [0..<length (p # ps)])) w w'"
    using filled_append [OF w1(2) w'(2)] by simp
  moreover have "recv_all (zip (p # ps) msgs) w = Some w'"
  proof (cases "p_recv p = 0")
    case True
    then have "?S = []" using planned_none [OF p(1)] p(1) by (simp add: planned_def)
    then have "w1 = w" using w1(1) p(2) by simp
    then show ?thesis using True w'(1) msgs by simp
  next
    case False
    moreover have "recv_type p = map (\<lambda>x. (fst x - off, snd x)) ?S" using p(1) by (simp add: planned_def)
    ultimately show ?thesis using w1(1) w'(1) msgs by simp
  qed
  ultimately show ?case by blast
qed (simp add: filled_Nil)

end
