(* ===== verification/Coll_Rounds.thy ===== *)
theory Coll_Rounds
  imports Coll_Round Coll_Send
begin

text \<open>
  The rounds of the collective write, for a file that keeps the laws of \<open>sieved_file\<close>: every byte the processes have for the aggregators
  gets into the file, and every other byte stays what it was.
\<close>

section \<open>The effect on the file\<close>

text \<open>
  The content \<open>c'\<close> is \<open>c\<close> with the bytes \<open>W\<close> written; where \<open>W\<close> has several bytes for a position, one of them. Only positions in \<open>X\<close> are touched: there,
  a byte that was not in the file may be.
\<close>

definition wrote :: "(int \<times> byte) set \<Rightarrow> int set \<Rightarrow> (int \<Rightarrow> byte option) \<Rightarrow> (int \<Rightarrow> byte option) \<Rightarrow> bool" where
  "wrote W X c c' \<longleftrightarrow> (\<forall>q. if q \<in> fst ` W then \<exists>b. (q, b) \<in> W \<and> c' q = Some b else \<forall>b. c q = Some b \<longrightarrow> c' q = Some b) \<and>
     (\<forall>q. q \<notin> X \<longrightarrow> c' q = c q)"

lemma wrote_refl: "wrote {} {} c c"
  by (simp add: wrote_def)

lemma wrote_trans:
  assumes "wrote W X c c1" "wrote W' X' c1 c2"
  shows "wrote (W \<union> W') (X \<union> X') c c2"
  unfolding wrote_def
proof (intro conjI allI impI)
  fix q
  have 1: "if q \<in> fst ` W then \<exists>b. (q, b) \<in> W \<and> c1 q = Some b else \<forall>b. c q = Some b \<longrightarrow> c1 q = Some b"
    using assms(1) by (simp add: wrote_def)
  have 2: "if q \<in> fst ` W' then \<exists>b. (q, b) \<in> W' \<and> c2 q = Some b else \<forall>b. c1 q = Some b \<longrightarrow> c2 q = Some b"
    using assms(2) by (simp add: wrote_def)
  show "if q \<in> fst ` (W \<union> W') then \<exists>b. (q, b) \<in> W \<union> W' \<and> c2 q = Some b else \<forall>b. c q = Some b \<longrightarrow> c2 q = Some b"
    using 1 2 by (auto simp: image_Un split: if_splits)
next
  fix q assume "q \<notin> X \<union> X'"
  then show "c2 q = c q" using assms by (simp add: wrote_def)
qed

lemma wrote_mono: "wrote W X c c' \<Longrightarrow> X \<subseteq> X' \<Longrightarrow> wrote W X' c c'"
  by (auto simp: wrote_def)

section \<open>A window that can be written\<close>

definition win :: "int \<Rightarrow> nat \<Rightarrow> aggregator \<Rightarrow> int set" where
  "win bufsz r a = (if r < a_ntimes a then {a_off a..<a_off a + round_size bufsz a} else {})"

definition next_window :: "int \<Rightarrow> nat \<Rightarrow> aggregator \<Rightarrow> aggregator" where
  "next_window bufsz r a = (if r < a_ntimes a
     then a\<lparr>a_off := a_off a + round_size bufsz a, a_done := a_done a + round_size bufsz a\<rparr> else a)"

definition busy :: "plan list \<Rightarrow> bool" where
  "busy ps \<longleftrightarrow> (\<exists>p \<in> set ps. p_count p \<noteq> 0)"

text \<open>The buffer of \<open>a\<close> has the data \<open>Z\<close> and, elsewhere in the window, what is in the file.\<close>

definition full_window :: "int \<Rightarrow> (int \<times> byte) set \<Rightarrow> (int \<Rightarrow> byte option) \<Rightarrow> aggregator \<Rightarrow> bool" where
  "full_window bufsz Z c a \<longleftrightarrow> (\<forall>q. a_off a \<le> q \<and> q < a_off a + round_size bufsz a \<longrightarrow>
     (if q \<in> fst ` Z then (q, a_buf a ! nat (q - a_off a)) \<in> Z else \<forall>b. c q = Some b \<longrightarrow> a_buf a ! nat (q - a_off a) = b))"

definition can_write :: "int \<Rightarrow> nat \<Rightarrow> plan list \<Rightarrow> (int \<times> byte) set \<Rightarrow> (int \<Rightarrow> byte option) \<Rightarrow> aggregator \<Rightarrow> bool" where
  "can_write bufsz r ps Z c a \<longleftrightarrow> fst ` Z \<subseteq> win bufsz r a \<and> (busy ps \<or> Z = {}) \<and> (\<forall>p \<in> set ps. \<not> p_overlap p) \<and>
     (r < a_ntimes a \<longrightarrow> 0 \<le> a_off a \<and> 0 \<le> round_size bufsz a \<and> round_size bufsz a \<le> INT_MAX \<and> round_size bufsz a \<le> int (length (a_buf a)) \<and>
        (busy ps \<longrightarrow> full_window bufsz Z c a))"

lemma can_write_cong:
  assumes "can_write bufsz r ps Z c a" "\<forall>q \<in> win bufsz r a. c' q = c q"
  shows "can_write bufsz r ps Z c' a"
  using assms unfolding can_write_def full_window_def win_def by auto

lemma UN_Suc_shift: "(\<Union>i < Suc n. F i) = F 0 \<union> (\<Union>i < n. F (Suc i))"
  by (auto simp: less_Suc_eq_0_disj)

text \<open>Before the data arrive: at positions that are not in \<open>S\<close>, the buffer has what is in the file.\<close>

definition can_fill :: "int \<Rightarrow> nat \<Rightarrow> plan list \<Rightarrow> int set \<Rightarrow> (int \<Rightarrow> byte option) \<Rightarrow> aggregator \<Rightarrow> bool" where
  "can_fill bufsz r ps S c a \<longleftrightarrow> (r < a_ntimes a \<longrightarrow> busy ps \<longrightarrow>
     (\<forall>q. a_off a \<le> q \<and> q < a_off a + round_size bufsz a \<longrightarrow> q \<notin> S \<longrightarrow> (\<forall>b. c q = Some b \<longrightarrow> a_buf a ! nat (q - a_off a) = b)))"

text \<open>The plans \<open>ps\<close> of \<open>a\<close> for requests \<open>U\<close>, and what is got in the round.\<close>

definition round_ok :: "int \<Rightarrow> nat \<Rightarrow> (nat \<Rightarrow> offlens) \<Rightarrow> aggregator \<Rightarrow> plan list \<Rightarrow> bool" where
  "round_ok bufsz r U a ps \<longleftrightarrow> (if r < a_ntimes a
     then 0 \<le> a_off a \<and> 0 \<le> round_size bufsz a \<and> round_size bufsz a \<le> INT_MAX \<and> round_size bufsz a \<le> int (length (a_buf a)) \<and>
       (\<forall>i < length ps. planned (a_off a) (round_size bufsz a) (U i) (ps ! i))
     else \<forall>p \<in> set ps. p_count p = 0 \<and> p_recv p = 0 \<and> \<not> p_overlap p)"

definition got :: "int \<Rightarrow> nat \<Rightarrow> (nat \<Rightarrow> offlens) \<Rightarrow> aggregator \<Rightarrow> nat \<Rightarrow> offlens" where
  "got bufsz r U a i = (if r < a_ntimes a then served (a_off a + round_size bufsz a) (U i) else [])"

lemma round_size_cong [simp]: "round_size bufsz (a\<lparr>a_buf := w\<rparr>) = round_size bufsz a" "round_size bufsz (a\<lparr>a_sources := x\<rparr>) = round_size bufsz a"
  by (simp_all add: round_size_def)

lemma recv_all_none: "\<forall>x \<in> set xs. p_recv (fst x) = 0 \<Longrightarrow> recv_all xs w = Some w"
  by (induction xs) auto

lemma recv_round_ok:
  assumes "round_ok bufsz r U a ps" "length msgs = length ps" "\<forall>i < length ps. length (msgs ! i) = length (bytes_of (got bufsz r U a i))"
    and "can_fill bufsz r ps (\<Union>i < length ps. set (bytes_of (got bufsz r U a i))) c a"
  shows "\<exists>w. recv_round ps msgs a = Some (a\<lparr>a_buf := w, a_sources := map p_source ps\<rparr>) \<and> length w = length (a_buf a) \<and>
    can_write bufsz r ps (\<Union>i < length ps. set (zip (bytes_of (got bufsz r U a i)) (msgs ! i))) c (a\<lparr>a_buf := w, a_sources := map p_source ps\<rparr>)"
proof (cases "r < a_ntimes a")
  case False
  then have z: "\<forall>p \<in> set ps. p_count p = 0 \<and> p_recv p = 0 \<and> \<not> p_overlap p" using assms(1) by (simp add: round_ok_def)
  then have "\<forall>x \<in> set (zip ps msgs). p_recv (fst x) = 0" by (auto dest: set_zip_leftD)
  then have "recv_all (zip ps msgs) (a_buf a) = Some (a_buf a)" by (rule recv_all_none)
  then show ?thesis using False z by (intro exI [of _ "a_buf a"]) (auto simp: recv_round_def can_write_def got_def busy_def)
next
  case True
  let ?sz = "round_size bufsz a" and ?off = "a_off a"
  let ?S = "\<lambda>i. served (?off + ?sz) (U i)"
  let ?Z = "\<Union>i < length ps. set (zip (bytes_of (?S i)) (msgs ! i))"
  have a: "0 \<le> ?off" "0 \<le> ?sz" "?sz \<le> INT_MAX" "?sz \<le> int (length (a_buf a))" "\<forall>i < length ps. planned ?off ?sz (U i) (ps ! i)"
    using assms(1) True by (auto simp: round_ok_def)
  have g: "got bufsz r U a i = ?S i" for i using True by (simp add: got_def)
  have m: "length (msgs ! i) = length (bytes_of (?S i))" if "i < length ps" for i using assms(3) that g by simp
  obtain w where w: "recv_all (zip ps msgs) (a_buf a) = Some w"
    "filled ?off (concat (map (\<lambda>i. zip (bytes_of (?S i)) (msgs ! i)) [0..<length ps])) (a_buf a) w"
    using recv_all_ok [OF assms(2) _ a(4)] a(5) m by blast
  have Z: "set (concat (map (\<lambda>i. zip (bytes_of (?S i)) (msgs ! i)) [0..<length ps])) = ?Z" by auto
  have pos: "fst ` ?Z = (\<Union>i < length ps. set (bytes_of (?S i)))"
    using m by (auto simp: image_UN simp flip: set_map)
  let ?a = "a\<lparr>a_buf := w, a_sources := map p_source ps\<rparr>"
  have "full_window bufsz ?Z c ?a" if "busy ps"
    unfolding full_window_def
  proof (intro allI impI)
    fix q assume "a_off ?a \<le> q \<and> q < a_off ?a + round_size bufsz ?a"
    then have q: "?off \<le> q" "q < ?off + ?sz" by simp_all
    have "if q \<in> fst ` ?Z then (q, w ! nat (q - ?off)) \<in> ?Z else w ! nat (q - ?off) = a_buf a ! nat (q - ?off)"
      using filled_at [OF w(2) q(1)] q(2) a(4) unfolding Z by simp
    moreover have "\<forall>b. c q = Some b \<longrightarrow> a_buf a ! nat (q - ?off) = b" if "q \<notin> fst ` ?Z"
      using assms(4) True \<open>busy ps\<close> q that unfolding can_fill_def g pos by blast
    ultimately show "if q \<in> fst ` ?Z then (q, a_buf ?a ! nat (q - a_off ?a)) \<in> ?Z else \<forall>b. c q = Some b \<longrightarrow> a_buf ?a ! nat (q - a_off ?a) = b"
      by (auto split: if_splits)
  qed
  moreover have "fst ` ?Z \<subseteq> win bufsz r ?a"
  proof
    fix q assume "q \<in> fst ` ?Z"
    then obtain i where i: "i < length ps" "q \<in> set (bytes_of (?S i))" unfolding pos by blast
    then have "ascending ?off (U i)" using a(5) by (simp add: planned_def)
    with served_below ascending_bytes [OF ascending_served] i(2) show "q \<in> win bufsz r ?a" using True by (simp add: win_def)
  qed
  moreover have "busy ps \<or> ?Z = {}" using a(5) by (force simp: busy_def planned_def in_set_conv_nth)
  moreover have "\<forall>p \<in> set ps. \<not> p_overlap p" using a(5) by (auto simp: planned_def in_set_conv_nth)
  moreover have lw: "length w = length (a_buf a)" using w(2) by (simp add: filled_def)
  ultimately have "can_write bufsz r ps ?Z c ?a" using a True by (simp add: can_write_def)
  then show ?thesis using w(1) lw g by (auto simp: recv_round_def)
qed

context sieved_file
begin

lemma write_step_ok:
  assumes "inv c s" "can_write bufsz r ps Z (content s) a"
  shows "\<exists>s'. write_step (ops c) bufsz r MPI_OK ps a s = Some (MPI_OK, next_window bufsz r a, s') \<and> inv c s' \<and>
    wrote Z (win bufsz r a) (content s) (content s')"
proof (cases "r < a_ntimes a \<and> busy ps")
  case False
  then have "Z = {}" using assms(2) by (auto simp: can_write_def win_def)
  moreover have "write_step (ops c) bufsz r MPI_OK ps a s = Some (MPI_OK, next_window bufsz r a, s)"
    using False assms(2) by (auto simp: write_step_def next_window_def can_write_def busy_def Let_def)
  ultimately show ?thesis using assms(1) wrote_mono [OF wrote_refl] by blast
next
  case True
  let ?sz = "round_size bufsz a"
  let ?bs = "take (nat ?sz) (a_buf a)"
  have a: "0 \<le> a_off a" "0 \<le> ?sz" "?sz \<le> INT_MAX" "?sz \<le> int (length (a_buf a))" "full_window bufsz Z (content s) a"
    "fst ` Z \<subseteq> {a_off a..<a_off a + ?sz}" "\<forall>p \<in> set ps. \<not> p_overlap p"
    using assms(2) True by (auto simp: can_write_def win_def)
  obtain s' where s': "sv_write (ops c) ?bs (a_off a) s = Some (MPI_OK, s')" "inv c s'"
    "content s' = (\<lambda>p. if a_off a \<le> p \<and> p < a_off a + int (length ?bs) then Some (?bs ! nat (p - a_off a)) else content s p)"
    using write_ok [OF assms(1) a(1)] by blast
  have len: "int (length ?bs) = ?sz" using a(2,4) by simp
  have "wrote Z (win bufsz r a) (content s) (content s')"
    unfolding wrote_def
  proof (intro conjI allI impI)
    fix q
    show "if q \<in> fst ` Z then \<exists>b. (q, b) \<in> Z \<and> content s' q = Some b else \<forall>b. content s q = Some b \<longrightarrow> content s' q = Some b"
    proof (cases "a_off a \<le> q \<and> q < a_off a + ?sz")
      case True
      then have "content s' q = Some (a_buf a ! nat (q - a_off a))" unfolding s'(3) len by simp
      then show ?thesis using a(5) True by (auto simp: full_window_def split: if_splits)
    next
      case False
      then show ?thesis using a(6) unfolding s'(3) len by auto
    qed
  next
    fix q assume "q \<notin> win bufsz r a"
    then show "content s' q = content s q" unfolding s'(3) len using True by (auto simp: win_def)
  qed
  moreover have "write_step (ops c) bufsz r MPI_OK ps a s = Some (MPI_OK, next_window bufsz r a, s')"
    using True a s'(1) to_int_pos [OF a(2,3)] by (auto simp: write_step_def next_window_def busy_def Let_def)
  ultimately show ?thesis using s'(2) by blast
qed

text \<open>The aggregators write disjoint windows.\<close>

lemma write_round_ok:
  assumes "inv c s" "length pss = length as" "\<forall>i < length as. can_write bufsz r (pss ! i) (Z i) (content s) (as ! i)"
    and "\<forall>i < length as. \<forall>j < length as. i \<noteq> j \<longrightarrow> win bufsz r (as ! i) \<inter> win bufsz r (as ! j) = {}"
  shows "\<exists>s'. write_round (ops c) bufsz r (map (\<lambda>_. MPI_OK) as) pss as s = Some (map (\<lambda>_. MPI_OK) as, map (next_window bufsz r) as, s') \<and> inv c s' \<and>
    wrote (\<Union>i < length as. Z i) (\<Union>i < length as. win bufsz r (as ! i)) (content s) (content s')"
  using assms
proof (induction as arbitrary: pss Z s)
  case Nil
  then show ?case using wrote_refl by simp
next
  case (Cons a as)
  obtain ps pss' where pss: "pss = ps # pss'" using Cons.prems(2) by (cases pss) auto
  have "can_write bufsz r ps (Z 0) (content s) a" using Cons.prems(3) pss by (auto dest: spec [of _ 0])
  then obtain s1 where s1: "write_step (ops c) bufsz r MPI_OK ps a s = Some (MPI_OK, next_window bufsz r a, s1)" "inv c s1"
    "wrote (Z 0) (win bufsz r a) (content s) (content s1)"
    using write_step_ok [OF Cons.prems(1)] by blast
  have "can_write bufsz r (pss' ! i) (Z (Suc i)) (content s1) (as ! i)" if "i < length as" for i
  proof (rule can_write_cong)
    show "can_write bufsz r (pss' ! i) (Z (Suc i)) (content s) (as ! i)" using Cons.prems(3) pss that by auto
    have "win bufsz r (as ! i) \<inter> win bufsz r a = {}" using Cons.prems(4) [rule_format, of "Suc i" 0] that by simp
    then show "\<forall>q \<in> win bufsz r (as ! i). content s1 q = content s q" using s1(3) by (auto simp: wrote_def)
  qed
  moreover have "\<forall>i < length as. \<forall>j < length as. i \<noteq> j \<longrightarrow> win bufsz r (as ! i) \<inter> win bufsz r (as ! j) = {}"
    using Cons.prems(4) [rule_format, of "Suc i" "Suc j" for i j] by simp
  ultimately obtain s' where s': "write_round (ops c) bufsz r (map (\<lambda>_. MPI_OK) as) pss' as s1 = Some (map (\<lambda>_. MPI_OK) as, map (next_window bufsz r) as, s')" "inv c s'"
    "wrote (\<Union>i < length as. Z (Suc i)) (\<Union>i < length as. win bufsz r (as ! i)) (content s1) (content s')"
    using Cons.IH [OF s1(2), of pss' "\<lambda>i. Z (Suc i)"] Cons.prems(2) pss by auto
  then show ?case using s1(1) wrote_trans [OF s1(3) s'(3)] pss by (auto simp: UN_Suc_shift)
qed

lemma read_holes_ok:
  assumes "inv c s" "round_ok bufsz r U a ps"
  shows "\<exists>w s'. read_holes (ops c) bufsz ps a s = Done (a\<lparr>a_buf := w\<rparr>, s') \<and> length w = length (a_buf a) \<and> inv c s' \<and> content s' = content s \<and>
    can_fill bufsz r ps (\<Union>i < length ps. set (bytes_of (got bufsz r U a i))) (content s) (a\<lparr>a_buf := w\<rparr>)"
proof -
  let ?sz = "round_size bufsz a" and ?off = "a_off a"
  show ?thesis
  proof (cases "r < a_ntimes a")
    case False
    then have "\<forall>p \<in> set ps. p_count p = 0" using assms(2) by (auto simp: round_ok_def)
    then have "find_hole ?off ?sz ps = Some False" by (simp add: find_hole_def Let_def)
    then have "read_holes (ops c) bufsz ps a s = Done (a\<lparr>a_buf := a_buf a\<rparr>, s)" by (simp add: read_holes_def)
    then show ?thesis using assms(1) False by (intro exI [of _ "a_buf a"] exI [of _ s]) (simp add: can_fill_def)
  next
    case True
    then have a: "0 \<le> ?off" "0 \<le> ?sz" "?sz \<le> INT_MAX" "?sz \<le> int (length (a_buf a))" "\<forall>i < length ps. planned ?off ?sz (U i) (ps ! i)"
      using assms(2) by (auto simp: round_ok_def)
    have g: "got bufsz r U a i = served (?off + ?sz) (U i)" for i using True by (simp add: got_def)
    obtain h where h: "find_hole ?off ?sz ps = Some h"
      "\<not> h \<Longrightarrow> busy ps \<Longrightarrow> ?off \<le> q \<Longrightarrow> q < ?off + ?sz \<Longrightarrow> \<exists>i < length ps. q \<in> set (bytes_of (served (?off + ?sz) (U i)))" for q
      using find_hole_ok [OF a(5,3)] unfolding busy_def by blast
    show ?thesis
    proof (cases "h \<and> (\<exists>p \<in> set ps. p_recv p \<noteq> 0)")
      case False
      have "p_recv p \<noteq> 0 \<longleftrightarrow> p_count p \<noteq> 0" if "p \<in> set ps" for p
        using that a(5) planned_none unfolding in_set_conv_nth by blast
      then have "busy ps \<Longrightarrow> \<not> h" using False by (auto simp: busy_def)
      then have "can_fill bufsz r ps (\<Union>i < length ps. set (bytes_of (served (?off + ?sz) (U i)))) (content s) a"
        using h(2) unfolding can_fill_def by blast
      moreover have "read_holes (ops c) bufsz ps a s = Done (a\<lparr>a_buf := a_buf a\<rparr>, s)" using h(1) False by (auto simp: read_holes_def)
      ultimately show ?thesis using assms(1) g by (intro exI [of _ "a_buf a"] exI [of _ s]) simp
    next
      case rd: True
      obtain bs s' where r: "sv_read (ops c) ?sz ?off s = Some (MPI_OK, bs, s')" "inv c s'" "content s' = content s" "int (length bs) \<le> ?sz"
        "\<And>p b. ?off \<le> p \<Longrightarrow> p < ?off + ?sz \<Longrightarrow> content s p = Some b \<Longrightarrow> nat (p - ?off) < length bs \<and> bs ! nat (p - ?off) = b"
        using read_ok [OF assms(1) a(1,2)] by auto
      have "0 + int (length bs) \<le> int (length (a_buf a))" using r(4) a(4) by simp
      then obtain w where w: "memcpy_at (a_buf a) 0 bs = Some w" "length w = length (a_buf a)"
        "\<And>k. k < length (a_buf a) \<Longrightarrow> w ! k = (if nat 0 \<le> k \<and> k < nat 0 + length bs then bs ! (k - nat 0) else a_buf a ! k)"
        using memcpy_at_Some [of 0 bs "a_buf a"] by blast
      have "w ! nat (q - ?off) = b" if "?off \<le> q" "q < ?off + ?sz" "content s q = Some b" for q b
        using r(5) [OF that] w(3) [of "nat (q - ?off)"] that(1,2) a(4) by auto
      then have "can_fill bufsz r ps (\<Union>i < length ps. set (bytes_of (served (?off + ?sz) (U i)))) (content s) (a\<lparr>a_buf := w\<rparr>)"
        by (simp add: can_fill_def)
      moreover have "read_holes (ops c) bufsz ps a s = Done (a\<lparr>a_buf := w\<rparr>, s')" using h(1) rd r(1) w(1) by (auto simp: read_holes_def)
      ultimately show ?thesis using w(2) r(2,3) g by auto
    qed
  qed
qed

lemma read_round_ok:
  assumes "inv c s" "length pss = length as" "\<forall>i < length as. round_ok bufsz r (U i) (as ! i) (pss ! i)"
  shows "\<exists>ws s'. read_round (ops c) bufsz pss as s = Done (map (\<lambda>(a, w). a\<lparr>a_buf := w\<rparr>) (zip as ws), s') \<and> length ws = length as \<and> inv c s' \<and> content s' = content s \<and>
    (\<forall>i < length as. length (ws ! i) = length (a_buf (as ! i)) \<and>
      can_fill bufsz r (pss ! i) (\<Union>j < length (pss ! i). set (bytes_of (got bufsz r (U i) (as ! i) j))) (content s) ((as ! i)\<lparr>a_buf := ws ! i\<rparr>))"
  using assms
proof (induction as arbitrary: pss U s)
  case Nil
  then show ?case by simp
next
  case (Cons a as)
  obtain ps pss' where pss: "pss = ps # pss'" using Cons.prems(2) by (cases pss) auto
  have "round_ok bufsz r (U 0) a ps" using Cons.prems(3) pss by (auto dest: spec [of _ 0])
  then obtain w s1 where s1: "read_holes (ops c) bufsz ps a s = Done (a\<lparr>a_buf := w\<rparr>, s1)" "length w = length (a_buf a)" "inv c s1" "content s1 = content s"
    "can_fill bufsz r ps (\<Union>j < length ps. set (bytes_of (got bufsz r (U 0) a j))) (content s) (a\<lparr>a_buf := w\<rparr>)"
    using read_holes_ok [OF Cons.prems(1)] by blast
  have "\<forall>i < length as. round_ok bufsz r (U (Suc i)) (as ! i) (pss' ! i)" using Cons.prems(3) pss by auto
  then obtain ws s' where s': "read_round (ops c) bufsz pss' as s1 = Done (map (\<lambda>(a, w). a\<lparr>a_buf := w\<rparr>) (zip as ws), s')" "length ws = length as" "inv c s'" "content s' = content s"
    "\<forall>i < length as. length (ws ! i) = length (a_buf (as ! i)) \<and>
      can_fill bufsz r (pss' ! i) (\<Union>j < length (pss' ! i). set (bytes_of (got bufsz r (U (Suc i)) (as ! i) j))) (content s) ((as ! i)\<lparr>a_buf := ws ! i\<rparr>)"
    using Cons.IH [OF s1(3), of pss' "\<lambda>i. U (Suc i)"] Cons.prems(2) pss s1(4) by auto
  have "\<forall>i < length (a # as). length ((w # ws) ! i) = length (a_buf ((a # as) ! i)) \<and>
      can_fill bufsz r (pss ! i) (\<Union>j < length (pss ! i). set (bytes_of (got bufsz r (U i) ((a # as) ! i) j))) (content s) (((a # as) ! i)\<lparr>a_buf := (w # ws) ! i\<rparr>)"
    using s1(2,5) s'(5) pss by (auto simp: less_Suc_eq_0_disj)
  then show ?case using s1(1) s'(1-4) pss by (intro exI [of _ "w # ws"] exI [of _ s']) simp
qed

end

end
