(* ===== verification/Coll_Loop.thy ===== *)
theory Coll_Loop
  imports Coll_Rounds
begin

text \<open>
  The loop over the rounds: an invariant of aggregators and senders, and what all rounds together do.
\<close>

section \<open>The invariant of an aggregator\<close>

definition agg_inv :: "int \<Rightarrow> nat \<Rightarrow> nat \<Rightarrow> aggregator \<Rightarrow> bool" where
  "agg_inv bufsz N r a \<longleftrightarrow> length (a_sources a) = N \<and> int (length (a_buf a)) = bufsz \<and> a_done a = a_off a - a_st a \<and>
     (\<forall>s \<in> set (a_sources a). source_ok (a_off a) s \<and> (\<forall>x \<in> set (bytes_of (unmet s)). x \<le> a_end a)) \<and>
     (if r < a_ntimes a
      then 0 \<le> a_off a \<and> (int (a_ntimes a) - int r - 1) * bufsz < a_end a + 1 - a_off a \<and> a_end a + 1 - a_off a \<le> (int (a_ntimes a) - int r) * bufsz
      else \<forall>s \<in> set (a_sources a). unmet s = [])"

definition span :: "nat \<Rightarrow> aggregator \<Rightarrow> int set" where
  "span r a = (if r < a_ntimes a then {a_off a..a_end a} else {})"

abbreviation unmets :: "aggregator \<Rightarrow> nat \<Rightarrow> offlens" where
  "unmets a \<equiv> \<lambda>i. unmet (a_sources a ! i)"

lemma round_size_eq:
  assumes "agg_inv bufsz N r a" "r < a_ntimes a" "0 < bufsz" "bufsz \<le> INT_MAX"
  shows "round_size bufsz a = min bufsz (a_end a + 1 - a_off a)" "0 < round_size bufsz a" "round_size bufsz a \<le> INT_MAX"
    "round_size bufsz a \<le> int (length (a_buf a))"
proof -
  have "0 \<le> (int (a_ntimes a) - int r - 1) * bufsz" using assms(2,3) by simp
  moreover have "(int (a_ntimes a) - int r - 1) * bufsz < a_end a + 1 - a_off a" using assms(1,2) by (simp add: agg_inv_def)
  ultimately have "0 < a_end a + 1 - a_off a" by linarith
  moreover show "round_size bufsz a = min bufsz (a_end a + 1 - a_off a)"
    using assms by (simp add: round_size_def agg_inv_def to_unsigned_pos algebra_simps)
  ultimately show "0 < round_size bufsz a" "round_size bufsz a \<le> INT_MAX" "round_size bufsz a \<le> int (length (a_buf a))"
    using assms by (auto simp: agg_inv_def)
qed

lemma those_nth: "length ys = length xs \<Longrightarrow> \<forall>i < length xs. f (xs ! i) = Some (ys ! i) \<Longrightarrow> those (map f xs) = Some ys"
proof (induction xs arbitrary: ys)
  case (Cons x xs)
  then obtain y ys' where "ys = y # ys'" by (cases ys) auto
  with Cons show ?case by fastforce
qed simp

lemma plan_round_active:
  assumes "agg_inv bufsz N r a" "r < a_ntimes a" "0 < bufsz" "bufsz \<le> INT_MAX"
  defines "sz \<equiv> round_size bufsz a"
  shows "\<exists>ps. plan_round bufsz r a = Some ps \<and> length ps = N \<and>
    (\<forall>i < N. planned (a_off a) sz (unmets a i) (ps ! i) \<and> source_ok (a_off a + sz) (p_source (ps ! i)) \<and>
       unmet (p_source (ps ! i)) = unserved (a_off a + sz) (unmets a i))"
proof -
  note rs = round_size_eq [OF assms(1-4), folded sz_def]
  have N: "length (a_sources a) = N" using assms(1) by (simp add: agg_inv_def)
  have "\<exists>p. plan_source (a_off a) sz (a_sources a ! i) = Some p \<and> planned (a_off a) sz (unmets a i) p \<and>
      source_ok (a_off a + sz) (p_source p) \<and> unmet (p_source p) = unserved (a_off a + sz) (unmets a i)" if "i < N" for i
  proof -
    have ok: "source_ok (a_off a) (a_sources a ! i)" using assms(1) that N by (simp add: agg_inv_def)
    moreover have "0 \<le> sz" "sz \<le> INT_MAX" using rs by simp_all
    ultimately show ?thesis using plan_ok [of "a_off a" "a_sources a ! i" sz] unfolding planned_def source_ok_def by blast
  qed
  then obtain ps where ps: "length ps = N" "\<forall>i < N. plan_source (a_off a) sz (a_sources a ! i) = Some (ps ! i) \<and> planned (a_off a) sz (unmets a i) (ps ! i) \<and>
      source_ok (a_off a + sz) (p_source (ps ! i)) \<and> unmet (p_source (ps ! i)) = unserved (a_off a + sz) (unmets a i)"
    using Skolem_list_nth [of N "\<lambda>i p. plan_source (a_off a) sz (a_sources a ! i) = Some p \<and> planned (a_off a) sz (unmets a i) p \<and>
      source_ok (a_off a + sz) (p_source p) \<and> unmet (p_source p) = unserved (a_off a + sz) (unmets a i)"] by blast
  have "plan_round bufsz r a = Some ps"
    using those_nth [of ps "a_sources a" "plan_source (a_off a) sz"] ps N assms(2) by (simp add: plan_round_def sz_def)
  then show ?thesis using ps by blast
qed

lemma plan_round_ok:
  assumes "agg_inv bufsz N r a" "0 < bufsz" "bufsz \<le> INT_MAX"
  shows "\<exists>ps. plan_round bufsz r a = Some ps \<and> length ps = N \<and> round_ok bufsz r (unmets a) a ps \<and>
    (\<forall>i < N. p_recv (ps ! i) = int (length (bytes_of (got bufsz r (unmets a) a i))) \<and>
       bytes_of (unmets a i) = bytes_of (got bufsz r (unmets a) a i) @ bytes_of (unmet (p_source (ps ! i)))) \<and>
    (\<forall>w. length w = length (a_buf a) \<longrightarrow> agg_inv bufsz N (Suc r) (next_window bufsz r (a\<lparr>a_buf := w, a_sources := map p_source ps\<rparr>)))"
proof (cases "r < a_ntimes a")
  case False
  have a: "length (a_sources a) = N" "\<forall>s \<in> set (a_sources a). unmet s = []" using assms(1) False by (auto simp: agg_inv_def)
  have "map p_source (map plan_nothing (a_sources a)) = a_sources a" by (simp add: plan_nothing_def comp_def)
  then show ?thesis using a False assms(1)
    by (intro exI [of _ "map plan_nothing (a_sources a)"])
      (auto simp: plan_round_def round_ok_def plan_nothing_def got_def next_window_def agg_inv_def)
next
  case True
  let ?sz = "round_size bufsz a"
  note rs = round_size_eq [OF assms(1) True assms(2,3)]
  obtain ps where ps: "plan_round bufsz r a = Some ps" "length ps = N"
    "\<And>i. i < N \<Longrightarrow> planned (a_off a) ?sz (unmets a i) (ps ! i) \<and> source_ok (a_off a + ?sz) (p_source (ps ! i)) \<and>
       unmet (p_source (ps ! i)) = unserved (a_off a + ?sz) (unmets a i)"
    using plan_round_active [OF assms(1) True assms(2,3)] by blast
  have a: "length (a_sources a) = N" "0 \<le> a_off a" using assms(1) True by (auto simp: agg_inv_def)
  have g: "got bufsz r (unmets a) a i = served (a_off a + ?sz) (unmets a i)" for i using True by (simp add: got_def)
  have asc: "ascending (a_off a) (unmets a i)" if "i < N" for i using ps(3) [OF that] by (simp add: planned_def)
  have sp: "bytes_of (unmets a i) = bytes_of (got bufsz r (unmets a) a i) @ bytes_of (unmet (p_source (ps ! i)))" if "i < N" for i
    using served_bytes [OF asc [OF that], of "a_off a + ?sz"] ps(3) [OF that] g by simp
  have "p_recv (ps ! i) = int (length (bytes_of (got bufsz r (unmets a) a i)))" if "i < N" for i
    using length_bytes_of [OF ascending_served [OF asc [OF that]]] ps(3) [OF that] g by (simp add: planned_def)
  moreover have "round_ok bufsz r (unmets a) a ps" using True rs a(2) ps(2,3) by (simp add: round_ok_def)
  moreover have "agg_inv bufsz N (Suc r) (next_window bufsz r (a\<lparr>a_buf := w, a_sources := map p_source ps\<rparr>))" if w: "length w = length (a_buf a)" for w
  proof -
    let ?n = "int (a_ntimes a) - int r"
    have src: "source_ok (a_off a + ?sz) s \<and> (\<forall>x \<in> set (bytes_of (unmet s)). x \<le> a_end a)" if s: "s \<in> p_source ` set ps" for s
    proof -
      obtain p where p: "s = p_source p" "p \<in> set ps" using s by (rule imageE)
      obtain i where i: "i < N" "s = p_source (ps ! i)" using p ps(2) unfolding in_set_conv_nth by blast
      moreover have "a_sources a ! i \<in> set (a_sources a)" using i a(1) by simp
      then have "\<forall>x \<in> set (bytes_of (unmets a i)). x \<le> a_end a" using assms(1) by (simp add: agg_inv_def)
      ultimately show ?thesis using ps(3) sp by simp
    qed
    have n: "(?n - 1) * bufsz < a_end a + 1 - a_off a" "a_end a + 1 - a_off a \<le> ?n * bufsz" using assms(1) True by (auto simp: agg_inv_def)
    have "if Suc r < a_ntimes a then 0 \<le> a_off a + ?sz \<and> (?n - 2) * bufsz < a_end a + 1 - (a_off a + ?sz) \<and> a_end a + 1 - (a_off a + ?sz) \<le> (?n - 1) * bufsz
      else \<forall>s \<in> p_source ` set ps. unmet s = []"
    proof (cases "Suc r < a_ntimes a")
      case more: True
      then have "1 * bufsz \<le> (?n - 1) * bufsz" using assms(2) by (intro mult_right_mono) auto
      then have "?sz = bufsz" using n(1) rs(1) by simp
      then show ?thesis using more n a(2) assms(2) by (simp add: algebra_simps)
    next
      case last: False
      then have "?n = 1" using True by simp
      then have e: "a_off a + ?sz = a_end a + 1" using n rs(1) by simp
      have "unmet s = []" if s: "s \<in> p_source ` set ps" for s
      proof (rule ccontr)
        assume "unmet s \<noteq> []"
        then obtain o1 l xs where u: "unmet s = (o1, l) # xs" by (metis neq_Nil_conv surj_pair)
        have "ascending (a_off a + ?sz) (unmet s)" using src [OF s] by (simp add: source_ok_def)
        then have "a_end a < o1" "0 < l" using u e by auto
        moreover have "o1 \<le> a_end a" using src [OF s] u \<open>0 < l\<close> by (auto simp: bytes_of_Cons)
        ultimately show False by simp
      qed
      then show ?thesis using last by simp
    qed
    then show ?thesis using True w assms(1) src ps(2) by (auto simp: agg_inv_def next_window_def algebra_simps)
  qed
  ultimately show ?thesis using ps(1,2) sp by blast
qed

section \<open>A round of all processes\<close>

text \<open>Process \<open>i\<close> still has the bytes \<open>D i p\<close> for aggregator \<open>p\<close>, which still expects as many; the aggregators have disjoint parts of the file.\<close>

definition coll_inv :: "int \<Rightarrow> (int \<Rightarrow> int \<Rightarrow> (nat \<times> int) option) \<Rightarrow> nat \<Rightarrow> (nat \<Rightarrow> nat \<Rightarrow> 'a list) \<Rightarrow> 'a sender list \<Rightarrow> aggregator list \<Rightarrow> bool" where
  "coll_inv bufsz agg r D ds as \<longleftrightarrow> length ds = length as \<and> (\<forall>p < length as. agg_inv bufsz (length as) r (as ! p)) \<and>
     (\<forall>i < length as. to_send agg (length as) (ds ! i) (D i)) \<and>
     (\<forall>i < length as. \<forall>p < length as. length (D i p) = length (bytes_of (unmets (as ! p) i))) \<and>
     (\<forall>p < length as. \<forall>q < length as. p \<noteq> q \<longrightarrow> span r (as ! p) \<inter> span r (as ! q) = {})"

definition to_write :: "(nat \<Rightarrow> nat \<Rightarrow> 'a list) \<Rightarrow> aggregator list \<Rightarrow> (int \<times> 'a) set" where
  "to_write D as = (\<Union>p < length as. \<Union>i < length as. set (zip (bytes_of (unmets (as ! p) i)) (D i p)))"

lemma win_in_span:
  assumes "agg_inv bufsz N r a" "0 < bufsz" "bufsz \<le> INT_MAX"
  shows "win bufsz r a \<subseteq> span r a" "span (Suc r) (next_window bufsz r a) \<subseteq> span r a"
  using round_size_eq [OF assms(1) _ assms(2,3)] by (auto simp: win_def span_def next_window_def)

lemma span_next: "span r (next_window bufsz k (a\<lparr>a_buf := w, a_sources := x\<rparr>)) = span r (next_window bufsz k a)"
  "a_ntimes (next_window bufsz k (a\<lparr>a_buf := w, a_sources := x\<rparr>)) = a_ntimes a" "win bufsz r (a\<lparr>a_buf := w, a_sources := x\<rparr>) = win bufsz r a"
  "a_sources (next_window bufsz k (a\<lparr>a_buf := w, a_sources := x\<rparr>)) = x"
  by (simp_all add: span_def next_window_def win_def)

lemma got_buf [simp]: "got bufsz r U (a\<lparr>a_buf := w\<rparr>) i = got bufsz r U a i"
  by (simp_all add: got_def)

lemma round_ok_buf: "round_ok bufsz r U a ps \<Longrightarrow> length w = length (a_buf a) \<Longrightarrow> round_ok bufsz r U (a\<lparr>a_buf := w\<rparr>) ps"
  by (auto simp: round_ok_def)

text \<open>The messages of a round.\<close>

lemma sends_ok:
  assumes "length ds = N" "length pss = N" "\<forall>i < N. to_send agg N (ds ! i) (D i)"
    and "\<forall>i < N. \<forall>p < N. 0 \<le> p_recv (pss ! p ! i) \<and> p_recv (pss ! p ! i) \<le> int (length (D i p))"
  shows "\<exists>ds'. those (map (\<lambda>i. send_data agg (map (\<lambda>ps. p_recv (ps ! i)) pss) (ds ! i)) [0..<length ds]) =
      Some (map (\<lambda>i. (map (\<lambda>p. take (nat (p_recv (pss ! p ! i))) (D i p)) [0..<N], ds' ! i)) [0..<N]) \<and> length ds' = N \<and>
    (\<forall>i < N. to_send agg N (ds' ! i) (\<lambda>p. drop (nat (p_recv (pss ! p ! i))) (D i p)))"
proof -
  let ?m = "\<lambda>i. map (\<lambda>ps. p_recv (ps ! i)) pss"
  have "\<exists>d'. send_data agg (?m i) (ds ! i) = Some (map (\<lambda>p. take (nat (p_recv (pss ! p ! i))) (D i p)) [0..<N], d') \<and>
      to_send agg N d' (\<lambda>p. drop (nat (p_recv (pss ! p ! i))) (D i p))" if i: "i < N" for i
  proof -
    have "\<forall>p < N. 0 \<le> ?m i ! p \<and> ?m i ! p \<le> int (length (D i p))" using assms(2,4) i by simp
    then obtain d' where d': "send_data agg (?m i) (ds ! i) = Some (map (\<lambda>p. take (nat (?m i ! p)) (D i p)) [0..<N], d')"
      "to_send agg N d' (\<lambda>p. drop (nat (?m i ! p)) (D i p))"
      using send_data_ok [of agg N "ds ! i" "D i" "?m i"] assms(2,3) i by auto
    have "map (\<lambda>p. take (nat (?m i ! p)) (D i p)) [0..<N] = map (\<lambda>p. take (nat (p_recv (pss ! p ! i))) (D i p)) [0..<N]" using assms(2) by simp
    moreover have "to_send agg N d' (\<lambda>p. drop (nat (p_recv (pss ! p ! i))) (D i p))"
      by (rule to_send_cong [OF _ d'(2)]) (simp add: assms(2))
    ultimately show ?thesis using d'(1) by auto
  qed
  then obtain ds' where ds': "length ds' = N"
    "\<forall>i < N. send_data agg (?m i) (ds ! i) = Some (map (\<lambda>p. take (nat (p_recv (pss ! p ! i))) (D i p)) [0..<N], ds' ! i) \<and>
      to_send agg N (ds' ! i) (\<lambda>p. drop (nat (p_recv (pss ! p ! i))) (D i p))"
    using Skolem_list_nth [of N "\<lambda>i d'. send_data agg (?m i) (ds ! i) = Some (map (\<lambda>p. take (nat (p_recv (pss ! p ! i))) (D i p)) [0..<N], d') \<and>
      to_send agg N d' (\<lambda>p. drop (nat (p_recv (pss ! p ! i))) (D i p))"] by blast
  have "those (map (\<lambda>i. send_data agg (?m i) (ds ! i)) [0..<N]) = Some (map (\<lambda>i. (map (\<lambda>p. take (nat (p_recv (pss ! p ! i))) (D i p)) [0..<N], ds' ! i)) [0..<N])"
    by (rule those_map_Some) (use ds'(2) in simp)
  then show ?thesis using ds' unfolding assms(1) by blast
qed

text \<open>The data of a round and what is left are the data before.\<close>

lemma to_write_split:
  assumes "length as' = length as"
    and "\<forall>p < length as. \<forall>i < length as. bytes_of (unmets (as ! p) i) = G p i @ bytes_of (unmets (as' ! p) i) \<and> length (M i p) = length (G p i) \<and> D i p = M i p @ D' i p"
  shows "to_write D as = (\<Union>p < length as. \<Union>i < length as. set (zip (G p i) (M i p))) \<union> to_write D' as'"
proof -
  have "set (zip (bytes_of (unmets (as ! p) i)) (D i p)) = set (zip (G p i) (M i p)) \<union> set (zip (bytes_of (unmets (as' ! p) i)) (D' i p))"
    if "p < length as" "i < length as" for p i using assms(2) that by simp
  then show ?thesis using assms(1) by (simp add: to_write_def UN_Un_distrib)
qed

text \<open>The plans \<open>pss\<close> of all aggregators for a round, what they get in it, and the messages.\<close>

abbreviation got_bytes :: "int \<Rightarrow> nat \<Rightarrow> aggregator list \<Rightarrow> nat \<Rightarrow> nat \<Rightarrow> int list" where
  "got_bytes bufsz r as p i \<equiv> bytes_of (got bufsz r (unmets (as ! p)) (as ! p) i)"

definition plan_at :: "int \<Rightarrow> nat \<Rightarrow> aggregator list \<Rightarrow> nat \<Rightarrow> plan list \<Rightarrow> bool" where
  "plan_at bufsz r as p ps \<longleftrightarrow> plan_round bufsz r (as ! p) = Some ps \<and> length ps = length as \<and> round_ok bufsz r (unmets (as ! p)) (as ! p) ps \<and>
    (\<forall>i < length as. p_recv (ps ! i) = int (length (got_bytes bufsz r as p i)) \<and>
       bytes_of (unmets (as ! p) i) = got_bytes bufsz r as p i @ bytes_of (unmet (p_source (ps ! i)))) \<and>
    (\<forall>w. length w = length (a_buf (as ! p)) \<longrightarrow>
       agg_inv bufsz (length as) (Suc r) (next_window bufsz r ((as ! p)\<lparr>a_buf := w, a_sources := map p_source ps\<rparr>)))"

abbreviation messages :: "(nat \<Rightarrow> nat \<Rightarrow> 'a list) \<Rightarrow> plan list list \<Rightarrow> nat \<Rightarrow> nat \<Rightarrow> 'a list" where
  "messages D pss i p \<equiv> take (nat (p_recv (pss ! p ! i))) (D i p)"

abbreviation left_data :: "(nat \<Rightarrow> nat \<Rightarrow> 'a list) \<Rightarrow> plan list list \<Rightarrow> nat \<Rightarrow> nat \<Rightarrow> 'a list" where
  "left_data D pss i p \<equiv> drop (nat (p_recv (pss ! p ! i))) (D i p)"

abbreviation arrived_at :: "int \<Rightarrow> nat \<Rightarrow> (nat \<Rightarrow> nat \<Rightarrow> 'a list) \<Rightarrow> aggregator list \<Rightarrow> plan list list \<Rightarrow> nat \<Rightarrow> (int \<times> 'a) set" where
  "arrived_at bufsz r D as pss p \<equiv> \<Union>i < length as. set (zip (got_bytes bufsz r as p i) (messages D pss i p))"

lemma plans_ok:
  assumes "coll_inv bufsz agg r D ds as" "0 < bufsz" "bufsz \<le> INT_MAX"
  shows "\<exists>pss. those (map (plan_round bufsz r) as) = Some pss \<and> length pss = length as \<and> (\<forall>p < length as. plan_at bufsz r as p (pss ! p))"
proof -
  have ai: "\<And>p. p < length as \<Longrightarrow> agg_inv bufsz (length as) r (as ! p)" using assms(1) by (simp add: coll_inv_def)
  have "\<forall>p < length as. \<exists>ps. plan_at bufsz r as p ps" unfolding plan_at_def using plan_round_ok [OF ai assms(2,3)] by blast
  then obtain pss where pss: "length pss = length as" "\<forall>p < length as. plan_at bufsz r as p (pss ! p)"
    using Skolem_list_nth [of "length as" "plan_at bufsz r as"] by blast
  moreover have "those (map (plan_round bufsz r) as) = Some pss" by (rule those_nth) (use pss in \<open>auto simp: plan_at_def\<close>)
  ultimately show ?thesis by blast
qed

context sieved_file
begin

lemma W_Exchange_data_ok:
  assumes "coll_inv bufsz agg r D ds as" "inv c s" "length pss = length as" "\<forall>p < length as. plan_at bufsz r as p (pss ! p)"
  shows "\<exists>ds' ws s'. ADIOI_W_Exchange_data (ops c) agg bufsz pss (ds, as, s) =
      Done (ds', map (\<lambda>p. (as ! p)\<lparr>a_buf := ws ! p, a_sources := map p_source (pss ! p)\<rparr>) [0..<length as], s') \<and> inv c s' \<and> content s' = content s \<and>
    length ds' = length as \<and> (\<forall>i < length as. to_send agg (length as) (ds' ! i) (left_data D pss i)) \<and>
    (\<forall>p < length as. length (ws ! p) = length (a_buf (as ! p)) \<and>
      can_write bufsz r (pss ! p) (arrived_at bufsz r D as pss p) (content s) ((as ! p)\<lparr>a_buf := ws ! p, a_sources := map p_source (pss ! p)\<rparr>))"
proof -
  let ?N = "length as" and ?G = "got_bytes bufsz r as" and ?M = "messages D pss"
  have ds: "length ds = ?N" and ts: "\<forall>i < ?N. to_send agg ?N (ds ! i) (D i)"
    and len: "\<And>i p. i < ?N \<Longrightarrow> p < ?N \<Longrightarrow> length (D i p) = length (bytes_of (unmets (as ! p) i))"
    using assms(1) by (auto simp: coll_inv_def)
  have pl: "length (pss ! p) = ?N" "round_ok bufsz r (unmets (as ! p)) (as ! p) (pss ! p)"
    "\<And>i. i < ?N \<Longrightarrow> p_recv (pss ! p ! i) = int (length (?G p i))" "\<And>i. i < ?N \<Longrightarrow> length (?G p i) \<le> length (D i p)" if "p < ?N" for p
    using assms(4) that len [OF _ that] by (auto simp: plan_at_def)
  obtain ws s1 where rd: "read_round (ops c) bufsz pss as s = Done (map (\<lambda>(a, w). a\<lparr>a_buf := w\<rparr>) (zip as ws), s1)" "length ws = ?N" "inv c s1" "content s1 = content s"
    "\<And>p. p < ?N \<Longrightarrow> length (ws ! p) = length (a_buf (as ! p)) \<and>
      can_fill bufsz r (pss ! p) (\<Union>i < length (pss ! p). set (?G p i)) (content s) ((as ! p)\<lparr>a_buf := ws ! p\<rparr>)"
    using read_round_ok [OF assms(2,3), of bufsz r "\<lambda>p. unmets (as ! p)"] pl(2) by blast
  let ?as1 = "map (\<lambda>(a, w). a\<lparr>a_buf := w\<rparr>) (zip as ws)"
  have as1: "length ?as1 = ?N" "\<And>p. p < ?N \<Longrightarrow> ?as1 ! p = (as ! p)\<lparr>a_buf := ws ! p\<rparr>" using rd(2) by simp_all
  obtain ds' where sd: "those (map (\<lambda>i. send_data agg (map (\<lambda>ps. p_recv (ps ! i)) pss) (ds ! i)) [0..<length ds]) =
      Some (map (\<lambda>i. (map (?M i) [0..<?N], ds' ! i)) [0..<?N])" (is "_ = Some ?sent") "length ds' = ?N" "\<forall>i < ?N. to_send agg ?N (ds' ! i) (left_data D pss i)"
    using sends_ok [OF ds assms(3) ts] pl(3,4) by auto
  let ?Q = "\<lambda>p w. recv_round (pss ! p) (map (\<lambda>x. fst x ! p) ?sent) (?as1 ! p) = Some ((as ! p)\<lparr>a_buf := w, a_sources := map p_source (pss ! p)\<rparr>) \<and>
    length w = length (a_buf (as ! p)) \<and> can_write bufsz r (pss ! p) (arrived_at bufsz r D as pss p) (content s) ((as ! p)\<lparr>a_buf := w, a_sources := map p_source (pss ! p)\<rparr>)"
  have "\<exists>w. ?Q p w" if p: "p < ?N" for p
  proof -
    have ro: "round_ok bufsz r (unmets (as ! p)) ((as ! p)\<lparr>a_buf := ws ! p\<rparr>) (pss ! p)" using pl(2) [OF p] rd(5) [OF p] by (simp add: round_ok_buf)
    have msgs: "map (\<lambda>x. fst x ! p) ?sent = map (\<lambda>i. ?M i p) [0..<?N]" using p by simp
    show ?thesis
      using recv_round_ok [OF ro, of "map (\<lambda>i. ?M i p) [0..<?N]" "content s"] pl(1,3,4) [OF p] rd(5) [OF p] p
      unfolding msgs as1(2) [OF p] by simp
  qed
  then obtain ws' where ws': "length ws' = ?N" "\<And>p. p < ?N \<Longrightarrow> ?Q p (ws' ! p)" using Skolem_list_nth [of ?N ?Q] by blast
  have rv: "those (map (\<lambda>p. recv_round (pss ! p) (map (\<lambda>x. fst x ! p) ?sent) (?as1 ! p)) [0..<length ?as1]) =
      Some (map (\<lambda>p. (as ! p)\<lparr>a_buf := ws' ! p, a_sources := map p_source (pss ! p)\<rparr>) [0..<?N])"
    unfolding as1(1) by (rule those_map_Some) (use ws' in simp)
  have "map snd ?sent = ds'" by (rule nth_equalityI) (use sd(2) in simp_all)
  then show ?thesis unfolding ADIOI_W_Exchange_data_def using rd(1,3,4) sd rv ws'(2) by (intro exI [of _ ds'] exI [of _ ws'] exI [of _ s1]) simp
qed

lemma exch_round_ok:
  assumes "coll_inv bufsz agg r D ds as" "inv c s" "0 < bufsz" "bufsz \<le> INT_MAX"
  shows "\<exists>ds' as' s' D' W. exch_round (ops c) agg bufsz r (map (\<lambda>_. MPI_OK) ds) (ds, as, s) = Done (map (\<lambda>_. MPI_OK) as, ds', as', s') \<and> inv c s' \<and>
    coll_inv bufsz agg (Suc r) D' ds' as' \<and> map a_ntimes as' = map a_ntimes as \<and>
    (\<Union>p < length as'. span (Suc r) (as' ! p)) \<subseteq> (\<Union>p < length as. span r (as ! p)) \<and>
    wrote W (\<Union>p < length as. span r (as ! p)) (content s) (content s') \<and> to_write D as = W \<union> to_write D' as'"
proof -
  let ?N = "length as"
  have ds: "length ds = ?N" and ai: "\<And>p. p < ?N \<Longrightarrow> agg_inv bufsz ?N r (as ! p)"
    and len: "\<And>i p. i < ?N \<Longrightarrow> p < ?N \<Longrightarrow> length (D i p) = length (bytes_of (unmets (as ! p) i))"
    and dis: "\<And>p q. p < ?N \<Longrightarrow> q < ?N \<Longrightarrow> p \<noteq> q \<Longrightarrow> span r (as ! p) \<inter> span r (as ! q) = {}"
    using assms(1) by (auto simp: coll_inv_def)
  obtain pss where pss: "those (map (plan_round bufsz r) as) = Some pss" "length pss = ?N" "\<forall>p < ?N. plan_at bufsz r as p (pss ! p)"
    using plans_ok [OF assms(1,3,4)] by blast
  let ?Z = "arrived_at bufsz r D as pss" and ?D' = "left_data D pss"
  obtain ds' ws s1 where ex: "ADIOI_W_Exchange_data (ops c) agg bufsz pss (ds, as, s) =
      Done (ds', map (\<lambda>p. (as ! p)\<lparr>a_buf := ws ! p, a_sources := map p_source (pss ! p)\<rparr>) [0..<?N], s1)"
    "inv c s1" "content s1 = content s" "length ds' = ?N" "\<And>i. i < ?N \<Longrightarrow> to_send agg ?N (ds' ! i) (?D' i)"
    "\<And>p. p < ?N \<Longrightarrow> length (ws ! p) = length (a_buf (as ! p)) \<and> can_write bufsz r (pss ! p) (?Z p) (content s) ((as ! p)\<lparr>a_buf := ws ! p, a_sources := map p_source (pss ! p)\<rparr>)"
    using W_Exchange_data_ok [OF assms(1,2) pss(2,3)] by blast
  let ?as2 = "map (\<lambda>p. (as ! p)\<lparr>a_buf := ws ! p, a_sources := map p_source (pss ! p)\<rparr>) [0..<?N]"
  have "win bufsz r (?as2 ! p) \<inter> win bufsz r (?as2 ! q) = {}" if "p < ?N" "q < ?N" "p \<noteq> q" for p q
    using dis [OF that] win_in_span(1) [OF ai assms(3,4)] that by (simp add: span_next) blast
  then obtain s2 where wr: "write_round (ops c) bufsz r (map (\<lambda>_. MPI_OK) ?as2) pss ?as2 s1 = Some (map (\<lambda>_. MPI_OK) ?as2, map (next_window bufsz r) ?as2, s2)" "inv c s2"
    "wrote (\<Union>p < ?N. ?Z p) (\<Union>p < ?N. win bufsz r (as ! p)) (content s) (content s2)"
    using write_round_ok [OF ex(2), of pss ?as2 bufsz r ?Z] pss(2) ex(3,6) by (auto simp: span_next)
  let ?as3 = "map (next_window bufsz r) ?as2"
  have as3: "length ?as3 = ?N" by simp
  have u3: "unmets (?as3 ! p) i = unmet (p_source (pss ! p ! i))" if "p < ?N" "i < ?N" for p i
    using that pss(3) by (simp add: span_next plan_at_def)
  have "to_write D as = (\<Union>p < ?N. ?Z p) \<union> to_write ?D' ?as3"
    by (rule to_write_split [OF as3]) (use pss(3) u3 len in \<open>simp add: plan_at_def\<close>)
  moreover have sp: "span (Suc r) (?as3 ! p) \<subseteq> span r (as ! p)" if "p < ?N" for p
    using win_in_span(2) [OF ai [OF that] assms(3,4)] that by (simp add: span_next)
  have "coll_inv bufsz agg (Suc r) ?D' ds' ?as3"
    unfolding coll_inv_def as3
  proof (intro conjI allI impI)
    show "agg_inv bufsz ?N (Suc r) (?as3 ! p)" if "p < ?N" for p using pss(3) ex(6) [OF that] that by (simp add: plan_at_def)
    show "length (?D' i p) = length (bytes_of (unmets (?as3 ! p) i))" if "i < ?N" "p < ?N" for i p
      using len [OF that] pss(3) that unfolding u3 [OF that(2,1)] by (simp add: plan_at_def)
    show "span (Suc r) (?as3 ! p) \<inter> span (Suc r) (?as3 ! q) = {}" if "p < ?N" "q < ?N" "p \<noteq> q" for p q
      using dis [OF that] sp that(1,2) by blast
  qed (use ex(4,5) in simp_all)
  moreover have "wrote (\<Union>p < ?N. ?Z p) (\<Union>p < ?N. span r (as ! p)) (content s) (content s2)"
    by (rule wrote_mono [OF wr(3)]) (use win_in_span(1) [OF ai assms(3,4)] in blast)
  moreover have "map a_ntimes ?as3 = map a_ntimes as" by (rule nth_equalityI) (simp_all add: span_next)
  moreover have "(\<Union>p < length ?as3. span (Suc r) (?as3 ! p)) \<subseteq> (\<Union>p < ?N. span r (as ! p))" using sp unfolding as3 by blast
  moreover have "map (\<lambda>_. MPI_OK) ?as2 = map (\<lambda>_. MPI_OK) as" "map (\<lambda>_. MPI_OK) ?as2 = map (\<lambda>_. MPI_OK) ds" using ds by (simp_all add: map_replicate_const)
  then have "exch_round (ops c) agg bufsz r (map (\<lambda>_. MPI_OK) ds) (ds, as, s) = Done (map (\<lambda>_. MPI_OK) as, ds', ?as3, s2)"
    unfolding exch_round_def using pss(1) ex(1) wr(1) by simp
  ultimately show ?thesis using wr(2) by blast
qed

lemma exch_rounds_ok:
  assumes "coll_inv bufsz agg r D ds as" "inv c s" "0 < bufsz" "bufsz \<le> INT_MAX" "\<forall>n \<in> set (map a_ntimes as). n \<le> r + k"
  shows "\<exists>s'. exch_rounds (ops c) agg bufsz r k (map (\<lambda>_. MPI_OK) ds) (ds, as, s) = Done (map (\<lambda>_. MPI_OK) ds, s') \<and> inv c s' \<and>
    wrote (to_write D as) (\<Union>p < length as. span r (as ! p)) (content s) (content s')"
  using assms
proof (induction k arbitrary: r D ds as s)
  case 0
  have "unmets (as ! p) i = []" if "p < length as" "i < length as" for p i
  proof -
    have "\<not> r < a_ntimes (as ! p)" using 0(5) that by (simp add: not_less)
    moreover have "agg_inv bufsz (length as) r (as ! p)" using 0(1) that by (simp add: coll_inv_def)
    ultimately show ?thesis using that by (simp add: agg_inv_def)
  qed
  then have "to_write D as = {}" by (simp add: to_write_def)
  then show ?case using 0(2) wrote_mono [OF wrote_refl] by auto
next
  case (Suc k)
  obtain ds1 as1 s1 D1 W where r: "exch_round (ops c) agg bufsz r (map (\<lambda>_. MPI_OK) ds) (ds, as, s) = Done (map (\<lambda>_. MPI_OK) as, ds1, as1, s1)" "inv c s1"
    "coll_inv bufsz agg (Suc r) D1 ds1 as1" "map a_ntimes as1 = map a_ntimes as"
    "(\<Union>p < length as1. span (Suc r) (as1 ! p)) \<subseteq> (\<Union>p < length as. span r (as ! p))"
    "wrote W (\<Union>p < length as. span r (as ! p)) (content s) (content s1)" "to_write D as = W \<union> to_write D1 as1"
    using exch_round_ok [OF Suc.prems(1-4)] by blast
  have "\<forall>n \<in> set (map a_ntimes as1). n \<le> Suc r + k" using Suc.prems(5) unfolding r(4) by simp
  then obtain s' where s': "exch_rounds (ops c) agg bufsz (Suc r) k (map (\<lambda>_. MPI_OK) ds1) (ds1, as1, s1) = Done (map (\<lambda>_. MPI_OK) ds1, s')" "inv c s'"
    "wrote (to_write D1 as1) (\<Union>p < length as1. span (Suc r) (as1 ! p)) (content s1) (content s')"
    using Suc.IH [OF r(3,2) Suc.prems(3,4)] by blast
  have "length ds = length as" "length ds1 = length as1" "length as1 = length as"
    using Suc.prems(1) r(3) map_eq_imp_length_eq [OF r(4)] by (simp_all add: coll_inv_def)
  then have "map (\<lambda>_. MPI_OK) ds1 = map (\<lambda>_. MPI_OK) ds" "map (\<lambda>_. MPI_OK) ds1 = map (\<lambda>_. MPI_OK) as" by (simp_all add: map_replicate_const)
  moreover have "wrote (to_write D as) (\<Union>p < length as. span r (as ! p)) (content s) (content s')"
    unfolding r(7) by (rule wrote_mono [OF wrote_trans [OF r(6) s'(3)]]) (use r(5) in blast)
  ultimately show ?case using r(1) s'(1,2) by simp
qed

end

end
