(* ===== verification/Coll_Exchange.thy ===== *)
theory Coll_Exchange
  imports Coll_Loop
begin

text \<open>
  \<open>ADIOI_Exch_and_write\<close> as a whole: the number of rounds is enough, and the data of all processes are in the file afterwards.
\<close>

section \<open>The range of an aggregator\<close>

lemma fold_concat: "fold (\<lambda>r x. fold f r x) rs x = fold f (concat rs) x"
  by (induction rs arbitrary: x) auto

lemma st_loc_eq: "st_loc others = Min (insert (start_loc others) (fst ` set (concat others)))"
proof -
  have "fold (\<lambda>(off, len) x. min x off) xs x = fold (\<lambda>s m. min m s) (map fst xs) (x :: int)" for xs :: offlens and x
    by (simp add: fold_map comp_def split_def)
  then show ?thesis unfolding st_loc_def fold_concat fold_min by simp
qed

lemma end_loc_eq: "end_loc others = Max (insert (start_loc others) ((\<lambda>(off, len). off + len - 1) ` set (concat others)))"
proof -
  have "fold (\<lambda>(off, len) x. max x (off + len - 1)) xs x = fold (\<lambda>e m. max m e) (map (\<lambda>(off, len). off + len - 1) xs) (x :: int)" for xs :: offlens and x
    by (simp add: fold_map comp_def split_def)
  then show ?thesis unfolding end_loc_def fold_concat fold_max by simp
qed

lemma range_bounds:
  assumes "(off, len) \<in> set (concat others)"
  shows "st_loc others \<le> off" "off + len - 1 \<le> end_loc others"
  unfolding st_loc_eq end_loc_eq using assms by (auto intro!: Min_le Max_ge rev_image_eqI)

lemma start_loc_in:
  assumes "concat others \<noteq> []"
  shows "\<exists>len. (start_loc others, len) \<in> set (concat others)"
proof -
  have "filter (\<lambda>r. r \<noteq> []) others \<noteq> []" using assms by (induction others) auto
  then obtain r rs where f: "filter (\<lambda>r. r \<noteq> []) others = r # rs" by (cases "filter (\<lambda>r. r \<noteq> []) others") auto
  then have "r \<in> set (filter (\<lambda>r. r \<noteq> []) others)" by simp
  then have "r \<in> set others" "r \<noteq> []" by auto
  then have "hd r \<in> set (concat others)" by (metis hd_in_set concat_eq_Nil_conv UN_I set_concat)
  then show ?thesis using f by (intro exI [of _ "snd (hd r)"]) (simp add: start_loc_def)
qed

lemma range_within:
  assumes "concat others \<noteq> []" "\<forall>(off, len) \<in> set (concat others). 0 < len \<and> lo \<le> off \<and> off + len - 1 \<le> hi"
  shows "lo \<le> st_loc others" "end_loc others \<le> hi" "st_loc others \<le> end_loc others"
proof -
  obtain len where s: "(start_loc others, len) \<in> set (concat others)" using start_loc_in [OF assms(1)] by blast
  then have s': "0 < len" "lo \<le> start_loc others" "start_loc others + len - 1 \<le> hi" using assms(2) by auto
  show "lo \<le> st_loc others" unfolding st_loc_eq using assms(2) s' by (intro Min.boundedI) (auto simp: split_def)
  show "end_loc others \<le> hi" unfolding end_loc_eq using assms(2) s' by (intro Max.boundedI) (auto simp: split_def)
  show "st_loc others \<le> end_loc others" using range_bounds [OF s] s'(1) by simp
qed

lemma range_none: "concat others = [] \<Longrightarrow> st_loc others = -1 \<and> end_loc others = -1"
proof -
  assume c: "concat others = []"
  then have "filter (\<lambda>r. r \<noteq> []) others = []" by (auto simp: filter_empty_conv)
  then have "start_loc others = -1" by (simp add: start_loc_def)
  then show ?thesis unfolding st_loc_eq end_loc_eq c by simp
qed

text \<open>The number of rounds: the least number of windows that cover the range.\<close>

lemma rounds_cover:
  assumes "0 < (b :: int)" "0 < n"
  shows "((n - 1 + b) div b - 1) * b < n" "n \<le> ((n - 1 + b) div b) * b" "0 < (n - 1 + b) div b"
proof -
  define q where "q = (n - 1 + b) div b"
  define m where "m = (n - 1 + b) mod b"
  have e: "b * q + m = n - 1 + b" unfolding q_def m_def by (rule mult_div_mod_eq)
  have m: "0 \<le> m" "m < b" using assms(1) by (simp_all add: m_def)
  show "((n - 1 + b) div b - 1) * b < n" unfolding q_def [symmetric] using e m(1) by (simp add: algebra_simps)
  show u: "n \<le> ((n - 1 + b) div b) * b" unfolding q_def [symmetric] using e m(2) by (simp add: algebra_simps)
  show "0 < (n - 1 + b) div b" using u assms by (metis mult_nonpos_nonneg not_le less_imp_le order_less_le_trans)
qed

lemma unmet_new: "unmet \<lparr>s_reqs = xs, s_mems = ms, s_ptr = 0, s_part = 0\<rparr> = xs"
  by (cases xs) (auto simp: unmet_def)

lemma ascending_from: "ascending lo xs \<Longrightarrow> (\<forall>(off, len) \<in> set xs. st \<le> off) \<Longrightarrow> ascending st xs"
  by (cases xs) auto

lemma ascending_all: "ascending lo xs \<Longrightarrow> \<forall>(off, len) \<in> set xs. 0 < len \<and> lo \<le> off"
proof (induction xs arbitrary: lo)
  case (Cons x xs)
  then show ?case by (cases x) fastforce
qed simp

lemma init_agg_inv:
  assumes "0 < bufsz" "int (length w) = bufsz" "\<forall>xs \<in> set others. ascending lo xs" "0 \<le> lo"
    and "\<forall>xs \<in> set others. \<forall>x \<in> set (bytes_of xs). x \<le> hi" "(hi - lo + bufsz) div bufsz \<le> INT_MAX"
  defines "a \<equiv> init_aggregator bufsz others w"
  shows "agg_inv bufsz (length others) 0 a" "span 0 a \<subseteq> {lo..hi}" "\<And>i. i < length others \<Longrightarrow> unmets a i = others ! i"
proof -
  show u: "unmets a i = others ! i" if "i < length others" for i using that by (simp add: a_def init_aggregator_def Let_def unmet_new)
  have f: "length (a_sources a) = length others" "a_buf a = w" "a_off a = st_loc others" "a_st a = st_loc others" "a_end a = end_loc others" "a_done a = 0"
    by (simp_all add: a_def init_aggregator_def Let_def)
  have src: "source_ok (a_off a) s \<and> (\<forall>x \<in> set (bytes_of (unmet s)). x \<le> a_end a) \<and> (concat others = [] \<longrightarrow> unmet s = [])" if s: "s \<in> set (a_sources a)" for s
  proof -
    obtain xs where xs: "xs \<in> set others" "s = \<lparr>s_reqs = xs, s_mems = map (\<lambda>_. 0) xs, s_ptr = 0, s_part = 0\<rparr>"
      using s by (auto simp: a_def init_aggregator_def Let_def)
    have b: "st_loc others \<le> off \<and> off + len - 1 \<le> end_loc others" if "(off, len) \<in> set xs" for off len
      using range_bounds [of off len others] that xs(1) by auto
    have "ascending (st_loc others) xs" using ascending_from assms(3) xs(1) b by fastforce
    moreover have "x \<le> end_loc others" if "x \<in> set (bytes_of xs)" for x using that b unfolding set_bytes_of by fastforce
    ultimately show ?thesis using xs f by (auto simp: source_ok_def unmet_new)
  qed
  have "(if 0 < a_ntimes a
      then 0 \<le> a_off a \<and> (int (a_ntimes a) - int 0 - 1) * bufsz < a_end a + 1 - a_off a \<and> a_end a + 1 - a_off a \<le> (int (a_ntimes a) - int 0) * bufsz
      else \<forall>s \<in> set (a_sources a). unmet s = []) \<and> span 0 a \<subseteq> {lo..hi}"
  proof (cases "concat others = []")
    case True
    then have "a_ntimes a = 0" using range_none [OF True] by (simp add: a_def init_aggregator_def Let_def)
    then show ?thesis using src True by (simp add: span_def)
  next
    case False
    have "\<forall>(off, len) \<in> set (concat others). 0 < len \<and> lo \<le> off \<and> off + len - 1 \<le> hi"
    proof clarify
      fix off len assume "(off, len) \<in> set (concat others)"
      then obtain xs where xs: "xs \<in> set others" "(off, len) \<in> set xs" by auto
      then have l: "0 < len" "lo \<le> off" using ascending_all assms(3) by fastforce+
      then have "off + len - 1 \<in> set (bytes_of xs)" using xs(2) unfolding set_bytes_of by force
      then show "0 < len \<and> lo \<le> off \<and> off + len - 1 \<le> hi" using l assms(5) xs(1) by blast
    qed
    note rg = range_within [OF False this]
    let ?n = "end_loc others - st_loc others + 1"
    have n: "0 < ?n" using rg(3) by simp
    note rc = rounds_cover [OF assms(1) n]
    have "(?n - 1 + bufsz) div bufsz \<le> (hi - lo + bufsz) div bufsz" using rg assms(1) by (intro zdiv_mono1) auto
    then have "(?n - 1 + bufsz) div bufsz \<le> INT_MAX" using assms(6) by linarith
    then have "to_int ((?n - 1 + bufsz) div bufsz) = (?n - 1 + bufsz) div bufsz" using rc(3) by (intro to_int_pos) auto
    moreover have "(end_loc others - st_loc others + bufsz) sdiv bufsz = (?n - 1 + bufsz) div bufsz" using rg(3) assms(1) by (simp add: sdiv_nonneg)
    ultimately have "a_ntimes a = nat ((?n - 1 + bufsz) div bufsz)" using rg(1) assms(4) by (simp add: a_def init_aggregator_def Let_def)
    then have nt: "int (a_ntimes a) = (?n - 1 + bufsz) div bufsz" "0 < a_ntimes a" using rc(3) by simp_all
    have "(int (a_ntimes a) - int 0 - 1) * bufsz < a_end a + 1 - a_off a \<and> a_end a + 1 - a_off a \<le> (int (a_ntimes a) - int 0) * bufsz"
      unfolding nt(1) f using rc(1,2) by simp
    then show ?thesis using nt(2) rg assms(4) f by (auto simp: span_def)
  qed
  then show "agg_inv bufsz (length others) 0 a" "span 0 a \<subseteq> {lo..hi}" using src f assms(2) by (auto simp: agg_inv_def)
qed

section \<open>The exchange\<close>

text \<open>
  What \<open>ADIOI_Exch_and_write\<close> needs: requests in order that stay in the aggregator's part of the file, and senders with as many bytes as they have requests.
\<close>

definition exchange_ok :: "int \<Rightarrow> (int \<Rightarrow> int \<Rightarrow> (nat \<times> int) option) \<Rightarrow> (nat \<Rightarrow> int \<times> int) \<Rightarrow> 'a sender list \<Rightarrow> offlens list list \<Rightarrow> byte list list \<Rightarrow> (nat \<Rightarrow> nat \<Rightarrow> 'a list) \<Rightarrow> bool" where
  "exchange_ok bufsz agg part ds others io_bufs D \<longleftrightarrow> length others = length ds \<and> length io_bufs = length ds \<and>
     (\<forall>p < length ds. length (others ! p) = length ds \<and> int (length (io_bufs ! p)) = bufsz \<and> 0 \<le> fst (part p) \<and>
        (snd (part p) - fst (part p) + bufsz) div bufsz \<le> INT_MAX \<and>
        (\<forall>i < length ds. ascending (fst (part p)) (others ! p ! i) \<and> (\<forall>x \<in> set (bytes_of (others ! p ! i)). x \<le> snd (part p)) \<and>
           length (D i p) = length (bytes_of (others ! p ! i)))) \<and>
     (\<forall>p < length ds. \<forall>q < length ds. p \<noteq> q \<longrightarrow> {fst (part p)..snd (part p)} \<inter> {fst (part q)..snd (part q)} = {}) \<and>
     (\<forall>i < length ds. to_send agg (length ds) (ds ! i) (D i))"

abbreviation aggregators :: "int \<Rightarrow> offlens list list \<Rightarrow> byte list list \<Rightarrow> aggregator list" where
  "aggregators bufsz others io_bufs \<equiv> map (\<lambda>(o1, b). init_aggregator bufsz o1 b) (zip others io_bufs)"

lemma exchange_start:
  assumes "exchange_ok bufsz agg part ds others io_bufs D" "0 < bufsz"
  shows "coll_inv bufsz agg 0 D ds (aggregators bufsz others io_bufs)" "length (aggregators bufsz others io_bufs) = length ds"
    "to_write D (aggregators bufsz others io_bufs) = (\<Union>p < length ds. \<Union>i < length ds. set (zip (bytes_of (others ! p ! i)) (D i p)))"
    "(\<Union>p < length ds. span 0 (aggregators bufsz others io_bufs ! p)) \<subseteq> (\<Union>p < length ds. {fst (part p)..snd (part p)})"
    "p < length ds \<Longrightarrow> i < length ds \<Longrightarrow> unmets (aggregators bufsz others io_bufs ! p) i = others ! p ! i"
proof -
  let ?N = "length ds" and ?as = "aggregators bufsz others io_bufs"
  have l: "length others = ?N" "length io_bufs = ?N" using assms(1) by (simp_all add: exchange_ok_def)
  then show N: "length ?as = ?N" by simp
  have nth: "?as ! p = init_aggregator bufsz (others ! p) (io_bufs ! p)" if "p < ?N" for p using l that by simp
  have e: "length (others ! p) = ?N" "int (length (io_bufs ! p)) = bufsz" "0 \<le> fst (part p)" "(snd (part p) - fst (part p) + bufsz) div bufsz \<le> INT_MAX"
    "\<forall>xs \<in> set (others ! p). ascending (fst (part p)) xs" "\<forall>xs \<in> set (others ! p). \<forall>x \<in> set (bytes_of xs). x \<le> snd (part p)" if "p < ?N" for p
  proof -
    have *: "length (others ! p) = ?N \<and> int (length (io_bufs ! p)) = bufsz \<and> 0 \<le> fst (part p) \<and> (snd (part p) - fst (part p) + bufsz) div bufsz \<le> INT_MAX \<and>
        (\<forall>i < ?N. ascending (fst (part p)) (others ! p ! i) \<and> (\<forall>x \<in> set (bytes_of (others ! p ! i)). x \<le> snd (part p)))"
      using assms(1) that by (simp add: exchange_ok_def)
    then show "length (others ! p) = ?N" "int (length (io_bufs ! p)) = bufsz" "0 \<le> fst (part p)" "(snd (part p) - fst (part p) + bufsz) div bufsz \<le> INT_MAX"
      by blast+
    show "\<forall>xs \<in> set (others ! p). ascending (fst (part p)) xs" "\<forall>xs \<in> set (others ! p). \<forall>x \<in> set (bytes_of xs). x \<le> snd (part p)"
      using * by (metis in_set_conv_nth)+
  qed
  have init: "agg_inv bufsz ?N 0 (?as ! p)" "span 0 (?as ! p) \<subseteq> {fst (part p)..snd (part p)}" "\<And>i. i < ?N \<Longrightarrow> unmets (?as ! p) i = others ! p ! i" if "p < ?N" for p
    using init_agg_inv [OF assms(2) e(2) [OF that] e(5) [OF that] e(3) [OF that] e(6) [OF that] e(4) [OF that]] e(1) [OF that] nth [OF that] by simp_all
  show "coll_inv bufsz agg 0 D ds ?as"
    unfolding coll_inv_def N
  proof (intro conjI allI impI)
    show "length (D i p) = length (bytes_of (unmets (?as ! p) i))" if "i < ?N" "p < ?N" for i p
      using init(3) [OF that(2,1)] assms(1) that by (simp add: exchange_ok_def)
    show "span 0 (?as ! p) \<inter> span 0 (?as ! q) = {}" if "p < ?N" "q < ?N" "p \<noteq> q" for p q
      using init(2) [OF that(1)] init(2) [OF that(2)] assms(1) that unfolding exchange_ok_def by blast
  qed (use init(1) assms(1) in \<open>auto simp: exchange_ok_def\<close>)
  show "to_write D ?as = (\<Union>p < ?N. \<Union>i < ?N. set (zip (bytes_of (others ! p ! i)) (D i p)))"
    unfolding to_write_def N using init(3) by simp
  show "(\<Union>p < ?N. span 0 (?as ! p)) \<subseteq> (\<Union>p < ?N. {fst (part p)..snd (part p)})" using init(2) by blast
  show "p < ?N \<Longrightarrow> i < ?N \<Longrightarrow> unmets (?as ! p) i = others ! p ! i" using init(3) by blast
qed

lemma write_round_errors:
  "length pss = length as \<Longrightarrow> length es = length as \<Longrightarrow> \<forall>ps \<in> set pss. \<forall>p \<in> set ps. \<not> p_overlap p \<Longrightarrow> \<forall>e \<in> set es. e \<noteq> MPI_OK \<Longrightarrow>
   write_round ops bufsz r es pss as s = Some (es, as, s)"
proof (induction as arbitrary: pss es)
  case (Cons a as)
  then obtain ps pss' e es' where "pss = ps # pss'" "es = e # es'" by (metis length_Suc_conv)
  with Cons show ?case by (auto simp: write_step_def Let_def)
qed simp

context sieved_file
begin

lemma Exch_and_write_ok:
  assumes "exchange_ok bufsz agg part ds others io_bufs D" "inv c s" "0 < bufsz" "bufsz \<le> INT_MAX"
  shows "\<exists>s'. ADIOI_Exch_and_write (ops c) agg bufsz (map (\<lambda>_. MPI_OK) ds) ds others io_bufs s = Done (map (\<lambda>_. MPI_OK) ds, s') \<and> inv c s' \<and>
    wrote (\<Union>p < length ds. \<Union>i < length ds. set (zip (bytes_of (others ! p ! i)) (D i p))) (\<Union>p < length ds. {fst (part p)..snd (part p)})
      (content s) (content s')"
proof -
  let ?as = "aggregators bufsz others io_bufs"
  note st = exchange_start [OF assms(1,3)]
  have "\<forall>n \<in> set (map a_ntimes ?as). n \<le> 0 + fold max (map a_ntimes ?as) 0"
    by (simp only: Max.set_eq_fold [symmetric]) auto
  then obtain s' where s': "exch_rounds (ops c) agg bufsz 0 (fold max (map a_ntimes ?as) 0) (map (\<lambda>_. MPI_OK) ds) (ds, ?as, s) = Done (map (\<lambda>_. MPI_OK) ds, s')" "inv c s'"
    "wrote (to_write D ?as) (\<Union>p < length ds. span 0 (?as ! p)) (content s) (content s')"
    using exch_rounds_ok [OF st(1) assms(2-4)] st(2) by metis
  then show ?thesis using wrote_mono [OF s'(3) st(4)] assms(3) unfolding st(3) by (auto simp: ADIOI_Exch_and_write_def Let_def)
qed

text \<open>With an error code of before in every process, the data of the first round are exchanged and nothing is written.\<close>

lemma Exch_and_write_error:
  assumes "exchange_ok bufsz agg part ds others io_bufs D" "inv c s" "0 < bufsz" "bufsz \<le> INT_MAX" "length es = length ds" "\<forall>e \<in> set es. e \<noteq> MPI_OK" "ds \<noteq> []"
  shows "\<exists>s'. ADIOI_Exch_and_write (ops c) agg bufsz es ds others io_bufs s = Done (es, s') \<and> inv c s' \<and> content s' = content s"
proof -
  let ?as = "aggregators bufsz others io_bufs"
  note st = exchange_start [OF assms(1,3)]
  have "\<exists>s'. exch_rounds (ops c) agg bufsz 0 n es (ds, ?as, s) = Done (es, s') \<and> inv c s' \<and> content s' = content s" for n
  proof (cases n)
    case (Suc k)
    obtain pss where pss: "those (map (plan_round bufsz 0) ?as) = Some pss" "length pss = length ?as" "\<forall>p < length ?as. plan_at bufsz 0 ?as p (pss ! p)"
      using plans_ok [OF st(1) assms(3,4)] by blast
    obtain ds' ws s1 where ex: "ADIOI_W_Exchange_data (ops c) agg bufsz pss (ds, ?as, s) =
        Done (ds', map (\<lambda>p. (?as ! p)\<lparr>a_buf := ws ! p, a_sources := map p_source (pss ! p)\<rparr>) [0..<length ?as], s1)"
      "inv c s1" "content s1 = content s"
      "\<And>p. p < length ?as \<Longrightarrow> can_write bufsz 0 (pss ! p) (arrived_at bufsz 0 D ?as pss p) (content s) ((?as ! p)\<lparr>a_buf := ws ! p, a_sources := map p_source (pss ! p)\<rparr>)"
      using W_Exchange_data_ok [OF st(1) assms(2) pss(2,3)] by blast
    let ?as2 = "map (\<lambda>p. (?as ! p)\<lparr>a_buf := ws ! p, a_sources := map p_source (pss ! p)\<rparr>) [0..<length ?as]"
    have "\<forall>x \<in> set (pss ! p). \<not> p_overlap x" if "p < length pss" for p using ex(4) [of p] that pss(2) by (simp add: can_write_def)
    then have "\<forall>ps \<in> set pss. \<forall>p \<in> set ps. \<not> p_overlap p" by (simp add: all_set_conv_all_nth)
    then have "write_round (ops c) bufsz 0 es pss ?as2 s1 = Some (es, ?as2, s1)" using pss(2) st(2) assms(5,6) by (intro write_round_errors) auto
    then have "exch_round (ops c) agg bufsz 0 es (ds, ?as, s) = Done (es, ds', ?as2, s1)" unfolding exch_round_def using pss(1) ex(1) by simp
    moreover have "\<not> (\<forall>e \<in> set es. e = MPI_OK)" using assms(5-7) by (cases es) auto
    ultimately show ?thesis using assms(6) ex(2,3) Suc by simp
  qed (use assms(2) in simp)
  then show ?thesis using assms(3) by (simp add: ADIOI_Exch_and_write_def Let_def)
qed

end

end
