(* ===== verification/Coll_Input.thy ===== *)
theory Coll_Input
  imports Coll_Receive Coll_Exchange
begin

text \<open>
  The rounds of the collective read: from a file that has the bytes of the requests, every process gets them. The invariant of the rounds is the one of the collective write, with
  receivers as senders of addresses.
\<close>

section \<open>One aggregator\<close>

lemma send_from_ok:
  assumes "\<forall>(o1, l) \<in> set S. off \<le> o1 \<and> 0 < l \<and> o1 + l \<le> off + sz" "sz \<le> int (length w)" "\<forall>x \<in> set (bytes_of S). w ! nat (x - off) = g x"
  shows "send_from (map (\<lambda>x. (fst x - off, snd x)) S) w = Some (map g (bytes_of S))"
  using assms
proof (induction S)
  case (Cons y S)
  obtain o1 l where y: "y = (o1, l)" by force
  have b: "off \<le> o1" "0 < l" "o1 + l \<le> off + sz" using Cons.prems(1) y by auto
  have "take (nat l) (drop (nat (o1 - off)) w) = map g [o1..o1 + l - 1]"
  proof (rule nth_equalityI)
    show "length (take (nat l) (drop (nat (o1 - off)) w)) = length (map g [o1..o1 + l - 1])" using b Cons.prems(2) by auto
    fix i assume "i < length (take (nat l) (drop (nat (o1 - off)) w))"
    then have i: "int i < l" by auto
    then have "w ! nat (o1 + int i - off) = g (o1 + int i)" using Cons.prems(3) b(2) by (simp add: y bytes_of_Cons)
    moreover have "nat (o1 + int i - off) = nat (o1 - off) + i" using b(1) by simp
    ultimately show "take (nat l) (drop (nat (o1 - off)) w) ! i = map g [o1..o1 + l - 1] ! i" using i b Cons.prems(2) by (simp add: nat_less_iff)
  qed
  moreover have "send_from (map (\<lambda>x. (fst x - off, snd x)) S) w = Some (map g (bytes_of S))"
    using Cons by (simp add: y bytes_of_Cons)
  ultimately show ?case using b Cons.prems(2) by (simp add: y bytes_of_Cons)
qed simp

lemma send_window_ok:
  assumes "round_ok bufsz r U a ps" "can_fill bufsz r ps {} c a" "\<forall>i < length ps. \<forall>x \<in> set (bytes_of (got bufsz r U a i)). c x = Some (g x)"
  shows "send_window ps (a_buf a) = Some (map (\<lambda>i. map g (bytes_of (got bufsz r U a i))) [0..<length ps])"
  unfolding send_window_def
proof (rule those_nth)
  show "length (map (\<lambda>i. map g (bytes_of (got bufsz r U a i))) [0..<length ps]) = length ps" by simp
  show "\<forall>i < length ps. (if p_recv (ps ! i) = 0 then Some [] else send_from (recv_type (ps ! i)) (a_buf a)) =
      Some (map (\<lambda>i. map g (bytes_of (got bufsz r U a i))) [0..<length ps] ! i)"
  proof (intro allI impI)
    fix i assume i: "i < length ps"
    let ?sz = "round_size bufsz a" and ?off = "a_off a"
    show "(if p_recv (ps ! i) = 0 then Some [] else send_from (recv_type (ps ! i)) (a_buf a)) =
      Some (map (\<lambda>i. map g (bytes_of (got bufsz r U a i))) [0..<length ps] ! i)"
    proof (cases "r < a_ntimes a")
      case False
      then show ?thesis using assms(1) i by (simp add: round_ok_def got_def)
    next
      case True
      then have a: "?sz \<le> int (length (a_buf a))" and pl: "planned ?off ?sz (U i) (ps ! i)" using assms(1) i by (auto simp: round_ok_def)
      let ?S = "served (?off + ?sz) (U i)"
      have g: "got bufsz r U a i = ?S" using True by (simp add: got_def)
      have asc: "ascending ?off (U i)" using pl by (simp add: planned_def)
      have len: "int (length (bytes_of ?S)) = p_recv (ps ! i)" using length_bytes_of [OF ascending_served [OF asc]] pl by (simp add: planned_def)
      show ?thesis
      proof (cases "p_recv (ps ! i) = 0")
        case z: True
        then show ?thesis using len g i by simp
      next
        case nz: False
        then have "p_count (ps ! i) \<noteq> 0" using pl by (auto simp: planned_def)
        then have "busy ps" using i by (auto simp: busy_def)
        moreover have "\<forall>x \<in> set (bytes_of ?S). ?off \<le> x \<and> x < ?off + ?sz \<and> c x = Some (g x)"
          using assms(3) i served_below [OF asc] ascending_bytes [OF ascending_served [OF asc]] g by metis
        ultimately have "\<forall>x \<in> set (bytes_of ?S). a_buf a ! nat (x - ?off) = g x" using assms(2) True unfolding can_fill_def by blast
        then have "send_from (map (\<lambda>x. (fst x - ?off, snd x)) ?S) (a_buf a) = Some (map g (bytes_of ?S))"
          using send_from_ok [OF served_within [OF asc] a] by blast
        then show ?thesis using nz i g pl by (simp add: planned_def)
      qed
    qed
  qed
qed

lemma keep_nothing: "\<forall>p \<in> set ps. \<not> p_overlap p \<Longrightarrow> keep_for_next off sz ps = 0"
  unfolding keep_for_next_def by (induction ps) auto

lemma next_read_ok:
  assumes "\<forall>p \<in> set ps. \<not> p_overlap p"
  shows "next_read fresh bufsz r ps (a, 0) = Some (next_window bufsz r (a\<lparr>a_sources := map p_source ps\<rparr>), 0)"
  using keep_nothing [OF assms] by (simp add: next_read_def next_window_def Let_def)

lemma read_plan_eq [simp]: "read_plan bufsz r (a, 0) = plan_round bufsz r a"
  by (simp add: read_plan_def plan_round_def)

section \<open>A round\<close>

lemma R_Exchange_data_ok:
  assumes "coll_inv bufsz agg r A (map addr_of ds) as" "length pss = length as" "\<forall>p < length as. plan_at bufsz r as p (pss ! p)"
    and ws: "length ws = length as" "\<And>p. p < length as \<Longrightarrow> length (ws ! p) = length (a_buf (as ! p)) \<and> can_fill bufsz r (pss ! p) {} cont ((as ! p)\<lparr>a_buf := ws ! p\<rparr>)"
    and has: "\<forall>p < length as. \<forall>i < length as. \<forall>x \<in> set (bytes_of (unmets (as ! p) i)). cont x = Some (g x)"
  shows "\<exists>ds'. ADIOI_R_Exchange_data agg pss (map (\<lambda>(a, w). (a\<lparr>a_buf := w\<rparr>, 0)) (zip as ws)) ds = Some ds' \<and> length ds' = length as \<and>
    (\<forall>i < length as. to_send agg (length as) (addr_of (ds' ! i)) (\<lambda>p. drop (nat (p_recv (pss ! p ! i))) (A i p)) \<and>
       stored (\<Union>p < length as. set (zip (A i p) (map g (got_bytes bufsz r as p i)))) (d_mem (ds ! i)) (d_mem (ds' ! i)))"
proof -
  let ?N = "length as" and ?G = "got_bytes bufsz r as"
  let ?msgs = "map (\<lambda>p. map (\<lambda>i. map g (?G p i)) [0..<?N]) [0..<?N]"
  have ds: "length ds = ?N" and ts: "\<And>i. i < ?N \<Longrightarrow> to_send agg ?N (addr_of (ds ! i)) (A i)"
    and len: "\<And>i p. i < ?N \<Longrightarrow> p < ?N \<Longrightarrow> length (A i p) = length (bytes_of (unmets (as ! p) i))"
    using assms(1) by (auto simp: coll_inv_def)
  have pl: "length (pss ! p) = ?N" "round_ok bufsz r (unmets (as ! p)) (as ! p) (pss ! p)" "\<And>i. i < ?N \<Longrightarrow> p_recv (pss ! p ! i) = int (length (?G p i))"
    "\<And>i. i < ?N \<Longrightarrow> bytes_of (unmets (as ! p) i) = ?G p i @ bytes_of (unmet (p_source (pss ! p ! i)))" if "p < ?N" for p
    using assms(3) that by (auto simp: plan_at_def)
  have sent: "those (map (\<lambda>(ps, a, _). send_window ps (a_buf a)) (zip pss (map (\<lambda>(a, w). (a\<lparr>a_buf := w\<rparr>, 0 :: int)) (zip as ws)))) = Some ?msgs"
  proof (rule those_nth)
    show "length ?msgs = length (zip pss (map (\<lambda>(a, w). (a\<lparr>a_buf := w\<rparr>, 0 :: int)) (zip as ws)))" using assms(2) ws(1) by simp
    have "send_window (pss ! p) (ws ! p) = Some (?msgs ! p)" if p: "p < ?N" for p
    proof -
      have ro: "round_ok bufsz r (unmets (as ! p)) ((as ! p)\<lparr>a_buf := ws ! p\<rparr>) (pss ! p)" using pl(2) [OF p] ws(2) [OF p] by (simp add: round_ok_buf)
      have "\<forall>i < length (pss ! p). \<forall>x \<in> set (bytes_of (got bufsz r (unmets (as ! p)) ((as ! p)\<lparr>a_buf := ws ! p\<rparr>) i)). cont x = Some (g x)"
        using has pl(1,4) [OF p] p by auto
      from send_window_ok [OF ro _ this] show ?thesis using ws(2) [OF p] pl(1) [OF p] p by simp
    qed
    then show "\<forall>i < length (zip pss (map (\<lambda>(a, w). (a\<lparr>a_buf := w\<rparr>, 0 :: int)) (zip as ws))).
      (case zip pss (map (\<lambda>(a, w). (a\<lparr>a_buf := w\<rparr>, 0 :: int)) (zip as ws)) ! i of (ps, a, _) \<Rightarrow> send_window ps (a_buf a)) = Some (?msgs ! i)"
      using assms(2) ws(1) by simp
  qed
  let ?Q = "\<lambda>i d'. recv_data agg (map (\<lambda>ps. p_recv (ps ! i)) pss) (map (\<lambda>m. m ! i) ?msgs) (ds ! i) = Some d' \<and>
    to_send agg ?N (addr_of d') (\<lambda>p. drop (nat (p_recv (pss ! p ! i))) (A i p)) \<and>
    stored (\<Union>p < ?N. set (zip (A i p) (map g (?G p i)))) (d_mem (ds ! i)) (d_mem d')"
  have "\<exists>d'. ?Q i d'" if i: "i < ?N" for i
  proof -
    let ?sz = "map (\<lambda>ps. p_recv (ps ! i)) pss" and ?ms = "map (\<lambda>m. m ! i) ?msgs"
    have n: "length ?sz = ?N" "length ?ms = ?N" "\<forall>p < ?N. int (length (?ms ! p)) = ?sz ! p" using assms(2) pl(3) i by simp_all
    have le: "\<forall>p < ?N. ?sz ! p \<le> int (length (A i p))" using assms(2) pl(3,4) len i by simp
    obtain d' where d': "recv_data agg ?sz ?ms (ds ! i) = Some d'" "to_send agg ?N (addr_of d') (\<lambda>p. drop (nat (?sz ! p)) (A i p))"
      "stored (\<Union>p < ?N. set (zip (A i p) (?ms ! p))) (d_mem (ds ! i)) (d_mem d')"
      using recv_data_ok [OF ts [OF i] n le] by blast
    have "to_send agg ?N (addr_of d') (\<lambda>p. drop (nat (p_recv (pss ! p ! i))) (A i p))" by (rule to_send_cong [OF _ d'(2)]) (simp add: assms(2))
    moreover have "(\<Union>p < ?N. set (zip (A i p) (?ms ! p))) = (\<Union>p < ?N. set (zip (A i p) (map g (?G p i))))" using i by simp
    ultimately show ?thesis using d'(1,3) by (intro exI [of _ d']) simp
  qed
  then obtain ds' where ds': "length ds' = ?N" "\<And>i. i < ?N \<Longrightarrow> ?Q i (ds' ! i)" using Skolem_list_nth [of ?N ?Q] by blast
  have "those (map (\<lambda>i. recv_data agg (map (\<lambda>ps. p_recv (ps ! i)) pss) (map (\<lambda>m. m ! i) ?msgs) (ds ! i)) [0..<length ds]) = Some ds'"
    by (rule those_nth) (use ds' ds in simp_all)
  then show ?thesis using sent ds' unfolding ADIOI_R_Exchange_data_def by simp
qed

text \<open>What process \<open>i\<close> is still to get: addresses and bytes.\<close>

definition to_read :: "(int \<Rightarrow> byte) \<Rightarrow> (nat \<Rightarrow> nat \<Rightarrow> int list) \<Rightarrow> aggregator list \<Rightarrow> nat \<Rightarrow> (int \<times> byte) set" where
  "to_read g A as i = (\<Union>p < length as. set (zip (A i p) (map g (bytes_of (unmets (as ! p) i)))))"

lemma round_ok_no_overlap: "round_ok bufsz r U a ps \<Longrightarrow> \<forall>p \<in> set ps. \<not> p_overlap p"
  by (auto simp: round_ok_def planned_def in_set_conv_nth split: if_splits)

lemma zip_split:
  assumes "length G \<le> length A"
  shows "set (zip A (map g (G @ H))) = set (zip A (map g G)) \<union> set (zip (drop (length G) A) (map g H))"
proof -
  have "zip A (map g (G @ H)) = zip (take (length G) A @ drop (length G) A) (map g G @ map g H)" by simp
  also have "\<dots> = zip (take (length G) A) (map g G) @ zip (drop (length G) A) (map g H)" using assms by (intro zip_append) simp
  also have "zip (take (length G) A) (map g G) = zip A (map g G)" by (metis length_map take_all order_refl take_zip zip_take_length zip_commute take_map)
  finally show ?thesis by simp
qed

lemma next_round_inv:
  assumes "coll_inv bufsz agg r A ds as" "length pss = length as" "\<forall>p < length as. plan_at bufsz r as p (pss ! p)" "0 < bufsz" "bufsz \<le> INT_MAX"
    and ws: "\<forall>p < length as. length (ws ! p) = length (a_buf (as ! p))" and ds': "length ds' = length as"
    "\<forall>i < length as. to_send agg (length as) (ds' ! i) (\<lambda>p. drop (nat (p_recv (pss ! p ! i))) (A i p))"
  defines "as' \<equiv> map (\<lambda>p. next_window bufsz r ((as ! p)\<lparr>a_buf := ws ! p, a_sources := map p_source (pss ! p)\<rparr>)) [0..<length as]"
  shows "coll_inv bufsz agg (Suc r) (\<lambda>i p. drop (nat (p_recv (pss ! p ! i))) (A i p)) ds' as'" "map a_ntimes as' = map a_ntimes as" "length as' = length as"
    "\<And>p i. p < length as \<Longrightarrow> i < length as \<Longrightarrow> unmets (as' ! p) i = unmet (p_source (pss ! p ! i))"
proof -
  let ?N = "length as" and ?A = "\<lambda>i p. drop (nat (p_recv (pss ! p ! i))) (A i p)"
  have ai: "\<And>p. p < ?N \<Longrightarrow> agg_inv bufsz ?N r (as ! p)" and len: "\<And>i p. i < ?N \<Longrightarrow> p < ?N \<Longrightarrow> length (A i p) = length (bytes_of (unmets (as ! p) i))"
    and dis: "\<And>p q. p < ?N \<Longrightarrow> q < ?N \<Longrightarrow> p \<noteq> q \<Longrightarrow> span r (as ! p) \<inter> span r (as ! q) = {}"
    using assms(1) by (auto simp: coll_inv_def)
  show l: "length as' = ?N" by (simp add: as'_def)
  show u: "unmets (as' ! p) i = unmet (p_source (pss ! p ! i))" if "p < ?N" "i < ?N" for p i
    using that assms(3) by (simp add: as'_def span_next plan_at_def)
  have sp: "span (Suc r) (as' ! p) \<subseteq> span r (as ! p)" if "p < ?N" for p
    using win_in_span(2) [OF ai [OF that] assms(4,5)] that by (simp add: as'_def span_next)
  show "coll_inv bufsz agg (Suc r) ?A ds' as'"
    unfolding coll_inv_def l
  proof (intro conjI allI impI)
    show "agg_inv bufsz ?N (Suc r) (as' ! p)" if "p < ?N" for p using assms(3) ws that by (simp add: as'_def plan_at_def)
    show "length (?A i p) = length (bytes_of (unmets (as' ! p) i))" if "i < ?N" "p < ?N" for i p
      using len [OF that] assms(3) that unfolding u [OF that(2,1)] by (simp add: plan_at_def)
    show "span (Suc r) (as' ! p) \<inter> span (Suc r) (as' ! q) = {}" if "p < ?N" "q < ?N" "p \<noteq> q" for p q
      using dis [OF that] sp that(1,2) by blast
  qed (use ds' in simp_all)
  show "map a_ntimes as' = map a_ntimes as" by (rule nth_equalityI) (simp_all add: as'_def span_next)
qed

context sieved_file
begin

lemma read_step_ok:
  assumes "inv c s" "round_ok bufsz r U a ps"
  shows "\<exists>w s'. read_step (ops c) bufsz r ps (a, 0) s = Some (MPI_OK, (a\<lparr>a_buf := w\<rparr>, 0), s') \<and> length w = length (a_buf a) \<and> inv c s' \<and> content s' = content s \<and>
    can_fill bufsz r ps {} (content s) (a\<lparr>a_buf := w\<rparr>)"
proof (cases "r < a_ntimes a \<and> busy ps")
  case False
  then have "read_step (ops c) bufsz r ps (a, 0) s = Some (MPI_OK, (a\<lparr>a_buf := a_buf a\<rparr>, 0), s)" by (auto simp: read_step_def busy_def)
  then show ?thesis using assms(1) False by (intro exI [of _ "a_buf a"] exI [of _ s]) (auto simp: can_fill_def)
next
  case True
  let ?sz = "round_size bufsz a" and ?off = "a_off a"
  have a: "0 \<le> ?off" "0 \<le> ?sz" "?sz \<le> INT_MAX" "?sz \<le> int (length (a_buf a))" using assms(2) True by (auto simp: round_ok_def)
  obtain bs s' where r: "sv_read (ops c) ?sz ?off s = Some (MPI_OK, bs, s')" "inv c s'" "content s' = content s" "int (length bs) \<le> ?sz"
    "\<And>p b. ?off \<le> p \<Longrightarrow> p < ?off + ?sz \<Longrightarrow> content s p = Some b \<Longrightarrow> nat (p - ?off) < length bs \<and> bs ! nat (p - ?off) = b"
    using read_ok [OF assms(1) a(1,2)] by auto
  have "0 + int (length bs) \<le> int (length (a_buf a))" using r(4) a(4) by simp
  then obtain w where w: "memcpy_at (a_buf a) 0 bs = Some w" "length w = length (a_buf a)"
    "\<And>k. k < length (a_buf a) \<Longrightarrow> w ! k = (if nat 0 \<le> k \<and> k < nat 0 + length bs then bs ! (k - nat 0) else a_buf a ! k)"
    using memcpy_at_Some [of 0 bs "a_buf a"] by blast
  have "w ! nat (q - ?off) = b" if "?off \<le> q" "q < ?off + ?sz" "content s q = Some b" for q b
    using r(5) [OF that] w(3) [of "nat (q - ?off)"] that(1,2) a(4) by auto
  then have "can_fill bufsz r ps {} (content s) (a\<lparr>a_buf := w\<rparr>)" by (simp add: can_fill_def)
  moreover have "read_step (ops c) bufsz r ps (a, 0) s = Some (MPI_OK, (a\<lparr>a_buf := w\<rparr>, 0), s')"
    using True r(1) w(1) to_int_pos [OF a(2,3)] by (auto simp: read_step_def busy_def Let_def)
  ultimately show ?thesis using w(2) r(2,3) by blast
qed

lemma read_steps_ok:
  assumes "inv c s" "length pss = length as" "\<forall>i < length as. round_ok bufsz r (U i) (as ! i) (pss ! i)"
  shows "\<exists>ws s'. read_steps (ops c) bufsz r pss (map (\<lambda>a. (a, 0)) as) s =
      Some (map (\<lambda>_. MPI_OK) as, map (\<lambda>(a, w). (a\<lparr>a_buf := w\<rparr>, 0)) (zip as ws), s') \<and> length ws = length as \<and> inv c s' \<and> content s' = content s \<and>
    (\<forall>i < length as. length (ws ! i) = length (a_buf (as ! i)) \<and> can_fill bufsz r (pss ! i) {} (content s) ((as ! i)\<lparr>a_buf := ws ! i\<rparr>))"
  using assms
proof (induction as arbitrary: pss U s)
  case (Cons a as)
  obtain ps pss' where pss: "pss = ps # pss'" using Cons.prems(2) by (cases pss) auto
  have "round_ok bufsz r (U 0) a ps" using Cons.prems(3) pss by (auto dest: spec [of _ 0])
  then obtain w s1 where s1: "read_step (ops c) bufsz r ps (a, 0) s = Some (MPI_OK, (a\<lparr>a_buf := w\<rparr>, 0), s1)" "length w = length (a_buf a)" "inv c s1"
    "content s1 = content s" "can_fill bufsz r ps {} (content s) (a\<lparr>a_buf := w\<rparr>)"
    using read_step_ok [OF Cons.prems(1)] by blast
  have "\<forall>i < length as. round_ok bufsz r (U (Suc i)) (as ! i) (pss' ! i)" using Cons.prems(3) pss by auto
  then obtain ws s' where s': "read_steps (ops c) bufsz r pss' (map (\<lambda>a. (a, 0)) as) s1 =
      Some (map (\<lambda>_. MPI_OK) as, map (\<lambda>(a, w). (a\<lparr>a_buf := w\<rparr>, 0)) (zip as ws), s')" "length ws = length as" "inv c s'" "content s' = content s"
    "\<forall>i < length as. length (ws ! i) = length (a_buf (as ! i)) \<and> can_fill bufsz r (pss' ! i) {} (content s) ((as ! i)\<lparr>a_buf := ws ! i\<rparr>)"
    using Cons.IH [OF s1(3), of pss' "\<lambda>i. U (Suc i)"] Cons.prems(2) pss s1(4) by auto
  have "\<forall>i < length (a # as). length ((w # ws) ! i) = length (a_buf ((a # as) ! i)) \<and>
      can_fill bufsz r (pss ! i) {} (content s) (((a # as) ! i)\<lparr>a_buf := (w # ws) ! i\<rparr>)"
    using s1(2,5) s'(5) pss by (auto simp: less_Suc_eq_0_disj)
  then show ?case using s1(1) s'(1-4) pss by (intro exI [of _ "w # ws"] exI [of _ s']) simp
qed simp

lemma input_round_ok:
  assumes "coll_inv bufsz agg r A (map addr_of ds) as" "inv c s" "0 < bufsz" "bufsz \<le> INT_MAX"
    and has: "\<forall>p < length as. \<forall>i < length as. \<forall>x \<in> set (bytes_of (unmets (as ! p) i)). content s x = Some (g x)"
  shows "\<exists>ds' as' s' A'. input_round (ops c) fresh agg bufsz r (ds, map (\<lambda>a. (a, 0)) as, s) = Done (map (\<lambda>_. MPI_OK) as, ds', map (\<lambda>a. (a, 0)) as', s') \<and>
    inv c s' \<and> content s' = content s \<and> coll_inv bufsz agg (Suc r) A' (map addr_of ds') as' \<and> map a_ntimes as' = map a_ntimes as \<and>
    (\<forall>p < length as. \<forall>i < length as. set (bytes_of (unmets (as' ! p) i)) \<subseteq> set (bytes_of (unmets (as ! p) i))) \<and>
    (\<forall>i < length as. \<exists>X. stored X (d_mem (ds ! i)) (d_mem (ds' ! i)) \<and> to_read g A as i = X \<union> to_read g A' as' i)"
proof -
  let ?N = "length as"
  obtain pss where pss: "those (map (plan_round bufsz r) as) = Some pss" "length pss = ?N" "\<forall>p < ?N. plan_at bufsz r as p (pss ! p)"
    using plans_ok [OF assms(1,3,4)] by blast
  have ro: "\<forall>p < ?N. round_ok bufsz r (unmets (as ! p)) (as ! p) (pss ! p)" using pss(3) by (simp add: plan_at_def)
  obtain ws s1 where rd: "read_steps (ops c) bufsz r pss (map (\<lambda>a. (a, 0)) as) s =
      Some (map (\<lambda>_. MPI_OK) as, map (\<lambda>(a, w). (a\<lparr>a_buf := w\<rparr>, 0)) (zip as ws), s1)" "length ws = ?N" "inv c s1" "content s1 = content s"
    "\<And>p. p < ?N \<Longrightarrow> length (ws ! p) = length (a_buf (as ! p)) \<and> can_fill bufsz r (pss ! p) {} (content s) ((as ! p)\<lparr>a_buf := ws ! p\<rparr>)"
    using read_steps_ok [OF assms(2) pss(2) ro] by blast
  let ?as1 = "map (\<lambda>(a, w). (a\<lparr>a_buf := w\<rparr>, 0 :: int)) (zip as ws)" and ?A = "\<lambda>i p. drop (nat (p_recv (pss ! p ! i))) (A i p)"
  obtain ds' where ex: "ADIOI_R_Exchange_data agg pss ?as1 ds = Some ds'" "length ds' = ?N"
    "\<And>i. i < ?N \<Longrightarrow> to_send agg ?N (addr_of (ds' ! i)) (?A i)"
    "\<And>i. i < ?N \<Longrightarrow> stored (\<Union>p < ?N. set (zip (A i p) (map g (got_bytes bufsz r as p i)))) (d_mem (ds ! i)) (d_mem (ds' ! i))"
    using R_Exchange_data_ok [OF assms(1) pss(2,3) rd(2,5) has] by blast
  let ?as' = "map (\<lambda>p. next_window bufsz r ((as ! p)\<lparr>a_buf := ws ! p, a_sources := map p_source (pss ! p)\<rparr>)) [0..<?N]"
  have la: "length (map addr_of ds') = ?N" "\<forall>i < ?N. to_send agg ?N (map addr_of ds' ! i) (?A i)" using ex(2,3) by simp_all
  have lw: "\<forall>p < ?N. length (ws ! p) = length (a_buf (as ! p))" using rd(5) by blast
  note nr = next_round_inv [OF assms(1) pss(2,3) assms(3,4) lw la]
  have nx: "those (map (\<lambda>(ps, a). next_read fresh bufsz r ps a) (zip pss ?as1)) = Some (map (\<lambda>a. (a, 0)) ?as')"
  proof (rule those_nth)
    show "length (map (\<lambda>a. (a, 0 :: int)) ?as') = length (zip pss ?as1)" using pss(2) rd(2) by simp
    have "next_read fresh bufsz r (pss ! p) ((as ! p)\<lparr>a_buf := ws ! p\<rparr>, 0) = Some (?as' ! p, 0)" if "p < ?N" for p
      using next_read_ok [OF round_ok_no_overlap, of bufsz r "unmets (as ! p)" "as ! p" "pss ! p"] ro that by simp
    then show "\<forall>i < length (zip pss ?as1). (case zip pss ?as1 ! i of (ps, a) \<Rightarrow> next_read fresh bufsz r ps a) = Some (map (\<lambda>a. (a, 0)) ?as' ! i)"
      using pss(2) rd(2) by simp
  qed
  have "input_round (ops c) fresh agg bufsz r (ds, map (\<lambda>a. (a, 0)) as, s) = Done (map (\<lambda>_. MPI_OK) as, ds', map (\<lambda>a. (a, 0)) ?as', s1)"
    using pss(1) rd(1) ex(1) nx by (simp add: input_round_def comp_def)
  moreover
  have bytes: "bytes_of (unmets (as ! p) i) = got_bytes bufsz r as p i @ bytes_of (unmets (?as' ! p) i)"
    "p_recv (pss ! p ! i) = int (length (got_bytes bufsz r as p i))" if "p < ?N" "i < ?N" for p i
    using pss(3) nr(4) [OF that] that by (simp_all add: plan_at_def)
  have "to_read g A as i = (\<Union>p < ?N. set (zip (A i p) (map g (got_bytes bufsz r as p i)))) \<union> to_read g ?A ?as' i" if i: "i < ?N" for i
  proof -
    have "set (zip (A i p) (map g (bytes_of (unmets (as ! p) i)))) =
        set (zip (A i p) (map g (got_bytes bufsz r as p i))) \<union> set (zip (?A i p) (map g (bytes_of (unmets (?as' ! p) i))))" if p: "p < ?N" for p
    proof -
      have "length (A i p) = length (bytes_of (unmets (as ! p) i))" using assms(1) i p by (simp add: coll_inv_def)
      then have "length (got_bytes bufsz r as p i) \<le> length (A i p)" using bytes(1) [OF p i] by simp
      then show ?thesis using zip_split [of "got_bytes bufsz r as p i" "A i p" g] unfolding bytes [OF p i] by simp
    qed
    then show ?thesis unfolding to_read_def nr(3) by (simp add: UN_Un_distrib)
  qed
  then have "\<forall>i < ?N. \<exists>X. stored X (d_mem (ds ! i)) (d_mem (ds' ! i)) \<and> to_read g A as i = X \<union> to_read g ?A ?as' i" using ex(4) by blast
  moreover have "\<forall>p < ?N. \<forall>i < ?N. set (bytes_of (unmets (?as' ! p) i)) \<subseteq> set (bytes_of (unmets (as ! p) i))" using bytes(1) by auto
  ultimately show ?thesis using rd(3,4) nr(1,2) by (intro exI [of _ ds'] exI [of _ ?as'] exI [of _ s1] exI [of _ ?A] conjI)
qed

lemma input_rounds_ok:
  assumes "coll_inv bufsz agg r A (map addr_of ds) as" "inv c s" "0 < bufsz" "bufsz \<le> INT_MAX" "\<forall>n \<in> set (map a_ntimes as). n \<le> r + k"
    and has: "\<forall>p < length as. \<forall>i < length as. \<forall>x \<in> set (bytes_of (unmets (as ! p) i)). content s x = Some (g x)"
  shows "\<exists>ds' s'. input_rounds (ops c) fresh agg bufsz r k (ds, map (\<lambda>a. (a, 0)) as, s) = Done (map (\<lambda>_. MPI_OK) ds, ds', s') \<and> inv c s' \<and> content s' = content s \<and>
    length ds' = length ds \<and> (\<forall>i < length ds. stored (to_read g A as i) (d_mem (ds ! i)) (d_mem (ds' ! i)))"
  using assms
proof (induction k arbitrary: r A ds as s)
  case 0
  have "unmets (as ! p) i = []" if "p < length as" "i < length as" for p i
  proof -
    have "\<not> r < a_ntimes (as ! p)" using 0(5) that by (simp add: not_less)
    moreover have "agg_inv bufsz (length as) r (as ! p)" using 0(1) that by (simp add: coll_inv_def)
    ultimately show ?thesis using that by (simp add: agg_inv_def)
  qed
  moreover have "length ds = length as" using 0(1) by (simp add: coll_inv_def)
  ultimately have "to_read g A as i = {}" if "i < length ds" for i using that by (simp add: to_read_def)
  then show ?case using 0(2) stored_none by auto
next
  case (Suc k)
  obtain ds1 as1 s1 A1 where r: "input_round (ops c) fresh agg bufsz r (ds, map (\<lambda>a. (a, 0)) as, s) = Done (map (\<lambda>_. MPI_OK) as, ds1, map (\<lambda>a. (a, 0)) as1, s1)"
    "inv c s1" "content s1 = content s" "coll_inv bufsz agg (Suc r) A1 (map addr_of ds1) as1" "map a_ntimes as1 = map a_ntimes as"
    "\<forall>p < length as. \<forall>i < length as. set (bytes_of (unmets (as1 ! p) i)) \<subseteq> set (bytes_of (unmets (as ! p) i))"
    "\<forall>i < length as. \<exists>X. stored X (d_mem (ds ! i)) (d_mem (ds1 ! i)) \<and> to_read g A as i = X \<union> to_read g A1 as1 i"
    using input_round_ok [OF Suc.prems(1-4,6), of fresh] by blast
  have l: "length ds = length as" "length ds1 = length as1" "length as1 = length as"
    using Suc.prems(1) r(4) map_eq_imp_length_eq [OF r(5)] by (simp_all add: coll_inv_def)
  have "\<forall>n \<in> set (map a_ntimes as1). n \<le> Suc r + k" using Suc.prems(5) unfolding r(5) by simp
  moreover have "\<forall>p < length as1. \<forall>i < length as1. \<forall>x \<in> set (bytes_of (unmets (as1 ! p) i)). content s1 x = Some (g x)"
    using Suc.prems(6) r(3,6) l(3) by fastforce
  ultimately obtain ds' s' where s': "input_rounds (ops c) fresh agg bufsz (Suc r) k (ds1, map (\<lambda>a. (a, 0)) as1, s1) = Done (map (\<lambda>_. MPI_OK) ds1, ds', s')" "inv c s'"
    "content s' = content s1" "length ds' = length ds1" "\<And>i. i < length ds1 \<Longrightarrow> stored (to_read g A1 as1 i) (d_mem (ds1 ! i)) (d_mem (ds' ! i))"
    using Suc.IH [OF r(4,2) Suc.prems(3,4)] by blast
  have "stored (to_read g A as i) (d_mem (ds ! i)) (d_mem (ds' ! i))" if i: "i < length ds" for i
  proof -
    have "i < length as" using i l(1) by simp
    then obtain X where X: "stored X (d_mem (ds ! i)) (d_mem (ds1 ! i))" "to_read g A as i = X \<union> to_read g A1 as1 i" using r(7) by blast
    show ?thesis unfolding X(2) by (rule stored_trans [OF X(1) s'(5)]) (use i l in simp)
  qed
  moreover have "map (\<lambda>_. MPI_OK) ds1 = map (\<lambda>_. MPI_OK) ds" using l by (simp add: map_replicate_const)
  ultimately show ?case using r(1,3) s'(1-4) l by auto
qed

lemma Read_and_exch_ok:
  assumes "exchange_ok bufsz agg part (map addr_of ds) others io_bufs A" "inv c s" "0 < bufsz" "bufsz \<le> INT_MAX"
    and has: "\<forall>p < length ds. \<forall>i < length ds. \<forall>x \<in> set (bytes_of (others ! p ! i)). content s x = Some (g x)"
  shows "\<exists>ds' s'. ADIOI_Read_and_exch (ops c) fresh agg bufsz ds others io_bufs s = Done (map (\<lambda>_. MPI_OK) ds, ds', s') \<and> inv c s' \<and> content s' = content s \<and>
    length ds' = length ds \<and>
    (\<forall>i < length ds. stored (\<Union>p < length ds. set (zip (A i p) (map g (bytes_of (others ! p ! i))))) (d_mem (ds ! i)) (d_mem (ds' ! i)))"
proof -
  let ?as = "aggregators bufsz others io_bufs" and ?N = "length ds"
  note st = exchange_start [OF assms(1,3), unfolded length_map]
  have lN: "length ?as = ?N" using exchange_start(2) [OF assms(1,3)] by (simp only: length_map)
  have u: "\<And>p i. p < ?N \<Longrightarrow> i < ?N \<Longrightarrow> unmets (?as ! p) i = others ! p ! i" using st(5) .
  have "\<forall>n \<in> set (map a_ntimes ?as). n \<le> 0 + fold max (map a_ntimes ?as) 0"
    by (simp only: Max.set_eq_fold [symmetric]) auto
  moreover have "\<forall>p < length ?as. \<forall>i < length ?as. \<forall>x \<in> set (bytes_of (unmets (?as ! p) i)). content s x = Some (g x)" using has u st(2) by simp
  ultimately obtain ds' s' where s': "input_rounds (ops c) fresh agg bufsz 0 (fold max (map a_ntimes ?as) 0) (ds, map (\<lambda>a. (a, 0)) ?as, s) = Done (map (\<lambda>_. MPI_OK) ds, ds', s')"
    "inv c s'" "content s' = content s" "length ds' = ?N" "\<forall>i < ?N. stored (to_read g A ?as i) (d_mem (ds ! i)) (d_mem (ds' ! i))"
    using input_rounds_ok [OF st(1) assms(2-4)] by blast
  have "to_read g A ?as i = (\<Union>p < ?N. set (zip (A i p) (map g (bytes_of (others ! p ! i)))))" if "i < ?N" for i
    unfolding to_read_def lN by (rule SUP_cong) (simp_all only: u that lessThan_iff)
  moreover have "map (\<lambda>(o1, b). (init_aggregator bufsz o1 b, 0 :: int)) (zip others io_bufs) = map (\<lambda>a. (a, 0)) ?as" by (simp add: case_prod_unfold)
  ultimately show ?thesis using s' assms(3) by (auto simp: ADIOI_Read_and_exch_def Let_def comp_def case_prod_unfold)
qed

end

end
