(* ===== verification/Coll_Setup.thy ===== *)
theory Coll_Setup
  imports Coll_Exchange Sieve_File
begin

text \<open>
  What collective writes and reads do before they exchange data: from the calls of all processes to the requests the aggregators have of them.
\<close>

section \<open>Calls\<close>

text \<open>
  The call of one process: its view, the type and number of the elements in its buffer, whether the individual file pointer is used and where it is, the
  explicit offset, and the memory the buffer is in.
\<close>

record coll_call =
  k_view :: view
  k_type :: buftype
  k_count :: int
  k_individual :: bool
  k_fp :: int
  k_offset :: int
  k_mem :: "int \<Rightarrow> byte"

abbreviation k_bytes :: "coll_call \<Rightarrow> int" where
  "k_bytes k \<equiv> bt_size (k_type k) * k_count k"

text \<open>Whether accesses of neighbours interleave.\<close>

definition interleaved :: "int list \<Rightarrow> int list \<Rightarrow> bool" where
  "interleaved sts ends \<longleftrightarrow> (\<exists>i \<in> set [1..<length sts]. sts ! i < ends ! (i - 1) \<and> sts ! i \<le> ends ! i)"

section \<open>Pieces\<close>

lemma length_data_for: "\<forall>(p, off, l) \<in> set ps. 0 \<le> l \<Longrightarrow> length (data_for h p k ps) = length (bytes_of (pieces_for p ps))"
  by (induction ps arbitrary: k) (auto simp: bytes_of_Cons)

text \<open>The pieces of all aggregators are the request.\<close>

lemma pieces_data:
  assumes "\<forall>(p, off, l) \<in> set ps. p < N \<and> 0 < l"
  shows "(\<Union>p < N. set (zip (bytes_of (pieces_for p ps)) (data_for h p k ps))) =
    set (zip (bytes_of (map snd ps)) (map h [k..k + sum_list (map (\<lambda>x. snd (snd x)) ps) - 1]))"
  using assms
proof (induction ps arbitrary: k)
  case (Cons x ps)
  obtain q off l where x: "x = (q, off, l)" by (cases x) auto
  let ?t = "sum_list (map (\<lambda>x. snd (snd x)) ps)"
  have ql: "q < N" "0 < l" using Cons.prems x by auto
  have t: "0 \<le> ?t" using Cons.prems by (intro sum_list_nonneg) fastforce
  have "zip (bytes_of (pieces_for p (x # ps))) (data_for h p k (x # ps)) =
      (if q = p then zip [off..off + l - 1] (map h [k..k + l - 1]) else []) @ zip (bytes_of (pieces_for p ps)) (data_for h p (k + l) ps)" for p
    using ql by (simp add: x bytes_of_Cons)
  then have "(\<Union>p < N. set (zip (bytes_of (pieces_for p (x # ps))) (data_for h p k (x # ps)))) =
      set (zip [off..off + l - 1] (map h [k..k + l - 1])) \<union> (\<Union>p < N. set (zip (bytes_of (pieces_for p ps)) (data_for h p (k + l) ps)))"
    using ql(1) by (auto split: if_splits)
  also have "\<dots> = set (zip [off..off + l - 1] (map h [k..k + l - 1])) \<union> set (zip (bytes_of (map snd ps)) (map h [k + l..k + l + ?t - 1]))"
    using Cons.IH [of "k + l"] Cons.prems by simp
  also have "\<dots> = set (zip ([off..off + l - 1] @ bytes_of (map snd ps)) (map h [k..k + l - 1] @ map h [k + l..k + l + ?t - 1]))"
    using ql(2) by simp
  also have "map h [k..k + l - 1] @ map h [k + l..k + l + ?t - 1] = map h [k..k + (l + ?t) - 1]"
    using upto_join [of k "k + l" "k + l + ?t"] ql(2) t by (simp add: add.assoc flip: map_append)
  finally show ?case by (simp add: x bytes_of_Cons)
qed simp

text \<open>Requests whose bytes are in order are in order.\<close>

lemma ascending_of_bytes:
  assumes "sorted_wrt (<) (bytes_of xs)" "\<forall>(off, l) \<in> set xs. 0 < l \<and> l \<le> INT_MAX \<and> lo \<le> off"
  shows "ascending lo xs"
  using assms
proof (induction xs arbitrary: lo)
  case (Cons x xs)
  obtain off l where x: "x = (off, l)" by force
  have l: "0 < l" "l \<le> INT_MAX" "lo \<le> off" using Cons.prems(2) x by auto
  have "sorted_wrt (<) ([off..off + l - 1] @ bytes_of xs)" using Cons.prems(1) unfolding x bytes_of_Cons .
  moreover have "off + l - 1 \<in> set [off..off + l - 1]" using l(1) by simp
  ultimately have s: "sorted_wrt (<) (bytes_of xs)" "\<forall>y \<in> set (bytes_of xs). off + l - 1 < y"
    unfolding sorted_wrt_append by blast+
  have "off + l \<le> o1" if "(o1, l1) \<in> set xs" for o1 l1
  proof -
    have "0 < l1" using that Cons.prems(2) by auto
    then have "o1 \<in> set (bytes_of xs)" using that unfolding set_bytes_of by (intro UN_I [of "(o1, l1)"]) auto
    then show ?thesis using s(2) by force
  qed
  then have "\<forall>(o1, l1) \<in> set xs. 0 < l1 \<and> l1 \<le> INT_MAX \<and> off + l \<le> o1" using Cons.prems(2) by auto
  then have "ascending (off + l) xs" by (rule Cons.IH [OF s(1)])
  then show ?case using l x by simp
qed simp

lemma ascending_pieces: "ascending lo (map snd ps) \<Longrightarrow> ascending lo (pieces_for p ps)"
proof (induction ps arbitrary: lo)
  case (Cons x ps)
  then show ?case using ascending_weaken by (cases x) fastforce
qed simp

text \<open>In a contiguous buffer, what goes to an aggregator whose part of the file is an interval is contiguous.\<close>

lemma data_for_run:
  assumes "ascending lo (map snd ps)" "a \<le> lo" "\<forall>(q, off, l) \<in> set ps. 0 < l \<and> (q = p \<longleftrightarrow> off \<in> {a..b})"
  shows "data_for h p k ps = map h [k..k + int (length (data_for h p k ps)) - 1]"
  using assms
proof (induction ps arbitrary: lo k)
  case (Cons x ps)
  obtain q off l where x: "x = (q, off, l)" by (cases x) auto
  have l: "0 < l" "lo \<le> off" "ascending (off + l) (map snd ps)" using Cons.prems(1) x by auto
  show ?case
  proof (cases "q = p")
    case True
    have "data_for h p (k + l) ps = map h [k + l..k + l + int (length (data_for h p (k + l) ps)) - 1]" (is "?d = map h [k + l..k + l + ?n - 1]")
      using Cons.IH [OF l(3)] Cons.prems(2,3) l by simp
    then have "map h [k..k + l - 1] @ ?d = map h ([k..k + l - 1] @ [k + l..k + l + ?n - 1])" by simp
    also have "[k..k + l - 1] @ [k + l..k + l + ?n - 1] = [k..k + l + ?n - 1]" using upto_join [of k "k + l" "k + l + ?n"] l(1) by simp
    finally show ?thesis using True l(1) by (simp add: x add.assoc)
  next
    case False
    then have "b < off" using Cons.prems(2,3) l x by auto
    then have "\<forall>(q, o1, l1) \<in> set ps. q \<noteq> p" using ascending_all [OF l(3)] Cons.prems(3) l(1) by fastforce
    then have "data_for h p k' ps = []" for k' by (induction ps arbitrary: k') auto
    then show ?thesis using False by (simp add: x)
  qed
qed simp

lemma data_for_contiguous:
  assumes "ascending lo (map snd ps)" "\<forall>(q, off, l) \<in> set ps. 0 < l \<and> (q = p \<longleftrightarrow> off \<in> {a..b})"
  shows "data_for h p k ps = map h [first_pos k ps p..first_pos k ps p + int (length (data_for h p k ps)) - 1]"
  using assms
proof (induction ps arbitrary: lo k)
  case (Cons x ps)
  obtain q off l where x: "x = (q, off, l)" by (cases x) auto
  have l: "0 < l" "ascending (off + l) (map snd ps)" using Cons.prems(1) x by auto
  show ?case
  proof (cases "q = p")
    case True
    have "ascending off (map snd (x # ps))" using Cons.prems(1) by (simp add: x)
    moreover have "a \<le> off" using True Cons.prems(2) x by auto
    ultimately show ?thesis using data_for_run [of off "x # ps" a p b h k] Cons.prems(2) True by (simp add: x)
  next
    case False
    then show ?thesis using Cons.IH [OF l(2)] Cons.prems(2) by (simp add: x)
  qed
qed simp

section \<open>The part of the file of an aggregator\<close>

definition part_of :: "agg_input \<Rightarrow> nat \<Rightarrow> int \<times> int" where
  "part_of d p = (case domains_of d of None \<Rightarrow> (0, -1) | Some (mn, fs, ds) \<Rightarrow>
     (case List.find (\<lambda>i. ranklist (fst d) ! i = p) [0..<length (ranklist (fst d))] of None \<Rightarrow> (0, -1)
      | Some i \<Rightarrow> (max (lo_off d) (fst (ds ! i)), min (hi_off d) (snd (ds ! i)))))"

lemma part_of_none:
  assumes "p \<notin> set (ranklist (fst d))"
  shows "part_of d p = (0, -1)" "owns d p = {}"
proof -
  have "List.find (\<lambda>i. ranklist (fst d) ! i = p) [0..<length (ranklist (fst d))] = None"
    using assms by (auto simp: find_None_iff in_set_conv_nth)
  then show "part_of d p = (0, -1)" by (simp add: part_of_def split: option.splits)
  show "owns d p = {}" using assms by (auto simp: owns_def in_set_conv_nth split: option.splits)
qed

lemma part_of_some:
  assumes "input_ok d" "domains_of d = Some (mn, fs, ds)" "distinct (ranklist (fst d))" "i < length (ranklist (fst d))"
  shows "part_of d (ranklist (fst d) ! i) = (max (lo_off d) (fst (ds ! i)), min (hi_off d) (snd (ds ! i)))"
    "owns d (ranklist (fst d) ! i) = {fst (ds ! i)..snd (ds ! i)}" "length ds = length (ranklist (fst d))"
proof -
  show l: "length ds = length (ranklist (fst d))" using domains_of_eq [OF assms(1)] assms(2) by (metis length_map option.inject prod.inject)
  have u: "j = i" if "j < length (ranklist (fst d))" "ranklist (fst d) ! j = ranklist (fst d) ! i" for j
    using that assms(3,4) by (simp add: nth_eq_iff_index_eq)
  then have "List.find (\<lambda>j. ranklist (fst d) ! j = ranklist (fst d) ! i) [0..<length (ranklist (fst d))] = Some i"
    using assms(4) by (intro find_unique) auto
  then show "part_of d (ranklist (fst d) ! i) = (max (lo_off d) (fst (ds ! i)), min (hi_off d) (snd (ds ! i)))" by (simp add: part_of_def assms(2))
  have "{j. j < length ds \<and> j < length (ranklist (fst d)) \<and> ranklist (fst d) ! j = ranklist (fst d) ! i} = {i}" using u assms(4) l by auto
  then show "owns d (ranklist (fst d) ! i) = {fst (ds ! i)..snd (ds ! i)}" unfolding owns_def assms(2) by simp
qed

lemma part_of_owns:
  assumes "input_ok d" "distinct (ranklist (fst d))"
  shows "{fst (part_of d p)..snd (part_of d p)} = owns d p \<inter> {lo_off d..hi_off d}" "0 \<le> fst (part_of d p)"
    "snd (part_of d p) - fst (part_of d p) \<le> hi_off d - lo_off d"
proof -
  obtain mn fs ds where dom: "domains_of d = Some (mn, fs, ds)" using domains_of_eq [OF assms(1)] by metis
  have lo: "0 \<le> lo_off d" "lo_off d \<le> hi_off d" using assms(1) by (auto simp: input_ok_def lo_off_def hi_off_def split: prod.splits)
  have "{fst (part_of d p)..snd (part_of d p)} = owns d p \<inter> {lo_off d..hi_off d} \<and> 0 \<le> fst (part_of d p) \<and>
      snd (part_of d p) - fst (part_of d p) \<le> hi_off d - lo_off d"
  proof (cases "p \<in> set (ranklist (fst d))")
    case True
    then obtain i where i: "i < length (ranklist (fst d))" "p = ranklist (fst d) ! i" by (metis in_set_conv_nth)
    show ?thesis using part_of_some [OF assms(1) dom assms(2) i(1)] lo unfolding i(2) by auto
  next
    case False
    then show ?thesis using part_of_none [OF False] lo by simp
  qed
  then show "{fst (part_of d p)..snd (part_of d p)} = owns d p \<inter> {lo_off d..hi_off d}" "0 \<le> fst (part_of d p)"
    "snd (part_of d p) - fst (part_of d p) \<le> hi_off d - lo_off d" by blast+
qed

lemma owns_disjoint:
  assumes "input_ok d" "distinct (ranklist (fst d))" "p \<noteq> q" "0 \<le> off"
  shows "\<not> (off \<in> owns d p \<and> off \<in> owns d q)"
proof
  assume o: "off \<in> owns d p \<and> off \<in> owns d q"
  obtain mn fs ds where dom: "domains_of d = Some (mn, fs, ds)" using domains_of_eq [OF assms(1)] by metis
  obtain i j where ij: "i < length ds" "j < length ds" "ranklist (fst d) ! i = p" "ranklist (fst d) ! j = q"
    "off \<in> {fst (ds ! i)..snd (ds ! i)}" "off \<in> {fst (ds ! j)..snd (ds ! j)}"
    using o unfolding owns_def dom by auto
  then show False using domains_disjoint [OF assms(1) dom _ _ assms(4)] assms(3) by (metis linorder_neqE_nat)
qed

lemma part_of_disjoint:
  assumes "input_ok d" "distinct (ranklist (fst d))" "p \<noteq> q"
  shows "{fst (part_of d p)..snd (part_of d p)} \<inter> {fst (part_of d q)..snd (part_of d q)} = {}"
proof -
  have lo: "0 \<le> lo_off d" using assms(1) by (auto simp: input_ok_def lo_off_def split: prod.splits)
  have "\<not> (x \<in> owns d p \<and> x \<in> owns d q)" if "x \<in> {lo_off d..hi_off d}" for x using owns_disjoint [OF assms] lo that by auto
  then show ?thesis unfolding part_of_owns(1) [OF assms(1,2)] by blast
qed

section \<open>The data of a process\<close>

text \<open>A request at byte \<open>b0\<close> of the view. Views of MPI have their blocks in order.\<close>

definition call_ok :: "coll_call \<Rightarrow> int \<Rightarrow> bool" where
  "call_ok k b0 \<longleftrightarrow> access_ok (k_individual k) (k_view k) \<and> (filetype_is_contig (k_view k) \<or> in_order (k_view k)) \<and> view_nonneg (k_view k) \<and> 0 \<le> b0 \<and>
     starts_at (k_view k) (k_individual k) (k_fp k) (k_offset k) b0 \<and> 0 < k_bytes k \<and> k_bytes k \<le> INT_MAX \<and>
     (bt_is_contig (k_type k) \<or> walkable_buf (k_type k))"

text \<open>
  The positions in the file and, for each, what is in the cell of the buffer that belongs to it. The memory \<open>m\<close> is that of the process for a write; for a read it holds in every
  cell the address of the cell.
\<close>

definition request :: "(int \<Rightarrow> 'a) \<Rightarrow> coll_call \<Rightarrow> int \<Rightarrow> (int \<times> 'a) set" where
  "request m k b0 = (\<lambda>i. (view_pos (k_view k) (b0 + i), buf_byte (k_type k) m i)) ` {0..<k_bytes k}"

lemma view_pos_rises:
  assumes "call_ok k b0" "0 \<le> b" "b < c"
  shows "view_pos (k_view k) b < view_pos (k_view k) c"
proof (cases "filetype_is_contig (k_view k)")
  case True
  then show ?thesis using assms(3) by (simp add: view_pos_def)
next
  case False
  then have "walkable (k_view k)" "in_order (k_view k)" using assms(1) by (auto simp: call_ok_def access_ok_def)
  then show ?thesis using view_pos_increasing assms(3) by blast
qed

text \<open>The list of accesses, its range, and its bytes.\<close>

lemma call_accesses:
  assumes "call_ok k b0"
  shows "\<exists>n acc fp'. ADIOI_Calc_my_off_len (k_view k) (k_individual k) (k_fp k) (k_offset k) (k_bytes k) =
      Some (n, acc, view_pos (k_view k) b0, view_pos (k_view k) (b0 + k_bytes k - 1), fp') \<and>
    bytes_of acc = map (\<lambda>i. view_pos (k_view k) (b0 + i)) [0..k_bytes k - 1] \<and> sorted_wrt (<) (bytes_of acc) \<and> sum_list (map snd acc) = k_bytes k \<and>
    (\<forall>(off, l) \<in> set acc. 0 < l \<and> view_pos (k_view k) b0 \<le> off \<and> off + l - 1 \<le> view_pos (k_view k) (b0 + k_bytes k - 1)) \<and>
    fp' = (if k_individual k then view_pos (k_view k) (b0 + k_bytes k) else k_fp k)"
proof -
  let ?v = "k_view k" and ?n = "k_bytes k"
  have k: "access_ok (k_individual k) ?v" "0 \<le> b0" "0 < ?n" "starts_at ?v (k_individual k) (k_fp k) (k_offset k) b0" using assms by (auto simp: call_ok_def)
  obtain cnt acc fp' where a: "ADIOI_Calc_my_off_len ?v (k_individual k) (k_fp k) (k_offset k) ?n = Some (cnt, acc, view_pos ?v b0, view_pos ?v (b0 + ?n - 1), fp')"
    "concat (map (\<lambda>(p, l). [p..p + l - 1]) acc) = map (view_pos ?v) [b0..b0 + ?n - 1]" "\<forall>(p, l) \<in> set acc. 0 < l"
    "fp' = (if k_individual k then view_pos ?v (b0 + ?n) else k_fp k)"
    using access_list_ok [OF k(1,2) less_imp_le [OF k(3)] k(4)] k(3) by blast
  have b: "bytes_of acc = map (view_pos ?v) [b0..b0 + ?n - 1]" using a(2) by (simp add: bytes_of_def)
  have e: "map (\<lambda>i. view_pos ?v (b0 + i)) [0..?n - 1] = map (view_pos ?v) [b0..b0 + ?n - 1]" by (rule nth_equalityI) simp_all
  have "sorted_wrt (<) (bytes_of acc)"
    unfolding b sorted_wrt_iff_nth_less using view_pos_rises [OF assms] k(2) by simp
  moreover have in_range: "view_pos ?v b0 \<le> x \<and> x \<le> view_pos ?v (b0 + ?n - 1)" if "x \<in> set (bytes_of acc)" for x
  proof -
    obtain i where i: "b0 \<le> i" "i \<le> b0 + ?n - 1" "x = view_pos ?v i" using \<open>x \<in> set (bytes_of acc)\<close> unfolding b by auto
    have "view_pos ?v b0 \<le> view_pos ?v i" using view_pos_rises [OF assms k(2), of i] i(1) by (cases "b0 = i") auto
    moreover have "view_pos ?v i \<le> view_pos ?v (b0 + ?n - 1)"
      using view_pos_rises [OF assms order_trans [OF k(2) i(1)], of "b0 + ?n - 1"] i(2) by (cases "i = b0 + ?n - 1") auto
    ultimately show ?thesis using i(3) by simp
  qed
  have "0 < l \<and> view_pos ?v b0 \<le> off \<and> off + l - 1 \<le> view_pos ?v (b0 + ?n - 1)" if "(off, l) \<in> set acc" for off l
  proof -
    have l: "0 < l" using a(3) that by auto
    then have "off \<in> set (bytes_of acc)" "off + l - 1 \<in> set (bytes_of acc)"
      using that unfolding set_bytes_of by (intro UN_I [of "(off, l)"]; simp)+
    then show ?thesis using in_range l by blast
  qed
  moreover have "int (length (bytes_of acc)) = sum_list (map snd acc)"
    using a(3) by (induction acc) (auto simp: bytes_of_Cons)
  then have "sum_list (map snd acc) = ?n" unfolding b using k(3) by simp
  ultimately show ?thesis using a(1,4) b e by auto
qed

text \<open>The pieces of a request in order lie in the parts of their aggregators.\<close>

lemma pieces_in_order:
  assumes "sorted_wrt (<) (bytes_of (map snd ps))" "\<forall>(p, off, l) \<in> set ps. 0 < l" "sum_list (map (\<lambda>x. snd (snd x)) ps) \<le> INT_MAX"
    and "\<forall>x \<in> set (bytes_of (map snd ps)). lo \<le> x"
  shows "ascending lo (map snd ps)"
proof (rule ascending_of_bytes [OF assms(1)], clarify)
  fix off l assume m: "(off, l) \<in> set (map snd ps)"
  then have l: "0 < l" using assms(2) by auto
  then have "off \<in> set (bytes_of (map snd ps))" using m unfolding set_bytes_of by (intro UN_I [of "(off, l)"]) auto
  moreover have "l \<le> sum_list (map snd (map snd ps))"
  proof (rule member_le_sum_list)
    show "l \<in> set (map snd (map snd ps))" using m by force
    show "0 \<le> x" if "x \<in> set (map snd (map snd ps))" for x using assms(2) that by auto
  qed
  ultimately show "0 < l \<and> l \<le> INT_MAX \<and> lo \<le> off" using l assms(3,4) by (simp add: comp_def)
qed

lemma pieces_in_parts:
  assumes "input_ok d" "distinct (ranklist (fst d))" "\<forall>(q, off, l) \<in> set ps. 0 < l \<and> {off ..< off + l} \<subseteq> owns d q"
    and "\<forall>x \<in> set (bytes_of (map snd ps)). lo_off d \<le> x \<and> x \<le> hi_off d" "ascending (lo_off d) (map snd ps)"
  shows "ascending (fst (part_of d p)) (pieces_for p ps)" "\<forall>x \<in> set (bytes_of (pieces_for p ps)). x \<le> snd (part_of d p)"
    "\<forall>(q, off, l) \<in> set ps. 0 < l \<and> (q = p \<longleftrightarrow> off \<in> {fst (part_of d p)..snd (part_of d p)})"
proof -
  have lo: "0 \<le> lo_off d" using assms(1) by (auto simp: input_ok_def lo_off_def split: prod.splits)
  have piece: "{off ..< off + l} \<subseteq> owns d q \<inter> {lo_off d..hi_off d}" "0 < l" if "(q, off, l) \<in> set ps" for q off l
  proof -
    show "0 < l" using assms(3) that by auto
    have "(off, l) \<in> set (map snd ps)" using that by force
    then have "{off ..< off + l} \<subseteq> set (bytes_of (map snd ps))" unfolding set_bytes_of by blast
    then show "{off ..< off + l} \<subseteq> owns d q \<inter> {lo_off d..hi_off d}" using assms(3,4) that by fastforce
  qed
  have part: "{fst (part_of d q)..snd (part_of d q)} = owns d q \<inter> {lo_off d..hi_off d}" for q by (rule part_of_owns(1) [OF assms(1,2)])
  have mine: "(p, off, l) \<in> set ps" if "(off, l) \<in> set (pieces_for p ps)" for off l using that by (force simp: pieces_for_def)
  have "fst (part_of d p) \<le> off" if "(off, l) \<in> set (pieces_for p ps)" for off l
    using piece [OF mine [OF that]] part [of p] by fastforce
  then show "ascending (fst (part_of d p)) (pieces_for p ps)" using ascending_from [OF ascending_pieces [OF assms(5)]] by blast
  show "\<forall>x \<in> set (bytes_of (pieces_for p ps)). x \<le> snd (part_of d p)"
    unfolding set_bytes_of using piece(1) [OF mine] part [of p] by fastforce
  show "\<forall>(q, off, l) \<in> set ps. 0 < l \<and> (q = p \<longleftrightarrow> off \<in> {fst (part_of d p)..snd (part_of d p)})"
  proof clarify
    fix q off l assume m: "(q, off, l) \<in> set ps"
    have "off \<in> {off ..< off + l}" using piece(2) [OF m] by simp
    then have o: "off \<in> owns d q" "off \<in> {lo_off d..hi_off d}" using piece(1) [OF m] by blast+
    then show "0 < l \<and> (q = p \<longleftrightarrow> off \<in> {fst (part_of d p)..snd (part_of d p)})"
      using owns_disjoint [OF assms(1,2), of q p off] lo piece(2) [OF m] unfolding part by auto
  qed
qed

abbreviation first_sender :: "(int \<Rightarrow> 'a) \<Rightarrow> coll_call \<Rightarrow> (int \<times> int) list \<Rightarrow> int list \<Rightarrow> nat \<Rightarrow> 'a sender" where
  "first_sender m k acc buf_idx N \<equiv> \<lparr>d_type = k_type k, d_mem = m, d_accesses = acc, d_buf_idx = buf_idx, d_sent = replicate N 0\<rparr>"

text \<open>The pieces \<open>ps\<close> of a call: requests in order in the parts of the aggregators, a sender that has their bytes, and together the request.\<close>

definition pieces_of_call :: "agg_input \<Rightarrow> (int \<Rightarrow> int \<Rightarrow> (nat \<times> int) option) \<Rightarrow> nat \<Rightarrow> (int \<Rightarrow> 'a) \<Rightarrow> coll_call \<Rightarrow> int \<Rightarrow> (int \<times> int) list \<Rightarrow> (nat \<times> int \<times> int) list \<Rightarrow> bool" where
  "pieces_of_call d agg N m k b0 acc ps \<longleftrightarrow>
     (\<forall>p. ascending (fst (part_of d p)) (pieces_for p ps) \<and> (\<forall>x \<in> set (bytes_of (pieces_for p ps)). x \<le> snd (part_of d p)) \<and>
        length (data_for (buf_byte (k_type k) m) p 0 ps) = length (bytes_of (pieces_for p ps))) \<and>
     to_send agg N (first_sender m k acc (map (first_pos 0 ps) [0..<N]) N) (\<lambda>p. data_for (buf_byte (k_type k) m) p 0 ps) \<and>
     (\<Union>p < N. set (zip (bytes_of (pieces_for p ps)) (data_for (buf_byte (k_type k) m) p 0 ps))) = request m k b0"

lemma call_pieces:
  assumes ok: "input_ok (h, sts, ends, mfs)" and dom: "ADIOI_Calc_file_domains sts ends (nat (cb_nodes h)) mfs (striping_unit h) = Some (mn, fs, ds)"
    and h: "distinct (ranklist h)" "\<forall>p \<in> set (ranklist h). p < N" and k: "call_ok k b0"
    and rng: "Min (set sts) \<le> view_pos (k_view k) b0" "view_pos (k_view k) (b0 + k_bytes k - 1) \<le> Max (set ends)"
    and acc: "ADIOI_Calc_my_off_len (k_view k) (k_individual k) (k_fp k) (k_offset k) (k_bytes k) = Some (n, acc, st, en, fp')"
  shows "\<exists>c cnt ps. ADIOI_Calc_my_req h acc mn ds fs N = Some (c, cnt, map (\<lambda>p. pieces_for p ps) [0..<N], map (first_pos 0 ps) [0..<N]) \<and>
    pieces_of_call (h, sts, ends, mfs) (ADIOI_Calc_aggregator h mn fs ds) N m k b0 acc ps"
proof -
  let ?d = "(h, sts, ends, mfs)" and ?n = "k_bytes k"
  have bytes: "bytes_of acc = map (\<lambda>i. view_pos (k_view k) (b0 + i)) [0..?n - 1]" "sorted_wrt (<) (bytes_of acc)" "sum_list (map snd acc) = ?n"
    "\<forall>(off, l) \<in> set acc. 0 < l \<and> view_pos (k_view k) b0 \<le> off \<and> off + l - 1 \<le> view_pos (k_view k) (b0 + ?n - 1)"
    using call_accesses [OF k] acc by auto
  have n: "0 < ?n" "?n \<le> INT_MAX" and buf: "bt_is_contig (k_type k) \<or> walkable_buf (k_type k)" using k by (auto simp: call_ok_def)
  have inside: "\<forall>(off, len) \<in> set acc. 0 \<le> len \<and> (len \<noteq> 0 \<longrightarrow> Min (set sts) \<le> off \<and> off + len - 1 \<le> Max (set ends))"
    using bytes(4) order_trans [OF rng(1)] order_trans [OF _ rng(2)] by auto
  have small: "sum_list (map snd acc) \<le> INT_MAX" using bytes(3) n by simp
  obtain c cnt ps where ps: "all_pieces (ADIOI_Calc_aggregator h mn fs ds) acc = Some ps"
    "ADIOI_Calc_my_req h acc mn ds fs N = Some (c, cnt, map (\<lambda>p. pieces_for p ps) [0..<N], map (first_pos 0 ps) [0..<N])" "bytes_of (map snd ps) = bytes_of acc"
    "\<forall>(p, off, l) \<in> set ps. p < N \<and> p \<in> set (ranklist h) \<and> 0 < l \<and> {off ..< off + l} \<subseteq> owns ?d p" "sum_list (map (\<lambda>x. snd (snd x)) ps) = ?n"
    using my_req_pieces [OF ok dom inside h(2) small] unfolding bytes(3) by blast
  have pos: "\<forall>(p, off, l) \<in> set ps. 0 < l" "\<forall>(p, off, l) \<in> set ps. p < N \<and> 0 < l" "\<forall>(p, off, l) \<in> set ps. 0 < l \<and> {off ..< off + l} \<subseteq> owns ?d p" using ps(4) by auto
  have range: "\<forall>x \<in> set (bytes_of (map snd ps)). lo_off ?d \<le> x \<and> x \<le> hi_off ?d"
  proof
    fix x assume "x \<in> set (bytes_of (map snd ps))"
    then obtain off l where "(off, l) \<in> set acc" "off \<le> x" "x < off + l" unfolding ps(3) set_bytes_of by auto
    then show "lo_off ?d \<le> x \<and> x \<le> hi_off ?d" using bytes(4) rng by (fastforce simp: lo_off_def hi_off_def)
  qed
  have asc: "ascending (lo_off ?d) (map snd ps)" by (rule pieces_in_order) (use bytes(2) pos(1) ps(3,5) n range in auto)
  have hd: "distinct (ranklist (fst ?d))" using h(1) by simp
  note parts = pieces_in_parts [OF ok hd pos(3) range asc]
  have len: "length (data_for (buf_byte (k_type k) m) p 0 ps) = length (bytes_of (pieces_for p ps))" for p by (rule length_data_for) (use pos(1) in auto)
  have tot: "int (length (data_for (buf_byte (k_type k) m) p 0 ps)) \<le> INT_MAX" for p
  proof -
    have "int (length (data_for hh p kk qs)) \<le> sum_list (map (\<lambda>x. snd (snd x)) qs)" if "\<forall>(p, off, l) \<in> set qs. 0 < l" for hh kk and qs :: "(nat \<times> int \<times> int) list"
      using that by (induction qs arbitrary: kk) fastforce+
    from this [OF pos(1)] show ?thesis using ps(5) n(2) by (metis order_trans)
  qed
  have "to_send (ADIOI_Calc_aggregator h mn fs ds) N (first_sender m k acc (map (first_pos 0 ps) [0..<N]) N) (\<lambda>p. data_for (buf_byte (k_type k) m) p 0 ps)"
  proof (cases "bt_is_contig (k_type k)")
    case True
    then have "buf_byte (k_type k) m = m" by (auto simp: view_pos_def)
    then show ?thesis using True data_for_contiguous [OF asc parts(3), of "buf_byte (k_type k) m" _ 0] by (simp add: to_send_def)
  next
    case False
    show ?thesis by (rule to_send_holes [OF _ _ _ _ _, where ps = ps]) (use False buf ps(1,5) pos(2) n tot in \<open>auto simp: pieces_ok_def\<close>)
  qed
  moreover have "(\<Union>p < N. set (zip (bytes_of (pieces_for p ps)) (data_for (buf_byte (k_type k) m) p 0 ps))) = request m k b0"
  proof -
    have "(\<Union>p < N. set (zip (bytes_of (pieces_for p ps)) (data_for (buf_byte (k_type k) m) p 0 ps))) = set (zip (bytes_of acc) (map (buf_byte (k_type k) m) [0..?n - 1]))"
      using pieces_data [OF pos(2), of "buf_byte (k_type k) m" 0] ps(3,5) by simp
    also have "zip (bytes_of acc) (map (buf_byte (k_type k) m) [0..?n - 1]) = map (\<lambda>i. (view_pos (k_view k) (b0 + i), buf_byte (k_type k) m i)) [0..?n - 1]"
      unfolding bytes(1) by (simp add: zip_map_map zip_same_conv_map)
    finally show ?thesis by (auto simp: request_def)
  qed
  ultimately have "pieces_of_call ?d (ADIOI_Calc_aggregator h mn fs ds) N m k b0 acc ps" using parts(1,2) len unfolding pieces_of_call_def by blast
  then show ?thesis using ps(2) by blast
qed

section \<open>All processes\<close>

text \<open>
  The calls of all processes, at bytes \<open>b0 i\<close> of their views: hints with a list of different ranks, buffers of the size of the hint \<open>cb_buffer_size\<close>, and a
  number of rounds that is an \<open>int\<close>.
\<close>

abbreviation starts :: "coll_call list \<Rightarrow> (nat \<Rightarrow> int) \<Rightarrow> int list" where
  "starts ks b0 \<equiv> map (\<lambda>i. view_pos (k_view (ks ! i)) (b0 i)) [0..<length ks]"

abbreviation lasts :: "coll_call list \<Rightarrow> (nat \<Rightarrow> int) \<Rightarrow> int list" where
  "lasts ks b0 \<equiv> map (\<lambda>i. view_pos (k_view (ks ! i)) (b0 i + k_bytes (ks ! i) - 1)) [0..<length ks]"

definition collective_ok :: "agg_hints \<Rightarrow> int \<Rightarrow> byte list list \<Rightarrow> coll_call list \<Rightarrow> (nat \<Rightarrow> int) \<Rightarrow> bool" where
  "collective_ok h bufsz io_bufs ks b0 \<longleftrightarrow> ks \<noteq> [] \<and> (\<forall>i < length ks. call_ok (ks ! i) (b0 i)) \<and>
     distinct (ranklist h) \<and> ranklist h \<noteq> [] \<and> (\<forall>p \<in> set (ranklist h). p < length ks) \<and> cb_nodes h = int (length (ranklist h)) \<and>
     0 < bufsz \<and> bufsz \<le> INT_MAX \<and> length io_bufs = length ks \<and> (\<forall>b \<in> set io_bufs. int (length b) = bufsz) \<and>
     (Max (set (lasts ks b0)) - Min (set (starts ks b0)) + bufsz) div bufsz \<le> INT_MAX"

lemma coll_input_ok:
  assumes "collective_ok h bufsz io_bufs ks b0"
  shows "input_ok (h, starts ks b0, lasts ks b0, mfs)" "\<And>i. i < length ks \<Longrightarrow> Min (set (starts ks b0)) \<le> view_pos (k_view (ks ! i)) (b0 i)"
    "\<And>i. i < length ks \<Longrightarrow> view_pos (k_view (ks ! i)) (b0 i + k_bytes (ks ! i) - 1) \<le> Max (set (lasts ks b0))"
proof -
  have N: "0 < length ks" and c: "\<And>i. i < length ks \<Longrightarrow> call_ok (ks ! i) (b0 i)" using assms by (auto simp: collective_ok_def)
  show lo: "Min (set (starts ks b0)) \<le> view_pos (k_view (ks ! i)) (b0 i)" if "i < length ks" for i using that by (intro Min_le) auto
  show hi: "view_pos (k_view (ks ! i)) (b0 i + k_bytes (ks ! i) - 1) \<le> Max (set (lasts ks b0))" if "i < length ks" for i using that by (intro Max_ge) auto
  have "0 \<le> view_pos (k_view (ks ! i)) (b0 i)" if "i < length ks" for i
    using c [OF that] by (intro view_pos_nonneg) (auto simp: call_ok_def access_ok_def)
  moreover have "view_pos (k_view (ks ! 0)) (b0 0) \<le> view_pos (k_view (ks ! 0)) (b0 0 + k_bytes (ks ! 0) - 1)"
  proof (cases "k_bytes (ks ! 0) = 1")
    case False
    then show ?thesis using c [OF N] view_pos_rises [OF c [OF N], of "b0 0" "b0 0 + k_bytes (ks ! 0) - 1"] by (simp add: call_ok_def)
  qed simp
  then have "Min (set (starts ks b0)) \<le> Max (set (lasts ks b0))" using lo [OF N] hi [OF N] by linarith
  ultimately show "input_ok (h, starts ks b0, lasts ks b0, mfs)" using assms N by (auto simp: input_ok_def collective_ok_def)
qed

definition requests_in :: "(coll_call \<Rightarrow> int \<Rightarrow> 'a) \<Rightarrow> coll_call list \<Rightarrow> (nat \<Rightarrow> int) \<Rightarrow> (int \<times> 'a) set" where
  "requests_in m ks b0 = (\<Union>i < length ks. request (m (ks ! i)) (ks ! i) (b0 i))"

text \<open>What the phases before the exchange compute.\<close>

lemma exchange_set_up:
  assumes ok: "collective_ok h bufsz io_bufs ks b0" and accs: "length accs = length ks"
    "\<forall>i < length ks. \<exists>n st en fp'. ADIOI_Calc_my_off_len (k_view (ks ! i)) (k_individual (ks ! i)) (k_fp (ks ! i)) (k_offset (ks ! i)) (k_bytes (ks ! i)) =
      Some (n, accs ! i, st, en, fp')"
  shows "\<exists>mn fs ds my others D. ADIOI_Calc_file_domains (starts ks b0) (lasts ks b0) (nat (cb_nodes h)) mfs (striping_unit h) = Some (mn, fs, ds) \<and>
    those (map (\<lambda>acc. ADIOI_Calc_my_req h acc mn ds fs (length ks)) accs) = Some my \<and>
    those (map (ADIOI_Calc_others_req (map (\<lambda>(_, _, req, _). req) my)) [0..<length ks]) = Some others \<and>
    exchange_ok bufsz (ADIOI_Calc_aggregator h mn fs ds) (part_of (h, starts ks b0, lasts ks b0, mfs))
      (map (\<lambda>(k, acc, (_, _, _, buf_idx)). first_sender (m k) k acc buf_idx (length ks)) (zip ks (zip accs my))) (map snd others) io_bufs D \<and> length my = length ks \<and>
    (\<forall>i < length ks. (\<Union>p < length ks. set (zip (bytes_of (map snd others ! p ! i)) (D i p))) = request (m (ks ! i)) (ks ! i) (b0 i))"
proof -
  let ?N = "length ks" and ?d = "(h, starts ks b0, lasts ks b0, mfs)"
  note io = coll_input_ok [OF ok]
  have c: "\<And>i. i < ?N \<Longrightarrow> call_ok (ks ! i) (b0 i)" and h: "distinct (ranklist h)" "\<forall>p \<in> set (ranklist h). p < ?N" "0 < bufsz" "length io_bufs = ?N"
    "\<And>p. p < ?N \<Longrightarrow> int (length (io_bufs ! p)) = bufsz" "(hi_off ?d - lo_off ?d + bufsz) div bufsz \<le> INT_MAX"
    using ok by (auto simp: collective_ok_def hi_off_def lo_off_def)
  obtain mn fs ds where dom: "ADIOI_Calc_file_domains (starts ks b0) (lasts ks b0) (nat (cb_nodes h)) mfs (striping_unit h) = Some (mn, fs, ds)"
  proof -
    have "\<exists>mn fs ds. domains_of ?d = Some (mn, fs, ds)" using domains_of_eq [OF io(1) [of mfs]] by metis
    then show ?thesis using that by (auto simp: domains_of_def)
  qed
  let ?agg = "ADIOI_Calc_aggregator h mn fs ds"
  let ?Q = "\<lambda>i. pieces_of_call ?d ?agg ?N (m (ks ! i)) (ks ! i) (b0 i) (accs ! i)"
  let ?P = "\<lambda>i x. ADIOI_Calc_my_req h (accs ! i) mn ds fs ?N = Some (fst x, fst (snd x), map (\<lambda>p. pieces_for p (snd (snd x))) [0..<?N], map (first_pos 0 (snd (snd x))) [0..<?N]) \<and>
    ?Q i (snd (snd x))"
  have "\<exists>x. ?P i x" if i: "i < ?N" for i
  proof -
    obtain n st en fp' where a: "ADIOI_Calc_my_off_len (k_view (ks ! i)) (k_individual (ks ! i)) (k_fp (ks ! i)) (k_offset (ks ! i)) (k_bytes (ks ! i)) =
      Some (n, accs ! i, st, en, fp')" using accs(2) i by blast
    obtain c cnt ps where "ADIOI_Calc_my_req h (accs ! i) mn ds fs ?N = Some (c, cnt, map (\<lambda>p. pieces_for p ps) [0..<?N], map (first_pos 0 ps) [0..<?N])" "?Q i ps"
      using call_pieces [OF io(1) dom h(1,2) c [OF i] io(2) [OF i] io(3) [OF i] a, of "m (ks ! i)"] by blast
    then show ?thesis by (intro exI [of _ "(c, cnt, ps)"]) simp
  qed
  then obtain xs where xs: "length xs = ?N" "\<And>i. i < ?N \<Longrightarrow> ?P i (xs ! i)" using Skolem_list_nth [of ?N ?P] by blast
  define PS where "PS i = snd (snd (xs ! i))" for i
  define D where "D i p = data_for (buf_byte (k_type (ks ! i)) (m (ks ! i))) p 0 (PS i)" for i p
  define req where "req i = map (\<lambda>p. pieces_for p (PS i)) [0..<?N]" for i
  define my where "my = map (\<lambda>i. (fst (xs ! i), fst (snd (xs ! i)), req i, map (first_pos 0 (PS i)) [0..<?N])) [0..<?N]"
  have P: "ADIOI_Calc_my_req h (accs ! i) mn ds fs ?N = Some (my ! i)" "to_send ?agg ?N (first_sender (m (ks ! i)) (ks ! i) (accs ! i) (map (first_pos 0 (PS i)) [0..<?N]) ?N) (D i)"
    "\<And>p. ascending (fst (part_of ?d p)) (pieces_for p (PS i)) \<and> (\<forall>x \<in> set (bytes_of (pieces_for p (PS i))). x \<le> snd (part_of ?d p)) \<and>
      length (D i p) = length (bytes_of (pieces_for p (PS i)))"
    "(\<Union>p < ?N. set (zip (bytes_of (pieces_for p (PS i))) (D i p))) = request (m (ks ! i)) (ks ! i) (b0 i)" if "i < ?N" for i
  proof -
    have "my ! i = (fst (xs ! i), fst (snd (xs ! i)), map (\<lambda>p. pieces_for p (PS i)) [0..<?N], map (first_pos 0 (PS i)) [0..<?N])"
      using that by (simp add: my_def req_def)
    then show "ADIOI_Calc_my_req h (accs ! i) mn ds fs ?N = Some (my ! i)" using xs(2) [OF that] by (simp add: PS_def)
    have "?Q i (PS i)" using xs(2) [OF that] by (simp add: PS_def)
    then show "to_send ?agg ?N (first_sender (m (ks ! i)) (ks ! i) (accs ! i) (map (first_pos 0 (PS i)) [0..<?N]) ?N) (D i)"
      "\<And>p. ascending (fst (part_of ?d p)) (pieces_for p (PS i)) \<and> (\<forall>x \<in> set (bytes_of (pieces_for p (PS i))). x \<le> snd (part_of ?d p)) \<and>
        length (D i p) = length (bytes_of (pieces_for p (PS i)))"
      "(\<Union>p < ?N. set (zip (bytes_of (pieces_for p (PS i))) (D i p))) = request (m (ks ! i)) (ks ! i) (b0 i)"
      unfolding pieces_of_call_def D_def [of i, abs_def] by blast+
  qed
  have my: "those (map (\<lambda>acc. ADIOI_Calc_my_req h acc mn ds fs ?N) accs) = Some my"
    by (rule those_nth) (use accs(1) P(1) in \<open>simp_all add: my_def\<close>)
  have reqs: "map (\<lambda>(_, _, req, _). req) my = map req [0..<?N]" by (simp add: my_def)
  define others where "others = map (\<lambda>p. (length (filter (\<lambda>r. map req [0..<?N] ! r ! p \<noteq> []) [0..<?N]), map (\<lambda>i. pieces_for p (PS i)) [0..<?N])) [0..<?N]"
  have oth: "those (map (ADIOI_Calc_others_req (map req [0..<?N])) [0..<?N]) = Some others"
    unfolding others_def
  proof (rule those_map_Some)
    fix p assume "p \<in> set [0..<?N]"
    then show "ADIOI_Calc_others_req (map req [0..<?N]) p = Some (length (filter (\<lambda>r. map req [0..<?N] ! r ! p \<noteq> []) [0..<?N]), map (\<lambda>i. pieces_for p (PS i)) [0..<?N])"
      using others_req_ok [of "map req [0..<?N]" p] by (simp add: req_def)
  qed
  have o: "map snd others ! p ! i = pieces_for p (PS i)" "length (map snd others ! p) = ?N" if "p < ?N" "i < ?N" for p i using that by (simp_all add: others_def)
  let ?senders = "map (\<lambda>(k, acc, (_, _, _, buf_idx)). first_sender (m k) k acc buf_idx ?N) (zip ks (zip accs my))"
  have lm: "length my = ?N" by (simp add: my_def)
  have sn: "length ?senders = ?N" "?senders ! i = first_sender (m (ks ! i)) (ks ! i) (accs ! i) (map (first_pos 0 (PS i)) [0..<?N]) ?N" if "i < ?N" for i
    using that accs(1) lm by (simp_all add: my_def)
  have ls: "length ?senders = ?N" using accs(1) lm by simp
  have hd: "distinct (ranklist (fst ?d))" using h(1) by simp
  note part = part_of_owns [OF io(1) [of mfs] hd]
  have "exchange_ok bufsz ?agg (part_of ?d) ?senders (map snd others) io_bufs D"
    unfolding exchange_ok_def ls
  proof (intro conjI allI ballI impI)
    show "length (map snd others) = ?N" "length io_bufs = ?N" using h(4) by (simp_all add: others_def)
    fix p assume p: "p < ?N"
    show "length (map snd others ! p) = ?N" using o(2) [OF p p] .
    show "int (length (io_bufs ! p)) = bufsz" using h(5) [OF p] .
    show "0 \<le> fst (part_of ?d p)" by (rule part(2))
    have "(snd (part_of ?d p) - fst (part_of ?d p) + bufsz) div bufsz \<le> (hi_off ?d - lo_off ?d + bufsz) div bufsz"
      using part(3) [of p] h(3) by (intro zdiv_mono1) auto
    then show "(snd (part_of ?d p) - fst (part_of ?d p) + bufsz) div bufsz \<le> INT_MAX" using h(6) by linarith
    show "ascending (fst (part_of ?d p)) (map snd others ! p ! i)" "length (D i p) = length (bytes_of (map snd others ! p ! i))" if "i < ?N" for i
      using P(3) [OF that, of p] o(1) [OF p that] by simp_all
    show "x \<le> snd (part_of ?d p)" if "i < ?N" "x \<in> set (bytes_of (map snd others ! p ! i))" for i x
      using P(3) [OF that(1), of p] that(2) unfolding o(1) [OF p that(1)] by blast
    show "{fst (part_of ?d p)..snd (part_of ?d p)} \<inter> {fst (part_of ?d q)..snd (part_of ?d q)} = {}" if "q < ?N" "p \<noteq> q" for q
      by (rule part_of_disjoint [OF io(1) hd that(2)])
  next
    fix i assume i: "i < ?N"
    show "to_send ?agg ?N (?senders ! i) (D i)" unfolding sn(2) [OF i] by (rule P(2) [OF i])
  qed
  moreover have "\<forall>i < ?N. (\<Union>p < ?N. set (zip (bytes_of (map snd others ! p ! i)) (D i p))) = request (m (ks ! i)) (ks ! i) (b0 i)"
    using P(4) o(1) by simp
  moreover have "those (map (ADIOI_Calc_others_req (map (\<lambda>(_, _, req, _). req) my)) [0..<?N]) = Some others" using oth unfolding reqs .
  ultimately show ?thesis using dom my lm by blast
qed

text \<open>The access lists of all processes, and the parts of the result that the calls use.\<close>

abbreviation off_len_of :: "coll_call \<Rightarrow> (nat \<times> (int \<times> int) list \<times> int \<times> int \<times> int) option" where
  "off_len_of k \<equiv> ADIOI_Calc_my_off_len (k_view k) (k_individual k) (k_fp k) (k_offset k) (k_bytes k)"

abbreviation fps_after :: "coll_call list \<Rightarrow> (nat \<Rightarrow> int) \<Rightarrow> int list" where
  "fps_after ks b0 \<equiv> map (\<lambda>i. if k_individual (ks ! i) then view_pos (k_view (ks ! i)) (b0 i + k_bytes (ks ! i)) else k_fp (ks ! i)) [0..<length ks]"

lemma all_accesses:
  assumes "collective_ok h bufsz io_bufs ks b0"
  shows "\<exists>ls accs. those (map off_len_of ks) = Some ls \<and> map (\<lambda>(_, acc, _). acc) ls = accs \<and> map (\<lambda>(_, _, st, _). st) ls = starts ks b0 \<and>
    map (\<lambda>(_, _, _, en, _). en) ls = lasts ks b0 \<and> map (\<lambda>(_, _, _, _, fp). fp) ls = fps_after ks b0 \<and> length accs = length ks \<and>
    (\<forall>i < length ks. \<exists>n st en fp'. off_len_of (ks ! i) = Some (n, accs ! i, st, en, fp'))"
proof -
  let ?N = "length ks"
  let ?P = "\<lambda>i x. off_len_of (ks ! i) = Some (fst x, snd x, view_pos (k_view (ks ! i)) (b0 i), view_pos (k_view (ks ! i)) (b0 i + k_bytes (ks ! i) - 1),
    if k_individual (ks ! i) then view_pos (k_view (ks ! i)) (b0 i + k_bytes (ks ! i)) else k_fp (ks ! i))"
  have "\<exists>x. ?P i x" if "i < ?N" for i
  proof -
    have "call_ok (ks ! i) (b0 i)" using assms that by (simp add: collective_ok_def)
    from call_accesses [OF this] obtain n acc where "?P i (n, acc)" by auto
    then show ?thesis by blast
  qed
  then obtain xs where xs: "length xs = ?N" "\<forall>i < ?N. ?P i (xs ! i)" using Skolem_list_nth [of ?N ?P] by blast
  define ls where "ls = map (\<lambda>i. the (off_len_of (ks ! i))) [0..<?N]"
  have "those (map off_len_of ks) = Some ls" by (rule those_nth) (use xs in \<open>simp_all add: ls_def\<close>)
  moreover have "map (\<lambda>(_, acc, _). acc) ls = map snd xs" "map (\<lambda>(_, _, st, _). st) ls = starts ks b0" "map (\<lambda>(_, _, _, en, _). en) ls = lasts ks b0"
    "map (\<lambda>(_, _, _, _, fp). fp) ls = fps_after ks b0"
    unfolding ls_def by (rule nth_equalityI; use xs in simp)+
  moreover have "length (map snd xs) = ?N" "\<forall>i < ?N. \<exists>n st en fp'. off_len_of (ks ! i) = Some (n, map snd xs ! i, st, en, fp')" using xs by simp_all
  ultimately show ?thesis by blast
qed

end
