(* ===== verification/Coll_Call.thy ===== *)
theory Coll_Call
  imports Coll_Setup
begin

text \<open>
  The collective write as a whole, \<open>ADIOI_GEN_WriteStridedColl\<close>: from the requests of the processes to the bytes in the file.
\<close>

section \<open>The function\<close>

text \<open>
  Independent writes go through the table of the file's functions: \<open>ADIO_WriteContig\<close> at an offset (\<open>None\<close> for the individual pointer) and \<open>ADIO_WriteStrided\<close>. They
  get the rank.
\<close>

record 's indep_ops =
  indep_contig :: "nat \<Rightarrow> coll_call \<Rightarrow> int option \<Rightarrow> 's \<Rightarrow> (mpi_error \<times> 's) option"
  indep_strided :: "nat \<Rightarrow> coll_call \<Rightarrow> 's \<Rightarrow> (mpi_error \<times> 's) option"

definition indep_write :: "'s indep_ops \<Rightarrow> nat \<Rightarrow> coll_call \<Rightarrow> 's \<Rightarrow> (mpi_error \<times> 's) option" where
  "indep_write io r k s =
     (if bt_is_contig (k_type k) \<and> filetype_is_contig (k_view k) then
        indep_contig io r k (if k_individual k then None else Some (vdisp (k_view k) + etype_size (k_view k) * k_offset k)) s
      else indep_strided io r k s)"

fun indep_writes :: "'s indep_ops \<Rightarrow> nat \<Rightarrow> coll_call list \<Rightarrow> 's \<Rightarrow> (mpi_error list \<times> 's) option" where
  "indep_writes io r [] s = Some ([], s)"
| "indep_writes io r (k # ks) s =
     (case indep_write io r k s of
        None \<Rightarrow> None
      | Some (e, s') \<Rightarrow> map_option (\<lambda>(es, s''). (e # es, s'')) (indep_writes io (Suc r) ks s'))"

text \<open>
  The agreement on the error: from the only aggregator, or the greatest of all. A process with an error of its own other than \<open>MPI_ERR_IO\<close> keeps it.
\<close>

definition agree_errors :: "agg_hints \<Rightarrow> mpi_error list \<Rightarrow> mpi_error list option" where
  "agree_errors h es =
     (let io = map (\<lambda>e. if e \<noteq> MPI_OK then MPI_ERR_IO else MPI_OK) es in
      if cb_nodes h = 1 \<and> (ranklist h = [] \<or> length io \<le> hd (ranklist h)) then None
      else (let common = (if cb_nodes h = 1 then io ! hd (ranklist h) else if MPI_ERR_IO \<in> set io then MPI_ERR_IO else MPI_OK)
        in Some (map (\<lambda>e. if e \<noteq> MPI_OK \<and> e \<noteq> MPI_ERR_IO then e else common) es)))"

text \<open>The two phases, for the accesses \<open>accs\<close> of the processes; \<open>space\<close> is the allocation of cache space.\<close>

definition two_phase_write :: "'s sieve_ops \<Rightarrow> ('s \<Rightarrow> mpi_error list \<times> 's) \<Rightarrow> agg_hints \<Rightarrow> int \<Rightarrow> int \<Rightarrow> byte list list \<Rightarrow> coll_call list \<Rightarrow> (int \<times> int) list list \<Rightarrow>
    int list \<Rightarrow> int list \<Rightarrow> 's \<Rightarrow> (mpi_error list \<times> 's) outcome" where
  "two_phase_write ops space h mfs coll_bufsize io_bufs ks accs sts ends s =
     obind (of_option (ADIOI_Calc_file_domains sts ends (nat (cb_nodes h)) mfs (striping_unit h))) (\<lambda>(mn, fs, ds).
     obind (of_option (those (map (\<lambda>acc. ADIOI_Calc_my_req h acc mn ds fs (length ks)) accs))) (\<lambda>my.
     obind (of_option (those (map (ADIOI_Calc_others_req (map (\<lambda>(_, _, req, _). req) my)) [0..<length ks]))) (\<lambda>others.
     (let senders = map (\<lambda>(k, acc, (_, _, _, buf_idx)). \<lparr>d_type = k_type k, d_mem = k_mem k, d_accesses = acc, d_buf_idx = buf_idx,
            d_sent = map (\<lambda>_. 0) ks\<rparr>) (zip ks (zip accs my));
          (es, s') = space s
      in obind (ADIOI_Exch_and_write ops (ADIOI_Calc_aggregator h mn fs ds) coll_bufsize es senders (map snd others) io_bufs s') (\<lambda>(es', s'').
         obind (of_option (agree_errors h es')) (\<lambda>es''. Done (es'', s'')))))))"

text \<open>
  The result: errors and file, and after the two phases also the individual file pointers and the bytes in the status of each process. (With the hint
  \<open>romio_cb_pfr\<close>, which is not modelled, another implementation is called.)
\<close>

datatype 's coll_result = Independent "mpi_error list" 's | Collective "mpi_error list" "int list" "int list" 's

definition ADIOI_GEN_WriteStridedColl :: "'s sieve_ops \<Rightarrow> 's indep_ops \<Rightarrow> ('s \<Rightarrow> mpi_error list \<times> 's) \<Rightarrow> agg_hints \<Rightarrow> int \<Rightarrow> int \<Rightarrow> int \<Rightarrow> byte list list \<Rightarrow>
    coll_call list \<Rightarrow> 's \<Rightarrow> 's coll_result outcome" where
  "ADIOI_GEN_WriteStridedColl ops io space h cb_write mfs coll_bufsize io_bufs ks s =
     (if cb_write = ADIOI_HINT_DISABLE then obind (of_option (indep_writes io 0 ks s)) (\<lambda>(es, s'). Done (Independent es s'))
      else obind (of_option (those (map (\<lambda>k. ADIOI_Calc_my_off_len (k_view k) (k_individual k) (k_fp k) (k_offset k) (k_bytes k)) ks))) (\<lambda>ls.
        (let accs = map (\<lambda>(_, acc, _). acc) ls; sts = map (\<lambda>(_, _, st, _). st) ls; ends = map (\<lambda>(_, _, _, en, _). en) ls in
         if \<not> interleaved sts ends \<and> cb_write = ADIOI_HINT_AUTO then obind (of_option (indep_writes io 0 ks s)) (\<lambda>(es, s'). Done (Independent es s'))
         else obind (two_phase_write ops space h mfs coll_bufsize io_bufs ks accs sts ends s) (\<lambda>(es, s').
           Done (Collective es (map (\<lambda>(_, _, _, _, fp). fp) ls) (map k_bytes ks) (sv_forget ops s'))))))"

section \<open>The call\<close>

abbreviation requests :: "coll_call list \<Rightarrow> (nat \<Rightarrow> int) \<Rightarrow> (int \<times> byte) set" where
  "requests ks b0 \<equiv> requests_in k_mem ks b0"

lemma agree_errors_all:
  assumes "collective_ok h bufsz io_bufs ks b0" "es = map (\<lambda>_. e) ks"
  shows "agree_errors h es = Some es"
proof -
  have h: "hd (ranklist h) < length ks" "ks \<noteq> []" "ranklist h \<noteq> []" using assms(1) by (auto simp: collective_ok_def)
  then have "set es = {e}" unfolding assms(2) by (cases ks) auto
  then show ?thesis using h assms(2) by (auto simp: agree_errors_def Let_def comp_def map_idI)
qed

lemma parts_in_range:
  assumes "collective_ok h bufsz io_bufs ks b0"
  shows "(\<Union>p < n. {fst (part_of (h, starts ks b0, lasts ks b0, mfs) p)..snd (part_of (h, starts ks b0, lasts ks b0, mfs) p)}) \<subseteq>
    {Min (set (starts ks b0))..Max (set (lasts ks b0))}"
proof -
  let ?d = "(h, starts ks b0, lasts ks b0, mfs)"
  have "distinct (ranklist (fst ?d))" using assms by (simp add: collective_ok_def)
  from part_of_owns(1) [OF coll_input_ok(1) [OF assms] this]
  have "{fst (part_of ?d p)..snd (part_of ?d p)} \<subseteq> {lo_off ?d..hi_off ?d}" for p by blast
  then show ?thesis unfolding lo_off_def hi_off_def prod.case by blast
qed

context sieved_file
begin

lemma two_phase_ok:
  assumes ok: "collective_ok h bufsz io_bufs ks b0" and accs: "length accs = length ks"
    "\<forall>i < length ks. \<exists>n st en fp'. ADIOI_Calc_my_off_len (k_view (ks ! i)) (k_individual (ks ! i)) (k_fp (ks ! i)) (k_offset (ks ! i)) (k_bytes (ks ! i)) =
      Some (n, accs ! i, st, en, fp')"
    and inv: "inv c s1" and space: "space s = (es, s1)"
  shows "es = map (\<lambda>_. MPI_OK) ks \<Longrightarrow> \<exists>s'. two_phase_write (ops c) space h mfs bufsz io_bufs ks accs (starts ks b0) (lasts ks b0) s = Done (es, s') \<and> inv c s' \<and>
      wrote (requests ks b0) {Min (set (starts ks b0))..Max (set (lasts ks b0))} (content s1) (content s')"
    and "es = map (\<lambda>_. e) ks \<Longrightarrow> e \<noteq> MPI_OK \<Longrightarrow> \<exists>s'. two_phase_write (ops c) space h mfs bufsz io_bufs ks accs (starts ks b0) (lasts ks b0) s = Done (es, s') \<and> inv c s' \<and>
      content s' = content s1"
proof -
  let ?d = "(h, starts ks b0, lasts ks b0, mfs)" and ?N = "length ks"
  from exchange_set_up [OF ok accs, of mfs k_mem]
  obtain mn fs ds my others D where st: "ADIOI_Calc_file_domains (starts ks b0) (lasts ks b0) (nat (cb_nodes h)) mfs (striping_unit h) = Some (mn, fs, ds)"
      "those (map (\<lambda>acc. ADIOI_Calc_my_req h acc mn ds fs ?N) accs) = Some my"
      "those (map (ADIOI_Calc_others_req (map (\<lambda>(_, _, req, _). req) my)) [0..<?N]) = Some others"
    and ex: "exchange_ok bufsz (ADIOI_Calc_aggregator h mn fs ds) (part_of ?d)
      (map (\<lambda>(k, acc, (_, _, _, buf_idx)). first_sender (k_mem k) k acc buf_idx ?N) (zip ks (zip accs my))) (map snd others) io_bufs D"
    and lm: "length my = ?N" and R: "\<forall>i < ?N. (\<Union>p < ?N. set (zip (bytes_of (map snd others ! p ! i)) (D i p))) = request (k_mem (ks ! i)) (ks ! i) (b0 i)"
    by (elim exE conjE) (rule that)
  have W: "(\<Union>p < ?N. \<Union>i < ?N. set (zip (bytes_of (map snd others ! p ! i)) (D i p))) = requests ks b0"
    unfolding requests_in_def using R by (subst SUP_commute) simp
  let ?agg = "ADIOI_Calc_aggregator h mn fs ds"
  let ?senders = "map (\<lambda>(k, acc, (_, _, _, buf_idx)). first_sender (k_mem k) k acc buf_idx ?N) (zip ks (zip accs my))"
  have ls: "length ?senders = ?N" using accs(1) lm by simp
  have b: "0 < bufsz" "bufsz \<le> INT_MAX" "ks \<noteq> []" using ok by (auto simp: collective_ok_def)
  have eq: "two_phase_write (ops c) space h mfs bufsz io_bufs ks accs (starts ks b0) (lasts ks b0) s =
      obind (ADIOI_Exch_and_write (ops c) ?agg bufsz es ?senders (map snd others) io_bufs s1) (\<lambda>(es', s''). obind (of_option (agree_errors h es')) (\<lambda>es''. Done (es'', s'')))"
    unfolding two_phase_write_def by (simp add: st space map_replicate_const)
  {
    assume e: "es = map (\<lambda>_. MPI_OK) ks"
    have "map (\<lambda>_. MPI_OK) ?senders = es" unfolding e by (rule nth_equalityI) (use ls in simp_all)
    then obtain s' where "ADIOI_Exch_and_write (ops c) ?agg bufsz es ?senders (map snd others) io_bufs s1 = Done (es, s')" "inv c s'"
      "wrote (requests ks b0) (\<Union>p < ?N. {fst (part_of ?d p)..snd (part_of ?d p)}) (content s1) (content s')"
      using Exch_and_write_ok [OF ex inv b(1,2)] unfolding ls W by auto
    then show "\<exists>s'. two_phase_write (ops c) space h mfs bufsz io_bufs ks accs (starts ks b0) (lasts ks b0) s = Done (es, s') \<and> inv c s' \<and>
      wrote (requests ks b0) {Min (set (starts ks b0))..Max (set (lasts ks b0))} (content s1) (content s')"
      using agree_errors_all [OF ok e] wrote_mono [OF _ parts_in_range [OF ok]] unfolding eq by auto
  }
  {
    assume e: "es = map (\<lambda>_. e) ks" and "e \<noteq> MPI_OK"
    then have "\<forall>e \<in> set es. e \<noteq> MPI_OK" by auto
    moreover have "length es = length ?senders" unfolding ls e by simp
    moreover have "?senders \<noteq> []" using ls b(3) by (metis length_0_conv)
    ultimately obtain s' where "ADIOI_Exch_and_write (ops c) ?agg bufsz es ?senders (map snd others) io_bufs s1 = Done (es, s')" "inv c s'" "content s' = content s1"
      using Exch_and_write_error [OF ex inv b(1,2)] by blast
    then show "\<exists>s'. two_phase_write (ops c) space h mfs bufsz io_bufs ks accs (starts ks b0) (lasts ks b0) s = Done (es, s') \<and> inv c s' \<and> content s' = content s1"
      using agree_errors_all [OF ok e] unfolding eq by auto
  }
qed

lemma collective_call:
  assumes ok: "collective_ok h bufsz io_bufs ks b0" and inv: "inv c s1" and space: "space s = (map (\<lambda>_. e) ks, s1)"
    and cb: "cb_write \<noteq> ADIOI_HINT_DISABLE" "interleaved (starts ks b0) (lasts ks b0) \<or> cb_write \<noteq> ADIOI_HINT_AUTO"
  shows "\<exists>s'. ADIOI_GEN_WriteStridedColl (ops c) io space h cb_write mfs bufsz io_bufs ks s =
      Done (Collective (map (\<lambda>_. e) ks) (map (\<lambda>i. if k_individual (ks ! i) then view_pos (k_view (ks ! i)) (b0 i + k_bytes (ks ! i)) else k_fp (ks ! i)) [0..<length ks])
        (map k_bytes ks) s') \<and> inv c s' \<and>
      (if e = MPI_OK then wrote (requests ks b0) {Min (set (starts ks b0))..Max (set (lasts ks b0))} (content s1) (content s') else content s' = content s1)"
proof -
  obtain ls accs where ls: "those (map off_len_of ks) = Some ls" and parts: "map (\<lambda>(_, acc, _). acc) ls = accs" "map (\<lambda>(_, _, st, _). st) ls = starts ks b0"
      "map (\<lambda>(_, _, _, en, _). en) ls = lasts ks b0" "map (\<lambda>(_, _, _, _, fp). fp) ls = fps_after ks b0"
    and accs: "length accs = length ks" "\<forall>i < length ks. \<exists>n st en fp'. off_len_of (ks ! i) = Some (n, accs ! i, st, en, fp')"
    using all_accesses [OF ok] by (elim exE conjE) (rule that)
  obtain s' where s': "two_phase_write (ops c) space h mfs bufsz io_bufs ks accs (starts ks b0) (lasts ks b0) s = Done (map (\<lambda>_. e) ks, s')" "inv c s'"
    "if e = MPI_OK then wrote (requests ks b0) {Min (set (starts ks b0))..Max (set (lasts ks b0))} (content s1) (content s') else content s' = content s1"
  proof (cases "e = MPI_OK")
    case True
    show ?thesis using two_phase_ok(1) [OF ok accs inv, where space = space and s = s and mfs = mfs, OF space] that True by auto
  next
    case False
    show ?thesis using two_phase_ok(2) [OF ok accs inv, where space = space and s = s and mfs = mfs, OF space refl False] that False by auto
  qed
  have "ADIOI_GEN_WriteStridedColl (ops c) io space h cb_write mfs bufsz io_bufs ks s =
      Done (Collective (map (\<lambda>_. e) ks) (map (\<lambda>(_, _, _, _, fp). fp) ls) (map k_bytes ks) (sv_forget (ops c) s'))"
    using cb s'(1) unfolding ADIOI_GEN_WriteStridedColl_def Let_def ls of_option.simps obind.simps parts by auto
  then show ?thesis using s'(2,3) forget_ok unfolding parts by auto
qed

end

section \<open>On a file\<close>


text \<open>Two processes whose views interleave: one with a buffer with holes at an explicit offset, one with a contiguous buffer at its file pointer.\<close>

definition shifted_view :: view where
  "shifted_view = marked_view\<lparr>vdisp := 116\<rparr>"

definition two_calls :: "coll_call list" where
  "two_calls =
     [\<lparr>k_view = marked_view, k_type = holed_buffer, k_count = 2, k_individual = False, k_fp = 0, k_offset = 1, k_mem = (\<lambda>x. of_int x)\<rparr>,
      \<lparr>k_view = shifted_view, k_type = plain_buffer, k_count = 20, k_individual = True, k_fp = 120, k_offset = 0, k_mem = (\<lambda>x. of_int (100 + x))\<rparr>]"

definition one_writer :: agg_hints where
  "one_writer = \<lparr>striping_unit = 0, cb_nodes = 1, ranklist = [1]\<rparr>"

definition two_writers :: agg_hints where
  "two_writers = \<lparr>striping_unit = 0, cb_nodes = 2, ranklist = [1, 0]\<rparr>"

abbreviation first_bytes :: "nat \<Rightarrow> int" where
  "first_bytes i \<equiv> if i = 0 then 4 else 0"

lemma two_calls_ok: "collective_ok one_writer 7 [replicate 7 0, replicate 7 0] two_calls first_bytes"
  "collective_ok two_writers 5 [replicate 5 0, replicate 5 0] two_calls first_bytes" "interleaved (starts two_calls first_bytes) (lasts two_calls first_bytes)"
proof -
  have pos: "view_pos marked_view 4 = 112" "view_pos marked_view 19 = 147" "view_pos shifted_view 0 = 120" "view_pos shifted_view 19 = 163" by code_simp+
  have m: "walkable marked_view" "walkable shifted_view" "walkable_buf holed_buffer" "view_nonneg marked_view" "view_nonneg shifted_view" "in_order marked_view" "in_order shifted_view"
    by (simp_all add: shifted_view_def walkable_def marked_view_def holed_buffer_def mem_view_def blocks_size_def view_nonneg_def in_order_def)
  have "call_ok (two_calls ! 0) 4" "call_ok (two_calls ! 1) 0" using m pos
    by (simp_all add: two_calls_def call_ok_def access_ok_def starts_at_def INT_MAX_def in_order_def)
      (simp_all add: shifted_view_def marked_view_def holed_buffer_def plain_buffer_def)
  then show "collective_ok one_writer 7 [replicate 7 0, replicate 7 0] two_calls first_bytes" "collective_ok two_writers 5 [replicate 5 0, replicate 5 0] two_calls first_bytes"
    using pos by (simp_all add: collective_ok_def one_writer_def two_writers_def two_calls_def less_Suc_eq upt_rec INT_MAX_def holed_buffer_def plain_buffer_def)
  show "interleaved (starts two_calls first_bytes) (lasts two_calls first_bytes)"
    using pos by (simp add: interleaved_def two_calls_def upt_rec holed_buffer_def plain_buffer_def)
qed


text \<open>
  C35: When the allocation of space in a cache fails in some process, the caches are flushed and closed in order to go on with the global file, but the error code is
  not cleared: the call returns in every process after the data of the first round were exchanged, with that error, and nothing is written to the file; the
  file pointers are moved and the status says that the bytes were written.
\<close>

theorem failed_cache_space_loses_write:
  assumes "direct_ready P 0 (revert fd)" "collective_ok h bufsz io_bufs ks b0" "length rets = length ks" "max_error (map ADIOI_Cache_alloc rets) \<noteq> MPI_OK"
    and "cb_write \<noteq> ADIOI_HINT_DISABLE" "interleaved (starts ks b0) (lasts ks b0) \<or> cb_write \<noteq> ADIOI_HINT_AUTO"
  shows "\<exists>fps fd'. ADIOI_GEN_WriteStridedColl (sieve_file_ops P) io (cache_space max_error revert True True rets) h cb_write mfs bufsz io_bufs ks fd =
      Done (Collective (map (\<lambda>_. max_error (map ADIOI_Cache_alloc rets)) ks) fps (map k_bytes ks) fd') \<and>
    file_content fd' = file_content (revert fd) \<and>
    (\<forall>i < length ks. k_individual (ks ! i) \<longrightarrow> fps ! i = view_pos (k_view (ks ! i)) (b0 i + k_bytes (ks ! i)))"
proof -
  have "cache_space max_error revert True True rets fd = (map (\<lambda>_. max_error (map ADIOI_Cache_alloc rets)) ks, revert fd)"
    using assms(3,4) by (simp add: cache_space_def map_replicate_const Let_def)
  from sieved.collective_call [where e = "max_error (map ADIOI_Cache_alloc rets)" and s = fd and space = "cache_space max_error revert True True rets", OF assms(2,1) this assms(5,6), of io mfs]
  obtain fd' where "ADIOI_GEN_WriteStridedColl (sieve_file_ops P) io (cache_space max_error revert True True rets) h cb_write mfs bufsz io_bufs ks fd =
      Done (Collective (map (\<lambda>_. max_error (map ADIOI_Cache_alloc rets)) ks)
        (map (\<lambda>i. if k_individual (ks ! i) then view_pos (k_view (ks ! i)) (b0 i + k_bytes (ks ! i)) else k_fp (ks ! i)) [0..<length ks]) (map k_bytes ks) fd')"
    "file_content fd' = file_content (revert fd)" unfolding if_not_P [OF assms(4)] by blast
  then show ?thesis
    by (intro exI [of _ "map (\<lambda>i. if k_individual (ks ! i) then view_pos (k_view (ks ! i)) (b0 i + k_bytes (ks ! i)) else k_fp (ks ! i)) [0..<length ks]"]
        exI [of _ fd']) simp
qed

theorem failed_cache_space_loses_write_witness:
  "\<forall>q. \<exists>fps fd'. ADIOI_GEN_WriteStridedColl (sieve_file_ops byte_params) \<lparr>indep_contig = (\<lambda>_ _ _ _. None), indep_strided = (\<lambda>_ _ _. None)\<rparr>
      (cache_space (\<lambda>_. MPI_ERR_NO_SPACE) (\<lambda>_. demo_direct) True True [None, Some ENOSPC]) one_writer ADIOI_HINT_AUTO 0 7 [replicate 7 0, replicate 7 0] two_calls
      (demo_file q) = Done (Collective [MPI_ERR_NO_SPACE, MPI_ERR_NO_SPACE] fps [16, 20] fd') \<and>
    file_content fd' = file_content demo_direct" (is "\<forall>q. ?W q")
proof
  fix q
  have d: "direct_ready byte_params 0 ((\<lambda>_. demo_direct) (demo_file q))"
    by (simp add: direct_ready_def byte_params_ok cache_on_def demo_direct_def)
  have l: "length [None, Some ENOSPC] = length two_calls" "(\<lambda>_. MPI_ERR_NO_SPACE) (map ADIOI_Cache_alloc [None, Some ENOSPC]) \<noteq> MPI_OK" "ADIOI_HINT_AUTO \<noteq> ADIOI_HINT_DISABLE"
    by (simp_all add: two_calls_def ADIOI_HINT_AUTO_def ADIOI_HINT_DISABLE_def)
  have "map (\<lambda>_. MPI_ERR_NO_SPACE) two_calls = [MPI_ERR_NO_SPACE, MPI_ERR_NO_SPACE]" "map k_bytes two_calls = [16, 20]"
    by (simp_all add: two_calls_def holed_buffer_def plain_buffer_def)
  then show "?W q"
    using failed_cache_space_loses_write [where revert = "\<lambda>_. demo_direct" and fd = "demo_file q" and max_error = "\<lambda>_. MPI_ERR_NO_SPACE",
        OF d two_calls_ok(1) l disjI1 [OF two_calls_ok(3)], of "\<lparr>indep_contig = (\<lambda>_ _ _ _. None), indep_strided = (\<lambda>_ _ _. None)\<rparr>" 0] by auto
qed

end
