(* ===== verification/Coll_Read_Call.thy ===== *)
theory Coll_Read_Call
  imports Coll_Input Coll_Call
begin

text \<open>
  The collective read as a whole, \<open>ADIOI_GEN_ReadStridedColl\<close>.
\<close>

section \<open>The function\<close>

text \<open>Independent reads give an error code and the memory of the process.\<close>

record 's indep_reads =
  read_contig :: "nat \<Rightarrow> coll_call \<Rightarrow> int option \<Rightarrow> 's \<Rightarrow> (mpi_error \<times> (int \<Rightarrow> byte) \<times> 's) option"
  read_strided :: "nat \<Rightarrow> coll_call \<Rightarrow> 's \<Rightarrow> (mpi_error \<times> (int \<Rightarrow> byte) \<times> 's) option"

definition indep_read :: "'s indep_reads \<Rightarrow> nat \<Rightarrow> coll_call \<Rightarrow> 's \<Rightarrow> (mpi_error \<times> (int \<Rightarrow> byte) \<times> 's) option" where
  "indep_read io r k s =
     (if bt_is_contig (k_type k) \<and> filetype_is_contig (k_view k) then
        read_contig io r k (if k_individual k then None else Some (vdisp (k_view k) + etype_size (k_view k) * k_offset k)) s
      else read_strided io r k s)"

fun indep_read_all :: "'s indep_reads \<Rightarrow> nat \<Rightarrow> coll_call list \<Rightarrow> 's \<Rightarrow> (mpi_error list \<times> (int \<Rightarrow> byte) list \<times> 's) option" where
  "indep_read_all io r [] s = Some ([], [], s)"
| "indep_read_all io r (k # ks) s =
     (case indep_read io r k s of
        None \<Rightarrow> None
      | Some (e, m, s') \<Rightarrow> map_option (\<lambda>(es, ms, s''). (e # es, m # ms, s'')) (indep_read_all io (Suc r) ks s'))"

text \<open>The two phases, for the accesses \<open>accs\<close> of the processes.\<close>

definition two_phase_read :: "'s sieve_ops \<Rightarrow> (nat \<Rightarrow> byte list) \<Rightarrow> agg_hints \<Rightarrow> int \<Rightarrow> int \<Rightarrow> byte list list \<Rightarrow> coll_call list \<Rightarrow> (int \<times> int) list list \<Rightarrow>
    int list \<Rightarrow> int list \<Rightarrow> 's \<Rightarrow> (mpi_error list \<times> byte sender list \<times> 's) outcome" where
  "two_phase_read ops fresh h mfs coll_bufsize io_bufs ks accs sts ends s =
     obind (of_option (ADIOI_Calc_file_domains sts ends (nat (cb_nodes h)) mfs (striping_unit h))) (\<lambda>(mn, fs, ds).
     obind (of_option (those (map (\<lambda>acc. ADIOI_Calc_my_req h acc mn ds fs (length ks)) accs))) (\<lambda>my.
     obind (of_option (those (map (ADIOI_Calc_others_req (map (\<lambda>(_, _, req, _). req) my)) [0..<length ks]))) (\<lambda>others.
       ADIOI_Read_and_exch ops fresh (ADIOI_Calc_aggregator h mn fs ds) coll_bufsize
         (map (\<lambda>(k, acc, (_, _, _, buf_idx)). \<lparr>d_type = k_type k, d_mem = k_mem k, d_accesses = acc, d_buf_idx = buf_idx, d_sent = map (\<lambda>_. 0) ks\<rparr>) (zip ks (zip accs my)))
         (map snd others) io_bufs s)))"

text \<open>
  The result: errors, memories and file, and after the two phases also the individual file pointers and the bytes in the status of each process.
\<close>

datatype 's read_result =
  IndependentRead "mpi_error list" "(int \<Rightarrow> byte) list" 's
| CollectiveRead "mpi_error list" "(int \<Rightarrow> byte) list" "int list" "int list" 's

definition ADIOI_GEN_ReadStridedColl :: "'s sieve_ops \<Rightarrow> 's indep_reads \<Rightarrow> (nat \<Rightarrow> byte list) \<Rightarrow> agg_hints \<Rightarrow> int \<Rightarrow> int \<Rightarrow> int \<Rightarrow> byte list list \<Rightarrow>
    coll_call list \<Rightarrow> 's \<Rightarrow> 's read_result outcome" where
  "ADIOI_GEN_ReadStridedColl ops io fresh h cb_read mfs coll_bufsize io_bufs ks s =
     (if cb_read = ADIOI_HINT_DISABLE then obind (of_option (indep_read_all io 0 ks s)) (\<lambda>(es, ms, s'). Done (IndependentRead es ms s'))
      else obind (of_option (those (map (\<lambda>k. ADIOI_Calc_my_off_len (k_view k) (k_individual k) (k_fp k) (k_offset k) (k_bytes k)) ks))) (\<lambda>ls.
        (let accs = map (\<lambda>(_, acc, _). acc) ls; sts = map (\<lambda>(_, _, st, _). st) ls; ends = map (\<lambda>(_, _, _, en, _). en) ls in
         if \<not> interleaved sts ends \<and> cb_read = ADIOI_HINT_AUTO
         then obind (of_option (indep_read_all io 0 ks s)) (\<lambda>(es, ms, s'). Done (IndependentRead es ms s'))
         else obind (two_phase_read ops fresh h mfs coll_bufsize io_bufs ks accs sts ends s) (\<lambda>(es, ds, s').
           Done (CollectiveRead es (map d_mem ds) (map (\<lambda>(_, _, _, _, fp). fp) ls) (map k_bytes ks) (sv_forget ops s'))))))"

section \<open>The call\<close>

text \<open>What a process is to get: the cells of its buffer, and the bytes of the file for them.\<close>

definition answer :: "(int \<Rightarrow> byte) \<Rightarrow> coll_call \<Rightarrow> int \<Rightarrow> (int \<times> byte) set" where
  "answer g k b0 = (\<lambda>i. (view_pos (mem_view (k_type k)) i, g (view_pos (k_view k) (b0 + i)))) ` {0..<k_bytes k}"

lemma zip_swap: "set (zip A (map g B)) = (\<lambda>(x, a). (a, g x)) ` set (zip B A)"
  by (auto simp: set_zip image_iff) metis+

lemma answer_eq: "answer g k b0 = (\<lambda>(x, a). (a, g x)) ` request (\<lambda>x. x) k b0"
  by (simp add: answer_def request_def image_image)

lemma exchange_lengths: "exchange_ok bufsz agg part ds others io_bufs D \<Longrightarrow> i < length ds \<Longrightarrow> p < length ds \<Longrightarrow> length (D i p) = length (bytes_of (others ! p ! i))"
  by (simp add: exchange_ok_def)

context sieved_file
begin

lemma two_phase_read_ok:
  assumes ok: "collective_ok h bufsz io_bufs ks b0" and accs: "length accs = length ks" "\<forall>i < length ks. \<exists>n st en fp'. off_len_of (ks ! i) = Some (n, accs ! i, st, en, fp')"
    and inv: "inv c s" and has: "\<forall>i < length ks. \<forall>j \<in> {0..<k_bytes (ks ! i)}. content s (view_pos (k_view (ks ! i)) (b0 i + j)) = Some (g (view_pos (k_view (ks ! i)) (b0 i + j)))"
  shows "\<exists>ds s'. two_phase_read (ops c) fresh h mfs bufsz io_bufs ks accs (starts ks b0) (lasts ks b0) s = Done (map (\<lambda>_. MPI_OK) ks, ds, s') \<and> inv c s' \<and>
    content s' = content s \<and> length ds = length ks \<and> (\<forall>i < length ks. stored (answer g (ks ! i) (b0 i)) (k_mem (ks ! i)) (d_mem (ds ! i)))"
proof -
  let ?d = "(h, starts ks b0, lasts ks b0, mfs)" and ?N = "length ks"
  from exchange_set_up [OF ok accs, of mfs "\<lambda>_ x. x"]
  obtain mn fs ds my others A where st: "ADIOI_Calc_file_domains (starts ks b0) (lasts ks b0) (nat (cb_nodes h)) mfs (striping_unit h) = Some (mn, fs, ds)"
      "those (map (\<lambda>acc. ADIOI_Calc_my_req h acc mn ds fs ?N) accs) = Some my"
      "those (map (ADIOI_Calc_others_req (map (\<lambda>(_, _, req, _). req) my)) [0..<?N]) = Some others"
    and ex: "exchange_ok bufsz (ADIOI_Calc_aggregator h mn fs ds) (part_of ?d)
      (map (\<lambda>(k, acc, (_, _, _, buf_idx)). first_sender (\<lambda>x. x) k acc buf_idx ?N) (zip ks (zip accs my))) (map snd others) io_bufs A"
    and lm: "length my = ?N" and R: "\<forall>i < ?N. (\<Union>p < ?N. set (zip (bytes_of (map snd others ! p ! i)) (A i p))) = request (\<lambda>x. x) (ks ! i) (b0 i)"
    by (elim exE conjE) (rule that)
  let ?agg = "ADIOI_Calc_aggregator h mn fs ds"
  let ?procs = "map (\<lambda>(k, acc, (_, _, _, buf_idx)). first_sender (k_mem k) k acc buf_idx ?N) (zip ks (zip accs my))"
  have ls: "length ?procs = ?N" using accs(1) lm by simp
  have addr: "map addr_of ?procs = map (\<lambda>(k, acc, (_, _, _, buf_idx)). first_sender (\<lambda>x. x) k acc buf_idx ?N) (zip ks (zip accs my))"
    by (auto simp: addr_of_def)
  have b: "0 < bufsz" "bufsz \<le> INT_MAX" using ok by (auto simp: collective_ok_def)
  have eq: "two_phase_read (ops c) fresh h mfs bufsz io_bufs ks accs (starts ks b0) (lasts ks b0) s =
      ADIOI_Read_and_exch (ops c) fresh ?agg bufsz ?procs (map snd others) io_bufs s"
    unfolding two_phase_read_def by (simp add: st map_replicate_const)
  have len: "length (A i p) = length (bytes_of (map snd others ! p ! i))" if "i < ?N" "p < ?N" for i p
    by (rule exchange_lengths [OF ex]) (use that accs(1) lm in simp_all)
  have "content s x = Some (g x)" if pi: "p < ?N" "i < ?N" "x \<in> set (bytes_of (map snd others ! p ! i))" for p i x
  proof -
    have "x \<in> fst ` set (zip (bytes_of (map snd others ! p ! i)) (A i p))" using pi(3) len [OF pi(2,1)] by (metis map_fst_zip set_map)
    then have "x \<in> fst ` request (\<lambda>x. x) (ks ! i) (b0 i)" using R pi by blast
    then obtain j where "j \<in> {0..<k_bytes (ks ! i)}" "x = view_pos (k_view (ks ! i)) (b0 i + j)" unfolding request_def by auto
    then show ?thesis using has pi(2) by blast
  qed
  then obtain ds' s' where r: "ADIOI_Read_and_exch (ops c) fresh ?agg bufsz ?procs (map snd others) io_bufs s = Done (map (\<lambda>_. MPI_OK) ?procs, ds', s')" "inv c s'"
    "content s' = content s" "length ds' = ?N"
    "\<forall>i < ?N. stored (\<Union>p < ?N. set (zip (A i p) (map g (bytes_of (map snd others ! p ! i))))) (d_mem (?procs ! i)) (d_mem (ds' ! i))"
    using Read_and_exch_ok [OF ex [folded addr] inv b, of g fresh] unfolding ls by blast
  have "(\<Union>p < ?N. set (zip (A i p) (map g (bytes_of (map snd others ! p ! i))))) = answer g (ks ! i) (b0 i)" if "i < ?N" for i
    unfolding zip_swap answer_eq using R that by (simp add: image_UN [symmetric])
  moreover have "d_mem (?procs ! i) = k_mem (ks ! i)" if "i < ?N" for i using that accs(1) lm by (simp add: case_prod_unfold)
  moreover have "map (\<lambda>_. MPI_OK) ?procs = map (\<lambda>_. MPI_OK) ks" by (rule nth_equalityI) (use ls in simp_all)
  ultimately show ?thesis using r unfolding eq by auto
qed

lemma collective_read:
  assumes ok: "collective_ok h bufsz io_bufs ks b0" and inv: "inv c s"
    and has: "\<forall>i < length ks. \<forall>j \<in> {0..<k_bytes (ks ! i)}. content s (view_pos (k_view (ks ! i)) (b0 i + j)) = Some (g (view_pos (k_view (ks ! i)) (b0 i + j)))"
    and cb: "cb_read \<noteq> ADIOI_HINT_DISABLE" "interleaved (starts ks b0) (lasts ks b0) \<or> cb_read \<noteq> ADIOI_HINT_AUTO"
  shows "\<exists>ms s'. ADIOI_GEN_ReadStridedColl (ops c) io fresh h cb_read mfs bufsz io_bufs ks s =
      Done (CollectiveRead (map (\<lambda>_. MPI_OK) ks) ms (fps_after ks b0) (map k_bytes ks) s') \<and> inv c s' \<and> content s' = content s \<and>
    length ms = length ks \<and> (\<forall>i < length ks. stored (answer g (ks ! i) (b0 i)) (k_mem (ks ! i)) (ms ! i))"
proof -
  obtain ls accs where ls: "those (map off_len_of ks) = Some ls" and parts: "map (\<lambda>(_, acc, _). acc) ls = accs" "map (\<lambda>(_, _, st, _). st) ls = starts ks b0"
      "map (\<lambda>(_, _, _, en, _). en) ls = lasts ks b0" "map (\<lambda>(_, _, _, _, fp). fp) ls = fps_after ks b0"
    and accs: "length accs = length ks" "\<forall>i < length ks. \<exists>n st en fp'. off_len_of (ks ! i) = Some (n, accs ! i, st, en, fp')"
    using all_accesses [OF ok] by (elim exE conjE) (rule that)
  obtain ds s' where r: "two_phase_read (ops c) fresh h mfs bufsz io_bufs ks accs (starts ks b0) (lasts ks b0) s = Done (map (\<lambda>_. MPI_OK) ks, ds, s')" "inv c s'"
    "content s' = content s" "length ds = length ks" "\<forall>i < length ks. stored (answer g (ks ! i) (b0 i)) (k_mem (ks ! i)) (d_mem (ds ! i))"
    using two_phase_read_ok [OF ok accs inv has, of fresh mfs] by blast
  have "ADIOI_GEN_ReadStridedColl (ops c) io fresh h cb_read mfs bufsz io_bufs ks s =
      Done (CollectiveRead (map (\<lambda>_. MPI_OK) ks) (map d_mem ds) (map (\<lambda>(_, _, _, _, fp). fp) ls) (map k_bytes ks) (sv_forget (ops c) s'))"
    using cb r(1) unfolding ADIOI_GEN_ReadStridedColl_def Let_def ls of_option.simps obind.simps parts by auto
  then show ?thesis using r(2-5) forget_ok unfolding parts by (intro exI [of _ "map d_mem ds"] exI [of _ "sv_forget (ops c) s'"]) simp
qed

end

section \<open>On a file\<close>

text \<open>The cells of the buffer of a process; a buffer to read into has no cell twice.\<close>

abbreviation buffer_cells :: "coll_call \<Rightarrow> int set" where
  "buffer_cells k \<equiv> view_pos (mem_view (k_type k)) ` {0..<k_bytes k}"

abbreviation readable_into :: "coll_call \<Rightarrow> bool" where
  "readable_into k \<equiv> inj_on (view_pos (mem_view (k_type k))) {0..<k_bytes k}"

lemma stored_answer:
  assumes "stored (answer g k b0) m m'" "readable_into k"
  shows "j \<in> {0..<k_bytes k} \<Longrightarrow> m' (view_pos (mem_view (k_type k)) j) = g (view_pos (k_view k) (b0 + j))" "x \<notin> buffer_cells k \<Longrightarrow> m' x = m x"
proof -
  have f: "fst ` answer g k b0 = buffer_cells k" by (simp add: answer_def image_image)
  show "m' x = m x" if "x \<notin> buffer_cells k" using assms(1) that f unfolding stored_def by metis
  show "m' (view_pos (mem_view (k_type k)) j) = g (view_pos (k_view k) (b0 + j))" if j: "j \<in> {0..<k_bytes k}"
  proof -
    let ?x = "view_pos (mem_view (k_type k)) j"
    have "?x \<in> fst ` answer g k b0" unfolding f using j by blast
    then have "(?x, m' ?x) \<in> answer g k b0" using assms(1) unfolding stored_def by metis
    then obtain i where "i \<in> {0..<k_bytes k}" "?x = view_pos (mem_view (k_type k)) i" "m' ?x = g (view_pos (k_view k) (b0 + i))" unfolding answer_def by auto
    then show ?thesis using inj_onD [OF assms(2), of j i] j by metis
  qed
qed

text \<open>The positions a process accesses.\<close>

abbreviation accessed :: "coll_call \<Rightarrow> int \<Rightarrow> int set" where
  "accessed k b0 \<equiv> (\<lambda>j. view_pos (k_view k) (b0 + j)) ` {0..<k_bytes k}"

text \<open>The calls of the example.\<close>

lemma two_calls_buffers:
  "\<forall>k \<in> set two_calls. readable_into k" "length two_calls = 2" "k_bytes (two_calls ! 0) = 16" "k_bytes (two_calls ! 1) = 20"
  "k_view (two_calls ! 0) = marked_view" "k_view (two_calls ! 1) = shifted_view"
proof -
  have "{0..<16 :: int} = {0..15}" by auto
  then have "inj_on (view_pos (mem_view holed_buffer)) {0..<16}" using distinct_positions(2) by simp
  moreover have "inj_on (view_pos (mem_view plain_buffer)) {0..<20}" by (simp add: inj_on_def view_pos_def mem_view_def plain_buffer_def)
  ultimately show "\<forall>k \<in> set two_calls. readable_into k" by (simp add: two_calls_def holed_buffer_def plain_buffer_def)
qed (simp_all add: two_calls_def holed_buffer_def plain_buffer_def)

lemma two_calls_positions:
  "\<forall>i < length two_calls. \<forall>j \<in> {0..<k_bytes (two_calls ! i)}. 100 \<le> view_pos (k_view (two_calls ! i)) (first_bytes i + j) \<and> view_pos (k_view (two_calls ! i)) (first_bytes i + j) < 200"
  "\<forall>i < length two_calls. \<forall>l < length two_calls. i \<noteq> l \<longrightarrow> accessed (two_calls ! i) (first_bytes i) \<inter> accessed (two_calls ! l) (first_bytes l) = {}"
proof -
  have "\<forall>j \<in> set [0..15]. 100 \<le> view_pos marked_view (4 + j) \<and> view_pos marked_view (4 + j) < 200" "\<forall>j \<in> set [0..19]. 100 \<le> view_pos shifted_view j \<and> view_pos shifted_view j < 200"
    "\<forall>i \<in> set [0..15]. \<forall>j \<in> set [0..19]. view_pos marked_view (4 + i) \<noteq> view_pos shifted_view j"
    by code_simp+
  moreover have "{0..<16 :: int} = set [0..15]" "{0..<20 :: int} = set [0..19]" by auto
  ultimately have p: "\<forall>j \<in> {0..<16}. 100 \<le> view_pos marked_view (4 + j) \<and> view_pos marked_view (4 + j) < 200"
    "\<forall>j \<in> {0..<20}. 100 \<le> view_pos shifted_view j \<and> view_pos shifted_view j < 200"
    and d: "\<And>i j. i \<in> {0..<16} \<Longrightarrow> j \<in> {0..<20} \<Longrightarrow> view_pos marked_view (4 + i) \<noteq> view_pos shifted_view j" by metis+
  have N: "i < length two_calls \<longleftrightarrow> i = 0 \<or> i = 1" for i using two_calls_buffers(2) by auto
  show "\<forall>i < length two_calls. \<forall>j \<in> {0..<k_bytes (two_calls ! i)}. 100 \<le> view_pos (k_view (two_calls ! i)) (first_bytes i + j) \<and> view_pos (k_view (two_calls ! i)) (first_bytes i + j) < 200"
  proof (intro allI impI)
    fix i assume "i < length two_calls"
    then consider "i = 0" | "i = 1" unfolding N by blast
    then show "\<forall>j \<in> {0..<k_bytes (two_calls ! i)}. 100 \<le> view_pos (k_view (two_calls ! i)) (first_bytes i + j) \<and> view_pos (k_view (two_calls ! i)) (first_bytes i + j) < 200"
      using p by cases (simp_all only: two_calls_buffers if_True if_False refl one_neq_zero add_0 simp_thms)
  qed
  have "accessed (two_calls ! 0) 4 \<inter> accessed (two_calls ! 1) 0 = {}"
    using d unfolding two_calls_buffers by (auto simp: disjoint_iff)
  then show "\<forall>i < length two_calls. \<forall>l < length two_calls. i \<noteq> l \<longrightarrow> accessed (two_calls ! i) (first_bytes i) \<inter> accessed (two_calls ! l) (first_bytes l) = {}"
    unfolding N by (auto simp: Int_commute)
qed



lemma view_pos_inj: "call_ok k b0 \<Longrightarrow> 0 \<le> b \<Longrightarrow> 0 \<le> c \<Longrightarrow> view_pos (k_view k) b = view_pos (k_view k) c \<Longrightarrow> b = c"
  by (metis view_pos_rises linorder_neqE less_irrefl)

lemma request_unique:
  assumes "call_ok k b0" "j \<in> {0..<k_bytes k}" "(view_pos (k_view k) (b0 + j), b) \<in> request m k b0"
  shows "b = buf_byte (k_type k) m j"
proof -
  obtain i where i: "i \<in> {0..<k_bytes k}" "view_pos (k_view k) (b0 + j) = view_pos (k_view k) (b0 + i)" "b = buf_byte (k_type k) m i"
    using assms(3) unfolding request_def by auto
  have "0 \<le> b0" using assms(1) by (simp add: call_ok_def)
  then have "0 \<le> b0 + j" "0 \<le> b0 + i" using assms(2) i(1) by simp_all
  from view_pos_inj [OF assms(1) this i(2)] show ?thesis using i(3) by simp
qed

text \<open>The same calls with other memories.\<close>

definition with_mems :: "coll_call list \<Rightarrow> (int \<Rightarrow> byte) list \<Rightarrow> coll_call list" where
  "with_mems ks ms = map (\<lambda>(k, m). k\<lparr>k_mem := m\<rparr>) (zip ks ms)"

lemma with_mems_simps:
  assumes "length ms = length ks"
  shows "length (with_mems ks ms) = length ks" "i < length ks \<Longrightarrow> with_mems ks ms ! i = (ks ! i)\<lparr>k_mem := ms ! i\<rparr>"
    "starts (with_mems ks ms) b0 = starts ks b0" "lasts (with_mems ks ms) b0 = lasts ks b0"
  using assms by (simp_all add: with_mems_def)

lemma with_mems_ok:
  assumes "length ms = length ks" "collective_ok h bufsz io_bufs ks b0"
  shows "collective_ok h bufsz io_bufs (with_mems ks ms) b0"
proof -
  note w = with_mems_simps [OF assms(1)]
  have "with_mems ks ms \<noteq> []" using assms(2) w(1) by (auto simp: collective_ok_def)
  then show ?thesis
    unfolding collective_ok_def
    unfolding w(4)
    unfolding w(3)
    using assms(2) by (auto simp: collective_ok_def w(1,2) call_ok_def)
qed

lemma written_positions:
  assumes "collective_ok h bufsz io_bufs ks b0" "\<forall>i < length ks. \<forall>l < length ks. i \<noteq> l \<longrightarrow> accessed (ks ! i) (b0 i) \<inter> accessed (ks ! l) (b0 l) = {}"
    and "wrote (requests ks b0) X f f'" "i < length ks" "j \<in> {0..<k_bytes (ks ! i)}"
  shows "f' (view_pos (k_view (ks ! i)) (b0 i + j)) = Some (buf_byte (k_type (ks ! i)) (k_mem (ks ! i)) j)"
proof -
  let ?q = "view_pos (k_view (ks ! i)) (b0 i + j)"
  have "(?q, buf_byte (k_type (ks ! i)) (k_mem (ks ! i)) j) \<in> requests ks b0" using assms(4,5) unfolding requests_in_def request_def by blast
  then have "?q \<in> fst ` requests ks b0" by force
  then obtain b where b: "(?q, b) \<in> requests ks b0" "f' ?q = Some b" using assms(3) unfolding wrote_def by metis
  then obtain l where l: "l < length ks" "(?q, b) \<in> request (k_mem (ks ! l)) (ks ! l) (b0 l)" unfolding requests_in_def by blast
  then have "?q \<in> accessed (ks ! l) (b0 l)" unfolding request_def by auto
  moreover have "?q \<in> accessed (ks ! i) (b0 i)" using assms(5) by blast
  ultimately have "l = i" using assms(2,4) l(1) by blast
  moreover have "call_ok (ks ! i) (b0 i)" using assms(1,4) by (simp add: collective_ok_def)
  ultimately have "b = buf_byte (k_type (ks ! i)) (k_mem (ks ! i)) j" using request_unique [OF _ assms(5)] l(2) by simp
  then show ?thesis using b(2) by simp
qed



end
