(* ===== verification/Byte_Locks.thy ===== *)
theory Byte_Locks
  imports Cache_Sync
begin

text \<open>
  Byte-range locks (\<open>romio/adio/common/lock.c\<close>, the branch for POSIX systems): \<open>ADIOI_Set_lock\<close>
  with its loop over interrupted calls of \<open>fcntl\<close>, over a table of the locks the processes hold.
  The results of \<open>fcntl\<close> are a parameter; what a granted call does to the table is what POSIX
  documents: a lock is granted when no other process holds a conflicting one on a byte of the
  range, and it replaces what the caller held there. The macros of \<open>adioi.h\<close> take locks with
  \<open>F_SETLKW\<close>, which waits, and release them with \<open>F_SETLK\<close>, which cannot conflict, so the command is
  determined by the type of the lock; their ranges start at \<open>SEEK_SET\<close> and have no negative length.
\<close>

section \<open>The lock table\<close>

datatype lock_type = F_RDLCK | F_WRLCK | F_UNLCK

text \<open>The lock a process holds on a byte. A process never holds \<open>F_UNLCK\<close>.\<close>

type_synonym lock_table = "nat \<Rightarrow> int \<Rightarrow> lock_type option"

definition conflicts :: "lock_type \<Rightarrow> lock_type option \<Rightarrow> bool" where
  "conflicts t held = (case held of None \<Rightarrow> False | Some h \<Rightarrow> t = F_WRLCK \<or> (t = F_RDLCK \<and> h = F_WRLCK))"

text \<open>\<open>n\<close> is the number of processes, \<open>p\<close> the caller.\<close>

definition lockable :: "nat \<Rightarrow> nat \<Rightarrow> lock_type \<Rightarrow> int \<Rightarrow> int \<Rightarrow> lock_table \<Rightarrow> bool" where
  "lockable n p t off len L \<longleftrightarrow>
     list_all (\<lambda>q. q = p \<or> list_all (\<lambda>b. \<not> conflicts t (L q b)) [off .. off + len - 1]) [0 ..< n]"

definition set_range :: "nat \<Rightarrow> lock_type \<Rightarrow> int \<Rightarrow> int \<Rightarrow> lock_table \<Rightarrow> lock_table" where
  "set_range p t off len L = L(p := (\<lambda>b. if off \<le> b \<and> b < off + len
     then (if t = F_UNLCK then None else Some t) else L p b))"

section \<open>Setting a lock\<close>

text \<open>What a call of \<open>fcntl\<close> leaves in \<open>errno\<close> when it fails.\<close>

datatype lock_errno = EINTR | EINPROGRESS | LK_EBADF | LK_OTHER int

text \<open>
  The retry loop: \<open>fc k\<close> is the result of the \<open>k\<close>-th call, \<open>None\<close> for success; \<open>err_count\<close> counts
  the calls that failed with \<open>EINPROGRESS\<close>. The result is that of the last call; \<open>None\<close> is a loop
  that has not ended after \<open>fuel\<close> calls.
\<close>

fun lock_loop :: "nat \<Rightarrow> (nat \<Rightarrow> lock_errno option) \<Rightarrow> nat \<Rightarrow> nat \<Rightarrow> lock_errno option option" where
  "lock_loop 0 fc k err_count = None"
| "lock_loop (Suc fuel) fc k err_count =
     (case fc k of
        None \<Rightarrow> Some None
      | Some e \<Rightarrow>
          if e = EINTR then lock_loop fuel fc (Suc k) err_count
          else if e = EINPROGRESS \<and> err_count + 1 < 10000 then lock_loop fuel fc (Suc k) (err_count + 1)
          else Some (Some e))"

text \<open>
  \<open>Lock_abort\<close> is the call of \<open>MPI_Abort\<close>. On success the value \<open>errno\<close> had before is restored.
  A call with \<open>len = 0\<close> does nothing: to \<open>fcntl\<close> a length of 0 means the rest of the file.
\<close>

datatype lock_result = Lock_ok | Lock_unknown | Lock_abort

definition ADIOI_Set_lock ::
  "nat \<Rightarrow> nat \<Rightarrow> (nat \<Rightarrow> lock_errno option) \<Rightarrow> nat \<Rightarrow> lock_type \<Rightarrow> int \<Rightarrow> int \<Rightarrow> lock_errno option \<Rightarrow> lock_table \<Rightarrow>
   (lock_result \<times> lock_errno option \<times> lock_table) outcome" where
  "ADIOI_Set_lock n fuel fc p t off len sav_errno L =
     (if len = 0 then Done (Lock_ok, sav_errno, L)
      else case lock_loop fuel fc 0 0 of
          None \<Rightarrow> Blocked
        | Some None \<Rightarrow>
            if lockable n p t off len L then Done (Lock_ok, sav_errno, set_range p t off len L) else Blocked
        | Some (Some e) \<Rightarrow> Done (if e = LK_EBADF then Lock_unknown else Lock_abort, Some e, L))"

text \<open>
  The variant for file systems with 64-bit locks retries on \<open>EINTR\<close> only, and leaves \<open>errno\<close> as the
  last call left it: \<open>e0\<close> before the loop, which successful calls do not change.
\<close>

fun lock_loop64 :: "nat \<Rightarrow> (nat \<Rightarrow> lock_errno option) \<Rightarrow> nat \<Rightarrow> lock_errno option \<Rightarrow> (lock_errno option \<times> lock_errno option) option" where
  "lock_loop64 0 fc k e0 = None"
| "lock_loop64 (Suc fuel) fc k e0 =
     (case fc k of
        None \<Rightarrow> Some (None, e0)
      | Some e \<Rightarrow> if e = EINTR then lock_loop64 fuel fc (Suc k) (Some e) else Some (Some e, Some e))"

definition ADIOI_Set_lock64 ::
  "nat \<Rightarrow> nat \<Rightarrow> (nat \<Rightarrow> lock_errno option) \<Rightarrow> nat \<Rightarrow> lock_type \<Rightarrow> int \<Rightarrow> int \<Rightarrow> lock_errno option \<Rightarrow> lock_table \<Rightarrow>
   (lock_result \<times> lock_errno option \<times> lock_table) outcome" where
  "ADIOI_Set_lock64 n fuel fc p t off len e0 L =
     (if len = 0 then Done (Lock_ok, e0, L)
      else case lock_loop64 fuel fc 0 e0 of
          None \<Rightarrow> Blocked
        | Some (None, e) \<Rightarrow>
            if lockable n p t off len L then Done (Lock_ok, e, set_range p t off len L) else Blocked
        | Some (Some e, e') \<Rightarrow> Done (if e = LK_EBADF then Lock_unknown else Lock_abort, e', L))"

section \<open>Exclusion\<close>

lemma lockable_iff:
  "lockable n p t off len L \<longleftrightarrow> (\<forall>q < n. q \<noteq> p \<longrightarrow> (\<forall>b. off \<le> b \<and> b < off + len \<longrightarrow> \<not> conflicts t (L q b)))"
  by (auto simp: lockable_def list_all_iff)

text \<open>No two processes hold conflicting locks on a byte.\<close>

definition table_ok :: "nat \<Rightarrow> lock_table \<Rightarrow> bool" where
  "table_ok n L \<longleftrightarrow> (\<forall>p < n. \<forall>q < n. p \<noteq> q \<longrightarrow> (\<forall>b. L p b = Some F_WRLCK \<longrightarrow> L q b = None)) \<and>
     (\<forall>p b. L p b \<noteq> Some F_UNLCK)"

lemma lockable_unlock [simp]: "lockable n p F_UNLCK off len L"
  by (auto simp: lockable_iff conflicts_def split: option.splits)

lemma set_range_at:
  "set_range p t off len L q b = (if q = p \<and> off \<le> b \<and> b < off + len
     then (if t = F_UNLCK then None else Some t) else L q b)"
  by (simp add: set_range_def)

lemma set_range_ok:
  assumes "table_ok n L" "lockable n p t off len L" "p < n"
  shows "table_ok n (set_range p t off len L)"
proof -
  let ?L = "set_range p t off len L"
  have free: "\<not> conflicts t (L q b)" if "q < n" "q \<noteq> p" "off \<le> b" "b < off + len" for q b
    using assms(2) that by (simp add: lockable_iff)
  have held: "L q b = None" if "p' < n" "q < n" "p' \<noteq> q" "L p' b = Some F_WRLCK" for p' q b
    using assms(1) that unfolding table_ok_def by blast
  have "?L q b = None" if h: "p' < n" "q < n" "p' \<noteq> q" "?L p' b = Some F_WRLCK" for p' q b
  proof (cases "off \<le> b \<and> b < off + len")
    case False
    then show ?thesis using held [OF h(1-3), of b] h(4) by (auto simp: set_range_at)
  next
    case True
    consider "p' = p" | "q = p" | "p' \<noteq> p" "q \<noteq> p" by blast
    then show ?thesis
    proof cases
      case 1
      then have "t = F_WRLCK" using h(4) True by (auto simp: set_range_at split: if_splits)
      then show ?thesis using free [of q b] h(2,3) True 1
        by (auto simp: set_range_at conflicts_def split: option.splits)
    next
      case 2
      then have "L p' b = Some F_WRLCK" using h(3,4) by (simp add: set_range_at)
      then have "t = F_UNLCK" using free [of p' b] h(1,3) True 2 by (cases t) (auto simp: conflicts_def)
      then show ?thesis using True 2 by (simp add: set_range_at)
    next
      case 3
      then show ?thesis using held [OF h(1-3), of b] h(4) by (simp add: set_range_at)
    qed
  qed
  moreover have "?L q b \<noteq> Some F_UNLCK" for q b
    using assms(1) by (auto simp: set_range_at table_ok_def)
  ultimately show ?thesis by (simp add: table_ok_def)
qed

lemma Set_lock_ok:
  assumes "table_ok n L" "p < n" "ADIOI_Set_lock n fuel fc p t off len sav L = Done (r, e, L')"
  shows "table_ok n L'"
  using assms set_range_ok [of n L p t off len]
  by (auto simp: ADIOI_Set_lock_def split: if_splits option.splits)

lemma Set_lock64_ok:
  assumes "table_ok n L" "p < n" "ADIOI_Set_lock64 n fuel fc p t off len e0 L = Done (r, e, L')"
  shows "table_ok n L'"
  using assms set_range_ok [of n L p t off len]
  by (auto simp: ADIOI_Set_lock64_def split: if_splits option.splits)

section \<open>The loop returns\<close>

text \<open>The number of calls up to \<open>k\<close> that failed with \<open>EINPROGRESS\<close>.\<close>

definition in_progress :: "(nat \<Rightarrow> lock_errno option) \<Rightarrow> nat \<Rightarrow> nat \<Rightarrow> nat" where
  "in_progress fc k j = length (filter (\<lambda>i. fc i = Some EINPROGRESS) [k ..< k + j])"

lemma in_progress_Suc:
  "in_progress fc k (Suc j) = (if fc k = Some EINPROGRESS then 1 else 0) + in_progress fc (Suc k) j"
  by (simp add: in_progress_def upt_conv_Cons del: upt_Suc)

lemma lock_loop_retries:
  assumes "\<forall>i < j. fc (k + i) = Some EINTR \<or> fc (k + i) = Some EINPROGRESS"
    and "c + in_progress fc k j < 10000" "j < fuel"
  shows "lock_loop fuel fc k c = lock_loop (fuel - j) fc (k + j) (c + in_progress fc k j)"
  using assms
proof (induction j arbitrary: fuel k c)
  case 0
  then show ?case by (simp add: in_progress_def)
next
  case (Suc j)
  obtain m where m: "fuel = Suc m" using Suc.prems(3) by (cases fuel) auto
  have s: "\<forall>i < j. fc (Suc k + i) = Some EINTR \<or> fc (Suc k + i) = Some EINPROGRESS"
    using Suc.prems(1) by auto
  let ?c = "c + (if fc k = Some EINPROGRESS then 1 else 0)"
  have "lock_loop fuel fc k c = lock_loop m fc (Suc k) ?c"
    using Suc.prems(1) [rule_format, of 0] Suc.prems(2) m by (auto simp: in_progress_Suc)
  also have "\<dots> = lock_loop (m - j) fc (Suc k + j) (?c + in_progress fc (Suc k) j)"
    by (rule Suc.IH) (use s Suc.prems(2,3) m in \<open>auto simp: in_progress_Suc\<close>)
  finally show ?case using m by (simp add: in_progress_Suc add.assoc)
qed

text \<open>
  Without \<open>EINPROGRESS\<close> the two variants end with the same result and the same table; what they leave
  in \<open>errno\<close> may differ after an interrupted call.
\<close>

lemma lock_loop64_agrees:
  "\<forall>i. fc i \<noteq> Some EINPROGRESS \<Longrightarrow> lock_loop fuel fc k c = map_option fst (lock_loop64 fuel fc k e0)"
  by (induction fuel arbitrary: k e0) (auto split: option.splits)

lemma Set_lock64_agrees:
  assumes "\<forall>i. fc i \<noteq> Some EINPROGRESS" "ADIOI_Set_lock64 n fuel fc p t off len e0 L = Done (r, e, L')"
  shows "\<exists>e'. ADIOI_Set_lock n fuel fc p t off len e0 L = Done (r, e', L')"
  using assms(2) lock_loop64_agrees [OF assms(1), of fuel 0 0 e0]
  by (auto simp: ADIOI_Set_lock_def ADIOI_Set_lock64_def split: if_splits option.splits)

text \<open>
  C38: \<open>ADIOI_Set_lock\<close> rides out interrupted calls: if the first \<open>j\<close> calls of \<open>fcntl\<close> fail with \<open>EINTR\<close>
  (any number of times) or \<open>EINPROGRESS\<close> (fewer than 10000 times) and the next one is granted, it
  returns success with \<open>errno\<close> as it was, the caller holds the lock on every byte of the range and
  no other process holds a conflicting one anywhere; with the 10000-th \<open>EINPROGRESS\<close> it aborts.
\<close>

theorem Set_lock_retries:
  assumes "table_ok n L" "p < n" "0 < len" "lockable n p t off len L"
    and "\<forall>i < j. fc i = Some EINTR \<or> fc i = Some EINPROGRESS" "in_progress fc 0 j < 10000" "j < fuel"
  shows "(fc j = None \<longrightarrow> (\<exists>L'. ADIOI_Set_lock n fuel fc p t off len sav L = Done (Lock_ok, sav, L') \<and> table_ok n L' \<and>
       (\<forall>b. off \<le> b \<and> b < off + len \<longrightarrow> L' p b = (if t = F_UNLCK then None else Some t)))) \<and>
     (fc j = Some EINPROGRESS \<and> in_progress fc 0 j = 9999 \<longrightarrow>
       ADIOI_Set_lock n fuel fc p t off len sav L = Done (Lock_abort, Some EINPROGRESS, L))"
proof -
  have loop: "lock_loop fuel fc 0 0 = lock_loop (fuel - j) fc j (in_progress fc 0 j)"
    using lock_loop_retries [of j fc 0 0 fuel] assms(5-7) by simp
  obtain m where m: "fuel - j = Suc m" using assms(7) by (cases "fuel - j") auto
  show ?thesis
    using loop m assms(3,4) set_range_ok [OF assms(1,4,2)]
    by (auto simp: ADIOI_Set_lock_def set_range_at)
qed

theorem Set_lock_retries_witness:
  "\<exists>L'. ADIOI_Set_lock 2 9 (\<lambda>k. if k < 3 then Some EINTR else None) 1 F_WRLCK 0 8 None (\<lambda>q b. None) =
     Done (Lock_ok, None, L') \<and> L' 1 5 = Some F_WRLCK"
proof -
  let ?fc = "\<lambda>k :: nat. if k < 3 then Some EINTR else None" and ?L = "\<lambda>(q :: nat) (b :: int). None"
  have "table_ok 2 ?L" "lockable 2 1 F_WRLCK 0 8 ?L" "in_progress ?fc 0 3 < 10000"
    by (simp_all add: table_ok_def lockable_iff conflicts_def in_progress_def upt_conv_Cons)
  then obtain L' where "ADIOI_Set_lock 2 9 ?fc 1 F_WRLCK 0 8 None ?L = Done (Lock_ok, None, L')"
      "\<forall>b. 0 \<le> b \<and> b < 0 + 8 \<longrightarrow> L' 1 b = Some F_WRLCK"
    using Set_lock_retries [of 2 ?L 1 8 F_WRLCK 0 3 ?fc 9 None] by auto
  then show ?thesis by auto
qed

end
