(* ===== verification/Spec2Isabelle.thy ===== *)
theory Spec2Isabelle
  imports Linked_List Atomic_Queue Cache_Sync Cache_Protocol Cache_IO Heap_Sort Aggregation
    C_Strings Info_Object Hints Config_List File_View Access_List Array_Types
    Sieve_File Coll_Read_Call Byte_Locks
begin

text \<open>
  Verification of the E10 extension of ROMIO, the MPI-IO library under \<open>src/romio\<close>.

  The program.  ROMIO implements MPI-IO over an abstract device, ADIO (\<open>src/romio/adio\<close>). E10
  adds a cache in a local file system: a write goes to a cache file, a sync request is handed to
  a thread that copies the range to the global file, and a flush waits for these requests. Around
  it stand the parts every MPI-IO call uses: the hints and the info objects they come from, the
  choice of the aggregators, the partition of a collective access into file domains, and the
  translation of positions through a file view.

  The theories, in the order of their dependence:

  \<^item> \<open>E10_Prelude\<close>: addresses, offsets, the result type \<open>outcome\<close> (a value, a blocked call, a
    fault), C division and the lemmas the components share.
  \<^item> \<open>Linked_List\<close>: \<open>adio/include/list.h\<close> on a store of nodes. The predicate \<open>dll\<close> relates a ring
    of nodes to a list of addresses; the lemmas give the effect of each operation on it.
  \<^item> \<open>Atomic_Queue\<close>: \<open>adi_atomic_queue.c\<close>, the queue over such a ring with its counter and its
    envelopes, and the sync requests with their variadic key functions. Each operation holds the
    mutex of the queue from begin to end and is one step. The queue refines a list.
  \<^item> \<open>Cache_Sync\<close>: \<open>adi_cache_sync.c\<close> and \<open>adi_cache_alloc.c\<close>, the three queues of a sync thread
    (submitted, pending, waiting), its initialisation, flush, wait and shutdown, the pool, and the
    loop of the thread as a step function \<open>sync_step\<close> with a program counter: one step per queue
    operation, transfer or completion. Files are maps from offsets to bytes with a length.
  \<^item> \<open>Cache_Protocol\<close>: the interleaving of the application (write, flush, wait) with one sync
    thread as an inductive step relation, its invariant and the measure of the work left.
  \<^item> \<open>Cache_IO\<close>: \<open>ADIOI_GEN_WriteContig\<close>, \<open>ADIOI_GEN_ReadContig\<close>, \<open>ADIOI_GEN_Flush\<close> as functions on
    the file handle, with the loops over partial transfers. The link to the protocol carries its
    invariant over to the functions.
  \<^item> \<open>Byte_Locks\<close>: \<open>lock.c\<close>, the calls of \<open>fcntl\<close> with their retries over a table of the locks the processes hold.
  \<^item> \<open>Heap_Sort\<close>: \<open>heap-sort.c\<close>, a binary heap in an array; every access has its bound check.
  \<^item> \<open>Aggregation\<close>: \<open>ad_aggregate.c\<close>, the file domains, the aggregator of an offset, the requests
    of a process to each aggregator and their exchange.
  \<^item> \<open>C_Strings\<close>: \<open>strfns.c\<close>, on arrays of characters with a null.
  \<^item> \<open>Info_Object\<close>: \<open>mpi2-other/info\<close>, the linked pairs with the checks that abort.
  \<^item> \<open>Hints\<close>: \<open>hint_fns.c\<close> and \<open>ad_hints.c\<close>, over the interface of info objects (a locale), which is
    interpreted on the pairs of \<open>Info_Object\<close> and on maps.
  \<^item> \<open>Config_List\<close>: \<open>cb_config_list.c\<close>, lexer, parser and the matching of processors.
  \<^item> \<open>File_View\<close>: \<open>byte_offset.c\<close>, \<open>get_fp_posn.c\<close>, \<open>eof_offset.c\<close>, \<open>ad_seek.c\<close>.
  \<^item> \<open>Access_List\<close>: \<open>ADIOI_Calc_my_off_len\<close> of \<open>ad_read_coll.c\<close>, the list of accesses of a process.
  \<^item> \<open>Strided_IO\<close>: \<open>ad_write_str_naive.c\<close> and \<open>ad_read_str_naive.c\<close>, the walk through buffer and view,
    over a record of the calls on the file. \<open>Strided_File\<close> states what it needs of a file as
    locales (\<open>byte_store\<close>, \<open>readable_store\<close>), interprets them on the contiguous operations of
    \<open>Cache_IO\<close> without and with the cache, and has the theorems on the bytes.
  \<^item> \<open>Sieving\<close>: \<open>ad_write_str.c\<close> and \<open>ad_read_str.c\<close>, the same walk through a window that is read, changed and
    written back. \<open>Sieving_Correct\<close> shows that the walks issue the pieces of the request, \<open>Sieve_Windows\<close> has the
    interface of a file to the windows (the locale \<open>sieved_file\<close>) and the refinement of a file by window and file,
    \<open>Sieve_File\<close> interprets it on the file without a cache and compares with the naive operations.
  \<^item> \<open>Coll_Write\<close>: \<open>ADIOI_Exch_and_write\<close> of \<open>ad_write_coll.c\<close>, all processes together, in rounds; \<open>Heap_Merge\<close> has its merge of
    offset lists. \<open>Coll_Round\<close> shows what an aggregator plans and receives in a round, \<open>Coll_Send\<close> what a process sends,
    \<open>Coll_Rounds\<close>, \<open>Coll_Loop\<close> and \<open>Coll_Exchange\<close> go from there to all rounds over a file (the locale \<open>sieved_file\<close>).
  \<^item> \<open>Coll_Setup\<close>: what collective calls do before the exchange, from the calls of the processes to the requests of the aggregators.
    \<open>Coll_Call\<close> is \<open>ADIOI_GEN_WriteStridedColl\<close> on a file without a cache.
  \<^item> \<open>Coll_Read\<close>: \<open>ADIOI_Read_and_exch\<close> of \<open>ad_read_coll.c\<close>; \<open>Coll_Receive\<close> shows where what a process receives goes, \<open>Coll_Input\<close> has the rounds,
    \<open>Coll_Read_Call\<close> is \<open>ADIOI_GEN_ReadStridedColl\<close>, with the theorem that it reads back what the collective write wrote.
  \<^item> \<open>Datatypes\<close>: MPI datatypes as trees of combiners, their type maps, \<open>iscontig.c\<close>, and the types built
    by \<open>ad_subarray.c\<close> and \<open>ad_darray.c\<close>.
  \<^item> \<open>Flatten\<close>: \<open>flatten.c\<close>, counting, flattening of every combiner, merging and the list of flattened
    types. \<open>Flatten_Loops\<close> has the lemmas on its loops, \<open>Flatten_Correct\<close> the rules for the combiners
    and the theorems, \<open>Array_Types\<close> the meaning of subarrays and distributed arrays.

  What is shown.  For the cache: after a flush the global file has the last value of every byte
  written, under every interleaving; the sync thread never faults; waiting for the last request is
  enough; a flush can always complete. For the data path: reads and writes,
  contiguous and strided, end and transfer exactly the bytes asked for, or report the error; a
  strided write through the cache is durable after a flush, and reads back; data sieving reads and
  writes what the naive operations do, whatever the size of its buffer. For collective I/O: the file domains partition
  the access, the access list of a process is what it asked for of its view, requests are split
  and exchanged without loss, a collective write puts the bytes of every process at their positions and keeps all others, a collective read
  delivers them, and the two are inverse for disjoint requests; the parser of the configuration ends and picks distinct ranks. For
  views: positions round-trip and agree with the enumeration of the bytes of the view. For locks: interrupted calls are
  retried to the end and no two processes ever hold conflicting locks. For
  datatypes: counting and flattening agree, the blocks cover exactly the type map in its order,
  subarrays and distributed arrays select the elements they stand for. The theorem of this theory
  joins them: a collective access through a view over a flattened filetype touches exactly the
  type map of the filetype. For the data structures: rings, queues and heaps refine lists, lists
  and multisets. Some lemmas show that the code does not do what it means to: the allocation of
  the cache path is one byte short, the key of a sync request falls through, the lock of a failed
  write is kept, the default of the cache path aborts over ROMIO's info objects,
  \<open>build_heap\<close> reads past its array, two string functions leave a string without its
  null, flattening is wrong for some types with empty parts, markers or lower bounds, data
  sieving over a cached file brings back old bytes, and a collective write is lost when the space for the cache cannot be allocated.

  Integers.  Offsets and counts are \<open>int\<close>; the theorems carry the bound where the width of the
  source matters. C division is truncated division (\<open>sdiv\<close>, \<open>smod\<close>).

  What is a parameter.  The MPI library (generalized requests, datatype sizes, collective calls)
  and the operating system (how much a \<open>pread\<close> or \<open>pwrite\<close> transfers, whether it fails, whether a
  thread can be created) are arguments of the definitions; the hypotheses on them are their
  documented behaviour, and the witnesses instantiate them with concrete functions.

  Fuel.  The loops over partial transfers take as fuel the number of bytes; every transfer moves
  at least one byte, so it is enough, and the theorems state that the functions return. The loop
  of the sync thread is not bounded: it is a step function, with runs of the length the measure
  of the work left gives. The two passes of the access list and the loops of the strided operations may run for ever on a
  degenerate view, those of the windows on a buffer of size 0: they are partial functions, and the theorems show that they return. All other loops are total
  functions with termination proofs.

  Not modelled.  The alternative implementation of collective I/O behind the hint \<open>romio_cb_pfr\<close> (\<open>ADIOI_IOStridedColl\<close>), open
  and close, shared file pointers, the file-system drivers (system calls of particular file
  systems), the MPI bindings, the bundled logging library \<open>src/mpe2\<close>, tests and benchmarks. More
  than one sync thread of a file is modelled as far as pool, submission and flush go; the
  interleaving proofs are for one thread.
\<close>

section \<open>From datatypes to accesses\<close>

text \<open>The byte positions of a list of blocks, as views enumerate them.\<close>

lemma blocks_size_bytes: "nonneg bs \<Longrightarrow> blocks_size bs = int (length (bytes_of_blocks bs))"
  by (induction bs) (auto simp: blocks_size_def)

lemma block_pos_bytes:
  "nonneg bs \<Longrightarrow> 0 \<le> k \<Longrightarrow> k < blocks_size bs \<Longrightarrow> block_pos bs k = bytes_of_blocks bs ! nat k"
proof (induction bs arbitrary: k)
  case (Cons b bs)
  obtain i l where b: "b = (i, l)" by force
  then have l: "0 \<le> l" "length [i..i + l - 1] = nat l" using Cons.prems(1) by simp_all
  show ?case
  proof (cases "k < l")
    case True
    then show ?thesis using Cons.prems(2) b by (simp add: nth_append)
  next
    case False
    then have "nat k - nat l = nat (k - l)" "\<not> nat k < nat l" using l(1) by simp_all
    then show ?thesis
      using Cons.IH [of "k - l"] Cons.prems False b l by (simp add: nth_append)
  qed
qed (simp add: blocks_size_def)

text \<open>
  A view over a filetype that \<open>ADIOI_Flatten_datatype\<close> has flattened.
\<close>

definition view_over :: "type_env \<Rightarrow> int \<Rightarrow> int \<Rightarrow> mpi_type \<Rightarrow> flat_node \<Rightarrow> view" where
  "view_over E disp es t node = \<lparr>vdisp = disp, etype_size = es, filetype_size = tsize E t,
     filetype_extent = textent E t, filetype_is_contig = tcontig E t, blocks = take (nat (fcount node)) (fblocks node)\<rparr>"

text \<open>
  C17: the whole way from a filetype to the accesses of a collective operation. The filetype is any
  regular datatype of positive size that is not contiguous; \<open>ADIOI_Flatten_datatype\<close> adds its blocks to the
  list of flattened types, and \<open>ADIOI_Calc_my_off_len\<close>, given the view over that node and an explicit offset,
  returns accesses that are, byte for byte and in order, the type map of the datatype laid out
  from the displacement on, one instance per extent.
\<close>

theorem collective_access_follows_type_map:
  assumes "type_laws E" "regular E t" "\<not> tcontig E t" "flats \<noteq> []" "h \<notin> fhandle_of ` set flats"
    and "tsize E t = int (length (type_map E t))" "0 < tsize E t" "0 < es" "es dvd tsize E t"
    and "0 \<le> offset" "0 \<le> bufsize"
  shows "\<exists>node count acc first last fp'.
    ADIOI_Flatten_datatype E fresh h t flats = Some (flats @ [node]) \<and>
    ADIOI_Calc_my_off_len (view_over E disp es t node) False fp offset bufsize = Some (count, acc, first, last, fp') \<and>
    length acc = count \<and>
    concat (map (\<lambda>(p, l). [p..p + l - 1]) acc) =
      map (\<lambda>b. disp + (b div tsize E t) * textent E t + type_map E t ! nat (b mod tsize E t))
        [offset * es..offset * es + bufsize - 1]"
proof -
  obtain bs where node: "ADIOI_Flatten_datatype E fresh h t flats =
      Some (flats @ [\<lparr>fhandle_of = h, fcount = int (length bs), fblocks = bs\<rparr>])"
    and bs: "bytes_of_blocks bs = type_map E t" "nonneg bs"
    using flatten_datatype_ok [OF assms(1-5), of fresh] by blast
  define v where "v = view_over E disp es t \<lparr>fhandle_of = h, fcount = int (length bs), fblocks = bs\<rparr>"
  have v: "vdisp v = disp" "etype_size v = es" "filetype_size v = tsize E t" "filetype_extent v = textent E t"
    "filetype_is_contig v = tcontig E t" "blocks v = bs"
    by (simp_all add: v_def view_over_def)
  have size: "blocks_size bs = tsize E t" using blocks_size_bytes [OF bs(2)] bs(1) assms(6) by simp
  have "access_ok False v" "starts_at v False fp offset (offset * es)" "0 \<le> offset * es"
    using assms v size bs(2) by (simp_all add: access_ok_def walkable_def nonneg_def starts_at_def)
  then obtain count acc last fp' where r: "ADIOI_Calc_my_off_len v False fp offset bufsize =
      Some (count, acc, view_pos v (offset * es), last, fp')" "length acc = count"
    "concat (map (\<lambda>(p, l). [p..p + l - 1]) acc) = map (view_pos v) [offset * es..offset * es + bufsize - 1]"
    using access_list_ok [of False v "offset * es" bufsize fp offset] assms(11) by blast
  have "view_pos v b = disp + (b div tsize E t) * textent E t + type_map E t ! nat (b mod tsize E t)" for b
    using assms(3,7) v bs block_pos_bytes [OF bs(2), of "b mod tsize E t"] size by (simp add: view_pos_def)
  then show ?thesis
    using node r unfolding v_def by (intro exI conjI) (assumption | simp)+
qed

definition demo_filetype :: mpi_type where
  "demo_filetype = RESIZED 0 64 (VECTOR 3 2 4 (NAMED 0))"

theorem collective_access_follows_type_map_witness:
  "\<exists>node count acc first last fp'.
    ADIOI_Flatten_datatype (std_env (\<lambda>_. 4)) (\<lambda>_. (0, 0)) 1 demo_filetype [sentinel] = Some ([sentinel] @ [node]) \<and>
    ADIOI_Calc_my_off_len (view_over (std_env (\<lambda>_. 4)) 100 4 demo_filetype node) False 0 5 40 =
      Some (count, acc, first, last, fp') \<and>
    length acc = count \<and>
    concat (map (\<lambda>(p, l). [p..p + l - 1]) acc) =
      map (\<lambda>b. 100 + (b div tsize (std_env (\<lambda>_. 4)) demo_filetype) * textent (std_env (\<lambda>_. 4)) demo_filetype +
               type_map (std_env (\<lambda>_. 4)) demo_filetype ! nat (b mod tsize (std_env (\<lambda>_. 4)) demo_filetype))
        [5 * 4..5 * 4 + 40 - 1]"
  by (rule collective_access_follows_type_map [OF std_env_laws])
    (simp_all add: demo_filetype_def simple_type_def sentinel_def spread_def upto_rec1 move_def)

end
